(* ===== verification/Prelude.thy ===== *)
theory Prelude imports Main "HOL-Library.Word" begin

text \<open>
  Shared material of the development.

  The client keeps its ordered containers in \<open>base::flat_map\<close> and \<open>base::flat_set\<close>
  (of the \<open>lib_base\<close> submodule, used like \<open>std::map\<close> and \<open>std::set\<close>). They are
  represented here by what iterating over them yields: the list of the entries in strictly
  increasing order of their keys. \<open>flat_emplace\<close> is the \<open>emplace\<close> of the standard
  containers (it keeps an entry that is already there), and the bounds are those of
  \<open>std::lower_bound\<close> and \<open>std::upper_bound\<close>, as an index into the range.

  Signed 32-bit values are integers whose additions go through \<open>i32\<close>, unsigned ones
  go through \<open>u32\<close>; both are the identity on the range of the type.
\<close>

unbundle bit_operations_syntax

named_theorems flat_simps "look-up and membership after an operation of a flat container"

section \<open>Machine integers\<close>

definition i32 :: "int \<Rightarrow> int" where
  "i32 x = (x + 2 ^ 31) mod 2 ^ 32 - 2 ^ 31"

definition u32 :: "int \<Rightarrow> int" where
  "u32 x = x mod 2 ^ 32"

definition in_i32 :: "int \<Rightarrow> bool" where
  "in_i32 x \<longleftrightarrow> - (2 ^ 31) \<le> x \<and> x < 2 ^ 31"

lemma i32_id [simp]: "in_i32 x \<Longrightarrow> i32 x = x"
  by (simp add: i32_def in_i32_def)

lemma in_i32_i32 [simp]: "in_i32 (i32 x)"
proof -
  have "0 \<le> (x + 2 ^ 31) mod 2 ^ 32" "(x + 2 ^ 31) mod 2 ^ 32 < (2 ^ 32 :: int)"
    by (rule pos_mod_sign, simp, rule pos_mod_bound, simp)
  then show ?thesis by (simp add: i32_def in_i32_def)
qed

lemma u32_id [simp]: "0 \<le> x \<Longrightarrow> x < 2 ^ 32 \<Longrightarrow> u32 x = x"
  by (simp add: u32_def)

lemma u32_nonneg [simp]: "0 \<le> u32 x"
  by (simp add: u32_def)

lemma u32_less [simp]: "u32 x < 2 ^ 32" "u32 x < 4294967296"
  using pos_mod_bound [of "2 ^ 32 :: int" x] by (simp_all add: u32_def)

text \<open>Division and remainder of C++ truncate towards zero.\<close>

definition tdiv :: "int \<Rightarrow> int \<Rightarrow> int" where
  "tdiv a b = sgn a * sgn b * (\<bar>a\<bar> div \<bar>b\<bar>)"

definition tmod :: "int \<Rightarrow> int \<Rightarrow> int" where
  "tmod a b = sgn a * (\<bar>a\<bar> mod \<bar>b\<bar>)"

lemma tdiv_nonneg [simp]: "0 \<le> a \<Longrightarrow> 0 < b \<Longrightarrow> tdiv a b = a div b"
  by (cases "a = 0") (simp_all add: tdiv_def)

lemma tmod_nonneg [simp]: "0 \<le> a \<Longrightarrow> 0 < b \<Longrightarrow> tmod a b = a mod b"
  by (cases "a = 0") (simp_all add: tmod_def)

section \<open>Strictly sorted lists: flat sets\<close>

abbreviation ssorted :: "'a::linorder list \<Rightarrow> bool" where
  "ssorted \<equiv> sorted_wrt (<)"

fun flat_insert :: "'a::linorder \<Rightarrow> 'a list \<Rightarrow> 'a list" where
  "flat_insert x [] = [x]"
| "flat_insert x (y # ys) =
     (if x < y then x # y # ys else if x = y then y # ys else y # flat_insert x ys)"

definition flat_remove :: "'a \<Rightarrow> 'a list \<Rightarrow> 'a list" where
  "flat_remove x ys = filter (\<lambda>y. y \<noteq> x) ys"

definition flat_merge :: "'a::linorder list \<Rightarrow> 'a list \<Rightarrow> 'a list" where
  "flat_merge xs ys = fold flat_insert ys xs"

lemma set_flat_insert [simp, flat_simps]: "set (flat_insert x ys) = insert x (set ys)"
  by (induction ys) auto

lemma ssorted_flat_insert [simp]: "ssorted ys \<Longrightarrow> ssorted (flat_insert x ys)"
  by (induction ys) auto

lemma set_flat_remove [simp, flat_simps]: "set (flat_remove x ys) = set ys - {x}"
  by (auto simp: flat_remove_def)

lemma ssorted_flat_remove [simp]: "ssorted ys \<Longrightarrow> ssorted (flat_remove x ys)"
  by (simp add: flat_remove_def sorted_wrt_filter)

lemma set_flat_merge [simp, flat_simps]: "set (flat_merge xs ys) = set xs \<union> set ys"
  unfolding flat_merge_def by (induction ys arbitrary: xs) auto

lemma ssorted_flat_merge [simp]: "ssorted xs \<Longrightarrow> ssorted (flat_merge xs ys)"
  unfolding flat_merge_def by (induction ys arbitrary: xs) auto

lemma ssorted_distinct [simp]: "ssorted xs \<Longrightarrow> distinct xs"
  by (induction xs) auto

lemma length_flat_insert:
  "ssorted ys \<Longrightarrow> length (flat_insert x ys) = (if x \<in> set ys then length ys else Suc (length ys))"
  by (induction ys) auto

lemma ssorted_eqI: "ssorted xs \<Longrightarrow> ssorted ys \<Longrightarrow> set xs = set ys \<Longrightarrow> xs = ys"
  by (metis strict_sorted_equal)

lemma key_sorted_eqI:
  fixes key :: "'e \<Rightarrow> 'k::linorder"
  assumes "sorted_wrt (\<lambda>a b. key a < key b) xs" "sorted_wrt (\<lambda>a b. key a < key b) ys"
    and "set xs = set ys"
  shows "xs = ys"
  using assms
proof (induction xs arbitrary: ys)
  case (Cons x xs)
  then obtain y ys' where ys: "ys = y # ys'" by (cases ys) auto
  have "x = y"
    using Cons.prems unfolding ys by (metis list.set_intros(1) not_less_iff_gr_or_eq set_ConsD
        sorted_wrt.simps(2))
  moreover from this have "set xs = set ys'"
    using Cons.prems unfolding ys by auto
  ultimately show ?case
    using Cons.IH [of ys'] Cons.prems unfolding ys by simp
qed simp

lemma ssorted_length_card: "ssorted xs \<Longrightarrow> length xs = card (set xs)"
  by (simp add: distinct_card)

lemma length_flat_merge_ge: "ssorted xs \<Longrightarrow> length xs \<le> length (flat_merge xs ys)"
  by (simp add: ssorted_length_card card_mono)

section \<open>Sorted association lists: flat maps\<close>

abbreviation keys_sorted :: "('k::linorder \<times> 'v) list \<Rightarrow> bool" where
  "keys_sorted m \<equiv> ssorted (map fst m)"

fun flat_emplace :: "'k::linorder \<Rightarrow> 'v \<Rightarrow> ('k \<times> 'v) list \<Rightarrow> ('k \<times> 'v) list" where
  "flat_emplace k v [] = [(k, v)]"
| "flat_emplace k v ((k', v') # m) =
     (if k < k' then (k, v) # (k', v') # m
      else if k = k' then (k', v') # m
      else (k', v') # flat_emplace k v m)"

definition flat_erase :: "'k \<Rightarrow> ('k \<times> 'v) list \<Rightarrow> ('k \<times> 'v) list" where
  "flat_erase k m = filter (\<lambda>e. fst e \<noteq> k) m"

lemma flat_emplace_not_Nil [simp]: "flat_emplace k v m \<noteq> []"
  by (induction k v m rule: flat_emplace.induct) auto

lemma keys_flat_emplace [simp, flat_simps]:
  "fst ` set (flat_emplace k v m) = insert k (fst ` set m)"
  by (induction k v m rule: flat_emplace.induct) auto

lemma keys_sorted_flat_emplace [simp]: "keys_sorted m \<Longrightarrow> keys_sorted (flat_emplace k v m)"
proof (induction k v m rule: flat_emplace.induct)
  case (1 k v)
  then show ?case by simp
next
  case (2 k v k' v' m)
  show ?case
  proof (cases "k < k' \<or> k = k'")
    case True
    with 2 show ?thesis by (force simp: less_trans)
  next
    case False
    with 2 have "keys_sorted (flat_emplace k v m)" by simp
    moreover have "\<forall>y \<in> fst ` set (flat_emplace k v m). k' < y" using 2 False by auto
    ultimately show ?thesis using False by simp
  qed
qed

lemma map_of_sorted_None:
  fixes k :: "'k::linorder"
  shows "\<forall>y \<in> fst ` set m. k < y \<Longrightarrow> map_of m k = None"
  by (induction m) auto

lemma map_of_flat_emplace [flat_simps]:
  "keys_sorted m \<Longrightarrow>
   map_of (flat_emplace k v m) = (if map_of m k = None then (map_of m)(k \<mapsto> v) else map_of m)"
proof (induction k v m rule: flat_emplace.induct)
  case (1 k v)
  then show ?case by simp
next
  case (2 k v k' v' m)
  show ?case
  proof (cases "k < k'")
    case True
    then have "map_of ((k', v') # m) k = None"
      using 2(2) by (intro map_of_sorted_None) auto
    with True show ?thesis by auto
  next
    case False
    with 2 show ?thesis by (cases "k = k'") auto
  qed
qed

lemma keys_flat_erase [simp, flat_simps]: "fst ` set (flat_erase k m) = fst ` set m - {k}"
  by (auto simp: flat_erase_def)

lemma keys_sorted_flat_erase [simp]: "keys_sorted m \<Longrightarrow> keys_sorted (flat_erase k m)"
  unfolding flat_erase_def by (induction m) auto

lemma map_of_flat_erase [flat_simps]: "map_of (flat_erase k m) = (map_of m)(k := None)"
  unfolding flat_erase_def by (induction m) auto

lemma length_flat_emplace:
  "keys_sorted m \<Longrightarrow>
   length (flat_emplace k v m) = (if map_of m k = None then Suc (length m) else length m)"
proof (induction k v m rule: flat_emplace.induct)
  case (2 k v k' v' m)
  have "k < k' \<Longrightarrow> map_of m k = None"
    using 2(2) by (intro map_of_sorted_None) force
  with 2 show ?case by auto
qed simp

lemma set_flat_emplace_fresh:
  "k \<notin> fst ` set m \<Longrightarrow> set (flat_emplace k v m) = insert (k, v) (set m)"
  by (induction k v m rule: flat_emplace.induct) auto

lemma flat_emplace_present: "map_of m k \<noteq> None \<Longrightarrow> keys_sorted m \<Longrightarrow> flat_emplace k v m = m"
proof (induction k v m rule: flat_emplace.induct)
  case (2 k v k' v' m)
  have "k < k' \<Longrightarrow> map_of ((k', v') # m) k = None"
    using 2(3) by (intro map_of_sorted_None) auto
  with 2 show ?case by (auto split: if_splits)
qed simp

text \<open>Assignment through an iterator to an entry.\<close>

definition flat_assign :: "'k \<Rightarrow> 'v \<Rightarrow> ('k \<times> 'v) list \<Rightarrow> ('k \<times> 'v) list" where
  "flat_assign k v m = map (\<lambda>e. if fst e = k then (k, v) else e) m"

lemma map_of_flat_assign:
  "map_of (flat_assign k v m) = (if map_of m k = None then map_of m else (map_of m)(k \<mapsto> v))"
  by (induction m) (auto simp: flat_assign_def fun_eq_iff)

lemma fst_flat_assign [simp]: "List.map fst (flat_assign k v m) = List.map fst m"
  by (auto simp: flat_assign_def)

text \<open>
  The contract both kinds of container give their clients: an ordered map with a look-up, an
  \<open>emplace\<close> that never overwrites and an \<open>erase\<close>.
\<close>

locale ordered_map =
  fixes lookup :: "'m \<Rightarrow> 'k \<Rightarrow> 'v option"
    and emplace :: "'k \<Rightarrow> 'v \<Rightarrow> 'm \<Rightarrow> 'm"
    and erase :: "'k \<Rightarrow> 'm \<Rightarrow> 'm"
    and inv :: "'m \<Rightarrow> bool"
  assumes lookup_emplace: "inv m \<Longrightarrow>
      lookup (emplace k v m) = (if lookup m k = None then (lookup m)(k \<mapsto> v) else lookup m)"
    and lookup_erase: "inv m \<Longrightarrow> lookup (erase k m) = (lookup m)(k := None)"
    and inv_emplace: "inv m \<Longrightarrow> inv (emplace k v m)"
    and inv_erase: "inv m \<Longrightarrow> inv (erase k m)"
begin

lemma emplace_keeps: "inv m \<Longrightarrow> lookup m k = Some w \<Longrightarrow> lookup (emplace k' v m) k = Some w"
  by (auto simp: lookup_emplace)

lemma emplace_present: "inv m \<Longrightarrow> lookup (emplace k v m) k \<noteq> None"
  by (auto simp: lookup_emplace)

lemma erase_emplace_other:
  "inv m \<Longrightarrow> k \<noteq> k' \<Longrightarrow> lookup (erase k' (emplace k v m)) k = lookup (emplace k v m) k"
  by (simp add: lookup_erase inv_emplace)

lemma dom_emplace: "inv m \<Longrightarrow> dom (lookup (emplace k v m)) = insert k (dom (lookup m))"
  by (auto simp: lookup_emplace dom_def)

lemma dom_erase: "inv m \<Longrightarrow> dom (lookup (erase k m)) = dom (lookup m) - {k}"
  by (auto simp: lookup_erase dom_def)

end

interpretation flat: ordered_map map_of flat_emplace flat_erase keys_sorted
  by unfold_locales (simp_all add: map_of_flat_emplace map_of_flat_erase)

section \<open>Bounds in a sorted range\<close>

definition lower_bound :: "('e \<Rightarrow> 'k::linorder) \<Rightarrow> 'e list \<Rightarrow> 'k \<Rightarrow> nat" where
  "lower_bound key xs x = length (takeWhile (\<lambda>e. key e < x) xs)"

definition upper_bound :: "('e \<Rightarrow> 'k::linorder) \<Rightarrow> 'e list \<Rightarrow> 'k \<Rightarrow> nat" where
  "upper_bound key xs x = length (takeWhile (\<lambda>e. key e \<le> x) xs)"

lemma lower_bound_le [simp]: "lower_bound key xs x \<le> length xs"
  by (simp add: lower_bound_def length_takeWhile_le)

lemma upper_bound_le [simp]: "upper_bound key xs x \<le> length xs"
  by (simp add: upper_bound_def length_takeWhile_le)

lemma take_lower_bound: "take (lower_bound key xs x) xs = takeWhile (\<lambda>e. key e < x) xs"
  by (simp add: lower_bound_def takeWhile_eq_take [symmetric])

lemma drop_lower_bound: "drop (lower_bound key xs x) xs = dropWhile (\<lambda>e. key e < x) xs"
  by (simp add: lower_bound_def dropWhile_eq_drop [symmetric])

lemma take_upper_bound: "take (upper_bound key xs x) xs = takeWhile (\<lambda>e. key e \<le> x) xs"
  by (simp add: upper_bound_def takeWhile_eq_take [symmetric])

lemma drop_upper_bound: "drop (upper_bound key xs x) xs = dropWhile (\<lambda>e. key e \<le> x) xs"
  by (simp add: upper_bound_def dropWhile_eq_drop [symmetric])

lemma takeWhile_sorted_filter:
  "sorted_wrt (\<lambda>a b. P b \<longrightarrow> P a) xs \<Longrightarrow> takeWhile P xs = filter P xs"
  by (induction xs) (auto simp: filter_empty_conv)

lemma dropWhile_sorted_filter:
  "sorted_wrt (\<lambda>a b. P b \<longrightarrow> P a) xs \<Longrightarrow> dropWhile P xs = filter (\<lambda>x. \<not> P x) xs"
proof (induction xs)
  case (Cons x xs)
  then show ?case by (auto intro!: filter_True [symmetric])
qed simp

lemma split_lower_bound:
  fixes key :: "'e \<Rightarrow> 'k::linorder"
  assumes "sorted_wrt (\<lambda>a b. key a < key b) xs"
  shows "take (lower_bound key xs x) xs = filter (\<lambda>e. key e < x) xs"
    and "drop (lower_bound key xs x) xs = filter (\<lambda>e. \<not> key e < x) xs"
proof -
  have "sorted_wrt (\<lambda>a b. key b < x \<longrightarrow> key a < x) xs"
    using assms by (rule sorted_wrt_mono_rel [rotated]) auto
  then show "take (lower_bound key xs x) xs = filter (\<lambda>e. key e < x) xs"
    and "drop (lower_bound key xs x) xs = filter (\<lambda>e. \<not> key e < x) xs"
    by (simp_all add: take_lower_bound drop_lower_bound takeWhile_sorted_filter
        dropWhile_sorted_filter)
qed

lemma split_upper_bound:
  fixes key :: "'e \<Rightarrow> 'k::linorder"
  assumes "sorted_wrt (\<lambda>a b. key a < key b) xs"
  shows "take (upper_bound key xs x) xs = filter (\<lambda>e. key e \<le> x) xs"
    and "drop (upper_bound key xs x) xs = filter (\<lambda>e. \<not> key e \<le> x) xs"
proof -
  have "sorted_wrt (\<lambda>a b. key b \<le> x \<longrightarrow> key a \<le> x) xs"
    using assms by (rule sorted_wrt_mono_rel [rotated]) auto
  then show "take (upper_bound key xs x) xs = filter (\<lambda>e. key e \<le> x) xs"
    and "drop (upper_bound key xs x) xs = filter (\<lambda>e. \<not> key e \<le> x) xs"
    by (simp_all add: take_upper_bound drop_upper_bound takeWhile_sorted_filter
        dropWhile_sorted_filter)
qed

section \<open>Optional values\<close>

definition option_add :: "int option \<Rightarrow> int option \<Rightarrow> int option" where
  "option_add a b = (case (a, b) of (Some x, Some y) \<Rightarrow> Some (x + y) | _ \<Rightarrow> None)"

lemma option_add_simps [simp]:
  "option_add (Some x) (Some y) = Some (x + y)" "option_add None b = None" "option_add a None = None"
  by (simp_all add: option_add_def split: option.splits)

lemma option_add_Some:
  "option_add a b = Some c \<longleftrightarrow> (\<exists>x y. a = Some x \<and> b = Some y \<and> c = x + y)"
  by (auto simp: option_add_def split: option.splits)

end
