(* ===== verification/PtsWaiter.thy ===== *)
theory PtsWaiter imports Prelude begin

text \<open>
  The \<open>PtsWaiter\<close> of \<open>data/data_pts_waiter.h\<close> and \<open>data/data_pts_waiter.cpp\<close>: the
  client's sequencer of server updates. Each update carries the value \<open>pts\<close> of the
  server's counter after it and the number \<open>count\<close> of events it stands for; the waiter
  applies updates in the order of the counter, keeps those that came too early, and asks for a
  timer when some are missing.

  The owner (\<open>Api::Updates\<close>) is reached through three calls. They are recorded, in the order
  they are made, in the field \<open>pw_calls\<close>; a call-back of the owner into the waiter while it
  applies an update is not followed. The channel and the two payload types are type variables,
  since the waiter never looks into them.
\<close>

section \<open>State\<close>

datatype PtsSkippedQueue = SkippedUpdate | SkippedUpdates

text \<open>
  The payload of an apply call is optional: \<open>_updateQueue[key]\<close> makes a default value when
  the key is missing, which is \<open>None\<close> here.
\<close>

datatype ('c, 'u, 'us) owner_call =
    PtsWaiterStartTimerFor 'c int
  | ApplyUpdateNoPtsCheck "'u option"
  | ApplyUpdatesNoPtsCheck "'us option"

record ('c, 'u, 'us) pts_waiter =
  pw_queue :: "(int \<times> PtsSkippedQueue) list"
  pw_updateQueue :: "(int \<times> 'u) list"
  pw_updatesQueue :: "(int \<times> 'us) list"
  pw_good :: int
  pw_last :: int
  pw_count :: int
  pw_applySkippedLevel :: int
  pw_requesting :: bool
  pw_waitingForSkipped :: bool
  pw_waitingForShortPoll :: bool
  pw_skippedKey :: int
  pw_calls :: "('c, 'u, 'us) owner_call list"

definition kWaitForSkippedTimeout :: int where
  "kWaitForSkippedTimeout = 1000"

definition pts_waiter_new :: "('c, 'u, 'us) pts_waiter" where
  "pts_waiter_new =
    \<lparr>pw_queue = [], pw_updateQueue = [], pw_updatesQueue = [],
     pw_good = 0, pw_last = 0, pw_count = 0, pw_applySkippedLevel = 0,
     pw_requesting = False, pw_waitingForSkipped = False, pw_waitingForShortPoll = False,
     pw_skippedKey = 0, pw_calls = []\<rparr>"

section \<open>Operations\<close>

definition call_owner ::
  "('c, 'u, 'us) owner_call \<Rightarrow> ('c, 'u, 'us) pts_waiter \<Rightarrow> ('c, 'u, 'us) pts_waiter" where
  "call_owner c w = w\<lparr>pw_calls := pw_calls w @ [c]\<rparr>"

definition clearSkippedUpdates :: "('c, 'u, 'us) pts_waiter \<Rightarrow> ('c, 'u, 'us) pts_waiter" where
  "clearSkippedUpdates w =
    w\<lparr>pw_queue := [], pw_updateQueue := [], pw_updatesQueue := [], pw_applySkippedLevel := 0\<rparr>"

definition pts_init :: "int \<Rightarrow> ('c, 'u, 'us) pts_waiter \<Rightarrow> ('c, 'u, 'us) pts_waiter" where
  "pts_init pts w = clearSkippedUpdates (w\<lparr>pw_good := pts, pw_last := pts, pw_count := pts\<rparr>)"

definition inited :: "('c, 'u, 'us) pts_waiter \<Rightarrow> bool" where
  "inited w \<longleftrightarrow> pw_good w > 0"

definition setRequesting :: "bool \<Rightarrow> ('c, 'u, 'us) pts_waiter \<Rightarrow> ('c, 'u, 'us) pts_waiter" where
  "setRequesting isRequesting w =
    (let w = w\<lparr>pw_requesting := isRequesting\<rparr>
     in if pw_requesting w then clearSkippedUpdates w else w)"

definition pts_key_of :: "int \<Rightarrow> int \<Rightarrow> int" where
  "pts_key_of pts skippedKey = push_bit 32 (u32 pts) OR skippedKey"

definition ptsKey ::
  "PtsSkippedQueue \<Rightarrow> int \<Rightarrow> ('c, 'u, 'us) pts_waiter \<Rightarrow> int \<times> ('c, 'u, 'us) pts_waiter" where
  "ptsKey queue pts w =
    (let skippedKey = u32 (pw_skippedKey w + 1);
         key = pts_key_of pts skippedKey
     in (key, w\<lparr>pw_skippedKey := skippedKey, pw_queue := flat_emplace key queue (pw_queue w)\<rparr>))"

definition checkForWaiting :: "'c \<Rightarrow> ('c, 'u, 'us) pts_waiter \<Rightarrow> ('c, 'u, 'us) pts_waiter" where
  "checkForWaiting channel w =
    (if \<not> pw_waitingForSkipped w \<and> \<not> pw_waitingForShortPoll w
     then call_owner (PtsWaiterStartTimerFor channel (- 1)) w
     else w)"

definition setWaitingForSkipped ::
  "'c \<Rightarrow> int \<Rightarrow> ('c, 'u, 'us) pts_waiter \<Rightarrow> ('c, 'u, 'us) pts_waiter" where
  "setWaitingForSkipped channel ms w =
    (if ms \<ge> 0
     then (call_owner (PtsWaiterStartTimerFor channel ms) w)\<lparr>pw_waitingForSkipped := True\<rparr>
     else checkForWaiting channel (w\<lparr>pw_waitingForSkipped := False\<rparr>))"

definition setWaitingForShortPoll ::
  "'c \<Rightarrow> int \<Rightarrow> ('c, 'u, 'us) pts_waiter \<Rightarrow> ('c, 'u, 'us) pts_waiter" where
  "setWaitingForShortPoll channel ms w =
    (if ms \<ge> 0
     then (call_owner (PtsWaiterStartTimerFor channel ms) w)\<lparr>pw_waitingForShortPoll := True\<rparr>
     else checkForWaiting channel (w\<lparr>pw_waitingForShortPoll := False\<rparr>))"

definition apply_queued ::
  "('c, 'u, 'us) pts_waiter \<Rightarrow> int \<times> PtsSkippedQueue \<Rightarrow> ('c, 'u, 'us) pts_waiter" where
  "apply_queued w e =
    (case snd e of
       SkippedUpdate \<Rightarrow> call_owner (ApplyUpdateNoPtsCheck (map_of (pw_updateQueue w) (fst e))) w
     | SkippedUpdates \<Rightarrow> call_owner (ApplyUpdatesNoPtsCheck (map_of (pw_updatesQueue w) (fst e))) w)"

definition applySkippedUpdates :: "'c \<Rightarrow> ('c, 'u, 'us) pts_waiter \<Rightarrow> ('c, 'u, 'us) pts_waiter" where
  "applySkippedUpdates channel w =
    (if \<not> pw_waitingForSkipped w then w
     else
       let w = setWaitingForSkipped channel (- 1) w
       in if pw_queue w = [] then w
          else
            let w = w\<lparr>pw_applySkippedLevel := pw_applySkippedLevel w + 1\<rparr>;
                w = foldl apply_queued w (pw_queue w);
                w = w\<lparr>pw_applySkippedLevel := pw_applySkippedLevel w - 1\<rparr>
            in clearSkippedUpdates w)"

definition check ::
  "'c \<Rightarrow> int \<Rightarrow> int \<Rightarrow> ('c, 'u, 'us) pts_waiter \<Rightarrow> bool \<times> ('c, 'u, 'us) pts_waiter" where
  "check channel pts count w =
    (if \<not> inited w then (True, pts_init pts w)
     else
       let w = w\<lparr>pw_last := max (pw_last w) pts, pw_count := i32 (pw_count w + count)\<rparr>
       in if pw_last w = pw_count w then (True, w\<lparr>pw_good := pw_last w\<rparr>)
          else if pw_last w < pw_count w
          then (count = 0, setWaitingForSkipped channel 1 w)
          else (count = 0, setWaitingForSkipped channel kWaitForSkippedTimeout w))"

definition emplace_updates ::
  "int \<Rightarrow> 'us \<Rightarrow> ('c, 'u, 'us) pts_waiter \<Rightarrow> ('c, 'u, 'us) pts_waiter" where
  "emplace_updates pts updates w =
    (let (key, w) = ptsKey SkippedUpdates pts w
     in w\<lparr>pw_updatesQueue := flat_emplace key updates (pw_updatesQueue w)\<rparr>)"

definition emplace_update ::
  "int \<Rightarrow> 'u \<Rightarrow> ('c, 'u, 'us) pts_waiter \<Rightarrow> ('c, 'u, 'us) pts_waiter" where
  "emplace_update pts update w =
    (let (key, w) = ptsKey SkippedUpdate pts w
     in w\<lparr>pw_updateQueue := flat_emplace key update (pw_updateQueue w)\<rparr>)"

definition updated_updates ::
  "'c \<Rightarrow> int \<Rightarrow> int \<Rightarrow> 'us \<Rightarrow> ('c, 'u, 'us) pts_waiter \<Rightarrow> bool \<times> ('c, 'u, 'us) pts_waiter" where
  "updated_updates channel pts count updates w =
    (if pw_requesting w \<or> pw_applySkippedLevel w \<noteq> 0 then (True, w)
     else if pts \<le> pw_good w \<and> count > 0 then (False, w)
     else
       let (ok, w) = check channel pts count w
       in if ok then (True, w) else (False, emplace_updates pts updates w))"

definition updated_update ::
  "'c \<Rightarrow> int \<Rightarrow> int \<Rightarrow> 'u \<Rightarrow> ('c, 'u, 'us) pts_waiter \<Rightarrow> bool \<times> ('c, 'u, 'us) pts_waiter" where
  "updated_update channel pts count update w =
    (if pw_requesting w \<or> pw_applySkippedLevel w \<noteq> 0 then (True, w)
     else if pts \<le> pw_good w \<and> count > 0 then (False, w)
     else
       let (ok, w) = check channel pts count w
       in if ok then (True, w) else (False, emplace_update pts update w))"

definition updated_plain ::
  "'c \<Rightarrow> int \<Rightarrow> int \<Rightarrow> ('c, 'u, 'us) pts_waiter \<Rightarrow> bool \<times> ('c, 'u, 'us) pts_waiter" where
  "updated_plain channel pts count w =
    (if pw_requesting w \<or> pw_applySkippedLevel w \<noteq> 0 then (True, w)
     else if pts \<le> pw_good w \<and> count > 0 then (False, w)
     else check channel pts count w)"

definition updateAndApply_updates ::
  "'c \<Rightarrow> int \<Rightarrow> int \<Rightarrow> 'us \<Rightarrow> ('c, 'u, 'us) pts_waiter \<Rightarrow> bool \<times> ('c, 'u, 'us) pts_waiter" where
  "updateAndApply_updates channel pts count updates w =
    (let (ok, w) = updated_updates channel pts count updates w
     in if \<not> ok then (False, w)
        else if \<not> pw_waitingForSkipped w \<or> pw_queue w = []
        then (True, call_owner (ApplyUpdatesNoPtsCheck (Some updates)) w)
        else (True, applySkippedUpdates channel (emplace_updates pts updates w)))"

definition updateAndApply_update ::
  "'c \<Rightarrow> int \<Rightarrow> int \<Rightarrow> 'u \<Rightarrow> ('c, 'u, 'us) pts_waiter \<Rightarrow> bool \<times> ('c, 'u, 'us) pts_waiter" where
  "updateAndApply_update channel pts count update w =
    (let (ok, w) = updated_update channel pts count update w
     in if \<not> ok then (False, w)
        else if \<not> pw_waitingForSkipped w \<or> pw_queue w = []
        then (True, call_owner (ApplyUpdateNoPtsCheck (Some update)) w)
        else (True, applySkippedUpdates channel (emplace_update pts update w)))"

definition updateAndApply_plain ::
  "'c \<Rightarrow> int \<Rightarrow> int \<Rightarrow> ('c, 'u, 'us) pts_waiter \<Rightarrow> bool \<times> ('c, 'u, 'us) pts_waiter" where
  "updateAndApply_plain channel pts count w =
    (let (ok, w) = updated_plain channel pts count w
     in if \<not> ok then (False, w) else (True, applySkippedUpdates channel w))"

section \<open>Frames of the operations\<close>

lemmas pts_flow_defs = call_owner_def clearSkippedUpdates_def pts_init_def checkForWaiting_def
  setWaitingForSkipped_def setWaitingForShortPoll_def

lemma setWaitingForSkipped_fields [simp]:
  "pw_queue (setWaitingForSkipped ch ms w) = pw_queue w"
  "pw_updateQueue (setWaitingForSkipped ch ms w) = pw_updateQueue w"
  "pw_updatesQueue (setWaitingForSkipped ch ms w) = pw_updatesQueue w"
  "pw_good (setWaitingForSkipped ch ms w) = pw_good w"
  "pw_last (setWaitingForSkipped ch ms w) = pw_last w"
  "pw_count (setWaitingForSkipped ch ms w) = pw_count w"
  "pw_applySkippedLevel (setWaitingForSkipped ch ms w) = pw_applySkippedLevel w"
  "pw_requesting (setWaitingForSkipped ch ms w) = pw_requesting w"
  "pw_skippedKey (setWaitingForSkipped ch ms w) = pw_skippedKey w"
  "pw_waitingForShortPoll (setWaitingForSkipped ch ms w) = pw_waitingForShortPoll w"
  "pw_waitingForSkipped (setWaitingForSkipped ch ms w) = (ms \<ge> 0)"
  by (simp_all add: pts_flow_defs)

text \<open>The calls that apply something, in the order they were made.\<close>

fun applied_call :: "('c, 'u, 'us) owner_call \<Rightarrow> ('u + 'us) option list" where
  "applied_call (PtsWaiterStartTimerFor ch ms) = []"
| "applied_call (ApplyUpdateNoPtsCheck u) = [map_option Inl u]"
| "applied_call (ApplyUpdatesNoPtsCheck us) = [map_option Inr us]"

definition applied :: "('c, 'u, 'us) pts_waiter \<Rightarrow> ('u + 'us) option list" where
  "applied w = concat (map applied_call (pw_calls w))"

lemma applied_setWaitingForSkipped [simp]: "applied (setWaitingForSkipped ch ms w) = applied w"
  by (simp add: applied_def pts_flow_defs)

lemma applied_calls [simp]:
  "applied (call_owner (ApplyUpdateNoPtsCheck u) w) = applied w @ [map_option Inl u]"
  "applied (call_owner (ApplyUpdatesNoPtsCheck us) w) = applied w @ [map_option Inr us]"
  by (simp_all add: applied_def call_owner_def)

lemma applied_update_fields [simp]:
  "applied (w\<lparr>pw_last := a\<rparr>) = applied w" "applied (w\<lparr>pw_count := a\<rparr>) = applied w"
  "applied (w\<lparr>pw_good := a\<rparr>) = applied w" "applied (w\<lparr>pw_queue := q\<rparr>) = applied w"
  "applied (w\<lparr>pw_updateQueue := uq\<rparr>) = applied w"
  "applied (w\<lparr>pw_updatesQueue := usq\<rparr>) = applied w"
  "applied (w\<lparr>pw_skippedKey := a\<rparr>) = applied w"
  "applied (w\<lparr>pw_applySkippedLevel := a\<rparr>) = applied w"
  by (simp_all add: applied_def)

definition queued_payload :: "('c, 'u, 'us) pts_waiter \<Rightarrow> int \<times> PtsSkippedQueue \<Rightarrow> ('u + 'us) option" where
  "queued_payload w e =
    (case snd e of
       SkippedUpdate \<Rightarrow> map_option Inl (map_of (pw_updateQueue w) (fst e))
     | SkippedUpdates \<Rightarrow> map_option Inr (map_of (pw_updatesQueue w) (fst e)))"

lemma apply_queued_frame [simp]:
  "pw_updateQueue (apply_queued w e) = pw_updateQueue w"
  "pw_updatesQueue (apply_queued w e) = pw_updatesQueue w"
  "pw_good (apply_queued w e) = pw_good w" "pw_last (apply_queued w e) = pw_last w"
  "pw_count (apply_queued w e) = pw_count w" "pw_requesting (apply_queued w e) = pw_requesting w"
  "pw_waitingForSkipped (apply_queued w e) = pw_waitingForSkipped w"
  "pw_skippedKey (apply_queued w e) = pw_skippedKey w"
  by (simp_all add: apply_queued_def call_owner_def split: PtsSkippedQueue.split)

lemma applied_apply_queued [simp]:
  "applied (apply_queued w e) = applied w @ [queued_payload w e]"
  "queued_payload (apply_queued w e) = queued_payload w"
  by (auto simp: apply_queued_def queued_payload_def call_owner_def applied_def
      split: PtsSkippedQueue.split)

lemma applied_clearSkippedUpdates [simp]: "applied (clearSkippedUpdates w) = applied w"
  by (simp add: clearSkippedUpdates_def)

lemma queued_payload_frame [simp]:
  "queued_payload (w\<lparr>pw_applySkippedLevel := a\<rparr>) = queued_payload w"
  "queued_payload (setWaitingForSkipped ch ms w) = queued_payload w"
  by (simp_all add: queued_payload_def fun_eq_iff split: PtsSkippedQueue.split)

lemma apply_queued_all [simp]:
  "applied (foldl apply_queued w q) = applied w @ map (queued_payload w) q"
  "pw_good (foldl apply_queued w q) = pw_good w" "pw_last (foldl apply_queued w q) = pw_last w"
  "pw_count (foldl apply_queued w q) = pw_count w"
  "pw_requesting (foldl apply_queued w q) = pw_requesting w"
  "pw_waitingForSkipped (foldl apply_queued w q) = pw_waitingForSkipped w"
  "pw_skippedKey (foldl apply_queued w q) = pw_skippedKey w"
  by (induction q arbitrary: w) simp_all

lemma applySkippedUpdates_flush:
  assumes "pw_waitingForSkipped w" and "pw_queue w \<noteq> []"
    and "w' = applySkippedUpdates ch w"
  shows "applied w' = applied w @ map (queued_payload w) (pw_queue w)"
    and "pw_queue w' = []" "pw_updateQueue w' = []" "pw_updatesQueue w' = []"
    and "pw_applySkippedLevel w' = 0" "\<not> pw_waitingForSkipped w'"
    and "pw_good w' = pw_good w" "pw_last w' = pw_last w" "pw_count w' = pw_count w"
    and "pw_requesting w' = pw_requesting w" "pw_skippedKey w' = pw_skippedKey w"
  using assms by (simp_all add: applySkippedUpdates_def Let_def)
    (simp_all add: clearSkippedUpdates_def)

section \<open>Keys of the queue\<close>

lemma pts_key_of_eq: "0 \<le> k \<Longrightarrow> k < 2 ^ 32 \<Longrightarrow> pts_key_of pts k = u32 pts * 2 ^ 32 + k"
proof -
  assume k: "0 \<le> k" "k < 2 ^ 32"
  then have "take_bit 32 k = k" by (simp add: take_bit_int_eq_self)
  then have "pts_key_of pts k = concat_bit 32 k (u32 pts)"
    by (simp add: pts_key_of_def concat_bit_def or.commute)
  also have "\<dots> = u32 pts * 2 ^ 32 + k"
    using \<open>take_bit 32 k = k\<close> by (simp add: concat_bit_eq push_bit_eq_mult)
  finally show ?thesis .
qed

lemma pts_key_of_less:
  assumes "0 \<le> k" "k < 2 ^ 32" "0 \<le> k'" "k' < 2 ^ 32"
    and "0 \<le> pts" "pts < pts'" "pts' < 2 ^ 31"
  shows "pts_key_of pts k < pts_key_of pts' k'"
  using assms by (simp add: pts_key_of_eq)

section \<open>Delivery of a batch without gaps\<close>

text \<open>
  An item is an update with its \<open>pts\<close>, its \<open>count\<close> and its payload. A batch without gaps
  starts at \<open>p\<close>, and each of its items continues where the one before it stopped.
\<close>

type_synonym ('u, 'us) pts_item = "int \<times> int \<times> ('u + 'us)"

fun deliver ::
  "'c \<Rightarrow> ('u, 'us) pts_item \<Rightarrow> ('c, 'u, 'us) pts_waiter \<Rightarrow> ('c, 'u, 'us) pts_waiter" where
  "deliver ch (pts, count, Inl u) w = snd (updateAndApply_update ch pts count u w)"
| "deliver ch (pts, count, Inr us) w = snd (updateAndApply_updates ch pts count us w)"

definition deliver_all ::
  "'c \<Rightarrow> ('u, 'us) pts_item list \<Rightarrow> ('c, 'u, 'us) pts_waiter \<Rightarrow> ('c, 'u, 'us) pts_waiter" where
  "deliver_all ch items w = fold (deliver ch) items w"

fun gap_free :: "int \<Rightarrow> ('u, 'us) pts_item list \<Rightarrow> bool" where
  "gap_free p [] \<longleftrightarrow> True"
| "gap_free p ((pts, count, x) # items) \<longleftrightarrow> 0 < count \<and> pts = p + count \<and> gap_free pts items"

definition item_count :: "('u, 'us) pts_item list \<Rightarrow> nat \<Rightarrow> int" where
  "item_count b i = fst (snd (b ! i))"

definition pts_upto :: "int \<Rightarrow> ('u, 'us) pts_item list \<Rightarrow> nat \<Rightarrow> int" where
  "pts_upto p b i = p + (\<Sum>j<i. item_count b j)"

text \<open>The waiter has nothing kept back, and is at \<open>p\<close>.\<close>

definition idle_at :: "int \<Rightarrow> ('c, 'u, 'us) pts_waiter \<Rightarrow> bool" where
  "idle_at p w \<longleftrightarrow>
     pw_good w = p \<and> pw_last w = p \<and> pw_count w = p \<and> pw_applySkippedLevel w = 0 \<and>
     \<not> pw_requesting w \<and> pw_queue w = [] \<and> pw_updateQueue w = [] \<and> pw_updatesQueue w = [] \<and>
     0 \<le> pw_skippedKey w \<and> pw_skippedKey w < 2 ^ 32"

lemma pts_upto_0 [simp]: "pts_upto p b 0 = p"
  by (simp add: pts_upto_def)

lemma pts_upto_Suc: "pts_upto p b (Suc i) = pts_upto p b i + item_count b i"
  by (simp add: pts_upto_def)

lemma gap_free_nth:
  "gap_free p b \<Longrightarrow> i < length b \<Longrightarrow> 0 < item_count b i \<and> fst (b ! i) = pts_upto p b (Suc i)"
proof (induction p b arbitrary: i rule: gap_free.induct)
  case (2 p pts count x items)
  show ?case
  proof (cases i)
    case 0
    with 2 show ?thesis by (simp add: item_count_def pts_upto_def)
  next
    case (Suc j)
    have "pts_upto p ((pts, count, x) # items) (Suc (Suc j)) = pts_upto pts items (Suc j)"
      using 2(2) unfolding pts_upto_def
      by (subst sum.lessThan_Suc_shift) (simp add: item_count_def)
    with 2(1) [of j] 2(2,3) Suc show ?thesis by (auto simp add: item_count_def)
  qed
qed simp

lemma pts_upto_mono:
  "gap_free p b \<Longrightarrow> i \<le> j \<Longrightarrow> j \<le> length b \<Longrightarrow> pts_upto p b i \<le> pts_upto p b j"
proof (induction j)
  case (Suc j)
  show ?case
  proof (cases "i = Suc j")
    case False
    with Suc have "pts_upto p b i \<le> pts_upto p b j" by simp
    with Suc gap_free_nth [of p b j] show ?thesis by (simp add: pts_upto_Suc)
  qed simp
qed simp

lemma pts_upto_less:
  assumes "gap_free p b" "i < j" "j \<le> length b"
  shows "pts_upto p b i < pts_upto p b j"
proof -
  have "pts_upto p b (Suc i) \<le> pts_upto p b j"
    using assms by (intro pts_upto_mono) auto
  with assms gap_free_nth [of p b i] show ?thesis by (simp add: pts_upto_Suc)
qed

lemma pts_upto_sum:
  "m \<le> j \<Longrightarrow> pts_upto p b j = pts_upto p b m + (\<Sum>i\<in>{m..<j}. item_count b i)"
proof -
  assume "m \<le> j"
  then have "{..<j} = {..<m} \<union> {m..<j}" by auto
  moreover have "{..<m} \<inter> {m..<j} = {}" by auto
  ultimately show ?thesis
    unfolding pts_upto_def by (simp add: sum.union_disjoint)
qed

text \<open>
  \<open>edge m S\<close> is the index after the last received item, when the first \<open>m\<close> items are
  applied and those with an index in \<open>S\<close> are kept back.
\<close>

definition edge :: "nat \<Rightarrow> nat set \<Rightarrow> nat" where
  "edge m S = (if S = {} then m else Suc (Max S))"

lemma edge_insert: "finite S \<Longrightarrow> S \<subseteq> {m..} \<Longrightarrow> m \<le> i \<Longrightarrow> edge m (insert i S) = max (edge m S) (Suc i)"
  by (cases "S = {}") (simp_all add: edge_def)

lemma edge_bounds:
  assumes "S \<subseteq> {m..<n}" "m \<le> n"
  shows "m \<le> edge m S" "edge m S \<le> n" "S \<subseteq> {m..<edge m S}"
proof -
  have "finite S" using assms finite_subset by blast
  then show "m \<le> edge m S" "edge m S \<le> n" "S \<subseteq> {m..<edge m S}"
    using assms Max_in [of S] Max_ge [of S] by (fastforce simp: edge_def less_Suc_eq_le)+
qed

text \<open>The received counts add up to the last \<open>pts\<close> exactly when nothing is missing.\<close>

lemma counts_meet_iff:
  assumes "gap_free p b" "S \<subseteq> {m..<length b}" "m \<le> length b"
  shows "pts_upto p b (edge m S) = pts_upto p b m + (\<Sum>i\<in>S. item_count b i) \<longleftrightarrow> S = {m..<edge m S}"
    and "pts_upto p b m + (\<Sum>i\<in>S. item_count b i) \<le> pts_upto p b (edge m S)"
proof -
  note e = edge_bounds [OF assms(2,3)]
  let ?rest = "{m..<edge m S} - S"
  have "(\<Sum>i\<in>{m..<edge m S}. item_count b i) = (\<Sum>i\<in>?rest. item_count b i) + (\<Sum>i\<in>S. item_count b i)"
    using e(3) by (simp add: sum.subset_diff)
  then have eq: "pts_upto p b (edge m S)
      = pts_upto p b m + (\<Sum>i\<in>S. item_count b i) + (\<Sum>i\<in>?rest. item_count b i)"
    using pts_upto_sum [OF e(1), of p b] by simp
  have pos: "0 < item_count b i" if "i \<in> ?rest" for i
    using that e(2) gap_free_nth [OF assms(1), of i] by auto
  then have nonneg: "0 \<le> (\<Sum>i\<in>?rest. item_count b i)"
    by (intro sum_nonneg) (simp add: less_imp_le)
  then show "pts_upto p b m + (\<Sum>i\<in>S. item_count b i) \<le> pts_upto p b (edge m S)"
    using eq by simp
  have "?rest \<noteq> {} \<Longrightarrow> 0 < (\<Sum>i\<in>?rest. item_count b i)"
    using pos by (intro sum_pos) auto
  then have "(\<Sum>i\<in>?rest. item_count b i) = 0 \<longleftrightarrow> ?rest = {}"
    by (metis less_irrefl sum.empty)
  moreover have "?rest = {} \<longleftrightarrow> S = {m..<edge m S}"
    using e(3) by blast
  ultimately show "pts_upto p b (edge m S) = pts_upto p b m + (\<Sum>i\<in>S. item_count b i)
      \<longleftrightarrow> S = {m..<edge m S}"
    using eq by linarith
qed

text \<open>What is kept back for the items with an index in \<open>S\<close>, under the keys made from \<open>k\<close>.\<close>

definition item_payload :: "('u, 'us) pts_item list \<Rightarrow> nat \<Rightarrow> 'u + 'us" where
  "item_payload b i = snd (snd (b ! i))"

fun payload_kind :: "'u + 'us \<Rightarrow> PtsSkippedQueue" where
  "payload_kind (Inl u) = SkippedUpdate"
| "payload_kind (Inr us) = SkippedUpdates"

definition item_entry ::
  "int \<Rightarrow> ('u, 'us) pts_item list \<Rightarrow> (nat \<Rightarrow> int) \<Rightarrow> nat \<Rightarrow> int \<times> PtsSkippedQueue" where
  "item_entry p b k i =
    (pts_key_of (pts_upto p b (Suc i)) (k i),
     payload_kind (item_payload b i))"

definition kept_with ::
  "int \<Rightarrow> ('u, 'us) pts_item list \<Rightarrow> (nat \<Rightarrow> int) \<Rightarrow> nat set \<Rightarrow> ('c, 'u, 'us) pts_waiter \<Rightarrow> bool" where
  "kept_with p b k S w \<longleftrightarrow>
     (\<forall>i\<in>S. 0 \<le> k i \<and> k i < 2 ^ 32) \<and>
     keys_sorted (pw_queue w) \<and> keys_sorted (pw_updateQueue w) \<and> keys_sorted (pw_updatesQueue w) \<and>
     set (pw_queue w) = item_entry p b k ` S \<and>
     fst ` set (pw_updateQueue w) \<subseteq> fst ` item_entry p b k ` S \<and>
     fst ` set (pw_updatesQueue w) \<subseteq> fst ` item_entry p b k ` S \<and>
     (\<forall>i\<in>S. queued_payload w (item_entry p b k i) = Some (item_payload b i))"

definition emplace_item ::
  "('u, 'us) pts_item \<Rightarrow> ('c, 'u, 'us) pts_waiter \<Rightarrow> ('c, 'u, 'us) pts_waiter" where
  "emplace_item it w =
    (case snd (snd it) of Inl u \<Rightarrow> emplace_update (fst it) u w | Inr us \<Rightarrow> emplace_updates (fst it) us w)"

definition apply_item ::
  "('u, 'us) pts_item \<Rightarrow> ('c, 'u, 'us) pts_waiter \<Rightarrow> ('c, 'u, 'us) pts_waiter" where
  "apply_item it w =
    (case snd (snd it) of
       Inl u \<Rightarrow> call_owner (ApplyUpdateNoPtsCheck (Some u)) w
     | Inr us \<Rightarrow> call_owner (ApplyUpdatesNoPtsCheck (Some us)) w)"

lemmas emplace_defs = emplace_update_def emplace_updates_def ptsKey_def

lemma emplace_item_frame [simp]:
  "pw_good (emplace_item it w) = pw_good w" "pw_last (emplace_item it w) = pw_last w"
  "pw_count (emplace_item it w) = pw_count w" "pw_requesting (emplace_item it w) = pw_requesting w"
  "pw_applySkippedLevel (emplace_item it w) = pw_applySkippedLevel w"
  "pw_waitingForSkipped (emplace_item it w) = pw_waitingForSkipped w"
  "pw_skippedKey (emplace_item it w) = u32 (pw_skippedKey w + 1)"
  "applied (emplace_item it w) = applied w"
  by (simp_all add: emplace_item_def emplace_defs Let_def split: sum.split)

lemma emplace_item_fields:
  assumes "keys_sorted (pw_queue w)" "keys_sorted (pw_updateQueue w)"
    "keys_sorted (pw_updatesQueue w)"
    and "key \<notin> fst ` set (pw_queue w)" "key \<notin> fst ` set (pw_updateQueue w)"
    "key \<notin> fst ` set (pw_updatesQueue w)"
    and "pts_key_of (fst it) (u32 (pw_skippedKey w + 1)) = key"
  shows "keys_sorted (pw_queue (emplace_item it w))"
    and "keys_sorted (pw_updateQueue (emplace_item it w))"
    and "keys_sorted (pw_updatesQueue (emplace_item it w))"
    and "set (pw_queue (emplace_item it w))
      = insert (key, payload_kind (snd (snd it))) (set (pw_queue w))"
    and "fst ` set (pw_updateQueue (emplace_item it w)) \<subseteq> insert key (fst ` set (pw_updateQueue w))"
    and "queued_payload (emplace_item it w) (key, payload_kind (snd (snd it))) = Some (snd (snd it))"
    and "fst e \<noteq> key \<Longrightarrow> queued_payload (emplace_item it w) e = queued_payload w e"
    and "fst ` set (pw_updatesQueue (emplace_item it w)) \<subseteq> insert key (fst ` set (pw_updatesQueue w))"
  using assms
  by (cases "snd (snd it)"; auto simp: emplace_item_def emplace_defs Let_def set_flat_emplace_fresh
      queued_payload_def map_of_flat_emplace map_of_eq_None_iff split: PtsSkippedQueue.splits)+

lemma apply_item_frame [simp]:
  "pw_good (apply_item it w) = pw_good w" "pw_last (apply_item it w) = pw_last w"
  "pw_count (apply_item it w) = pw_count w" "pw_requesting (apply_item it w) = pw_requesting w"
  "pw_applySkippedLevel (apply_item it w) = pw_applySkippedLevel w"
  "pw_skippedKey (apply_item it w) = pw_skippedKey w"
  "pw_queue (apply_item it w) = pw_queue w" "pw_updateQueue (apply_item it w) = pw_updateQueue w"
  "pw_updatesQueue (apply_item it w) = pw_updatesQueue w"
  "applied (apply_item it w) = applied w @ [Some (snd (snd it))]"
  by (simp_all add: apply_item_def split: sum.split) (simp_all add: call_owner_def)

lemma deliver_eq:
  assumes "\<not> pw_requesting w" "pw_applySkippedLevel w = 0" "pw_good w < fst it"
    and "check ch (fst it) (fst (snd it)) w = (ok, w1)"
  shows "deliver ch it w =
    (if \<not> ok then emplace_item it w1
     else if \<not> pw_waitingForSkipped w1 \<or> pw_queue w1 = [] then apply_item it w1
     else applySkippedUpdates ch (emplace_item it w1))"
proof -
  obtain pts c x where "it = (pts, c, x)" by (cases it)
  with assms show ?thesis
    by (cases x) (auto simp: updateAndApply_update_def updateAndApply_updates_def
        updated_update_def updated_updates_def emplace_item_def apply_item_def)
qed

lemma kept_with_insert:
  assumes kept: "kept_with p b k S w" and gf: "gap_free p b" and p: "0 < p"
    and top: "pts_upto p b (length b) < 2 ^ 31"
    and S: "S \<subseteq> {..<length b}" and i: "i < length b" "i \<notin> S"
  shows "kept_with p b (k(i := u32 (pw_skippedKey w + 1))) (insert i S) (emplace_item (b ! i) w)"
proof -
  let ?k = "k(i := u32 (pw_skippedKey w + 1))"
  have up: "0 < pts_upto p b j \<and> pts_upto p b j < 2 ^ 31" if "j \<le> length b" for j
    using pts_upto_mono [OF gf, of 0 j] pts_upto_mono [OF gf that] that p top by simp
  have kb: "\<forall>j \<in> insert i S. 0 \<le> ?k j \<and> ?k j < 2 ^ 32"
    using kept by (auto simp: kept_with_def)
  have same: "item_entry p b ?k j = item_entry p b k j" if "j \<in> S" for j
    using that i by (auto simp: item_entry_def)
  have ord: "fst (item_entry p b ?k j) < fst (item_entry p b ?k l)"
    if "j \<in> insert i S" "l \<in> insert i S" "j < l" for j l
  proof -
    have jl: "Suc j \<le> length b" "Suc l \<le> length b" using that S i by auto
    have "pts_upto p b (Suc j) < pts_upto p b (Suc l)"
      using that(3) jl by (intro pts_upto_less [OF gf]) auto
    then show ?thesis
      unfolding item_entry_def fst_conv
      using kb that(1,2) up [OF jl(1)] up [OF jl(2)] by (intro pts_key_of_less) auto
  qed
  have key_inj: "fst (item_entry p b ?k j) \<noteq> fst (item_entry p b ?k i)" if "j \<in> S" for j
    using ord [of j i] ord [of i j] that i(2) by (cases "j < i") fastforce+
  define key where "key = fst (item_entry p b ?k i)"
  have fresh: "key \<notin> fst ` item_entry p b k ` S"
    using key_inj same unfolding key_def by force
  have pts: "fst (b ! i) = pts_upto p b (Suc i)"
    using gap_free_nth [OF gf i(1)] by simp
  have key: "pts_key_of (fst (b ! i)) (u32 (pw_skippedKey w + 1)) = key"
    by (simp add: key_def item_entry_def pts)
  have img: "item_entry p b ?k ` S = item_entry p b k ` S"
    using same by (rule image_cong [OF refl])
  have keys: "fst ` set (pw_queue w) = fst ` item_entry p b k ` S"
    using kept by (simp add: kept_with_def)
  have fr: "key \<notin> fst ` set (pw_queue w)" "key \<notin> fst ` set (pw_updateQueue w)"
    "key \<notin> fst ` set (pw_updatesQueue w)"
    using kept fresh unfolding keys kept_with_def by blast+
  have neq: "fst (item_entry p b ?k j) \<noteq> key" if "j \<in> S" for j
    using key_inj [OF that] by (simp add: key_def)
  have sorted: "keys_sorted (pw_queue w)" "keys_sorted (pw_updateQueue w)"
    "keys_sorted (pw_updatesQueue w)"
    using kept by (simp_all add: kept_with_def)
  note em = emplace_item_fields [OF sorted fr key, folded item_payload_def]
  have e: "item_entry p b ?k i = (key, payload_kind (item_payload b i))"
    by (simp add: key_def item_entry_def)
  have old: "\<forall>j\<in>S. queued_payload (emplace_item (b ! i) w) (item_entry p b ?k j)
      = Some (item_payload b j)"
    using em(7) neq same kept by (simp add: kept_with_def)
  have uq: "fst ` set (pw_updateQueue w) \<subseteq> fst ` item_entry p b k ` S"
    and usq: "fst ` set (pw_updatesQueue w) \<subseteq> fst ` item_entry p b k ` S"
    using kept by (simp_all add: kept_with_def)
  have all_keys: "fst ` item_entry p b ?k ` insert i S = insert key (fst ` item_entry p b k ` S)"
    by (simp only: image_insert e img fst_conv)
  show ?thesis
    unfolding kept_with_def
  proof (intro conjI)
    show "\<forall>j\<in>insert i S. queued_payload (emplace_item (b ! i) w) (item_entry p b ?k j)
        = Some (item_payload b j)"
      using old em(6) e by simp
    show "set (pw_queue (emplace_item (b ! i) w)) = item_entry p b ?k ` insert i S"
      using em(4) kept e img by (simp add: kept_with_def)
    show "fst ` set (pw_updateQueue (emplace_item (b ! i) w)) \<subseteq> fst ` item_entry p b ?k ` insert i S"
      "fst ` set (pw_updatesQueue (emplace_item (b ! i) w)) \<subseteq> fst ` item_entry p b ?k ` insert i S"
      unfolding all_keys
      by (rule subset_trans [OF em(5) insert_mono [OF uq]], rule subset_trans [OF em(8) insert_mono [OF usq]])
    show "\<forall>j\<in>insert i S. 0 \<le> ?k j \<and> ?k j < 2 ^ 32" by (rule kb)
  qed (rule em(1-3))+
qed

text \<open>A range of kept items is applied in the order of the batch.\<close>

lemma kept_with_flush:
  assumes kept: "kept_with p b k {m..<j} w" and gf: "gap_free p b" and p: "0 < p"
    and top: "pts_upto p b (length b) < 2 ^ 31" and j: "j \<le> length b"
  shows "map (queued_payload w) (pw_queue w) = map (\<lambda>i. Some (item_payload b i)) [m..<j]"
proof -
  have "sorted_wrt (\<lambda>i l. fst (item_entry p b k i) < fst (item_entry p b k l)) [m..<j]"
  proof (rule sorted_wrt_mono_rel [OF _ sorted_wrt_upt])
    fix i l
    assume il: "i \<in> set [m..<j]" "l \<in> set [m..<j]" "i < l"
    then have "pts_upto p b (Suc i) < pts_upto p b (Suc l)"
      using j by (intro pts_upto_less [OF gf]) auto
    moreover have "0 < pts_upto p b (Suc i)" "pts_upto p b (Suc l) < 2 ^ 31"
      using pts_upto_mono [OF gf, of 0 "Suc i"] pts_upto_mono [OF gf, of "Suc l" "length b"] il j p top
      by auto
    ultimately show "fst (item_entry p b k i) < fst (item_entry p b k l)"
      using kept il unfolding item_entry_def fst_conv
      by (intro pts_key_of_less) (auto simp: kept_with_def)
  qed
  then have "sorted_wrt (\<lambda>a b. fst a < fst b) (map (item_entry p b k) [m..<j])"
    by (simp add: sorted_wrt_map)
  moreover have "sorted_wrt (\<lambda>a b. fst a < fst b) (pw_queue w)"
    using kept by (simp add: kept_with_def sorted_wrt_map)
  moreover have "set (map (item_entry p b k) [m..<j]) = set (pw_queue w)"
    using kept by (simp add: kept_with_def)
  ultimately have "pw_queue w = map (item_entry p b k) [m..<j]"
    by (metis key_sorted_eqI)
  then show ?thesis using kept by (auto simp: kept_with_def)
qed

text \<open>
  The state after some items of the batch: the first \<open>m\<close> are applied, those with an index in
  \<open>S\<close> are kept back, and they do not fill a gap.
\<close>

definition pts_inv ::
  "int \<Rightarrow> ('u, 'us) pts_item list \<Rightarrow> ('u + 'us) option list \<Rightarrow> nat \<Rightarrow> nat set \<Rightarrow> ('c, 'u, 'us) pts_waiter \<Rightarrow> bool" where
  "pts_inv p b done m S w \<longleftrightarrow>
     m \<le> length b \<and> S \<subseteq> {m..<length b} \<and>
     pw_good w = pts_upto p b m \<and> pw_last w = pts_upto p b (edge m S) \<and>
     pw_count w = pts_upto p b m + (\<Sum>i\<in>S. item_count b i) \<and>
     pw_applySkippedLevel w = 0 \<and> \<not> pw_requesting w \<and>
     0 \<le> pw_skippedKey w \<and> pw_skippedKey w < 2 ^ 32 \<and>
     (S \<noteq> {} \<longrightarrow> pw_waitingForSkipped w \<and> S \<noteq> {m..<edge m S}) \<and>
     (\<exists>k. kept_with p b k S w) \<and>
     applied w = done @ map (\<lambda>i. Some (item_payload b i)) [0..<m]"

lemma kept_with_none:
  "kept_with p b k {} w \<longleftrightarrow> pw_queue w = [] \<and> pw_updateQueue w = [] \<and> pw_updatesQueue w = []"
  by (auto simp: kept_with_def)

lemma pts_inv_idle: "idle_at p w \<Longrightarrow> pts_inv p b (applied w) 0 {} w"
  by (simp add: pts_inv_def idle_at_def kept_with_none edge_def)

lemma kept_with_frame:
  "kept_with p b k S w \<Longrightarrow> pw_queue w' = pw_queue w \<Longrightarrow> pw_updateQueue w' = pw_updateQueue w \<Longrightarrow>
   pw_updatesQueue w' = pw_updatesQueue w \<Longrightarrow> kept_with p b k S w'"
  by (simp add: kept_with_def queued_payload_def split: PtsSkippedQueue.splits)

lemma check_fields:
  assumes "inited w" "check ch pts count w = (ok, w1)"
  shows "pw_queue w1 = pw_queue w" "pw_updateQueue w1 = pw_updateQueue w"
    "pw_updatesQueue w1 = pw_updatesQueue w" "pw_skippedKey w1 = pw_skippedKey w"
    "pw_requesting w1 = pw_requesting w" "pw_applySkippedLevel w1 = pw_applySkippedLevel w"
    "applied w1 = applied w" "pw_last w1 = max (pw_last w) pts"
    "pw_count w1 = i32 (pw_count w + count)"
    "pw_good w1 = (if pw_last w1 = pw_count w1 then pw_last w1 else pw_good w)"
    "pw_waitingForSkipped w1 = (pw_waitingForSkipped w \<or> pw_last w1 \<noteq> pw_count w1)"
    "ok = (pw_last w1 = pw_count w1 \<or> count = 0)"
  using assms by (auto simp: check_def Let_def kWaitForSkippedTimeout_def split: if_splits)

lemma pts_inv_step:
  assumes inv: "pts_inv p b done m S w" and gf: "gap_free p b" and p: "0 < p"
    and top: "pts_upto p b (length b) < 2 ^ 31"
    and i: "i < length b" "i \<notin> {..<m} \<union> S"
  shows "\<exists>m' S'. pts_inv p b done m' S' (deliver ch (b ! i) w) \<and> {..<m'} \<union> S' = insert i ({..<m} \<union> S)"
proof -
  have mi: "m \<le> i" and iS: "i \<notin> S" using i by auto
  from inv have S: "S \<subseteq> {m..<length b}" "m \<le> length b" by (simp_all add: pts_inv_def)
  then have fin: "finite S" by (meson finite_atLeastLessThan finite_subset)
  let ?S = "insert i S" and ?e = "edge m (insert i S)"
  have S': "?S \<subseteq> {m..<length b}" using S i mi by auto
  note e' = edge_bounds [OF S' S(2)]
  have e'_eq: "?e = max (edge m S) (Suc i)"
    using fin S mi by (intro edge_insert) auto
  note meet = counts_meet_iff [OF gf S' S(2)]
  have it: "0 < item_count b i" "fst (b ! i) = pts_upto p b (Suc i)"
    using gap_free_nth [OF gf i(1)] by simp_all
  have good: "pw_good w < fst (b ! i)"
    using inv it(2) pts_upto_less [OF gf, of m "Suc i"] mi i(1) by (simp add: pts_inv_def)
  obtain ok w1 where chk: "check ch (fst (b ! i)) (fst (snd (b ! i))) w = (ok, w1)"
    by fastforce
  have pm: "p \<le> pts_upto p b m" using pts_upto_mono [OF gf, of 0 m] S(2) by simp
  have "inited w" using inv pm p by (simp add: inited_def pts_inv_def)
  note w1 = check_fields [OF this chk]
  have last1: "pw_last w1 = pts_upto p b ?e"
    using w1(8) inv it(2) pts_upto_mono [OF gf, of "edge m S" "Suc i"]
      pts_upto_mono [OF gf, of "Suc i" "edge m S"] edge_bounds [OF S] i(1)
    unfolding e'_eq by (cases "edge m S \<le> Suc i") (auto simp: pts_inv_def max_def)
  have sum1: "pts_upto p b m + (\<Sum>j\<in>?S. item_count b j) = pw_count w + item_count b i"
    using inv fin iS by (simp add: pts_inv_def)
  have "0 \<le> (\<Sum>j\<in>?S. item_count b j)"
    using S' gap_free_nth [OF gf] by (intro sum_nonneg) force
  moreover have "pts_upto p b ?e \<le> pts_upto p b (length b)"
    using e'(2) by (intro pts_upto_mono [OF gf]) auto
  ultimately have "in_i32 (pw_count w + item_count b i)"
    using meet(2) sum1 pm p top by (simp add: in_i32_def)
  then have count1: "pw_count w1 = pts_upto p b m + (\<Sum>j\<in>?S. item_count b j)"
    using w1(9) sum1 by (simp add: item_count_def)
  have ok: "ok \<longleftrightarrow> ?S = {m..<?e}"
    using w1(12) last1 count1 meet(1) it(1) by (simp add: item_count_def)
  have flags: "\<not> pw_requesting w" "pw_applySkippedLevel w = 0"
    using inv by (simp_all add: pts_inv_def)
  note step = deliver_eq [OF flags good chk]
  obtain k where kept: "kept_with p b k S w" using inv by (auto simp: pts_inv_def)
  have kept1: "kept_with p b k S w1" using kept w1(1-3) by (rule kept_with_frame)
  let ?k = "k(i := u32 (pw_skippedKey w1 + 1))"
  have Sb: "S \<subseteq> {..<length b}" using S by auto
  have kept2: "kept_with p b ?k ?S (emplace_item (b ! i) w1)"
    using kept_with_insert [OF kept1 gf p top Sb i(1) iS] .
  show ?thesis
  proof (cases "?S = {m..<?e}")
    case False
    have "pts_inv p b done m ?S (deliver ch (b ! i) w)"
      using False ok step inv w1 last1 count1 meet(1) kept2 S'
      by (auto simp: pts_inv_def)
    then show ?thesis by blast
  next
    case True
    have e_gt: "m < ?e" "i < ?e" using e'_eq mi by auto
    define J where "J = ?e"
    have J: "?S = {m..<J}" using True by (simp only: J_def)
    have meet1: "pw_last w1 = pw_count w1" using True meet(1) last1 count1 by simp
    have upto_all: "[0..<?e] = [0..<m] @ [m..<?e]"
      using e_gt(1) upt_add_eq_append [of 0 m "?e - m"] by simp
    let ?w' = "deliver ch (b ! i) w"
    have idle: "pw_applySkippedLevel w = 0" "\<not> pw_requesting w" "0 \<le> pw_skippedKey w"
      "pw_skippedKey w < 2 ^ 32"
      using inv by (simp_all add: pts_inv_def)
    have "pw_good ?w' = pw_good w1 \<and> pw_last ?w' = pw_last w1 \<and> pw_count ?w' = pw_count w1 \<and>
      pw_applySkippedLevel ?w' = 0 \<and> \<not> pw_requesting ?w' \<and>
      0 \<le> pw_skippedKey ?w' \<and> pw_skippedKey ?w' < 2 ^ 32 \<and>
      kept_with p b k {} ?w' \<and>
      applied ?w' = applied w @ map (\<lambda>j. Some (item_payload b j)) [m..<?e]"
    proof (cases "\<not> pw_waitingForSkipped w1 \<or> pw_queue w1 = []")
      case direct: True
      have "pw_queue w1 \<noteq> []" if "S \<noteq> {}"
        using kept1 that by (auto simp: kept_with_def)
      with direct inv w1(11) have S0: "S = {}" by (auto simp: pts_inv_def)
      have "m \<in> ?S" using e_gt(1) by (subst True) simp
      then have im: "m = i" "?e = Suc i" using S0 by (simp_all add: edge_def)
      have range: "[m..<?e] = [i]" unfolding im(2) by (simp add: im(1))
      have w': "?w' = apply_item (b ! i) w1" using step ok True direct by simp
      have empty: "pw_queue w1 = []" "pw_updateQueue w1 = []" "pw_updatesQueue w1 = []"
        using kept1 unfolding S0 kept_with_none by blast+
      show ?thesis
        using idle unfolding w' range by (simp add: kept_with_none empty w1(4-7) item_payload_def)
    next
      case flush: False
      let ?w2 = "emplace_item (b ! i) w1"
      have "?w' = applySkippedUpdates ch ?w2" using step ok True flush by simp
      moreover have "pw_waitingForSkipped ?w2" using flush by simp
      moreover have "pw_queue ?w2 \<noteq> []" using kept2 by (auto simp: kept_with_def)
      moreover have "map (queued_payload ?w2) (pw_queue ?w2) = map (\<lambda>j. Some (item_payload b j)) [m..<?e]"
        using kept_with_flush [OF kept2 [unfolded J] gf p top] e'(2) unfolding J_def by simp
      ultimately show ?thesis
        using w1(4-7) idle applySkippedUpdates_flush [of ?w2 ?w' ch]
        by (simp add: kept_with_none)
    qed
    moreover have "pw_good w1 = pts_upto p b ?e" using w1(10) meet1 last1 by simp
    ultimately have "pts_inv p b done ?e {} ?w'"
      using e'(2) inv last1 meet1 unfolding pts_inv_def upto_all
      by (auto simp: edge_def)
    moreover have "{..<?e} \<union> {} = insert i ({..<m} \<union> S)"
    proof -
      have "{..<?e} = {..<m} \<union> {m..<?e}" using e_gt(1) by auto
      then show ?thesis using True by auto
    qed
    ultimately show ?thesis by blast
  qed
qed

lemma pts_inv_run:
  assumes gf: "gap_free p b" and p: "0 < p" and top: "pts_upto p b (length b) < 2 ^ 31"
    and "pts_inv p b done m S w" "distinct ns" "set ns \<subseteq> {..<length b}"
    and "set ns \<inter> ({..<m} \<union> S) = {}"
  shows "\<exists>m' S'. pts_inv p b done m' S' (deliver_all ch (map ((!) b) ns) w) \<and>
    {..<m'} \<union> S' = set ns \<union> ({..<m} \<union> S)"
  using assms(4-)
proof (induction ns arbitrary: m S w)
  case Nil
  then show ?case by (auto simp: deliver_all_def)
next
  case (Cons i ns)
  then obtain m1 S1 where 1: "pts_inv p b done m1 S1 (deliver ch (b ! i) w)"
    "{..<m1} \<union> S1 = insert i ({..<m} \<union> S)"
    using pts_inv_step [OF Cons.prems(1) gf p top, of i ch] by auto
  have "set ns \<inter> ({..<m1} \<union> S1) = {}" using Cons.prems 1(2) by auto
  then obtain m' S' where "pts_inv p b done m' S' (deliver_all ch (map ((!) b) ns) (deliver ch (b ! i) w))"
    "{..<m'} \<union> S' = set ns \<union> ({..<m1} \<union> S1)"
    using Cons.IH [OF 1(1)] Cons.prems by auto
  moreover from this have "{..<m'} \<union> S' = set (i # ns) \<union> ({..<m} \<union> S)"
    using 1(2) by auto
  ultimately show ?case by (auto simp: deliver_all_def)
qed

lemma gap_free_distinct: "gap_free p b \<Longrightarrow> distinct b"
proof -
  assume gf: "gap_free p b"
  have "b ! i \<noteq> b ! j" if "i < j" "j < length b" for i j
    using pts_upto_less [OF gf, of "Suc i" "Suc j"] gap_free_nth [OF gf, of i]
      gap_free_nth [OF gf, of j] that by (metis Suc_leI Suc_mono less_irrefl less_trans)
  then show ?thesis by (metis distinct_conv_nth linorder_neqE_nat)
qed

text \<open>The positions in the batch of items that were delivered in another order.\<close>

lemma positions_exist:
  assumes "distinct b" "distinct items" "set items \<subseteq> set b"
  shows "\<exists>ns. items = map ((!) b) ns \<and> distinct ns \<and> set ns \<subseteq> {..<length b}"
  using assms(2,3)
proof (induction items)
  case (Cons it items)
  then obtain ns i where "items = map ((!) b) ns" "distinct ns" "set ns \<subseteq> {..<length b}"
    "i < length b" "b ! i = it"
    by (auto simp: in_set_conv_nth)
  moreover from this have "i \<notin> set ns" using Cons.prems(1) by auto
  ultimately show ?case by (intro exI [of _ "i # ns"]) auto
qed simp

lemma item_payload_take:
  "m \<le> length b \<Longrightarrow> map (\<lambda>i. Some (item_payload b i)) [0..<m] = map (\<lambda>it. Some (snd (snd it))) (take m b)"
  by (rule nth_equalityI) (simp_all add: item_payload_def)

text \<open>When the whole batch was delivered, in any order, nothing is kept back any more.\<close>

lemma pts_run_complete:
  assumes "gap_free p b" "0 < p" "pts_upto p b (length b) < 2 ^ 31" "idle_at p w"
    and "distinct items" "set items = set b"
  shows "applied (deliver_all ch items w) = applied w @ map (\<lambda>it. Some (snd (snd it))) b \<and>
    idle_at (pts_upto p b (length b)) (deliver_all ch items w)"
proof -
  have dist: "distinct b" using assms(1) by (rule gap_free_distinct)
  obtain ns where ns: "items = map ((!) b) ns" "distinct ns" "set ns \<subseteq> {..<length b}"
    using positions_exist [OF dist assms(5)] assms(6) by auto
  have "card (set ns) = length b"
    using assms(5,6) dist ns(1,2) by (metis distinct_card length_map)
  then have all: "set ns = {..<length b}"
    using ns(3) by (simp add: card_subset_eq)
  obtain m S where inv: "pts_inv p b (applied w) m S (deliver_all ch items w)"
    and "{..<m} \<union> S = {..<length b}"
    using pts_inv_run [OF assms(1-3) pts_inv_idle [OF assms(4)] ns(2,3), of ch] ns(1) all by auto
  moreover have "S \<subseteq> {m..<length b}" and m: "m \<le> length b"
    using inv by (simp_all add: pts_inv_def)
  ultimately have S: "S = {m..<length b}"
  proof (intro subset_antisym subsetI)
    fix x
    assume "x \<in> {m..<length b}"
    then have "x \<in> {..<m} \<union> S" "\<not> x < m"
      unfolding \<open>{..<m} \<union> S = {..<length b}\<close> by simp_all
    then show "x \<in> S" by simp
  qed blast
  have "S = {}"
  proof (rule ccontr)
    assume "S \<noteq> {}"
    then have "m < length b" using S by simp
    moreover have "S \<subseteq> {m..<edge m S}" "edge m S \<le> length b"
      using edge_bounds(2,3) [OF equalityD1 [OF S] m] by blast+
    moreover have "length b - 1 \<in> S"
      using \<open>m < length b\<close> unfolding S atLeastLessThan_iff by linarith
    ultimately have "length b - 1 < edge m S" "edge m S \<le> length b" by auto
    then have "edge m S = length b" using \<open>m < length b\<close> by linarith
    with inv S \<open>S \<noteq> {}\<close> show False by (simp add: pts_inv_def)
  qed
  with S m have "m = length b" by auto
  with inv \<open>S = {}\<close> show ?thesis
    by (auto simp: pts_inv_def item_payload_take edge_def kept_with_none idle_at_def)
qed

text \<open>The items the waiter has passed do nothing when they come again.\<close>

lemma deliver_passed:
  assumes "\<not> pw_requesting w" "pw_applySkippedLevel w = 0" "fst it \<le> pw_good w" "0 < fst (snd it)"
  shows "deliver ch it w = w"
proof -
  obtain pts c x where "it = (pts, c, x)" by (cases it)
  with assms show ?thesis
    by (cases x) (simp_all add: updateAndApply_update_def updateAndApply_updates_def
        updated_update_def updated_updates_def)
qed

lemma deliver_all_passed:
  assumes "\<not> pw_requesting w" "pw_applySkippedLevel w = 0"
    and "\<forall>it \<in> set items. fst it \<le> pw_good w \<and> 0 < fst (snd it)"
  shows "deliver_all ch items w = w"
  using assms by (induction items) (simp_all add: deliver_all_def deliver_passed)

lemma gap_free_passed:
  assumes "gap_free p b" "m \<le> length b" "it \<in> set (take m b)"
  shows "fst it \<le> pts_upto p b m" "0 < fst (snd it)"
proof -
  obtain j where j: "j < m" "it = b ! j" using assms(2,3) by (auto simp: in_set_conv_nth)
  then have "j < length b" using assms(2) by simp
  note nth = gap_free_nth [OF assms(1) this]
  show "0 < fst (snd it)" using nth j(2) by (simp add: item_count_def)
  have "pts_upto p b (Suc j) \<le> pts_upto p b m"
    using pts_upto_mono [OF assms(1), of "Suc j" m] j(1) assms(2) by simp
  then show "fst it \<le> pts_upto p b m" using nth j(2) by simp
qed

section \<open>Properties\<close>

text \<open>A batch of three updates on which the hypotheses of the properties hold.\<close>

definition sample_batch :: "(string, string) pts_item list" where
  "sample_batch = [(12, 2, Inl ''first''), (13, 1, Inr ''second''), (16, 3, Inl ''third'')]"

definition sample_waiter :: "(nat, string, string) pts_waiter" where
  "sample_waiter = pts_init 10 pts_waiter_new"

lemma sample_batch_ok:
  "gap_free 10 sample_batch" "pts_upto 10 sample_batch (length sample_batch) < 2 ^ 31"
  "idle_at 10 sample_waiter" "applied sample_waiter = []"
  by (simp_all add: sample_batch_def pts_upto_def item_count_def sample_waiter_def idle_at_def
      pts_flow_defs pts_waiter_new_def applied_def)

text \<open>
  C1: whatever part of a gap-free batch arrives, and in whatever order, the updates the waiter
  has applied are a prefix of the batch, in the order of the batch and each exactly once, all of
  them were received, and the waiter's position is the counter after that prefix: no update is
  applied across a gap.
\<close>

theorem pts_delivery_is_prefix:
  assumes "gap_free p b" "0 < p" "pts_upto p b (length b) < 2 ^ 31" "idle_at p w"
    and "distinct items" "set items \<subseteq> set b"
  shows "\<exists>m \<le> length b. set (take m b) \<subseteq> set items \<and>
    applied (deliver_all ch items w) = applied w @ map (\<lambda>it. Some (snd (snd it))) (take m b) \<and>
    pw_good (deliver_all ch items w) = pts_upto p b m"
proof -
  obtain ns where ns: "items = map ((!) b) ns" "distinct ns" "set ns \<subseteq> {..<length b}"
    using positions_exist gap_free_distinct assms by metis
  obtain m S where inv: "pts_inv p b (applied w) m S (deliver_all ch items w)"
    and "{..<m} \<union> S = set ns"
    using pts_inv_run [OF assms(1-3) pts_inv_idle [OF assms(4)] ns(2,3), of ch] ns(1) by auto
  have "set (take m b) \<subseteq> set items"
  proof
    fix x assume "x \<in> set (take m b)"
    then obtain j where "j < m" "x = b ! j" by (auto simp: in_set_conv_nth)
    with \<open>{..<m} \<union> S = set ns\<close> show "x \<in> set items" unfolding ns(1) by auto
  qed
  with inv show ?thesis
    by (intro exI [of _ m]) (simp add: pts_inv_def item_payload_take)
qed

lemma pts_delivery_is_prefix_witness:
  "\<exists>m \<le> length sample_batch. set (take m sample_batch) \<subseteq> {sample_batch ! 2, sample_batch ! 0} \<and>
    applied (deliver_all 0 [sample_batch ! 2, sample_batch ! 0] sample_waiter)
      = map (\<lambda>it. Some (snd (snd it))) (take m sample_batch) \<and>
    pw_good (deliver_all 0 [sample_batch ! 2, sample_batch ! 0] sample_waiter)
      = pts_upto 10 sample_batch m"
  using pts_delivery_is_prefix [OF sample_batch_ok(1) _ sample_batch_ok(2,3),
      of "[sample_batch ! 2, sample_batch ! 0]" 0]
  by (simp add: sample_batch_ok(4)) (simp add: sample_batch_def numeral_eq_Suc)

text \<open>
  C2: when the whole of a gap-free batch has arrived, in any order, every update of it has
  been applied, in the order of the batch, and the waiter is idle at the end of the batch: nothing
  is lost and nothing stays in its queues.
\<close>

theorem pts_delivery_complete:
  assumes "gap_free p b" "0 < p" "pts_upto p b (length b) < 2 ^ 31" "idle_at p w"
    and "distinct items" "set items = set b"
  shows "applied (deliver_all ch items w) = applied w @ map (\<lambda>it. Some (snd (snd it))) b \<and>
    idle_at (pts_upto p b (length b)) (deliver_all ch items w)"
  by (rule pts_run_complete [OF assms])

lemma pts_delivery_complete_witness:
  "applied (deliver_all 0 (rev sample_batch) sample_waiter)
    = [Some (Inl ''first''), Some (Inr ''second''), Some (Inl ''third'')] \<and>
   idle_at (pts_upto 10 sample_batch (length sample_batch)) (deliver_all 0 (rev sample_batch) sample_waiter)"
  using pts_delivery_complete [OF sample_batch_ok(1) _ sample_batch_ok(2,3), of "rev sample_batch" 0]
  by (simp add: sample_batch_ok(4)) (simp add: sample_batch_def)

text \<open>
  C3: updates that come again are not applied again: whatever part of a gap-free batch has arrived
  and in whatever order, the updates of the prefix the waiter has applied (the whole batch, when all
  of it has arrived) can be delivered once more, any of them, any number of times and in any order,
  also while later ones are kept back behind a gap: nothing is applied, and the waiter with its
  counters, queues and timer stays as it is.
\<close>

theorem pts_redelivery_ignored:
  assumes "gap_free p b" "0 < p" "pts_upto p b (length b) < 2 ^ 31" "idle_at p w"
    and "distinct items" "set items \<subseteq> set b"
  shows "\<exists>m \<le> length b. (set items = set b \<longrightarrow> m = length b) \<and>
    applied (deliver_all ch items w) = applied w @ map (\<lambda>it. Some (snd (snd it))) (take m b) \<and>
    (\<forall>again. set again \<subseteq> set (take m b) \<longrightarrow>
      deliver_all ch again (deliver_all ch items w) = deliver_all ch items w)"
proof -
  let ?w = "deliver_all ch items w"
  obtain ns where ns: "items = map ((!) b) ns" "distinct ns" "set ns \<subseteq> {..<length b}"
    using positions_exist gap_free_distinct assms by metis
  obtain m S where inv: "pts_inv p b (applied w) m S ?w"
    using pts_inv_run [OF assms(1-3) pts_inv_idle [OF assms(4)] ns(2,3), of ch] ns(1) by auto
  then have m: "m \<le> length b" "pw_good ?w = pts_upto p b m"
      "\<not> pw_requesting ?w" "pw_applySkippedLevel ?w = 0"
      "applied ?w = applied w @ map (\<lambda>it. Some (snd (snd it))) (take m b)"
    by (simp_all add: pts_inv_def item_payload_take)
  have "m = length b" if "set items = set b"
  proof (rule ccontr)
    assume "m \<noteq> length b"
    then have "pts_upto p b m < pts_upto p b (length b)" using m(1) by (intro pts_upto_less [OF assms(1)]) auto
    then show False using pts_run_complete [OF assms(1-5) that, of ch] m(2) by (simp add: idle_at_def)
  qed
  moreover have "deliver_all ch again ?w = ?w" if "set again \<subseteq> set (take m b)" for again
    using that m gap_free_passed [OF assms(1) m(1)] by (intro deliver_all_passed) auto
  ultimately show ?thesis using m by blast
qed

text \<open>All three updates of the sample, delivered backwards, and then two of them again.\<close>

lemma pts_redelivery_ignored_witness:
  "deliver_all 0 [sample_batch ! 2, sample_batch ! 0] (deliver_all 0 (rev sample_batch) sample_waiter)
      = deliver_all 0 (rev sample_batch) sample_waiter \<and>
   applied (deliver_all 0 (rev sample_batch) sample_waiter)
      = [Some (Inl ''first''), Some (Inr ''second''), Some (Inl ''third'')]"
proof -
  have "distinct (rev sample_batch)" by (simp add: sample_batch_def)
  from pts_redelivery_ignored [OF sample_batch_ok(1) _ sample_batch_ok(2,3) this, of 0]
  have "applied (deliver_all 0 (rev sample_batch) sample_waiter)
        = applied sample_waiter @ map (\<lambda>it. Some (snd (snd it))) sample_batch \<and>
      (\<forall>again. set again \<subseteq> set sample_batch \<longrightarrow>
        deliver_all 0 again (deliver_all 0 (rev sample_batch) sample_waiter)
          = deliver_all 0 (rev sample_batch) sample_waiter)"
    by auto
  moreover have "set [sample_batch ! 2, sample_batch ! 0] \<subseteq> set sample_batch" by (simp add: sample_batch_def)
  ultimately show ?thesis by (simp add: sample_batch_ok(4)) (simp add: sample_batch_def)
qed

lemma u32_next: "u32 (u32 a + 1) \<noteq> u32 a"
proof (cases "u32 a + 1 < 2 ^ 32")
  case True
  then have "u32 (u32 a + 1) = u32 a + 1" unfolding u32_def by (intro mod_pos_pos_trivial) simp_all
  then show ?thesis by simp
next
  case False
  then have "u32 a = 2 ^ 32 - 1" using u32_less(1) [of a] by linarith
  then show ?thesis by (simp add: u32_def)
qed

text \<open>
  C23: an update that is kept back behind a gap is counted once more when it comes a second time:
  if the update from \<open>p + c\<close> to \<open>p + 2 c\<close> is delivered twice while the one from \<open>p\<close> to
  \<open>p + c\<close> is missing, the counts meet the last \<open>pts\<close>, so the waiter takes the gap for
  closed, applies the update twice and stands at \<open>p + 2 c\<close>; when the missing update then
  arrives it is dropped as one that was passed.
\<close>

theorem pts_duplicate_closes_gap:
  assumes "idle_at p w" "0 < p" "0 < c" "p + 2 * c < 2 ^ 31"
  shows "applied (deliver_all ch [(p + 2 * c, c, x), (p + 2 * c, c, x), (p + c, c, y)] w)
      = applied w @ [Some x, Some x] \<and>
    idle_at (p + 2 * c) (deliver_all ch [(p + 2 * c, c, x), (p + 2 * c, c, x), (p + c, c, y)] w)"
proof -
  let ?it = "(p + 2 * c, c, x)"
  have w: "pw_good w = p" "pw_last w = p" "pw_count w = p" "\<not> pw_requesting w" "pw_applySkippedLevel w = 0"
      "pw_queue w = []" "pw_updateQueue w = []" "pw_updatesQueue w = []"
      "0 \<le> pw_skippedKey w" "pw_skippedKey w < 2 ^ 32"
    using assms(1) by (simp_all add: idle_at_def)
  have range: "in_i32 (p + c)" "i32 (2 * c + p) = p + 2 * c"
    using assms i32_id [of "2 * c + p"] by (simp_all add: in_i32_def)
  have "inited w" using w assms by (simp add: inited_def)
  obtain ok1 w1 where chk1: "check ch (fst ?it) (fst (snd ?it)) w = (ok1, w1)" by fastforce
  note w1 = check_fields [OF \<open>inited w\<close> chk1]
  have n1: "pw_last w1 = p + 2 * c" "pw_count w1 = p + c" "pw_good w1 = p" "\<not> ok1" "pw_waitingForSkipped w1"
    using w1(8-12) w assms(3) range by simp_all
  let ?w2 = "emplace_item ?it w1"
  let ?k1 = "pts_key_of (p + 2 * c) (u32 (pw_skippedKey w1 + 1))"
  have d1: "deliver ch ?it w = ?w2"
    using deliver_eq [OF w(4,5) _ chk1] w(1) assms(3) n1(4) by simp
  have e1: "pw_queue ?w2 = [(?k1, payload_kind x)]" "keys_sorted (pw_updateQueue ?w2)" "keys_sorted (pw_updatesQueue ?w2)"
      "fst ` set (pw_updateQueue ?w2) \<subseteq> {?k1}" "fst ` set (pw_updatesQueue ?w2) \<subseteq> {?k1}"
      "queued_payload ?w2 (?k1, payload_kind x) = Some x"
    using w1(1-3) w(6-8) by (cases x; simp add: emplace_item_def emplace_defs Let_def queued_payload_def)+
  have "inited ?w2" using n1(3) assms(2) by (simp add: inited_def)
  obtain ok2 w3 where chk2: "check ch (fst ?it) (fst (snd ?it)) ?w2 = (ok2, w3)" by fastforce
  note w3 = check_fields [OF \<open>inited ?w2\<close> chk2]
  have n3: "pw_last w3 = p + 2 * c" "pw_count w3 = p + 2 * c" "pw_good w3 = p + 2 * c" "ok2" "pw_waitingForSkipped w3"
    using w3(8-12) n1 range by simp_all
  have q3: "pw_queue w3 = [(?k1, payload_kind x)]" "queued_payload w3 = queued_payload ?w2"
    using e1(1) w3(1-3) by (simp_all add: queued_payload_def fun_eq_iff split: PtsSkippedQueue.split)
  let ?w4 = "emplace_item ?it w3"
  have d2: "deliver ch ?it ?w2 = applySkippedUpdates ch ?w4"
    using deliver_eq [of ?w2 ?it, OF _ _ _ chk2] w1(5,6) w(4,5) n1(3) assms(3) n3(4,5) q3(1) by simp
  let ?k2 = "pts_key_of (p + 2 * c) (u32 (pw_skippedKey w3 + 1))"
  have keys: "pw_skippedKey w1 = pw_skippedKey w" "pw_skippedKey w3 = u32 (pw_skippedKey w + 1)"
    using w1(4) w3(4) by simp_all
  have "u32 (u32 (pw_skippedKey w + 1) + 1) \<noteq> u32 (pw_skippedKey w + 1)"
    using u32_next by blast
  then have "?k2 \<noteq> ?k1" unfolding keys by (simp add: pts_key_of_eq)
  then have fresh: "?k2 \<notin> fst ` set (pw_queue w3)" "?k2 \<notin> fst ` set (pw_updateQueue w3)" "?k2 \<notin> fst ` set (pw_updatesQueue w3)"
    using q3(1) e1(4,5) w3(2,3) by auto
  have s3: "keys_sorted (pw_queue w3)" "keys_sorted (pw_updateQueue w3)" "keys_sorted (pw_updatesQueue w3)"
    using q3(1) e1(2,3) w3(2,3) by simp_all
  note e4 = emplace_item_fields(4,6) [OF s3 fresh, of ?it, simplified]
    and e4p = emplace_item_fields(7) [OF s3 fresh, of ?it, simplified]
  have len: "length (pw_queue ?w4) = 2"
    using q3(1) \<open>?k2 \<noteq> ?k1\<close> by (cases x) (simp_all add: emplace_item_def emplace_defs Let_def)
  have "\<forall>e \<in> set (pw_queue ?w4). queued_payload ?w4 e = Some x"
    using e4 e4p [of "(?k1, payload_kind x)"] q3 e1(6) \<open>?k2 \<noteq> ?k1\<close> by simp
  then have "map (queued_payload ?w4) (pw_queue ?w4) = map (\<lambda>_. Some x) (pw_queue ?w4)" by simp
  then have both: "map (queued_payload ?w4) (pw_queue ?w4) = [Some x, Some x]"
    using len by (simp add: map_replicate_const numeral_eq_Suc)
  let ?w5 = "applySkippedUpdates ch ?w4"
  have "pw_waitingForSkipped ?w4" "pw_queue ?w4 \<noteq> []" using n3(5) len by auto
  note w5 = applySkippedUpdates_flush [OF this refl, of ch]
  have idle: "idle_at (p + 2 * c) ?w5"
    unfolding idle_at_def w5 using n3 w3(5,6) w1(5,6) w(4,5) by simp
  have app: "applied ?w5 = applied w @ [Some x, Some x]"
    unfolding w5(1) both using w3(7) w1(7) by simp
  have "deliver ch (p + c, c, y) ?w5 = ?w5"
    by (rule deliver_passed) (use idle assms(3) in \<open>simp_all add: idle_at_def\<close>)
  then have "deliver_all ch [?it, ?it, (p + c, c, y)] w = ?w5"
    by (simp add: deliver_all_def d1 d2)
  then show ?thesis using idle app by simp
qed


lemma pts_duplicate_closes_gap_witness:
  "applied (deliver_all 0 [(12, 1, Inl ''second''), (12, 1, Inl ''second''), (11, 1, Inr ''first'')] sample_waiter)
      = [Some (Inl ''second''), Some (Inl ''second'')] \<and>
   idle_at 12 (deliver_all 0 [(12, 1, Inl ''second''), (12, 1, Inl ''second''), (11, 1, Inr ''first'')] sample_waiter)"
  using pts_duplicate_closes_gap [OF sample_batch_ok(3), of 1 0 "Inl ''second''" "Inr ''first''"]
  by (simp add: sample_batch_ok(4))

text \<open>
  while updates are kept back behind a gap, an update with \<open>count\<close> 0 makes the waiter
  apply all of them, together with that update, although the gap is still there; the waiter's
  position does not move and it no longer waits for the missing updates.
\<close>

theorem pts_zero_count_applies_over_gap:
  assumes "inited w" "\<not> pw_requesting w" "pw_applySkippedLevel w = 0" "in_i32 (pw_count w)"
    and "pw_queue w \<noteq> []" "pw_last w \<noteq> pw_count w" "pts \<le> pw_last w"
    and "updateAndApply_update ch pts 0 u w = (ok, w')"
  shows "ok \<and>
    applied w' = applied w @ map (queued_payload (emplace_update pts u w)) (pw_queue (emplace_update pts u w)) \<and>
    pw_queue w' = [] \<and> pw_good w' = pw_good w \<and> pw_last w' \<noteq> pw_count w' \<and>
    \<not> pw_waitingForSkipped w'"
proof -
  obtain ok1 w1 where chk: "check ch pts 0 w = (ok1, w1)" by fastforce
  note w1 = check_fields [OF assms(1) chk]
  have gap: "pw_last w1 \<noteq> pw_count w1" using w1(8,9) assms(4,6,7) by simp
  have frame: "applied (emplace_update pts u w1) = applied w1"
    "pw_good (emplace_update pts u w1) = pw_good w1" "pw_last (emplace_update pts u w1) = pw_last w1"
    "pw_count (emplace_update pts u w1) = pw_count w1"
    by (simp_all add: emplace_defs Let_def)
  have queue: "pw_queue (emplace_update pts u w1) = pw_queue (emplace_update pts u w)"
    using w1(1,4) by (simp add: emplace_defs Let_def)
  have payload: "queued_payload (emplace_update pts u w1) = queued_payload (emplace_update pts u w)"
    using w1(2-4) by (simp add: emplace_defs Let_def queued_payload_def fun_eq_iff split: PtsSkippedQueue.split)
  have "pw_queue (emplace_update pts u w1) \<noteq> []"
    by (simp add: emplace_defs Let_def)
  moreover have "pw_waitingForSkipped (emplace_update pts u w1)"
    using w1(11) gap by (simp add: emplace_defs Let_def)
  moreover have "w' = applySkippedUpdates ch (emplace_update pts u w1)" "ok"
    using assms(2,3,5,8) w1 gap chk
    by (auto simp: updateAndApply_update_def updated_update_def split: if_splits)
  ultimately show ?thesis
    using applySkippedUpdates_flush [of "emplace_update pts u w1" w' ch] queue payload w1 gap
    by (simp add: frame)
qed

text \<open>Two updates are kept back behind the missing 11 and 12.\<close>

definition gap_waiter :: "(nat, string, string) pts_waiter" where
  "gap_waiter = deliver_all 0 [(14, 2, Inl ''later''), (15, 1, Inr ''last'')] sample_waiter"

lemma gap_waiter_eq:
  "gap_waiter = \<lparr>pw_queue = [(60129542145, SkippedUpdate), (64424509442, SkippedUpdates)],
     pw_updateQueue = [(60129542145, ''later'')], pw_updatesQueue = [(64424509442, ''last'')],
     pw_good = 10, pw_last = 15, pw_count = 13, pw_applySkippedLevel = 0,
     pw_requesting = False, pw_waitingForSkipped = True, pw_waitingForShortPoll = False,
     pw_skippedKey = 2, pw_calls = [PtsWaiterStartTimerFor 0 1000, PtsWaiterStartTimerFor 0 1000]\<rparr>"
  by (simp add: gap_waiter_def deliver_all_def sample_waiter_def pts_waiter_new_def pts_flow_defs
      updateAndApply_update_def updated_update_def updateAndApply_updates_def updated_updates_def
      check_def inited_def in_i32_def Let_def kWaitForSkippedTimeout_def emplace_defs
      pts_key_of_def push_bit_eq_mult)

lemma pts_zero_count_applies_over_gap_witness:
  "applied (snd (updateAndApply_update 0 10 0 ''zero'' gap_waiter))
     = [Some (Inl ''zero''), Some (Inl ''later''), Some (Inr ''last'')] \<and>
   \<not> pw_waitingForSkipped (snd (updateAndApply_update 0 10 0 ''zero'' gap_waiter))"
proof -
  obtain ok w' where w': "updateAndApply_update 0 10 0 ''zero'' gap_waiter = (ok, w')"
    by fastforce
  have "applied w' = applied gap_waiter @ map (queued_payload (emplace_update 10 ''zero'' gap_waiter))
      (pw_queue (emplace_update 10 ''zero'' gap_waiter)) \<and> \<not> pw_waitingForSkipped w'"
    using pts_zero_count_applies_over_gap [OF _ _ _ _ _ _ _ w']
    by (simp add: gap_waiter_eq inited_def in_i32_def)
  then show ?thesis unfolding w' snd_conv
    by (simp add: gap_waiter_eq applied_def emplace_defs Let_def pts_key_of_def push_bit_eq_mult
        queued_payload_def)
qed

end
