(* ===== verification/ReceivedIds.thy ===== *)
theory ReceivedIds imports Prelude begin

text \<open>
  The \<open>ReceivedIdsManager\<close> of \<open>mtproto/details/mtproto_received_ids_manager.h\<close> and its
  \<open>.cpp\<close>: the window of server message identifiers a session has seen, by which it tells
  repeated and too old messages. Identifiers are unsigned 64-bit values, kept here as integers;
  the container is a \<open>flat_map\<close>, the sorted list of its entries.
\<close>

section \<open>State and operations\<close>

datatype ids_state = NotFound | NeedsAck | NoAckNeeded

datatype ids_result = Success | Duplicate | TooOld

definition kIdsBufferSize :: nat where
  "kIdsBufferSize = 400"

type_synonym received_ids = "(int \<times> bool) list"

definition ids_min :: "received_ids \<Rightarrow> int" where
  "ids_min m = (if m = [] then 0 else fst (hd m))"

definition ids_max :: "received_ids \<Rightarrow> int" where
  "ids_max m = (if m = [] then 0 else fst (last m))"

definition registerMsgId :: "int \<Rightarrow> bool \<Rightarrow> received_ids \<Rightarrow> ids_result \<times> received_ids" where
  "registerMsgId msgId needAck m =
    (if map_of m msgId \<noteq> None then (Duplicate, m)
     else if length m < kIdsBufferSize \<or> msgId > ids_min m
     then (Success, flat_emplace msgId needAck m)
     else (TooOld, m))"

definition ids_lookup :: "int \<Rightarrow> received_ids \<Rightarrow> ids_state" where
  "ids_lookup msgId m =
    (case map_of m msgId of
       None \<Rightarrow> NotFound
     | Some needAck \<Rightarrow> if needAck then NeedsAck else NoAckNeeded)"

text \<open>The loop of \<open>shrink\<close>: \<open>size\<close> counts down while it is above the buffer size.\<close>

fun shrink_loop :: "nat \<Rightarrow> received_ids \<Rightarrow> received_ids" where
  "shrink_loop 0 m = m"
| "shrink_loop (Suc sz) m = (if Suc sz > kIdsBufferSize then shrink_loop sz (tl m) else m)"

definition ids_shrink :: "received_ids \<Rightarrow> received_ids" where
  "ids_shrink m = shrink_loop (length m) m"

definition ids_clear :: "received_ids \<Rightarrow> received_ids" where
  "ids_clear m = []"

section \<open>The window\<close>

text \<open>What a session does with its window between two resets.\<close>

datatype ids_op = Register int bool | Shrink

fun ids_step :: "ids_op \<Rightarrow> received_ids \<Rightarrow> received_ids" where
  "ids_step (Register msgId needAck) m = snd (registerMsgId msgId needAck m)"
| "ids_step Shrink m = ids_shrink m"

definition ids_run :: "ids_op list \<Rightarrow> received_ids \<Rightarrow> received_ids" where
  "ids_run ops m = fold ids_step ops m"

lemma shrink_loop_eq: "shrink_loop n m = drop (n - kIdsBufferSize) m"
  by (induction n arbitrary: m) (auto simp: drop_Suc Suc_diff_le)

lemma ids_shrink_eq: "ids_shrink m = drop (length m - kIdsBufferSize) m"
  by (simp add: ids_shrink_def shrink_loop_eq)

lemma length_ids_shrink [simp]: "length (ids_shrink m) = min (length m) kIdsBufferSize"
  by (simp add: ids_shrink_eq)

lemma keys_sorted_drop: "keys_sorted m \<Longrightarrow> keys_sorted (drop n m)"
  by (simp add: drop_map [symmetric] sorted_wrt_drop)

lemma ids_step_sorted: "keys_sorted m \<Longrightarrow> keys_sorted (ids_step op m)"
  by (cases op) (simp_all add: registerMsgId_def ids_shrink_eq keys_sorted_drop)

lemma ids_min_least: "keys_sorted m \<Longrightarrow> k \<in> fst ` set m \<Longrightarrow> ids_min m \<le> k"
  by (cases m) (auto simp: ids_min_def)

lemma ids_min_emplace:
  "keys_sorted m \<Longrightarrow> m \<noteq> [] \<Longrightarrow> ids_min m < k \<Longrightarrow> ids_min (flat_emplace k v m) = ids_min m"
  by (cases m) (auto simp: ids_min_def)

text \<open>An identifier is barred when it is in the window or below a full window.\<close>

definition barred :: "int \<Rightarrow> received_ids \<Rightarrow> bool" where
  "barred x m \<longleftrightarrow> map_of m x \<noteq> None \<or> (kIdsBufferSize \<le> length m \<and> x < ids_min m)"

lemma barred_no_success: "barred x m \<Longrightarrow> fst (registerMsgId x a m) \<noteq> Success"
  by (auto simp: barred_def registerMsgId_def)

lemma barred_register:
  assumes "keys_sorted m" "barred x m"
  shows "barred x (snd (registerMsgId y a m))"
proof (cases "map_of m y = None \<and> (length m < kIdsBufferSize \<or> y > ids_min m)")
  case True
  then have eq: "snd (registerMsgId y a m) = flat_emplace y a m"
    by (simp add: registerMsgId_def)
  show ?thesis
  proof (cases "map_of m x = None")
    case False
    then show ?thesis using flat.emplace_keeps [OF assms(1)] unfolding eq barred_def by blast
  next
    case old: True
    with assms(2) have full: "kIdsBufferSize \<le> length m" "x < ids_min m"
      by (auto simp: barred_def)
    with True have "ids_min m < y" "m \<noteq> []" by (auto simp: kIdsBufferSize_def)
    with full show ?thesis
      unfolding eq barred_def using assms(1) True
      by (simp add: ids_min_emplace length_flat_emplace)
  qed
next
  case False
  then show ?thesis using assms(2) by (auto simp: registerMsgId_def)
qed

lemma barred_shrink:
  assumes "keys_sorted m" "barred x m"
  shows "barred x (ids_shrink m)"
proof (cases "length m \<le> kIdsBufferSize")
  case True
  then show ?thesis using assms(2) by (simp add: ids_shrink_eq)
next
  case False
  define n where "n = length m - kIdsBufferSize"
  have split: "m = take n m @ drop n m" by simp
  have len: "kIdsBufferSize \<le> length (drop n m)" using False by (simp add: n_def)
  then have ne: "drop n m \<noteq> []" by (auto simp: kIdsBufferSize_def)
  have sorted: "keys_sorted (take n m @ drop n m)" using assms(1) by simp
  have above: "k < ids_min (drop n m)" if "k \<in> fst ` set (take n m)" for k
    using sorted that ne unfolding map_append sorted_wrt_append
    by (cases "drop n m") (auto simp: ids_min_def)
  show ?thesis
  proof (cases "map_of (drop n m) x = None \<and> \<not> x < ids_min (drop n m)")
    case True
    then have "x \<notin> fst ` set m"
      using above split by (metis Un_iff image_Un map_of_eq_None_iff set_append)
    then have "map_of m x = None" by (simp add: map_of_eq_None_iff)
    with assms(2) have "x < ids_min m" by (simp add: barred_def)
    also have "ids_min m \<le> ids_min (drop n m)"
      using ids_min_least [OF assms(1), of "ids_min (drop n m)"] ne in_set_dropD [of _ n m]
      by (cases "drop n m") (auto simp: ids_min_def)
    finally show ?thesis using True by simp
  next
    case other: False
    then show ?thesis using len unfolding barred_def ids_shrink_eq n_def by auto
  qed
qed

lemma barred_run: "keys_sorted m \<Longrightarrow> barred x m \<Longrightarrow> keys_sorted (ids_run ops m) \<and> barred x (ids_run ops m)"
  unfolding ids_run_def
proof (induction ops arbitrary: m)
  case (Cons op ops)
  have "barred x (ids_step op m)"
    using Cons.prems by (cases op) (simp_all add: barred_register barred_shrink)
  with Cons show ?case by (simp add: ids_step_sorted)
qed simp

section \<open>Properties\<close>

text \<open>
  C4: no replay. Once an identifier was registered with success, registering it again never
  succeeds, whatever was registered in between and however often the window was shrunk: the
  entries a shrink throws away stay barred by the lower end of the full window.
\<close>

theorem received_ids_no_replay:
  assumes "keys_sorted m" and "registerMsgId msgId needAck m = (Success, m')"
  shows "fst (registerMsgId msgId needAck' (ids_run ops m')) \<noteq> Success"
proof -
  have m': "m' = flat_emplace msgId needAck m"
    using assms(2) by (auto simp: registerMsgId_def split: if_splits)
  then have "barred msgId m'"
    using flat.emplace_present [OF assms(1)] by (simp add: barred_def)
  moreover have "keys_sorted m'" using assms(1) m' by simp
  ultimately show ?thesis using barred_run barred_no_success by blast
qed

lemma received_ids_no_replay_witness:
  "fst (registerMsgId 5 True (ids_run [Register 7 False, Shrink] [(5, False)])) \<noteq> Success"
  by (rule received_ids_no_replay [of "[]" 5 False])
    (simp_all add: registerMsgId_def kIdsBufferSize_def)

text \<open>
  What a registration answers and stores. Success adds the identifier with its
  acknowledgement flag and keeps all others; the two other answers leave the window as it was,
  \<open>Duplicate\<close> exactly for an identifier of the window, and \<open>TooOld\<close> exactly for a missing
  one that is not above the least of a full window.
\<close>

theorem registerMsgId_cases:
  assumes "keys_sorted m"
  shows "case registerMsgId msgId needAck m of
    (Success, m') \<Rightarrow> ids_lookup msgId m = NotFound \<and>
       ids_lookup msgId m' = (if needAck then NeedsAck else NoAckNeeded) \<and>
       (\<forall>x. x \<noteq> msgId \<longrightarrow> ids_lookup x m' = ids_lookup x m) \<and>
       length m' = Suc (length m) \<and> keys_sorted m'
  | (Duplicate, m') \<Rightarrow> m' = m \<and> ids_lookup msgId m \<noteq> NotFound
  | (TooOld, m') \<Rightarrow> m' = m \<and> ids_lookup msgId m = NotFound \<and>
       kIdsBufferSize \<le> length m \<and> (\<forall>x \<in> fst ` set m. msgId < x)"
proof -
  have "msgId < x" if "map_of m msgId = None" "\<not> ids_min m < msgId" "x \<in> fst ` set m" for x
    using that ids_min_least [OF assms that(3)]
    by (metis le_less_trans linorder_not_less map_of_eq_None_iff order_le_less)
  then show ?thesis
    using assms by (auto simp: registerMsgId_def ids_lookup_def map_of_flat_emplace
        length_flat_emplace not_less split: option.split)
qed

lemma registerMsgId_cases_witness:
  "ids_lookup 9 (snd (registerMsgId 9 True [(4, False)])) = NeedsAck"
  using registerMsgId_cases [of "[(4, False)]" 9 True]
  by (simp add: registerMsgId_def kIdsBufferSize_def ids_min_def)

text \<open>
  shrinking keeps the 400 greatest identifiers of the window (all of a smaller window)
  with their flags, in particular its maximum, and the loop ends.
\<close>

theorem ids_shrink_keeps_latest:
  assumes "keys_sorted m"
  shows "\<exists>old. m = old @ ids_shrink m \<and> length (ids_shrink m) = min (length m) kIdsBufferSize \<and>
    (\<forall>x \<in> fst ` set old. \<forall>y \<in> fst ` set (ids_shrink m). x < y) \<and>
    ids_max (ids_shrink m) = ids_max m \<and>
    (\<forall>y \<in> fst ` set (ids_shrink m). ids_lookup y (ids_shrink m) = ids_lookup y m)"
proof -
  define n where "n = length m - kIdsBufferSize"
  have eq: "ids_shrink m = drop n m" by (simp add: ids_shrink_eq n_def)
  have m: "m = take n m @ drop n m" by simp
  have sep: "\<forall>x \<in> fst ` set (take n m). \<forall>y \<in> fst ` set (drop n m). x < y"
    using assms by (subst (asm) m) (auto simp: sorted_wrt_append simp del: append_take_drop_id)
  have "map_of (drop n m) y = map_of m y" if "y \<in> fst ` set (drop n m)" for y
  proof -
    have "map_of (take n m) y = None"
      using sep that by (metis less_irrefl map_of_eq_None_iff)
    then show ?thesis
      by (subst (2) m) (simp add: map_add_def del: append_take_drop_id)
  qed
  moreover have "ids_max (drop n m) = ids_max m"
  proof (cases m)
    case (Cons e r)
    then have "n < length m" by (simp add: n_def kIdsBufferSize_def)
    then show ?thesis by (auto simp: ids_max_def)
  qed (simp add: ids_max_def)
  ultimately show ?thesis
    using sep m unfolding eq
    by (intro exI [of _ "take n m"]) (simp add: ids_lookup_def n_def)
qed

lemma ids_shrink_keeps_latest_witness:
  "ids_max (ids_shrink [(4, False), (8, True)]) = ids_max [(4, False), (8, True)] \<and>
   length (ids_shrink [(4, False), (8, True)]) = 2"
proof -
  have "keys_sorted [(4 :: int, False), (8, True)]" by simp
  from ids_shrink_keeps_latest [OF this] show ?thesis by (auto simp: kIdsBufferSize_def)
qed

end
