(* ===== verification/TcpProtocol.thy ===== *)
theory TcpProtocol imports Prelude begin

text \<open>
  The packet formats of \<open>TcpConnection::Protocol\<close> in \<open>mtproto/connection_tcp.cpp\<close>: the
  virtual interface is the locale \<open>packet_format\<close> below, its implementations are the abridged
  format (\<open>Version0\<close>, kept by the obfuscated \<open>Version1\<close>) and the padded intermediate one
  (\<open>VersionD\<close>).

  A byte is an \<open>8 word\<close> and an \<open>mtpPrime\<close> a \<open>32 word\<close>. Where the code reinterprets memory,
  integers lie in it with their low byte first, as on every platform the client is built for. A
  failed \<open>Expects\<close> or \<open>Assert\<close> is the value \<open>None\<close>. SHA-256 (OpenSSL) and the random values of
  the padding (\<open>base::RandomValue\<close>) are parameters.
\<close>

section \<open>Bytes and integers\<close>

type_synonym u8 = "8 word"

type_synonym mtp_buffer = "32 word list"

definition bytes_of_prime :: "32 word \<Rightarrow> u8 list" where
  "bytes_of_prime w =
    [ucast w, ucast (drop_bit 8 w), ucast (drop_bit 16 w), ucast (drop_bit 24 w)]"

definition prime_of_bytes :: "u8 \<Rightarrow> u8 \<Rightarrow> u8 \<Rightarrow> u8 \<Rightarrow> 32 word" where
  "prime_of_bytes b0 b1 b2 b3 =
    ucast b0 OR push_bit 8 (ucast b1) OR push_bit 16 (ucast b2) OR push_bit 24 (ucast b3)"

definition bytes_of_buffer :: "mtp_buffer \<Rightarrow> u8 list" where
  "bytes_of_buffer buffer = concat (map bytes_of_prime buffer)"

definition subspan :: "nat \<Rightarrow> nat \<Rightarrow> u8 list \<Rightarrow> u8 list" where
  "subspan offset count bytes = take count (drop offset bytes)"

definition kUnknownSize :: int where
  "kUnknownSize = -1"

definition kInvalidSize :: int where
  "kInvalidSize = -2"

definition kPacketSizeMax :: nat where
  "kPacketSizeMax = 0x01000000 * 4"

section \<open>The abridged format\<close>

definition v0_id :: "32 word" where
  "v0_id = 0xEFEFEFEF"

definition v0_finalizePacket :: "mtp_buffer \<Rightarrow> u8 list option" where
  "v0_finalizePacket buffer =
    (if \<not> (length buffer > 2 \<and> length buffer < 0x1000003) then None
     else
       let intsSize = length buffer - 2;
           bytesSize = intsSize * 4;
           data = bytes_of_buffer buffer;
           w = (of_nat intsSize :: 32 word);
           (added, data) =
             (if intsSize < 0x7F then (1, data[7 := ucast w])
              else (4, data[4 := 0x7F, 5 := ucast (w AND 0xFF),
                            6 := ucast (drop_bit 8 w AND 0xFF),
                            7 := ucast (drop_bit 16 w AND 0xFF)]))
       in Some (subspan (8 - added) (added + bytesSize) data))"

definition v0_readPacketLength :: "u8 list \<Rightarrow> int" where
  "v0_readPacketLength bytes =
    (if bytes = [] then kUnknownSize
     else
       let first = sint (bytes ! 0)
       in if first = 0x7F then
            if length bytes < 4 then kUnknownSize
            else
              let ints = (ucast (bytes ! 1) :: 32 word) OR push_bit 8 (ucast (bytes ! 2))
                    OR push_bit 16 (ucast (bytes ! 3))
              in if ints \<ge> 0x7F then sint (push_bit 2 ints) + 4 else kInvalidSize
          else if first > 0 \<and> first < 0x7F then
            let ints = (ucast (bytes ! 0) :: 32 word)
            in sint (push_bit 2 ints) + 1
          else kInvalidSize)"

definition v0_readPacket :: "u8 list \<Rightarrow> u8 list option" where
  "v0_readPacket bytes =
    (let sz = v0_readPacketLength bytes
     in if sz \<noteq> kUnknownSize \<and> sz \<noteq> kInvalidSize \<and> sz \<le> int (length bytes)
        then
          let sizeLength = (if sint (bytes ! 0) = 0x7F then 4 else 1)
          in Some (subspan sizeLength (nat sz - sizeLength) bytes)
        else None)"

section \<open>The padded intermediate format\<close>

definition vD_id :: "32 word" where
  "vD_id = 0xDDDDDDDD"

text \<open>
  \<open>rnd\<close> is the random value the padding is taken from, \<open>fill\<close> the ones appended to the buffer.
\<close>

definition vD_padding :: "32 word \<Rightarrow> nat" where
  "vD_padding rnd = unat (rnd AND 0x0F)"

definition vD_finalizePacket :: "32 word \<Rightarrow> (nat \<Rightarrow> 32 word) \<Rightarrow> mtp_buffer \<Rightarrow> u8 list option" where
  "vD_finalizePacket rnd fill buffer =
    (if \<not> (length buffer > 2 \<and> length buffer < 0x1000003) then None
     else
       let intsSize = length buffer - 2;
           padding = vD_padding rnd;
           bytesSize = intsSize * 4 + padding;
           buffer = buffer[1 := of_nat bytesSize];
           buffer = buffer @ map fill [0..<(padding + 3) div 4]
       in Some (subspan 4 (4 + bytesSize) (bytes_of_buffer buffer)))"

definition vD_readPacketLength :: "u8 list \<Rightarrow> int" where
  "vD_readPacketLength bytes =
    (if length bytes < 4 then kUnknownSize
     else
       let value = prime_of_bytes (bytes ! 0) (bytes ! 1) (bytes ! 2) (bytes ! 3) + 4
       in if value \<ge> 8 \<and> value < of_nat kPacketSizeMax then sint value else kInvalidSize)"

definition vD_readPacket :: "u8 list \<Rightarrow> u8 list option" where
  "vD_readPacket bytes =
    (let sz = vD_readPacketLength bytes
     in if sz \<noteq> kUnknownSize \<and> sz \<noteq> kInvalidSize \<and> sz \<le> int (length bytes)
        then Some (subspan 4 (nat sz - 4) bytes)
        else None)"

section \<open>Choosing and dispatching the format\<close>

datatype protocol = Version0 | Version1 "u8 list" | VersionD "u8 list"

definition protocol_Create :: "u8 list \<Rightarrow> protocol option" where
  "protocol_Create secret =
    (if (length secret \<ge> 21 \<and> secret ! 0 = 0xEE) \<or> (length secret = 17 \<and> secret ! 0 = 0xDD)
     then Some (VersionD (subspan 1 16 secret))
     else if length secret = 16 then Some (Version1 secret)
     else if secret = [] then Some Version0
     else None)"

fun protocol_id :: "protocol \<Rightarrow> 32 word" where
  "protocol_id Version0 = v0_id"
| "protocol_id (Version1 secret) = v0_id"
| "protocol_id (VersionD secret) = vD_id"

fun supportsArbitraryLength :: "protocol \<Rightarrow> bool" where
  "supportsArbitraryLength Version0 = False"
| "supportsArbitraryLength (Version1 secret) = False"
| "supportsArbitraryLength (VersionD secret) = True"

fun prepareKey :: "(u8 list \<Rightarrow> u8 list) \<Rightarrow> protocol \<Rightarrow> u8 list \<Rightarrow> u8 list" where
  "prepareKey sha256 Version0 source = source"
| "prepareKey sha256 (Version1 secret) source = sha256 (source @ secret)"
| "prepareKey sha256 (VersionD secret) source = sha256 (source @ secret)"

fun debugPostfix :: "protocol \<Rightarrow> string" where
  "debugPostfix Version0 = ''''"
| "debugPostfix (Version1 secret) = ''_obf''"
| "debugPostfix (VersionD secret) = ''_dd''"

fun finalizePacket :: "32 word \<Rightarrow> (nat \<Rightarrow> 32 word) \<Rightarrow> protocol \<Rightarrow> mtp_buffer \<Rightarrow> u8 list option" where
  "finalizePacket rnd fill (VersionD secret) buffer = vD_finalizePacket rnd fill buffer"
| "finalizePacket rnd fill _ buffer = v0_finalizePacket buffer"

fun readPacketLength :: "protocol \<Rightarrow> u8 list \<Rightarrow> int" where
  "readPacketLength (VersionD secret) bytes = vD_readPacketLength bytes"
| "readPacketLength _ bytes = v0_readPacketLength bytes"

fun readPacket :: "protocol \<Rightarrow> u8 list \<Rightarrow> u8 list option" where
  "readPacket (VersionD secret) bytes = vD_readPacket bytes"
| "readPacket _ bytes = v0_readPacket bytes"

section \<open>Words and their bytes\<close>

lemma length_bytes_of_prime [simp]: "length (bytes_of_prime w) = 4"
  by (simp add: bytes_of_prime_def)

lemma length_bytes_of_buffer [simp]: "length (bytes_of_buffer buffer) = 4 * length buffer"
  by (induction buffer) (simp_all add: bytes_of_buffer_def)

lemma bytes_of_buffer_simps [simp]:
  "bytes_of_buffer [] = []"
  "bytes_of_buffer (w # buffer) = bytes_of_prime w @ bytes_of_buffer buffer"
  "bytes_of_buffer (buffer @ buffer') = bytes_of_buffer buffer @ bytes_of_buffer buffer'"
  by (simp_all add: bytes_of_buffer_def)

lemma mask_FF: "(0xFF :: 32 word) = mask 8"
  by (simp add: mask_eq_exp_minus_1)

lemma ucast_and_FF: "(ucast (w AND 0xFF :: 32 word) :: u8) = ucast w"
  by (rule bit_word_eqI) (auto simp: mask_FF bit_simps)

lemma prime_of_bytes_inverse:
  "prime_of_bytes (ucast w) (ucast (drop_bit 8 w)) (ucast (drop_bit 16 w)) (ucast (drop_bit 24 w)) = w"
proof (rule bit_word_eqI)
  fix n
  assume "n < LENGTH(32)"
  then have "n < 8 \<or> 8 \<le> n \<and> n < 16 \<or> 16 \<le> n \<and> n < 24 \<or> 24 \<le> n \<and> n < 32" by auto
  then show "bit (prime_of_bytes (ucast w) (ucast (drop_bit 8 w)) (ucast (drop_bit 16 w))
      (ucast (drop_bit 24 w))) n = bit w n"
    by (elim disjE; simp add: prime_of_bytes_def bit_simps; auto)
qed

lemma three_bytes_inverse:
  fixes w :: "32 word"
  assumes "drop_bit 24 w = 0"
  shows "(ucast (ucast w :: u8) :: 32 word) OR push_bit 8 (ucast (ucast (drop_bit 8 w) :: u8))
    OR push_bit 16 (ucast (ucast (drop_bit 16 w) :: u8)) = w"
  using prime_of_bytes_inverse [of w] assms by (simp add: prime_of_bytes_def)

text \<open>Shape of the outgoing packets: a length prefix and the payload.\<close>

definition v0_prefix :: "nat \<Rightarrow> u8 list" where
  "v0_prefix n =
    (let w = (of_nat n :: 32 word)
     in if n < 0x7F then [ucast w]
        else [0x7F, ucast w, ucast (drop_bit 8 w), ucast (drop_bit 16 w)])"

lemma header_updates:
  "(a0 # a1 # a2 # a3 # b0 # b1 # b2 # b3 # r)[7 := x] = a0 # a1 # a2 # a3 # b0 # b1 # b2 # x # r"
  "(a0 # a1 # a2 # a3 # b0 # b1 # b2 # b3 # r)[4 := x, 5 := y, 6 := z, 7 := u]
    = a0 # a1 # a2 # a3 # x # y # z # u # r"
  "take (4 + n) (x # y # z # u # r) = x # y # z # u # take n r"
  by (simp_all add: numeral_eq_Suc)

lemma v0_finalizePacket_eq:
  "v0_finalizePacket (a # b # payload) =
    (if payload \<noteq> [] \<and> length payload < 0x1000001
     then Some (v0_prefix (length payload) @ bytes_of_buffer payload) else None)"
proof -
  obtain a0 a1 a2 a3 b0 b1 b2 b3 where ab: "bytes_of_prime a = [a0, a1, a2, a3]"
    "bytes_of_prime b = [b0, b1, b2, b3]"
    by (simp add: bytes_of_prime_def)
  show ?thesis
    by (auto simp: v0_finalizePacket_def v0_prefix_def Let_def ab subspan_def ucast_and_FF
        header_updates)
qed

lemma v0_finalizePacket_Some:
  "v0_finalizePacket buffer = Some packet \<longleftrightarrow>
    (\<exists>a b payload. buffer = a # b # payload \<and> payload \<noteq> [] \<and> length payload < 0x1000001 \<and>
      packet = v0_prefix (length payload) @ bytes_of_buffer payload)"
proof (cases buffer rule: remdups_adj.cases)
  case (3 a b payload)
  then show ?thesis by (auto simp: v0_finalizePacket_eq)
qed (auto simp: v0_finalizePacket_def)

lemma unat32: "n < 2 ^ 32 \<Longrightarrow> unat (of_nat n :: 32 word) = n"
  by (simp add: unsigned_of_nat take_bit_nat_eq_self)

lemma byte_of_nat: "n < 2 ^ 32 \<Longrightarrow> (ucast (of_nat n :: 32 word) :: u8) = of_nat n"
  by (metis of_nat_unat unat32)

lemma prime_of_byte: "n < 256 \<Longrightarrow> (ucast (ucast (of_nat n :: 32 word) :: u8) :: 32 word) = of_nat n"
proof -
  assume n: "n < 256"
  then have "unat (of_nat n :: u8) = n" by (simp add: unsigned_of_nat take_bit_nat_eq_self)
  then have "(ucast (of_nat n :: u8) :: 32 word) = of_nat n" by (metis of_nat_unat)
  with n show ?thesis using byte_of_nat [of n] by simp
qed

lemma sint_byte: "n < 128 \<Longrightarrow> sint (of_nat n :: u8) = int n"
  by (simp add: signed_of_nat signed_take_bit_int_eq_self)

lemma sint32: "n < 2 ^ 31 \<Longrightarrow> sint (of_nat n :: 32 word) = int n"
  by (simp add: signed_of_nat signed_take_bit_int_eq_self)

lemma push2: "push_bit 2 (of_nat n :: 32 word) = of_nat (4 * n)"
  by (simp add: push_bit_eq_mult)

lemma drop24: "n < 2 ^ 24 \<Longrightarrow> drop_bit 24 (of_nat n :: 32 word) = 0"
  by (simp add: drop_bit_eq_div word_unat_eq_iff unat_div unat32)

lemma v0_readPacketLength_prefix:
  assumes "0 < n" "n < 2 ^ 24"
  shows "v0_readPacketLength (v0_prefix n @ r) = int (length (v0_prefix n) + 4 * n)"
proof (cases "n < 0x7F")
  case True
  with assms show ?thesis
    by (simp add: v0_readPacketLength_def v0_prefix_def Let_def prime_of_byte push2
        sint32 [of "4 * n", simplified]) (simp add: byte_of_nat sint_byte)
next
  case False
  let ?w = "of_nat n :: 32 word"
  have "?w \<ge> 0x7F" using False assms by (simp add: word_le_nat_alt unat32)
  with False assms three_bytes_inverse [OF drop24, of n] show ?thesis
    by (simp add: v0_readPacketLength_def v0_prefix_def Let_def push2 sint32 [of "4 * n", simplified])
qed

lemma length_v0_prefix: "length (v0_prefix n) = (if n < 0x7F then 1 else 4)"
  by (simp add: v0_prefix_def Let_def)

lemma v0_readPacket_prefix:
  assumes "0 < n" "n < 2 ^ 24" "length body = 4 * n"
  shows "v0_readPacket (v0_prefix n @ body) = Some body"
proof -
  have "sint (v0_prefix n ! 0) = 0x7F \<longleftrightarrow> \<not> n < 0x7F"
    by (simp add: v0_prefix_def Let_def byte_of_nat sint_byte)
  moreover have "v0_prefix n \<noteq> []" by (simp add: v0_prefix_def Let_def)
  ultimately show ?thesis
    using v0_readPacketLength_prefix [OF assms(1,2), of body] assms(3)
    by (simp add: v0_readPacket_def kUnknownSize_def kInvalidSize_def Let_def nth_append subspan_def
        length_v0_prefix)
qed

text \<open>The padded format: the prefix is the byte size of payload and padding.\<close>

lemma vD_finalizePacket_eq:
  "vD_finalizePacket rnd fill (a # b # payload) =
    (if payload \<noteq> [] \<and> length payload < 0x1000001
     then
       let pad = take (vD_padding rnd) (bytes_of_buffer (map fill [0..<(vD_padding rnd + 3) div 4]))
       in Some (bytes_of_prime (of_nat (4 * length payload + vD_padding rnd)) @
            bytes_of_buffer payload @ pad)
     else None)"
  by (auto simp: vD_finalizePacket_def Let_def subspan_def mult.commute)

lemma length_vD_pad:
  "length (take (vD_padding rnd) (bytes_of_buffer (map fill [0..<(vD_padding rnd + 3) div 4])))
    = vD_padding rnd"
  by simp

lemma vD_padding_less: "vD_padding rnd < 16"
proof -
  have "rnd AND 0x0F = take_bit 4 rnd"
    by (simp add: take_bit_eq_mask mask_eq_exp_minus_1)
  then show ?thesis by (simp add: vD_padding_def unsigned_take_bit_eq take_bit_nat_def)
qed

lemma vD_readPacketLength_prefix:
  assumes "4 \<le> n" "n + 4 < kPacketSizeMax"
  shows "vD_readPacketLength (bytes_of_prime (of_nat n) @ r) = int n + 4"
proof -
  have max: "unat (of_nat kPacketSizeMax :: 32 word) = kPacketSizeMax"
    by (rule unat32) (simp add: kPacketSizeMax_def)
  have sum: "of_nat n + 4 = (of_nat (n + 4) :: 32 word)" by simp
  have un: "unat (of_nat (n + 4) :: 32 word) = n + 4"
    using assms(2) by (intro unat32) (simp add: kPacketSizeMax_def)
  have s: "sint (of_nat (n + 4) :: 32 word) = int (n + 4)"
    using assms(2) by (intro sint32) (simp add: kPacketSizeMax_def)
  have "(of_nat (n + 4) :: 32 word) \<ge> 8" "(of_nat (n + 4) :: 32 word) < of_nat kPacketSizeMax"
    using assms unfolding word_le_nat_alt word_less_nat_alt un max by simp_all
  then show ?thesis
    using s by (simp add: vD_readPacketLength_def bytes_of_prime_def Let_def
        prime_of_bytes_inverse sum del: of_nat_add)
qed

section \<open>The interface of the formats\<close>

text \<open>
  What \<open>TcpConnection\<close> needs of a format to cut packets out of a byte stream: the length is
  known from any bytes that start with a whole packet, four bytes at most are needed for it, and
  fewer are answered with \<open>kUnknownSize\<close>.
\<close>

locale packet_format =
  fixes read_length :: "u8 list \<Rightarrow> int"
    and packet :: "u8 list \<Rightarrow> bool"
  assumes read_whole: "packet p \<Longrightarrow> read_length (p @ rest) = int (length p)"
    and read_part: "packet p \<Longrightarrow> p = a @ b \<Longrightarrow> a \<noteq> [] \<Longrightarrow>
      read_length a = int (length p) \<or> read_length a = kUnknownSize \<and> length a < 4"
    and packet_length: "packet p \<Longrightarrow> 4 < length p \<and> length p \<le> 2 ^ 27"
begin

text \<open>A byte stream is cut into packets in one way only.\<close>

lemma packet_prefix_free:
  assumes "packet p" "packet q" "p @ r = q @ s"
  shows "p = q \<and> r = s"
proof -
  have "length p = length q"
    using read_whole [OF assms(1), of r] read_whole [OF assms(2), of s] assms(3) by simp
  with assms(3) show ?thesis by simp
qed

lemma packet_not_Nil: "packet p \<Longrightarrow> p \<noteq> []"
  using packet_length [of p] by auto

lemma packets_unique:
  "\<forall>p \<in> set ps. packet p \<Longrightarrow> \<forall>q \<in> set qs. packet q \<Longrightarrow> concat ps = concat qs \<Longrightarrow> ps = qs"
proof (induction ps arbitrary: qs)
  case Nil
  show ?case
  proof (cases qs)
    case (Cons q qs')
    with Nil have "packet q" "q = []" by simp_all
    then show ?thesis using packet_not_Nil by blast
  qed simp
next
  case (Cons p ps)
  have "p \<noteq> []" using Cons.prems(1) packet_not_Nil [of p] by simp
  then obtain q qs' where qs: "qs = q # qs'" using Cons.prems(3) by (cases qs) auto
  have pq: "packet p" "packet q" using Cons.prems(1,2) qs by auto
  have "p @ concat ps = q @ concat qs'" using Cons.prems(3) qs by simp
  from packet_prefix_free [OF pq this] have "p = q" "concat ps = concat qs'" by simp_all
  moreover from this(2) have "ps = qs'" using Cons.prems(1,2) qs by (intro Cons.IH) auto
  ultimately show ?case using qs by simp
qed

end

definition v0_packet :: "u8 list \<Rightarrow> bool" where
  "v0_packet p \<longleftrightarrow> (\<exists>n body. 0 < n \<and> n < 2 ^ 24 \<and> length body = 4 * n \<and> p = v0_prefix n @ body)"

definition vD_packet :: "u8 list \<Rightarrow> bool" where
  "vD_packet p \<longleftrightarrow>
    (\<exists>n body. 4 \<le> n \<and> n + 4 < kPacketSizeMax \<and> length body = n \<and> p = bytes_of_prime (of_nat n) @ body)"

lemma v0_read_part:
  assumes "0 < n" "n < 2 ^ 24" "length body = 4 * n" "v0_prefix n @ body = a @ b" "a \<noteq> []"
  shows "v0_readPacketLength a = int (length (v0_prefix n) + 4 * n) \<or>
    v0_readPacketLength a = kUnknownSize \<and> length a < 4"
proof (cases "length (v0_prefix n) \<le> length a")
  case True
  then obtain r where "a = v0_prefix n @ r"
    using assms(4) by (metis append_eq_append_conv_if append_take_drop_id)
  then show ?thesis using v0_readPacketLength_prefix [OF assms(1,2)] by simp
next
  case False
  then have n: "\<not> n < 0x7F" and len: "length a < 4"
    using assms(5) by (cases a; auto simp: length_v0_prefix split: if_splits)+
  have "a ! 0 = v0_prefix n ! 0"
    using assms(4,5) False by (metis length_greater_0_conv linorder_not_less nth_append order_less_trans)
  with n len assms(5) show ?thesis
    by (simp add: v0_readPacketLength_def v0_prefix_def Let_def)
qed

interpretation v0: packet_format v0_readPacketLength v0_packet
proof
  show "v0_readPacketLength (p @ rest) = int (length p)" if "v0_packet p" for p rest
    using that v0_readPacketLength_prefix by (auto simp: v0_packet_def)
  show "v0_readPacketLength a = int (length p) \<or> v0_readPacketLength a = kUnknownSize \<and> length a < 4"
    if p: "v0_packet p" "p = a @ b" "a \<noteq> []" for p a b
  proof -
    obtain n body where n: "0 < n" "n < 2 ^ 24" "length body = 4 * n" "p = v0_prefix n @ body"
      using p(1) unfolding v0_packet_def by blast
    then show ?thesis
      using v0_read_part [OF n(1-3) _ p(3), of b] p(2) by simp
  qed
  show "4 < length p \<and> length p \<le> 2 ^ 27" if "v0_packet p" for p
    using that by (auto simp: v0_packet_def length_v0_prefix)
qed

interpretation vD: packet_format vD_readPacketLength vD_packet
proof
  show "vD_readPacketLength (p @ rest) = int (length p)" if "vD_packet p" for p rest
    using that vD_readPacketLength_prefix by (auto simp: vD_packet_def)
  show "vD_readPacketLength a = int (length p) \<or> vD_readPacketLength a = kUnknownSize \<and> length a < 4"
    if p: "vD_packet p" "p = a @ b" "a \<noteq> []" for p a b
  proof (cases "length a < 4")
    case True
    then show ?thesis by (simp add: vD_readPacketLength_def)
  next
    case False
    obtain n body where n: "4 \<le> n" "n + 4 < kPacketSizeMax" "length body = n"
      "bytes_of_prime (of_nat n) @ body = a @ b"
      using p by (auto simp: vD_packet_def)
    moreover from this False obtain r where "a = bytes_of_prime (of_nat n) @ r"
      by (metis append_eq_append_conv_if append_take_drop_id length_bytes_of_prime not_less)
    ultimately show ?thesis
      using vD_readPacketLength_prefix [of n r] p(2) by (metis add.commute int_ops(3) int_plus
          length_append length_bytes_of_prime of_nat_numeral)
  qed
  show "4 < length p \<and> length p \<le> 2 ^ 27" if "vD_packet p" for p
    using that by (auto simp: vD_packet_def kPacketSizeMax_def)
qed

text \<open>What a protocol sends, the same protocol takes for a packet.\<close>

definition is_packet :: "protocol \<Rightarrow> u8 list \<Rightarrow> bool" where
  "is_packet protocol p = (case protocol of VersionD secret \<Rightarrow> vD_packet p | _ \<Rightarrow> v0_packet p)"

interpretation wire: packet_format "readPacketLength protocol" "is_packet protocol" for protocol
proof (cases protocol)
  case (VersionD secret)
  then have eq: "readPacketLength protocol = vD_readPacketLength" "is_packet protocol = vD_packet"
    by (auto simp: is_packet_def)
  show "packet_format (readPacketLength protocol) (is_packet protocol)"
    unfolding eq by (rule vD.packet_format_axioms)
next
  case Version0
  then have eq: "readPacketLength protocol = v0_readPacketLength" "is_packet protocol = v0_packet"
    by (auto simp: is_packet_def)
  show "packet_format (readPacketLength protocol) (is_packet protocol)"
    unfolding eq by (rule v0.packet_format_axioms)
next
  case (Version1 secret)
  then have eq: "readPacketLength protocol = v0_readPacketLength" "is_packet protocol = v0_packet"
    by (auto simp: is_packet_def)
  show "packet_format (readPacketLength protocol) (is_packet protocol)"
    unfolding eq by (rule v0.packet_format_axioms)
qed

lemma finalizePacket_is_packet:
  assumes "finalizePacket rnd fill protocol (a # b # payload) = Some p"
    and "4 * length payload + 19 < kPacketSizeMax"
  shows "is_packet protocol p"
proof (cases protocol)
  case (VersionD secret)
  let ?n = "4 * length payload + vD_padding rnd"
  have "4 \<le> ?n" "?n + 4 < kPacketSizeMax"
    using assms vD_padding_less [of rnd] VersionD
    by (cases payload; simp add: vD_finalizePacket_eq)+
  moreover have "\<exists>body. length body = ?n \<and> p = bytes_of_prime (of_nat ?n) @ body"
    using assms(1) VersionD
    by (intro exI [of _ "bytes_of_buffer payload @ take (vD_padding rnd)
          (bytes_of_buffer (map fill [0..<(vD_padding rnd + 3) div 4]))"])
      (auto simp: vD_finalizePacket_eq Let_def length_vD_pad split: if_splits)
  ultimately have "vD_packet p" unfolding vD_packet_def by blast
  then show ?thesis by (simp add: is_packet_def VersionD)
qed (use assms in \<open>auto simp: is_packet_def v0_finalizePacket_eq v0_packet_def kPacketSizeMax_def
      intro!: exI [of _ "length payload"] split: if_splits\<close>)

section \<open>Properties\<close>

text \<open>
  C5: a packet sent in the abridged format is read back. Whatever follows it in the stream,
  its length is found from its first bytes, and its content is the payload of the buffer: the
  integers after the two reserved ones.
\<close>

theorem v0_roundtrip:
  assumes "v0_finalizePacket buffer = Some packet" and "length buffer < 0x1000002"
  shows "v0_readPacketLength (packet @ rest) = int (length packet) \<and>
    v0_readPacket packet = Some (bytes_of_buffer (drop 2 buffer))"
proof -
  obtain a b payload where buffer: "buffer = a # b # payload" "payload \<noteq> []"
    and packet: "packet = v0_prefix (length payload) @ bytes_of_buffer payload"
    using assms(1) by (auto simp: v0_finalizePacket_Some)
  have n: "0 < length payload" "length payload < 2 ^ 24"
    using assms(2) buffer by (cases payload; simp)+
  show ?thesis
    using v0_readPacketLength_prefix [OF n] v0_readPacket_prefix [OF n] buffer packet by simp
qed

lemma v0_roundtrip_witness:
  "v0_readPacket [2, 1, 0, 0, 0, 2, 0, 0, 0] = Some (bytes_of_buffer (drop 2 [0, 0, 1, 2]))"
proof -
  have "v0_finalizePacket [0, 0, 1, 2] = Some [2, 1, 0, 0, 0, 2, 0, 0, 0]"
    by (simp add: v0_finalizePacket_eq v0_prefix_def bytes_of_prime_def drop_bit_eq_div)
  from v0_roundtrip [OF this] show ?thesis by simp
qed

text \<open>
  the guard of the abridged format admits one buffer too many. A payload of exactly
  \<open>2 ^ 24\<close> integers passes \<open>buffer.size() < 0x1000003\<close>, but its length does not fit the three
  bytes of the prefix: they are written as zero, and the packet is refused by its own format.
\<close>

theorem v0_guard_off_by_one:
  assumes "length buffer = 0x1000002"
  shows "\<exists>packet. v0_finalizePacket buffer = Some packet \<and> v0_readPacketLength packet = kInvalidSize"
proof -
  obtain a b payload where buffer: "buffer = a # b # payload" "length payload = 0x1000000"
    using assms by (cases buffer rule: remdups_adj.cases) auto
  let ?n = "0x1000000 :: nat"
  have prefix: "v0_prefix ?n = [0x7F, 0, 0, 0]"
    by (simp add: v0_prefix_def drop_bit_eq_div)
  have "payload \<noteq> []" using buffer(2) by auto
  then have "v0_finalizePacket buffer = Some (v0_prefix ?n @ bytes_of_buffer payload)"
    using buffer(2) unfolding buffer(1) v0_finalizePacket_eq by simp
  moreover have "v0_readPacketLength (v0_prefix ?n @ bytes_of_buffer payload) = kInvalidSize"
    unfolding prefix by (simp add: v0_readPacketLength_def)
  ultimately show ?thesis by blast
qed

lemma v0_guard_off_by_one_witness:
  "\<exists>packet. v0_finalizePacket (replicate 0x1000002 0) = Some packet \<and>
    v0_readPacketLength packet = kInvalidSize"
  by (rule v0_guard_off_by_one) (simp only: length_replicate)

text \<open>
  C6: a packet sent in the padded format is read back, for any random padding: the length
  is that of the packet, and the content is the payload followed by fewer than 16 padding bytes.
\<close>

theorem vD_roundtrip:
  assumes "vD_finalizePacket rnd fill buffer = Some packet"
    and "4 * length buffer + 11 < kPacketSizeMax"
  shows "vD_readPacketLength (packet @ rest) = int (length packet) \<and>
    (\<exists>padding. length padding < 16 \<and>
      vD_readPacket packet = Some (bytes_of_buffer (drop 2 buffer) @ padding))"
proof -
  obtain a b payload where buffer: "buffer = a # b # payload"
    using assms(1) by (cases buffer rule: remdups_adj.cases) (auto simp: vD_finalizePacket_def)
  let ?n = "4 * length payload + vD_padding rnd"
  define pad where "pad = take (vD_padding rnd) (bytes_of_buffer (map fill [0..<(vD_padding rnd + 3) div 4]))"
  have packet: "packet = bytes_of_prime (of_nat ?n) @ bytes_of_buffer payload @ pad" "payload \<noteq> []"
    using assms(1) unfolding buffer by (auto simp: vD_finalizePacket_eq pad_def Let_def split: if_splits)
  have len: "length pad = vD_padding rnd" unfolding pad_def by (rule length_vD_pad)
  have n: "4 \<le> ?n" "?n + 4 < kPacketSizeMax"
    using packet(2) assms(2) vD_padding_less [of rnd] buffer by (cases payload; simp)+
  have "vD_readPacket packet = Some (bytes_of_buffer (drop 2 buffer) @ pad)"
    using vD_readPacketLength_prefix [OF n, of "bytes_of_buffer payload @ pad"] len buffer
    by (simp add: packet(1) vD_readPacket_def kUnknownSize_def kInvalidSize_def Let_def subspan_def)
  moreover have "vD_readPacketLength (packet @ rest) = int (length packet)"
    using vD_readPacketLength_prefix [OF n, of "bytes_of_buffer payload @ pad @ rest"] len
    by (simp add: packet(1))
  ultimately show ?thesis using len vD_padding_less [of rnd] by auto
qed

lemma vD_roundtrip_witness:
  "vD_readPacketLength (the (vD_finalizePacket 0x25 (\<lambda>_. 7) [0, 0, 1, 2]) @ [9])
    = int (length (the (vD_finalizePacket 0x25 (\<lambda>_. 7) [0, 0, 1, 2])))"
  using vD_roundtrip [where rnd = "0x25" and fill = "\<lambda>_. 7" and buffer = "[0, 0, 1, 2]" and rest = "[9]"]
  by (simp add: vD_finalizePacket_eq kPacketSizeMax_def Let_def)

end
