(* ===== verification/TcpStream.thy ===== *)
theory TcpStream imports TcpProtocol begin

text \<open>
  The receiving side of \<open>TcpConnection\<close> in \<open>mtproto/connection_tcp.cpp\<close>: the two receive
  buffers, the loop that reads the socket into them and cuts whole packets out, and what is done
  with a packet; with the parsing of unencrypted answers of \<open>mtproto/connection_abstract.cpp\<close>.

  What the code does not define itself comes in through the record \<open>tcp_env\<close>: AES-CTR
  (OpenSSL) with its state, the generated reader of the \<open>resPQ\<close> answer, the clock, and the
  owner's reaction to the signals (does the connection still have a connected socket after these
  signals). Signals are recorded in the order they are emitted. A failed \<open>Assert\<close> or \<open>Expects\<close>,
  or a span cut outside its buffer, is \<open>None\<close>.
\<close>

section \<open>State\<close>

datatype tcp_status = Waiting | Ready | Finished

datatype tcp_event =
    ReceivedData | ReceivedSome | Error int | Connected | Disconnected | SyncTimeRequest

record 's tcp_conn =
  tc_offsetBytes :: nat
  tc_readBytes :: nat
  tc_leftBytes :: nat
  tc_smallBuffer :: "u8 list"
  tc_largeBuffer :: "u8 list"
  tc_usingLargeBuffer :: bool
  tc_receiveState :: 's
  tc_status :: tcp_status
  tc_checkNonce :: "u8 list"
  tc_pingTime :: int
  tc_receivedQueue :: "mtp_buffer list"
  tc_events :: "tcp_event list"

record 's tcp_env =
  ev_protocol :: protocol
  ev_aesCtr :: "u8 list \<Rightarrow> 's \<Rightarrow> u8 list \<times> 's"
  ev_readResPQ :: "mtp_buffer \<Rightarrow> nat \<Rightarrow> u8 list option"
  ev_now :: int
  ev_alive :: "tcp_event list \<Rightarrow> bool"

definition kSmallBufferSize :: nat where
  "kSmallBufferSize = 256 * 1024"

definition kMinPacketBuffer :: nat where
  "kMinPacketBuffer = 256"

definition kErrorCodeOther :: int where
  "kErrorCodeOther = -499"

definition emit :: "tcp_event \<Rightarrow> 's tcp_conn \<Rightarrow> 's tcp_conn" where
  "emit e c = c\<lparr>tc_events := tc_events c @ [e]\<rparr>"

section \<open>Answers and packets\<close>

text \<open>
  The answer is a span of the buffer: the position of its first int and the number of ints.
\<close>

definition parseNotSecureResponse :: "mtp_buffer \<Rightarrow> (nat \<times> nat) option" where
  "parseNotSecureResponse buffer =
    (let answer = buffer; len = length buffer
     in if len < 6 then None
        else if answer ! 0 \<noteq> 0 \<or> answer ! 1 \<noteq> 0 \<or> (answer ! 2 AND 0x03) \<noteq> 1 then None
        else
          let answerLen = unat (answer ! 4)
          in if answerLen < 1 \<or> answerLen > (len - 5) * 4 then None
             else Some (5, answerLen))"

text \<open>
  \<open>ev_readResPQ\<close> gets the ints of the buffer the answer starts at and the number of ints it may
  read; it returns the nonce of the answer.
\<close>

definition readPQFakeReply :: "'s tcp_env \<Rightarrow> mtp_buffer \<Rightarrow> u8 list option" where
  "readPQFakeReply env buffer =
    (case parseNotSecureResponse buffer of
       None \<Rightarrow> None
     | Some (first, count) \<Rightarrow> ev_readResPQ env (drop first buffer) count)"

fun ints_of_bytes :: "u8 list \<Rightarrow> mtp_buffer" where
  "ints_of_bytes (b0 # b1 # b2 # b3 # bytes) = prime_of_bytes b0 b1 b2 b3 # ints_of_bytes bytes"
| "ints_of_bytes bytes = []"

definition parsePacket :: "protocol \<Rightarrow> u8 list \<Rightarrow> mtp_buffer option" where
  "parsePacket protocol bytes =
    (case readPacket protocol bytes of
       None \<Rightarrow> None
     | Some packet \<Rightarrow>
         let ints = ints_of_bytes packet
         in if ints = [] then None
            else if length ints < 3 then Some [ints ! 0]
            else Some ints)"

definition socketPacket :: "'s tcp_env \<Rightarrow> u8 list \<Rightarrow> 's tcp_conn \<Rightarrow> 's tcp_conn option" where
  "socketPacket env bytes c =
    (case parsePacket (ev_protocol env) bytes of
       None \<Rightarrow> None
     | Some data \<Rightarrow> Some (
         if length data = 1 then
           (if data ! 0 \<noteq> 0 then emit (Error (sint (data ! 0))) c else c)
         else if tc_status c = Ready then
           emit ReceivedData (c\<lparr>tc_receivedQueue := tc_receivedQueue c @ [data]\<rparr>)
         else if tc_status c = Waiting then
           (case readPQFakeReply env data of
              Some vnonce \<Rightarrow>
                if vnonce = tc_checkNonce c
                then emit Connected (c\<lparr>tc_status := Ready, tc_pingTime := ev_now env - tc_pingTime c\<rparr>)
                else emit (Error kErrorCodeOther) c
            | None \<Rightarrow> emit (Error kErrorCodeOther) c)
         else c))"

section \<open>The buffers\<close>

definition current_buffer :: "'s tcp_conn \<Rightarrow> u8 list" where
  "current_buffer c = (if tc_usingLargeBuffer c then tc_largeBuffer c else tc_smallBuffer c)"

definition write_at :: "nat \<Rightarrow> u8 list \<Rightarrow> u8 list \<Rightarrow> u8 list" where
  "write_at pos bytes buffer = take pos buffer @ bytes @ drop (pos + length bytes) buffer"

text \<open>\<open>bytes::copy\<close> and \<open>bytes::move\<close>: the destination must hold the source.\<close>

definition copy_bytes :: "u8 list \<Rightarrow> u8 list \<Rightarrow> u8 list option" where
  "copy_bytes destination source =
    (if length source \<le> length destination then Some (write_at 0 source destination) else None)"

definition ensureAvailableInBuffer :: "nat \<Rightarrow> 's tcp_conn \<Rightarrow> 's tcp_conn option" where
  "ensureAvailableInBuffer amount c =
    (let full = drop (tc_offsetBytes c) (current_buffer c)
     in if length full \<ge> amount then Some c
        else
          let read = take (tc_readBytes c) full
          in map_option (\<lambda>c. c\<lparr>tc_offsetBytes := 0\<rparr>)
              (if amount \<le> length (tc_smallBuffer c) then
                 (if tc_usingLargeBuffer c then
                    map_option (\<lambda>b. c\<lparr>tc_smallBuffer := b, tc_usingLargeBuffer := False, tc_largeBuffer := []\<rparr>)
                      (copy_bytes (tc_smallBuffer c) read)
                  else
                    map_option (\<lambda>b. c\<lparr>tc_smallBuffer := b\<rparr>) (copy_bytes (tc_smallBuffer c) read))
               else if amount \<le> length (tc_largeBuffer c) then
                 (if \<not> tc_usingLargeBuffer c then None
                  else map_option (\<lambda>b. c\<lparr>tc_largeBuffer := b\<rparr>) (copy_bytes (tc_largeBuffer c) read))
               else
                 map_option (\<lambda>b. c\<lparr>tc_largeBuffer := b, tc_usingLargeBuffer := True\<rparr>)
                   (copy_bytes (replicate amount 0) read)))"

section \<open>The reading loop\<close>

text \<open>\<open>Return\<close>: the function returns early; \<open>Go\<close>: it goes on.\<close>

datatype flow = Go | Return

text \<open>
  The inner loop works on the span \<open>available\<close> of the buffer as it was when the loop began: it
  starts at \<open>pos\<close> and its size is always \<open>_readBytes\<close>. The span is not moved when
  \<open>ensureAvailableInBuffer\<close> moves the bytes; it is read from the buffer as it is then. The loop
  runs on the small buffer only.
\<close>

definition available_bytes :: "nat \<Rightarrow> 's tcp_conn \<Rightarrow> u8 list" where
  "available_bytes pos c = subspan pos (tc_readBytes c) (tc_smallBuffer c)"

text \<open>One pass of the loop body: the next position of the span, or the end of the loop.\<close>

definition packets_step ::
  "'s tcp_env \<Rightarrow> nat \<Rightarrow> 's tcp_conn \<Rightarrow> (flow \<times> nat option \<times> 's tcp_conn) option" where
  "packets_step env pos c =
    (let available = available_bytes pos c;
         packetSize = readPacketLength (ev_protocol env) available
     in if packetSize = kUnknownSize then Some (Go, None, c)
        else if packetSize \<le> 0 then Some (Return, None, emit (Error kErrorCodeOther) c)
        else if int (length available) \<ge> packetSize then
          (case socketPacket env (take (nat packetSize) available) c of
             None \<Rightarrow> None
           | Some c \<Rightarrow>
               if \<not> ev_alive env (tc_events c) then Some (Return, None, c)
               else
                 let c = c\<lparr>tc_offsetBytes := tc_offsetBytes c + nat packetSize,
                           tc_readBytes := tc_readBytes c - nat packetSize\<rparr>
                 in map_option (\<lambda>c. (Go, Some (pos + nat packetSize), c))
                      (ensureAvailableInBuffer kMinPacketBuffer c))
        else
          map_option (\<lambda>c. (Go, None, emit ReceivedSome c))
            (ensureAvailableInBuffer (nat packetSize)
              (c\<lparr>tc_leftBytes := nat packetSize - length available\<rparr>)))"

lemma emit_sel [simp]:
  "tc_readBytes (emit e c) = tc_readBytes c" "tc_offsetBytes (emit e c) = tc_offsetBytes c"
  "tc_leftBytes (emit e c) = tc_leftBytes c" "tc_smallBuffer (emit e c) = tc_smallBuffer c"
  "tc_largeBuffer (emit e c) = tc_largeBuffer c"
  "tc_usingLargeBuffer (emit e c) = tc_usingLargeBuffer c"
  "tc_receiveState (emit e c) = tc_receiveState c" "tc_status (emit e c) = tc_status c"
  "tc_events (emit e c) = tc_events c @ [e]" "tc_receivedQueue (emit e c) = tc_receivedQueue c"
  by (simp_all add: emit_def)

lemma socketPacket_sel:
  assumes "socketPacket env bytes c = Some c'"
  shows "tc_readBytes c' = tc_readBytes c \<and> tc_offsetBytes c' = tc_offsetBytes c \<and>
    tc_leftBytes c' = tc_leftBytes c \<and> tc_smallBuffer c' = tc_smallBuffer c \<and>
    tc_largeBuffer c' = tc_largeBuffer c \<and> tc_usingLargeBuffer c' = tc_usingLargeBuffer c \<and>
    tc_receiveState c' = tc_receiveState c"
  using assms by (auto simp: socketPacket_def emit_def split: option.splits if_splits)

lemma ensureAvailable_read:
  "ensureAvailableInBuffer n c = Some c' \<Longrightarrow> tc_readBytes c' = tc_readBytes c"
  by (auto simp: ensureAvailableInBuffer_def Let_def split: if_splits)

lemma packets_step_less:
  assumes "packets_step env pos c = Some (Go, Some pos', c')" "tc_readBytes c > 0"
  shows "tc_readBytes c' < tc_readBytes c"
  using assms
  by (auto simp: packets_step_def Let_def split: if_splits option.splits
      dest!: ensureAvailable_read socketPacket_sel)

function packets_loop ::
  "'s tcp_env \<Rightarrow> nat \<Rightarrow> 's tcp_conn \<Rightarrow> (flow \<times> 's tcp_conn) option" where
  "packets_loop env pos c =
    (if \<not> tc_readBytes c > 0 then Some (Go, c)
     else
       case packets_step env pos c of
         None \<Rightarrow> None
       | Some (flow, None, c) \<Rightarrow> Some (flow, c)
       | Some (Return, Some pos, c) \<Rightarrow> Some (Return, c)
       | Some (Go, Some pos, c) \<Rightarrow> packets_loop env pos c)"
  by pat_completeness auto
termination
  by (relation "measure (\<lambda>(env, pos, c). tc_readBytes c)") (auto dest: packets_step_less)

declare packets_loop.simps [simp del]

text \<open>What \<open>socketRead\<close> does with the bytes of one \<open>read\<close> that returned some.\<close>

definition socketRead_bytes ::
  "'s tcp_env \<Rightarrow> u8 list \<Rightarrow> 's tcp_conn \<Rightarrow> (flow \<times> 's tcp_conn) option" where
  "socketRead_bytes env bytes c =
    (let (plain, receiveState) = ev_aesCtr env bytes (tc_receiveState c);
         buffer = write_at (tc_offsetBytes c + tc_readBytes c) plain (current_buffer c);
         c = c\<lparr>tc_receiveState := receiveState\<rparr>;
         c = (if tc_usingLargeBuffer c then c\<lparr>tc_largeBuffer := buffer\<rparr>
              else c\<lparr>tc_smallBuffer := buffer\<rparr>);
         c = c\<lparr>tc_readBytes := tc_readBytes c + length bytes\<rparr>
     in if tc_leftBytes c > 0 then
          (if \<not> length bytes \<le> tc_leftBytes c then None
           else
             let c = c\<lparr>tc_leftBytes := tc_leftBytes c - length bytes\<rparr>
             in if tc_leftBytes c = 0 then
                  (case socketPacket env (subspan (tc_offsetBytes c) (tc_readBytes c) buffer) c of
                     None \<Rightarrow> None
                   | Some c \<Rightarrow>
                       if \<not> ev_alive env (tc_events c) then Some (Return, c)
                       else Some (Go, c\<lparr>tc_usingLargeBuffer := False, tc_largeBuffer := [],
                                        tc_offsetBytes := 0, tc_readBytes := 0\<rparr>))
                else Some (Go, emit ReceivedSome c))
        else packets_loop env (tc_offsetBytes c) c)"

text \<open>
  The socket: what \<open>read\<close> will find, in order. \<open>read\<close> with a limit takes at most that many bytes
  of the next piece; \<open>hasBytesAvailable\<close> holds while a piece is left.
\<close>

datatype socket_item = Bytes "u8 list" | ReadFails

definition readLimit :: "'s tcp_conn \<Rightarrow> nat" where
  "readLimit c =
    (if tc_leftBytes c > 0 then tc_leftBytes c
     else kSmallBufferSize - tc_offsetBytes c - tc_readBytes c)"

definition socket_weight :: "socket_item list \<Rightarrow> nat" where
  "socket_weight items =
    sum_list (map (\<lambda>item. case item of Bytes bs \<Rightarrow> length bs + 1 | ReadFails \<Rightarrow> 1) items)"

definition socket_rest :: "nat \<Rightarrow> u8 list \<Rightarrow> socket_item list \<Rightarrow> socket_item list" where
  "socket_rest limit bs items = (if length bs \<le> limit then items else Bytes (drop limit bs) # items)"

function socketRead_loop ::
  "'s tcp_env \<Rightarrow> socket_item list \<Rightarrow> 's tcp_conn \<Rightarrow> (socket_item list \<times> 's tcp_conn) option" where
  "socketRead_loop env items c =
    (if \<not> readLimit c > 0 then None
     else if tc_offsetBytes c + tc_readBytes c + readLimit c > length (current_buffer c) then None
     else
       case items of
         [] \<Rightarrow> Some ([], c)
       | ReadFails # items \<Rightarrow> Some (items, emit (Error kErrorCodeOther) c)
       | Bytes bs # items \<Rightarrow>
           if bs = [] then Some (items, c)
           else
             let items = socket_rest (readLimit c) bs items
             in case socketRead_bytes env (take (readLimit c) bs) c of
                  None \<Rightarrow> None
                | Some (Return, c) \<Rightarrow> Some (items, c)
                | Some (Go, c) \<Rightarrow>
                    if ev_alive env (tc_events c) \<and> items \<noteq> [] then socketRead_loop env items c
                    else Some (items, c))"
  by pat_completeness auto
termination
  by (relation "measure (\<lambda>(env, items, c). socket_weight items)")
    (auto simp: socket_weight_def socket_rest_def)

declare socketRead_loop.simps [simp del]

definition socketRead ::
  "'s tcp_env \<Rightarrow> socket_item list \<Rightarrow> 's tcp_conn \<Rightarrow> (socket_item list \<times> 's tcp_conn) option" where
  "socketRead env items c =
    (if \<not> (tc_leftBytes c > 0 \<or> \<not> tc_usingLargeBuffer c) then None
     else if \<not> ev_alive env (tc_events c) then Some (items, emit (Error kErrorCodeOther) c)
     else
       let c = (if tc_smallBuffer c = [] then c\<lparr>tc_smallBuffer := replicate kSmallBufferSize 0\<rparr> else c)
       in socketRead_loop env items c)"

section \<open>What the loop needs of a format\<close>

locale length_reader =
  fixes rl :: "u8 list \<Rightarrow> int"
  assumes rl_append: "rl p \<noteq> kUnknownSize \<Longrightarrow> rl (p @ q) = rl p"
    and rl_take: "4 \<le> m \<Longrightarrow> rl (take m p) = rl p"
    and rl_unknown: "rl p = kUnknownSize \<Longrightarrow> length p < 4"
    and rl_min: "rl p > 0 \<Longrightarrow> rl p \<ge> 5"
begin

lemma rl_whole:
  assumes "rl p = int n" "0 < n"
  shows "rl (take n p) = int n"
  using rl_take [of n p] rl_min [of p] assms by simp

end

lemma bytes4_cases:
  fixes p :: "u8 list"
  obtains "p = []" | b0 where "p = [b0]" | b0 b1 where "p = [b0, b1]"
    | b0 b1 b2 where "p = [b0, b1, b2]" | b0 b1 b2 b3 r where "p = b0 # b1 # b2 # b3 # r"
  by (metis remdups_adj.cases)

lemma three_bytes_less:
  fixes b1 b2 b3 :: u8
  shows "(ucast b1 :: 32 word) OR push_bit 8 (ucast b2) OR push_bit 16 (ucast b3) < 2 ^ 24"
proof -
  define x where "x = (ucast b1 :: 32 word) OR push_bit 8 (ucast b2) OR push_bit 16 (ucast b3)"
  have "take_bit 24 x = x"
    unfolding x_def by (rule bit_word_eqI) (auto simp: bit_simps dest: bit_imp_le_length)
  then have "unat (take_bit 24 x) = unat x" by (rule arg_cong)
  then have "take_bit 24 (unat x) = unat x" by (simp only: unsigned_take_bit_eq)
  then have "unat x < 2 ^ 24" by (metis take_bit_nat_less_exp)
  then show ?thesis unfolding x_def [symmetric] by (simp add: word_less_nat_alt)
qed

lemma sint_push2:
  fixes w :: "32 word"
  assumes "w < 2 ^ 24"
  shows "sint (push_bit 2 w) = 4 * uint w"
proof -
  have n: "w = of_nat (unat w)" "unat w < 2 ^ 24" using assms by (simp_all add: word_less_nat_alt)
  then show ?thesis using sint32 [of "4 * unat w"] push2 [of "unat w"] by simp
qed

lemma unat_prime_of_byte: "unat (ucast (b :: u8) :: 32 word) = unat b"
  using unsigned_less [of b, where 'a = nat]
  by (simp add: unsigned_ucast_eq take_bit_nat_eq_self_iff)

lemma v0_readPacketLength_values:
  "v0_readPacketLength p =
    (if p = [] then kUnknownSize
     else if sint (p ! 0) = 0x7F then
       if length p < 4 then kUnknownSize
       else
         let ints = (ucast (p ! 1) :: 32 word) OR push_bit 8 (ucast (p ! 2))
               OR push_bit 16 (ucast (p ! 3))
         in if 0x7F \<le> ints then 4 * uint ints + 4 else kInvalidSize
     else if sint (p ! 0) > 0 \<and> sint (p ! 0) < 0x7F then 4 * uint (p ! 0) + 1
     else kInvalidSize)"
proof -
  have "(ucast (p ! 0) :: 32 word) < 2 ^ 24"
    using unsigned_less [of "p ! 0", where 'a = nat]
    by (simp add: word_less_nat_alt unat_prime_of_byte)
  then have "sint (push_bit 2 (ucast (p ! 0) :: 32 word)) = 4 * uint (p ! 0)"
    using unat_prime_of_byte [of "p ! 0"] by (metis sint_push2 uint_nat)
  with sint_push2 [OF three_bytes_less, of "p ! 1" "p ! 2" "p ! 3"] show ?thesis
    by (simp add: v0_readPacketLength_def Let_def)
qed

lemma uint_sum_nonzero: "0 < a \<Longrightarrow> a + 4 * uint w \<noteq> 0" for a :: int
  using uint_ge_0 [of w] by linarith

lemma uint_pos: "w \<noteq> 0 \<Longrightarrow> 1 \<le> uint w" for w :: u8
proof -
  assume "w \<noteq> 0"
  then have "uint w \<noteq> 0" by (simp add: word_uint_eq_iff)
  then show ?thesis using uint_ge_0 [of w] by linarith
qed

lemma v0_readPacketLength_min:
  assumes "v0_readPacketLength p > 0"
  shows "v0_readPacketLength p \<ge> (if sint (p ! 0) = 0x7F then 8 else 5)"
  using assms uint_pos [of "p ! 0"]
  by (cases "p ! 0 = 0") (auto simp: v0_readPacketLength_values Let_def kUnknownSize_def
      kInvalidSize_def word_le_def split: if_splits)

interpretation v0_reader: length_reader v0_readPacketLength
proof
  show "v0_readPacketLength (p @ q) = v0_readPacketLength p"
    if "v0_readPacketLength p \<noteq> kUnknownSize" for p q
    using that by (auto simp: v0_readPacketLength_def Let_def nth_append split: if_splits)
  show "v0_readPacketLength (take m p) = v0_readPacketLength p" if "4 \<le> m" for m p
    using that by (auto simp: v0_readPacketLength_def Let_def)
  show "length p < 4" if "v0_readPacketLength p = kUnknownSize" for p
    using that by (auto simp: v0_readPacketLength_values Let_def kUnknownSize_def kInvalidSize_def
        uint_sum_nonzero split: if_splits)
  show "v0_readPacketLength p \<ge> 5" if "v0_readPacketLength p > 0" for p
    using v0_readPacketLength_min [OF that] by (simp split: if_splits)
qed

lemma sint_vD_size:
  fixes w :: "32 word"
  assumes "8 \<le> w" "w < of_nat kPacketSizeMax"
  shows "8 \<le> sint w"
proof -
  have "unat w < 2 ^ 31" "8 \<le> unat w"
    using assms by (simp_all add: word_less_nat_alt word_le_nat_alt kPacketSizeMax_def)
  moreover from this(1) have "sint w = int (unat w)" using sint32 [of "unat w"] by simp
  ultimately show ?thesis by linarith
qed

interpretation vD_reader: length_reader vD_readPacketLength
proof
  show "vD_readPacketLength (p @ q) = vD_readPacketLength p"
    if "vD_readPacketLength p \<noteq> kUnknownSize" for p q
    using that by (auto simp: vD_readPacketLength_def Let_def nth_append split: if_splits)
  show "vD_readPacketLength (take m p) = vD_readPacketLength p" if "4 \<le> m" for m p
    using that by (auto simp: vD_readPacketLength_def Let_def)
  show "length p < 4" if "vD_readPacketLength p = kUnknownSize" for p
    using that sint_vD_size [of "prime_of_bytes (p ! 0) (p ! 1) (p ! 2) (p ! 3) + 4"]
    by (auto simp: vD_readPacketLength_def Let_def kUnknownSize_def kInvalidSize_def split: if_splits)
  show "vD_readPacketLength p \<ge> 5" if "vD_readPacketLength p > 0" for p
    using that sint_vD_size [of "prime_of_bytes (p ! 0) (p ! 1) (p ! 2) (p ! 3) + 4"]
    by (auto simp: vD_readPacketLength_def Let_def kUnknownSize_def kInvalidSize_def split: if_splits)
qed

interpretation reader: length_reader "readPacketLength protocol" for protocol
proof -
  have "readPacketLength protocol = v0_readPacketLength \<or>
      readPacketLength protocol = vD_readPacketLength"
    by (cases protocol) auto
  then show "length_reader (readPacketLength protocol)"
    using v0_reader.length_reader_axioms vD_reader.length_reader_axioms by auto
qed

text \<open>Hence parsing a whole packet never fails: its payload holds an int.\<close>

lemma ints_of_bytes_not_Nil: "4 \<le> length bytes \<Longrightarrow> ints_of_bytes bytes \<noteq> []"
  by (cases bytes rule: ints_of_bytes.cases) auto

lemma readPacket_whole:
  assumes "readPacketLength protocol p = int n" "0 < n" "n = length p"
  shows "\<exists>packet. readPacket protocol p = Some packet \<and> 4 \<le> length packet"
proof (cases protocol)
  case (VersionD secret)
  then have "n \<ge> 8"
    using assms sint_vD_size [of "prime_of_bytes (p ! 0) (p ! 1) (p ! 2) (p ! 3) + 4"]
    by (auto simp: vD_readPacketLength_def kUnknownSize_def kInvalidSize_def Let_def
        split: if_splits)
  then show ?thesis using assms VersionD
    by (auto simp: vD_readPacket_def Let_def kUnknownSize_def kInvalidSize_def subspan_def)
next
  case Version0
  with assms v0_readPacketLength_min [of p] show ?thesis
    by (auto simp: v0_readPacket_def Let_def kUnknownSize_def kInvalidSize_def subspan_def
        split: if_splits)
next
  case (Version1 secret)
  with assms v0_readPacketLength_min [of p] show ?thesis
    by (auto simp: v0_readPacket_def Let_def kUnknownSize_def kInvalidSize_def subspan_def
        split: if_splits)
qed

lemma socketPacket_total:
  assumes "readPacketLength (ev_protocol env) p = int (length p)" "p \<noteq> []"
  shows "socketPacket env p c \<noteq> None"
proof -
  from assms obtain packet where "readPacket (ev_protocol env) p = Some packet" "4 \<le> length packet"
    using readPacket_whole by blast
  then show ?thesis using ints_of_bytes_not_Nil [of packet]
    by (auto simp: socketPacket_def parsePacket_def Let_def)
qed

section \<open>The stream the loop stands for\<close>

text \<open>
  The specification forgets the buffers: \<open>drain\<close> works on the bytes received and not yet
  consumed. \<open>core\<close> is the connection without its buffers and \<open>pending\<close> the bytes they hold.
\<close>

definition core :: "'s tcp_conn \<Rightarrow> 's tcp_conn" where
  "core c = c\<lparr>tc_offsetBytes := 0, tc_readBytes := 0, tc_leftBytes := 0, tc_smallBuffer := [],
    tc_largeBuffer := [], tc_usingLargeBuffer := False\<rparr>"

definition pending :: "'s tcp_conn \<Rightarrow> u8 list" where
  "pending c = subspan (tc_offsetBytes c) (tc_readBytes c) (current_buffer c)"

function drain ::
  "'s tcp_env \<Rightarrow> u8 list \<Rightarrow> 's tcp_conn \<Rightarrow> (flow \<times> u8 list \<times> 's tcp_conn) option" where
  "drain env p c =
    (if p = [] then Some (Go, p, c)
     else
       let packetSize = readPacketLength (ev_protocol env) p
       in if packetSize = kUnknownSize then Some (Go, p, c)
          else if packetSize \<le> 0 then Some (Return, p, emit (Error kErrorCodeOther) c)
          else if int (length p) \<ge> packetSize then
            (case socketPacket env (take (nat packetSize) p) c of
               None \<Rightarrow> None
             | Some c \<Rightarrow>
                 if \<not> ev_alive env (tc_events c) then Some (Return, p, c)
                 else drain env (drop (nat packetSize) p) c)
          else Some (Go, p, emit ReceivedSome c))"
  by pat_completeness auto
termination by (relation "measure (\<lambda>(env, p, c). length p)") auto

declare drain.simps [simp del]

text \<open>What holds between two reads.\<close>

definition tcp_inv :: "'s tcp_env \<Rightarrow> 's tcp_conn \<Rightarrow> bool" where
  "tcp_inv env c \<longleftrightarrow>
    length (tc_smallBuffer c) = kSmallBufferSize \<and>
    tc_offsetBytes c + tc_readBytes c + tc_leftBytes c \<le> length (current_buffer c) \<and>
    (\<not> tc_usingLargeBuffer c \<longrightarrow> tc_largeBuffer c = []) \<and>
    (if tc_leftBytes c = 0
     then \<not> tc_usingLargeBuffer c \<and> tc_offsetBytes c + kMinPacketBuffer \<le> kSmallBufferSize \<and>
       (pending c = [] \<or> readPacketLength (ev_protocol env) (pending c) = kUnknownSize)
     else pending c \<noteq> [] \<and>
       readPacketLength (ev_protocol env) (pending c) = int (tc_readBytes c + tc_leftBytes c))"

lemma core_simps [simp]:
  "core (emit e c) = emit e (core c)"
  "core (c\<lparr>tc_offsetBytes := n\<rparr>) = core c" "core (c\<lparr>tc_readBytes := n\<rparr>) = core c"
  "core (c\<lparr>tc_leftBytes := n\<rparr>) = core c" "core (c\<lparr>tc_smallBuffer := b\<rparr>) = core c"
  "core (c\<lparr>tc_largeBuffer := b\<rparr>) = core c" "core (c\<lparr>tc_usingLargeBuffer := u\<rparr>) = core c"
  "core (core c) = core c"
  "tc_events (core c) = tc_events c" "tc_status (core c) = tc_status c"
  "tc_receivedQueue (core c) = tc_receivedQueue c" "tc_receiveState (core c) = tc_receiveState c"
  by (simp_all add: core_def emit_def)

lemma socketPacket_core: "socketPacket env p (core c) = map_option core (socketPacket env p c)"
  by (auto simp: socketPacket_def core_def emit_def split: option.splits)

lemma length_write_at [simp]:
  "pos + length bytes \<le> length buffer \<Longrightarrow> length (write_at pos bytes buffer) = length buffer"
  by (simp add: write_at_def)

lemma subspan_write_at:
  assumes "pos + n + length bytes \<le> length buffer"
  shows "subspan pos (n + length bytes) (write_at (pos + n) bytes buffer) = subspan pos n buffer @ bytes"
  using assms by (cases bytes) (auto simp: subspan_def write_at_def drop_take min_def)

lemma subspan_write_front:
  "length bytes \<le> pos \<Longrightarrow> pos \<le> length buffer \<Longrightarrow>
    subspan pos n (write_at 0 bytes buffer) = subspan pos n buffer"
  by (simp add: subspan_def write_at_def)

lemma subspan_front: "subspan 0 (length bytes) (write_at 0 bytes buffer) = bytes"
  by (simp add: subspan_def write_at_def)

lemma subspan_after:
  "m \<le> n \<Longrightarrow> subspan (pos + m) (n - m) buffer = drop m (subspan pos n buffer)"
  by (simp add: subspan_def drop_take add.commute)

text \<open>
  The state of the inner loop: its span and \<open>[_offsetBytes, _offsetBytes + _readBytes)\<close> hold the
  same bytes. They are the same place until \<open>ensureAvailableInBuffer\<close> moves the bytes to the
  front; from then on less than 256 bytes are left and no second move happens.
\<close>

definition loop_inv :: "nat \<Rightarrow> 's tcp_conn \<Rightarrow> bool" where
  "loop_inv pos c \<longleftrightarrow>
    length (tc_smallBuffer c) = kSmallBufferSize \<and> tc_leftBytes c = 0 \<and>
    \<not> tc_usingLargeBuffer c \<and> tc_largeBuffer c = [] \<and>
    tc_offsetBytes c + tc_readBytes c \<le> kSmallBufferSize \<and> pos + tc_readBytes c \<le> kSmallBufferSize \<and>
    tc_offsetBytes c + kMinPacketBuffer \<le> kSmallBufferSize \<and>
    (pos = tc_offsetBytes c \<or> tc_offsetBytes c + tc_readBytes c < kMinPacketBuffer) \<and>
    available_bytes pos c = pending c"

lemma ensureAvailable_min:
  assumes "length (tc_smallBuffer c) = kSmallBufferSize" "\<not> tc_usingLargeBuffer c"
    "tc_leftBytes c = 0" "tc_largeBuffer c = []"
    "tc_offsetBytes c + tc_readBytes c \<le> kSmallBufferSize" "pos + tc_readBytes c \<le> kSmallBufferSize"
    "pos = tc_offsetBytes c \<or> tc_offsetBytes c + tc_readBytes c < kMinPacketBuffer"
    "available_bytes pos c = pending c"
  shows "\<exists>c'. ensureAvailableInBuffer kMinPacketBuffer c = Some c' \<and> loop_inv pos c' \<and>
    pending c' = pending c \<and> core c' = core c"
proof (cases "tc_offsetBytes c + kMinPacketBuffer \<le> kSmallBufferSize")
  case True
  then have "kMinPacketBuffer \<le> kSmallBufferSize - tc_offsetBytes c" by linarith
  then have "ensureAvailableInBuffer kMinPacketBuffer c = Some c"
    using assms(1,2) by (simp add: ensureAvailableInBuffer_def current_buffer_def Let_def)
  with True assms show ?thesis by (simp add: loop_inv_def)
next
  case False
  have small: "kMinPacketBuffer = 256" "kSmallBufferSize = 262144"
    by (simp_all add: kMinPacketBuffer_def kSmallBufferSize_def)
  have pos: "pos = tc_offsetBytes c" and r: "tc_readBytes c \<le> 256" "tc_readBytes c \<le> pos"
    using assms(5,7) False small by auto
  define read where "read = subspan pos (tc_readBytes c) (tc_smallBuffer c)"
  have len: "length read = tc_readBytes c"
    using assms(1,6) by (simp add: read_def subspan_def)
  have pend: "pending c = read" using assms(2) by (simp add: pending_def read_def pos current_buffer_def)
  define c' where "c' = c\<lparr>tc_smallBuffer := write_at 0 read (tc_smallBuffer c), tc_offsetBytes := 0\<rparr>"
  have "ensureAvailableInBuffer kMinPacketBuffer c = Some c'"
    using assms(1,2) False small r len
    by (simp add: ensureAvailableInBuffer_def current_buffer_def Let_def copy_bytes_def c'_def
        read_def subspan_def pos)
  moreover have "pending c' = read"
    using assms(2) subspan_front [of read] by (simp add: pending_def c'_def current_buffer_def len)
  moreover have "available_bytes pos c' = read"
    using assms(1,6) r len subspan_write_front [of read pos "tc_smallBuffer c"]
    by (simp add: available_bytes_def c'_def read_def)
  ultimately show ?thesis
    using assms(1-4,6) r False small len pos assms(5)
    by (auto simp: loop_inv_def c'_def pend)
qed

text \<open>The other call: room for the whole of a packet that has only begun.\<close>

lemma ensureAvailable_packet:
  assumes "loop_inv pos c" "0 < tc_readBytes c" "tc_readBytes c < n"
    "readPacketLength (ev_protocol env) (pending c) = int n"
  shows "\<exists>c'. ensureAvailableInBuffer n (c\<lparr>tc_leftBytes := n - tc_readBytes c\<rparr>) = Some c' \<and>
    tcp_inv env (emit ReceivedSome c') \<and> pending (emit ReceivedSome c') = pending c \<and> core c' = core c"
proof -
  let ?c = "c\<lparr>tc_leftBytes := n - tc_readBytes c\<rparr>"
  have inv: "length (tc_smallBuffer c) = kSmallBufferSize" "\<not> tc_usingLargeBuffer c"
    "tc_largeBuffer c = []" "tc_offsetBytes c + tc_readBytes c \<le> kSmallBufferSize"
    using assms(1) by (simp_all add: loop_inv_def)
  define read where "read = subspan (tc_offsetBytes c) (tc_readBytes c) (tc_smallBuffer c)"
  have len: "length read = tc_readBytes c" using inv(1,4) by (simp add: read_def subspan_def)
  have pend: "pending c = read" using inv(2) by (simp add: pending_def read_def current_buffer_def)
  have read: "read \<noteq> []" using len assms(2) by auto
  have take_read: "take (tc_readBytes c) (drop (tc_offsetBytes c) (tc_smallBuffer c)) = read"
    by (simp add: read_def subspan_def)
  consider "n \<le> kSmallBufferSize - tc_offsetBytes c"
    | "\<not> n \<le> kSmallBufferSize - tc_offsetBytes c" "n \<le> kSmallBufferSize"
    | "\<not> n \<le> kSmallBufferSize - tc_offsetBytes c" "\<not> n \<le> kSmallBufferSize"
    by blast
  then show ?thesis
  proof cases
    case 1
    then have "ensureAvailableInBuffer n ?c = Some ?c"
      using inv by (simp add: ensureAvailableInBuffer_def current_buffer_def Let_def)
    with 1 assms inv read pend show ?thesis
      by (simp add: tcp_inv_def current_buffer_def pending_def)
  next
    case 2
    let ?d = "?c\<lparr>tc_smallBuffer := write_at 0 read (tc_smallBuffer c), tc_offsetBytes := 0\<rparr>"
    have "ensureAvailableInBuffer n ?c = Some ?d"
      using 2 inv len take_read assms(3)
      by (simp add: ensureAvailableInBuffer_def current_buffer_def Let_def copy_bytes_def)
    moreover have "pending (emit ReceivedSome ?d) = read"
      using inv(2) subspan_front [of read] by (simp add: pending_def current_buffer_def len)
    ultimately show ?thesis
      using 2 inv read len assms(3,4) by (simp add: tcp_inv_def current_buffer_def pend)
  next
    case 3
    let ?d = "?c\<lparr>tc_largeBuffer := write_at 0 read (replicate n 0), tc_usingLargeBuffer := True,
      tc_offsetBytes := 0\<rparr>"
    have "ensureAvailableInBuffer n ?c = Some ?d"
      using 3 inv len take_read assms(3)
      by (simp add: ensureAvailableInBuffer_def current_buffer_def Let_def copy_bytes_def)
    moreover have "pending (emit ReceivedSome ?d) = read"
      using subspan_front [of read] by (simp add: pending_def current_buffer_def len)
    ultimately show ?thesis
      using 3 inv read len assms(3,4) by (simp add: tcp_inv_def current_buffer_def pend)
  qed
qed

lemma packets_loop_drain:
  assumes "loop_inv pos c"
  shows "\<exists>f c' p. packets_loop env pos c = Some (f, c') \<and>
    drain env (pending c) (core c) = Some (f, p, core c') \<and>
    (f = Go \<longrightarrow> tcp_inv env c' \<and> pending c' = p)"
  using assms
proof (induction env pos c rule: packets_loop.induct)
  case (1 env pos c)
  let ?a = "pending c" and ?n = "readPacketLength (ev_protocol env) (pending c)"
  have inv: "length (tc_smallBuffer c) = kSmallBufferSize" "\<not> tc_usingLargeBuffer c"
    "tc_leftBytes c = 0" "tc_largeBuffer c = []"
    "tc_offsetBytes c + tc_readBytes c \<le> kSmallBufferSize" "pos + tc_readBytes c \<le> kSmallBufferSize"
    "pos = tc_offsetBytes c \<or> tc_offsetBytes c + tc_readBytes c < kMinPacketBuffer"
    "tc_offsetBytes c + kMinPacketBuffer \<le> kSmallBufferSize"
    and avail: "available_bytes pos c = pending c"
    using "1.prems" by (simp_all add: loop_inv_def)
  have len: "length ?a = tc_readBytes c"
    using inv(1,2,5) by (simp add: pending_def subspan_def current_buffer_def)
  consider (empty) "tc_readBytes c = 0" | (unknown) "0 < tc_readBytes c" "?n = kUnknownSize"
    | (bad) "0 < tc_readBytes c" "?n \<noteq> kUnknownSize" "?n \<le> 0"
    | (whole) "0 < tc_readBytes c" "?n > 0" "?n \<le> int (tc_readBytes c)"
    | (part) "0 < tc_readBytes c" "?n > int (tc_readBytes c)"
    by (metis not_gr_zero not_le)
  then show ?case
  proof cases
    case empty
    then have "?a = []" using len by simp
    with empty inv show ?thesis
      by (simp add: packets_loop.simps [of env pos c] drain.simps [of env "[]"] tcp_inv_def current_buffer_def)
  next
    case unknown
    then have "?a \<noteq> []" using len by auto
    with unknown inv avail show ?thesis
      by (simp add: packets_loop.simps [of env pos c] packets_step_def drain.simps [of env ?a]
          tcp_inv_def current_buffer_def)
  next
    case bad
    then have "?a \<noteq> []" using len by auto
    with bad avail show ?thesis
      by (simp add: packets_loop.simps [of env pos c] packets_step_def drain.simps [of env ?a] Let_def)
  next
    case part
    then have a: "?a \<noteq> []" using len by auto
    define m where "m = nat ?n"
    have m: "?n = int m" "tc_readBytes c < m" using part by (auto simp: m_def)
    from ensureAvailable_packet [OF "1.prems" part(1) m(2,1)] obtain c' where
      c': "ensureAvailableInBuffer m (c\<lparr>tc_leftBytes := m - tc_readBytes c\<rparr>) = Some c'"
      "tcp_inv env (emit ReceivedSome c')" "pending (emit ReceivedSome c') = ?a" "core c' = core c"
      by blast
    have "packets_loop env pos c = Some (Go, emit ReceivedSome c')"
      using part(1) m avail len c'(1)
      by (simp add: packets_loop.simps [of env pos c] packets_step_def Let_def kUnknownSize_def)
    moreover have "drain env ?a (core c) = Some (Go, ?a, emit ReceivedSome (core c))"
      using m a len by (simp add: drain.simps [of env ?a] Let_def kUnknownSize_def)
    ultimately show ?thesis using c'(2-4) by simp
  next
    case whole
    then have a: "?a \<noteq> []" using len by auto
    define m where "m = nat ?n"
    have m: "?n = int m" "0 < m" "m \<le> tc_readBytes c" using whole by (auto simp: m_def)
    let ?q = "take m ?a"
    have "readPacketLength (ev_protocol env) ?q = int (length ?q)" "?q \<noteq> []"
      using reader.rl_whole [OF m(1,2)] m(2,3) len a by (auto simp: min_def)
    then obtain d where d: "socketPacket env ?q c = Some d"
      using socketPacket_total by blast
    note d_sel = socketPacket_sel [OF d]
    have d_core: "socketPacket env ?q (core c) = Some (core d)" by (simp add: socketPacket_core d)
    show ?thesis
    proof (cases "ev_alive env (tc_events d)")
      case False
      then show ?thesis
        using whole m a len avail d d_core
        by (simp add: packets_loop.simps [of env pos c] packets_step_def drain.simps [of env ?a]
            Let_def kUnknownSize_def)
    next
      case True
      let ?e = "d\<lparr>tc_offsetBytes := tc_offsetBytes d + m, tc_readBytes := tc_readBytes d - m\<rparr>"
      have e_pend: "pending ?e = drop m ?a"
        using d_sel m(3) subspan_after [of m "tc_readBytes c" "tc_offsetBytes c" "tc_smallBuffer c"] inv(2)
        by (simp add: pending_def current_buffer_def)
      moreover have "available_bytes (pos + m) ?e = drop m (available_bytes pos c)"
        using d_sel m(3) subspan_after [of m "tc_readBytes c" pos "tc_smallBuffer c"]
        by (simp add: available_bytes_def)
      ultimately have "available_bytes (pos + m) ?e = pending ?e" using avail by simp
      then obtain c' where c': "ensureAvailableInBuffer kMinPacketBuffer ?e = Some c'"
        "loop_inv (pos + m) c'" "pending c' = pending ?e" "core c' = core ?e"
        using ensureAvailable_min [of ?e "pos + m"] inv d_sel m(3) by auto
      have step: "packets_step env pos c = Some (Go, Some (pos + m), c')"
        using whole m a len avail d True c'(1)
        by (simp add: packets_step_def Let_def kUnknownSize_def)
      have "\<not> \<not> 0 < tc_readBytes c" using whole(1) by simp
      from "1.IH" [OF this step refl refl refl refl c'(2)]
      show ?thesis
        using whole m a len d_core True c'(3,4) e_pend step
        by (simp add: packets_loop.simps [of env pos c] drain.simps [of env ?a] Let_def kUnknownSize_def)
    qed
  qed
qed

text \<open>One read of the socket.\<close>

lemma pending_write:
  assumes "tcp_inv env c" "length plain \<le> readLimit c"
    "d = c\<lparr>tc_receiveState := s,
      tc_largeBuffer := (if tc_usingLargeBuffer c
        then write_at (tc_offsetBytes c + tc_readBytes c) plain (tc_largeBuffer c) else tc_largeBuffer c),
      tc_smallBuffer := (if tc_usingLargeBuffer c then tc_smallBuffer c
        else write_at (tc_offsetBytes c + tc_readBytes c) plain (tc_smallBuffer c)),
      tc_readBytes := tc_readBytes c + length plain\<rparr>"
  shows "pending d = pending c @ plain \<and> length (current_buffer d) = length (current_buffer c) \<and>
    length (tc_smallBuffer d) = length (tc_smallBuffer c) \<and>
    tc_offsetBytes c + tc_readBytes c + length plain \<le> length (current_buffer c)"
proof -
  have room: "tc_offsetBytes c + tc_readBytes c + length plain \<le> length (current_buffer c)"
    using assms(1,2) by (auto simp: tcp_inv_def readLimit_def current_buffer_def split: if_splits)
  then show ?thesis
    using subspan_write_at [of "tc_offsetBytes c" "tc_readBytes c" plain "current_buffer c"]
    by (auto simp: assms(3) pending_def current_buffer_def)
qed

lemma length_pending: "tcp_inv env c \<Longrightarrow> length (pending c) = tc_readBytes c"
  by (auto simp: tcp_inv_def pending_def subspan_def)

lemma drain_whole:
  assumes "readPacketLength (ev_protocol env) q = int (length q)" "q \<noteq> []"
    "socketPacket env q c = Some x"
  shows "drain env q c =
    (if ev_alive env (tc_events x) then Some (Go, [], x) else Some (Return, q, x))"
  using assms
  by (simp add: drain.simps [of env q] drain.simps [of env "[]"] Let_def kUnknownSize_def)

lemma drain_part:
  assumes "readPacketLength (ev_protocol env) q = int n" "q \<noteq> []" "length q < n"
  shows "drain env q c = Some (Go, q, emit ReceivedSome c)"
  using assms by (simp add: drain.simps [of env q] Let_def kUnknownSize_def)

lemma socketRead_bytes_refines:
  assumes inv: "tcp_inv env c" and bytes: "length bytes \<le> readLimit c"
    and crypt: "ev_aesCtr env bytes (tc_receiveState c) = (plain, s)" "length plain = length bytes"
  shows "\<exists>f c' p. socketRead_bytes env bytes c = Some (f, c') \<and>
    drain env (pending c @ plain) (core (c\<lparr>tc_receiveState := s\<rparr>)) = Some (f, p, core c') \<and>
    (f = Go \<longrightarrow> tcp_inv env c' \<and> pending c' = p)"
proof -
  let ?q = "pending c @ plain"
  define d where "d = c\<lparr>tc_receiveState := s,
      tc_largeBuffer := (if tc_usingLargeBuffer c
        then write_at (tc_offsetBytes c + tc_readBytes c) plain (tc_largeBuffer c) else tc_largeBuffer c),
      tc_smallBuffer := (if tc_usingLargeBuffer c then tc_smallBuffer c
        else write_at (tc_offsetBytes c + tc_readBytes c) plain (tc_smallBuffer c)),
      tc_readBytes := tc_readBytes c + length plain\<rparr>"
  have len: "length plain \<le> readLimit c" using bytes crypt(2) by simp
  have d: "pending d = ?q" "length (current_buffer d) = length (current_buffer c)"
    "length (tc_smallBuffer d) = length (tc_smallBuffer c)"
    and room: "tc_offsetBytes c + tc_readBytes c + length plain \<le> length (current_buffer c)"
    using pending_write [OF inv len d_def] by simp_all
  have core_d: "core d = core (c\<lparr>tc_receiveState := s\<rparr>)" by (simp add: d_def core_def)
  show ?thesis
  proof (cases "tc_leftBytes c = 0")
    case True
    have "loop_inv (tc_offsetBytes d) d"
      using inv True d room by (auto simp: loop_inv_def tcp_inv_def d_def available_bytes_def
          pending_def current_buffer_def split: if_splits)
    moreover have "d = c\<lparr>tc_receiveState := s,
        tc_smallBuffer := write_at (tc_offsetBytes c + tc_readBytes c) plain (tc_smallBuffer c),
        tc_readBytes := tc_readBytes c + length plain\<rparr>"
      by (rule tcp_conn.equality) (use True inv in \<open>auto simp: d_def tcp_inv_def\<close>)
    then have "socketRead_bytes env bytes c = packets_loop env (tc_offsetBytes d) d"
      using True crypt inv
      by (simp add: socketRead_bytes_def Let_def tcp_inv_def current_buffer_def)
    ultimately show ?thesis
      using packets_loop_drain [of "tc_offsetBytes d" d env] d(1) core_d by simp
  next
    case False
    have q: "?q \<noteq> []" "length ?q = tc_readBytes c + length plain"
      and rl: "readPacketLength (ev_protocol env) ?q = int (tc_readBytes c + tc_leftBytes c)"
      using inv False reader.rl_append [of "ev_protocol env" "pending c" plain] length_pending [OF inv]
      by (auto simp: tcp_inv_def kUnknownSize_def)
    have limit: "length plain \<le> tc_leftBytes c" using len False by (simp add: readLimit_def)
    let ?e = "d\<lparr>tc_leftBytes := tc_leftBytes c - length plain\<rparr>"
    have span: "subspan (tc_offsetBytes c) (tc_readBytes c + length plain)
        (write_at (tc_offsetBytes c + tc_readBytes c) plain (current_buffer c)) = ?q"
      using room subspan_write_at [of "tc_offsetBytes c" "tc_readBytes c" plain "current_buffer c"]
      by (simp add: pending_def)
    have unfold: "socketRead_bytes env bytes c =
      (if tc_leftBytes ?e = 0 then
         (case socketPacket env ?q ?e of
            None \<Rightarrow> None
          | Some c \<Rightarrow>
              if \<not> ev_alive env (tc_events c) then Some (Return, c)
              else Some (Go, c\<lparr>tc_usingLargeBuffer := False, tc_largeBuffer := [],
                               tc_offsetBytes := 0, tc_readBytes := 0\<rparr>))
       else Some (Go, emit ReceivedSome ?e))"
      using False limit crypt span
      by (cases "tc_usingLargeBuffer c")
        (auto simp: socketRead_bytes_def Let_def d_def current_buffer_def)
    show ?thesis
    proof (cases "tc_leftBytes c = length plain")
      case True
      have whole: "readPacketLength (ev_protocol env) ?q = int (length ?q)" using rl q True by simp
      then obtain x where x: "socketPacket env ?q ?e = Some x"
        using socketPacket_total [of env ?q ?e] q(1) by blast
      note x_sel = socketPacket_sel [OF x]
      have x_core: "socketPacket env ?q (core d) = Some (core x)"
        using socketPacket_core [of env ?q ?e] x by simp
      have small: "length (tc_smallBuffer x) = kSmallBufferSize"
        using x_sel d(3) inv by (simp add: tcp_inv_def)
      have e0: "tc_leftBytes ?e = 0" using True by simp
      show ?thesis
      proof (cases "ev_alive env (tc_events x)")
        case alive: False
        have "drain env ?q (core d) = Some (Return, ?q, core x)"
          using drain_whole [OF whole q(1) x_core] alive by simp
        moreover have "socketRead_bytes env bytes c = Some (Return, x)"
          unfolding unfold using e0 x alive by simp
        ultimately show ?thesis using core_d by simp
      next
        case alive: True
        let ?y = "x\<lparr>tc_usingLargeBuffer := False, tc_largeBuffer := [], tc_offsetBytes := 0,
          tc_readBytes := 0\<rparr>"
        have "drain env ?q (core d) = Some (Go, [], core x)"
          using drain_whole [OF whole q(1) x_core] alive by simp
        moreover have "socketRead_bytes env bytes c = Some (Go, ?y)"
          unfolding unfold using e0 x alive by simp
        moreover have y: "pending ?y = []" by (simp add: pending_def subspan_def)
        moreover have "tcp_inv env ?y"
          using y small x_sel True
          by (simp add: tcp_inv_def current_buffer_def kMinPacketBuffer_def kSmallBufferSize_def)
        ultimately show ?thesis using core_d by simp
      qed
    next
      case False
      have "drain env ?q (core d) = Some (Go, ?q, emit ReceivedSome (core d))"
        using q limit False by (intro drain_part [OF rl]) auto
      moreover have "pending (emit ReceivedSome ?e) = ?q"
        unfolding d(1) [symmetric] by (simp add: pending_def current_buffer_def)
      moreover have "tcp_inv env (emit ReceivedSome ?e)"
        using calculation(2) inv limit False d room rl q
        by (auto simp: tcp_inv_def d_def current_buffer_def)
      ultimately show ?thesis using unfold limit False core_d by auto
    qed
  qed
qed

section \<open>A stream of packets, however it is cut\<close>

definition handle_packets :: "'s tcp_env \<Rightarrow> u8 list list \<Rightarrow> 's tcp_conn \<Rightarrow> 's tcp_conn" where
  "handle_packets env ps c = fold (\<lambda>p c. the (socketPacket env p c)) ps c"

text \<open>
  The view forgets the buffers, the state of the cipher and the \<open>receivedSome\<close> signals, which
  depend on how the stream is cut.
\<close>

definition tcp_view :: "'s \<Rightarrow> 's tcp_conn \<Rightarrow> 's tcp_conn" where
  "tcp_view s c = (core c)\<lparr>tc_receiveState := s, tc_events := filter (\<lambda>e. e \<noteq> ReceivedSome) (tc_events c)\<rparr>"

lemma tcp_view_simps [simp]:
  "tcp_view s (core c) = tcp_view s c"
  "tcp_view s (emit ReceivedSome c) = tcp_view s c"
  "tcp_view s (c\<lparr>tc_receiveState := t\<rparr>) = tcp_view s c"
  "tc_status (tcp_view s c) = tc_status c" "tc_receivedQueue (tcp_view s c) = tc_receivedQueue c"
  "tc_pingTime (tcp_view s c) = tc_pingTime c"
  by (simp_all add: tcp_view_def core_def emit_def)

lemma socketPacket_view:
  "socketPacket env p (tcp_view s c) = map_option (tcp_view s) (socketPacket env p c)"
  by (auto simp: socketPacket_def tcp_view_def core_def emit_def split: option.splits)

lemma drain_packets:
  assumes "\<forall>p \<in> set ps. is_packet (ev_protocol env) p" "\<forall>es. ev_alive env es"
    "q @ rest = concat ps"
  shows "\<exists>ps1 ps2 q' c'. drain env q c = Some (Go, q', c') \<and> ps = ps1 @ ps2 \<and>
    q' @ rest = concat ps2 \<and> (rest = [] \<longrightarrow> ps2 = []) \<and>
    tcp_view s c' = handle_packets env ps1 (tcp_view s c)"
  using assms
proof (induction ps arbitrary: q c)
  case Nil
  then show ?case by (auto simp: drain.simps [of env "[]"] handle_packets_def)
next
  case (Cons p ps)
  have packet: "is_packet (ev_protocol env) p" and p: "p \<noteq> []" "0 < length p"
    using Cons.prems(1) wire.packet_not_Nil by fastforce+
  consider (empty) "q = []" | (part) "q \<noteq> []" "length q < length p" | (whole) "length p \<le> length q"
    by linarith
  then show ?case
  proof cases
    case empty
    then show ?thesis using Cons.prems(3) p
      by - (rule exI [of _ "[]"], rule exI [of _ "p # ps"], auto simp: drain.simps [of env "[]"] handle_packets_def)
  next
    case part
    define b where "b = drop (length q) p"
    have "q @ rest = p @ concat ps" using Cons.prems(3) by simp
    then have split: "q = take (length q) p" "rest = b @ concat ps"
      using part(2) by (simp_all add: b_def append_eq_append_conv_if)
    have pq: "p = q @ b" unfolding b_def using split(1) by (metis append_take_drop_id)
    have "b \<noteq> []" using part(2) by (simp add: b_def)
    then have rest: "rest \<noteq> []" using split(2) by simp
    from wire.read_part [OF packet pq part(1)]
    have "drain env q c = Some (Go, q, c) \<or> drain env q c = Some (Go, q, emit ReceivedSome c)"
      using part(1) drain_part [of env q "length p" c, OF _ part(1,2)]
      by (auto simp: drain.simps [of env q] kUnknownSize_def)
    then show ?thesis using Cons.prems(3) rest
      by - (rule exI [of _ "[]"], rule exI [of _ "p # ps"], auto simp: handle_packets_def)
  next
    case whole
    define q1 where "q1 = drop (length p) q"
    have "q @ rest = p @ concat ps" using Cons.prems(3) by simp
    then have "take (length p) (q @ rest) = p" "drop (length p) (q @ rest) = concat ps"
      by simp_all
    with whole have t: "take (length p) q = p" and split2: "q1 @ rest = concat ps"
      by (simp_all add: q1_def)
    have split: "q = p @ q1" "q1 @ rest = concat ps"
      using append_take_drop_id [of "length p" q] split2 unfolding t q1_def by simp_all
    have rl: "readPacketLength (ev_protocol env) q = int (length p)"
      "readPacketLength (ev_protocol env) p = int (length p)"
      using wire.read_whole [OF packet, of q1] wire.read_whole [OF packet, of "[]"] split(1) by simp_all
    obtain d where d: "socketPacket env p c = Some d"
      using socketPacket_total [OF rl(2) p(1)] by blast
    have "drain env q c = drain env q1 d"
      using rl(1) p d Cons.prems(2) unfolding split(1)
      by (simp add: drain.simps [of env "p @ q1"] Let_def kUnknownSize_def)
    moreover obtain ps1 ps2 q' c' where "drain env q1 d = Some (Go, q', c')" "ps = ps1 @ ps2"
      "q' @ rest = concat ps2" "rest = [] \<longrightarrow> ps2 = []"
      "tcp_view s c' = handle_packets env ps1 (tcp_view s d)"
      using Cons.IH [OF _ Cons.prems(2) split(2), of d] Cons.prems(1) by auto
    moreover have "handle_packets env (p # ps1) (tcp_view s c) = handle_packets env ps1 (tcp_view s d)"
      by (simp add: handle_packets_def socketPacket_view d)
    ultimately show ?thesis by - (rule exI [of _ "p # ps1"], auto)
  qed
qed

text \<open>
  What is relied on of AES in counter mode: it keeps the length, and encrypting two pieces one
  after the other is encrypting them together.
\<close>

definition stream_cipher :: "(u8 list \<Rightarrow> 's \<Rightarrow> u8 list \<times> 's) \<Rightarrow> bool" where
  "stream_cipher crypt \<longleftrightarrow>
    (\<forall>s. crypt [] s = ([], s)) \<and>
    (\<forall>xs s. length (fst (crypt xs s)) = length xs) \<and>
    (\<forall>xs ys s. crypt (xs @ ys) s =
      (fst (crypt xs s) @ fst (crypt ys (snd (crypt xs s))), snd (crypt ys (snd (crypt xs s)))))"

lemma drain_receiveState:
  "drain env q c = Some (f, p, c') \<Longrightarrow> tc_receiveState c' = tc_receiveState c"
proof (induction env q c rule: drain.induct)
  case (1 env q c)
  let ?n = "readPacketLength (ev_protocol env) q"
  show ?case
  proof (cases "q \<noteq> [] \<and> ?n \<noteq> kUnknownSize \<and> \<not> ?n \<le> 0 \<and> int (length q) \<ge> ?n")
    case False
    with "1.prems" show ?thesis by (subst (asm) drain.simps) (auto simp: Let_def split: if_splits)
  next
    case True
    then obtain x where x: "socketPacket env (take (nat ?n) q) c = Some x"
      using "1.prems" by (subst (asm) drain.simps) (auto simp: Let_def split: option.splits)
    with True "1.prems" "1.IH" [OF _ refl _ _ _ x] socketPacket_sel [OF x] show ?thesis
      by (subst (asm) drain.simps) (auto simp: Let_def split: if_splits)
  qed
qed

lemma handle_packets_append:
  "handle_packets env (ps @ qs) c = handle_packets env qs (handle_packets env ps c)"
  by (simp add: handle_packets_def)

lemma socket_rest_Cons:
  assumes "bs \<noteq> []" "0 < limit" "\<forall>b \<in> set chunks. b \<noteq> []"
  shows "\<exists>rest. socket_rest limit bs (map Bytes chunks) = map Bytes rest \<and>
    (\<forall>b \<in> set rest. b \<noteq> []) \<and> take limit bs @ concat rest = bs @ concat chunks"
proof (cases "length bs \<le> limit")
  case True
  then show ?thesis using assms by (intro exI [of _ chunks]) (simp add: socket_rest_def)
next
  case False
  then show ?thesis using assms
    by (intro exI [of _ "drop limit bs # chunks"]) (simp add: socket_rest_def flip: append_assoc)
qed

lemma readLimit_room:
  assumes "tcp_inv env c"
  shows "0 < readLimit c \<and> tc_offsetBytes c + tc_readBytes c + readLimit c \<le> length (current_buffer c)"
proof (cases "tc_leftBytes c = 0")
  case True
  have "tc_readBytes c < 4"
    using assms True reader.rl_unknown [of "ev_protocol env" "pending c"] length_pending [OF assms]
    by (auto simp: tcp_inv_def)
  then show ?thesis using assms True
    by (simp add: tcp_inv_def readLimit_def current_buffer_def kMinPacketBuffer_def kSmallBufferSize_def)
next
  case False
  then show ?thesis using assms by (simp add: tcp_inv_def readLimit_def)
qed

lemma socketRead_loop_delivers:
  assumes "tcp_inv env c" "stream_cipher (ev_aesCtr env)" "\<forall>es. ev_alive env es"
    "\<forall>p \<in> set ps. is_packet (ev_protocol env) p"
    "items = map Bytes chunks" "chunks \<noteq> []" "\<forall>b \<in> set chunks. b \<noteq> []"
    "pending c @ fst (ev_aesCtr env (concat chunks) (tc_receiveState c)) = concat ps"
  shows "\<exists>c'. socketRead_loop env items c = Some ([], c') \<and> tcp_inv env c' \<and> pending c' = [] \<and>
    tc_receiveState c' = snd (ev_aesCtr env (concat chunks) (tc_receiveState c)) \<and>
    tcp_view s c' = handle_packets env ps (tcp_view s c)"
  using assms
proof (induction env items c arbitrary: ps chunks rule: socketRead_loop.induct)
  case (1 env items c)
  obtain bs chunks' where chunks: "chunks = bs # chunks'" "bs \<noteq> []"
    using "1.prems"(6,7) by (cases chunks) auto
  note inv = "1.prems"(1)
  have limit: "0 < readLimit c" "tc_offsetBytes c + tc_readBytes c + readLimit c \<le> length (current_buffer c)"
    using readLimit_room [OF inv] by simp_all
  obtain rest where rest: "socket_rest (readLimit c) bs (map Bytes chunks') = map Bytes rest"
    "\<forall>b \<in> set rest. b \<noteq> []" "take (readLimit c) bs @ concat rest = concat chunks"
    using socket_rest_Cons [OF chunks(2) limit(1), of chunks'] "1.prems"(7) chunks(1) by auto
  let ?bytes = "take (readLimit c) bs"
  obtain plain t where plain: "ev_aesCtr env ?bytes (tc_receiveState c) = (plain, t)" by force
  have cipher: "length plain = length ?bytes"
    "ev_aesCtr env (concat chunks) (tc_receiveState c) =
      (plain @ fst (ev_aesCtr env (concat rest) t), snd (ev_aesCtr env (concat rest) t))"
    using "1.prems"(2) plain unfolding stream_cipher_def rest(3) [symmetric] by (metis fst_conv snd_conv)+
  obtain f d p where d: "socketRead_bytes env ?bytes c = Some (f, d)"
    "drain env (pending c @ plain) (core (c\<lparr>tc_receiveState := t\<rparr>)) = Some (f, p, core d)"
    "f = Go \<longrightarrow> tcp_inv env d \<and> pending d = p"
    using socketRead_bytes_refines [OF inv _ plain cipher(1)] by auto
  have "(pending c @ plain) @ fst (ev_aesCtr env (concat rest) t) = concat ps"
    using "1.prems"(8) cipher(2) by simp
  from drain_packets [OF "1.prems"(4,3) this, of "core (c\<lparr>tc_receiveState := t\<rparr>)" s] d(2)
  obtain ps1 ps2 where ps: "f = Go" "ps = ps1 @ ps2"
    "p @ fst (ev_aesCtr env (concat rest) t) = concat ps2"
    "fst (ev_aesCtr env (concat rest) t) = [] \<longrightarrow> ps2 = []"
    "tcp_view s d = handle_packets env ps1 (tcp_view s c)"
    by auto
  have d_inv: "tcp_inv env d" "pending d = p" using d(3) ps(1) by auto
  have d_state: "tc_receiveState d = t" using drain_receiveState [OF d(2)] by simp
  have items: "items = Bytes bs # map Bytes chunks'" using "1.prems"(5) chunks(1) by simp
  have step: "socketRead_loop env items c =
      (if map Bytes rest \<noteq> [] then socketRead_loop env (map Bytes rest) d else Some (map Bytes rest, d))"
    using limit chunks(2) d(1) ps(1) rest(1) "1.prems"(3)
    by (subst socketRead_loop.simps) (simp add: items Let_def)
  show ?case
  proof (cases "rest = []")
    case True
    then have "ps2 = []" "p = []"
      using ps(3,4) "1.prems"(2) by (auto simp: stream_cipher_def)
    then show ?thesis using True step d_inv ps(2,5) d_state cipher(2) "1.prems"(2)
      by (auto simp: stream_cipher_def)
  next
    case False
    have "\<exists>c'. socketRead_loop env (map Bytes rest) d = Some ([], c') \<and> tcp_inv env c' \<and> pending c' = [] \<and>
      tc_receiveState c' = snd (ev_aesCtr env (concat rest) (tc_receiveState d)) \<and>
      tcp_view s c' = handle_packets env ps2 (tcp_view s d)"
      by (rule "1.IH" [OF _ _ items refl chunks(2) rest(1) [symmetric] d(1)])
        (use limit ps d_inv d_state rest False "1.prems"(2-4) in auto)
    then show ?thesis using step False d_state cipher(2) ps(2,5) by (auto simp: handle_packets_append)
  qed
qed

section \<open>Messages\<close>

lemma ints_of_bytes_of_prime: "ints_of_bytes (bytes_of_prime w @ bytes) = w # ints_of_bytes bytes"
  by (simp add: bytes_of_prime_def prime_of_bytes_inverse)

lemma ints_of_bytes_of_buffer: "ints_of_bytes (bytes_of_buffer buffer) = buffer"
  by (induction buffer) (simp_all add: ints_of_bytes_of_prime)

text \<open>
  The unpadded formats, for a payload of at least three ints (a shorter one is an error code or
  an empty packet).
\<close>

definition v0_message :: "mtp_buffer \<Rightarrow> bool" where
  "v0_message payload \<longleftrightarrow> 3 \<le> length payload \<and> length payload < 2 ^ 24"

lemma v0_wire:
  assumes "\<forall>secret. protocol \<noteq> VersionD secret" "v0_message payload"
    "finalizePacket rnd fill protocol (a # b # payload) = Some p"
  shows "is_packet protocol p \<and> parsePacket protocol p = Some payload"
proof -
  have p: "v0_finalizePacket (a # b # payload) = Some p"
    using assms(1,3) by (cases protocol) auto
  have n: "0 < length payload" "length payload < 2 ^ 24" using assms(2) by (auto simp: v0_message_def)
  then have eq: "p = v0_prefix (length payload) @ bytes_of_buffer payload"
    using p by (auto simp: v0_finalizePacket_eq split: if_splits)
  have "readPacket protocol p = v0_readPacket p" "is_packet protocol p = v0_packet p"
    using assms(1) by (cases protocol; auto simp: is_packet_def)+
  moreover have "v0_packet p"
    using n unfolding v0_packet_def eq
    by (intro exI [of _ "length payload"] exI [of _ "bytes_of_buffer payload"]) simp
  ultimately show ?thesis
    using v0_readPacket_prefix [OF n, of "bytes_of_buffer payload"] assms(2)
    by (auto simp: parsePacket_def eq ints_of_bytes_of_buffer v0_message_def)
qed

lemma handle_messages:
  assumes "list_all2 (\<lambda>payload p. v0_message payload \<and> parsePacket (ev_protocol env) p = Some payload)
    payloads ps"
    and "tc_status c = Ready"
  shows "tc_receivedQueue (handle_packets env ps c) = tc_receivedQueue c @ payloads \<and>
    tc_status (handle_packets env ps c) = Ready"
  using assms
proof (induction payloads ps arbitrary: c rule: list_all2_induct)
  case Nil
  then show ?case by (simp add: handle_packets_def)
next
  case (Cons payload payloads p ps)
  then have "socketPacket env p c =
      Some (emit ReceivedData (c\<lparr>tc_receivedQueue := tc_receivedQueue c @ [payload]\<rparr>))"
    by (simp add: socketPacket_def v0_message_def)
  then show ?case
    using Cons.IH [of "emit ReceivedData (c\<lparr>tc_receivedQueue := tc_receivedQueue c @ [payload]\<rparr>)"] Cons.prems
    by (simp add: handle_packets_def)
qed

section \<open>Properties\<close>

text \<open>
  C7: every read of the socket does what the buffer-free specification says. Whatever the state
  of the two buffers, in all the moves between them, the packets handled, the signals emitted and
  the bytes left over are those of cutting packets off the front of the pending bytes followed by
  the new ones; no assertion fails and no span leaves its buffer.
\<close>

theorem socketRead_bytes_simulation:
  assumes "tcp_inv env c" "length bytes \<le> readLimit c"
    and "ev_aesCtr env bytes (tc_receiveState c) = (plain, s)" "length plain = length bytes"
  shows "\<exists>f c' p. socketRead_bytes env bytes c = Some (f, c') \<and>
    drain env (pending c @ plain) (core (c\<lparr>tc_receiveState := s\<rparr>)) = Some (f, p, core c') \<and>
    (f = Go \<longrightarrow> tcp_inv env c' \<and> pending c' = p \<and>
      0 < readLimit c' \<and> tc_offsetBytes c' + tc_readBytes c' + readLimit c' \<le> length (current_buffer c'))"
  using socketRead_bytes_refines [OF assms] readLimit_room [of env] by metis

definition sample_env :: "unit tcp_env" where
  "sample_env = \<lparr>ev_protocol = Version0, ev_aesCtr = (\<lambda>bs s. (map (\<lambda>b. b XOR 0x5A) bs, s)),
    ev_readResPQ = (\<lambda>_ _. None), ev_now = 7, ev_alive = (\<lambda>_. True)\<rparr>"

definition fresh_conn :: "unit tcp_conn" where
  "fresh_conn = \<lparr>tc_offsetBytes = 0, tc_readBytes = 0, tc_leftBytes = 0,
    tc_smallBuffer = replicate kSmallBufferSize 0, tc_largeBuffer = [], tc_usingLargeBuffer = False,
    tc_receiveState = (), tc_status = Ready, tc_checkNonce = [], tc_pingTime = 3,
    tc_receivedQueue = [], tc_events = []\<rparr>"

lemma fresh_inv: "tcp_inv sample_env fresh_conn \<and> pending fresh_conn = [] \<and>
    readLimit fresh_conn = kSmallBufferSize"
  by (simp add: tcp_inv_def fresh_conn_def pending_def subspan_def current_buffer_def readLimit_def
      kMinPacketBuffer_def kSmallBufferSize_def)

lemma sample_decrypts: "ev_aesCtr sample_env [0x5B, 0x5A] (tc_receiveState fresh_conn) = ([1, 0], ())"
  by (simp add: sample_env_def)

lemma socketRead_bytes_simulation_witness:
  "\<exists>f c' p. socketRead_bytes sample_env [0x5B, 0x5A] fresh_conn = Some (f, c') \<and>
    drain sample_env [1, 0] (core (fresh_conn\<lparr>tc_receiveState := ()\<rparr>)) = Some (f, p, core c')"
  using socketRead_bytes_simulation [of sample_env fresh_conn "[0x5B, 0x5A]" "[1, 0]" "()"] fresh_inv sample_decrypts
  by (fastforce simp: kSmallBufferSize_def)

text \<open>
  C8: messages arrive whole and in order, however the network cuts the stream. On a ready
  connection of an unpadded protocol, the packets of any list of payloads, encrypted one after
  the other and cut into pieces in any way, make \<open>socketRead\<close> append exactly these payloads to
  the queue of received messages, in order, and leave nothing pending.
\<close>

theorem tcp_messages_delivered:
  assumes cipher: "stream_cipher (ev_aesCtr env)" and alive: "\<forall>es. ev_alive env es"
    and inv: "tcp_inv env c" and empty: "pending c = []" and ready: "tc_status c = Ready"
    and protocol: "\<forall>secret. ev_protocol env \<noteq> VersionD secret"
    and packets: "list_all2 (\<lambda>payload p. v0_message payload \<and>
      finalizePacket rnd fill (ev_protocol env) (0 # 0 # payload) = Some p) payloads packets"
    and pieces: "pieces \<noteq> []" "\<forall>b \<in> set pieces. b \<noteq> []"
    and stream: "fst (ev_aesCtr env (concat pieces) (tc_receiveState c)) = concat packets"
  shows "\<exists>c'. socketRead env (map Bytes pieces) c = Some ([], c') \<and>
    tc_receivedQueue c' = tc_receivedQueue c @ payloads \<and> pending c' = [] \<and> tcp_inv env c'"
proof -
  have wire: "list_all2 (\<lambda>payload p. is_packet (ev_protocol env) p \<and> v0_message payload \<and>
      parsePacket (ev_protocol env) p = Some payload) payloads packets"
    using packets by (rule list_all2_mono) (use v0_wire [OF protocol] in blast)
  then have "\<forall>p \<in> set packets. is_packet (ev_protocol env) p"
    by (auto simp: list_all2_conv_all_nth in_set_conv_nth)
  moreover have "pending c @ fst (ev_aesCtr env (concat pieces) (tc_receiveState c)) = concat packets"
    using stream empty by simp
  ultimately obtain c' where c': "socketRead_loop env (map Bytes pieces) c = Some ([], c')"
    "tcp_inv env c'" "pending c' = []"
    "tcp_view (tc_receiveState c) c' = handle_packets env packets (tcp_view (tc_receiveState c) c)"
    using socketRead_loop_delivers [OF inv cipher alive _ refl pieces] by blast
  have "tc_receivedQueue (handle_packets env packets (tcp_view (tc_receiveState c) c))
      = tc_receivedQueue c @ payloads"
    using handle_messages [of env payloads packets "tcp_view (tc_receiveState c) c"] ready wire
    by (simp add: list_all2_conv_all_nth)
  then have "tc_receivedQueue c' = tc_receivedQueue c @ payloads" by (simp flip: c'(4))
  moreover have "tc_smallBuffer c \<noteq> []" "tc_leftBytes c > 0 \<or> \<not> tc_usingLargeBuffer c"
    using inv by (auto simp: tcp_inv_def kSmallBufferSize_def split: if_splits)
  ultimately show ?thesis using c' alive by (auto simp: socketRead_def Let_def)
qed

lemma sample_cipher: "stream_cipher (ev_aesCtr sample_env)"
  by (simp add: stream_cipher_def sample_env_def)

lemma xor_5A: "map (\<lambda>b. b XOR 0x5A) (map (\<lambda>b. b XOR 0x5A) bs) = (bs :: u8 list)"
  by (simp add: o_def xor.assoc)

lemma tcp_messages_delivered_witness:
  "\<exists>c'. socketRead sample_env (map Bytes [map (\<lambda>b. b XOR 0x5A) [3, 1, 0, 0, 0, 2, 0],
      map (\<lambda>b. b XOR 0x5A) [0, 0, 3, 0, 0, 0]]) fresh_conn = Some ([], c') \<and>
    tc_receivedQueue c' = [[1, 2, 3]] \<and> pending c' = [] \<and> tcp_inv sample_env c'"
proof -
  have "v0_finalizePacket [0, 0, 1, 2, 3] = Some [3, 1, 0, 0, 0, 2, 0, 0, 0, 3, 0, 0, 0]"
    by (simp add: v0_finalizePacket_eq v0_prefix_def Let_def bytes_of_prime_def)
  then show ?thesis
    using tcp_messages_delivered [OF sample_cipher, of fresh_conn 0 "\<lambda>_. 0" "[[1, 2, 3]]"
        "[[3, 1, 0, 0, 0, 2, 0, 0, 0, 3, 0, 0, 0]]"
        "[map (\<lambda>b. b XOR 0x5A) [3, 1, 0, 0, 0, 2, 0], map (\<lambda>b. b XOR 0x5A) [0, 0, 3, 0, 0, 0]]"] fresh_inv
    by (simp add: sample_env_def v0_message_def fresh_conn_def)
qed

text \<open>
  the answer of an unencrypted request is handed on as too long a span. The check bounds
  the answer's length as a number of bytes, but the span is made of that many ints: whenever
  the answer fills its message, the span ends 3 ints past the buffer for each int of the answer.
\<close>

theorem parseNotSecureResponse_overruns:
  assumes "length buffer = 5 + n" "0 < n" "n < 2 ^ 29"
    and "buffer ! 0 = 0" "buffer ! 1 = 0" "buffer ! 2 AND 3 = 1"
    and "buffer ! 4 = of_nat (4 * n)"
  shows "\<exists>first count. parseNotSecureResponse buffer = Some (first, count) \<and>
    first + count = length buffer + 3 * n"
proof -
  have "unat (buffer ! 4) = 4 * n" using assms(3,7) unat32 [of "4 * n"] by simp
  then show ?thesis using assms by (simp add: parseNotSecureResponse_def Let_def)
qed

lemma parseNotSecureResponse_overruns_witness:
  "\<exists>first count. parseNotSecureResponse [0, 0, 1, 0, 4, 9] = Some (first, count) \<and>
    first + count = 9"
  using parseNotSecureResponse_overruns [of "[0, 0, 1, 0, 4, 9]" 1] by simp

end
