(* ===== verification/Ids.thy ===== *)
theory Ids imports Prelude begin

text \<open>
  Identifiers of peers and messages: \<open>data/data_peer_id.h\<close>, \<open>data/data_peer_id.cpp\<close> and
  \<open>data/data_msg_id.h\<close>. A peer identifier is a \<open>uint64\<close>, kept as a \<open>64 word\<close>: the identifier
  of a user, basic group or channel in its low 48 bits and the kind above them. A message
  identifier is an \<open>int64\<close>, kept as an \<open>int\<close>; its value range is cut into server, client, story
  and special identifiers.
\<close>

section \<open>Peers\<close>

type_synonym peer_id = "64 word"

text \<open>The instances of \<open>ChatIdType\<close> the client uses, with their \<open>kShift\<close>.\<close>

datatype chat_id_type = UserId | ChatId | ChannelId | FakeChatId

fun kShift :: "chat_id_type \<Rightarrow> 64 word" where
  "kShift UserId = 0"
| "kShift ChatId = 1"
| "kShift ChannelId = 2"
| "kShift FakeChatId = 0x7F"

definition kReservedBit :: "64 word" where
  "kReservedBit = 0x80"

definition kChatTypeMask :: "64 word" where
  "kChatTypeMask = 0xFFFFFFFFFFFF"

definition PeerId_of :: "chat_id_type \<Rightarrow> 64 word \<Rightarrow> peer_id" where
  "PeerId_of t bare = bare OR push_bit 48 (kShift t)"

definition peer_is :: "chat_id_type \<Rightarrow> peer_id \<Rightarrow> bool" where
  "peer_is t value \<longleftrightarrow> drop_bit 48 value AND 0xFF = kShift t"

definition peer_to :: "chat_id_type \<Rightarrow> peer_id \<Rightarrow> 64 word" where
  "peer_to t value = (if peer_is t value then value AND kChatTypeMask else 0)"

definition peerIsUser :: "peer_id \<Rightarrow> bool" where
  "peerIsUser = peer_is UserId"

definition peerIsChat :: "peer_id \<Rightarrow> bool" where
  "peerIsChat = peer_is ChatId"

definition peerIsChannel :: "peer_id \<Rightarrow> bool" where
  "peerIsChannel = peer_is ChannelId"

definition peerFromUser :: "64 word \<Rightarrow> peer_id" where
  "peerFromUser = PeerId_of UserId"

definition peerFromChat :: "64 word \<Rightarrow> peer_id" where
  "peerFromChat = PeerId_of ChatId"

definition peerFromChannel :: "64 word \<Rightarrow> peer_id" where
  "peerFromChannel = PeerId_of ChannelId"

definition peerToUser :: "peer_id \<Rightarrow> 64 word" where
  "peerToUser = peer_to UserId"

definition peerToChat :: "peer_id \<Rightarrow> 64 word" where
  "peerToChat = peer_to ChatId"

definition peerToChannel :: "peer_id \<Rightarrow> 64 word" where
  "peerToChannel = peer_to ChannelId"

definition peerToBareMTPInt :: "peer_id \<Rightarrow> 64 word" where
  "peerToBareMTPInt value = value AND kChatTypeMask"

text \<open>The peer of the server's protocol.\<close>

datatype MTPPeer = MTP_peerUser "64 word" | MTP_peerChat "64 word" | MTP_peerChannel "64 word"

fun peerFromMTP :: "MTPPeer \<Rightarrow> peer_id" where
  "peerFromMTP (MTP_peerUser user_id) = peerFromUser user_id"
| "peerFromMTP (MTP_peerChat chat_id) = peerFromChat chat_id"
| "peerFromMTP (MTP_peerChannel channel_id) = peerFromChannel channel_id"

definition peerToMTP :: "peer_id \<Rightarrow> MTPPeer" where
  "peerToMTP value =
    (if peerIsUser value then MTP_peerUser (peerToBareMTPInt value)
     else if peerIsChat value then MTP_peerChat (peerToBareMTPInt value)
     else if peerIsChannel value then MTP_peerChannel (peerToBareMTPInt value)
     else MTP_peerUser 0)"

definition DeserializePeerId :: "64 word \<Rightarrow> peer_id" where
  "DeserializePeerId serialized =
    (let flag = push_bit 48 kReservedBit;
         legacy = (serialized AND push_bit 48 kReservedBit = 0)
     in if \<not> legacy then serialized AND NOT flag
        else
          let PeerIdMask = 0xFFFFFFFF;
              PeerIdTypeMask = 0xF00000000;
              PeerIdUserShift = 0x000000000;
              PeerIdChatShift = 0x100000000;
              PeerIdChannelShift = 0x200000000;
              PeerIdFakeShift = 0xF00000000
          in if serialized AND PeerIdTypeMask = PeerIdUserShift
             then peerFromUser (serialized AND PeerIdMask)
             else if serialized AND PeerIdTypeMask = PeerIdChatShift
             then peerFromChat (serialized AND PeerIdMask)
             else if serialized AND PeerIdTypeMask = PeerIdChannelShift
             then peerFromChannel (serialized AND PeerIdMask)
             else if serialized AND PeerIdTypeMask = PeerIdFakeShift
             then PeerId_of FakeChatId (serialized AND PeerIdMask)
             else 0)"

definition SerializePeerId :: "peer_id \<Rightarrow> 64 word option" where
  "SerializePeerId value =
    (if value AND push_bit 48 kReservedBit \<noteq> 0 then None
     else Some (value OR push_bit 48 kReservedBit))"

section \<open>Messages\<close>

type_synonym msg_id = int

definition StartClientMsgId :: msg_id where
  "StartClientMsgId = 0x01 - 2 ^ 58"

definition ClientMsgIds :: int where
  "ClientMsgIds = 2 ^ 31"

definition EndClientMsgId :: msg_id where
  "EndClientMsgId = StartClientMsgId + ClientMsgIds"

definition StartStoryMsgId :: msg_id where
  "StartStoryMsgId = EndClientMsgId + 1"

definition ServerMaxStoryId :: int where
  "ServerMaxStoryId = 2 ^ 30"

definition StoryMsgIds :: int where
  "StoryMsgIds = ServerMaxStoryId"

definition EndStoryMsgId :: msg_id where
  "EndStoryMsgId = StartStoryMsgId + StoryMsgIds"

definition ServerMaxMsgId :: msg_id where
  "ServerMaxMsgId = 2 ^ 56"

definition ScheduledMaxMsgId :: msg_id where
  "ScheduledMaxMsgId = ServerMaxMsgId + 2 ^ 32"

definition ShortcutMaxMsgId :: msg_id where
  "ShortcutMaxMsgId = ScheduledMaxMsgId + 2 ^ 32"

definition SpecialMsgIdShift :: int where
  "SpecialMsgIdShift = EndStoryMsgId"

definition special_msg_ids :: "msg_id list" where
  "special_msg_ids = map (\<lambda>n. SpecialMsgIdShift + n) [1, 2, 4, 6]"

definition IsClientMsgId :: "msg_id \<Rightarrow> bool" where
  "IsClientMsgId i \<longleftrightarrow> i \<ge> StartClientMsgId \<and> i < EndClientMsgId"

definition ClientMsgIndex :: "msg_id \<Rightarrow> int option" where
  "ClientMsgIndex i = (if IsClientMsgId i then Some (i32 (i - StartClientMsgId)) else None)"

definition ClientMsgByIndex :: "int \<Rightarrow> msg_id option" where
  "ClientMsgByIndex index = (if index \<ge> 0 then Some (StartClientMsgId + index) else None)"

definition IsStoryMsgId :: "msg_id \<Rightarrow> bool" where
  "IsStoryMsgId i \<longleftrightarrow> i \<ge> StartStoryMsgId \<and> i < EndStoryMsgId"

definition StoryIdFromMsgId :: "msg_id \<Rightarrow> int option" where
  "StoryIdFromMsgId i = (if IsStoryMsgId i then Some (i32 (i - StartStoryMsgId)) else None)"

definition StoryIdToMsgId :: "int \<Rightarrow> msg_id option" where
  "StoryIdToMsgId i = (if i \<ge> 0 then Some (StartStoryMsgId + i) else None)"

definition IsServerMsgId :: "msg_id \<Rightarrow> bool" where
  "IsServerMsgId i \<longleftrightarrow> i > 0 \<and> i < ServerMaxMsgId"

record full_msg_id =
  fm_peer :: peer_id
  fm_msg :: msg_id

lemmas msg_id_defs = StartClientMsgId_def ClientMsgIds_def EndClientMsgId_def StartStoryMsgId_def
  ServerMaxStoryId_def StoryMsgIds_def EndStoryMsgId_def ServerMaxMsgId_def ScheduledMaxMsgId_def
  ShortcutMaxMsgId_def SpecialMsgIdShift_def

lemma ServerMaxMsgId_pos [simp]: "0 < ServerMaxMsgId" "0 \<le> ServerMaxMsgId" "ServerMaxMsgId \<noteq> 0"
  by (simp_all add: ServerMaxMsgId_def)

section \<open>Peer identifiers, bit by bit\<close>

lemma kShift_less: "kShift t < 2 ^ 7"
  by (cases t) simp_all

lemma bit_kShift: "bit (kShift t) n \<Longrightarrow> n < 7"
proof -
  have "kShift t = take_bit 7 (kShift t)" by (cases t) (simp_all add: take_bit_eq_mod)
  then show "bit (kShift t) n \<Longrightarrow> n < 7" by (metis bit_take_bit_iff)
qed

lemma bit_small: "bare < 2 ^ 48 \<Longrightarrow> bit (bare :: 64 word) n \<Longrightarrow> n < 48"
proof -
  assume "bare < 2 ^ 48" and b: "bit bare n"
  then have "take_bit 48 bare = bare"
    by (simp add: word_unat_eq_iff unsigned_take_bit_eq word_less_nat_alt take_bit_nat_eq_self_iff)
  with b show "n < 48" by (metis bit_take_bit_iff)
qed

lemma mask_FF64: "(0xFF :: 64 word) = mask 8"
  by (simp add: mask_eq_exp_minus_1)

lemma kChatTypeMask_mask: "kChatTypeMask = mask 48"
  by (simp add: kChatTypeMask_def mask_eq_exp_minus_1)

lemma kShift_and_FF: "kShift t AND 0xFF = kShift t"
  by (rule bit_word_eqI) (auto simp: mask_FF64 bit_simps dest: bit_kShift)

lemma drop_PeerId_of: "bare < 2 ^ 48 \<Longrightarrow> drop_bit 48 (PeerId_of t bare) = kShift t"
  by (rule bit_word_eqI) (auto simp: PeerId_of_def bit_simps dest: bit_small [simplified] bit_kShift)

lemma peer_is_PeerId_of: "bare < 2 ^ 48 \<Longrightarrow> peer_is t' (PeerId_of t bare) \<longleftrightarrow> kShift t = kShift t'"
  by (simp add: peer_is_def drop_PeerId_of kShift_and_FF)

lemma kShift_inject: "kShift t = kShift t' \<longleftrightarrow> t = t'"
  by (cases t; cases t') simp_all

lemma PeerId_of_bare: "bare < 2 ^ 48 \<Longrightarrow> PeerId_of t bare AND kChatTypeMask = bare"
  by (rule bit_word_eqI) (auto simp: PeerId_of_def kChatTypeMask_mask bit_simps dest: bit_small [simplified])

lemma reserved_bit: "bit (push_bit 48 kReservedBit) n \<longleftrightarrow> n = 55"
proof -
  have p: "push_bit 48 kReservedBit = push_bit 55 1"
    by (simp add: kReservedBit_def push_bit_eq_mult)
  show ?thesis unfolding p bit_push_bit_iff bit_1_iff by (auto simp: possible_bit_def)
qed

lemma and_reserved: "value AND push_bit 48 kReservedBit = 0 \<longleftrightarrow> \<not> bit value 55"
proof
  assume "value AND push_bit 48 kReservedBit = 0"
  then have "bit (value AND push_bit 48 kReservedBit) 55 = False" by simp
  then show "\<not> bit value 55" by (simp add: bit_and_iff reserved_bit)
next
  assume "\<not> bit value 55"
  then show "value AND push_bit 48 kReservedBit = 0"
    by (intro bit_word_eqI) (auto simp: bit_and_iff reserved_bit)
qed

lemma PeerId_of_not_reserved: "bare < 2 ^ 48 \<Longrightarrow> \<not> bit (PeerId_of t bare) 55"
  by (auto simp: PeerId_of_def bit_simps dest: bit_small [simplified] bit_kShift)

lemma DeserializePeerId_modern:
  "SerializePeerId value = Some serialized \<Longrightarrow> DeserializePeerId serialized = value"
proof -
  assume "SerializePeerId value = Some serialized"
  then have v: "\<not> bit value 55" and s: "serialized = value OR push_bit 48 kReservedBit"
    by (auto simp: SerializePeerId_def and_reserved split: if_splits)
  have "bit serialized 55" by (simp add: s bit_or_iff reserved_bit)
  then have "DeserializePeerId serialized = serialized AND NOT (push_bit 48 kReservedBit)"
    using and_reserved [of serialized] by (simp add: DeserializePeerId_def Let_def)
  also have "\<dots> = value"
  proof (rule bit_word_eqI)
    fix n
    assume "n < LENGTH(64)"
    then show "bit (serialized AND NOT (push_bit 48 kReservedBit)) n = bit value n"
      using v by (auto simp: s bit_and_iff bit_or_iff bit_not_iff reserved_bit)
  qed
  finally show ?thesis .
qed

section \<open>Properties\<close>

text \<open>
  C9: peers survive the trip to the server's form and back, and to the stored form and back.
  For each of the three kinds of peer and an identifier of at most 48 bits, the peer is
  recognised as its own kind only, its bare identifier is read back, sending it out and taking
  it in again is the identity, and so is serializing and deserializing it.
\<close>

theorem peer_id_roundtrip:
  assumes "bare < 2 ^ 48" and "t \<in> {UserId, ChatId, ChannelId}"
  shows "peer_is t' (PeerId_of t bare) = (t' = t) \<and> peer_to t (PeerId_of t bare) = bare \<and>
    peerFromMTP (peerToMTP (PeerId_of t bare)) = PeerId_of t bare \<and>
    (\<exists>s. SerializePeerId (PeerId_of t bare) = Some s \<and> DeserializePeerId s = PeerId_of t bare)"
proof -
  let ?p = "PeerId_of t bare"
  have is_t: "peer_is t' ?p = (t' = t)" for t'
    using peer_is_PeerId_of [OF assms(1)] kShift_inject by metis
  moreover have "peer_to t ?p = bare"
    using is_t PeerId_of_bare [OF assms(1)] by (simp add: peer_to_def)
  moreover have "peerFromMTP (peerToMTP ?p) = ?p"
    using assms(2) is_t PeerId_of_bare [OF assms(1)]
    by (auto simp: peerToMTP_def peerIsUser_def peerIsChat_def peerIsChannel_def peerFromUser_def
        peerFromChat_def peerFromChannel_def peerToBareMTPInt_def)
  moreover have "SerializePeerId ?p = Some (?p OR push_bit 48 kReservedBit)"
    using PeerId_of_not_reserved [OF assms(1), of t] and_reserved [of ?p] by (simp add: SerializePeerId_def)
  ultimately show ?thesis using DeserializePeerId_modern by blast
qed

lemma peer_id_roundtrip_witness:
  "peerFromMTP (peerToMTP (PeerId_of ChannelId 1234567)) = PeerId_of ChannelId 1234567"
  using peer_id_roundtrip [of 1234567 ChannelId UserId] by simp

text \<open>
  the ranges of message identifiers do not meet. An identifier is at most one of server,
  client and story identifier, the special identifiers are none of these, and the identifiers
  of local messages and stories are in bijection with their indices.
\<close>

theorem msg_id_ranges:
  "\<not> (IsServerMsgId i \<and> IsClientMsgId i) \<and> \<not> (IsServerMsgId i \<and> IsStoryMsgId i) \<and>
    \<not> (IsClientMsgId i \<and> IsStoryMsgId i) \<and>
    list_all (\<lambda>s. \<not> IsServerMsgId s \<and> \<not> IsClientMsgId s \<and> \<not> IsStoryMsgId s) special_msg_ids \<and>
    ClientMsgIndex i = (if IsClientMsgId i then Some (i - StartClientMsgId) else None) \<and>
    StoryIdFromMsgId i = (if IsStoryMsgId i then Some (i - StartStoryMsgId) else None)"
  by (auto simp: IsServerMsgId_def IsClientMsgId_def IsStoryMsgId_def msg_id_defs special_msg_ids_def
      ClientMsgIndex_def StoryIdFromMsgId_def in_i32_def)

end
