(* ===== verification/SparseIdsList.thy ===== *)
theory SparseIdsList imports Ids begin

text \<open>
  \<open>Storage::SparseIdsList\<close> (\<open>storage/storage_sparse_ids_list.h\<close> and \<open>.cpp\<close>): what the client
  knows of a list of message identifiers kept by the server (the photos of a chat, say). The
  knowledge is a set of slices; a slice lists all the messages of its range.

  \<open>_slices\<close> is a \<open>flat_set\<close> ordered by the start of the range, a list in that order here. The
  iterators are positions in it. \<open>flat_set::modify\<close> changes an element in place; the changes
  made here never alter the order of the set, which is part of the invariant proved below. The
  pointer \<open>SparseIdsSliceUpdate::messages\<close> is read when the update is fired, so the update holds
  the messages themselves. A failed \<open>Expects\<close> is \<open>None\<close>.
\<close>

section \<open>Data\<close>

record 'k ids_slice =
  sl_messages :: "'k list"
  sl_from :: 'k
  sl_till :: 'k

record 'k ids_query =
  iq_aroundId :: 'k
  iq_limitBefore :: int
  iq_limitAfter :: int

record 'k ids_list_result =
  ir_count :: "int option"
  ir_skippedBefore :: "int option"
  ir_skippedAfter :: "int option"
  ir_messageIds :: "'k list"

record 'k ids_slice_update =
  su_messages :: "'k list option"
  su_from :: 'k
  su_till :: 'k
  su_count :: "int option"

record 'k ids_list =
  il_count :: "int option"
  il_slices :: "'k ids_slice list"
  il_updates :: "'k ids_slice_update list"

definition ids_list_new :: "'k ids_list" where
  "ids_list_new = \<lparr>il_count = None, il_slices = [], il_updates = []\<rparr>"

definition slice_update_new :: "msg_id ids_slice_update" where
  "slice_update_new = \<lparr>su_messages = None, su_from = 0, su_till = 0, su_count = None\<rparr>"

section \<open>Adding\<close>

definition slice_merge :: "('k::linorder) list \<Rightarrow> 'k \<Rightarrow> 'k \<Rightarrow> 'k ids_slice \<Rightarrow> 'k ids_slice option" where
  "slice_merge moreMessages moreFrom moreTill s =
    (if \<not> (moreFrom \<le> sl_till s) \<or> \<not> (sl_from s \<le> moreTill) then None
     else Some \<lparr>sl_messages = flat_merge (sl_messages s) moreMessages,
                sl_from = min (sl_from s) moreFrom, sl_till = max (sl_till s) moreTill\<rparr>)"

text \<open>The loop of \<open>uniteAndAdd\<close> over the slices after the first.\<close>

fun unite_loop :: "('k::linorder) ids_slice \<Rightarrow> 'k ids_slice list \<Rightarrow> 'k ids_slice option" where
  "unite_loop s [] = Some s"
| "unite_loop s (it # rest) =
     (case slice_merge (sl_messages it) (sl_from it) (sl_till it) s of
        None \<Rightarrow> None
      | Some s \<Rightarrow> unite_loop s rest)"

definition uniteAndAdd ::
  "('k::linorder) ids_slice_update \<Rightarrow> nat \<Rightarrow> nat \<Rightarrow> 'k list \<Rightarrow> 'k \<Rightarrow> 'k \<Rightarrow> 'k ids_slice list \<Rightarrow>
    ('k ids_slice list \<times> 'k ids_slice_update \<times> int) option" where
  "uniteAndAdd update uniteFrom uniteTill messages from till slices =
    (let was = int (length (sl_messages (slices ! uniteFrom)))
     in case slice_merge messages from till (slices ! uniteFrom) of
          None \<Rightarrow> None
        | Some sl \<Rightarrow>
            let firstToErase = uniteFrom + 1
            in case unite_loop sl (take (uniteTill - firstToErase) (drop firstToErase slices)) of
                 None \<Rightarrow> None
               | Some sl \<Rightarrow>
                   Some (take uniteFrom slices @ sl # drop uniteTill slices,
                     update\<lparr>su_messages := Some (sl_messages sl), su_from := sl_from sl,
                            su_till := sl_till sl\<rparr>,
                     int (length (sl_messages sl)) - was))"

text \<open>\<open>flat_set::emplace\<close>: an element with the same start of the range is kept.\<close>

fun slice_emplace :: "('k::linorder) ids_slice \<Rightarrow> 'k ids_slice list \<Rightarrow> 'k ids_slice list \<times> 'k ids_slice" where
  "slice_emplace s [] = ([s], s)"
| "slice_emplace s (t # ts) =
     (if sl_from s < sl_from t then (s # t # ts, s)
      else if sl_from t < sl_from s then
        (let (ts, e) = slice_emplace s ts in (t # ts, e))
      else (t # ts, t))"

text \<open>Adding a range that is not both a single point and empty.\<close>

definition uniteOrEmplace ::
  "('k::linorder) ids_slice_update \<Rightarrow> 'k list \<Rightarrow> 'k \<Rightarrow> 'k \<Rightarrow> 'k ids_slice list \<Rightarrow>
    ('k ids_slice list \<times> 'k ids_slice_update \<times> int) option" where
  "uniteOrEmplace update messages from till slices =
    (let uniteFrom = lower_bound sl_till slices from;
         uniteTill = upper_bound sl_from slices till
     in if uniteFrom < uniteTill
        then uniteAndAdd update uniteFrom uniteTill messages from till slices
        else
          let sliceMessages = flat_merge [] messages;
              (slices, sl) =
                slice_emplace \<lparr>sl_messages = sliceMessages, sl_from = from, sl_till = till\<rparr> slices
          in Some (slices,
               update\<lparr>su_messages := Some (sl_messages sl), su_from := sl_from sl,
                      su_till := sl_till sl\<rparr>,
               int (length (sl_messages sl))))"

definition addRangeItemsAndCountNew ::
  "('k::linorder) ids_slice_update \<Rightarrow> 'k list \<Rightarrow> 'k \<Rightarrow> 'k \<Rightarrow> 'k ids_slice list \<Rightarrow>
    ('k ids_slice list \<times> 'k ids_slice_update \<times> int) option" where
  "addRangeItemsAndCountNew update messages from till slices =
    (if \<not> from \<le> till then None
     else if from = till \<and> messages = [] then Some (slices, update, 0)
     else uniteOrEmplace update messages from till slices)"

definition addRange ::
  "msg_id list \<Rightarrow> msg_id \<Rightarrow> msg_id \<Rightarrow> int option \<Rightarrow> bool \<Rightarrow> msg_id ids_list \<Rightarrow> msg_id ids_list option" where
  "addRange messages from till count incrementCount l =
    (if \<not> (count = None \<or> \<not> incrementCount) then None
     else
       case addRangeItemsAndCountNew slice_update_new messages from till (il_slices l) of
         None \<Rightarrow> None
       | Some (slices, update, added) \<Rightarrow>
           let c = (if count \<noteq> None then count
                    else case il_count l of
                           Some n \<Rightarrow> if incrementCount \<and> added > 0 then Some (n + added) else Some n
                         | None \<Rightarrow> None);
               slices =
                 (if length slices = 1 then
                    (case c of
                       Some n \<Rightarrow>
                         if int (length (sl_messages (hd slices))) \<ge> n
                         then [(hd slices)\<lparr>sl_from := 0, sl_till := ServerMaxMsgId\<rparr>]
                         else slices
                     | None \<Rightarrow> slices)
                  else slices);
               c = (if length slices = 1 \<and> sl_from (hd slices) = 0 \<and> sl_till (hd slices) = ServerMaxMsgId
                    then Some (int (length (sl_messages (hd slices)))) else c);
               c = (case (c, su_messages update) of
                      (Some n, Some ms) \<Rightarrow> Some (max n (int (length ms)))
                    | _ \<Rightarrow> c)
           in Some \<lparr>il_count = c, il_slices = slices,
                     il_updates = il_updates l @ [update\<lparr>su_count := c\<rparr>]\<rparr>)"

definition addNew :: "msg_id \<Rightarrow> msg_id ids_list \<Rightarrow> msg_id ids_list option" where
  "addNew messageId l = addRange [messageId] messageId ServerMaxMsgId None True l"

definition addExisting :: "msg_id \<Rightarrow> msg_id \<Rightarrow> msg_id \<Rightarrow> msg_id ids_list \<Rightarrow> msg_id ids_list option" where
  "addExisting messageId from till l = addRange [messageId] from till None False l"

definition addSlice ::
  "msg_id list \<Rightarrow> msg_id \<Rightarrow> msg_id \<Rightarrow> int option \<Rightarrow> msg_id ids_list \<Rightarrow> msg_id ids_list option" where
  "addSlice messageIds from till count l = addRange messageIds from till count False l"

section \<open>Removing\<close>

definition list_removeOne :: "('k::linorder) \<Rightarrow> 'k ids_list \<Rightarrow> 'k ids_list" where
  "list_removeOne messageId l =
    (let i = lower_bound sl_till (il_slices l) messageId;
         slices =
           (if i < length (il_slices l) \<and> sl_from (il_slices l ! i) \<le> messageId
            then (il_slices l)[i := (il_slices l ! i)
                   \<lparr>sl_messages := flat_remove messageId (sl_messages (il_slices l ! i))\<rparr>]
            else il_slices l)
     in l\<lparr>il_slices := slices, il_count := map_option (\<lambda>n. n - 1) (il_count l)\<rparr>)"

definition list_removeAll :: "msg_id ids_list \<Rightarrow> msg_id ids_list" where
  "list_removeAll l =
    l\<lparr>il_slices := [\<lparr>sl_messages = [], sl_from = 0, sl_till = ServerMaxMsgId\<rparr>], il_count := Some 0\<rparr>"

definition list_invalidateBottom :: "msg_id ids_list \<Rightarrow> msg_id ids_list" where
  "list_invalidateBottom l =
    (let slices =
       (if il_slices l \<noteq> [] then
          (let s = last (il_slices l)
           in if sl_till s = ServerMaxMsgId then
                butlast (il_slices l) @
                  [s\<lparr>sl_till := (if sl_messages s = [] then sl_from s else last (sl_messages s))\<rparr>]
              else il_slices l)
        else il_slices l)
     in l\<lparr>il_slices := slices, il_count := None\<rparr>)"

section \<open>Asking\<close>

definition list_empty :: "'k ids_list \<Rightarrow> bool" where
  "list_empty l \<longleftrightarrow> (\<forall>s \<in> set (il_slices l). sl_messages s = [])"

definition ids_list_result_new :: "'k ids_list_result" where
  "ids_list_result_new =
    \<lparr>ir_count = None, ir_skippedBefore = None, ir_skippedAfter = None, ir_messageIds = []\<rparr>"

text \<open>\<open>lo\<close> and \<open>hi\<close> are the ends of the full range.\<close>

definition query_window ::
  "('k::linorder) \<Rightarrow> 'k \<Rightarrow> int option \<Rightarrow> 'k ids_query \<Rightarrow> 'k ids_slice \<Rightarrow> 'k ids_list_result" where
  "query_window lo hi count query s =
    (let messages = sl_messages s;
         position = lower_bound (\<lambda>m. m) messages (iq_aroundId query);
         haveBefore = int position;
         haveEqualOrAfter = int (length messages) - int position;
         before = min haveBefore (iq_limitBefore query);
         equalOrAfter = min haveEqualOrAfter (iq_limitAfter query + 1);
         ids = take (nat (before + equalOrAfter)) (drop (nat (haveBefore - before)) messages);
         messageIds = flat_merge [] ids;
         skippedBefore = (if sl_from s = lo then Some (haveBefore - before) else None);
         skippedAfter =
           (if sl_till s = hi then Some (haveEqualOrAfter - equalOrAfter) else None);
         size' = int (length messageIds)
     in \<lparr>ir_count = count,
         ir_skippedBefore =
           (case (count, skippedBefore, skippedAfter) of
              (Some n, None, Some after) \<Rightarrow> Some (n - after - size')
            | _ \<Rightarrow> skippedBefore),
         ir_skippedAfter =
           (case (count, skippedBefore, skippedAfter) of
              (Some n, Some before, None) \<Rightarrow> Some (n - before - size')
            | _ \<Rightarrow> skippedAfter),
         ir_messageIds = messageIds\<rparr>)"

definition queryFromSlice ::
  "int option \<Rightarrow> msg_id ids_query \<Rightarrow> msg_id ids_slice \<Rightarrow> msg_id ids_list_result" where
  "queryFromSlice count query s = query_window 0 ServerMaxMsgId count query s"

definition list_snapshot :: "msg_id ids_query \<Rightarrow> msg_id ids_list \<Rightarrow> msg_id ids_list_result" where
  "list_snapshot query l =
    (let i = (if iq_aroundId query \<noteq> 0 then lower_bound sl_till (il_slices l) (iq_aroundId query)
              else length (il_slices l))
     in if i < length (il_slices l) \<and> sl_from (il_slices l ! i) \<le> iq_aroundId query
        then queryFromSlice (il_count l) query (il_slices l ! i)
        else if il_count l \<noteq> None then ids_list_result_new\<lparr>ir_count := il_count l\<rparr>
        else ids_list_result_new)"

text \<open>What the producer returned by \<open>query\<close> sends before it is done: one result at most.\<close>

definition list_query :: "msg_id ids_query \<Rightarrow> msg_id ids_list \<Rightarrow> msg_id ids_list_result list" where
  "list_query query l =
    (let now = list_snapshot query l
     in if ir_messageIds now \<noteq> [] \<or> ir_count now \<noteq> None then [now] else [])"

section \<open>What the knowledge means\<close>

text \<open>
  \<open>T\<close> is the set of the messages the server has. A slice is right about \<open>T\<close> when it lists the
  messages of \<open>T\<close> in its range.
\<close>

definition true_slice :: "('k::linorder) set \<Rightarrow> 'k ids_slice \<Rightarrow> bool" where
  "true_slice T s \<longleftrightarrow>
    sl_from s \<le> sl_till s \<and> ssorted (sl_messages s) \<and> set (sl_messages s) = T \<inter> {sl_from s..sl_till s}"

definition slices_apart :: "('k::linorder) ids_slice list \<Rightarrow> bool" where
  "slices_apart slices \<longleftrightarrow>
    sorted_wrt (\<lambda>s t. sl_till s < sl_from t) slices \<and> (\<forall>s \<in> set slices. sl_from s \<le> sl_till s)"

definition true_slices :: "('k::linorder) set \<Rightarrow> 'k ids_slice list \<Rightarrow> bool" where
  "true_slices T slices \<longleftrightarrow> slices_apart slices \<and> (\<forall>s \<in> set slices. true_slice T s)"

definition covered :: "('k::linorder) ids_slice list \<Rightarrow> 'k set" where
  "covered slices = (\<Union>s \<in> set slices. {sl_from s..sl_till s})"

definition true_list :: "msg_id set \<Rightarrow> msg_id ids_list \<Rightarrow> bool" where
  "true_list T l \<longleftrightarrow>
    T \<subseteq> {0<..<ServerMaxMsgId} \<and> true_slices T (il_slices l) \<and>
    (\<forall>n. il_count l = Some n \<longrightarrow> n = int (card T))"

section \<open>Adding keeps the knowledge right\<close>

lemma slice_merge_true:
  assumes "ssorted (sl_messages s)" "sl_from s \<le> sl_till s" "f \<le> t" "f \<le> sl_till s" "sl_from s \<le> t"
    and "set (sl_messages s) \<union> set ms = T \<inter> ({sl_from s..sl_till s} \<union> {f..t})"
  shows "\<exists>r. slice_merge ms f t s = Some r \<and> true_slice T r \<and>
    {sl_from r..sl_till r} = {sl_from s..sl_till s} \<union> {f..t}"
proof -
  have "{min (sl_from s) f..max (sl_till s) t} = {sl_from s..sl_till s} \<union> {f..t}"
    using assms(2-5) by (auto simp: min_def max_def split: if_splits)
  then show ?thesis using assms by (auto simp: slice_merge_def true_slice_def)
qed

lemma unite_loop_true:
  assumes "true_slice T' s" "{lo..hi} \<subseteq> {sl_from s..sl_till s}" "lo \<le> hi"
    and "\<forall>x \<in> set ts. true_slice T x \<and> sl_from x \<le> hi \<and> lo \<le> sl_till x"
    and "T \<subseteq> T'" "T' - T \<subseteq> {lo..hi}"
  shows "\<exists>r. unite_loop s ts = Some r \<and> true_slice T' r \<and>
    {sl_from r..sl_till r} = {sl_from s..sl_till s} \<union> covered ts"
  using assms(1,2,4)
proof (induction ts arbitrary: s)
  case Nil
  then show ?case by (simp add: covered_def)
next
  case (Cons x ts)
  have x: "true_slice T x" "sl_from x \<le> hi" "lo \<le> sl_till x" using Cons.prems(3) by auto
  have s: "sl_from s \<le> lo" "hi \<le> sl_till s" using Cons.prems(2) assms(3) by auto
  have "\<forall>y \<in> T' - T. sl_from s \<le> y \<and> y \<le> sl_till s"
    using assms(6) s by (meson atLeastAtMost_iff order_trans subsetD)
  then have u: "set (sl_messages s) \<union> set (sl_messages x) =
      T' \<inter> ({sl_from s..sl_till s} \<union> {sl_from x..sl_till x})"
    using Cons.prems(1,2) x(1) assms(5,6) unfolding true_slice_def by auto
  have p: "ssorted (sl_messages s)" "sl_from s \<le> sl_till s" "sl_from x \<le> sl_till x"
    "sl_from x \<le> sl_till s" "sl_from s \<le> sl_till x"
    using Cons.prems(1) x s by (auto simp: true_slice_def)
  obtain r where r: "slice_merge (sl_messages x) (sl_from x) (sl_till x) s = Some r"
    "true_slice T' r" "{sl_from r..sl_till r} = {sl_from s..sl_till s} \<union> {sl_from x..sl_till x}"
    using slice_merge_true [OF p u] by blast
  have "{lo..hi} \<subseteq> {sl_from r..sl_till r}" unfolding r(3) using Cons.prems(2) by blast
  from Cons.IH [OF r(2) this] Cons.prems(3) obtain r' where
    "unite_loop r ts = Some r'" "true_slice T' r'"
    "{sl_from r'..sl_till r'} = {sl_from r..sl_till r} \<union> covered ts" by auto
  with r show ?case by (simp add: covered_def Un_assoc)
qed

lemma length_takeWhile_mono:
  "\<forall>x \<in> set xs. P x \<longrightarrow> Q x \<Longrightarrow> length (takeWhile P xs) \<le> length (takeWhile Q xs)"
  by (induction xs) auto

lemma slices_apart_sorted:
  assumes "slices_apart slices"
  shows "sorted_wrt (\<lambda>s t. sl_till s < sl_till t) slices" "sorted_wrt (\<lambda>s t. sl_from s < sl_from t) slices"
  using assms unfolding slices_apart_def
  by (auto elim!: sorted_wrt_mono_rel [rotated])

lemma split_slices:
  assumes "slices_apart slices" "f \<le> t"
    and "u = lower_bound sl_till slices f" "v = upper_bound sl_from slices t"
  shows "u \<le> v \<and> slices = take u slices @ drop u (take v slices) @ drop v slices \<and>
    (\<forall>s \<in> set (take u slices). sl_till s < f) \<and>
    (\<forall>s \<in> set (drop u (take v slices)). f \<le> sl_till s \<and> sl_from s \<le> t) \<and>
    (\<forall>s \<in> set (drop v slices). t < sl_from s)"
proof -
  note sorted = slices_apart_sorted [OF assms(1)]
  have u: "take u slices = filter (\<lambda>s. sl_till s < f) slices"
    "drop u slices = filter (\<lambda>s. \<not> sl_till s < f) slices"
    using split_lower_bound [OF sorted(1)] by (simp_all add: assms(3))
  have v: "take v slices = filter (\<lambda>s. sl_from s \<le> t) slices"
    "drop v slices = filter (\<lambda>s. \<not> sl_from s \<le> t) slices"
    using split_upper_bound [OF sorted(2)] by (simp_all add: assms(4))
  have le: "u \<le> v"
    unfolding assms(3,4) lower_bound_def upper_bound_def
    using assms(1,2) by (intro length_takeWhile_mono) (fastforce simp: slices_apart_def)
  have mid: "drop u (take v slices) = take (v - u) (drop u slices)"
    by (simp add: drop_take)
  have "set (drop u (take v slices)) \<subseteq> set (drop u slices) \<inter> set (take v slices)"
    by (metis Int_greatest mid set_drop_subset set_take_subset)
  then have "\<forall>s \<in> set (drop u (take v slices)). f \<le> sl_till s \<and> sl_from s \<le> t"
    unfolding u(2) v(1) by auto
  moreover have "slices = take u slices @ drop u (take v slices) @ drop v slices"
    using le by (metis append_assoc append_take_drop_id min.absorb1 take_take)
  ultimately show ?thesis using le u(1) v(2) by auto
qed

lemma slice_emplace_between:
  assumes "\<forall>x \<in> set A. sl_from x < sl_from s" "\<forall>x \<in> set B. sl_from s < sl_from x"
  shows "slice_emplace s (A @ B) = (A @ s # B, s)"
  using assms
proof (induction A)
  case Nil
  then show ?case by (cases B) auto
qed auto

lemma covered_append [simp]:
  "covered (xs @ ys) = covered xs \<union> covered ys" "covered [] = {}"
  "covered (x # xs) = {sl_from x..sl_till x} \<union> covered xs"
  by (auto simp: covered_def)

lemma true_slice_grow:
  assumes "true_slice T s" "T \<subseteq> T'" "T' - T \<subseteq> {lo..hi}" "sl_till s < lo \<or> hi < sl_from s"
  shows "true_slice T' s"
  using assms unfolding true_slice_def by (auto; force)

text \<open>
  The main lemma: a range whose messages are listed right makes the slices right about the set
  that contains them, and covers the range.
\<close>

lemma uniteOrEmplace_true:
  assumes slices: "true_slices T slices" and range: "f \<le> t"
    and messages: "set messages = T' \<inter> {f..t}" and T: "T \<subseteq> T'" "T' - T \<subseteq> {f..t}"
  shows "\<exists>A M r B added. slices = A @ M @ B \<and>
    uniteOrEmplace update messages f t slices = Some (A @ r # B,
      update\<lparr>su_messages := Some (sl_messages r), su_from := sl_from r, su_till := sl_till r\<rparr>, added) \<and>
    true_slices T' (A @ r # B) \<and> {sl_from r..sl_till r} = {f..t} \<union> covered M \<and>
    added = int (length (sl_messages r)) - (case M of [] \<Rightarrow> 0 | x # _ \<Rightarrow> int (length (sl_messages x))) \<and>
    (\<forall>x \<in> set M. f \<le> sl_till x \<and> sl_from x \<le> t)"
proof -
  let ?u = "lower_bound sl_till slices f" and ?v = "upper_bound sl_from slices t"
  define A where "A = take ?u slices"
  define M where "M = drop ?u (take ?v slices)"
  define B where "B = drop ?v slices"
  have apart: "slices_apart slices" and true: "\<forall>s \<in> set slices. true_slice T s"
    using slices by (auto simp: true_slices_def)
  have uv: "?u \<le> ?v" and split: "slices = A @ M @ B"
    and A: "\<forall>s \<in> set A. sl_till s < f" and M: "\<forall>s \<in> set M. f \<le> sl_till s \<and> sl_from s \<le> t"
    and B: "\<forall>s \<in> set B. t < sl_from s"
    using split_slices [OF apart range refl refl] by (auto simp: A_def M_def B_def)
  have apart_parts: "slices_apart A" "slices_apart M" "slices_apart B"
    "\<forall>a \<in> set A. \<forall>m \<in> set M. sl_till a < sl_from m" "\<forall>m \<in> set M. \<forall>b \<in> set B. sl_till m < sl_from b"
    "\<forall>a \<in> set A. \<forall>b \<in> set B. sl_till a < sl_from b"
    using apart unfolding split slices_apart_def by (auto simp: sorted_wrt_append)
  have result: "true_slices T' (A @ r # B)"
    if r: "true_slice T' r" "{sl_from r..sl_till r} = {f..t} \<union> covered M" for r
  proof -
    have ends: "sl_from r \<in> {f..t} \<union> covered M" "sl_till r \<in> {f..t} \<union> covered M"
      using r unfolding true_slice_def by (metis atLeastAtMost_iff order_refl)+
    have "\<forall>a \<in> set A. sl_till a < sl_from r" "\<forall>b \<in> set B. sl_till r < sl_from b"
      using ends A B apart_parts(4,5) range unfolding covered_def by fastforce+
    moreover have "\<forall>s \<in> set A \<union> set B. true_slice T' s"
      using true split A B true_slice_grow [OF _ T] by auto
    moreover have "sl_from r \<le> sl_till r" using r(1) by (simp add: true_slice_def)
    ultimately show ?thesis
      using apart_parts(1,3,6) r(1) unfolding true_slices_def slices_apart_def
      by (auto simp: sorted_wrt_append)
  qed
  have len: "length A = ?u" "length M = ?v - ?u" by (simp_all add: A_def M_def min_absorb2)
  show ?thesis
  proof (cases M)
    case Nil
    have "M = []" "?u = ?v" using Nil len(2) uv by simp_all
    let ?r = "\<lparr>sl_messages = flat_merge [] messages, sl_from = f, sl_till = t\<rparr>"
    have "\<forall>x \<in> set A. sl_from x < sl_from ?r" "\<forall>x \<in> set B. sl_from ?r < sl_from x"
      using A B apart_parts(1) range unfolding slices_apart_def by fastforce+
    then have "slice_emplace ?r slices = (A @ ?r # B, ?r)"
      using slice_emplace_between [of A ?r B] split \<open>M = []\<close> by simp
    then have "uniteOrEmplace update messages f t slices = Some (A @ ?r # B,
        update\<lparr>su_messages := Some (sl_messages ?r), su_from := sl_from ?r, su_till := sl_till ?r\<rparr>,
        int (length (sl_messages ?r)))"
      using range \<open>?u = ?v\<close> by (auto simp: uniteOrEmplace_def Let_def)
    moreover have "true_slice T' ?r" using messages range by (simp add: true_slice_def)
    ultimately show ?thesis using split result [of ?r] \<open>M = []\<close>
      by (intro exI [of _ A] exI [of _ "[]"] exI [of _ ?r] exI [of _ B]) simp
  next
    case (Cons x M')
    then have M': "slices = A @ x # M' @ B" "length M' = ?v - (?u + 1)" and less: "?u < ?v"
      using split len(2) by auto
    have "(A @ x # M' @ B) ! length A = x" "take (length M') (drop (length A + 1) (A @ x # M' @ B)) = M'"
      by simp_all
    then have nth: "slices ! ?u = x" and rest: "take (?v - (?u + 1)) (drop (?u + 1) slices) = M'"
      unfolding M'(1) [symmetric] len(1) M'(2) .
    have x: "true_slice T x" "f \<le> sl_till x" "sl_from x \<le> t" using true split M Cons by auto
    have "set (sl_messages x) \<union> set messages = T' \<inter> ({sl_from x..sl_till x} \<union> {f..t})"
      using x(1) messages T unfolding true_slice_def by auto
    then obtain s where s: "slice_merge messages f t x = Some s" "true_slice T' s"
      "{sl_from s..sl_till s} = {sl_from x..sl_till x} \<union> {f..t}"
      using slice_merge_true [of x f t messages T'] x range by (auto simp: true_slice_def)
    have "\<exists>r. unite_loop s M' = Some r \<and> true_slice T' r \<and>
        {sl_from r..sl_till r} = {sl_from s..sl_till s} \<union> covered M'"
      using s true split M Cons T range by (intro unite_loop_true [of T' s f t M' T]) auto
    then obtain r where r: "unite_loop s M' = Some r" "true_slice T' r"
      "{sl_from r..sl_till r} = {sl_from s..sl_till s} \<union> covered M'" by blast
    have eq: "{sl_from r..sl_till r} = {f..t} \<union> covered M" using r(3) s(3) Cons by auto
    have "uniteOrEmplace update messages f t slices = Some (A @ r # B,
        update\<lparr>su_messages := Some (sl_messages r), su_from := sl_from r, su_till := sl_till r\<rparr>,
        int (length (sl_messages r)) - int (length (sl_messages x)))"
      using range less s(1) r(1)
      by (auto simp: uniteOrEmplace_def uniteAndAdd_def nth rest [simplified] A_def B_def Let_def)
    then show ?thesis using split result [OF r(2) eq] eq Cons M
      by (intro exI [of _ A] exI [of _ M] exI [of _ r] exI [of _ B]) simp
  qed
qed

lemma addRangeItems_true:
  assumes slices: "true_slices T slices" and range: "f \<le> t" "f \<noteq> t \<or> messages \<noteq> []"
    and messages: "set messages = T' \<inter> {f..t}" and T: "T \<subseteq> T'" "T' - T \<subseteq> {f..t}"
  shows "\<exists>A M r B added. slices = A @ M @ B \<and>
    addRangeItemsAndCountNew update messages f t slices = Some (A @ r # B,
      update\<lparr>su_messages := Some (sl_messages r), su_from := sl_from r, su_till := sl_till r\<rparr>, added) \<and>
    true_slices T' (A @ r # B) \<and> {sl_from r..sl_till r} = {f..t} \<union> covered M \<and>
    added = int (length (sl_messages r)) - (case M of [] \<Rightarrow> 0 | x # _ \<Rightarrow> int (length (sl_messages x))) \<and>
    (\<forall>x \<in> set M. f \<le> sl_till x \<and> sl_from x \<le> t)"
proof -
  have "addRangeItemsAndCountNew update messages f t slices = uniteOrEmplace update messages f t slices"
    using range by (auto simp: addRangeItemsAndCountNew_def)
  then show ?thesis using uniteOrEmplace_true [OF slices range(1) messages T, of update] by simp
qed

definition true_update :: "('k::linorder) set \<Rightarrow> 'k ids_slice_update \<Rightarrow> bool" where
  "true_update T u \<longleftrightarrow>
    (case su_messages u of
       None \<Rightarrow> True
     | Some ms \<Rightarrow> ssorted ms \<and> set ms = T \<inter> {su_from u..su_till u} \<and> su_from u \<le> su_till u) \<and>
    (case su_count u of None \<Rightarrow> True | Some n \<Rightarrow> n = int (card T))"

lemma finite_server_ids: "T \<subseteq> {0<..<ServerMaxMsgId} \<Longrightarrow> finite T"
  by (rule finite_subset) auto

lemma true_slice_length:
  assumes "true_slice T s" "finite T"
  shows "length (sl_messages s) \<le> card T"
  using assms by (simp add: true_slice_def ssorted_length_card card_mono)

lemma true_slice_complete:
  assumes "true_slice T s" "T \<subseteq> {0<..<ServerMaxMsgId}" "card T \<le> length (sl_messages s)"
  shows "true_slice T (s\<lparr>sl_from := 0, sl_till := ServerMaxMsgId\<rparr>) \<and> length (sl_messages s) = card T"
proof -
  note fin = finite_server_ids [OF assms(2)]
  have "card (set (sl_messages s)) = card T" "set (sl_messages s) \<subseteq> T"
    using assms true_slice_length [OF assms(1) fin]
    by (auto simp: true_slice_def ssorted_length_card)
  then have "set (sl_messages s) = T" using card_subset_eq [OF fin] by blast
  then show ?thesis using assms(1,2) by (auto simp: true_slice_def ssorted_length_card)
qed

lemma addRange_true:
  assumes items: "addRangeItemsAndCountNew slice_update_new messages f t (il_slices l) =
      Some (slices, update, added)"
    and slices: "true_slices T slices" and T: "T \<subseteq> {0<..<ServerMaxMsgId}"
    and update: "true_update T (update\<lparr>su_count := None\<rparr>)"
    and guard: "count = None \<or> \<not> inc"
    and c: "c = (if count \<noteq> None then count
      else case il_count l of
             Some n \<Rightarrow> if inc \<and> added > 0 then Some (n + added) else Some n
           | None \<Rightarrow> None)" "c \<noteq> None \<longrightarrow> c = Some (int (card T))"
  shows "\<exists>l' u. addRange messages f t count inc l = Some l' \<and> true_list T l' \<and>
    covered slices \<inter> {0..ServerMaxMsgId} \<subseteq> covered (il_slices l') \<and>
    il_updates l' = il_updates l @ [u] \<and> true_update T u"
proof -
  note fin = finite_server_ids [OF T]
  define slices' where "slices' = (if length slices = 1 then
      (case c of
         Some n \<Rightarrow>
           if int (length (sl_messages (hd slices))) \<ge> n
           then [(hd slices)\<lparr>sl_from := 0, sl_till := ServerMaxMsgId\<rparr>] else slices
       | None \<Rightarrow> slices)
      else slices)"
  define c' where "c' = (if length slices' = 1 \<and> sl_from (hd slices') = 0 \<and>
      sl_till (hd slices') = ServerMaxMsgId
    then Some (int (length (sl_messages (hd slices')))) else c)"
  define c'' where "c'' = (case (c', su_messages update) of
      (Some n, Some ms) \<Rightarrow> Some (max n (int (length ms))) | _ \<Rightarrow> c')"
  have res: "addRange messages f t count inc l = Some \<lparr>il_count = c'', il_slices = slices',
      il_updates = il_updates l @ [update\<lparr>su_count := c''\<rparr>]\<rparr>"
    using guard by (simp only: addRange_def items option.simps prod.case Let_def c'_def c''_def
        slices'_def c(1) not_not if_False simp_thms)
  have slices': "true_slices T slices' \<and> covered slices \<inter> {0..ServerMaxMsgId} \<subseteq> covered slices'"
  proof (cases "length slices = 1 \<and> c \<noteq> None \<and> card T \<le> length (sl_messages (hd slices))")
    case True
    then obtain x where x: "slices = [x]" by (auto simp: length_Suc_conv)
    then have "true_slice T x" using slices by (simp add: true_slices_def)
    then have "true_slice T (x\<lparr>sl_from := 0, sl_till := ServerMaxMsgId\<rparr>)"
      using true_slice_complete [OF _ T] True x by simp
    moreover have "slices' = [x\<lparr>sl_from := 0, sl_till := ServerMaxMsgId\<rparr>]"
      using True x c(2) by (auto simp: slices'_def)
    ultimately show ?thesis by (auto simp: true_slices_def slices_apart_def)
  next
    case False
    then have "slices' = slices" using c(2) by (auto simp: slices'_def)
    then show ?thesis using slices by simp
  qed
  have c': "c' \<noteq> None \<longrightarrow> c' = Some (int (card T))"
  proof (cases "length slices' = 1 \<and> sl_from (hd slices') = 0 \<and> sl_till (hd slices') = ServerMaxMsgId")
    case True
    then obtain x where x: "slices' = [x]" by (auto simp: length_Suc_conv)
    then have "set (sl_messages x) = T" "ssorted (sl_messages x)"
      using slices' True T by (auto simp: true_slices_def true_slice_def)
    then show ?thesis using True x by (simp add: c'_def ssorted_length_card)
  next
    case False
    then show ?thesis using c(2) by (auto simp: c'_def)
  qed
  have ms: "int (length ms) \<le> int (card T)" if "su_messages update = Some ms" for ms
  proof -
    have "ssorted ms" "set ms \<subseteq> T" using update that by (auto simp: true_update_def)
    then show ?thesis using fin by (simp add: ssorted_length_card card_mono)
  qed
  have "c'' \<noteq> None \<longrightarrow> c'' = Some (int (card T))"
    using c' ms by (auto simp: c''_def split: option.splits)
  then show ?thesis
    unfolding res using slices' T update
    by (auto simp: true_list_def true_update_def split: option.splits)
qed

lemma true_update_None: "true_update T (slice_update_new\<lparr>su_count := None\<rparr>)"
  by (simp add: true_update_def slice_update_new_def)

lemma addSlice_keeps_true:
  assumes "true_list T l" "f \<le> t" "set messages = T \<inter> {f..t}"
    and "count = None \<or> count = Some (int (card T))"
  shows "\<exists>l' u. addSlice messages f t count l = Some l' \<and> true_list T l' \<and>
    il_updates l' = il_updates l @ [u] \<and> true_update T u \<and>
    (f < t \<or> messages \<noteq> [] \<longrightarrow> {f..t} \<inter> {0..ServerMaxMsgId} \<subseteq> covered (il_slices l')) \<and>
    covered (il_slices l) \<inter> {0..ServerMaxMsgId} \<subseteq> covered (il_slices l')"
proof -
  have T: "T \<subseteq> {0<..<ServerMaxMsgId}" "true_slices T (il_slices l)"
    and count: "il_count l \<noteq> None \<longrightarrow> il_count l = Some (int (card T))"
    using assms(1) by (auto simp: true_list_def)
  have c: "(if count \<noteq> None then count
      else case il_count l of
             Some n \<Rightarrow> if False \<and> added > 0 then Some (n + added) else Some n
           | None \<Rightarrow> None) \<noteq> None \<longrightarrow>
    (if count \<noteq> None then count
      else case il_count l of
             Some n \<Rightarrow> if False \<and> added > 0 then Some (n + added) else Some n
           | None \<Rightarrow> None) = Some (int (card T))" for added :: int
    using assms(4) count by (auto split: option.splits)
  show ?thesis
  proof (cases "f = t \<and> messages = []")
    case True
    then have items: "addRangeItemsAndCountNew slice_update_new messages f t (il_slices l) =
        Some (il_slices l, slice_update_new, 0)"
      by (simp add: addRangeItemsAndCountNew_def)
    show ?thesis
      using addRange_true [OF items T(2,1) true_update_None _ refl, of count False] c [of 0] True
      by (simp add: addSlice_def) blast
  next
    case False
    then have "f \<noteq> t \<or> messages \<noteq> []" by blast
    from addRangeItems_true [OF T(2) assms(2) this assms(3), of slice_update_new]
    obtain A M r B added where items: "il_slices l = A @ M @ B"
      "addRangeItemsAndCountNew slice_update_new messages f t (il_slices l) = Some (A @ r # B,
        slice_update_new\<lparr>su_messages := Some (sl_messages r), su_from := sl_from r,
          su_till := sl_till r\<rparr>, added)"
      "true_slices T (A @ r # B)" "{sl_from r..sl_till r} = {f..t} \<union> covered M"
      by auto
    have "true_update T (slice_update_new\<lparr>su_messages := Some (sl_messages r), su_from := sl_from r,
          su_till := sl_till r, su_count := None\<rparr>)"
      using items(3) by (simp add: true_update_def true_slices_def true_slice_def)
    from addRange_true [OF items(2,3) T(1) _ _ refl, of count False] this c [of added]
    obtain l' u where l': "addRange messages f t count False l = Some l'" "true_list T l'"
      "covered (A @ r # B) \<inter> {0..ServerMaxMsgId} \<subseteq> covered (il_slices l')"
      "il_updates l' = il_updates l @ [u]" "true_update T u"
      by auto
    have "covered (A @ r # B) = covered (il_slices l) \<union> {f..t}"
      unfolding items(1) by (simp add: items(4)) blast
    with l' show ?thesis by (auto simp: addSlice_def)
  qed
qed

lemma new_message_added:
  assumes T: "true_slices T (A @ M @ B)" and new: "\<forall>x \<in> T. x < m" and le: "m \<le> t"
    and r: "true_slice (insert m T) r" "{sl_from r..sl_till r} = {m..t} \<union> covered M"
    and M: "\<forall>x \<in> set M. m \<le> sl_till x \<and> sl_from x \<le> t"
  shows "int (length (sl_messages r)) - (case M of [] \<Rightarrow> 0 | x # _ \<Rightarrow> int (length (sl_messages x))) = 1"
proof -
  have r': "ssorted (sl_messages r)" "set (sl_messages r) = insert m T \<inter> ({m..t} \<union> covered M)"
    using r by (simp_all add: true_slice_def)
  have above: "T \<inter> {m..t} = {}" using new by (force dest: leD)
  show ?thesis
  proof (cases M)
    case Nil
    have "set (sl_messages r) = {m}" using r'(2) Nil above le by auto
    then have "length (sl_messages r) = 1" using r'(1) by (simp add: ssorted_length_card)
    then show ?thesis using Nil by simp
  next
    case (Cons x M')
    have x: "true_slice T x" using T Cons by (auto simp: true_slices_def)
    have "m \<le> sl_till x" using M Cons by simp
    moreover have "\<forall>y \<in> set M'. sl_till x < sl_from y"
      using T Cons by (simp add: true_slices_def slices_apart_def sorted_wrt_append)
    ultimately have "T \<inter> covered M' = {}" using new by (fastforce simp: covered_def)
    then have "T \<inter> covered M = set (sl_messages x)" using Cons x by (auto simp: true_slice_def)
    then have "set (sl_messages r) = insert m (set (sl_messages x))"
      using r'(2) above le by auto
    moreover have "m \<notin> set (sl_messages x)" using x new by (auto simp: true_slice_def)
    moreover have "ssorted (sl_messages x)" using x by (simp add: true_slice_def)
    ultimately have "length (sl_messages r) = Suc (length (sl_messages x))"
      using r'(1) by (simp add: ssorted_length_card)
    then show ?thesis using Cons by simp
  qed
qed

lemma addNew_keeps_true:
  assumes "true_list T l" "0 < m" "m < ServerMaxMsgId" "\<forall>x \<in> T. x < m"
  shows "\<exists>l' u. addNew m l = Some l' \<and> true_list (insert m T) l' \<and>
    il_updates l' = il_updates l @ [u] \<and> true_update (insert m T) u \<and>
    {m..ServerMaxMsgId} \<subseteq> covered (il_slices l') \<and>
    covered (il_slices l) \<inter> {0..ServerMaxMsgId} \<subseteq> covered (il_slices l')"
proof -
  let ?T = "insert m T"
  have T: "T \<subseteq> {0<..<ServerMaxMsgId}" "true_slices T (il_slices l)"
    and count: "il_count l \<noteq> None \<longrightarrow> il_count l = Some (int (card T))"
    using assms(1) by (auto simp: true_list_def)
  have T': "?T \<subseteq> {0<..<ServerMaxMsgId}" using T(1) assms(2,3) by auto
  have range: "m \<le> ServerMaxMsgId" "m \<noteq> ServerMaxMsgId \<or> [m] \<noteq> []"
    "set [m] = ?T \<inter> {m..ServerMaxMsgId}" "T \<subseteq> ?T" "?T - T \<subseteq> {m..ServerMaxMsgId}"
    using assms(3,4) by auto
  from addRangeItems_true [OF T(2) range, of slice_update_new]
  obtain A M r B added where items: "il_slices l = A @ M @ B"
    "addRangeItemsAndCountNew slice_update_new [m] m ServerMaxMsgId (il_slices l) = Some (A @ r # B,
      slice_update_new\<lparr>su_messages := Some (sl_messages r), su_from := sl_from r,
        su_till := sl_till r\<rparr>, added)"
    "true_slices ?T (A @ r # B)" "{sl_from r..sl_till r} = {m..ServerMaxMsgId} \<union> covered M"
    "added = int (length (sl_messages r)) - (case M of [] \<Rightarrow> 0 | x # _ \<Rightarrow> int (length (sl_messages x)))"
    "\<forall>x \<in> set M. m \<le> sl_till x \<and> sl_from x \<le> ServerMaxMsgId"
    by auto
  have r: "true_slice ?T r" "ssorted (sl_messages r)"
    "set (sl_messages r) = ?T \<inter> ({m..ServerMaxMsgId} \<union> covered M)"
    using items(3) items(4) by (auto simp: true_slices_def true_slice_def)
  have fin: "finite T" by (rule finite_server_ids [OF T(1)])
  have added: "added = 1"
    using new_message_added [of T A M B m ServerMaxMsgId r] T(2) items assms(4) range(1) r(1) by simp
  have "m \<notin> T" using assms(4) by auto
  then have c: "(case il_count l of
             Some n \<Rightarrow> if True \<and> added > 0 then Some (n + added) else Some n
           | None \<Rightarrow> None) \<noteq> None \<longrightarrow>
      (case il_count l of
             Some n \<Rightarrow> if True \<and> added > 0 then Some (n + added) else Some n
           | None \<Rightarrow> None) = Some (int (card ?T))"
    using count fin added by (auto split: option.splits)
  have "true_update ?T (slice_update_new\<lparr>su_messages := Some (sl_messages r), su_from := sl_from r,
        su_till := sl_till r, su_count := None\<rparr>)"
    using r(1) by (simp add: true_update_def true_slice_def)
  from addRange_true [OF items(2,3) T' _ _ refl, of None True] this c
  obtain l' u where l': "addRange [m] m ServerMaxMsgId None True l = Some l'" "true_list ?T l'"
    "covered (A @ r # B) \<inter> {0..ServerMaxMsgId} \<subseteq> covered (il_slices l')"
    "il_updates l' = il_updates l @ [u]" "true_update ?T u"
    by auto
  have "covered (A @ r # B) = covered (il_slices l) \<union> {m..ServerMaxMsgId}"
    unfolding items(1) by (simp add: items(4)) blast
  with l' assms(2) show ?thesis by (auto simp: addNew_def)
qed

text \<open>What is fired, in detail; the count is known afterwards when it was before.\<close>

lemma addRange_fires:
  assumes "addRangeItemsAndCountNew slice_update_new messages f t (il_slices l) = Some (slices, update, added)"
    and "addRange messages f t count inc l = Some l'"
  shows "il_updates l' = il_updates l @ [update\<lparr>su_count := il_count l'\<rparr>]"
    and "il_count l' = None \<Longrightarrow> il_count l = None"
  using assms unfolding addRange_def Let_def by (auto split: if_splits option.splits)

text \<open>The update fired for a new last message lists everything up to the end of the list.\<close>

lemma addNew_fires:
  assumes "true_list T l" "0 < m" "m < ServerMaxMsgId" "\<forall>x \<in> T. x < m"
    and "covered (il_slices l) \<subseteq> {..ServerMaxMsgId}"
  shows "\<exists>l' u. addNew m l = Some l' \<and> il_updates l' = il_updates l @ [u] \<and> true_update (insert m T) u \<and>
    su_messages u \<noteq> None \<and> su_from u \<le> m \<and> su_till u = ServerMaxMsgId \<and> su_count u = il_count l' \<and>
    (il_count l' = None \<longrightarrow> il_count l = None)"
proof -
  have T: "true_slices T (il_slices l)" using assms(1) by (simp add: true_list_def)
  have range: "m \<le> ServerMaxMsgId" "m \<noteq> ServerMaxMsgId \<or> [m] \<noteq> []"
    "set [m] = insert m T \<inter> {m..ServerMaxMsgId}" "T \<subseteq> insert m T" "insert m T - T \<subseteq> {m..ServerMaxMsgId}"
    using assms(3,4) by auto
  from addRangeItems_true [OF T range, of slice_update_new]
  obtain A M r B added where items: "il_slices l = A @ M @ B"
    "addRangeItemsAndCountNew slice_update_new [m] m ServerMaxMsgId (il_slices l) = Some (A @ r # B,
      slice_update_new\<lparr>su_messages := Some (sl_messages r), su_from := sl_from r, su_till := sl_till r\<rparr>, added)"
    "{sl_from r..sl_till r} = {m..ServerMaxMsgId} \<union> covered M"
    by auto
  have "covered M \<subseteq> {..ServerMaxMsgId}" using assms(5) unfolding items(1) covered_def by auto
  then have "{sl_from r..sl_till r} \<subseteq> {..ServerMaxMsgId}" "ServerMaxMsgId \<in> {sl_from r..sl_till r}"
      "m \<in> {sl_from r..sl_till r}"
    unfolding items(3) using assms(3) by auto
  then have r: "sl_till r = ServerMaxMsgId" "sl_from r \<le> m" by auto
  obtain l' u where l': "addNew m l = Some l'" "il_updates l' = il_updates l @ [u]" "true_update (insert m T) u"
    using addNew_keeps_true [OF assms(1-4)] by blast
  note fires = addRange_fires [OF items(2) l'(1) [unfolded addNew_def]]
  have "u = slice_update_new\<lparr>su_messages := Some (sl_messages r), su_from := sl_from r, su_till := sl_till r,
      su_count := il_count l'\<rparr>"
    using fires(1) l'(2) by simp
  then show ?thesis using l' r fires(2) by auto
qed

section \<open>Removing keeps the knowledge right\<close>

lemma bound_split:
  assumes "slices_apart slices" "i = lower_bound sl_till slices m"
  shows "i < length slices \<Longrightarrow> \<exists>A B. slices = A @ (slices ! i) # B \<and> length A = i \<and>
      (\<forall>s \<in> set A. sl_till s < m) \<and> m \<le> sl_till (slices ! i) \<and>
      (\<forall>s \<in> set B. sl_till (slices ! i) < sl_from s)"
    and "\<not> i < length slices \<Longrightarrow> \<forall>s \<in> set slices. sl_till s < m"
proof -
  note split = split_lower_bound [OF slices_apart_sorted(1) [OF assms(1)], of m, folded assms(2)]
  show "\<exists>A B. slices = A @ (slices ! i) # B \<and> length A = i \<and>
      (\<forall>s \<in> set A. sl_till s < m) \<and> m \<le> sl_till (slices ! i) \<and>
      (\<forall>s \<in> set B. sl_till (slices ! i) < sl_from s)" if i: "i < length slices"
  proof -
    have drop: "drop i slices = slices ! i # drop (Suc i) slices" using i by (rule Cons_nth_drop_Suc [symmetric])
    have eq: "slices = take i slices @ slices ! i # drop (Suc i) slices"
      using i by (rule id_take_nth_drop)
    have "\<forall>s \<in> set (take i slices). sl_till s < m" unfolding split(1) by simp
    moreover have "\<not> sl_till (slices ! i) < m"
      using split(2) drop by (metis (mono_tags, lifting) filter_eq_ConsD)
    moreover have "slices_apart (take i slices @ slices ! i # drop (Suc i) slices)"
      using assms(1) eq by simp
    then have "\<forall>s \<in> set (drop (Suc i) slices). sl_till (slices ! i) < sl_from s"
      by (simp add: slices_apart_def sorted_wrt_append)
    ultimately show ?thesis using eq i
      by (intro exI [of _ "take i slices"] exI [of _ "drop (Suc i) slices"]) (simp add: min_absorb2)
  qed
  show "\<forall>s \<in> set slices. sl_till s < m" if i: "\<not> i < length slices"
  proof -
    have "take i slices = slices" using i by simp
    then show ?thesis using split(1) by (metis (mono_tags, lifting) mem_Collect_eq set_filter)
  qed
qed

lemma true_slice_remove_outside:
  "true_slice T s \<Longrightarrow> m < sl_from s \<or> sl_till s < m \<Longrightarrow> true_slice (T - {m}) s"
  by (auto simp: true_slice_def)

lemma remove_slices_true:
  assumes T: "true_slices T slices" and i: "i = lower_bound sl_till slices m"
    and slices': "slices' = (if i < length slices \<and> sl_from (slices ! i) \<le> m
      then slices[i := (slices ! i)\<lparr>sl_messages := flat_remove m (sl_messages (slices ! i))\<rparr>]
      else slices)"
  shows "true_slices (T - {m}) slices' \<and> covered slices' = covered slices"
proof (cases "i < length slices")
  case False
  have apart: "slices_apart slices" using T by (simp add: true_slices_def)
  have "\<forall>s \<in> set slices. sl_till s < m" "slices' = slices"
    using bound_split(2) [OF apart i] False by (simp_all add: slices')
  then show ?thesis using T by (auto simp: true_slices_def intro!: true_slice_remove_outside)
next
  case True
  have apart: "slices_apart slices" using T by (simp add: true_slices_def)
  define x where "x = slices ! i"
  obtain A B where AB: "slices = A @ x # B" "length A = i" "\<forall>s \<in> set A. sl_till s < m"
    "m \<le> sl_till x" "\<forall>s \<in> set B. sl_till x < sl_from s"
    using bound_split(1) [OF apart i True] unfolding x_def by blast
  have "\<forall>s \<in> set B. m < sl_from s" using AB(4,5) by (meson le_less_trans)
  then have true: "\<forall>s \<in> set A \<union> set B. true_slice (T - {m}) s" "true_slice T x"
    using T AB(1,3) by (auto simp: true_slices_def intro!: true_slice_remove_outside)
  show ?thesis
  proof (cases "sl_from x \<le> m")
    case True
    let ?x = "x\<lparr>sl_messages := flat_remove m (sl_messages x)\<rparr>"
    have "slices' = A @ ?x # B"
      using True by (simp add: slices' AB(1) flip: AB(2))
    moreover have "true_slice (T - {m}) ?x" using true(2) by (auto simp: true_slice_def)
    moreover have "slices_apart (A @ ?x # B)"
      using apart unfolding AB(1) by (auto simp: slices_apart_def sorted_wrt_append)
    ultimately show ?thesis using true(1) unfolding AB(1) by (auto simp: true_slices_def)
  next
    case False
    then have "slices' = slices" by (simp add: slices' flip: x_def)
    moreover have "true_slice (T - {m}) x"
      using true(2) False by (intro true_slice_remove_outside) auto
    ultimately show ?thesis using true(1) apart AB(1) by (auto simp: true_slices_def)
  qed
qed

lemma card_remove_int:
  "finite T \<Longrightarrow> m \<in> T \<Longrightarrow> int (card (T - {m})) = int (card T) - 1"
  by (metis card_Suc_Diff1 of_nat_Suc add_diff_cancel_left' diff_eq_eq add.commute)

lemma removeOne_keeps_true:
  assumes "true_list T l" "m \<in> T"
  shows "true_list (T - {m}) (list_removeOne m l) \<and>
    covered (il_slices (list_removeOne m l)) = covered (il_slices l)"
proof -
  have T: "T \<subseteq> {0<..<ServerMaxMsgId}" "true_slices T (il_slices l)"
    and count: "\<forall>n. il_count l = Some n \<longrightarrow> n = int (card T)"
    using assms(1) by (auto simp: true_list_def)
  have "true_slices (T - {m}) (il_slices (list_removeOne m l)) \<and>
      covered (il_slices (list_removeOne m l)) = covered (il_slices l)"
    by (rule remove_slices_true [OF T(2) refl]) (simp add: list_removeOne_def Let_def)
  then show ?thesis
    using T(1) count card_remove_int [OF finite_server_ids [OF T(1)] assms(2)]
    by (auto simp: true_list_def list_removeOne_def Let_def)
qed

lemma removeAll_true: "true_list {} (list_removeAll l)"
  by (simp add: true_list_def list_removeAll_def true_slices_def slices_apart_def true_slice_def)

lemma true_slice_below:
  assumes "true_slice T s" "T \<subseteq> T'" "\<forall>x \<in> T' - T. sl_till s < x"
  shows "true_slice T' s"
proof -
  have "x \<in> T" if "x \<in> T'" "x \<le> sl_till s" for x
    using assms(3) that by (meson DiffI leD)
  then have "T' \<inter> {sl_from s..sl_till s} = T \<inter> {sl_from s..sl_till s}" using assms(2) by auto
  then show ?thesis using assms(1) by (simp add: true_slice_def)
qed

text \<open>
  After \<open>invalidateBottom\<close> nothing is claimed beyond the last message of the last slice, so the
  knowledge stays right when messages appear there.
\<close>

lemma invalidateBottom_true:
  assumes "true_list T l" "T \<subseteq> T'" "T' \<subseteq> {0<..<ServerMaxMsgId}" "\<forall>x \<in> T' - T. \<forall>y \<in> T. y < x"
    and "\<forall>s \<in> set (il_slices l). \<forall>x \<in> T' - T. sl_from s < x"
    and "\<forall>s \<in> set (il_slices l). sl_till s \<noteq> ServerMaxMsgId \<longrightarrow> (\<forall>x \<in> T' - T. sl_till s < x)"
  shows "true_list T' (list_invalidateBottom l)"
proof -
  let ?slices = "il_slices l"
  have T: "true_slices T ?slices" using assms(1) by (simp add: true_list_def)
  have keep: "true_slice T' s" if "s \<in> set ?slices" "sl_till s \<noteq> ServerMaxMsgId" for s
  proof -
    have "true_slice T s" using T that by (simp add: true_slices_def)
    moreover have "\<forall>x \<in> T' - T. sl_till s < x" using assms(6) that by blast
    ultimately show ?thesis using assms(2) true_slice_below by blast
  qed
  have "true_slices T' (il_slices (list_invalidateBottom l))"
  proof (cases "?slices = []")
    case True
    then show ?thesis by (simp add: list_invalidateBottom_def true_slices_def slices_apart_def)
  next
    case False
    then obtain ss x where ss: "?slices = ss @ [x]" by (metis append_butlast_last_id)
    have x: "true_slice T x" using T ss by (simp add: true_slices_def)
    have apart: "slices_apart (ss @ [x])" using T ss by (simp add: true_slices_def)
    have x_less: "\<forall>s \<in> set ss. sl_till s < sl_from x"
      using apart by (simp add: slices_apart_def sorted_wrt_append)
    have below: "\<forall>s \<in> set ss. sl_till s \<noteq> ServerMaxMsgId \<or> ServerMaxMsgId < sl_from x"
      using x_less by auto
    have rest: "\<forall>s \<in> set ss. true_slice T' s"
    proof
      fix s
      assume s: "s \<in> set ss"
      have "true_slice T s" using T ss s by (simp add: true_slices_def)
      moreover have "\<forall>y \<in> T' - T. sl_from x < y" using assms(5) ss by simp
      then have "\<forall>y \<in> T' - T. sl_till s < y" using x_less s by (meson less_trans)
      ultimately show "true_slice T' s" using assms(2) true_slice_below by blast
    qed
    show ?thesis
    proof (cases "sl_till x = ServerMaxMsgId")
      case False
      then show ?thesis using rest keep [of x] apart ss
        by (simp add: list_invalidateBottom_def true_slices_def Let_def)
    next
      case True
      define e where "e = (if sl_messages x = [] then sl_from x else last (sl_messages x))"
      have e: "sl_from x \<le> e" "e \<le> sl_till x"
        using x unfolding e_def true_slice_def by (auto dest!: last_in_set)
      have top: "\<forall>y \<in> set (sl_messages x). y \<le> e"
      proof
        fix y
        assume y: "y \<in> set (sl_messages x)"
        then obtain ys z where z: "sl_messages x = ys @ [z]" by (metis append_butlast_last_id empty_iff empty_set)
        have "ssorted (ys @ [z])" using x z by (simp add: true_slice_def)
        then show "y \<le> e" using y z by (auto simp: e_def sorted_wrt_append)
      qed
      have "T' \<inter> {sl_from x..e} = T \<inter> {sl_from x..sl_till x}"
      proof -
        have "y \<notin> T' \<or> y \<in> T" if "y \<in> {sl_from x..e}" for y
        proof (rule ccontr)
          assume "\<not> (y \<notin> T' \<or> y \<in> T)"
          then have y: "y \<in> T' - T" by simp
          then have "sl_from x < y" "\<forall>z \<in> T. z < y" using assms(4,5) ss by auto
          then have "e < y"
            using x by (cases "sl_messages x = []") (auto simp: e_def true_slice_def dest!: last_in_set)
          with that show False by simp
        qed
        moreover have "y \<le> e" if "y \<in> T" "y \<in> {sl_from x..sl_till x}" for y
          using top x that by (auto simp: true_slice_def)
        ultimately show ?thesis using e assms(2) by fastforce
      qed
      then have "true_slice T' (x\<lparr>sl_till := e\<rparr>)" using x e(1) by (simp add: true_slice_def)
      moreover have "slices_apart (ss @ [x\<lparr>sl_till := e\<rparr>])"
        using apart e(1) by (auto simp: slices_apart_def sorted_wrt_append)
      moreover have "il_slices (list_invalidateBottom l) = ss @ [x\<lparr>sl_till := e\<rparr>]"
        using True ss by (simp add: list_invalidateBottom_def Let_def e_def)
      ultimately show ?thesis using rest by (simp add: true_slices_def)
    qed
  qed
  then show ?thesis using assms(3) by (simp add: true_list_def list_invalidateBottom_def Let_def)
qed

section \<open>Answers\<close>

text \<open>
  A window of the list \<open>L\<close> of all messages: consecutive messages of it, with the right number
  of messages before, after and in all, where these are given.
\<close>

definition right_window ::
  "('k::linorder) list \<Rightarrow> 'k list \<Rightarrow> int option \<Rightarrow> int option \<Rightarrow> int option \<Rightarrow> bool" where
  "right_window L ids count before after \<longleftrightarrow>
    (\<exists>a b. L = a @ ids @ b \<and>
      (before \<noteq> None \<longrightarrow> before = Some (int (length a))) \<and>
      (after \<noteq> None \<longrightarrow> after = Some (int (length b))) \<and>
      (count \<noteq> None \<longrightarrow> count = Some (int (length L))))"

lemma ssorted_interval_split:
  assumes "ssorted (L :: 'k::linorder list)" "ssorted ms" "set ms = set L \<inter> {f..t}" "f \<le> t"
  shows "L = filter (\<lambda>x. x < f) L @ ms @ filter (\<lambda>x. t < x) L"
proof (rule ssorted_eqI)
  show "ssorted (filter (\<lambda>x. x < f) L @ ms @ filter (\<lambda>x. t < x) L)"
    using assms by (auto simp: sorted_wrt_append sorted_wrt_filter)
  show "set L = set (filter (\<lambda>x. x < f) L @ ms @ filter (\<lambda>x. t < x) L)"
    by (auto simp: assms(3))
qed (rule assms(1))

lemma flat_merge_ssorted: "ssorted xs \<Longrightarrow> flat_merge [] xs = xs"
  by (rule ssorted_eqI) auto

lemma ssorted_take_drop: "ssorted xs \<Longrightarrow> ssorted (take n (drop m xs))"
  by (simp add: sorted_wrt_take sorted_wrt_drop)

lemma lower_bound_id:
  assumes "ssorted (ms :: 'k::linorder list)"
  shows "\<forall>x \<in> set (take (lower_bound (\<lambda>m. m) ms k) ms). x < k"
    "\<forall>x \<in> set (drop (lower_bound (\<lambda>m. m) ms k) ms). k \<le> x"
  using split_lower_bound [of "\<lambda>m. m" ms k] assms by auto

lemma query_window_right:
  assumes L: "ssorted L" "set L = T" "T \<subseteq> {lo..hi}" and s: "true_slice T s"
    and count: "count = None \<or> count = Some (int (length L))"
    and limits: "0 \<le> iq_limitBefore q" "0 \<le> iq_limitAfter q"
  shows "let r = query_window lo hi count q s
    in right_window L (ir_messageIds r) (ir_count r) (ir_skippedBefore r) (ir_skippedAfter r)"
proof -
  define ms where "ms = sl_messages s"
  define p where "p = lower_bound (\<lambda>m. m) ms (iq_aroundId q)"
  define m where "m = p - nat (min (int p) (iq_limitBefore q))"
  define n where "n = nat (min (int p) (iq_limitBefore q) + min (int (length ms) - int p) (iq_limitAfter q + 1))"
  define ids where "ids = take n (drop m ms)"
  define a where "a = filter (\<lambda>x. x < sl_from s) L"
  define b where "b = filter (\<lambda>x. sl_till s < x) L"
  have ms: "ssorted ms" "set ms = set L \<inter> {sl_from s..sl_till s}" "sl_from s \<le> sl_till s"
    using s L(2) by (auto simp: true_slice_def ms_def)
  have L_eq: "L = a @ ms @ b" unfolding a_def b_def by (rule ssorted_interval_split [OF L(1) ms])
  have p: "p \<le> length ms" by (simp add: p_def)
  have mn: "m \<le> p" "p \<le> m + n" "m + n \<le> length ms"
    using p limits unfolding m_def n_def by linarith+
  have len: "length ids = n" using mn by (simp add: ids_def)
  have ids: "ms = take m ms @ ids @ drop (m + n) ms"
    by (simp add: ids_def) (metis add.commute append_take_drop_id drop_drop)
  have window: "L = (a @ take m ms) @ ids @ (drop (m + n) ms @ b)"
    using L_eq ids by (metis append_assoc)
  have total: "int (length L) = int (length a) + int m + int n + int (length ms - (m + n)) + int (length b)"
    using arg_cong [OF window, of length] mn len by simp
  have a0: "sl_from s = lo \<Longrightarrow> a = []"
    using L(2,3) by (fastforce simp: a_def filter_empty_conv not_less)
  have b0: "sl_till s = hi \<Longrightarrow> b = []"
    using L(2,3) by (fastforce simp: b_def filter_empty_conv not_less)
  have before: "int p - min (int p) (iq_limitBefore q) = int m"
    using limits unfolding m_def by linarith
  have after: "int (length ms) - int p - min (int (length ms) - int p) (iq_limitAfter q + 1)
      = int (length ms - (m + n))"
    using p limits unfolding m_def n_def by linarith
  have "nat (int p - min (int p) (iq_limitBefore q)) = m" using before by simp
  then have merged: "flat_merge [] (take (nat (min (int p) (iq_limitBefore q) +
      min (int (length ms) - int p) (iq_limitAfter q + 1)))
      (drop (nat (int p - min (int p) (iq_limitBefore q))) ms)) = ids"
    using ms(1) by (simp add: ids_def n_def flat_merge_ssorted ssorted_take_drop)
  let ?sb = "if sl_from s = lo then Some (int m) else None"
  let ?sa = "if sl_till s = hi then Some (int (length ms - (m + n))) else None"
  have r: "query_window lo hi count q s = \<lparr>ir_count = count,
      ir_skippedBefore = (case (count, ?sb, ?sa) of
          (Some n, None, Some after) \<Rightarrow> Some (n - after - int (length ids)) | _ \<Rightarrow> ?sb),
      ir_skippedAfter = (case (count, ?sb, ?sa) of
          (Some n, Some before, None) \<Rightarrow> Some (n - before - int (length ids)) | _ \<Rightarrow> ?sa),
      ir_messageIds = ids\<rparr>"
    unfolding query_window_def Let_def ms_def [symmetric] p_def [symmetric]
    unfolding merged unfolding before after ..
  have "right_window L ids count (ir_skippedBefore (query_window lo hi count q s))
      (ir_skippedAfter (query_window lo hi count q s))"
    unfolding right_window_def
    by (intro exI [of _ "a @ take m ms"] exI [of _ "drop (m + n) ms @ b"])
      (use window count a0 b0 total len mn in \<open>auto simp: r\<close>)
  then show ?thesis by (simp add: r Let_def)
qed

text \<open>
  The answer itself: of the messages of \<open>L\<close> that the slice of the range \<open>f\<close> to \<open>t\<close> covers,
  the last \<open>limitBefore\<close> below \<open>aroundId\<close> and the first \<open>limitAfter + 1\<close> from it on, or all
  there are.
\<close>

definition known_window :: "('k::linorder) list \<Rightarrow> 'k \<Rightarrow> 'k \<Rightarrow> 'k ids_query \<Rightarrow> 'k list" where
  "known_window L f t q =
    (let below = filter (\<lambda>x. f \<le> x \<and> x < iq_aroundId q) L;
         above = filter (\<lambda>x. iq_aroundId q \<le> x \<and> x \<le> t) L
     in drop (length below - nat (iq_limitBefore q)) below @ take (nat (iq_limitAfter q + 1)) above)"

lemma take_drop_window:
  "take (min p b + min (length ms - p) e) (drop (p - min p b) ms)
    = drop (length (take p ms) - b) (take p ms) @ take e (drop p ms)" if "p \<le> length ms"
proof -
  have "drop (p - min p b) ms = drop (p - min p b) (take p ms) @ drop p ms"
    using that by (metis append_take_drop_id diff_le_self drop_append drop_drop length_take min.absorb2
        diff_is_0_eq drop_0)
  moreover have "length (drop (p - min p b) (take p ms)) = min p b" using that by simp
  moreover have "p - min p b = length (take p ms) - b" using that by simp
  ultimately show ?thesis by (simp add: min_def)
qed

lemma query_window_ids:
  assumes L: "ssorted L" and s: "true_slice (set L) s" and a: "sl_from s \<le> iq_aroundId q" "iq_aroundId q \<le> sl_till s"
    and limits: "0 \<le> iq_limitBefore q" "0 \<le> iq_limitAfter q"
  shows "ir_messageIds (query_window lo hi count q s) = known_window L (sl_from s) (sl_till s) q"
    and "ir_count (query_window lo hi count q s) = count"
    and "sl_from s = lo \<Longrightarrow> ir_skippedBefore (query_window lo hi count q s) \<noteq> None"
    and "sl_till s = hi \<Longrightarrow> ir_skippedAfter (query_window lo hi count q s) \<noteq> None"
    and "count \<noteq> None \<Longrightarrow> sl_from s = lo \<or> sl_till s = hi \<Longrightarrow>
      ir_skippedBefore (query_window lo hi count q s) \<noteq> None \<and> ir_skippedAfter (query_window lo hi count q s) \<noteq> None"
proof -
  define ms where "ms = sl_messages s"
  define p where "p = lower_bound (\<lambda>m. m) ms (iq_aroundId q)"
  define b where "b = nat (iq_limitBefore q)"
  define e where "e = nat (iq_limitAfter q + 1)"
  have ms: "ssorted ms" "set ms = set L \<inter> {sl_from s..sl_till s}"
    using s by (auto simp: true_slice_def ms_def)
  have p: "p \<le> length ms" by (simp add: p_def)
  have "nat (int p - min (int p) (iq_limitBefore q)) = p - min p b"
    "nat (min (int p) (iq_limitBefore q) + min (int (length ms) - int p) (iq_limitAfter q + 1))
      = min p b + min (length ms - p) e"
    using limits p unfolding b_def e_def by linarith+
  then have "ir_messageIds (query_window lo hi count q s)
      = flat_merge [] (take (min p b + min (length ms - p) e) (drop (p - min p b) ms))"
    unfolding query_window_def Let_def ms_def [symmetric] p_def [symmetric] by simp
  then have ids: "ir_messageIds (query_window lo hi count q s)
      = drop (length (take p ms) - b) (take p ms) @ take e (drop p ms)"
    unfolding take_drop_window [OF p, symmetric] using flat_merge_ssorted [OF ssorted_take_drop [OF ms(1)]] by simp
  note lb = lower_bound_id [OF ms(1), of "iq_aroundId q", folded p_def]
  have split: "set ms = set (take p ms) \<union> set (drop p ms)" by (metis append_take_drop_id set_append)
  have below: "x \<in> set (take p ms) \<longleftrightarrow> x \<in> set ms \<and> x < iq_aroundId q"
    and above: "x \<in> set (drop p ms) \<longleftrightarrow> x \<in> set ms \<and> iq_aroundId q \<le> x" for x
  proof -
    have "x \<in> set ms \<longleftrightarrow> x \<in> set (take p ms) \<or> x \<in> set (drop p ms)" unfolding split by simp
    moreover have "x \<in> set (take p ms) \<Longrightarrow> x < iq_aroundId q" "x \<in> set (drop p ms) \<Longrightarrow> \<not> x < iq_aroundId q"
      using lb by (simp_all add: not_less)
    ultimately show "x \<in> set (take p ms) \<longleftrightarrow> x \<in> set ms \<and> x < iq_aroundId q"
      "x \<in> set (drop p ms) \<longleftrightarrow> x \<in> set ms \<and> iq_aroundId q \<le> x"
      by (auto simp: not_less)
  qed
  have range: "x < iq_aroundId q \<Longrightarrow> x \<le> sl_till s" "iq_aroundId q \<le> x \<Longrightarrow> sl_from s \<le> x" for x
    using a by (meson less_imp_le order_trans)+
  have "take p ms = filter (\<lambda>x. sl_from s \<le> x \<and> x < iq_aroundId q) L"
  proof (rule ssorted_eqI)
    show "set (take p ms) = set (filter (\<lambda>x. sl_from s \<le> x \<and> x < iq_aroundId q) L)"
    proof (rule set_eqI)
      fix x
      show "(x \<in> set (take p ms)) = (x \<in> set (filter (\<lambda>x. sl_from s \<le> x \<and> x < iq_aroundId q) L))"
        unfolding below ms(2) using range [of x] by (simp, blast)
    qed
  qed (use ms(1) L in \<open>simp_all add: sorted_wrt_take sorted_wrt_filter\<close>)
  moreover have "drop p ms = filter (\<lambda>x. iq_aroundId q \<le> x \<and> x \<le> sl_till s) L"
  proof (rule ssorted_eqI)
    show "set (drop p ms) = set (filter (\<lambda>x. iq_aroundId q \<le> x \<and> x \<le> sl_till s) L)"
    proof (rule set_eqI)
      fix x
      show "(x \<in> set (drop p ms)) = (x \<in> set (filter (\<lambda>x. iq_aroundId q \<le> x \<and> x \<le> sl_till s) L))"
        unfolding above ms(2) using range [of x] by (simp, blast)
    qed
  qed (use ms(1) L in \<open>simp_all add: sorted_wrt_drop sorted_wrt_filter\<close>)
  ultimately show "ir_messageIds (query_window lo hi count q s) = known_window L (sl_from s) (sl_till s) q"
    unfolding ids known_window_def Let_def b_def e_def by simp
qed (auto simp: query_window_def Let_def split: option.split)

text \<open>The slice that is asked is the one that covers the point, if there is one.\<close>

lemma asked_slice:
  assumes "slices_apart slices" "i = lower_bound sl_till slices a"
  shows "s \<in> set slices \<Longrightarrow> sl_from s \<le> a \<Longrightarrow> a \<le> sl_till s \<Longrightarrow> i < length slices \<and> slices ! i = s"
    and "i < length slices \<Longrightarrow> sl_from (slices ! i) \<le> a \<Longrightarrow> a \<in> covered slices"
proof -
  assume s: "s \<in> set slices" "sl_from s \<le> a" "a \<le> sl_till s"
  have i: "i < length slices"
  proof (rule ccontr)
    assume "\<not> i < length slices"
    then have "sl_till s < a" using bound_split(2) [OF assms] s(1) by blast
    then show False using s(3) by simp
  qed
  obtain A B where AB: "slices = A @ (slices ! i) # B" "\<forall>s \<in> set A. sl_till s < a"
      "a \<le> sl_till (slices ! i)" "\<forall>s \<in> set B. sl_till (slices ! i) < sl_from s"
    using bound_split(1) [OF assms i] by blast
  have "s \<notin> set A" using AB(2) s(3) by (auto dest: leD)
  moreover have "s \<notin> set B"
  proof
    assume "s \<in> set B"
    then have "a < sl_from s" using AB(3,4) by (meson le_less_trans)
    then show False using s(2) by simp
  qed
  moreover have "s \<in> set A \<union> {slices ! i} \<union> set B" using s(1) by (subst (asm) AB(1)) auto
  ultimately show "i < length slices \<and> slices ! i = s" using i by blast
next
  assume "i < length slices" "sl_from (slices ! i) \<le> a"
  moreover from this have "a \<le> sl_till (slices ! i)" using bound_split(1) [OF assms] by blast
  moreover have "slices ! i \<in> set slices" using \<open>i < length slices\<close> by simp
  ultimately show "a \<in> covered slices" unfolding covered_def by auto
qed

lemma queryFromSlice_right:
  assumes "ssorted L" "set L = T" "T \<subseteq> {0<..<ServerMaxMsgId}" "true_slice T s"
    and "count = None \<or> count = Some (int (length L))"
    and "0 \<le> iq_limitBefore q" "0 \<le> iq_limitAfter q"
  shows "let r = queryFromSlice count q s
    in right_window L (ir_messageIds r) (ir_count r) (ir_skippedBefore r) (ir_skippedAfter r)"
proof -
  have "T \<subseteq> {0..ServerMaxMsgId}" using assms(3) by auto
  then show ?thesis
    unfolding queryFromSlice_def using query_window_right [OF assms(1,2) _ assms(4-7)] by blast
qed

lemma snapshot_right:
  assumes "true_list (set L) l" "ssorted L"
    and "0 \<le> iq_limitBefore q" "0 \<le> iq_limitAfter q"
  shows "let r = list_snapshot q l
    in right_window L (ir_messageIds r) (ir_count r) (ir_skippedBefore r) (ir_skippedAfter r)"
proof -
  have count: "il_count l = None \<or> il_count l = Some (int (length L))"
    using assms(1,2) by (cases "il_count l") (auto simp: true_list_def ssorted_length_card)
  have slices: "true_slice (set L) s" if "s \<in> set (il_slices l)" for s
    using assms(1) that by (auto simp: true_list_def true_slices_def)
  have T: "set L \<subseteq> {0<..<ServerMaxMsgId}" using assms(1) by (simp add: true_list_def)
  show ?thesis
    using queryFromSlice_right [OF assms(2) refl T slices count assms(3,4)] count
    by (auto simp: list_snapshot_def Let_def right_window_def ids_list_result_new_def)
qed

section \<open>Properties\<close>

text \<open>
  C10: what the server says of a range is remembered right. When the messages of a range (and
  their full count, if given) are added, in any order and with any overlaps with what is known,
  the assertions of the code hold, every slice lists exactly the server's messages of its range,
  the slices stay in order and apart, nothing that was covered is forgotten, the range is
  covered, and the update that is fired is right too.
\<close>

theorem sparse_list_add_slice:
  assumes "true_list T l" "f \<le> t" "set messages = T \<inter> {f..t}"
    and "count = None \<or> count = Some (int (card T))"
  shows "\<exists>l' u. addSlice messages f t count l = Some l' \<and> true_list T l' \<and>
    il_updates l' = il_updates l @ [u] \<and> true_update T u \<and>
    (f < t \<or> messages \<noteq> [] \<longrightarrow> {f..t} \<inter> {0..ServerMaxMsgId} \<subseteq> covered (il_slices l')) \<and>
    covered (il_slices l) \<inter> {0..ServerMaxMsgId} \<subseteq> covered (il_slices l')"
  using assms by (rule addSlice_keeps_true)

lemma ids_list_new_true: "T \<subseteq> {0<..<ServerMaxMsgId} \<Longrightarrow> true_list T ids_list_new"
  by (simp add: true_list_def ids_list_new_def true_slices_def slices_apart_def)

lemma sample_ids: "set [5, 9, 20] \<subseteq> {0<..<ServerMaxMsgId}" "ssorted [5, 9, 20 :: int]"
  by (simp_all add: ServerMaxMsgId_def)

lemma sparse_list_add_slice_witness:
  "\<exists>l'. addSlice [9, 5] 4 10 None ids_list_new = Some l' \<and> true_list (set [5, 9, 20]) l'"
  using sparse_list_add_slice [OF ids_list_new_true [OF sample_ids(1)], of 4 10 "[9, 5]" None] by auto

text \<open>
  a new message and a removed one keep the knowledge right. After \<open>addNew\<close> of a message newer
  than all others it is right about the server's list with that message (its count included),
  and knows everything from the message on; after \<open>removeOne\<close> of a message of the list it is
  right about the list without it; after \<open>removeAll\<close> it is right about the empty list.
\<close>

theorem sparse_list_new_and_remove:
  assumes "true_list T l"
  shows "(0 < m \<and> m < ServerMaxMsgId \<and> (\<forall>x \<in> T. x < m) \<longrightarrow>
      (\<exists>l' u. addNew m l = Some l' \<and> true_list (insert m T) l' \<and>
        il_updates l' = il_updates l @ [u] \<and> true_update (insert m T) u \<and>
        {m..ServerMaxMsgId} \<subseteq> covered (il_slices l'))) \<and>
    (m \<in> T \<longrightarrow> true_list (T - {m}) (list_removeOne m l)) \<and>
    true_list {} (list_removeAll l)"
  using addNew_keeps_true [OF assms] removeOne_keeps_true [OF assms] removeAll_true by blast

lemma sparse_list_new_and_remove_witness:
  "\<exists>l'. addNew 30 ids_list_new = Some l' \<and> true_list (insert 30 (set [5, 9, 20])) l'"
  using sparse_list_new_and_remove [OF ids_list_new_true [OF sample_ids(1)], of 30]
  by (auto simp: ServerMaxMsgId_def)

text \<open>
  C11: the answer of \<open>snapshot\<close> around any identifier is a run of consecutive messages of the server's
  list, and every number it gives (messages skipped before, skipped after, in all) is the right one,
  also where it is computed from the others. Around an identifier that a slice covers, the answer
  is the whole of what was asked and the slice knows: the last \<open>limitBefore\<close> messages below it and
  the first \<open>limitAfter + 1\<close> from it on, with the known count, and the number skipped on a side is
  given when the slice reaches the end of the list there, or when the count and the other side are
  known. Around any other identifier (and around 0) it is empty but for the known count.
\<close>

theorem sparse_list_snapshot_right:
  assumes "true_list (set L) l" "ssorted L"
    and "0 \<le> iq_limitBefore q" "0 \<le> iq_limitAfter q"
    and "r = list_snapshot q l"
  shows "right_window L (ir_messageIds r) (ir_count r) (ir_skippedBefore r) (ir_skippedAfter r) \<and>
    ir_count r = il_count l \<and>
    (\<forall>s \<in> set (il_slices l). iq_aroundId q \<noteq> 0 \<and> iq_aroundId q \<in> {sl_from s..sl_till s} \<longrightarrow>
      ir_messageIds r = known_window L (sl_from s) (sl_till s) q \<and>
      (sl_from s = 0 \<or> il_count l \<noteq> None \<and> sl_till s = ServerMaxMsgId \<longrightarrow> ir_skippedBefore r \<noteq> None) \<and>
      (sl_till s = ServerMaxMsgId \<or> il_count l \<noteq> None \<and> sl_from s = 0 \<longrightarrow> ir_skippedAfter r \<noteq> None)) \<and>
    (iq_aroundId q = 0 \<or> iq_aroundId q \<notin> covered (il_slices l) \<longrightarrow>
      ir_messageIds r = [] \<and> ir_skippedBefore r = None \<and> ir_skippedAfter r = None)"
proof -
  let ?i = "lower_bound sl_till (il_slices l) (iq_aroundId q)"
  have apart: "slices_apart (il_slices l)" using assms(1) by (simp add: true_list_def true_slices_def)
  have known: "ir_messageIds r = known_window L (sl_from s) (sl_till s) q \<and>
      (sl_from s = 0 \<or> il_count l \<noteq> None \<and> sl_till s = ServerMaxMsgId \<longrightarrow> ir_skippedBefore r \<noteq> None) \<and>
      (sl_till s = ServerMaxMsgId \<or> il_count l \<noteq> None \<and> sl_from s = 0 \<longrightarrow> ir_skippedAfter r \<noteq> None)"
    if s: "s \<in> set (il_slices l)" and a: "iq_aroundId q \<noteq> 0" "sl_from s \<le> iq_aroundId q" "iq_aroundId q \<le> sl_till s" for s
  proof -
    have "?i < length (il_slices l)" "il_slices l ! ?i = s" using asked_slice(1) [OF apart refl s a(2,3)] by simp_all
    then have r: "r = query_window 0 ServerMaxMsgId (il_count l) q s"
      using a by (simp add: assms(5) list_snapshot_def queryFromSlice_def)
    have "true_slice (set L) s" using assms(1) s by (simp add: true_list_def true_slices_def)
    from query_window_ids [OF assms(2) this a(2,3) assms(3,4), where lo = 0 and hi = ServerMaxMsgId and count = "il_count l"]
    show ?thesis unfolding r by blast
  qed
  have none: "r = (if il_count l \<noteq> None then ids_list_result_new\<lparr>ir_count := il_count l\<rparr> else ids_list_result_new)"
    if "iq_aroundId q = 0 \<or> iq_aroundId q \<notin> covered (il_slices l)"
    using that asked_slice(2) [OF apart refl, of "iq_aroundId q"] unfolding assms(5) list_snapshot_def Let_def by auto
  have "ir_count r = il_count l"
    by (auto simp: assms(5) list_snapshot_def Let_def queryFromSlice_def query_window_def ids_list_result_new_def)
  then show ?thesis
    using known none snapshot_right [OF assms(1-4)] assms(5) by (auto simp: Let_def ids_list_result_new_def)
qed

text \<open>Of the list 5, 9, 20, 30, 41 everything up to 35 is known; two messages around 20 are asked for.\<close>

definition sample_known :: "msg_id ids_list" where
  "sample_known = \<lparr>il_count = Some 5,
    il_slices = [\<lparr>sl_messages = [5, 9, 20, 30], sl_from = 0, sl_till = 35\<rparr>], il_updates = []\<rparr>"

lemma sparse_list_snapshot_right_witness:
  "ir_messageIds (list_snapshot \<lparr>iq_aroundId = 20, iq_limitBefore = 1, iq_limitAfter = 0\<rparr> sample_known) = [9, 20] \<and>
   right_window [5, 9, 20, 30, 41 :: msg_id] [9, 20] (Some 5) (Some 1) (Some 2)"
proof -
  let ?q = "\<lparr>iq_aroundId = 20 :: msg_id, iq_limitBefore = 1, iq_limitAfter = 0\<rparr>"
  have "true_list (set [5, 9, 20, 30, 41]) sample_known"
    by (auto simp: true_list_def true_slices_def slices_apart_def true_slice_def sample_known_def ServerMaxMsgId_def)
  note right = sparse_list_snapshot_right [OF this, of ?q, OF _ _ _ refl]
  have "list_snapshot ?q sample_known = \<lparr>ir_count = Some 5, ir_skippedBefore = Some 1, ir_skippedAfter = Some 2,
      ir_messageIds = [9, 20]\<rparr>"
    by (simp add: list_snapshot_def sample_known_def lower_bound_def queryFromSlice_def query_window_def
        flat_merge_ssorted ServerMaxMsgId_def numeral_eq_Suc)
  moreover have "il_count sample_known = Some 5" by (simp add: sample_known_def)
  ultimately show ?thesis using right by simp
qed

text \<open>
  removing is not guarded against messages the list does not have. \<open>removeOne\<close> always
  decrements a known count; on a list known to be empty it becomes \<open>-1\<close>, and the next answer
  reports a count of \<open>-1\<close>.
\<close>

theorem sparse_list_count_negative:
  "il_count (list_removeOne m (list_removeAll l)) = Some (-1) \<and>
    ir_count (list_snapshot q (list_removeOne m (list_removeAll l))) = Some (-1)"
  by (simp add: list_removeOne_def list_removeAll_def list_snapshot_def queryFromSlice_def query_window_def
      ids_list_result_new_def Let_def)

end
