(* ===== verification/SparseIdsSlice.thy ===== *)
theory SparseIdsSlice imports SparseIdsList begin

text \<open>
  Windows of a sparse list: \<open>AbstractSparseIds\<close> (\<open>data/data_abstract_sparse_ids.h\<close>), the
  builder that keeps one up to date and the slice merged from a group and the group it was
  migrated from (\<open>data/data_sparse_ids.h\<close> and \<open>.cpp\<close>).

  The builder's event stream of requests for more messages is the list \<open>sb_insufficient\<close> of the
  events fired. A failed \<open>Assert\<close> or \<open>Expects\<close> is \<open>None\<close>. \<open>_migrated\<close> is dereferenced without a
  check in the code, where \<open>the\<close> stands here; the properties are about slices that have it
  where it is used.
\<close>

section \<open>Slices\<close>

record sparse_ids =
  si_ids :: "msg_id list"
  si_fullCount :: "int option"
  si_skippedBefore :: "int option"
  si_skippedAfter :: "int option"

definition sparse_ids_new :: sparse_ids where
  "sparse_ids_new =
    \<lparr>si_ids = [], si_fullCount = None, si_skippedBefore = None, si_skippedAfter = None\<rparr>"

fun find_index :: "'a \<Rightarrow> 'a list \<Rightarrow> int option" where
  "find_index i [] = None"
| "find_index i (x # xs) = (if x = i then Some 0 else map_option (\<lambda>n. n + 1) (find_index i xs))"

definition si_indexOf :: "msg_id \<Rightarrow> sparse_ids \<Rightarrow> int option" where
  "si_indexOf i s = find_index i (si_ids s)"

definition si_size :: "sparse_ids \<Rightarrow> int" where
  "si_size s = int (length (si_ids s))"

definition si_at :: "int \<Rightarrow> sparse_ids \<Rightarrow> msg_id option" where
  "si_at index s = (if index \<ge> 0 \<and> index < si_size s then Some (si_ids s ! nat index) else None)"

definition si_distance :: "msg_id \<Rightarrow> msg_id \<Rightarrow> sparse_ids \<Rightarrow> int option" where
  "si_distance a b s =
    (case si_indexOf a s of
       Some i \<Rightarrow> (case si_indexOf b s of Some j \<Rightarrow> Some (j - i) | None \<Rightarrow> None)
     | None \<Rightarrow> None)"

definition si_nearest :: "msg_id \<Rightarrow> sparse_ids \<Rightarrow> msg_id option" where
  "si_nearest i s =
    (let it = lower_bound (\<lambda>m. m) (si_ids s) i
     in if it < length (si_ids s) then Some (si_ids s ! it)
        else if si_ids s = [] then None
        else Some (last (si_ids s)))"

definition si_reverse :: "sparse_ids \<Rightarrow> sparse_ids" where
  "si_reverse s = s\<lparr>si_ids := rev (si_ids s), si_skippedBefore := si_skippedAfter s,
    si_skippedAfter := si_skippedBefore s\<rparr>"

section \<open>The slice merged from two groups\<close>

record merged_key =
  mk_peerId :: peer_id
  mk_topicRootId :: msg_id
  mk_migratedPeerId :: peer_id
  mk_universalId :: msg_id

definition merged_key_make :: "peer_id \<Rightarrow> msg_id \<Rightarrow> peer_id \<Rightarrow> msg_id \<Rightarrow> merged_key" where
  "merged_key_make peerId topicRootId migratedPeerId universalId =
    \<lparr>mk_peerId = peerId, mk_topicRootId = topicRootId,
     mk_migratedPeerId = (if topicRootId \<noteq> 0 then 0 else migratedPeerId),
     mk_universalId = universalId\<rparr>"

record merged_slice =
  mg_key :: merged_key
  mg_part :: sparse_ids
  mg_migrated :: "sparse_ids option"
  mg_unsorted :: "sparse_ids option"

definition PartKey :: "merged_key \<Rightarrow> msg_id" where
  "PartKey key = (if mk_universalId key < 0 then 1 else mk_universalId key)"

definition MigratedKey :: "merged_key \<Rightarrow> msg_id" where
  "MigratedKey key =
    (if mk_universalId key < 0 then ServerMaxMsgId + mk_universalId key
     else if mk_universalId key > 0 then ServerMaxMsgId - 1 else 0)"

definition MigratedSlice :: "merged_key \<Rightarrow> sparse_ids option" where
  "MigratedSlice key = (if mk_migratedPeerId key \<noteq> 0 then Some sparse_ids_new else None)"

definition merged_new :: "merged_key \<Rightarrow> merged_slice" where
  "merged_new key =
    \<lparr>mg_key = key, mg_part = sparse_ids_new, mg_migrated = MigratedSlice key, mg_unsorted = None\<rparr>"

definition ComputeId :: "peer_id \<Rightarrow> msg_id \<Rightarrow> full_msg_id" where
  "ComputeId peerId msgId = \<lparr>fm_peer = peerId, fm_msg = msgId\<rparr>"

definition ComputeId_key :: "merged_key \<Rightarrow> full_msg_id" where
  "ComputeId_key key =
    (if mk_universalId key \<ge> 0 then ComputeId (mk_peerId key) (mk_universalId key)
     else ComputeId (mk_migratedPeerId key) (ServerMaxMsgId + mk_universalId key))"

definition isFromPart :: "full_msg_id \<Rightarrow> merged_slice \<Rightarrow> bool" where
  "isFromPart fullId m \<longleftrightarrow> mk_peerId (mg_key m) = fm_peer fullId"

definition isFromMigrated :: "full_msg_id \<Rightarrow> merged_slice \<Rightarrow> bool" where
  "isFromMigrated fullId m \<longleftrightarrow>
    (if mg_migrated m \<noteq> None then mk_migratedPeerId (mg_key m) = fm_peer fullId else False)"

definition isolatedInPart :: "merged_slice \<Rightarrow> bool" where
  "isolatedInPart m \<longleftrightarrow>
    IsServerMsgId (mk_universalId (mg_key m)) \<and>
    (mg_migrated m = None \<or> si_skippedBefore (mg_part m) \<noteq> Some 0)"

definition isolatedInMigrated :: "merged_slice \<Rightarrow> bool" where
  "isolatedInMigrated m \<longleftrightarrow>
    IsServerMsgId (ServerMaxMsgId + mk_universalId (mg_key m)) \<and>
    si_skippedAfter (the (mg_migrated m)) \<noteq> Some 0"

definition migratedSize :: "merged_slice \<Rightarrow> int" where
  "migratedSize m = (if isolatedInPart m then 0 else si_size (the (mg_migrated m)))"

definition mg_fullCount :: "merged_slice \<Rightarrow> int option" where
  "mg_fullCount m =
    (case mg_unsorted m of
       Some u \<Rightarrow> si_fullCount u
     | None \<Rightarrow> option_add (si_fullCount (mg_part m))
         (case mg_migrated m of Some g \<Rightarrow> si_fullCount g | None \<Rightarrow> Some 0))"

definition mg_skippedBefore :: "merged_slice \<Rightarrow> int option" where
  "mg_skippedBefore m =
    (case mg_unsorted m of
       Some u \<Rightarrow> si_skippedBefore u
     | None \<Rightarrow> option_add
         (if isolatedInMigrated m then Some 0 else si_skippedBefore (mg_part m))
         (case mg_migrated m of
            Some g \<Rightarrow> if isolatedInPart m then si_fullCount g else si_skippedBefore g
          | None \<Rightarrow> Some 0))"

definition mg_skippedAfter :: "merged_slice \<Rightarrow> int option" where
  "mg_skippedAfter m =
    (case mg_unsorted m of
       Some u \<Rightarrow> si_skippedAfter u
     | None \<Rightarrow> option_add
         (if isolatedInMigrated m then si_fullCount (mg_part m) else si_skippedAfter (mg_part m))
         (if isolatedInPart m then Some 0 else si_skippedAfter (the (mg_migrated m))))"

definition mg_indexOf :: "full_msg_id \<Rightarrow> merged_slice \<Rightarrow> int option" where
  "mg_indexOf fullId m =
    (case mg_unsorted m of
       Some u \<Rightarrow> si_indexOf (fm_msg fullId) u
     | None \<Rightarrow>
         if isFromPart fullId m
         then map_option (\<lambda>n. n + migratedSize m) (si_indexOf (fm_msg fullId) (mg_part m))
         else if isolatedInPart m then None
         else if isFromMigrated fullId m then si_indexOf (fm_msg fullId) (the (mg_migrated m))
         else None)"

definition mg_size :: "merged_slice \<Rightarrow> int" where
  "mg_size m =
    (case mg_unsorted m of
       Some u \<Rightarrow> si_size u
     | None \<Rightarrow> (if isolatedInPart m then 0 else migratedSize m) +
         (if isolatedInMigrated m then 0 else si_size (mg_part m)))"

definition mg_at :: "int \<Rightarrow> merged_slice \<Rightarrow> full_msg_id option" where
  "mg_at index m =
    (if \<not> (index \<ge> 0 \<and> index < mg_size m) then None
     else
       case mg_unsorted m of
         Some u \<Rightarrow> map_option (ComputeId (mk_peerId (mg_key m))) (si_at index u)
       | None \<Rightarrow>
           let size' = migratedSize m
           in if size' \<noteq> 0 \<and> index < size'
              then map_option (ComputeId (mk_migratedPeerId (mg_key m))) (si_at index (the (mg_migrated m)))
              else
                let index = (if size' \<noteq> 0 then index - size' else index)
                in map_option (ComputeId (mk_peerId (mg_key m))) (si_at index (mg_part m)))"

definition mg_distance :: "merged_key \<Rightarrow> merged_key \<Rightarrow> merged_slice \<Rightarrow> int option" where
  "mg_distance a b m =
    (case mg_indexOf (ComputeId_key a) m of
       Some i \<Rightarrow> (case mg_indexOf (ComputeId_key b) m of Some j \<Rightarrow> Some (j - i) | None \<Rightarrow> None)
     | None \<Rightarrow> None)"

definition mg_nearest :: "msg_id \<Rightarrow> merged_slice \<Rightarrow> full_msg_id option" where
  "mg_nearest i m =
    (let convertFromPartNearest = ComputeId (mk_peerId (mg_key m));
         convertFromMigratedNearest = ComputeId (mk_migratedPeerId (mg_key m))
     in case mg_unsorted m of
          Some u \<Rightarrow>
            if si_indexOf i u \<noteq> None then Some (ComputeId (mk_peerId (mg_key m)) i)
            else if si_size u \<noteq> 0
            then map_option (ComputeId (mk_peerId (mg_key m))) (si_at (si_size u div 2) u)
            else None
        | None \<Rightarrow>
            if IsServerMsgId i then
              (case si_nearest i (mg_part m) of
                 Some partNearestId \<Rightarrow> Some (convertFromPartNearest partNearestId)
               | None \<Rightarrow>
                   if isolatedInPart m then None
                   else map_option convertFromMigratedNearest
                     (si_nearest (ServerMaxMsgId - 1) (the (mg_migrated m))))
            else
              (case (case mg_migrated m of
                       Some g \<Rightarrow> si_nearest (i + ServerMaxMsgId) g | None \<Rightarrow> None) of
                 Some migratedNearestId \<Rightarrow> Some (convertFromMigratedNearest migratedNearestId)
               | None \<Rightarrow>
                   if isolatedInMigrated m then None
                   else map_option convertFromPartNearest (si_nearest 0 (mg_part m))))"

section \<open>The builder\<close>

datatype LoadDirection = Around | Before | After

record ids_builder =
  sb_key :: msg_id
  sb_ids :: "msg_id list"
  sb_fullCount :: "int option"
  sb_skippedBefore :: "int option"
  sb_skippedAfter :: "int option"
  sb_limitBefore :: int
  sb_limitAfter :: int
  sb_insufficient :: "(msg_id \<times> LoadDirection) list"

definition builder_new :: "msg_id \<Rightarrow> int \<Rightarrow> int \<Rightarrow> ids_builder" where
  "builder_new key limitBefore limitAfter =
    \<lparr>sb_key = key, sb_ids = [], sb_fullCount = None, sb_skippedBefore = None,
     sb_skippedAfter = None, sb_limitBefore = limitBefore, sb_limitAfter = limitAfter,
     sb_insufficient = []\<rparr>"

definition fire :: "msg_id \<Rightarrow> LoadDirection \<Rightarrow> ids_builder \<Rightarrow> ids_builder" where
  "fire aroundId direction b = b\<lparr>sb_insufficient := sb_insufficient b @ [(aroundId, direction)]\<rparr>"

definition requestMessagesCount :: "ids_builder \<Rightarrow> ids_builder" where
  "requestMessagesCount b = fire 0 Around b"

definition requestMessages :: "LoadDirection \<Rightarrow> ids_builder \<Rightarrow> ids_builder" where
  "requestMessages direction b =
    (if sb_ids b = [] then fire (sb_key b) Around b
     else if direction = Before then fire (hd (sb_ids b)) Before b
     else fire (last (sb_ids b)) After b)"

definition sliceToLimits :: "ids_builder \<Rightarrow> ids_builder" where
  "sliceToLimits b =
    (if sb_key b = 0 then
       (if sb_fullCount b = None then requestMessagesCount b else b)
     else
       let aroundIt = int (lower_bound (\<lambda>m. m) (sb_ids b) (sb_key b));
           removeFromBegin = aroundIt - sb_limitBefore b;
           removeFromEnd = int (length (sb_ids b)) - aroundIt - sb_limitAfter b - 1;
           (b, requested) =
             (if removeFromBegin > 0 then
                (b\<lparr>sb_ids := drop (nat removeFromBegin) (sb_ids b),
                   sb_skippedBefore := map_option (\<lambda>n. n + removeFromBegin) (sb_skippedBefore b)\<rparr>, False)
              else if removeFromBegin < 0 \<and>
                (case sb_skippedBefore b of None \<Rightarrow> True | Some n \<Rightarrow> n > 0)
              then (requestMessages Before b, True)
              else (b, False));
           (b, requested) =
             (if removeFromEnd > 0 then
                (b\<lparr>sb_ids := take (length (sb_ids b) - nat removeFromEnd) (sb_ids b),
                   sb_skippedAfter := map_option (\<lambda>n. n + removeFromEnd) (sb_skippedAfter b)\<rparr>, requested)
              else if removeFromEnd < 0 \<and>
                (case sb_skippedAfter b of None \<Rightarrow> True | Some n \<Rightarrow> n > 0)
              then (requestMessages After b, True)
              else (b, requested))
       in if sb_fullCount b = None \<and> \<not> requested then requestMessagesCount b else b)"

definition checkInsufficient :: "ids_builder \<Rightarrow> ids_builder" where
  "checkInsufficient b = sliceToLimits b"

definition fillSkipped :: "ids_builder \<Rightarrow> ids_builder" where
  "fillSkipped b =
    (case (sb_fullCount b, sb_skippedBefore b, sb_skippedAfter b) of
       (Some n, Some before, None) \<Rightarrow> b\<lparr>sb_skippedAfter := Some (n - before - int (length (sb_ids b)))\<rparr>
     | (Some n, None, Some after) \<Rightarrow> b\<lparr>sb_skippedBefore := Some (n - after - int (length (sb_ids b)))\<rparr>
     | _ \<Rightarrow> b)"

definition fillSkippedAndSliceToLimits :: "ids_builder \<Rightarrow> ids_builder" where
  "fillSkippedAndSliceToLimits b = sliceToLimits (fillSkipped b)"

text \<open>The two local functions of \<open>mergeSliceData\<close>; \<open>None\<close> is the failed \<open>Assert\<close>.\<close>

definition adjustSkippedBefore :: "msg_id \<Rightarrow> int \<Rightarrow> ids_builder \<Rightarrow> ids_builder option" where
  "adjustSkippedBefore oldId oldSkippedBefore b =
    (case find_index oldId (sb_ids b) of
       None \<Rightarrow> None
     | Some it \<Rightarrow> Some (b\<lparr>sb_skippedBefore := Some (max (oldSkippedBefore - it) 0)\<rparr>))"

definition adjustSkippedAfter :: "msg_id \<Rightarrow> int \<Rightarrow> ids_builder \<Rightarrow> ids_builder option" where
  "adjustSkippedAfter oldId oldSkippedAfter b =
    (case find_index oldId (sb_ids b) of
       None \<Rightarrow> None
     | Some it \<Rightarrow>
         Some (b\<lparr>sb_skippedAfter := Some (max (oldSkippedAfter - (int (length (sb_ids b)) - it - 1)) 0)\<rparr>))"

definition mergeSliceData ::
  "int option \<Rightarrow> msg_id list \<Rightarrow> int option \<Rightarrow> int option \<Rightarrow> ids_builder \<Rightarrow> ids_builder option" where
  "mergeSliceData count messageIds skippedBefore skippedAfter b =
    (if messageIds = [] then
       Some (fillSkippedAndSliceToLimits
         (if count \<noteq> None \<and> sb_fullCount b \<noteq> count then
            (if the count \<le> int (length (sb_ids b))
             then b\<lparr>sb_fullCount := Some (int (length (sb_ids b))), sb_skippedBefore := Some 0,
                    sb_skippedAfter := Some 0\<rparr>
             else b\<lparr>sb_fullCount := count\<rparr>)
          else b))
     else
       let b = (if count \<noteq> None then b\<lparr>sb_fullCount := count\<rparr> else b);
           wasMinId = (if sb_ids b = [] then -1 else hd (sb_ids b));
           wasMaxId = (if sb_ids b = [] then -1 else last (sb_ids b));
           b = b\<lparr>sb_ids := flat_merge (sb_ids b) messageIds\<rparr>;
           b = (case skippedBefore of
                  Some n \<Rightarrow> adjustSkippedBefore (hd messageIds) n b
                | None \<Rightarrow>
                    if wasMinId \<ge> 0 \<and> sb_skippedBefore b \<noteq> None
                    then adjustSkippedBefore wasMinId (the (sb_skippedBefore b)) b
                    else Some (b\<lparr>sb_skippedBefore := None\<rparr>))
       in case b of
            None \<Rightarrow> None
          | Some b \<Rightarrow>
              map_option fillSkippedAndSliceToLimits
                (case skippedAfter of
                   Some n \<Rightarrow> adjustSkippedAfter (last messageIds) n b
                 | None \<Rightarrow>
                     if wasMaxId \<ge> 0 \<and> sb_skippedAfter b \<noteq> None
                     then adjustSkippedAfter wasMaxId (the (sb_skippedAfter b)) b
                     else Some (b\<lparr>sb_skippedAfter := None\<rparr>)))"

definition applyInitial :: "msg_id ids_list_result \<Rightarrow> ids_builder \<Rightarrow> (bool \<times> ids_builder) option" where
  "applyInitial r b =
    map_option (Pair True)
      (mergeSliceData (ir_count r) (ir_messageIds r) (ir_skippedBefore r) (ir_skippedAfter r) b)"

definition applyUpdate :: "msg_id ids_slice_update \<Rightarrow> ids_builder \<Rightarrow> (bool \<times> ids_builder) option" where
  "applyUpdate update b =
    (let front = (if sb_ids b = [] then sb_key b else hd (sb_ids b));
         back = (if sb_ids b = [] then sb_key b else last (sb_ids b));
         needMergeMessages =
           (su_messages update \<noteq> None \<and> su_from update \<le> back \<and> front \<le> su_till update)
     in if \<not> needMergeMessages \<and> su_count update = None then Some (False, b)
        else
          let skippedBefore = (if su_from update = 0 then Some 0 else None);
              skippedAfter = (if su_till update = ServerMaxMsgId then Some 0 else None)
          in map_option (Pair True)
               (mergeSliceData (su_count update)
                 (if needMergeMessages then the (su_messages update) else [])
                 skippedBefore skippedAfter b))"

definition builder_removeOne :: "msg_id \<Rightarrow> ids_builder \<Rightarrow> bool \<times> ids_builder" where
  "builder_removeOne messageId b =
    (let (changed, b) =
           (case sb_fullCount b of
              Some n \<Rightarrow> if n > 0 then (True, b\<lparr>sb_fullCount := Some (n - 1)\<rparr>) else (False, b)
            | None \<Rightarrow> (False, b));
         (changed, b) =
           (if messageId \<in> set (sb_ids b) then
              (True, b\<lparr>sb_ids := flat_remove messageId (sb_ids b)\<rparr>)
            else if sb_ids b \<noteq> [] then
              (if hd (sb_ids b) > messageId \<and> (case sb_skippedBefore b of Some n \<Rightarrow> n > 0 | None \<Rightarrow> False)
               then (True, b\<lparr>sb_skippedBefore := map_option (\<lambda>n. n - 1) (sb_skippedBefore b)\<rparr>)
               else if last (sb_ids b) < messageId \<and>
                 (case sb_skippedAfter b of Some n \<Rightarrow> n > 0 | None \<Rightarrow> False)
               then (True, b\<lparr>sb_skippedAfter := map_option (\<lambda>n. n - 1) (sb_skippedAfter b)\<rparr>)
               else (changed, b))
            else (changed, b))
     in (changed, if changed then checkInsufficient b else b))"

definition builder_removeAll :: "ids_builder \<Rightarrow> bool \<times> ids_builder" where
  "builder_removeAll b =
    (True, b\<lparr>sb_ids := [], sb_fullCount := Some 0, sb_skippedBefore := Some 0, sb_skippedAfter := Some 0\<rparr>)"

definition builder_invalidateBottom :: "ids_builder \<Rightarrow> bool \<times> ids_builder" where
  "builder_invalidateBottom b =
    (True, checkInsufficient (b\<lparr>sb_fullCount := None, sb_skippedAfter := None\<rparr>))"

definition builder_snapshot :: "ids_builder \<Rightarrow> sparse_ids" where
  "builder_snapshot b =
    \<lparr>si_ids = sb_ids b, si_fullCount = sb_fullCount b, si_skippedBefore = sb_skippedBefore b,
     si_skippedAfter = sb_skippedAfter b\<rparr>"

section \<open>Positions\<close>

lemma find_index_None: "find_index i xs = None \<longleftrightarrow> i \<notin> set xs"
  by (induction xs) auto

lemma find_index_nth: "distinct xs \<Longrightarrow> n < length xs \<Longrightarrow> find_index (xs ! n) xs = Some (int n)"
  by (induction xs arbitrary: n) (auto simp: nth_Cons split: nat.splits)

text \<open>The position of an element in a window, from its position in the list.\<close>

lemma find_index_window:
  assumes "distinct L" "L = x @ w @ y" "L = c @ h # d" "h \<in> set w"
  shows "find_index h w = Some (int (length c) - int (length x)) \<and>
    int (length d) = int (length w) - (int (length c) - int (length x)) - 1 + int (length y)"
proof -
  obtain n where n: "n < length w" "w ! n = h" using assms(4) by (metis in_set_conv_nth)
  have "L ! (length x + n) = h" "length x + n < length L" using n assms(2) by (simp_all add: nth_append)
  moreover have "L ! length c = h" "length c < length L" using assms(3) by (simp_all add: nth_append)
  ultimately have "length x + n = length c"
    using nth_eq_iff_index_eq [OF assms(1), of "length x + n" "length c"] by metis
  moreover have "distinct w" using assms(1,2) by simp
  moreover have "length x + length w + length y = length c + 1 + length d"
    using arg_cong [OF assms(2), of length] arg_cong [OF assms(3), of length] by simp
  ultimately show ?thesis using find_index_nth [of w n] n by auto
qed

section \<open>The builder keeps its window right\<close>

definition right_builder :: "msg_id list \<Rightarrow> ids_builder \<Rightarrow> bool" where
  "right_builder L b \<longleftrightarrow>
    right_window L (sb_ids b) (sb_fullCount b) (sb_skippedBefore b) (sb_skippedAfter b)"

lemma fire_sel [simp]:
  "sb_ids (fire i d b) = sb_ids b" "sb_fullCount (fire i d b) = sb_fullCount b"
  "sb_skippedBefore (fire i d b) = sb_skippedBefore b" "sb_skippedAfter (fire i d b) = sb_skippedAfter b"
  "sb_key (fire i d b) = sb_key b" "sb_limitBefore (fire i d b) = sb_limitBefore b"
  "sb_limitAfter (fire i d b) = sb_limitAfter b"
  by (simp_all add: fire_def)

lemma request_sel [simp]:
  "sb_ids (requestMessages d b) = sb_ids b" "sb_fullCount (requestMessages d b) = sb_fullCount b"
  "sb_skippedBefore (requestMessages d b) = sb_skippedBefore b"
  "sb_skippedAfter (requestMessages d b) = sb_skippedAfter b"
  "sb_key (requestMessages d b) = sb_key b" "sb_limitBefore (requestMessages d b) = sb_limitBefore b"
  "sb_limitAfter (requestMessages d b) = sb_limitAfter b"
  by (simp_all add: requestMessages_def)

lemma requestCount_sel [simp]:
  "sb_ids (requestMessagesCount b) = sb_ids b" "sb_fullCount (requestMessagesCount b) = sb_fullCount b"
  "sb_skippedBefore (requestMessagesCount b) = sb_skippedBefore b"
  "sb_skippedAfter (requestMessagesCount b) = sb_skippedAfter b"
  "sb_key (requestMessagesCount b) = sb_key b" "sb_limitBefore (requestMessagesCount b) = sb_limitBefore b"
  "sb_limitAfter (requestMessagesCount b) = sb_limitAfter b"
  by (simp_all add: requestMessagesCount_def)

text \<open>What \<open>sliceToLimits\<close> cuts off.\<close>

definition cut_begin :: "ids_builder \<Rightarrow> nat" where
  "cut_begin b = nat (int (lower_bound (\<lambda>m. m) (sb_ids b) (sb_key b)) - sb_limitBefore b)"

definition cut_end :: "ids_builder \<Rightarrow> nat" where
  "cut_end b = nat (int (length (sb_ids b)) -
    int (lower_bound (\<lambda>m. m) (sb_ids b) (sb_key b)) - sb_limitAfter b - 1)"

lemma map_option_add_zero: "k = 0 \<Longrightarrow> map_option (\<lambda>n. n + k) x = x" for k :: int
  by (cases x) simp_all

lemma sliceToLimits_fields:
  assumes "sb_key b \<noteq> 0"
  shows "sb_ids (sliceToLimits b) =
      take (length (sb_ids b) - cut_begin b - cut_end b) (drop (cut_begin b) (sb_ids b)) \<and>
    sb_skippedBefore (sliceToLimits b) = map_option (\<lambda>n. n + int (cut_begin b)) (sb_skippedBefore b) \<and>
    sb_skippedAfter (sliceToLimits b) = map_option (\<lambda>n. n + int (cut_end b)) (sb_skippedAfter b) \<and>
    sb_fullCount (sliceToLimits b) = sb_fullCount b \<and> sb_key (sliceToLimits b) = sb_key b \<and>
    sb_limitBefore (sliceToLimits b) = sb_limitBefore b \<and> sb_limitAfter (sliceToLimits b) = sb_limitAfter b"
  using assms
  by (auto simp: sliceToLimits_def cut_begin_def cut_end_def Let_def map_option_add_zero
      option.map_ident split: option.splits)

lemma sliceToLimits_right:
  assumes "right_builder L b" "0 \<le> sb_limitBefore b" "0 \<le> sb_limitAfter b"
  shows "right_builder L (sliceToLimits b) \<and>
    (sb_key b \<noteq> 0 \<longrightarrow> int (length (sb_ids (sliceToLimits b))) \<le> sb_limitBefore b + sb_limitAfter b + 1)"
proof (cases "sb_key b = 0")
  case True
  then show ?thesis using assms(1)
    by (auto simp: sliceToLimits_def right_builder_def)
next
  case False
  let ?m = "cut_begin b" and ?n = "cut_end b" and ?ids = "sb_ids b"
  have p: "lower_bound (\<lambda>m. m) ?ids (sb_key b) \<le> length ?ids" by simp
  have mn: "?m + ?n \<le> length ?ids"
    "int (length ?ids) - int ?m - int ?n \<le> sb_limitBefore b + sb_limitAfter b + 1"
    using p assms(2,3) unfolding cut_begin_def cut_end_def by linarith+
  obtain a c where L: "L = a @ ?ids @ c"
    "sb_skippedBefore b \<noteq> None \<longrightarrow> sb_skippedBefore b = Some (int (length a))"
    "sb_skippedAfter b \<noteq> None \<longrightarrow> sb_skippedAfter b = Some (int (length c))"
    "sb_fullCount b \<noteq> None \<longrightarrow> sb_fullCount b = Some (int (length L))"
    using assms(1) unfolding right_builder_def right_window_def by blast
  define w where "w = take (length ?ids - ?m - ?n) (drop ?m ?ids)"
  have ids: "?ids = take ?m ?ids @ w @ drop (length ?ids - ?n) ?ids"
  proof -
    have "drop ?m ?ids = w @ drop (length ?ids - ?m - ?n) (drop ?m ?ids)"
      unfolding w_def by (rule append_take_drop_id [symmetric])
    moreover have "length ?ids - ?m - ?n + ?m = length ?ids - ?n" using mn(1) by linarith
    ultimately show ?thesis by (metis append_take_drop_id drop_drop)
  qed
  have "L = (a @ take ?m ?ids) @ w @ (drop (length ?ids - ?n) ?ids @ c)"
    using L(1) ids by (metis append_assoc)
  moreover have "length (take ?m ?ids) = ?m" "length (drop (length ?ids - ?n) ?ids) = ?n"
    using mn(1) by simp_all
  ultimately have "right_builder L (sliceToLimits b)"
    unfolding right_builder_def right_window_def
    using sliceToLimits_fields [OF False] L(2-4)
    by (intro exI [of _ "a @ take ?m ?ids"] exI [of _ "drop (length ?ids - ?n) ?ids @ c"])
      (auto simp: w_def)
  moreover have "length w = length ?ids - ?m - ?n" using mn(1) by (simp add: w_def)
  ultimately show ?thesis using sliceToLimits_fields [OF False] mn
    by (simp add: w_def)
qed

lemma fillSkipped_right: "right_builder L b \<Longrightarrow> right_builder L (fillSkipped b)"
  unfolding right_builder_def right_window_def
  by (elim exE conjE) (rule exI, rule exI, auto simp: fillSkipped_def split: option.splits)

lemma fill_limits_right:
  assumes "right_builder L b" "0 \<le> sb_limitBefore b" "0 \<le> sb_limitAfter b"
  shows "right_builder L (fillSkippedAndSliceToLimits b)"
proof -
  have "sb_limitBefore (fillSkipped b) = sb_limitBefore b" "sb_limitAfter (fillSkipped b) = sb_limitAfter b"
    by (simp_all add: fillSkipped_def split: option.splits)
  then show ?thesis
    using sliceToLimits_right [OF fillSkipped_right [OF assms(1)]] assms(2,3)
    by (simp add: fillSkippedAndSliceToLimits_def)
qed

lemma mergeSliceData_empty:
  assumes "right_builder L b" "0 \<le> sb_limitBefore b" "0 \<le> sb_limitAfter b"
    and "count \<noteq> None \<longrightarrow> count = Some (int (length L))"
  shows "\<exists>b'. mergeSliceData count [] before after b = Some b' \<and> right_builder L b'"
proof -
  obtain a c where L: "L = a @ sb_ids b @ c"
    "sb_skippedBefore b \<noteq> None \<longrightarrow> sb_skippedBefore b = Some (int (length a))"
    "sb_skippedAfter b \<noteq> None \<longrightarrow> sb_skippedAfter b = Some (int (length c))"
    "sb_fullCount b \<noteq> None \<longrightarrow> sb_fullCount b = Some (int (length L))"
    using assms(1) unfolding right_builder_def right_window_def by blast
  let ?b = "if count \<noteq> None \<and> sb_fullCount b \<noteq> count then
      (if the count \<le> int (length (sb_ids b))
       then b\<lparr>sb_fullCount := Some (int (length (sb_ids b))), sb_skippedBefore := Some 0,
              sb_skippedAfter := Some 0\<rparr>
       else b\<lparr>sb_fullCount := count\<rparr>)
    else b"
  have empty: "int (length a) + int (length c) \<le> 0 \<Longrightarrow> a = [] \<and> c = []"
    by (cases a; cases c; simp)
  have "right_builder L ?b"
  proof (cases "count \<noteq> None \<and> sb_fullCount b \<noteq> count")
    case True
    then have "count = Some (int (length L))" using assms(4) by simp
    moreover have "length L = length a + length (sb_ids b) + length c" by (simp add: L(1))
    ultimately show ?thesis using True L
      unfolding right_builder_def right_window_def
      by - (rule exI [of _ a], rule exI [of _ c], auto dest: empty)
  qed (use assms(1) in auto)
  then show ?thesis using fill_limits_right [of L ?b] assms(2,3)
    by (auto simp: mergeSliceData_def)
qed

lemma hd_split: "w \<noteq> [] \<Longrightarrow> c @ w @ d = c @ hd w # (tl w @ d)"
  by (cases w) auto

lemma last_split: "w \<noteq> [] \<Longrightarrow> c @ w @ d = (c @ butlast w) @ last w # d"
  by (metis append.assoc append_Cons append_Nil append_butlast_last_id)

lemma mergeSliceData_right:
  assumes L: "ssorted L" "\<forall>i \<in> set L. 0 < i"
    and b: "right_builder L b" "0 \<le> sb_limitBefore b" "0 \<le> sb_limitAfter b"
    and ms: "ms \<noteq> []" "L = c @ ms @ d"
    and given: "count \<noteq> None \<longrightarrow> count = Some (int (length L))"
      "before \<noteq> None \<longrightarrow> before = Some (int (length c))"
      "after \<noteq> None \<longrightarrow> after = Some (int (length d))"
    and window: "L = x @ flat_merge (sb_ids b) ms @ y"
  shows "\<exists>b'. mergeSliceData count ms before after b = Some b' \<and> right_builder L b'"
proof -
  obtain a e where old: "L = a @ sb_ids b @ e"
    "sb_skippedBefore b \<noteq> None \<longrightarrow> sb_skippedBefore b = Some (int (length a))"
    "sb_skippedAfter b \<noteq> None \<longrightarrow> sb_skippedAfter b = Some (int (length e))"
    "sb_fullCount b \<noteq> None \<longrightarrow> sb_fullCount b = Some (int (length L))"
    using b(1) unfolding right_builder_def right_window_def by blast
  note dist = ssorted_distinct [OF L(1)]
  let ?w = "flat_merge (sb_ids b) ms"
  have pos: "find_index h ?w = Some (int (length p) - int (length x)) \<and>
      int (length q) = int (length ?w) - (int (length p) - int (length x)) - 1 + int (length y)"
    if "L = p @ h # q" "h \<in> set (sb_ids b) \<union> set ms" for h p q
    using find_index_window [OF dist window that(1)] that(2) by simp
  define b1 where "b1 = (if count \<noteq> None then b\<lparr>sb_fullCount := count\<rparr> else b)\<lparr>sb_ids := ?w\<rparr>"
  have b1: "sb_ids b1 = ?w" "sb_skippedBefore b1 = sb_skippedBefore b" "sb_skippedAfter b1 = sb_skippedAfter b"
    "sb_limitBefore b1 = sb_limitBefore b" "sb_limitAfter b1 = sb_limitAfter b"
    "sb_fullCount b1 \<noteq> None \<longrightarrow> sb_fullCount b1 = Some (int (length L))"
    using given(1) old(4) by (auto simp: b1_def)
  define wasMinId where "wasMinId = (if sb_ids b = [] then -1 else hd (sb_ids b))"
  define wasMaxId where "wasMaxId = (if sb_ids b = [] then -1 else last (sb_ids b))"
  define step1 where "step1 = (case before of
      Some n \<Rightarrow> adjustSkippedBefore (hd ms) n b1
    | None \<Rightarrow>
        if wasMinId \<ge> 0 \<and> sb_skippedBefore b1 \<noteq> None
        then adjustSkippedBefore wasMinId (the (sb_skippedBefore b1)) b1
        else Some (b1\<lparr>sb_skippedBefore := None\<rparr>))"
  have "\<exists>v. step1 = Some (b1\<lparr>sb_skippedBefore := v\<rparr>) \<and> (v \<noteq> None \<longrightarrow> v = Some (int (length x)))"
  proof (cases before)
    case (Some n)
    have "find_index (hd ms) ?w = Some (int (length c) - int (length x))"
      using pos [of c "hd ms"] ms hd_split [OF ms(1), of c d] by auto
    then show ?thesis using Some given(2)
      by - (rule exI [of _ "Some (int (length x))"], simp add: step1_def adjustSkippedBefore_def b1(1))
  next
    case None
    show ?thesis
    proof (cases "wasMinId \<ge> 0 \<and> sb_skippedBefore b1 \<noteq> None")
      case True
      then have ids: "sb_ids b \<noteq> []" "wasMinId = hd (sb_ids b)" by (auto simp: wasMinId_def)
      have "find_index wasMinId ?w = Some (int (length a) - int (length x))"
        using pos [of a "hd (sb_ids b)"] old(1) hd_split [OF ids(1), of a e] ids by auto
      then show ?thesis using None True old(2) b1 by (auto simp: step1_def adjustSkippedBefore_def)
    next
      case False
      then show ?thesis using None by (auto simp: step1_def)
    qed
  qed
  then obtain v where v: "step1 = Some (b1\<lparr>sb_skippedBefore := v\<rparr>)"
    "v \<noteq> None \<longrightarrow> v = Some (int (length x))" by blast
  define b2 where "b2 = b1\<lparr>sb_skippedBefore := v\<rparr>"
  have b2: "sb_ids b2 = ?w" "sb_skippedAfter b2 = sb_skippedAfter b" using b1 by (simp_all add: b2_def)
  define step2 where "step2 = (case after of
      Some n \<Rightarrow> adjustSkippedAfter (last ms) n b2
    | None \<Rightarrow>
        if wasMaxId \<ge> 0 \<and> sb_skippedAfter b2 \<noteq> None
        then adjustSkippedAfter wasMaxId (the (sb_skippedAfter b2)) b2
        else Some (b2\<lparr>sb_skippedAfter := None\<rparr>))"
  have "\<exists>u. step2 = Some (b2\<lparr>sb_skippedAfter := u\<rparr>) \<and> (u \<noteq> None \<longrightarrow> u = Some (int (length y)))"
  proof (cases after)
    case (Some n)
    have "find_index (last ms) ?w = Some (int (length (c @ butlast ms)) - int (length x)) \<and>
      int (length d) = int (length ?w) - (int (length (c @ butlast ms)) - int (length x)) - 1 + int (length y)"
      using pos [of "c @ butlast ms" "last ms" d] ms last_split [OF ms(1), of c d] by auto
    then show ?thesis using Some given(3) by (auto simp: step2_def adjustSkippedAfter_def b2(1))
  next
    case None
    show ?thesis
    proof (cases "wasMaxId \<ge> 0 \<and> sb_skippedAfter b2 \<noteq> None")
      case True
      then have ids: "sb_ids b \<noteq> []" "wasMaxId = last (sb_ids b)" by (auto simp: wasMaxId_def)
      have "find_index wasMaxId ?w = Some (int (length (a @ butlast (sb_ids b))) - int (length x)) \<and>
        int (length e) = int (length ?w) - (int (length (a @ butlast (sb_ids b))) - int (length x)) - 1
          + int (length y)"
        using pos [of "a @ butlast (sb_ids b)" "last (sb_ids b)" e] old(1)
          last_split [OF ids(1), of a e] ids by auto
      then show ?thesis using None True old(3) b2 by (auto simp: step2_def adjustSkippedAfter_def)
    next
      case False
      then show ?thesis using None by (auto simp: step2_def)
    qed
  qed
  then obtain u where u: "step2 = Some (b2\<lparr>sb_skippedAfter := u\<rparr>)"
    "u \<noteq> None \<longrightarrow> u = Some (int (length y))" by blast
  let ?b3 = "b2\<lparr>sb_skippedAfter := u\<rparr>"
  have "right_builder L ?b3"
    unfolding right_builder_def right_window_def
    using window v(2) u(2) b1(1,6) by (intro exI [of _ x] exI [of _ y]) (simp add: b2_def)
  moreover have "sb_limitBefore ?b3 = sb_limitBefore b" "sb_limitAfter ?b3 = sb_limitAfter b"
    using b1 by (simp_all add: b2_def)
  ultimately have "right_builder L (fillSkippedAndSliceToLimits ?b3)"
    using b(2,3) by (intro fill_limits_right) simp_all
  moreover define F where "F = (\<lambda>b. map_option fillSkippedAndSliceToLimits (case after of
      Some n \<Rightarrow> adjustSkippedAfter (last ms) n b
    | None \<Rightarrow>
        if wasMaxId \<ge> 0 \<and> sb_skippedAfter b \<noteq> None
        then adjustSkippedAfter wasMaxId (the (sb_skippedAfter b)) b
        else Some (b\<lparr>sb_skippedAfter := None\<rparr>)))"
  have ids0: "sb_ids (if count \<noteq> None then b\<lparr>sb_fullCount := count\<rparr> else b) = sb_ids b" by simp
  have "mergeSliceData count ms before after b = (case step1 of None \<Rightarrow> None | Some b \<Rightarrow> F b)"
    unfolding mergeSliceData_def F_def step1_def wasMinId_def wasMaxId_def b1_def Let_def
      if_not_P [OF ms(1)] ids0 ..
  moreover have "F b2 = map_option fillSkippedAndSliceToLimits step2" by (simp add: F_def step2_def)
  ultimately show ?thesis using u(1) v(1) by (simp add: b2_def)
qed

text \<open>A window is an interval of the list.\<close>

lemma window_interval:
  assumes "ssorted L" "L = a @ w @ c" "w \<noteq> []"
  shows "set w = set L \<inter> {hd w..last w} \<and> hd w \<le> last w"
proof -
  have s: "ssorted a" "ssorted w" "ssorted c" "\<forall>x \<in> set a. \<forall>y \<in> set w. x < y"
    "\<forall>x \<in> set w. \<forall>y \<in> set c. x < y"
    using assms(1,2) by (auto simp: sorted_wrt_append)
  have ends: "hd w \<in> set w" "last w \<in> set w" using assms(3) by simp_all
  have "hd w \<le> x" if "x \<in> set w" for x
  proof (cases w)
    case (Cons h t)
    then show ?thesis using s(2) that by auto
  qed (use assms(3) in simp)
  moreover have "x \<le> last w" if "x \<in> set w" for x
  proof -
    have w: "w = butlast w @ [last w]" using assms(3) by simp
    then have "ssorted (butlast w @ [last w])" using s(2) by simp
    moreover have "x \<in> set (butlast w) \<or> x = last w" using that w by (metis in_set_conv_decomp_last list.set_intros(1) set_ConsD rotate1.simps(2) set_rotate1)
    ultimately show ?thesis by (auto simp: sorted_wrt_append)
  qed
  moreover have "x \<notin> {hd w..last w}" if "x \<in> set a \<union> set c" for x
    using that s(4,5) ends by fastforce
  ultimately show ?thesis using ends unfolding assms(2) by auto
qed

lemma applyUpdate_right:
  assumes L: "ssorted L" "set L \<subseteq> {0<..<ServerMaxMsgId}"
    and b: "right_builder L b" "0 \<le> sb_limitBefore b" "0 \<le> sb_limitAfter b"
    and u: "true_update (set L) u"
  shows "\<exists>changed b'. applyUpdate u b = Some (changed, b') \<and> right_builder L b'"
proof -
  define front where "front = (if sb_ids b = [] then sb_key b else hd (sb_ids b))"
  define bk where "bk = (if sb_ids b = [] then sb_key b else last (sb_ids b))"
  define need where "need \<longleftrightarrow> su_messages u \<noteq> None \<and> su_from u \<le> bk \<and> front \<le> su_till u"
  define bef where "bef = (if su_from u = 0 then Some (0 :: int) else None)"
  define aft where "aft = (if su_till u = ServerMaxMsgId then Some (0 :: int) else None)"
  have eq: "applyUpdate u b =
    (if \<not> need \<and> su_count u = None then Some (False, b)
     else map_option (Pair True)
       (mergeSliceData (su_count u) (if need then the (su_messages u) else []) bef aft b))"
    unfolding applyUpdate_def front_def bk_def need_def bef_def aft_def Let_def ..
  have pos: "\<forall>i \<in> set L. 0 < i" using L(2) by auto
  have count: "su_count u \<noteq> None \<longrightarrow> su_count u = Some (int (length L))"
    using u L(1) by (auto simp: true_update_def ssorted_length_card)
  have empty: "\<exists>b'. mergeSliceData (su_count u) [] bef aft b = Some b' \<and> right_builder L b'"
    by (rule mergeSliceData_empty [OF b count])
  show ?thesis
  proof (cases "need \<and> the (su_messages u) \<noteq> []")
    case False
    then show ?thesis using empty b(1) unfolding eq by auto
  next
    case True
    define ms where "ms = the (su_messages u)"
    have ms: "ssorted ms" "set ms = set L \<inter> {su_from u..su_till u}" "su_from u \<le> su_till u" "ms \<noteq> []"
      using True u by (auto simp: true_update_def ms_def need_def)
    let ?c = "filter (\<lambda>x. x < su_from u) L" and ?d = "filter (\<lambda>x. su_till u < x) L"
    have L_ms: "L = ?c @ ms @ ?d" by (rule ssorted_interval_split [OF L(1) ms(1-3)])
    have c: "bef \<noteq> None \<longrightarrow> bef = Some (int (length ?c))"
      using L(2) by (auto simp: bef_def filter_empty_conv)
    have d: "aft \<noteq> None \<longrightarrow> aft = Some (int (length ?d))"
      using L(2) by (auto simp: aft_def filter_empty_conv)
    obtain a e where ids: "L = a @ sb_ids b @ e"
      using b(1) unfolding right_builder_def right_window_def by blast
    have sorted: "ssorted (sb_ids b)" using L(1) ids by (simp add: sorted_wrt_append)
    have "\<exists>x y. L = x @ flat_merge (sb_ids b) ms @ y"
    proof (cases "sb_ids b = []")
      case True
      then show ?thesis using L_ms flat_merge_ssorted [OF ms(1)] by auto
    next
      case False
      note w = window_interval [OF L(1) ids False]
      have meet: "su_from u \<le> last (sb_ids b)" "hd (sb_ids b) \<le> su_till u"
        using True False by (auto simp: need_def front_def bk_def)
      have "set (flat_merge (sb_ids b) ms) =
          set L \<inter> {min (hd (sb_ids b)) (su_from u)..max (last (sb_ids b)) (su_till u)}"
      proof -
        have "{min (hd (sb_ids b)) (su_from u)..max (last (sb_ids b)) (su_till u)} =
          {hd (sb_ids b)..last (sb_ids b)} \<union> {su_from u..su_till u}"
        proof (rule set_eqI)
          fix z
          show "z \<in> {min (hd (sb_ids b)) (su_from u)..max (last (sb_ids b)) (su_till u)} \<longleftrightarrow>
            z \<in> {hd (sb_ids b)..last (sb_ids b)} \<union> {su_from u..su_till u}"
            unfolding Un_iff atLeastAtMost_iff using meet by linarith
        qed
        then show ?thesis using w ms(2) unfolding set_flat_merge by (metis Int_Un_distrib)
      qed
      moreover have "min (hd (sb_ids b)) (su_from u) \<le> max (last (sb_ids b)) (su_till u)"
        using ms(3) by linarith
      ultimately show ?thesis
        using ssorted_interval_split [OF L(1) ssorted_flat_merge [OF sorted]] by metis
    qed
    then obtain x y where "L = x @ flat_merge (sb_ids b) ms @ y" by blast
    then have "\<exists>b'. mergeSliceData (su_count u) ms bef aft b = Some b' \<and> right_builder L b'"
      by (rule mergeSliceData_right [OF L(1) pos b ms(4) L_ms count c d])
    then show ?thesis using True unfolding eq ms_def by auto
  qed
qed

lemma applyInitial_right:
  assumes L: "ssorted L" "set L \<subseteq> {0<..<ServerMaxMsgId}"
    and b: "0 \<le> limitBefore" "0 \<le> limitAfter"
    and r: "right_window L (ir_messageIds r) (ir_count r) (ir_skippedBefore r) (ir_skippedAfter r)"
  shows "\<exists>b'. applyInitial r (builder_new key limitBefore limitAfter) = Some (True, b') \<and> right_builder L b'"
proof -
  let ?b = "builder_new key limitBefore limitAfter"
  have pos: "\<forall>i \<in> set L. 0 < i" using L(2) by auto
  have new: "right_builder L ?b" by (auto simp: right_builder_def right_window_def builder_new_def)
  obtain c d where r': "L = c @ ir_messageIds r @ d"
    "ir_skippedBefore r \<noteq> None \<longrightarrow> ir_skippedBefore r = Some (int (length c))"
    "ir_skippedAfter r \<noteq> None \<longrightarrow> ir_skippedAfter r = Some (int (length d))"
    "ir_count r \<noteq> None \<longrightarrow> ir_count r = Some (int (length L))"
    using r unfolding right_window_def by blast
  have "\<exists>b'. mergeSliceData (ir_count r) (ir_messageIds r) (ir_skippedBefore r) (ir_skippedAfter r) ?b =
      Some b' \<and> right_builder L b'"
  proof (cases "ir_messageIds r = []")
    case True
    then show ?thesis using mergeSliceData_empty [OF new _ _ r'(4)] b by (simp add: builder_new_def)
  next
    case False
    have "ssorted (ir_messageIds r)" using L(1) r'(1) by (simp add: sorted_wrt_append)
    then have w: "L = c @ flat_merge (sb_ids ?b) (ir_messageIds r) @ d"
      using r'(1) flat_merge_ssorted [of "ir_messageIds r"] by (simp add: builder_new_def)
    show ?thesis
      by (rule mergeSliceData_right [OF L(1) pos new _ _ False r'(1,4,2,3) w])
        (use b in \<open>simp_all add: builder_new_def\<close>)
  qed
  then show ?thesis by (auto simp: applyInitial_def)
qed

lemma flat_remove_absent: "m \<notin> set xs \<Longrightarrow> flat_remove m xs = xs"
  unfolding flat_remove_def by (induction xs) auto

lemma length_flat_remove: "distinct xs \<Longrightarrow> m \<in> set xs \<Longrightarrow> Suc (length (flat_remove m xs)) = length xs"
proof (induction xs)
  case (Cons x xs)
  have "flat_remove m (x # xs) = (if x = m then flat_remove m xs else x # flat_remove m xs)"
    by (simp add: flat_remove_def)
  then show ?case using Cons flat_remove_absent [of m xs] by auto
qed simp

lemma flat_remove_append: "flat_remove m (xs @ ys) = flat_remove m xs @ flat_remove m ys"
  by (simp add: flat_remove_def)

lemma builder_removeOne_right:
  assumes L: "ssorted L" "m \<in> set L"
    and b: "right_builder L b" "0 \<le> sb_limitBefore b" "0 \<le> sb_limitAfter b" "sb_ids b \<noteq> []"
  shows "right_builder (flat_remove m L) (snd (builder_removeOne m b))"
proof -
  obtain a c where old: "L = a @ sb_ids b @ c"
    "sb_skippedBefore b \<noteq> None \<longrightarrow> sb_skippedBefore b = Some (int (length a))"
    "sb_skippedAfter b \<noteq> None \<longrightarrow> sb_skippedAfter b = Some (int (length c))"
    "sb_fullCount b \<noteq> None \<longrightarrow> sb_fullCount b = Some (int (length L))"
    using b(1) unfolding right_builder_def right_window_def by blast
  define b1 where "b1 = (case sb_fullCount b of
      Some n \<Rightarrow> if n > 0 then b\<lparr>sb_fullCount := Some (n - 1)\<rparr> else b | None \<Rightarrow> b)"
  define b2 where "b2 =
    (if m \<in> set (sb_ids b1) then b1\<lparr>sb_ids := flat_remove m (sb_ids b1)\<rparr>
     else if hd (sb_ids b1) > m \<and> (case sb_skippedBefore b1 of Some n \<Rightarrow> n > 0 | None \<Rightarrow> False)
     then b1\<lparr>sb_skippedBefore := map_option (\<lambda>n. n - 1) (sb_skippedBefore b1)\<rparr>
     else if last (sb_ids b1) < m \<and> (case sb_skippedAfter b1 of Some n \<Rightarrow> n > 0 | None \<Rightarrow> False)
     then b1\<lparr>sb_skippedAfter := map_option (\<lambda>n. n - 1) (sb_skippedAfter b1)\<rparr>
     else b1)"
  define p1 where "p1 = (case sb_fullCount b of
      Some n \<Rightarrow> if n > 0 then (True, b\<lparr>sb_fullCount := Some (n - 1)\<rparr>) else (False, b)
    | None \<Rightarrow> (False, b))"
  have p1: "snd p1 = b1" by (simp add: p1_def b1_def split: option.splits)
  have ne: "sb_ids b1 \<noteq> []" using b(4) by (simp add: b1_def split: option.splits)
  have snd: "snd (builder_removeOne m b) = b2 \<or> snd (builder_removeOne m b) = checkInsufficient b2"
    unfolding builder_removeOne_def p1_def [symmetric] Let_def case_prod_beta p1 b2_def
    using ne by (simp split: if_split)
  have len_L: "int (length (flat_remove m L)) = int (length L) - 1" "0 < length L"
    using length_flat_remove [OF ssorted_distinct [OF L(1)] L(2)] by linarith+
  have b1: "sb_ids b1 = sb_ids b" "sb_skippedBefore b1 = sb_skippedBefore b"
    "sb_skippedAfter b1 = sb_skippedAfter b" "sb_limitBefore b1 = sb_limitBefore b"
    "sb_limitAfter b1 = sb_limitAfter b"
    "sb_fullCount b1 \<noteq> None \<longrightarrow> sb_fullCount b1 = Some (int (length (flat_remove m L)))"
    using old(4) len_L by (auto simp: b1_def split: option.splits)
  have b2: "sb_fullCount b2 = sb_fullCount b1" "sb_limitBefore b2 = sb_limitBefore b"
    "sb_limitAfter b2 = sb_limitAfter b"
    by (simp_all add: b2_def b1(4,5))
  have dist: "distinct L" by (rule ssorted_distinct [OF L(1)])
  then have dist_parts: "distinct a" "distinct c" unfolding old(1) by simp_all
  note w = window_interval [OF L(1) old(1) b(4)]
  have order: "\<forall>x \<in> set a. x < hd (sb_ids b)" "\<forall>x \<in> set c. last (sb_ids b) < x"
    using L(1) b(4) old(1) by (auto simp: sorted_wrt_append)
  consider (mid) "m \<in> set (sb_ids b)" "m \<notin> set a" "m \<notin> set c"
    | (left) "m \<in> set a" "m \<notin> set (sb_ids b)" "m \<notin> set c"
    | (right) "m \<in> set c" "m \<notin> set (sb_ids b)" "m \<notin> set a"
    using L(2) dist unfolding old(1) by auto
  then have "right_builder (flat_remove m L) b2"
  proof cases
    case mid
    then have "flat_remove m L = a @ sb_ids b2 @ c"
      unfolding old(1) by (simp add: flat_remove_append flat_remove_absent b2_def b1(1))
    moreover have "sb_skippedBefore b2 = sb_skippedBefore b" "sb_skippedAfter b2 = sb_skippedAfter b"
      using mid(1) b1 by (simp_all add: b2_def)
    ultimately show ?thesis unfolding right_builder_def right_window_def b2(1)
      using old(2,3) b1(6) by - (rule exI [of _ a], rule exI [of _ c], simp)
  next
    case left
    then have less: "m < hd (sb_ids b)" "\<not> last (sb_ids b) < m" using order(1) w by fastforce+
    have len: "int (length (flat_remove m a)) = int (length a) - 1" "0 < length a"
      using length_flat_remove [OF dist_parts(1) left(1)] by linarith+
    have "sb_ids b2 = sb_ids b" "sb_skippedAfter b2 = sb_skippedAfter b"
      "sb_skippedBefore b2 = map_option (\<lambda>n. n - 1) (sb_skippedBefore b)"
      using left(2) less len(2) old(2) b1 by (auto simp: b2_def split: option.splits)
    moreover have "flat_remove m L = flat_remove m a @ sb_ids b @ c"
      using left unfolding old(1) by (simp add: flat_remove_append flat_remove_absent)
    ultimately show ?thesis unfolding right_builder_def right_window_def b2(1)
      using old(2,3) b1(6) len
      by - (rule exI [of _ "flat_remove m a"], rule exI [of _ c], auto)
  next
    case right
    then have less: "last (sb_ids b) < m" "\<not> m < hd (sb_ids b)" using order(2) w by fastforce+
    have len: "int (length (flat_remove m c)) = int (length c) - 1" "0 < length c"
      using length_flat_remove [OF dist_parts(2) right(1)] by linarith+
    have "sb_ids b2 = sb_ids b" "sb_skippedBefore b2 = sb_skippedBefore b"
      "sb_skippedAfter b2 = map_option (\<lambda>n. n - 1) (sb_skippedAfter b)"
      using right(2) less len(2) old(3) b1 by (auto simp: b2_def split: option.splits)
    moreover have "flat_remove m L = a @ sb_ids b @ flat_remove m c"
      using right unfolding old(1) by (simp add: flat_remove_append flat_remove_absent)
    ultimately show ?thesis unfolding right_builder_def right_window_def b2(1)
      using old(2,3) b1(6) len
      by - (rule exI [of _ a], rule exI [of _ "flat_remove m c"], auto)
  qed
  then show ?thesis
    using snd sliceToLimits_right [of "flat_remove m L" b2] b(2,3) b2(2,3)
    by (auto simp: checkInsufficient_def)
qed

lemma filter_sides:
  assumes "\<forall>x \<in> set xs. P x" "\<forall>x \<in> set ys. \<not> P x"
  shows "filter P (xs @ ys) = xs" "filter (\<lambda>x. \<not> P x) (xs @ ys) = ys"
proof -
  have "filter P xs = xs" "filter (\<lambda>x. \<not> P x) ys = ys" using assms by (simp_all add: filter_id_conv)
  moreover have "filter P ys = []" "filter (\<lambda>x. \<not> P x) xs = []"
    using assms by (simp_all add: filter_empty_conv)
  ultimately show "filter P (xs @ ys) = xs" "filter (\<lambda>x. \<not> P x) (xs @ ys) = ys" by simp_all
qed

text \<open>The whole effect of \<open>sliceToLimits\<close> around a key.\<close>

lemma take_all_but: "take (length xs - (length xs - n)) xs = take n xs"
  by (cases "n \<le> length xs") simp_all

lemma sliceToLimits_exact:
  assumes "ssorted (sb_ids b)" "sb_key b \<noteq> 0" "0 \<le> sb_limitBefore b" "0 \<le> sb_limitAfter b"
    and "\<forall>n. sb_skippedBefore b = Some n \<longrightarrow> 0 \<le> n" "\<forall>n. sb_skippedAfter b = Some n \<longrightarrow> 0 \<le> n"
    and below: "below = filter (\<lambda>i. i < sb_key b) (sb_ids b)" and onwards: "onwards = filter (\<lambda>i. sb_key b \<le> i) (sb_ids b)"
    and kept: "kept = drop (length below - nat (sb_limitBefore b)) below @ take (nat (sb_limitAfter b + 1)) onwards"
    and shortBefore: "shortBefore \<longleftrightarrow> int (length below) < sb_limitBefore b \<and> sb_skippedBefore b \<noteq> Some 0"
    and shortAfter: "shortAfter \<longleftrightarrow> int (length onwards) < sb_limitAfter b + 1 \<and> sb_skippedAfter b \<noteq> Some 0"
  shows "sb_ids (sliceToLimits b) = kept \<and>
    sb_skippedBefore (sliceToLimits b)
      = map_option (\<lambda>n. n + int (length below - nat (sb_limitBefore b))) (sb_skippedBefore b) \<and>
    sb_skippedAfter (sliceToLimits b)
      = map_option (\<lambda>n. n + int (length onwards - nat (sb_limitAfter b + 1))) (sb_skippedAfter b) \<and>
    sb_fullCount (sliceToLimits b) = sb_fullCount b \<and>
    sb_insufficient (sliceToLimits b) = sb_insufficient b @
      (if shortBefore then [if kept = [] then (sb_key b, Around) else (hd kept, Before)] else []) @
      (if shortAfter then [if kept = [] then (sb_key b, Around) else (last kept, After)] else []) @
      (if sb_fullCount b = None \<and> \<not> shortBefore \<and> \<not> shortAfter then [(0, Around)] else [])"
proof -
  let ?p = "lower_bound (\<lambda>m. m) (sb_ids b) (sb_key b)"
  have split: "take ?p (sb_ids b) = below" "drop ?p (sb_ids b) = onwards"
    using split_lower_bound [of "\<lambda>m. m" "sb_ids b" "sb_key b"] assms(1) by (simp_all add: below onwards not_less)
  have ids: "sb_ids b = below @ onwards" unfolding split [symmetric] by simp
  have p: "?p = length below" unfolding split(1) [symmetric] by simp
  have cuts: "cut_begin b = length below - nat (sb_limitBefore b)" "cut_end b = length onwards - nat (sb_limitAfter b + 1)"
    using assms(3,4) unfolding cut_begin_def cut_end_def p by (simp_all add: ids nat_diff_distrib nat_add_distrib)
  have window: "take (length (sb_ids b) - cut_begin b - cut_end b) (drop (cut_begin b) (sb_ids b)) = kept"
    unfolding kept cuts ids by (simp add: take_all_but)
  define b1 where "b1 = (if int (length below) - sb_limitBefore b > 0
      then b\<lparr>sb_ids := drop (nat (int (length below) - sb_limitBefore b)) (sb_ids b),
        sb_skippedBefore := map_option (\<lambda>n. n + (int (length below) - sb_limitBefore b)) (sb_skippedBefore b)\<rparr>
      else if shortBefore then requestMessages Before b else b)"
  define over where "over = int (length (sb_ids b)) - int (length below) - sb_limitAfter b - 1"
  define b2 where "b2 = (if over > 0
      then b1\<lparr>sb_ids := take (length (sb_ids b1) - nat over) (sb_ids b1),
        sb_skippedAfter := map_option (\<lambda>n. n + over) (sb_skippedAfter b1)\<rparr>
      else if shortAfter then requestMessages After b1 else b1)"
  have over: "over = int (length onwards) - (sb_limitAfter b + 1)" by (simp add: over_def ids)
  have neg: "(case sb_skippedBefore b of None \<Rightarrow> True | Some n \<Rightarrow> n > 0) \<longleftrightarrow> sb_skippedBefore b \<noteq> Some 0"
    "(case sb_skippedAfter b of None \<Rightarrow> True | Some n \<Rightarrow> n > 0) \<longleftrightarrow> sb_skippedAfter b \<noteq> Some 0"
    using assms(5,6) by (auto split: option.splits)
  have b1_after: "sb_skippedAfter b1 = sb_skippedAfter b" "sb_fullCount b1 = sb_fullCount b" "sb_key b1 = sb_key b"
    "sb_limitAfter b1 = sb_limitAfter b"
    by (simp_all add: b1_def)
  have conds: "int (length below) - sb_limitBefore b < 0 \<and> sb_skippedBefore b \<noteq> Some 0 \<longleftrightarrow> shortBefore"
    "over < 0 \<and> sb_skippedAfter b \<noteq> Some 0 \<longleftrightarrow> shortAfter"
    unfolding shortBefore shortAfter over by auto
  have result: "sliceToLimits b = (if sb_fullCount b = None \<and> \<not> shortBefore \<and> \<not> shortAfter
      then requestMessagesCount b2 else b2)"
  proof -
    have first: "(if int (length below) - sb_limitBefore b > 0
        then (b\<lparr>sb_ids := drop (nat (int (length below) - sb_limitBefore b)) (sb_ids b),
          sb_skippedBefore := map_option (\<lambda>n. n + (int (length below) - sb_limitBefore b)) (sb_skippedBefore b)\<rparr>, False)
        else if int (length below) - sb_limitBefore b < 0 \<and> sb_skippedBefore b \<noteq> Some 0
        then (requestMessages Before b, True) else (b, False)) = (b1, shortBefore)"
      unfolding b1_def using conds(1) by auto
    have second: "(if over > 0
        then (b1\<lparr>sb_ids := take (length (sb_ids b1) - nat over) (sb_ids b1),
          sb_skippedAfter := map_option (\<lambda>n. n + over) (sb_skippedAfter b)\<rparr>, shortBefore)
        else if over < 0 \<and> sb_skippedAfter b \<noteq> Some 0
        then (requestMessages After b1, True) else (b1, shortBefore)) = (b2, shortBefore \<or> shortAfter)"
      unfolding b2_def b1_after(1) using conds(2) by auto
    have "sb_fullCount b2 = sb_fullCount b" by (simp add: b2_def b1_after)
    then show ?thesis
      unfolding sliceToLimits_def if_not_P [OF assms(2)] Let_def p over_def [symmetric] neg(1) first prod.case
        b1_after(1) neg(2) second by simp
  qed
  have "shortBefore \<Longrightarrow> \<not> int (length below) - sb_limitBefore b > 0" "shortAfter \<Longrightarrow> \<not> over > 0"
    unfolding shortBefore shortAfter over by auto
  then have i1: "sb_insufficient b1 = sb_insufficient b @
      (if shortBefore then [if sb_ids b = [] then (sb_key b, Around) else (hd (sb_ids b), Before)] else [])"
    and i2: "sb_insufficient b2 = sb_insufficient b1 @
      (if shortAfter then [if sb_ids b1 = [] then (sb_key b, Around) else (last (sb_ids b1), After)] else [])"
    using b1_after(3) by (simp_all add: b1_def b2_def requestMessages_def fire_def)
  have k1: "(sb_ids b = []) = (kept = []) \<and> (kept \<noteq> [] \<longrightarrow> hd (sb_ids b) = hd kept)" if shortBefore
  proof -
    obtain k where "nat (sb_limitAfter b + 1) = Suc k" using assms(4) by (metis Suc_nat_eq_nat_zadd1 add.commute)
    moreover have "length below - nat (sb_limitBefore b) = 0" using that unfolding shortBefore by linarith
    ultimately show ?thesis unfolding kept ids by (cases below; cases onwards) auto
  qed
  have k2: "sb_ids b1 = kept" if shortAfter
  proof -
    have "take (nat (sb_limitAfter b + 1)) onwards = onwards"
      by (rule take_all) (use that in \<open>unfold shortAfter, linarith\<close>)
    moreover have "nat (int (length below) - sb_limitBefore b) = length below - nat (sb_limitBefore b)"
      using assms(3) by (simp add: nat_diff_distrib)
    ultimately show ?thesis unfolding kept b1_def using ids by auto
  qed
  have "sb_insufficient (sliceToLimits b) = sb_insufficient b2 @
      (if sb_fullCount b = None \<and> \<not> shortBefore \<and> \<not> shortAfter then [(0, Around)] else [])"
    unfolding result by (simp add: requestMessagesCount_def fire_def)
  then show ?thesis
    using sliceToLimits_fields [OF assms(2), unfolded window, unfolded cuts] i1 i2 k1 k2 by simp
qed

section \<open>Changes at the end of the list\<close>

text \<open>An update meets a window when its messages are merged into it.\<close>

definition meets :: "msg_id ids_slice_update \<Rightarrow> ids_builder \<Rightarrow> bool" where
  "meets u b \<longleftrightarrow> su_messages u \<noteq> None \<and>
    su_from u \<le> (if sb_ids b = [] then sb_key b else last (sb_ids b)) \<and>
    (if sb_ids b = [] then sb_key b else hd (sb_ids b)) \<le> su_till u"

text \<open>Without what a new message at the end makes wrong: the full count and the number after.\<close>

definition forget_after :: "ids_builder \<Rightarrow> ids_builder" where
  "forget_after b = b\<lparr>sb_fullCount := None, sb_skippedAfter := None\<rparr>"

lemma forget_after_right:
  assumes "right_builder L b" shows "right_builder (L @ new) (forget_after b)"
proof -
  obtain a c where "L = a @ sb_ids b @ c" "sb_skippedBefore b \<noteq> None \<longrightarrow> sb_skippedBefore b = Some (int (length a))"
    using assms unfolding right_builder_def right_window_def by blast
  then show ?thesis unfolding right_builder_def right_window_def forget_after_def
    by (intro exI [of _ a] exI [of _ "c @ new"]) simp
qed

lemma forget_after_sel [simp]:
  "sb_ids (forget_after b) = sb_ids b" "sb_key (forget_after b) = sb_key b"
  "sb_limitBefore (forget_after b) = sb_limitBefore b" "sb_limitAfter (forget_after b) = sb_limitAfter b"
  "sb_skippedBefore (forget_after b) = sb_skippedBefore b" "sb_skippedAfter (forget_after b) = None"
  "sb_fullCount (forget_after b) = None"
  by (simp_all add: forget_after_def)

lemma applyUpdate_meets:
  "applyUpdate u b =
    (if \<not> meets u b \<and> su_count u = None then Some (False, b)
     else map_option (Pair True) (mergeSliceData (su_count u) (if meets u b then the (su_messages u) else [])
       (if su_from u = 0 then Some 0 else None) (if su_till u = ServerMaxMsgId then Some 0 else None) b))"
  unfolding applyUpdate_def meets_def Let_def ..

lemma meets_forget_after [simp]: "meets u (forget_after b) = meets u b"
  by (simp add: meets_def)

lemma mergeSliceData_forgets:
  assumes "ms \<noteq> []" "count = None \<longrightarrow> sb_fullCount b = None"
  shows "mergeSliceData count ms before (Some n) b = mergeSliceData count ms before (Some n) (forget_after b)"
  using assms
  by (cases b; cases count; cases before)
    (auto simp: mergeSliceData_def forget_after_def adjustSkippedBefore_def adjustSkippedAfter_def Let_def
      split: option.split)

text \<open>A new message at the end: the update lists everything from some point up to the end.\<close>

definition new_last_update :: "msg_id list \<Rightarrow> msg_id \<Rightarrow> msg_id ids_slice_update \<Rightarrow> bool" where
  "new_last_update L m u \<longleftrightarrow> true_update (set (L @ [m])) u \<and> su_messages u \<noteq> None \<and>
    su_from u \<le> m \<and> su_till u = ServerMaxMsgId"

lemma applyUpdate_new_right:
  assumes L: "ssorted (L @ [m])" "set (L @ [m]) \<subseteq> {0<..<ServerMaxMsgId}"
    and b: "right_builder L b" "0 \<le> sb_limitBefore b" "0 \<le> sb_limitAfter b"
    and u: "new_last_update L m u" "su_count u = None \<longrightarrow> sb_fullCount b = None"
    and seen: "meets u b \<or> sb_skippedAfter b = None"
  shows "\<exists>changed b'. applyUpdate u b = Some (changed, b') \<and> right_builder (L @ [m]) b'"
proof -
  note old = forget_after_right [OF b(1), of "[m]"]
  have t: "true_update (set (L @ [m])) u" "su_messages u \<noteq> None" "su_till u = ServerMaxMsgId" "su_from u \<le> m"
    using u(1) by (simp_all add: new_last_update_def)
  have right: "\<exists>changed b'. applyUpdate u (forget_after b) = Some (changed, b') \<and> right_builder (L @ [m]) b'"
    by (rule applyUpdate_right [OF L old _ _ t(1)]) (use b(2,3) in simp_all)
  show ?thesis
  proof (cases "meets u b")
    case True
    obtain ms where ms: "su_messages u = Some ms" using t(2) by blast
    then have "set ms = set (L @ [m]) \<inter> {su_from u..su_till u}" using t(1) by (simp add: true_update_def)
    then have "m \<in> set ms" using t(3,4) L(2) by auto
    then have "ms \<noteq> []" by auto
    have "applyUpdate u b = applyUpdate u (forget_after b)"
      using True mergeSliceData_forgets [OF \<open>ms \<noteq> []\<close> u(2)] t(3) ms
      by (simp add: applyUpdate_meets)
    then show ?thesis using right by simp
  next
    case False
    then have none: "sb_skippedAfter b = None" using seen by blast
    show ?thesis
    proof (cases "su_count u")
      case None
      then have "forget_after b = b" using u(2) none by (cases b) (simp add: forget_after_def)
      then show ?thesis using right by simp
    next
      case (Some n)
      then have n: "n = int (length L) + 1"
        using t(1) ssorted_length_card [OF L(1)] by (simp add: true_update_def)
      have "sb_fullCount b = None \<or> sb_fullCount b = Some (int (length L))" "length (sb_ids b) \<le> length L"
        using b(1) unfolding right_builder_def right_window_def by auto
      then have "mergeSliceData (Some n) [] x y b = mergeSliceData (Some n) [] x y (forget_after b)" for x y
        using n none by (cases b) (auto simp: mergeSliceData_def forget_after_def)
      then have "applyUpdate u b = applyUpdate u (forget_after b)"
        using False Some by (simp add: applyUpdate_meets)
      then show ?thesis using right by simp
    qed
  qed
qed

text \<open>A removal is noticed by a window that is not empty, and by an empty one that knows neither of
  the numbers before and after.\<close>

lemma builder_removeOne_empty_right:
  assumes "ssorted L" "m \<in> set L" "right_builder L b" "0 \<le> sb_limitBefore b" "0 \<le> sb_limitAfter b"
    and "sb_ids b = []" "sb_skippedBefore b = None" "sb_skippedAfter b = None"
  shows "right_builder (flat_remove m L) (snd (builder_removeOne m b))"
proof -
  have len: "int (length (flat_remove m L)) = int (length L) - 1" "0 < int (length L)"
    using length_flat_remove [OF ssorted_distinct [OF assms(1)] assms(2)] by linarith+
  have right: "right_builder (flat_remove m L) (b\<lparr>sb_fullCount := c\<rparr>)"
    if "c \<in> {None, Some (int (length L) - 1)}" for c
    using that assms(6-8) len(1) unfolding right_builder_def right_window_def by auto
  show ?thesis
  proof (cases "sb_fullCount b")
    case None
    then have "b\<lparr>sb_fullCount := None\<rparr> = b" by (cases b) simp
    moreover have "snd (builder_removeOne m b) = b" using None assms(6) by (simp add: builder_removeOne_def)
    ultimately show ?thesis using right [of None] by simp
  next
    case (Some n)
    then have "n = int (length L)" using assms(3) by (auto simp: right_builder_def right_window_def)
    then show ?thesis
      using sliceToLimits_right [OF right [of "Some (n - 1)"]] Some len(2) assms(4-6)
      by (simp add: builder_removeOne_def checkInsufficient_def)
  qed
qed

text \<open>What \<open>invalidateBottom\<close> leaves is right about any continuation of the list.\<close>

lemma invalidateBottom_right:
  assumes "right_builder L b" "0 \<le> sb_limitBefore b" "0 \<le> sb_limitAfter b"
  shows "right_builder (L @ new) (snd (builder_invalidateBottom b))"
  using sliceToLimits_right [OF forget_after_right [OF assms(1), of new]] assms(2,3)
  by (simp add: builder_invalidateBottom_def checkInsufficient_def forget_after_def)

lemma removeAll_right: "right_builder [] (snd (builder_removeAll b))"
  by (simp add: builder_removeAll_def right_builder_def right_window_def)

section \<open>Properties\<close>


text \<open>Two messages around 20 of the list 5, 9, 20, 30, 41, of which everything up to 35 is known.\<close>

definition sample_builder :: ids_builder where
  "sample_builder = (builder_new 20 1 0)\<lparr>sb_ids := [9, 20], sb_fullCount := Some 5,
    sb_skippedBefore := Some 1, sb_skippedAfter := Some 2\<rparr>"

lemma sample_builder_right:
  "right_builder [5, 9, 20, 30, 41] sample_builder" "0 \<le> sb_limitBefore sample_builder" "0 \<le> sb_limitAfter sample_builder"
  "ssorted [5, 9, 20, 30, 41 :: msg_id]" "sb_key sample_builder = 20"
proof -
  have "[5, 9, 20, 30, 41 :: msg_id] = [5] @ [9, 20] @ [30, 41]" by simp
  then show "right_builder [5, 9, 20, 30, 41] sample_builder"
    unfolding right_builder_def right_window_def
    by (intro exI [of _ "[5]"] exI [of _ "[30, 41]"]) (simp add: sample_builder_def builder_new_def)
qed (simp_all add: sample_builder_def builder_new_def)

definition sample_update :: "msg_id ids_slice_update" where
  "sample_update = \<lparr>su_messages = Some [9, 20, 30], su_from = 7, su_till = 35, su_count = Some 5\<rparr>"


text \<open>
  C13: around a key, \<open>sliceToLimits\<close> keeps exactly the last \<open>limitBefore\<close> messages before it and the
  first \<open>limitAfter + 1\<close> from it on (all of them when there are fewer), and adds what it drops to the
  numbers of skipped messages, so the window stays right. On a side that has fewer messages than
  asked for and is not known to be complete it asks for more, from the first or last message
  kept; when it asks for nothing and the full count is not known, it asks for the count.
\<close>

theorem slice_to_limits_right:
  assumes "right_builder L b" "0 \<le> sb_limitBefore b" "0 \<le> sb_limitAfter b" "ssorted L" "sb_key b \<noteq> 0"
    and "below = filter (\<lambda>i. i < sb_key b) (sb_ids b)" "onwards = filter (\<lambda>i. sb_key b \<le> i) (sb_ids b)"
    and "kept = drop (length below - nat (sb_limitBefore b)) below @ take (nat (sb_limitAfter b + 1)) onwards"
    and "shortBefore \<longleftrightarrow> int (length below) < sb_limitBefore b \<and> sb_skippedBefore b \<noteq> Some 0"
    and "shortAfter \<longleftrightarrow> int (length onwards) < sb_limitAfter b + 1 \<and> sb_skippedAfter b \<noteq> Some 0"
  shows "sb_ids (sliceToLimits b) = kept \<and>
    sb_skippedBefore (sliceToLimits b)
      = map_option (\<lambda>n. n + int (length below - nat (sb_limitBefore b))) (sb_skippedBefore b) \<and>
    sb_skippedAfter (sliceToLimits b)
      = map_option (\<lambda>n. n + int (length onwards - nat (sb_limitAfter b + 1))) (sb_skippedAfter b) \<and>
    sb_fullCount (sliceToLimits b) = sb_fullCount b \<and>
    right_builder L (sliceToLimits b) \<and>
    sb_insufficient (sliceToLimits b) = sb_insufficient b @
      (if shortBefore then [if kept = [] then (sb_key b, Around) else (hd kept, Before)] else []) @
      (if shortAfter then [if kept = [] then (sb_key b, Around) else (last kept, After)] else []) @
      (if sb_fullCount b = None \<and> \<not> shortBefore \<and> \<not> shortAfter then [(0, Around)] else [])"
proof -
  obtain a c where ac: "L = a @ sb_ids b @ c"
    "sb_skippedBefore b \<noteq> None \<longrightarrow> sb_skippedBefore b = Some (int (length a))"
    "sb_skippedAfter b \<noteq> None \<longrightarrow> sb_skippedAfter b = Some (int (length c))"
    using assms(1) unfolding right_builder_def right_window_def by blast
  then have sorted: "ssorted (sb_ids b)" using assms(4) by (simp add: sorted_wrt_append)
  have skipped: "\<forall>n. sb_skippedBefore b = Some n \<longrightarrow> 0 \<le> n" "\<forall>n. sb_skippedAfter b = Some n \<longrightarrow> 0 \<le> n"
    using ac by auto
  note exact = sliceToLimits_exact [OF sorted assms(5,2,3) skipped assms(6-10)]
  show ?thesis using exact sliceToLimits_right [OF assms(1-3)] by blast
qed

text \<open>A window of three around 20, with two known after it, that is cut to one before and itself.\<close>

lemma slice_to_limits_right_witness:
  "sb_ids (sliceToLimits (sample_builder\<lparr>sb_ids := [5, 9, 20, 30, 41], sb_skippedBefore := Some 0, sb_skippedAfter := Some 0\<rparr>))
      = [9, 20] \<and>
   sb_skippedAfter (sliceToLimits (sample_builder\<lparr>sb_ids := [5, 9, 20, 30, 41], sb_skippedBefore := Some 0, sb_skippedAfter := Some 0\<rparr>))
      = Some 2"
proof -
  let ?b = "sample_builder\<lparr>sb_ids := [5, 9, 20, 30, 41], sb_skippedBefore := Some 0, sb_skippedAfter := Some 0\<rparr>"
  have b: "right_builder [5, 9, 20, 30, 41] ?b" "sb_key ?b \<noteq> 0" "0 \<le> sb_limitBefore ?b" "0 \<le> sb_limitAfter ?b"
    by (simp_all add: right_builder_def right_window_def sample_builder_def builder_new_def)
  show ?thesis
    using slice_to_limits_right [OF b(1,3,4) sample_builder_right(4) b(2) refl refl refl refl refl]
    by (simp add: sample_builder_def builder_new_def)
qed

text \<open>
  C29: a window that gives the numbers of messages before and after it goes wrong when a new last
  message arrives in an update that does not meet it: the full count grows by one, the number
  after does not, so the numbers and the messages held add up to one less than the full count.
\<close>

theorem slice_count_goes_stale:
  assumes "right_builder L b" "0 \<le> sb_limitBefore b" "0 \<le> sb_limitAfter b"
    and "sb_skippedBefore b = Some before" "sb_skippedAfter b = Some after"
    and "\<not> meets u b" "su_count u = Some (int (length L) + 1)"
  shows "\<exists>b' k j. applyUpdate u b = Some (True, b') \<and> sb_fullCount b' = Some (int (length L) + 1) \<and>
    sb_skippedBefore b' = Some k \<and> sb_skippedAfter b' = Some j \<and>
    k + int (length (sb_ids b')) + j = int (length L)"
proof -
  let ?b = "b\<lparr>sb_fullCount := Some (int (length L) + 1)\<rparr>"
  obtain a c where ac: "L = a @ sb_ids b @ c" "before = int (length a)" "after = int (length c)"
    "sb_fullCount b \<noteq> None \<longrightarrow> sb_fullCount b = Some (int (length L))"
    using assms(1,4,5) unfolding right_builder_def right_window_def by auto
  then have total: "before + int (length (sb_ids b)) + after = int (length L)" by simp
  have "sb_fullCount b \<noteq> Some (int (length L) + 1)" using ac(4) by auto
  moreover have "\<not> int (length L) + 1 \<le> int (length (sb_ids b))" using ac(1) by simp
  ultimately have step: "applyUpdate u b = Some (True, sliceToLimits ?b)"
    using assms(4-7) by (simp add: applyUpdate_meets mergeSliceData_def fillSkippedAndSliceToLimits_def fillSkipped_def)
  show ?thesis
  proof (cases "sb_key b = 0")
    case True
    then have "sliceToLimits ?b = ?b" by (simp add: sliceToLimits_def)
    then show ?thesis using step total assms(4,5) by simp
  next
    case False
    then have key: "sb_key ?b \<noteq> 0" by simp
    have p: "lower_bound (\<lambda>m. m) (sb_ids b) (sb_key b) \<le> length (sb_ids b)" by simp
    have cut: "cut_begin ?b + cut_end ?b \<le> length (sb_ids b)"
    proof -
      have "cut_begin ?b = cut_begin b" "cut_end ?b = cut_end b" by (simp_all add: cut_begin_def cut_end_def)
      then show ?thesis using p assms(2,3) unfolding cut_begin_def cut_end_def by linarith
    qed
    note fields = sliceToLimits_fields [OF key]
    have "length (sb_ids (sliceToLimits ?b)) = length (sb_ids b) - cut_begin ?b - cut_end ?b"
      using fields cut by simp
    then show ?thesis using step fields total cut assms(4,5) by simp
  qed
qed

text \<open>A message 50 is added to the list of which everything up to 35 is known.\<close>

lemma slice_count_goes_stale_witness:
  "\<exists>l' u b'. addNew 50 sample_known = Some l' \<and> il_updates l' = [u] \<and> applyUpdate u sample_builder = Some (True, b') \<and>
    sb_fullCount b' = Some 6 \<and> (\<exists>k j. sb_skippedBefore b' = Some k \<and> sb_skippedAfter b' = Some j \<and>
      k + int (length (sb_ids b')) + j = 5)"
proof -
  let ?u = "\<lparr>su_messages = Some [50], su_from = 50, su_till = ServerMaxMsgId, su_count = Some 6\<rparr> :: msg_id ids_slice_update"
  have "\<exists>l'. addNew 50 sample_known = Some l' \<and> il_updates l' = [?u]"
    by (simp add: addNew_def addRange_def addRangeItemsAndCountNew_def uniteOrEmplace_def sample_known_def
        lower_bound_def upper_bound_def Let_def flat_merge_def slice_update_new_def ServerMaxMsgId_def)
  moreover have "\<not> meets ?u sample_builder" by (simp add: meets_def sample_builder_def builder_new_def)
  moreover have "sb_skippedBefore sample_builder = Some 1" "sb_skippedAfter sample_builder = Some 2"
    by (simp_all add: sample_builder_def)
  ultimately show ?thesis
    using slice_count_goes_stale [OF sample_builder_right(1-3), of 1 2 ?u] by auto
qed

text \<open>
  A merged slice that has its migrated part wherever the code looks at it.
\<close>

definition merged_ok :: "merged_slice \<Rightarrow> bool" where
  "merged_ok m \<longleftrightarrow>
    mg_unsorted m = None \<and>
    (mg_migrated m = None \<longrightarrow> IsServerMsgId (mk_universalId (mg_key m))) \<and>
    distinct (si_ids (mg_part m)) \<and>
    (\<forall>g. mg_migrated m = Some g \<longrightarrow> distinct (si_ids g)) \<and>
    mk_peerId (mg_key m) \<noteq> mk_migratedPeerId (mg_key m)"

lemma not_both_isolated: "\<not> (isolatedInPart m \<and> isolatedInMigrated m)"
  by (auto simp: isolatedInPart_def isolatedInMigrated_def IsServerMsgId_def)

lemma si_at_indexOf:
  "distinct (si_ids s) \<Longrightarrow> si_at i s = Some x \<Longrightarrow> si_indexOf x s = Some i"
  by (auto simp: si_at_def si_indexOf_def si_size_def find_index_nth split: if_splits)

lemma si_at_Some: "0 \<le> i \<Longrightarrow> i < si_size s \<Longrightarrow> \<exists>x. si_at i s = Some x"
  by (simp add: si_at_def)

text \<open>
  C14: positions in a merged slice. On a merged slice with distinct messages of two different
  peers, \<open>operator[]\<close> is defined on every position below the size, and \<open>indexOf\<close> finds its result
  at that position again.
\<close>

theorem merged_slice_positions:
  assumes "merged_ok m" "0 \<le> i" "i < mg_size m"
  shows "\<exists>f. mg_at i m = Some f \<and> mg_indexOf f m = Some i"
proof -
  have ok: "mg_unsorted m = None" "distinct (si_ids (mg_part m))"
    "mk_peerId (mg_key m) \<noteq> mk_migratedPeerId (mg_key m)"
    "mg_migrated m = None \<Longrightarrow> isolatedInPart m"
    using assms(1) by (auto simp: merged_ok_def isolatedInPart_def)
  show ?thesis
  proof (cases "migratedSize m \<noteq> 0 \<and> i < migratedSize m")
    case True
    then have part: "\<not> isolatedInPart m" by (auto simp: migratedSize_def)
    then obtain g where g: "mg_migrated m = Some g" "migratedSize m = si_size g"
      using ok(4) by (auto simp: migratedSize_def)
    obtain x where x: "si_at i g = Some x" using si_at_Some assms(2) True g(2) by metis
    have "distinct (si_ids g)" using assms(1) g(1) by (simp add: merged_ok_def)
    from si_at_indexOf [OF this x] show ?thesis
      using True x part g ok(1,3) assms(2,3)
      by (simp add: mg_at_def mg_indexOf_def ComputeId_def isFromPart_def isFromMigrated_def)
  next
    case False
    have pos: "0 \<le> migratedSize m" by (simp add: migratedSize_def si_size_def)
    have "\<not> isolatedInMigrated m"
    proof
      assume "isolatedInMigrated m"
      then have "\<not> isolatedInPart m" "mg_size m = migratedSize m"
        using not_both_isolated [of m] ok(1) by (auto simp: mg_size_def)
      then show False using False assms(2,3) pos by auto
    qed
    then have size: "mg_size m = migratedSize m + si_size (mg_part m)"
      using ok(1) by (simp add: mg_size_def migratedSize_def)
    let ?j = "i - migratedSize m"
    have "0 \<le> ?j" "?j < si_size (mg_part m)" using False assms(2,3) size pos by auto
    then obtain x where x: "si_at ?j (mg_part m) = Some x" using si_at_Some by blast
    from si_at_indexOf [OF ok(2) x] show ?thesis
      using False x ok(1) assms(2,3)
      by (cases "migratedSize m = 0")
        (auto simp: mg_at_def mg_indexOf_def ComputeId_def isFromPart_def Let_def)
  qed
qed

definition sample_merged :: merged_slice where
  "sample_merged = \<lparr>mg_key = merged_key_make 5 0 7 (-3),
    mg_part = \<lparr>si_ids = [2, 4], si_fullCount = Some 2, si_skippedBefore = Some 0, si_skippedAfter = Some 0\<rparr>,
    mg_migrated = Some \<lparr>si_ids = [8], si_fullCount = Some 3, si_skippedBefore = Some 2, si_skippedAfter = Some 0\<rparr>,
    mg_unsorted = None\<rparr>"

lemma merged_slice_positions_witness:
  "\<exists>f. mg_at 2 sample_merged = Some f \<and> mg_indexOf f sample_merged = Some 2"
  by (rule merged_slice_positions)
    (simp_all add: merged_ok_def sample_merged_def merged_key_make_def mg_size_def isolatedInPart_def
      isolatedInMigrated_def migratedSize_def si_size_def IsServerMsgId_def ServerMaxMsgId_def)

text \<open>
  the numbers of a merged slice add up. When in each of the two parts the messages skipped
  before, held and skipped after make up its full count, they do so in the merged slice, also
  when only one of the parts is shown.
\<close>

theorem merged_slice_counts:
  assumes "merged_ok m"
    and "si_fullCount (mg_part m) = Some n" "si_skippedBefore (mg_part m) = Some b"
      "si_skippedAfter (mg_part m) = Some a" "b + si_size (mg_part m) + a = n"
    and "mg_migrated m = Some g" "si_fullCount g = Some n'" "si_skippedBefore g = Some b'"
      "si_skippedAfter g = Some a'" "b' + si_size g + a' = n'"
  shows "\<exists>bm am. mg_skippedBefore m = Some bm \<and> mg_skippedAfter m = Some am \<and>
    mg_fullCount m = Some (n + n') \<and> bm + mg_size m + am = n + n'"
  using assms not_both_isolated [of m]
  by (cases "isolatedInPart m"; cases "isolatedInMigrated m")
    (auto simp: merged_ok_def mg_skippedBefore_def mg_skippedAfter_def mg_fullCount_def mg_size_def
      migratedSize_def)

lemma merged_slice_counts_witness:
  "\<exists>bm am. mg_skippedBefore sample_merged = Some bm \<and> mg_skippedAfter sample_merged = Some am \<and>
    mg_fullCount sample_merged = Some (2 + 3) \<and> bm + mg_size sample_merged + am = 2 + 3"
  by (rule merged_slice_counts [where b = 0 and a = 0 and b' = 2 and a' = 0 and
        g = "\<lparr>si_ids = [8], si_fullCount = Some 3, si_skippedBefore = Some 2, si_skippedAfter = Some 0\<rparr>"])
    (simp_all add: merged_ok_def sample_merged_def merged_key_make_def si_size_def IsServerMsgId_def
      ServerMaxMsgId_def)

end
