(* ===== verification/MessagesList.thy ===== *)
theory MessagesList imports SparseIdsList begin

text \<open>
  \<open>Data::MessagesList\<close> (\<open>data/data_messages.h\<close> and \<open>.cpp\<close>): what the client knows of
  a list of messages of several chats, ordered by their positions (date, then chat and identifier).
  The class repeats the structure of \<open>Storage::SparseIdsList\<close> over positions instead of
  identifiers, so slices, queries, results and updates are the polymorphic records of
  \<open>SparseIdsList\<close> and its lemmas on slices apply; the operations differ and are written out.
  Producers of the reactive library are left out, fired updates are recorded.
\<close>

section \<open>Positions\<close>

datatype MessagePosition = MessagePosition (mp_fullId: full_msg_id) (mp_date: int)

definition full_id_less :: "full_msg_id \<Rightarrow> full_msg_id \<Rightarrow> bool" where
  "full_id_less a b \<longleftrightarrow> fm_peer a < fm_peer b \<or> fm_peer a = fm_peer b \<and> fm_msg a < fm_msg b"

definition full_id_less_eq :: "full_msg_id \<Rightarrow> full_msg_id \<Rightarrow> bool" where
  "full_id_less_eq a b \<longleftrightarrow> fm_peer a < fm_peer b \<or> fm_peer a = fm_peer b \<and> fm_msg a \<le> fm_msg b"

definition position_less :: "MessagePosition \<Rightarrow> MessagePosition \<Rightarrow> bool" where
  "position_less p other =
     (if mp_date p < mp_date other then True
      else if mp_date other < mp_date p then False
      else full_id_less (mp_fullId p) (mp_fullId other))"

definition position_less_eq :: "MessagePosition \<Rightarrow> MessagePosition \<Rightarrow> bool" where
  "position_less_eq p other = (\<not> position_less other p)"

instantiation MessagePosition :: linorder
begin

definition less_MessagePosition :: "MessagePosition \<Rightarrow> MessagePosition \<Rightarrow> bool" where
  "less_MessagePosition = position_less"

definition less_eq_MessagePosition :: "MessagePosition \<Rightarrow> MessagePosition \<Rightarrow> bool" where
  "less_eq_MessagePosition = position_less_eq"

instance
proof
  fix x y z :: MessagePosition
  note defs = less_MessagePosition_def less_eq_MessagePosition_def position_less_eq_def position_less_def full_id_less_def
  show "x < y \<longleftrightarrow> x \<le> y \<and> \<not> y \<le> x" by (auto simp: defs)
  show "x \<le> x" by (simp add: defs)
  show "x \<le> y \<Longrightarrow> y \<le> z \<Longrightarrow> x \<le> z" by (auto simp: defs split: if_splits)
  show "x \<le> y \<or> y \<le> x" by (auto simp: defs)
  show "x = y" if "x \<le> y" "y \<le> x"
  proof -
    have "mp_date x = mp_date y" "fm_peer (mp_fullId x) = fm_peer (mp_fullId y)"
      "fm_msg (mp_fullId x) = fm_msg (mp_fullId y)"
      using that by (auto simp: defs split: if_splits)
    then show ?thesis by (simp add: MessagePosition.expand)
  qed
qed

end

definition position_bool :: "MessagePosition \<Rightarrow> bool" where
  "position_bool p \<longleftrightarrow> fm_msg (mp_fullId p) \<noteq> 0"

definition MinDate :: int where "MinDate = 0"
definition MaxDate :: int where "MaxDate = 2 ^ 31 - 1"

definition position_at :: "int \<Rightarrow> msg_id \<Rightarrow> MessagePosition" where
  "position_at date msg = MessagePosition \<lparr>fm_peer = 0, fm_msg = msg\<rparr> date"

definition MinMessagePosition :: MessagePosition where
  "MinMessagePosition = position_at MinDate 1"

definition MaxMessagePosition :: MessagePosition where
  "MaxMessagePosition = position_at MaxDate (ServerMaxMsgId - 1)"

definition position0 :: MessagePosition where
  "position0 = position_at 0 0"

type_synonym MessagesQuery = "MessagePosition ids_query"
type_synonym MessagesResult = "MessagePosition ids_list_result"
type_synonym MessagesSliceUpdate = "MessagePosition ids_slice_update"
type_synonym MessagesSlice = "MessagePosition ids_slice"
type_synonym messages_list = "MessagePosition ids_list"

section \<open>The list\<close>

definition messages_update_new :: MessagesSliceUpdate where
  "messages_update_new =
     \<lparr>su_messages = None, su_from = position0, su_till = position0, su_count = None\<rparr>"

definition messages_merge ::
  "MessagePosition list \<Rightarrow> MessagePosition \<Rightarrow> MessagePosition \<Rightarrow> MessagesSlice \<Rightarrow> MessagesSlice option" where
  "messages_merge moreMessages moreFrom moreTill s =
    (if \<not> moreFrom \<le> sl_till s \<or> \<not> sl_from s \<le> moreTill then None
     else Some \<lparr>sl_messages = flat_merge (sl_messages s) moreMessages,
                sl_from = min (sl_from s) moreFrom, sl_till = max (sl_till s) moreTill\<rparr>)"

fun messages_unite_loop :: "MessagesSlice \<Rightarrow> MessagesSlice list \<Rightarrow> MessagesSlice option" where
  "messages_unite_loop s [] = Some s"
| "messages_unite_loop s (it # rest) =
     (case messages_merge (sl_messages it) (sl_from it) (sl_till it) s of
        None \<Rightarrow> None
      | Some s \<Rightarrow> messages_unite_loop s rest)"

definition messages_uniteAndAdd ::
  "MessagesSliceUpdate \<Rightarrow> nat \<Rightarrow> nat \<Rightarrow> MessagePosition list \<Rightarrow> MessagePosition \<Rightarrow> MessagePosition
   \<Rightarrow> MessagesSlice list \<Rightarrow> (MessagesSlice list \<times> MessagesSliceUpdate \<times> int) option" where
  "messages_uniteAndAdd update uniteFrom uniteTill messages from till slices =
    (let was = int (length (sl_messages (slices ! uniteFrom)))
     in case messages_merge messages from till (slices ! uniteFrom) of
          None \<Rightarrow> None
        | Some sl \<Rightarrow>
            let firstToErase = uniteFrom + 1
            in case messages_unite_loop sl (take (uniteTill - firstToErase) (drop firstToErase slices)) of
                 None \<Rightarrow> None
               | Some sl \<Rightarrow>
                   Some (take uniteFrom slices @ sl # drop uniteTill slices,
                     update\<lparr>su_messages := Some (sl_messages sl), su_from := sl_from sl,
                            su_till := sl_till sl\<rparr>,
                     int (length (sl_messages sl)) - was))"

definition messages_addItems ::
  "MessagesSliceUpdate \<Rightarrow> MessagePosition list \<Rightarrow> MessagePosition \<Rightarrow> MessagePosition
   \<Rightarrow> MessagesSlice list \<Rightarrow> (MessagesSlice list \<times> MessagesSliceUpdate \<times> int) option" where
  "messages_addItems update messages from till slices =
    (if \<not> from \<le> till then None
     else
       let uniteFrom = lower_bound sl_till slices from;
           uniteTill = upper_bound sl_from slices till
       in if uniteFrom < uniteTill
          then messages_uniteAndAdd update uniteFrom uniteTill messages from till slices
          else
            let sliceMessages = flat_merge [] messages;
                (slices, sl) =
                  slice_emplace \<lparr>sl_messages = sliceMessages, sl_from = from, sl_till = till\<rparr> slices
            in Some (slices,
                 update\<lparr>su_messages := Some (sl_messages sl), su_from := sl_from sl,
                        su_till := sl_till sl\<rparr>,
                 int (length (sl_messages sl))))"

definition messages_addRange ::
  "MessagePosition list \<Rightarrow> MessagePosition \<Rightarrow> MessagePosition \<Rightarrow> int option \<Rightarrow> bool
   \<Rightarrow> messages_list \<Rightarrow> messages_list option" where
  "messages_addRange messages from till count incrementCount l =
    (if \<not> (count = None \<or> \<not> incrementCount) then None
     else
       case messages_addItems messages_update_new messages from till (il_slices l) of
         None \<Rightarrow> None
       | Some (slices, update, result) \<Rightarrow>
           let c = (if count \<noteq> None then count
                    else case il_count l of
                           Some n \<Rightarrow> if incrementCount \<and> result > 0 then Some (n + result) else Some n
                         | None \<Rightarrow> None);
               c = (if length slices = 1 \<and> sl_from (hd slices) = MinMessagePosition
                      \<and> sl_till (hd slices) = MaxMessagePosition
                    then Some (int (length (sl_messages (hd slices)))) else c)
           in Some \<lparr>il_count = c, il_slices = slices,
                     il_updates = il_updates l @ [update\<lparr>su_count := c\<rparr>]\<rparr>)"

definition messages_addOne :: "MessagePosition \<Rightarrow> messages_list \<Rightarrow> messages_list option" where
  "messages_addOne messageId l = messages_addRange [messageId] messageId messageId None True l"

definition messages_addNew :: "MessagePosition \<Rightarrow> messages_list \<Rightarrow> messages_list option" where
  "messages_addNew messageId l =
     messages_addRange [messageId] messageId MaxMessagePosition None True l"

definition messages_addSlice ::
  "MessagePosition list \<Rightarrow> MessagePosition \<Rightarrow> MessagePosition \<Rightarrow> int option \<Rightarrow> messages_list
   \<Rightarrow> messages_list option" where
  "messages_addSlice messageIds from till count l = messages_addRange messageIds from till count False l"

definition messages_removeOne :: "MessagePosition \<Rightarrow> messages_list \<Rightarrow> messages_list" where
  "messages_removeOne messageId l =
    (let i = lower_bound sl_till (il_slices l) messageId;
         found = i < length (il_slices l) \<and> sl_from (il_slices l ! i) \<le> messageId;
         slices =
           (if found
            then (il_slices l)[i := (il_slices l ! i)
                   \<lparr>sl_messages := flat_remove messageId (sl_messages (il_slices l ! i))\<rparr>]
            else il_slices l);
         count = map_option (\<lambda>n. n - 1) (il_count l)
     in \<lparr>il_count = count, il_slices = slices,
         il_updates = il_updates l @
           (if found then [\<lparr>su_messages = Some (sl_messages (slices ! i)), su_from = sl_from (slices ! i),
                            su_till = sl_till (slices ! i), su_count = count\<rparr>] else [])\<rparr>)"

text \<open>The loop of \<open>removeLessThan\<close> over the slices, with the number of messages removed.\<close>

fun remove_less_loop :: "MessagePosition \<Rightarrow> MessagesSlice list \<Rightarrow> MessagesSlice list \<times> int" where
  "remove_less_loop messageId [] = ([], 0)"
| "remove_less_loop messageId (s # rest) =
     (if sl_till s \<le> messageId
      then let (slices, removed) = remove_less_loop messageId rest
           in (slices, int (length (sl_messages s)) + removed)
      else if sl_from s \<le> messageId
      then let till = lower_bound (\<lambda>m. m) (sl_messages s) messageId
           in (\<lparr>sl_messages = drop till (sl_messages s), sl_from = MinMessagePosition,
                sl_till = sl_till s\<rparr> # rest, int till)
      else (s # rest, 0))"

definition removeLessThan :: "MessagePosition \<Rightarrow> messages_list \<Rightarrow> messages_list" where
  "removeLessThan messageId l =
    (let (slices, removed) = remove_less_loop messageId (il_slices l)
     in l\<lparr>il_slices := slices,
          il_count := (if removed \<noteq> 0 then map_option (\<lambda>n. n - removed) (il_count l) else il_count l)\<rparr>)"

definition messages_invalidate :: "messages_list \<Rightarrow> messages_list" where
  "messages_invalidate l = l\<lparr>il_slices := [], il_count := None\<rparr>"

definition messages_invalidateBottom :: "messages_list \<Rightarrow> messages_list" where
  "messages_invalidateBottom l =
    (let slices =
       (if il_slices l \<noteq> [] then
          (let s = last (il_slices l)
           in if sl_till s = MaxMessagePosition then
                butlast (il_slices l) @
                  [s\<lparr>sl_till := (if sl_messages s = [] then sl_from s else last (sl_messages s))\<rparr>]
              else il_slices l)
        else il_slices l)
     in l\<lparr>il_slices := slices, il_count := None\<rparr>)"

definition messages_result_new :: MessagesResult where
  "messages_result_new =
    \<lparr>ir_count = None, ir_skippedBefore = None, ir_skippedAfter = None, ir_messageIds = []\<rparr>"

definition messages_queryFromSlice :: "int option \<Rightarrow> MessagesQuery \<Rightarrow> MessagesSlice \<Rightarrow> MessagesResult" where
  "messages_queryFromSlice count query s =
    (let messages = sl_messages s;
         position = lower_bound (\<lambda>m. m) messages (iq_aroundId query);
         haveBefore = int position;
         haveEqualOrAfter = int (length messages) - int position;
         before = min haveBefore (iq_limitBefore query);
         equalOrAfter = min haveEqualOrAfter (iq_limitAfter query + 1);
         ids = take (nat (before + equalOrAfter)) (drop (nat (haveBefore - before)) messages);
         messageIds = flat_merge [] ids;
         skippedBefore = (if sl_from s = MinMessagePosition then Some (haveBefore - before) else None);
         skippedAfter =
           (if sl_till s = MaxMessagePosition then Some (haveEqualOrAfter - equalOrAfter) else None);
         size' = int (length messageIds)
     in \<lparr>ir_count = count,
         ir_skippedBefore =
           (case (count, skippedBefore, skippedAfter) of
              (Some n, None, Some after) \<Rightarrow> Some (n - after - size')
            | _ \<Rightarrow> skippedBefore),
         ir_skippedAfter =
           (case (count, skippedBefore, skippedAfter) of
              (Some n, Some before, None) \<Rightarrow> Some (n - before - size')
            | _ \<Rightarrow> skippedAfter),
         ir_messageIds = messageIds\<rparr>)"

definition queryCurrent :: "MessagesQuery \<Rightarrow> messages_list \<Rightarrow> MessagesResult" where
  "queryCurrent query l =
    (if \<not> position_bool (iq_aroundId query) then messages_result_new
     else
       let i = lower_bound sl_till (il_slices l) (iq_aroundId query)
       in if i < length (il_slices l) \<and> sl_from (il_slices l ! i) \<le> iq_aroundId query
          then messages_queryFromSlice (il_count l) query (il_slices l ! i)
          else messages_result_new)"

text \<open>What the producer returned by \<open>query\<close> sends before it is done.\<close>

definition messages_query :: "MessagesQuery \<Rightarrow> messages_list \<Rightarrow> MessagesResult list" where
  "messages_query query l =
    (let current = queryCurrent query l
     in if ir_count current \<noteq> None \<or> ir_messageIds current \<noteq> [] then [current] else [])"

definition messages_empty :: "messages_list \<Rightarrow> bool" where
  "messages_empty l \<longleftrightarrow> list_all (\<lambda>s. sl_messages s = []) (il_slices l)"

section \<open>The common structure\<close>

lemma messages_merge_eq: "messages_merge = slice_merge"
  by (intro ext) (simp add: messages_merge_def slice_merge_def)

lemma messages_unite_loop_eq: "messages_unite_loop s ts = unite_loop s ts"
  by (induction ts arbitrary: s) (simp_all add: messages_merge_eq split: option.splits)

lemma messages_uniteAndAdd_eq: "messages_uniteAndAdd = uniteAndAdd"
  by (intro ext) (simp only: messages_uniteAndAdd_def uniteAndAdd_def messages_merge_eq
      messages_unite_loop_eq)

lemma messages_addItems_eq:
  "from \<le> till \<Longrightarrow> messages_addItems update messages from till slices =
    uniteOrEmplace update messages from till slices"
  unfolding messages_addItems_def uniteOrEmplace_def messages_uniteAndAdd_eq by simp

lemma messages_queryFromSlice_eq:
  "messages_queryFromSlice = query_window MinMessagePosition MaxMessagePosition"
  by (intro ext) (simp only: messages_queryFromSlice_def query_window_def)

section \<open>The knowledge is right\<close>

definition true_messages :: "MessagePosition set \<Rightarrow> messages_list \<Rightarrow> bool" where
  "true_messages T l \<longleftrightarrow>
    finite T \<and> T \<subseteq> {MinMessagePosition..MaxMessagePosition} \<and> true_slices T (il_slices l) \<and>
    (\<forall>n. il_count l = Some n \<longrightarrow> n = int (card T))"

text \<open>The update tells of a slice that covers the range, with the count of the list.\<close>

definition update_covers :: "('k::linorder) \<Rightarrow> 'k \<Rightarrow> int option \<Rightarrow> 'k ids_slice_update \<Rightarrow> bool" where
  "update_covers f t c u \<longleftrightarrow> su_messages u \<noteq> None \<and> su_from u \<le> f \<and> t \<le> su_till u \<and> su_count u = c"

lemma messages_addRange_true:
  assumes l: "true_messages T l" and range: "f \<le> t" "set messages = T' \<inter> {f..t}"
    and T: "T \<subseteq> T'" "T' - T \<subseteq> {f..t}" "finite T'" "T' \<subseteq> {MinMessagePosition..MaxMessagePosition}"
    and guard: "count = None \<or> \<not> inc"
    and count: "\<And>A M r B. il_slices l = A @ M @ B \<Longrightarrow> true_slices T' (A @ r # B) \<Longrightarrow>
      {sl_from r..sl_till r} = {f..t} \<union> covered M \<Longrightarrow> (\<forall>x \<in> set M. f \<le> sl_till x \<and> sl_from x \<le> t) \<Longrightarrow>
      (if count \<noteq> None then count
       else case il_count l of
              Some n \<Rightarrow>
                let result = int (length (sl_messages r))
                      - (case M of [] \<Rightarrow> 0 | x # _ \<Rightarrow> int (length (sl_messages x)))
                in if inc \<and> result > 0 then Some (n + result) else Some n
            | None \<Rightarrow> None) \<in> {None, Some (int (card T'))}"
  shows "\<exists>l' u. messages_addRange messages f t count inc l = Some l' \<and> true_messages T' l' \<and>
    il_updates l' = il_updates l @ [u] \<and> true_update T' u \<and> update_covers f t (il_count l') u \<and>
    covered (il_slices l') = covered (il_slices l) \<union> {f..t}"
proof -
  have slices: "true_slices T (il_slices l)" using l by (simp add: true_messages_def)
  obtain A M r B result where items: "il_slices l = A @ M @ B"
    "messages_addItems messages_update_new messages f t (il_slices l) = Some (A @ r # B,
      messages_update_new\<lparr>su_messages := Some (sl_messages r), su_from := sl_from r,
        su_till := sl_till r\<rparr>, result)"
    "true_slices T' (A @ r # B)" "{sl_from r..sl_till r} = {f..t} \<union> covered M"
    "result = int (length (sl_messages r)) - (case M of [] \<Rightarrow> 0 | x # _ \<Rightarrow> int (length (sl_messages x)))"
    "\<forall>x \<in> set M. f \<le> sl_till x \<and> sl_from x \<le> t"
    using uniteOrEmplace_true [OF slices range T(1,2), of messages_update_new]
    unfolding messages_addItems_eq [OF range(1)] by blast
  let ?slices = "A @ r # B"
  define c where "c = (if count \<noteq> None then count
    else case il_count l of
           Some n \<Rightarrow> if inc \<and> result > 0 then Some (n + result) else Some n
         | None \<Rightarrow> None)"
  define c' where "c' = (if length ?slices = 1 \<and> sl_from (hd ?slices) = MinMessagePosition
      \<and> sl_till (hd ?slices) = MaxMessagePosition
    then Some (int (length (sl_messages (hd ?slices)))) else c)"
  have res: "messages_addRange messages f t count inc l = Some \<lparr>il_count = c', il_slices = ?slices,
      il_updates = il_updates l @ [messages_update_new\<lparr>su_messages := Some (sl_messages r),
        su_from := sl_from r, su_till := sl_till r, su_count := c'\<rparr>]\<rparr>"
    using guard by (simp only: messages_addRange_def items(2) option.simps prod.case Let_def c'_def
        c_def not_not if_False simp_thms ids_slice_update.update_convs)
  have c: "c \<in> {None, Some (int (card T'))}"
    using count [OF items(1,3,4,6)] unfolding c_def items(5) Let_def .
  have r: "true_slice T' r" using items(3) by (simp add: true_slices_def)
  have "c' \<in> {None, Some (int (card T'))}"
  proof (cases "length ?slices = 1 \<and> sl_from (hd ?slices) = MinMessagePosition
      \<and> sl_till (hd ?slices) = MaxMessagePosition")
    case True
    then have "A = []" "sl_from r = MinMessagePosition" "sl_till r = MaxMessagePosition"
      by (cases A; auto)+
    then have "set (sl_messages r) = T'" using r T(4) by (auto simp: true_slice_def)
    then have "int (length (sl_messages r)) = int (card T')"
      using r by (auto simp: true_slice_def ssorted_length_card)
    then show ?thesis using True \<open>A = []\<close> by (simp add: c'_def)
  next
    case False
    then have "c' = c" unfolding c'_def by (rule if_not_P)
    then show ?thesis using c by simp
  qed
  moreover have "covered ?slices = covered (il_slices l) \<union> {f..t}"
    unfolding items(1) by (simp add: items(4)) blast
  moreover have "sl_from r \<le> f" "t \<le> sl_till r"
  proof -
    have "f \<in> {sl_from r..sl_till r}" "t \<in> {sl_from r..sl_till r}" unfolding items(4) using range(1) by auto
    then show "sl_from r \<le> f" "t \<le> sl_till r" by auto
  qed
  ultimately show ?thesis
    unfolding res using items(3) T(3,4) r
    by (auto simp: true_messages_def true_update_def true_slice_def update_covers_def split: option.splits)
qed


lemma count_of:
  "true_messages T l \<Longrightarrow> il_count l = Some n \<Longrightarrow> n = int (card T)"
  by (simp add: true_messages_def)

lemma messages_addSlice_true:
  assumes "true_messages T l" "f \<le> t" "set messages = T \<inter> {f..t}"
    and "count = None \<or> count = Some (int (card T))"
  shows "\<exists>l' u. messages_addSlice messages f t count l = Some l' \<and> true_messages T l' \<and>
    il_updates l' = il_updates l @ [u] \<and> true_update T u \<and> update_covers f t (il_count l') u \<and>
    covered (il_slices l') = covered (il_slices l) \<union> {f..t}"
  unfolding messages_addSlice_def
  by (rule messages_addRange_true [OF assms(1-3)])
     (use assms(1,4) count_of [OF assms(1)] in \<open>auto simp: true_messages_def split: option.splits\<close>)

lemma messages_addNew_true:
  assumes "true_messages T l" "\<forall>x \<in> T. x < m" "MinMessagePosition \<le> m" "m \<le> MaxMessagePosition"
  shows "\<exists>l' u. messages_addNew m l = Some l' \<and> true_messages (insert m T) l' \<and>
    il_updates l' = il_updates l @ [u] \<and> true_update (insert m T) u \<and> update_covers m MaxMessagePosition (il_count l') u \<and>
    covered (il_slices l') = covered (il_slices l) \<union> {m..MaxMessagePosition}"
  unfolding messages_addNew_def
proof (rule messages_addRange_true [OF assms(1,4)])
  have fin: "finite T" "T \<subseteq> {MinMessagePosition..MaxMessagePosition}" "true_slices T (il_slices l)"
    using assms(1) by (simp_all add: true_messages_def)
  have "T \<inter> {m..MaxMessagePosition} = {}" using assms(2) by (force dest: leD)
  then show "set [m] = insert m T \<inter> {m..MaxMessagePosition}" using assms(4) by auto
  show "insert m T - T \<subseteq> {m..MaxMessagePosition}" using assms(4) by auto
  show "insert m T \<subseteq> {MinMessagePosition..MaxMessagePosition}" using fin(2) assms(3,4) by auto
  show "finite (insert m T)" using fin(1) by simp
  have "m \<notin> T" using assms(2) by auto
  then have card: "int (card (insert m T)) = int (card T) + 1" using fin(1) by simp
  fix A M r B
  assume items: "il_slices l = A @ M @ B" "true_slices (insert m T) (A @ r # B)"
    "{sl_from r..sl_till r} = {m..MaxMessagePosition} \<union> covered M"
    "\<forall>x \<in> set M. m \<le> sl_till x \<and> sl_from x \<le> MaxMessagePosition"
  have "int (length (sl_messages r)) - (case M of [] \<Rightarrow> 0 | x # _ \<Rightarrow> int (length (sl_messages x))) = 1"
    using new_message_added [of T A M B m MaxMessagePosition r] fin(3) items assms(2,4)
    by (simp add: true_slices_def)
  then show "(if None \<noteq> None then None
       else case il_count l of
              Some n \<Rightarrow>
                let result = int (length (sl_messages r))
                      - (case M of [] \<Rightarrow> 0 | x # _ \<Rightarrow> int (length (sl_messages x)))
                in if True \<and> result > 0 then Some (n + result) else Some n
            | None \<Rightarrow> None) \<in> {None, Some (int (card (insert m T)))}"
    using count_of [OF assms(1)] unfolding card by (simp split: option.splits)
qed auto

text \<open>A single point lies in one slice at most.\<close>

lemma slices_at_point:
  assumes "slices_apart M" "\<forall>x \<in> set M. m \<le> sl_till x \<and> sl_from x \<le> m"
  shows "M = [] \<or> (\<exists>x. M = [x])"
proof (cases M)
  case (Cons x M')
  have "M' = []"
  proof (cases M')
    case (Cons y M'')
    then have "sl_till x < sl_from y" using assms(1) \<open>M = x # M'\<close> by (simp add: slices_apart_def)
    then have "m < m" using assms(2) Cons \<open>M = x # M'\<close> by (meson le_less_trans less_le_trans list.set_intros)
    then show ?thesis by simp
  qed
  then show ?thesis using Cons by simp
qed simp

lemma messages_addOne_true:
  assumes "true_messages T l" "m \<notin> T" "MinMessagePosition \<le> m" "m \<le> MaxMessagePosition"
  shows "\<exists>l' u. messages_addOne m l = Some l' \<and> true_messages (insert m T) l' \<and>
    il_updates l' = il_updates l @ [u] \<and> true_update (insert m T) u \<and> update_covers m m (il_count l') u \<and>
    covered (il_slices l') = covered (il_slices l) \<union> {m..m}"
  unfolding messages_addOne_def
proof (rule messages_addRange_true [OF assms(1) order_refl])
  have fin: "finite T" "T \<subseteq> {MinMessagePosition..MaxMessagePosition}" "true_slices T (il_slices l)"
    using assms(1) by (simp_all add: true_messages_def)
  show "insert m T \<subseteq> {MinMessagePosition..MaxMessagePosition}" using fin(2) assms(3,4) by auto
  show "finite (insert m T)" using fin(1) by simp
  have card: "int (card (insert m T)) = int (card T) + 1" using fin(1) assms(2) by simp
  fix A M r B
  assume items: "il_slices l = A @ M @ B" "true_slices (insert m T) (A @ r # B)"
    "{sl_from r..sl_till r} = {m..m} \<union> covered M" "\<forall>x \<in> set M. m \<le> sl_till x \<and> sl_from x \<le> m"
  have r: "true_slice (insert m T) r" using items(2) by (simp add: true_slices_def)
  have M: "slices_apart M" "\<forall>x \<in> set M. true_slice T x"
    using fin(3) items(1) by (auto simp: true_slices_def slices_apart_def sorted_wrt_append)
  have "int (length (sl_messages r)) - (case M of [] \<Rightarrow> 0 | x # _ \<Rightarrow> int (length (sl_messages x))) = 1"
    using slices_at_point [OF M(1) items(4)]
  proof
    assume "M = []"
    then have "set (sl_messages r) = {m}" using r items(3) by (auto simp: true_slice_def)
    then have "card (set (sl_messages r)) = 1" by simp
    then have "length (sl_messages r) = 1" using r ssorted_length_card [of "sl_messages r"] by (simp add: true_slice_def)
    then show ?thesis using \<open>M = []\<close> by simp
  next
    assume "\<exists>x. M = [x]"
    then obtain x where x: "M = [x]" "true_slice T x" "m \<in> {sl_from x..sl_till x}"
      using M(2) items(4) by auto
    then have "{sl_from r..sl_till r} = {sl_from x..sl_till x}" using items(3) by auto
    then have "set (sl_messages r) = insert m (set (sl_messages x))"
      using r x(2,3) by (auto simp: true_slice_def)
    moreover have "m \<notin> set (sl_messages x)" using x(2) assms(2) by (auto simp: true_slice_def)
    ultimately have "card (set (sl_messages r)) = Suc (card (set (sl_messages x)))" by simp
    then have "length (sl_messages r) = Suc (length (sl_messages x))"
      using r x(2) ssorted_length_card [of "sl_messages r"] ssorted_length_card [of "sl_messages x"]
      by (simp add: true_slice_def)
    then show ?thesis using x(1) by simp
  qed
  then show "(if None \<noteq> None then None
       else case il_count l of
              Some n \<Rightarrow>
                let result = int (length (sl_messages r))
                      - (case M of [] \<Rightarrow> 0 | x # _ \<Rightarrow> int (length (sl_messages x)))
                in if True \<and> result > 0 then Some (n + result) else Some n
            | None \<Rightarrow> None) \<in> {None, Some (int (card (insert m T)))}"
    using count_of [OF assms(1)] unfolding card by (simp split: option.splits)
qed auto

lemma messages_removeOne_true:
  assumes "true_messages T l" "m \<in> T"
  shows "true_messages (T - {m}) (messages_removeOne m l) \<and>
    covered (il_slices (messages_removeOne m l)) = covered (il_slices l)"
proof -
  have T: "finite T" "T \<subseteq> {MinMessagePosition..MaxMessagePosition}" "true_slices T (il_slices l)"
    using assms(1) by (simp_all add: true_messages_def)
  have "true_slices (T - {m}) (il_slices (messages_removeOne m l)) \<and>
      covered (il_slices (messages_removeOne m l)) = covered (il_slices l)"
    by (rule remove_slices_true [OF T(3) refl]) (simp add: messages_removeOne_def Let_def)
  then show ?thesis
    using T(1,2) count_of [OF assms(1)] card_remove_int [OF T(1) assms(2)]
    by (auto simp: true_messages_def messages_removeOne_def Let_def)
qed

text \<open>The update that is fired when a message is removed: the slice it was taken from, if there is one.\<close>

lemma messages_removeOne_update:
  assumes "true_messages T l" "m \<in> T"
  shows "\<exists>us. il_updates (messages_removeOne m l) = il_updates l @ us \<and>
    (m \<notin> covered (il_slices l) \<longrightarrow> us = []) \<and>
    (m \<in> covered (il_slices l) \<longrightarrow> (\<exists>u. us = [u] \<and> true_update (T - {m}) u \<and>
      update_covers m m (il_count (messages_removeOne m l)) u))"
proof -
  let ?i = "lower_bound sl_till (il_slices l) m"
  let ?found = "?i < length (il_slices l) \<and> sl_from (il_slices l ! ?i) \<le> m"
  let ?l = "messages_removeOne m l"
  have right: "true_messages (T - {m}) ?l" using messages_removeOne_true [OF assms] by blast
  have apart: "slices_apart (il_slices l)" using assms(1) by (simp add: true_messages_def true_slices_def)
  have cov: "m \<in> covered (il_slices l) \<longleftrightarrow> ?found"
    using asked_slice [OF apart refl, where a = m] unfolding covered_def by fastforce
  show ?thesis
  proof (cases ?found)
    case False
    then show ?thesis using cov by (auto simp: messages_removeOne_def Let_def)
  next
    case True
    define s where "s = il_slices ?l ! ?i"
    have s: "s \<in> set (il_slices ?l)" "sl_from s = sl_from (il_slices l ! ?i)" "sl_till s = sl_till (il_slices l ! ?i)"
      using True by (simp_all add: s_def messages_removeOne_def Let_def set_update_memI)
    have ups: "il_updates ?l = il_updates l @ [\<lparr>su_messages = Some (sl_messages s), su_from = sl_from s,
        su_till = sl_till s, su_count = il_count ?l\<rparr>]"
      using True by (simp add: s_def messages_removeOne_def Let_def)
    have ts: "sl_from s \<le> sl_till s" "ssorted (sl_messages s)" "set (sl_messages s) = (T - {m}) \<inter> {sl_from s..sl_till s}"
      using right s(1) by (simp_all add: true_messages_def true_slices_def true_slice_def)
    have c: "\<forall>n. il_count ?l = Some n \<longrightarrow> n = int (card (T - {m}))" using count_of [OF right] by blast
    have m: "sl_from s \<le> m" "m \<le> sl_till s"
      using bound_split(1) [OF apart refl, of m] True unfolding s(2,3) by blast+
    have "true_update (T - {m}) \<lparr>su_messages = Some (sl_messages s), su_from = sl_from s,
        su_till = sl_till s, su_count = il_count ?l\<rparr>"
      using ts c by (simp add: true_update_def split: option.split)
    moreover have "update_covers m m (il_count ?l) \<lparr>su_messages = Some (sl_messages s), su_from = sl_from s,
        su_till = sl_till s, su_count = il_count ?l\<rparr>"
      using m by (simp add: update_covers_def)
    moreover have "m \<in> covered (il_slices l)" using cov True by blast
    ultimately show ?thesis unfolding ups by blast
  qed
qed

lemma messages_snapshot_true:
  assumes "true_messages (set L) l" "ssorted L"
    and "0 \<le> iq_limitBefore q" "0 \<le> iq_limitAfter q"
  shows "let r = queryCurrent q l
    in right_window L (ir_messageIds r) (ir_count r) (ir_skippedBefore r) (ir_skippedAfter r)"
proof -
  have count: "il_count l = None \<or> il_count l = Some (int (length L))"
    using assms(1,2) by (cases "il_count l") (auto simp: true_messages_def ssorted_length_card)
  have slices: "true_slice (set L) s" if "s \<in> set (il_slices l)" for s
    using assms(1) that by (auto simp: true_messages_def true_slices_def)
  have T: "set L \<subseteq> {MinMessagePosition..MaxMessagePosition}" using assms(1) by (simp add: true_messages_def)
  show ?thesis
    using query_window_right [OF assms(2) refl T slices count assms(3,4)]
    by (auto simp: queryCurrent_def Let_def right_window_def messages_result_new_def
        messages_queryFromSlice_eq)
qed


section \<open>Forgetting older messages\<close>

text \<open>What \<open>removeLessThan\<close> counts as removed: the known messages before the position, and
  the position itself when a slice ends there.\<close>

definition forgotten :: "MessagePosition \<Rightarrow> MessagesSlice list \<Rightarrow> MessagePosition set" where
  "forgotten m slices = {x. \<exists>s \<in> set slices. x \<in> set (sl_messages s) \<and> (x < m \<or> x = m \<and> sl_till s = m)}"

lemma forgotten_Cons:
  "forgotten m (s # rest) =
    {x \<in> set (sl_messages s). x < m \<or> x = m \<and> sl_till s = m} \<union> forgotten m rest"
  by (auto simp: forgotten_def)

lemma forgotten_above:
  assumes "\<forall>s \<in> set slices. true_slice T s \<and> m < sl_from s"
  shows "forgotten m slices = {}"
proof -
  have False if "s \<in> set slices" "x \<in> set (sl_messages s)" "x < m \<or> x = m \<and> sl_till s = m" for s x
  proof -
    have "m < sl_from s" "sl_from s \<le> x" using assms that(1,2) by (auto simp: true_slice_def)
    then show False using that(3) by auto
  qed
  then show ?thesis by (auto simp: forgotten_def)
qed

lemma finite_forgotten: "finite (forgotten m slices)"
  by (rule finite_subset [of _ "\<Union>s \<in> set slices. set (sl_messages s)"]) (auto simp: forgotten_def)

lemma true_slices_above:
  assumes "true_slices T slices" "\<forall>s \<in> set slices. m < sl_from s"
  shows "true_slices {x \<in> T. m \<le> x} slices"
proof -
  have "true_slice {x \<in> T. m \<le> x} s" if "s \<in> set slices" for s
  proof -
    have "true_slice T s" "m < sl_from s" using assms that by (auto simp: true_slices_def)
    then show ?thesis by (auto simp: true_slice_def)
  qed
  then show ?thesis using assms(1) by (simp add: true_slices_def)
qed

lemma remove_less_loop_true:
  assumes "true_slices T slices" "T \<subseteq> {MinMessagePosition..MaxMessagePosition}" "MinMessagePosition \<le> m"
  shows "true_slices {x \<in> T. m \<le> x} (fst (remove_less_loop m slices)) \<and>
    snd (remove_less_loop m slices) = int (card (forgotten m slices))"
  using assms(1)
proof (induction slices)
  case Nil
  then show ?case by (simp add: forgotten_def true_slices_def slices_apart_def)
next
  case (Cons s rest)
  have s: "true_slice T s" and rest: "true_slices T rest" "\<forall>y \<in> set rest. true_slice T y"
    and apart: "\<forall>y \<in> set rest. sl_till s < sl_from y"
    using Cons.prems by (auto simp: true_slices_def slices_apart_def)
  have ms: "set (sl_messages s) = T \<inter> {sl_from s..sl_till s}" "ssorted (sl_messages s)" "sl_from s \<le> sl_till s"
    using s by (auto simp: true_slice_def)
  consider (all) "sl_till s \<le> m" | (part) "sl_from s \<le> m" "m < sl_till s" | (none) "m < sl_from s"
    by (meson not_less)
  then show ?case
  proof cases
    case all
    have "x < m \<or> x = m \<and> sl_till s = m" if "x \<in> set (sl_messages s)" for x
    proof -
      have "x \<le> sl_till s" using that ms(1) by simp
      then show ?thesis using all by (metis antisym order_trans antisym_conv2)
    qed
    then have eq: "{x \<in> set (sl_messages s). x < m \<or> x = m \<and> sl_till s = m} = set (sl_messages s)"
      by blast
    have "set (sl_messages s) \<inter> forgotten m rest = {}"
    proof -
      have "sl_till s < x" if x: "x \<in> forgotten m rest" for x
      proof -
        obtain y where y: "y \<in> set rest" "x \<in> set (sl_messages y)" using x by (auto simp: forgotten_def)
        then have "true_slice T y" "sl_till s < sl_from y" using rest(2) apart by blast+
        moreover from this have "sl_from y \<le> x" using y(2) by (simp add: true_slice_def)
        ultimately show ?thesis by order
      qed
      moreover have "\<forall>x \<in> set (sl_messages s). x \<le> sl_till s" using ms(1) by simp
      ultimately show ?thesis by (meson disjoint_iff leD)
    qed
    then have "card (forgotten m (s # rest)) = length (sl_messages s) + card (forgotten m rest)"
      unfolding forgotten_Cons eq
      by (simp add: card_Un_disjoint finite_forgotten ssorted_length_card [OF ms(2)])
    then show ?thesis using Cons.IH [OF rest(1)] all by (simp add: split_beta Let_def)
  next
    case part
    define k where "k = lower_bound (\<lambda>x. x) (sl_messages s) m"
    define s' where "s' = \<lparr>sl_messages = drop k (sl_messages s), sl_from = MinMessagePosition, sl_till = sl_till s\<rparr>"
    have loop: "remove_less_loop m (s # rest) = (s' # rest, int k)"
    proof -
      have "\<not> sl_till s \<le> m" using part(2) by order
      then show ?thesis using part(1) by (simp add: s'_def k_def Let_def)
    qed
    note split = split_lower_bound [of "\<lambda>x. x" "sl_messages s" m, folded k_def]
    have drop: "drop k (sl_messages s) = filter (\<lambda>x. m \<le> x) (sl_messages s)"
      using split(2) ms(2) by (simp add: not_less)
    have "take k (sl_messages s) = filter (\<lambda>x. x < m) (sl_messages s)"
      using split(1) ms(2) by simp
    moreover have "k \<le> length (sl_messages s)" by (simp add: k_def)
    ultimately have "k = length (filter (\<lambda>x. x < m) (sl_messages s))"
      by (metis length_take min_absorb2)
    then have k: "k = card {x \<in> set (sl_messages s). x < m}"
      using ssorted_length_card [of "filter (\<lambda>x. x < m) (sl_messages s)"] ms(2) by (simp add: sorted_wrt_filter)
    have above: "\<forall>y \<in> set rest. m < sl_from y" using apart part(2) by (meson less_trans)
    have "forgotten m rest = {}" by (rule forgotten_above [of _ T]) (use rest(2) above in blast)
    then have "forgotten m (s # rest) = {x \<in> set (sl_messages s). x < m}"
      using part(2) by (auto simp: forgotten_Cons)
    moreover have "true_slices {x \<in> T. m \<le> x} (s' # rest)"
    proof -
      have "MinMessagePosition \<le> sl_till s" using assms(3) part(2) by (meson less_imp_le order_trans)
      moreover have "set (drop k (sl_messages s)) = {x \<in> T. m \<le> x} \<inter> {MinMessagePosition..sl_till s}"
        unfolding drop using ms(1) assms(2) part(1) by auto
      ultimately have "true_slice {x \<in> T. m \<le> x} s'"
        using ms(2) by (simp add: true_slice_def s'_def drop sorted_wrt_filter)
      moreover have "sl_from s' \<le> sl_till s'" "sl_till s' = sl_till s"
        using \<open>MinMessagePosition \<le> sl_till s\<close> by (simp_all add: s'_def)
      ultimately show ?thesis using true_slices_above [OF rest(1) above] apart
        by (simp add: true_slices_def slices_apart_def)
    qed
    ultimately show ?thesis unfolding loop using k by simp
  next
    case none
    have "\<not> sl_till s \<le> m" "\<not> sl_from s \<le> m" using none ms(3) by order+
    then have loop: "remove_less_loop m (s # rest) = (s # rest, 0)" by simp
    have above: "\<forall>y \<in> set (s # rest). m < sl_from y"
    proof
      fix y assume "y \<in> set (s # rest)"
      then show "m < sl_from y" using none apart ms(3) by (metis less_le_trans less_trans set_ConsD)
    qed
    have "forgotten m (s # rest) = {}" by (rule forgotten_above [of _ T]) (use rest(2) s above in auto)
    then show ?thesis unfolding loop using true_slices_above [OF Cons.prems above] by simp
  qed
qed

section \<open>Properties\<close>

text \<open>C15: The list of messages follows the server. Adding what the server has in a range, a new
  last message or a single new message meets the assertions of the code, keeps every slice equal to
  the server's messages of its range and the slices in order and apart, covers the range, keeps
  the count right and fires one update, which lists the server's messages of a range around the
  added one and carries the count. Removing a message of the server's list keeps all of this and
  what is covered; it fires such an update for the slice the message was in, and none when no slice
  covers the message.\<close>

theorem messages_list_follows_server:
  assumes "true_messages T l"
  shows "(f \<le> t \<and> set messages = T \<inter> {f..t} \<and> (count = None \<or> count = Some (int (card T))) \<longrightarrow>
      (\<exists>l' u. messages_addSlice messages f t count l = Some l' \<and> true_messages T l' \<and>
        il_updates l' = il_updates l @ [u] \<and> true_update T u \<and> update_covers f t (il_count l') u \<and>
        covered (il_slices l') = covered (il_slices l) \<union> {f..t}))
    \<and> (MinMessagePosition \<le> m \<and> m \<le> MaxMessagePosition \<and> (\<forall>x \<in> T. x < m) \<longrightarrow>
      (\<exists>l' u. messages_addNew m l = Some l' \<and> true_messages (insert m T) l' \<and>
        il_updates l' = il_updates l @ [u] \<and> true_update (insert m T) u \<and> update_covers m MaxMessagePosition (il_count l') u \<and>
        covered (il_slices l') = covered (il_slices l) \<union> {m..MaxMessagePosition}))
    \<and> (MinMessagePosition \<le> m \<and> m \<le> MaxMessagePosition \<and> m \<notin> T \<longrightarrow>
      (\<exists>l' u. messages_addOne m l = Some l' \<and> true_messages (insert m T) l' \<and>
        il_updates l' = il_updates l @ [u] \<and> true_update (insert m T) u \<and> update_covers m m (il_count l') u \<and>
        covered (il_slices l') = covered (il_slices l) \<union> {m..m}))
    \<and> (m \<in> T \<longrightarrow> true_messages (T - {m}) (messages_removeOne m l) \<and>
      covered (il_slices (messages_removeOne m l)) = covered (il_slices l) \<and>
      (\<exists>us. il_updates (messages_removeOne m l) = il_updates l @ us \<and>
        (m \<notin> covered (il_slices l) \<longrightarrow> us = []) \<and>
        (m \<in> covered (il_slices l) \<longrightarrow> (\<exists>u. us = [u] \<and> true_update (T - {m}) u \<and>
          update_covers m m (il_count (messages_removeOne m l)) u))))"
proof (intro conjI impI, goal_cases)
  case 1
  then show ?case using messages_addSlice_true [OF assms, of f t messages count] by simp
next
  case 2
  then show ?case using messages_addNew_true [OF assms, of m] by simp
next
  case 3
  then show ?case using messages_addOne_true [OF assms, of m] by simp
next
  case 4
  then show ?case using messages_removeOne_true [OF assms, of m] by blast
next
  case 5
  then show ?case using messages_removeOne_true [OF assms, of m] by blast
next
  case 6
  then show ?case by (rule messages_removeOne_update [OF assms])
qed

lemma sample_position: "MinMessagePosition \<le> position_at 7 5" "position_at 7 5 \<le> MaxMessagePosition"
  by code_simp+

lemma true_messages_new: "true_messages {} ids_list_new"
  by (simp add: true_messages_def ids_list_new_def true_slices_def slices_apart_def)

definition sample_positions :: "MessagePosition list" where
  "sample_positions = [position_at 7 5, position_at 7 9, position_at 8 2, position_at 9 3]"

text \<open>Everything up to the third position is known, and the count.\<close>

definition sample_messages :: messages_list where
  "sample_messages = \<lparr>il_count = Some 4, il_slices =
     [\<lparr>sl_messages = [position_at 7 5, position_at 7 9, position_at 8 2],
       sl_from = MinMessagePosition, sl_till = position_at 8 4\<rparr>], il_updates = []\<rparr>"

lemma position_at_order [simp]:
  "position_at d m < position_at d' m' \<longleftrightarrow> d < d' \<or> d = d' \<and> m < m'"
  "position_at d m \<le> position_at d' m' \<longleftrightarrow> d < d' \<or> d = d' \<and> m \<le> m'"
  "position_at d m = position_at d' m' \<longleftrightarrow> d = d' \<and> m = m'"
  by (auto simp: less_MessagePosition_def less_eq_MessagePosition_def position_less_eq_def position_less_def
      full_id_less_def position_at_def)

lemma sample_messages_true:
  "true_messages (set sample_positions) sample_messages" "ssorted sample_positions"
  by (auto simp: true_messages_def true_slices_def slices_apart_def true_slice_def sample_messages_def
      sample_positions_def MinMessagePosition_def MaxMessagePosition_def MinDate_def MaxDate_def ServerMaxMsgId_def)

lemma messages_list_follows_server_witness:
  "true_messages (set sample_positions - {position_at 7 9}) (messages_removeOne (position_at 7 9) sample_messages) \<and>
   (\<exists>u. il_updates (messages_removeOne (position_at 7 9) sample_messages) = [u] \<and>
     true_update (set sample_positions - {position_at 7 9}) u \<and>
     update_covers (position_at 7 9) (position_at 7 9) (Some 3) u) \<and>
   (\<exists>l'. messages_addNew (position_at 10 1) sample_messages = Some l' \<and>
     true_messages (insert (position_at 10 1) (set sample_positions)) l')"
proof -
  note follows = messages_list_follows_server [OF sample_messages_true(1),
    of "position_at 7 5" "position_at 7 5" "[position_at 7 5]" None]
  have "position_at 7 9 \<in> set sample_positions" "position_at 7 9 \<in> covered (il_slices sample_messages)"
    "il_count (messages_removeOne (position_at 7 9) sample_messages) = Some 3" "il_updates sample_messages = []"
    by (simp_all add: sample_positions_def sample_messages_def covered_def MinMessagePosition_def MinDate_def
        messages_removeOne_def Let_def)
  with follows [of "position_at 7 9"] have "true_messages (set sample_positions - {position_at 7 9})
      (messages_removeOne (position_at 7 9) sample_messages)" "\<exists>u. il_updates (messages_removeOne (position_at 7 9) sample_messages) = [u] \<and>
     true_update (set sample_positions - {position_at 7 9}) u \<and>
     update_covers (position_at 7 9) (position_at 7 9) (Some 3) u"
    by auto
  moreover have "\<exists>l'. messages_addNew (position_at 10 1) sample_messages = Some l' \<and>
     true_messages (insert (position_at 10 1) (set sample_positions)) l'"
  proof -
    have "MinMessagePosition \<le> position_at 10 1 \<and> position_at 10 1 \<le> MaxMessagePosition
        \<and> (\<forall>x \<in> set sample_positions. x < position_at 10 1)"
      by (simp add: sample_positions_def MinMessagePosition_def MaxMessagePosition_def MinDate_def MaxDate_def)
    with follows [of "position_at 10 1"] show ?thesis by blast
  qed
  ultimately show ?thesis by blast
qed

text \<open>C16: The answer about the list of messages around a position that a slice covers is the whole
  of what was asked and the slice knows: the last \<open>limitBefore\<close> messages below the position and the
  first \<open>limitAfter + 1\<close> from it on, with the known count; the number skipped on a side is given when
  the slice reaches the end of the list there, or when the count and the other side are known.
  It is always a run of consecutive messages of the server's list, and every number given is
  the right one. Around any other position, and around one without a message, it is empty, with no
  number given.\<close>

theorem messages_query_right:
  assumes "true_messages (set L) l" "ssorted L"
    and "0 \<le> iq_limitBefore q" "0 \<le> iq_limitAfter q" "r = queryCurrent q l"
  shows "right_window L (ir_messageIds r) (ir_count r) (ir_skippedBefore r) (ir_skippedAfter r) \<and>
    (\<forall>s \<in> set (il_slices l). position_bool (iq_aroundId q) \<and> iq_aroundId q \<in> {sl_from s..sl_till s} \<longrightarrow>
      ir_messageIds r = known_window L (sl_from s) (sl_till s) q \<and> ir_count r = il_count l \<and>
      (sl_from s = MinMessagePosition \<or> il_count l \<noteq> None \<and> sl_till s = MaxMessagePosition \<longrightarrow> ir_skippedBefore r \<noteq> None) \<and>
      (sl_till s = MaxMessagePosition \<or> il_count l \<noteq> None \<and> sl_from s = MinMessagePosition \<longrightarrow> ir_skippedAfter r \<noteq> None)) \<and>
    (\<not> position_bool (iq_aroundId q) \<or> iq_aroundId q \<notin> covered (il_slices l) \<longrightarrow> r = messages_result_new)"
proof -
  let ?i = "lower_bound sl_till (il_slices l) (iq_aroundId q)"
  have apart: "slices_apart (il_slices l)" using assms(1) by (simp add: true_messages_def true_slices_def)
  have known: "ir_messageIds r = known_window L (sl_from s) (sl_till s) q \<and> ir_count r = il_count l \<and>
      (sl_from s = MinMessagePosition \<or> il_count l \<noteq> None \<and> sl_till s = MaxMessagePosition \<longrightarrow> ir_skippedBefore r \<noteq> None) \<and>
      (sl_till s = MaxMessagePosition \<or> il_count l \<noteq> None \<and> sl_from s = MinMessagePosition \<longrightarrow> ir_skippedAfter r \<noteq> None)"
    if s: "s \<in> set (il_slices l)" and a: "position_bool (iq_aroundId q)" "sl_from s \<le> iq_aroundId q" "iq_aroundId q \<le> sl_till s" for s
  proof -
    have "?i < length (il_slices l)" "il_slices l ! ?i = s" using asked_slice(1) [OF apart refl s a(2,3)] by simp_all
    then have r: "r = query_window MinMessagePosition MaxMessagePosition (il_count l) q s"
      using a by (simp add: assms(5) queryCurrent_def messages_queryFromSlice_eq)
    have "true_slice (set L) s" using assms(1) s by (simp add: true_messages_def true_slices_def)
    from query_window_ids [OF assms(2) this a(2,3) assms(3,4), where lo = MinMessagePosition
        and hi = MaxMessagePosition and count = "il_count l"]
    show ?thesis unfolding r by blast
  qed
  have "r = messages_result_new" if "\<not> position_bool (iq_aroundId q) \<or> iq_aroundId q \<notin> covered (il_slices l)"
    using that asked_slice(2) [OF apart refl, of "iq_aroundId q"] unfolding assms(5) queryCurrent_def Let_def by auto
  then show ?thesis
    using known messages_snapshot_true [OF assms(1-4)] assms(5) by (auto simp: Let_def)
qed

lemma messages_query_right_witness:
  "ir_messageIds (queryCurrent \<lparr>iq_aroundId = position_at 7 9, iq_limitBefore = 1, iq_limitAfter = 0\<rparr> sample_messages)
     = [position_at 7 5, position_at 7 9] \<and>
   right_window sample_positions [position_at 7 5, position_at 7 9] (Some 4) (Some 0) (Some 2)"
proof -
  let ?q = "\<lparr>iq_aroundId = position_at 7 9, iq_limitBefore = 1, iq_limitAfter = 0\<rparr>"
  note right = messages_query_right [OF sample_messages_true, of ?q, OF _ _ refl]
  have "queryCurrent ?q sample_messages = \<lparr>ir_count = Some 4, ir_skippedBefore = Some 0, ir_skippedAfter = Some 2,
      ir_messageIds = [position_at 7 5, position_at 7 9]\<rparr>"
    by code_simp
  with right show ?thesis by simp
qed

text \<open>Forgetting the messages before a position leaves slices that are right about the rest of
  the server's list and takes from a known count the number of messages that were known before
  the position; but also the message at the position itself when a slice ends there.\<close>

theorem messages_remove_less_than:
  assumes "true_messages T l" "MinMessagePosition \<le> m"
  shows "true_slices {x \<in> T. m \<le> x} (il_slices (removeLessThan m l)) \<and>
    il_count (removeLessThan m l)
      = map_option (\<lambda>n. n - int (card (forgotten m (il_slices l)))) (il_count l)"
proof -
  have T: "T \<subseteq> {MinMessagePosition..MaxMessagePosition}" "true_slices T (il_slices l)"
    using assms(1) by (simp_all add: true_messages_def)
  show ?thesis
    using remove_less_loop_true [OF T(2,1) assms(2)]
    by (cases "il_count l") (auto simp: removeLessThan_def split_beta Let_def)
qed

lemma messages_remove_less_than_witness:
  "\<exists>l. true_messages {position_at 7 5} l \<and> il_count l = Some 1 \<and>
    il_count (removeLessThan (position_at 7 5) l) = Some 0"
proof -
  let ?m = "position_at 7 5"
  let ?l = "\<lparr>il_count = Some 1, il_slices = [\<lparr>sl_messages = [?m], sl_from = ?m, sl_till = ?m\<rparr>],
     il_updates = []\<rparr>"
  have l: "true_messages {?m} ?l"
    using sample_position by (auto simp: true_messages_def true_slices_def slices_apart_def true_slice_def)
  have "forgotten ?m (il_slices ?l) = {?m}" by (auto simp: forgotten_def)
  then have "il_count (removeLessThan ?m ?l) = Some 0"
    using messages_remove_less_than [OF l sample_position(1)] by simp
  then show ?thesis using l by (intro exI [of _ ?l]) simp
qed

end
