(* ===== verification/WorkingHours.thy ===== *)
theory WorkingHours imports Prelude begin

text \<open>
  Opening hours of a business account (\<open>data/business/data_business_common.h\<close> and
  \<open>.cpp\<close>): the intervals of a week, their normal form, what the editor of one day reads and
  writes back, and the conversions of the business settings from and to the server's types.

  Times are seconds since the beginning of Monday. An interval is read as the set of times it
  covers (\<open>wi_times\<close>), a list as the union; every operation on lists is described by what
  it does to this set. \<open>ranges::sort\<close> is not stable; the model sorts stably, and
  \<open>normal_form_unique\<close> shows that the order of intervals with equal starts cannot be
  seen in the result. \<open>TimeId\<close> is a 32-bit integer; the times of a week and its
  neighbours are far from its limits, so sums are those of integers.
\<close>

section \<open>Intervals\<close>

definition kDay :: int where "kDay = 24 * 3600"
definition kWeek :: int where "kWeek = 7 * kDay"
definition kInNextDayMax :: int where "kInNextDayMax = 6 * 3600"

lemmas time_consts = kDay_def kWeek_def kInNextDayMax_def

lemma kDay_pos: "0 < kDay"
  by (simp add: kDay_def)

record WorkingInterval =
  wi_start :: int
  wi_end :: int

definition wi :: "int \<Rightarrow> int \<Rightarrow> WorkingInterval" where
  "wi a b = \<lparr>wi_start = a, wi_end = b\<rparr>"

definition wi_bool :: "WorkingInterval \<Rightarrow> bool" where
  "wi_bool x \<longleftrightarrow> wi_start x < wi_end x"

definition shifted :: "WorkingInterval \<Rightarrow> int \<Rightarrow> WorkingInterval" where
  "shifted x offset = wi (wi_start x + offset) (wi_end x + offset)"

definition united :: "WorkingInterval \<Rightarrow> WorkingInterval \<Rightarrow> WorkingInterval" where
  "united x other =
     (if \<not> wi_bool x then other
      else if \<not> wi_bool other then x
      else wi (min (wi_start x) (wi_start other)) (max (wi_end x) (wi_end other)))"

definition intersected :: "WorkingInterval \<Rightarrow> WorkingInterval \<Rightarrow> WorkingInterval" where
  "intersected x other =
     (let result = wi (max (wi_start x) (wi_start other)) (min (wi_end x) (wi_end other))
      in if wi_bool result then result else wi 0 0)"

definition intervals_bool :: "WorkingInterval list \<Rightarrow> bool" where
  "intervals_bool list = list_ex wi_bool list"

definition wi_times :: "WorkingInterval \<Rightarrow> int set" where
  "wi_times x = {t. wi_start x \<le> t \<and> t < wi_end x}"

definition cover :: "WorkingInterval list \<Rightarrow> int set" where
  "cover list = (\<Union>x \<in> set list. wi_times x)"

lemma wi_sel [simp]: "wi_start (wi a b) = a" "wi_end (wi a b) = b"
  by (simp_all add: wi_def)

lemma wi_inject [simp]: "wi a b = wi c d \<longleftrightarrow> a = c \<and> b = d"
  by (simp add: wi_def)

lemma wi_collapse [simp]: "wi (wi_start x) (wi_end x) = x"
  by (simp add: wi_def)

lemma wi_eqI:
  "wi_start x = wi_start y \<Longrightarrow> wi_end x = wi_end y \<Longrightarrow> x = (y :: WorkingInterval)"
  by simp

lemma mem_wi_times [simp]: "t \<in> wi_times x \<longleftrightarrow> wi_start x \<le> t \<and> t < wi_end x"
  by (simp add: wi_times_def)

lemma wi_times_empty_iff: "wi_times x = {} \<longleftrightarrow> \<not> wi_bool x"
  by (force simp: wi_times_def wi_bool_def)

lemma wi_times_shifted: "wi_times (shifted x k) = (\<lambda>t. t + k) ` wi_times x"
proof (intro set_eqI iffI)
  fix t assume "t \<in> wi_times (shifted x k)"
  then show "t \<in> (\<lambda>t. t + k) ` wi_times x"
    by (intro image_eqI [of _ _ "t - k"]) (auto simp: shifted_def)
qed (auto simp: shifted_def)

lemma wi_times_intersected [simp]:
  "wi_times (intersected x y) = wi_times x \<inter> wi_times y"
  by (auto simp: intersected_def Let_def wi_bool_def)

lemma mem_intersected [simp]:
  "t \<in> wi_times (intersected x y) \<longleftrightarrow> t \<in> wi_times x \<and> t \<in> wi_times y"
  unfolding wi_times_intersected by blast

lemma wi_times_united:
  "wi_bool x \<Longrightarrow> wi_bool y \<Longrightarrow> wi_start x \<le> wi_start y \<Longrightarrow> wi_start y \<le> wi_end x \<Longrightarrow>
   wi_times (united x y) = wi_times x \<union> wi_times y"
  by (auto simp: united_def wi_bool_def)

lemma wi_bool_intersected:
  "wi_bool (intersected x y) \<longleftrightarrow> max (wi_start x) (wi_start y) < min (wi_end x) (wi_end y)"
  by (auto simp: intersected_def Let_def wi_bool_def)

lemma intersected_sel:
  "wi_bool (intersected x y) \<Longrightarrow> wi_start (intersected x y) = max (wi_start x) (wi_start y)"
  "wi_bool (intersected x y) \<Longrightarrow> wi_end (intersected x y) = min (wi_end x) (wi_end y)"
  by (auto simp: intersected_def Let_def wi_bool_def)

lemma cover_simps [simp]:
  "cover [] = {}" "cover (x # xs) = wi_times x \<union> cover xs"
  "cover (xs @ ys) = cover xs \<union> cover ys"
  by (auto simp: cover_def)

lemma intervals_bool_iff: "intervals_bool xs \<longleftrightarrow> cover xs \<noteq> {}"
  by (induction xs) (simp_all add: intervals_bool_def wi_times_empty_iff)

section \<open>Normal form\<close>

text \<open>
  The loop of \<open>SortAndMerge\<close>: \<open>dn\<close> is the part of the list before the index,
  the other argument starts at the index.
\<close>

fun merge_loop :: "WorkingInterval list \<Rightarrow> WorkingInterval list \<Rightarrow> WorkingInterval list" where
  "merge_loop dn [] = dn"
| "merge_loop dn (x # rest) =
     (let merges = dn \<noteq> [] \<and> wi_bool x \<and> wi_bool (last dn) \<and> wi_start x \<le> wi_end (last dn);
          dn' = (if merges then butlast dn @ [united (last dn) x] else dn);
          x' = (if merges then wi 0 0 else x)
      in if \<not> wi_bool x' then merge_loop dn' rest else merge_loop (dn' @ [x']) rest)"

definition SortAndMerge :: "WorkingInterval list \<Rightarrow> WorkingInterval list" where
  "SortAndMerge list = merge_loop [] (sort_key wi_start list)"

function move_tail_loop :: "WorkingInterval list \<Rightarrow> WorkingInterval list" where
  "move_tail_loop list =
     (if list = [] then list
      else let tail = intersected (last list) (wi kWeek (kWeek + kDay))
           in if wi_bool tail
              then let bk = wi (wi_start (last list)) (wi_start tail);
                       list' = (if wi_bool bk then butlast list @ [bk] else butlast list)
                   in move_tail_loop (shifted tail (- kWeek) # list')
              else list)"
  by auto

definition in_tail :: "WorkingInterval \<Rightarrow> bool" where
  "in_tail x = wi_bool (intersected x (wi kWeek (kWeek + kDay)))"

lemma move_tail_measure:
  assumes "list \<noteq> []" "in_tail (last list)"
  defines "tail \<equiv> intersected (last list) (wi kWeek (kWeek + kDay))"
  defines "bk \<equiv> wi (wi_start (last list)) (wi_start tail)"
  shows "length (filter in_tail (shifted tail (- kWeek) # (if wi_bool bk then butlast list @ [bk] else butlast list)))
       < length (filter in_tail list)"
proof -
  have list: "list = butlast list @ [last list]" using assms(1) by simp
  have "wi_bool tail" using assms(2) by (simp add: in_tail_def tail_def)
  then have st: "wi_start tail = max (wi_start (last list)) kWeek" "wi_end tail \<le> kWeek + kDay"
    unfolding tail_def by (simp_all add: intersected_sel)
  then have "\<not> in_tail (shifted tail (- kWeek))"
    by (auto simp: in_tail_def wi_bool_intersected shifted_def time_consts)
  moreover have "wi_bool bk \<Longrightarrow> \<not> in_tail bk"
    using st(1) unfolding in_tail_def wi_bool_intersected bk_def
    by (simp add: max_def wi_bool_def)
  moreover have "length (filter in_tail list) = Suc (length (filter in_tail (butlast list)))"
    by (subst list) (simp add: assms(2))
  ultimately show ?thesis by auto
qed

termination move_tail_loop
proof (relation "measure (\<lambda>list. length (filter in_tail list))")
  show "wf (measure (\<lambda>list. length (filter in_tail list)))" by simp
next
  fix list :: "WorkingInterval list" and tail bk list'
  assume a: "list \<noteq> []" "tail = intersected (last list) (wi kWeek (kWeek + kDay))" "wi_bool tail"
    "bk = wi (wi_start (last list)) (wi_start tail)"
    "list' = (if wi_bool bk then butlast list @ [bk] else butlast list)"
  then have "in_tail (last list)" by (simp add: in_tail_def)
  from move_tail_measure [OF a(1) this]
  show "(shifted tail (- kWeek) # list', list) \<in> measure (\<lambda>list. length (filter in_tail list))"
    unfolding a(2,4,5) by (simp only: in_measure)
qed

declare move_tail_loop.simps [simp del]

definition MoveTailToFront :: "WorkingInterval list \<Rightarrow> WorkingInterval list" where
  "MoveTailToFront list = move_tail_loop list"

definition normalized :: "WorkingInterval list \<Rightarrow> WorkingInterval list" where
  "normalized list = SortAndMerge (MoveTailToFront (SortAndMerge list))"

record WorkingHours =
  wh_intervals :: "WorkingInterval list"
  wh_timezoneId :: string

definition hours_normalized :: "WorkingHours \<Rightarrow> WorkingHours" where
  "hours_normalized h =
     \<lparr>wh_intervals = normalized (wh_intervals h), wh_timezoneId = wh_timezoneId h\<rparr>"

definition hours_bool :: "WorkingHours \<Rightarrow> bool" where
  "hours_bool h \<longleftrightarrow> wh_timezoneId h \<noteq> [] \<and> wh_intervals h \<noteq> []"

section \<open>Days\<close>

definition day_outside :: "WorkingInterval \<Rightarrow> bool" where
  "day_outside x \<longleftrightarrow> wi_end x \<le> 0 \<or> kDay \<le> wi_start x"

definition extract_parts :: "int \<Rightarrow> WorkingInterval \<Rightarrow> WorkingInterval list" where
  "extract_parts dayIndex interval =
     (let now = intersected interval (wi ((dayIndex - 1) * kDay) ((dayIndex + 2) * kDay));
          aft = intersected interval (wi ((dayIndex + 6) * kDay) ((dayIndex + 9) * kDay));
          bef = intersected interval (wi ((dayIndex - 8) * kDay) ((dayIndex - 5) * kDay))
      in (if wi_bool now then [shifted now (- dayIndex * kDay)] else [])
       @ (if wi_bool aft then [shifted aft (- (dayIndex + 7) * kDay)] else [])
       @ (if wi_bool bef then [shifted bef (- (dayIndex - 7) * kDay)] else []))"

definition clip_back :: "WorkingInterval list \<Rightarrow> WorkingInterval list" where
  "clip_back list =
     (if list \<noteq> [] \<and> wi_start (last list) \<le> 0 \<and> kDay \<le> wi_end (last list)
      then butlast list @ [wi 0 kDay]
      else if list \<noteq> [] \<and> kDay + kInNextDayMax < wi_end (last list)
      then butlast list @ [intersected (last list) (wi 0 kDay)]
      else list)"

definition clip_front :: "WorkingInterval list \<Rightarrow> WorkingInterval list" where
  "clip_front list =
     (if list \<noteq> [] \<and> wi_start (hd list) \<le> 0
      then if wi_start (hd list) < 0 \<and> wi_end (hd list) \<le> kInNextDayMax \<and> - kDay < wi_start (hd list)
           then tl list
           else let f = intersected (hd list) (wi 0 kDay)
                in if wi_bool f then f # tl list else tl list
      else list)"

definition ExtractDayIntervals :: "WorkingInterval list \<Rightarrow> int \<Rightarrow> WorkingInterval list" where
  "ExtractDayIntervals intervals dayIndex =
     clip_front (clip_back (filter (\<lambda>x. \<not> day_outside x)
       (normalized (concat (map (extract_parts dayIndex) intervals)))))"

definition IsFullOpen :: "WorkingInterval list \<Rightarrow> bool" where
  "IsFullOpen extractedDay \<longleftrightarrow>
     intervals_bool extractedDay
     \<and> (hd extractedDay = wi 0 (kDay - 60) \<or> hd extractedDay = wi 0 kDay)"

text \<open>
  The loop of \<open>RemoveDayIntervals\<close>: the list is \<open>dn\<close> (before the index), the
  intervals from the index to \<open>count\<close>, and those pushed behind \<open>count\<close>. The
  second intersection of the third branch reads the element that has just been overwritten.
\<close>

fun remove_loop ::
  "int \<Rightarrow> WorkingInterval list \<Rightarrow> WorkingInterval list \<Rightarrow> WorkingInterval list \<Rightarrow> WorkingInterval list" where
  "remove_loop dayIndex dn [] pushed = dn @ pushed"
| "remove_loop dayIndex dn (x # rest) pushed =
     (let sh = shifted (wi 0 kDay) (dayIndex * kDay);
          bef = wi 0 (wi_start sh);
          aft = wi (wi_end sh) kWeek
      in if wi_end x \<le> wi_start sh \<or> wi_end sh \<le> wi_start x
         then remove_loop dayIndex (dn @ [x]) rest pushed
         else if wi_end x \<le> wi_start sh + kInNextDayMax
           \<and> (wi_start x < wi_start sh
              \<or> (dayIndex = 0 \<and> wi_start x = wi_start sh
                 \<and> kWeek \<le> wi_end (last (dn @ x # rest @ pushed))))
         then remove_loop dayIndex (dn @ [x]) rest pushed
         else if wi_bool (intersected x bef)
         then let first = intersected x bef;
                  second = intersected first aft
              in remove_loop dayIndex (dn @ [first]) rest
                   (if wi_bool second then pushed @ [second] else pushed)
         else if wi_bool (intersected x aft)
         then remove_loop dayIndex (dn @ [intersected x aft]) rest pushed
         else remove_loop dayIndex dn rest pushed)"

definition RemoveDayIntervals :: "WorkingInterval list \<Rightarrow> int \<Rightarrow> WorkingInterval list" where
  "RemoveDayIntervals intervals dayIndex =
     normalized (remove_loop dayIndex [] (normalized intervals) [])"

definition ReplaceDayIntervals ::
  "WorkingInterval list \<Rightarrow> int \<Rightarrow> WorkingInterval list \<Rightarrow> WorkingInterval list" where
  "ReplaceDayIntervals intervals dayIndex replacement =
     normalized (RemoveDayIntervals intervals dayIndex
       @ map (\<lambda>x. shifted x (dayIndex * kDay)) replacement)"

section \<open>The normal form is canonical\<close>

definition apart :: "WorkingInterval list \<Rightarrow> bool" where
  "apart list \<longleftrightarrow> list_all wi_bool list \<and> sorted_wrt (\<lambda>x y. wi_end x < wi_start y) list"

lemma apart_Nil [simp]: "apart []"
  by (simp add: apart_def)

lemma apart_Cons:
  "apart (x # xs) \<longleftrightarrow> wi_bool x \<and> (\<forall>y \<in> set xs. wi_end x < wi_start y) \<and> apart xs"
  by (auto simp: apart_def)

lemma apart_append:
  "apart (xs @ ys) \<longleftrightarrow> apart xs \<and> apart ys \<and> (\<forall>x \<in> set xs. \<forall>y \<in> set ys. wi_end x < wi_start y)"
  by (auto simp: apart_def sorted_wrt_append)

lemma apart_snoc:
  "apart (xs @ [y]) \<longleftrightarrow> apart xs \<and> wi_bool y \<and> (\<forall>x \<in> set xs. wi_end x < wi_start y)"
  by (auto simp: apart_append apart_Cons)

lemma apart_wi_bool: "apart xs \<Longrightarrow> x \<in> set xs \<Longrightarrow> wi_bool x"
  by (auto simp: apart_def list_all_iff)

lemma mem_cover: "t \<in> cover xs \<longleftrightarrow> (\<exists>x \<in> set xs. wi_start x \<le> t \<and> t < wi_end x)"
  by (auto simp: cover_def)

lemma apart_Cons_start:
  "apart (x # xs) \<Longrightarrow> t \<in> cover (x # xs) \<Longrightarrow> wi_start x \<le> t"
  by (force simp: apart_Cons mem_cover wi_bool_def)

lemma apart_Cons_head:
  "apart (x # xs) \<Longrightarrow> t \<in> cover (x # xs) \<Longrightarrow> t \<le> wi_end x \<Longrightarrow> t < wi_end x"
  by (force simp: apart_Cons mem_cover wi_bool_def)

lemma apart_times_eqD:
  assumes "apart (x # xs)" "apart (y # ys)" "cover (x # xs) \<subseteq> cover (y # ys)"
    and "wi_start x = wi_start y"
  shows "wi_end x \<le> wi_end y"
proof (rule ccontr)
  assume "\<not> wi_end x \<le> wi_end y"
  moreover have "wi_bool y" using assms(2) by (simp add: apart_Cons)
  ultimately have "wi_end y \<in> cover (x # xs)"
    using assms(4) by (auto simp: mem_cover wi_bool_def)
  then show False
    using apart_Cons_head [OF assms(2), of "wi_end y"] assms(3) by auto
qed

lemma apart_times_startD:
  assumes "apart (x # xs)" "apart (y # ys)" "cover (x # xs) \<subseteq> cover (y # ys)"
  shows "wi_start y \<le> wi_start x"
proof -
  have "wi_start x \<in> cover (x # xs)"
    using assms(1) by (auto simp: mem_cover apart_Cons wi_bool_def)
  then have "wi_start x \<in> cover (y # ys)" using assms(3) by blast
  then show ?thesis by (rule apart_Cons_start [OF assms(2)])
qed

lemma apart_tl_times:
  assumes "apart (x # xs)" shows "cover xs = {t \<in> cover (x # xs). wi_end x < t}"
  using assms by (force simp: apart_Cons mem_cover wi_bool_def)

lemma apart_eqI: "apart xs \<Longrightarrow> apart ys \<Longrightarrow> cover xs = cover ys \<Longrightarrow> xs = ys"
proof (induction xs arbitrary: ys)
  case Nil
  then show ?case by (cases ys) (auto simp: apart_Cons wi_times_empty_iff)
next
  case (Cons x xs)
  then have "cover (x # xs) \<noteq> {}" by (auto simp: apart_Cons wi_times_empty_iff)
  then obtain y ys' where ys: "ys = y # ys'" using Cons.prems(3) by (cases ys) auto
  have le: "cover (x # xs) \<subseteq> cover (y # ys')" "cover (y # ys') \<subseteq> cover (x # xs)"
    using Cons.prems(3) unfolding ys by blast+
  have a: "apart (y # ys')" using Cons.prems(2) unfolding ys .
  have st: "wi_start x = wi_start y"
    using apart_times_startD [OF Cons.prems(1) a le(1)] apart_times_startD [OF a Cons.prems(1) le(2)]
    by simp
  have "wi_end x = wi_end y"
    using apart_times_eqD [OF Cons.prems(1) a le(1) st] apart_times_eqD [OF a Cons.prems(1) le(2) st [symmetric]]
    by simp
  with st have xy: "x = y" by (rule wi_eqI)
  have "cover xs = cover ys'"
    using apart_tl_times [OF Cons.prems(1)] apart_tl_times [OF a] le xy by blast
  then have "xs = ys'" using Cons.IH Cons.prems(1) a by (simp add: apart_Cons)
  then show ?case using xy ys by simp
qed

lemma merge_loop_apart:
  assumes "apart dn" "sorted (map wi_start rest)" "\<forall>x \<in> set dn. \<forall>y \<in> set rest. wi_start x \<le> wi_start y"
  shows "apart (merge_loop dn rest) \<and> cover (merge_loop dn rest) = cover dn \<union> cover rest"
  using assms
proof (induction dn rest rule: merge_loop.induct)
  case (2 dn x rest)
  show ?case
  proof (cases "wi_bool x")
    case False
    then show ?thesis using 2(1) 2(3-) wi_times_empty_iff [of x] by simp
  next
    case x: True
    show ?thesis
    proof (cases "dn \<noteq> [] \<and> wi_start x \<le> wi_end (last dn)")
      case False
      have "apart (dn @ [x])"
      proof (cases dn rule: rev_cases)
        case (snoc d l)
        have "\<forall>z \<in> set d. wi_end z < wi_start l" "wi_bool l" "wi_end l < wi_start x"
          using 2(3) False unfolding snoc apart_snoc by auto
        then have "\<forall>z \<in> set dn. wi_end z < wi_start x"
          unfolding snoc wi_bool_def by fastforce
        with 2(3) x show ?thesis by (simp add: apart_snoc)
      qed (use x in \<open>simp add: apart_Cons\<close>)
      moreover have "\<forall>z \<in> set (dn @ [x]). \<forall>y \<in> set rest. wi_start z \<le> wi_start y"
        using 2(4,5) by auto
      moreover have "\<not> (dn \<noteq> [] \<and> wi_bool x \<and> wi_bool (last dn) \<and> wi_start x \<le> wi_end (last dn))"
        using False by blast
      moreover have eq: "merge_loop dn (x # rest) = merge_loop (dn @ [x]) rest"
        using False x by auto
      ultimately show ?thesis unfolding eq using 2(2) [of False dn x] 2(4) x by (simp add: Un_assoc)
    next
      case True
      then obtain d l where dn: "dn = d @ [l]" by (cases dn rule: rev_cases) auto
      have l: "wi_bool l" "wi_start x \<le> wi_end l" "wi_start l \<le> wi_start x"
        using True 2(3,5) unfolding dn apart_snoc by auto
      have u: "united l x = wi (wi_start l) (max (wi_end l) (wi_end x))"
        using l x by (auto simp: united_def)
      have ap: "apart (d @ [united l x])"
        using 2(3) unfolding dn apart_snoc u wi_bool_def by auto
      have st: "\<forall>z \<in> set (d @ [united l x]). \<forall>y \<in> set rest. wi_start z \<le> wi_start y"
        using 2(5) unfolding dn u by auto
      have "cover (d @ [united l x]) = cover dn \<union> wi_times x"
        using wi_times_united [OF l(1) x l(3,2)] by (auto simp: dn)
      then show ?thesis
        using 2(1) [of True "d @ [united l x]" "wi 0 0"] ap st l x 2(4)
        by (simp add: dn wi_bool_def Un_assoc)
    qed
  qed
qed simp

lemma SortAndMerge_apart [simp]: "apart (SortAndMerge list)"
  and SortAndMerge_times [simp]: "cover (SortAndMerge list) = cover list"
  using merge_loop_apart [of "[]" "sort_key wi_start list"]
  by (simp_all add: SortAndMerge_def cover_def)

lemma normalized_apart [simp]: "apart (normalized list)"
  by (simp add: normalized_def)


section \<open>Times of the normal form\<close>

text \<open>What \<open>MoveTailToFront\<close> does to the covered times: those after the end of the
  week come back at its beginning.\<close>

definition wrap :: "int set \<Rightarrow> int set" where
  "wrap T = {t \<in> T. t < kWeek} \<union> (\<lambda>t. t - kWeek) ` {t \<in> T. kWeek \<le> t}"

lemma mem_wrap: "t \<in> wrap T \<longleftrightarrow> t < kWeek \<and> t \<in> T \<or> 0 \<le> t \<and> t + kWeek \<in> T"
proof -
  have "t \<in> (\<lambda>t. t - kWeek) ` {t \<in> T. kWeek \<le> t} \<longleftrightarrow> 0 \<le> t \<and> t + kWeek \<in> T"
    by (auto intro!: image_eqI [of _ _ "t + kWeek"])
  then show ?thesis by (auto simp: wrap_def)
qed

lemma wrap_id: "T \<subseteq> {..<kWeek} \<Longrightarrow> wrap T = T"
  by (auto simp: mem_wrap subset_iff kWeek_def kDay_def)

lemma wrap_Un: "wrap (S \<union> T) = wrap S \<union> wrap T"
  by (auto simp: mem_wrap)

lemma in_tail_iff:
  "in_tail x \<longleftrightarrow> max (wi_start x) kWeek < min (wi_end x) (kWeek + kDay)"
  by (simp add: in_tail_def wi_bool_intersected)

definition in_front :: "WorkingInterval \<Rightarrow> bool" where
  "in_front x \<longleftrightarrow> 0 \<le> wi_start x \<and> wi_end x \<le> kDay"

lemma move_tail_stop:
  "list = [] \<or> \<not> in_tail (last list) \<Longrightarrow> move_tail_loop list = list"
  by (subst move_tail_loop.simps) (auto simp: in_tail_def)

lemma move_tail_step:
  assumes "in_tail l"
  shows "move_tail_loop (xs @ [l]) = move_tail_loop
    (wi (max (wi_start l) kWeek - kWeek) (min (wi_end l) (kWeek + kDay) - kWeek)
     # (if wi_start l < kWeek then xs @ [wi (wi_start l) kWeek] else xs))"
proof -
  have b: "wi_bool (intersected l (wi kWeek (kWeek + kDay)))" using assms by (simp add: in_tail_def)
  show ?thesis
    using b intersected_sel [OF b]
    by (subst move_tail_loop.simps) (auto simp: Let_def shifted_def wi_bool_def max_def)
qed

lemma move_tail_loop_times:
  assumes "list_all in_front moved" "apart xs" "cover xs \<subseteq> {..<kWeek + kDay}"
  shows "cover (move_tail_loop (moved @ xs)) = cover moved \<union> wrap (cover xs)"
  using assms
proof (induction xs arbitrary: moved rule: rev_induct)
  case Nil
  have "moved = [] \<or> \<not> in_tail (last moved)"
  proof (cases moved rule: rev_cases)
    case (snoc d m)
    then have "in_front m" using Nil(1) by simp
    then show ?thesis by (auto simp: snoc in_front_def in_tail_iff time_consts)
  qed simp
  then show ?case by (simp add: move_tail_stop wrap_def)
next
  case (snoc l xs)
  have l: "wi_bool l" "\<forall>x \<in> set xs. wi_end x < wi_start l" "apart xs"
    using snoc.prems(2) by (auto simp: apart_snoc)
  have "wi_end l - 1 \<in> cover (xs @ [l])" using l(1) by (simp add: wi_bool_def)
  then have "wi_end l - 1 \<in> {..<kWeek + kDay}" using snoc.prems(3) by blast
  then have e: "wi_end l \<le> kWeek + kDay" by simp
  show ?case
  proof (cases "in_tail l")
    case False
    then have "wi_end l \<le> kWeek" using e l(1) by (auto simp: in_tail_iff wi_bool_def)
    then have "cover (xs @ [l]) \<subseteq> {..<kWeek}"
      using l by (fastforce simp: mem_cover wi_bool_def)
    then show ?thesis using False by (simp add: move_tail_stop wrap_id)
  next
    case True
    define m where "m = wi (max (wi_start l) kWeek - kWeek) (min (wi_end l) (kWeek + kDay) - kWeek)"
    have m: "in_front m" by (simp add: m_def in_front_def)
    have tm: "wi_times m = {t. 0 \<le> t \<and> t + kWeek \<in> wi_times l}"
      using e by (auto simp: m_def)
    have step: "move_tail_loop (moved @ xs @ [l])
        = move_tail_loop ((m # moved) @ (if wi_start l < kWeek then xs @ [wi (wi_start l) kWeek] else xs))"
      using move_tail_step [OF True, of "moved @ xs"] by (simp add: m_def)
    show ?thesis
    proof (cases "wi_start l < kWeek")
      case bk: True
      let ?b = "wi (wi_start l) kWeek"
      have "move_tail_loop ((m # moved) @ xs @ [?b]) = (m # moved) @ xs @ [?b]"
        by (rule move_tail_stop) (simp add: in_tail_iff)
      then have lhs: "cover (move_tail_loop (moved @ xs @ [l])) = cover ((m # moved) @ xs @ [?b])"
        unfolding step using bk by (simp only: if_True)
      have A: "wrap (cover xs) = cover xs"
        by (rule wrap_id) (use l bk in \<open>fastforce simp: mem_cover\<close>)
      have W: "kWeek < wi_end l" using True by (simp add: in_tail_iff)
      have B: "wrap (wi_times l) = wi_times m \<union> wi_times ?b"
      proof (rule set_eqI)
        fix t
        have "t < kWeek \<longrightarrow> t < wi_end l" using W by linarith
        then show "t \<in> wrap (wi_times l) \<longleftrightarrow> t \<in> wi_times m \<union> wi_times ?b"
          unfolding mem_wrap tm mem_wi_times wi_sel Un_iff mem_Collect_eq by blast
      qed
      have rhs: "wrap (cover (xs @ [l])) = cover xs \<union> (wi_times m \<union> wi_times ?b)"
        unfolding cover_simps Un_empty_right wrap_Un A B by (rule refl)
      show ?thesis unfolding lhs rhs unfolding cover_simps by blast
    next
      case False
      have "wrap (wi_times l) = wi_times m"
        unfolding tm using False by (auto simp: mem_wrap)
      then have rhs: "wrap (cover (xs @ [l])) = wrap (cover xs) \<union> wi_times m"
        by (simp only: cover_simps wrap_Un Un_empty_right)
      have "cover (move_tail_loop (moved @ xs @ [l])) = cover (m # moved) \<union> wrap (cover xs)"
        unfolding step using snoc.IH [of "m # moved"] snoc.prems l(3) m False by simp
      then show ?thesis unfolding rhs unfolding cover_simps by blast
    qed
  qed
qed

lemma normalized_times:
  assumes "cover list \<subseteq> {..<kWeek + kDay}"
  shows "cover (normalized list) = wrap (cover list)"
  using move_tail_loop_times [of "[]" "SortAndMerge list"] assms
  by (simp add: normalized_def MoveTailToFront_def)


section \<open>One day\<close>

lemma cover_append_last:
  "xs \<noteq> [] \<Longrightarrow> cover xs = cover (butlast xs) \<union> wi_times (last xs)"
  by (cases xs rule: rev_cases) auto

lemma cover_hd_tl: "xs \<noteq> [] \<Longrightarrow> cover xs = wi_times (hd xs) \<union> cover (tl xs)"
  by (cases xs) auto

lemma wi_times_Not_wi_bool: "\<not> wi_bool x \<Longrightarrow> t \<notin> wi_times x"
  by (simp add: wi_bool_def)

lemma cover_clip_back:
  "0 \<le> t \<Longrightarrow> t < kDay \<Longrightarrow> t \<in> cover (clip_back xs) \<longleftrightarrow> t \<in> cover xs"
  using mem_intersected [of t "last xs" "wi 0 kDay", unfolded mem_wi_times]
  by (cases "xs = []") (auto simp: clip_back_def cover_append_last kInNextDayMax_def)

lemma cover_clip_front:
  assumes "kInNextDayMax \<le> t" "t < kDay"
  shows "t \<in> cover (clip_front xs) \<longleftrightarrow> t \<in> cover xs"
proof (cases xs)
  case (Cons x xs')
  have "0 \<le> t" using assms(1) by (simp add: kInNextDayMax_def)
  moreover have "\<not> wi_bool (intersected x (wi 0 kDay)) \<Longrightarrow> t \<notin> wi_times x"
    using wi_times_Not_wi_bool [of "intersected x (wi 0 kDay)" t] \<open>0 \<le> t\<close> assms(2) by auto
  ultimately show ?thesis using assms by (auto simp: Cons clip_front_def Let_def)
qed (simp add: clip_front_def)

lemma cover_filter_outside:
  "0 \<le> t \<Longrightarrow> t < kDay \<Longrightarrow> t \<in> cover (filter (\<lambda>x. \<not> day_outside x) xs) \<longleftrightarrow> t \<in> cover xs"
  by (induction xs) (auto simp: day_outside_def)

lemma extract_part_cover:
  "t \<in> cover (if wi_bool y then [shifted y k] else []) \<longleftrightarrow> t - k \<in> wi_times y"
  by (auto simp: shifted_def wi_bool_def)

lemma extract_parts_cover:
  "t \<in> cover (extract_parts d x) \<longleftrightarrow>
     - kDay \<le> t \<and> t < 2 * kDay
     \<and> (t + d * kDay \<in> wi_times x \<or> t + (d + 7) * kDay \<in> wi_times x \<or> t + (d - 7) * kDay \<in> wi_times x)"
  unfolding extract_parts_def Let_def cover_simps Un_iff extract_part_cover wi_times_intersected
    Int_iff mem_wi_times wi_sel
  by (auto simp: algebra_simps)

lemma cover_concat: "t \<in> cover (concat (map f xs)) \<longleftrightarrow> (\<exists>x \<in> set xs. t \<in> cover (f x))"
  by (induction xs) auto

lemma extract_cover:
  assumes "kInNextDayMax \<le> t" "t < kDay"
  shows "t \<in> cover (ExtractDayIntervals xs d) \<longleftrightarrow>
    (\<exists>k \<in> {-7, 0, 7}. t + (d + k) * kDay \<in> cover xs)"
proof -
  let ?P = "concat (map (extract_parts d) xs)"
  have t: "0 \<le> t" using assms by (simp add: kInNextDayMax_def)
  have sub: "cover ?P \<subseteq> {..<kWeek}"
    unfolding subset_iff cover_concat extract_parts_cover by (simp add: time_consts)
  have "t \<in> cover (ExtractDayIntervals xs d) \<longleftrightarrow> t \<in> cover (normalized ?P)"
    using assms t by (simp add: ExtractDayIntervals_def cover_clip_front cover_clip_back cover_filter_outside)
  also have "cover (normalized ?P) = cover ?P"
    by (subst normalized_times)
       (use sub wrap_id [OF sub] in \<open>auto simp: kDay_def\<close>)
  also have "t \<in> cover ?P \<longleftrightarrow> (\<exists>k \<in> {-7, 0, 7}. t + (d + k) * kDay \<in> cover xs)"
    unfolding cover_concat extract_parts_cover using t assms
    by (auto simp: mem_cover kDay_def)
  finally show ?thesis .
qed

text \<open>What the editor of a day shows lies in that day, or ends in the night after it.\<close>

definition day_view :: "WorkingInterval list \<Rightarrow> bool" where
  "day_view list \<longleftrightarrow> apart list \<and> (\<forall>x \<in> set list. 0 \<le> wi_start x \<and> wi_start x < kDay
     \<and> wi_end x \<le> kDay + kInNextDayMax)"

lemma clip_back_shape:
  assumes "apart xs" "\<forall>x \<in> set xs. \<not> day_outside x"
  shows "apart (clip_back xs)
    \<and> (\<forall>x \<in> set (clip_back xs). wi_start x < kDay \<and> 0 < wi_end x \<and> wi_end x \<le> kDay + kInNextDayMax)"
proof (cases xs rule: rev_cases)
  case (snoc ys l)
  have l: "wi_bool l" "wi_start l < kDay" "0 < wi_end l" using assms
    by (auto simp: snoc apart_snoc day_outside_def)
  have ys: "apart ys" "\<forall>y \<in> set ys. wi_end y < wi_start l"
    using assms by (auto simp: snoc apart_snoc)
  have pre: "\<forall>y \<in> set ys. wi_start y < kDay \<and> 0 < wi_end y \<and> wi_end y \<le> kDay + kInNextDayMax"
    using assms ys(2) l(2) by (fastforce simp: snoc day_outside_def kInNextDayMax_def)
  show ?thesis
  proof (cases "wi_start l \<le> 0 \<and> kDay \<le> wi_end l")
    case True
    have "ys = []"
    proof (cases ys)
      case (Cons y ys')
      then have "wi_end y < 0" "0 < wi_end y" using ys(2) pre True by auto
      then show ?thesis by simp
    qed
    then show ?thesis using True
      by (simp add: clip_back_def snoc apart_Cons wi_bool_def time_consts)
  next
    case False
    show ?thesis
    proof (cases "kDay + kInNextDayMax < wi_end l")
      case True
      have i: "intersected l (wi 0 kDay) = wi (wi_start l) kDay"
        using False True l by (auto simp: intersected_def Let_def wi_bool_def time_consts)
      have "kDay \<le> kDay + kInNextDayMax" "0 < kDay" by (simp_all add: time_consts)
      then show ?thesis using False True l ys pre
        by (auto simp: clip_back_def snoc i apart_snoc wi_bool_def)
    next
      case F2: False
      then show ?thesis using False l ys pre assms by (auto simp: clip_back_def snoc)
    qed
  qed
qed (use assms in \<open>simp add: clip_back_def\<close>)

lemma extract_day_view: "day_view (ExtractDayIntervals xs d)"
proof -
  let ?F = "filter (\<lambda>x. \<not> day_outside x) (normalized (concat (map (extract_parts d) xs)))"
  have F: "apart ?F"
    using normalized_apart by (auto simp: apart_def sorted_wrt_filter list_all_iff)
  let ?B = "clip_back ?F"
  have B: "apart ?B" "\<forall>x \<in> set ?B. wi_start x < kDay \<and> 0 < wi_end x \<and> wi_end x \<le> kDay + kInNextDayMax"
    using clip_back_shape [OF F] by auto
  have "day_view (clip_front ?B)"
  proof (cases ?B)
    case (Cons x ys)
    have pos: "\<forall>y \<in> set ys. 0 \<le> wi_start y" using B unfolding Cons apart_Cons by fastforce
    have ys: "day_view ys" using B pos unfolding Cons apart_Cons by (simp add: day_view_def)
    show ?thesis
    proof (cases "wi_start x \<le> 0")
      case True
      have i: "wi_bool (intersected x (wi 0 kDay)) \<Longrightarrow> day_view (intersected x (wi 0 kDay) # ys)"
        using ys B True unfolding Cons apart_Cons
        by (auto simp: day_view_def apart_Cons intersected_sel kInNextDayMax_def kDay_def)
      show ?thesis using True ys i by (simp add: Cons clip_front_def Let_def)
    next
      case False
      then show ?thesis using ys B unfolding Cons apart_Cons
        by (simp add: clip_front_def day_view_def apart_Cons)
    qed
  qed (simp add: clip_front_def day_view_def)
  then show ?thesis by (simp add: ExtractDayIntervals_def)
qed


section \<open>Removing and replacing a day\<close>

text \<open>What the loop makes of one interval, when \<open>e\<close> is the end of the last one.\<close>

definition remove_one :: "int \<Rightarrow> int \<Rightarrow> WorkingInterval \<Rightarrow> WorkingInterval list" where
  "remove_one d e x =
     (if wi_end x \<le> d * kDay \<or> (d + 1) * kDay \<le> wi_start x
         \<or> wi_end x \<le> d * kDay + kInNextDayMax
           \<and> (wi_start x < d * kDay \<or> d = 0 \<and> wi_start x = d * kDay \<and> kWeek \<le> e)
      then [x]
      else if wi_bool (intersected x (wi 0 (d * kDay))) then [intersected x (wi 0 (d * kDay))]
      else if wi_bool (intersected x (wi ((d + 1) * kDay) kWeek))
      then [intersected x (wi ((d + 1) * kDay) kWeek)]
      else [])"

lemma second_dead: "\<not> wi_bool (intersected (intersected x (wi 0 (d * kDay))) (wi ((d + 1) * kDay) kWeek))"
proof -
  have "d * kDay \<le> (d + 1) * kDay" by (simp add: kDay_def)
  then have "wi_times (intersected (intersected x (wi 0 (d * kDay))) (wi ((d + 1) * kDay) kWeek)) = {}"
    by (auto simp: set_eq_iff simp del: mem_wi_times) (simp add: mem_wi_times)
  then show ?thesis unfolding wi_times_empty_iff .
qed

lemma day_shifted:
  "wi_start (shifted (wi 0 kDay) (d * kDay)) = d * kDay"
  "wi_end (shifted (wi 0 kDay) (d * kDay)) = (d + 1) * kDay"
  by (simp_all add: shifted_def algebra_simps)

lemma remove_loop_step:
  "remove_loop d dn (x # rest) [] = remove_loop d (dn @ remove_one d (wi_end (last (x # rest))) x) rest []"
  by (cases "rest = []") (auto simp: day_shifted remove_one_def Let_def second_dead)

lemma remove_loop_eq:
  "remove_loop d dn rest [] = dn @ concat (map (remove_one d (wi_end (last rest))) rest)"
proof (induction rest arbitrary: dn)
  case (Cons x rest)
  then show ?case by (cases rest) (simp_all only: remove_loop_step, simp_all)
qed simp

lemma remove_one_sub:
  "cover (remove_one d e x) \<subseteq> wi_times x - {d * kDay + kInNextDayMax ..< (d + 1) * kDay}"
proof -
  have "d * kDay + kInNextDayMax \<le> (d + 1) * kDay" "0 < kInNextDayMax"
    by (simp_all add: time_consts)
  then show ?thesis
    by (auto simp: remove_one_def split: if_splits)
qed

lemma mem_remove_loop:
  "t \<in> cover (remove_loop d [] xs []) \<longleftrightarrow>
   (\<exists>x \<in> set xs. t \<in> cover (remove_one d (wi_end (last xs)) x))"
  by (simp add: remove_loop_eq cover_concat)

lemma remove_one_before:
  assumes "0 \<le> t" "t < d * kDay" "t \<in> wi_times x"
  shows "t \<in> cover (remove_one d e x)"
proof -
  have "t \<in> wi_times (intersected x (wi 0 (d * kDay)))" using assms by simp
  then have "wi_bool (intersected x (wi 0 (d * kDay)))"
    by (metis wi_times_Not_wi_bool)
  then show ?thesis using assms by (simp add: remove_one_def)
qed

lemma apart_disjoint:
  "apart xs \<Longrightarrow> x \<in> set xs \<Longrightarrow> y \<in> set xs \<Longrightarrow> t \<in> wi_times x \<Longrightarrow> t \<in> wi_times y \<Longrightarrow> x = y"
  by (induction xs) (auto simp: apart_Cons)

lemma wrap_less: "t \<in> wrap T \<Longrightarrow> T \<subseteq> {..<kWeek + kDay} \<Longrightarrow> t < kWeek"
  by (auto simp: mem_wrap subset_iff kWeek_def kDay_def)

lemma remove_cover:
  assumes "cover ivs \<subseteq> {..<kWeek + kDay}"
  shows "cover (RemoveDayIntervals ivs d) = cover (remove_loop d [] (normalized ivs) [])"
proof -
  have "cover (remove_loop d [] (normalized ivs) []) \<subseteq> cover (normalized ivs)"
    unfolding subset_iff mem_remove_loop using remove_one_sub by (fastforce simp: cover_def)
  then have sub: "cover (remove_loop d [] (normalized ivs) []) \<subseteq> {..<kWeek}"
    using wrap_less [OF _ assms] unfolding normalized_times [OF assms] by blast
  have "cover (remove_loop d [] (normalized ivs) []) \<subseteq> {..<kWeek + kDay}"
    using sub by (auto simp: kDay_def)
  then show ?thesis unfolding RemoveDayIntervals_def
    by (simp add: normalized_times wrap_id [OF sub])
qed

lemma remove_sub:
  assumes "cover ivs \<subseteq> {..<kWeek + kDay}"
  shows "cover (RemoveDayIntervals ivs d)
    \<subseteq> wrap (cover ivs) - {d * kDay + kInNextDayMax ..< (d + 1) * kDay}"
proof
  fix t assume "t \<in> cover (RemoveDayIntervals ivs d)"
  then obtain x where x: "x \<in> set (normalized ivs)"
      "t \<in> cover (remove_one d (wi_end (last (normalized ivs))) x)"
    unfolding remove_cover [OF assms] mem_remove_loop by blast
  then have "t \<in> wi_times x - {d * kDay + kInNextDayMax ..< (d + 1) * kDay}"
    using remove_one_sub by blast
  moreover from this have "t \<in> wrap (cover ivs)"
    using x(1) unfolding normalized_times [OF assms, symmetric] by (auto simp: mem_cover)
  ultimately show "t \<in> wrap (cover ivs) - {d * kDay + kInNextDayMax ..< (d + 1) * kDay}" by blast
qed

lemma remove_keeps_before:
  assumes "cover ivs \<subseteq> {..<kWeek + kDay}" "t \<in> wrap (cover ivs)" "0 \<le> t" "t < d * kDay"
  shows "t \<in> cover (RemoveDayIntervals ivs d)"
proof -
  have "t \<in> cover (normalized ivs)" using assms(2) by (simp add: normalized_times assms(1))
  then obtain x where x: "x \<in> set (normalized ivs)" "t \<in> wi_times x" by (auto simp: mem_cover)
  show ?thesis
    unfolding remove_cover [OF assms(1)] mem_remove_loop
    using x(1) remove_one_before [OF assms(3,4) x(2)] by blast
qed

lemma replace_cover:
  assumes "cover ivs \<subseteq> {0..<kWeek + kDay}" "cover rep \<subseteq> {0..<kDay + kInNextDayMax}" "0 \<le> d" "d < 7"
  shows "cover (ReplaceDayIntervals ivs d rep)
    = cover (RemoveDayIntervals ivs d) \<union> wrap ((\<lambda>t. t + d * kDay) ` cover rep)"
proof -
  have ivs: "cover ivs \<subseteq> {..<kWeek + kDay}" using assms(1) by auto
  let ?S = "(\<lambda>t. t + d * kDay) ` cover rep"
  have sh: "cover (map (\<lambda>x. shifted x (d * kDay)) rep) = ?S"
    by (induction rep) (auto simp: wi_times_shifted simp del: mem_wi_times)
  have R: "cover (RemoveDayIntervals ivs d) \<subseteq> {..<kWeek}"
    using remove_sub [OF ivs] wrap_less [OF _ ivs] by blast
  have "d * kDay \<le> 6 * kDay" using assms(4) by (simp add: kDay_def)
  then have "?S \<subseteq> {..<kWeek + kDay}"
    using assms(2) by (auto simp: time_consts subset_iff)
  then have "cover (RemoveDayIntervals ivs d @ map (\<lambda>x. shifted x (d * kDay)) rep) \<subseteq> {..<kWeek + kDay}"
    using R \<open>?S \<subseteq> {..<kWeek + kDay}\<close> kDay_pos unfolding cover_simps sh by (auto simp: subset_iff)
  then show ?thesis
    by (simp add: ReplaceDayIntervals_def normalized_times wrap_Un wrap_id [OF R] sh)
qed

section \<open>Properties of the opening hours\<close>

text \<open>C17: Normalising a list of intervals that ends within a day after the week gives the one
  list of non-empty, sorted intervals with gaps between them that covers the same times, those
  after the end of the week moved to its beginning; so the order in which the sort leaves
  intervals with equal starts is irrelevant.\<close>

theorem working_hours_normal_form:
  assumes "cover ivs \<subseteq> {..<kWeek + kDay}"
  shows "apart L \<and> cover L = wrap (cover ivs) \<longleftrightarrow> L = normalized ivs"
  using apart_eqI [of L "normalized ivs"] by (auto simp: normalized_times [OF assms])

lemma working_hours_normal_form_witness:
  "apart [wi 0 7200, wi 604000 604800]
   \<and> normalized [wi 604000 606000, wi 1200 7200] = [wi 0 7200, wi 604000 604800]"
proof -
  have c: "cover [wi 604000 606000, wi 1200 7200] \<subseteq> {..<kWeek + kDay}"
    by (auto simp: time_consts)
  have a: "apart [wi 0 7200, wi 604000 604800]" by (simp add: apart_Cons wi_bool_def)
  have "cover [wi 0 7200, wi 604000 604800] = wrap (cover [wi 604000 606000, wi 1200 7200])"
    by (auto simp: mem_wrap time_consts)
  then show ?thesis using working_hours_normal_form [OF c] a by metis
qed

text \<open>C18: What the editor shows for a day: sorted intervals with gaps that begin in the day
  and end by six in the next morning at the latest, and that cover a time of the day from six
  o'clock on exactly if the hours cover it in this week, the one before or the one after.\<close>

theorem extract_day_right:
  "day_view (ExtractDayIntervals ivs d)
   \<and> (\<forall>t \<in> {kInNextDayMax ..< kDay}. t \<in> cover (ExtractDayIntervals ivs d)
        \<longleftrightarrow> (\<exists>k \<in> {-7, 0, 7}. t + (d + k) * kDay \<in> cover ivs))"
  by (simp add: extract_day_view extract_cover)

lemma extract_day_right_witness:
  "ExtractDayIntervals [wi 0 kWeek] 3 = [wi 0 kDay] \<and> 50000 \<in> cover (ExtractDayIntervals [wi 0 kWeek] 3)"
proof
  show "ExtractDayIntervals [wi 0 kWeek] 3 = [wi 0 kDay]" by code_simp
  have "50000 \<in> {kInNextDayMax ..< kDay}" by (simp add: time_consts)
  moreover have "50000 + (3 + 0) * kDay \<in> cover [wi 0 kWeek]" by (simp add: time_consts)
  ultimately show "50000 \<in> cover (ExtractDayIntervals [wi 0 kWeek] 3)"
    using extract_day_right [of "[wi 0 kWeek]" 3] by blast
qed

text \<open>Clearing a day leaves nothing of it after six in the morning, adds nothing, and
  leaves the times of the week before the day as they are.\<close>

theorem remove_day_clears:
  assumes "cover ivs \<subseteq> {..<kWeek + kDay}"
  shows "cover (RemoveDayIntervals ivs d)
      \<subseteq> wrap (cover ivs) - {d * kDay + kInNextDayMax ..< (d + 1) * kDay}
    \<and> wrap (cover ivs) \<inter> {0..<d * kDay} \<subseteq> cover (RemoveDayIntervals ivs d)"
  using remove_sub [OF assms, of d] remove_keeps_before [OF assms, of _ d] by auto

lemma remove_day_clears_witness:
  "120000 \<notin> cover (RemoveDayIntervals [wi 0 kWeek] 1) \<and> 70000 \<in> cover (RemoveDayIntervals [wi 0 kWeek] 1)"
proof -
  have c: "cover [wi 0 kWeek] \<subseteq> {..<kWeek + kDay}" by (auto simp: time_consts)
  have "120000 \<in> {1 * kDay + kInNextDayMax ..< (1 + 1) * kDay}" by (simp add: time_consts)
  moreover have "70000 \<in> wrap (cover [wi 0 kWeek]) \<inter> {0..<1 * kDay}"
    by (simp add: mem_wrap time_consts)
  ultimately show ?thesis using remove_day_clears [OF c, of 1] by blast
qed

text \<open>A day in the middle of a longer opening time: clearing it also clears the rest of that
  opening time. The element has been overwritten by its part before the day when its part after
  the day is computed, so that part is always empty.\<close>

theorem remove_day_loses_rest:
  assumes "cover ivs \<subseteq> {..<kWeek + kDay}" "x \<in> set (normalized ivs)"
    and "0 < d" "wi_start x < d * kDay" "(d + 1) * kDay \<le> wi_end x"
    and "t \<in> wi_times x" "(d + 1) * kDay \<le> t"
  shows "t \<in> wrap (cover ivs) \<and> t \<notin> cover (RemoveDayIntervals ivs d)"
proof
  show "t \<in> wrap (cover ivs)"
    using assms(2,6) unfolding normalized_times [OF assms(1), symmetric] by (auto simp: mem_cover)
  have d: "0 < d * kDay" "d * kDay + kInNextDayMax < (d + 1) * kDay"
    using assms(3) by (simp_all add: time_consts)
  then have f: "wi_bool (intersected x (wi 0 (d * kDay)))"
    using assms(4,5) by (simp add: wi_bool_intersected kInNextDayMax_def)
  have "t \<notin> cover (remove_one d e y)" if "y \<in> set (normalized ivs)" for e y
  proof
    assume t: "t \<in> cover (remove_one d e y)"
    then have "t \<in> wi_times y" using remove_one_sub by blast
    then have "y = x" using apart_disjoint [OF normalized_apart that assms(2)] assms(6) by blast
    then have "t \<in> wi_times (intersected x (wi 0 (d * kDay)))"
      using t f d assms(4,5) unfolding remove_one_def kInNextDayMax_def by (simp split: if_splits)
    then show False using assms(7) d unfolding mem_intersected by (simp add: kInNextDayMax_def)
  qed
  then show "t \<notin> cover (RemoveDayIntervals ivs d)"
    unfolding remove_cover [OF assms(1)] mem_remove_loop by blast
qed

lemma remove_day_loses_rest_witness:
  "normalized [wi 0 kWeek] = [wi 0 kWeek] \<and> 500000 \<in> wrap (cover [wi 0 kWeek])
   \<and> 500000 \<notin> cover (RemoveDayIntervals [wi 0 kWeek] 2)
   \<and> RemoveDayIntervals [wi 0 kWeek] 2 = [wi 0 (2 * kDay)]"
proof -
  have n: "normalized [wi 0 kWeek] = [wi 0 kWeek]" by code_simp
  have c: "cover [wi 0 kWeek] \<subseteq> {..<kWeek + kDay}" by (auto simp: time_consts)
  have "500000 \<in> wrap (cover [wi 0 kWeek]) \<and> 500000 \<notin> cover (RemoveDayIntervals [wi 0 kWeek] 2)"
    using remove_day_loses_rest [OF c, of "wi 0 kWeek" 2 500000] unfolding n by (simp add: time_consts)
  moreover have "RemoveDayIntervals [wi 0 kWeek] 2 = [wi 0 (2 * kDay)]" by code_simp
  ultimately show ?thesis using n by blast
qed

text \<open>The editor of a day reads back what it wrote: from six o'clock on, the day shows
  exactly the intervals that replaced it.\<close>

theorem replace_then_extract:
  assumes "cover ivs \<subseteq> {0..<kWeek + kDay}" "cover rep \<subseteq> {0..<kDay + kInNextDayMax}" "0 \<le> d" "d < 7"
    and "kInNextDayMax \<le> t" "t < kDay"
  shows "t \<in> cover (ExtractDayIntervals (ReplaceDayIntervals ivs d rep) d) \<longleftrightarrow> t \<in> cover rep"
proof -
  have ivs: "cover ivs \<subseteq> {..<kWeek + kDay}" using assms(1) by auto
  let ?R = "cover (RemoveDayIntervals ivs d)" and ?S = "(\<lambda>t. t + d * kDay) ` cover rep"
  have R: "u \<in> ?R \<Longrightarrow> 0 \<le> u \<and> u < kWeek \<and> u \<notin> {d * kDay + kInNextDayMax ..< (d + 1) * kDay}" for u
    using remove_sub [OF ivs, of d] wrap_less [OF _ ivs] assms(1) by (fastforce simp: mem_wrap)
  have S: "u \<in> ?S \<longleftrightarrow> u - d * kDay \<in> cover rep" for u
    by (auto intro: image_eqI [of _ _ "u - d * kDay"])
  have day: "0 \<le> d * kDay" "d * kDay \<le> 6 * kDay" "kWeek = 7 * kDay" "0 < kInNextDayMax" "kInNextDayMax < kDay"
    using assms(3,4) by (simp_all add: time_consts)
  have "t + d * kDay \<notin> ?R" using R [of "t + d * kDay"] assms(5,6) by (auto simp: algebra_simps)
  have rep: "u \<in> cover rep \<Longrightarrow> 0 \<le> u \<and> u < kDay + kInNextDayMax" for u using assms(2) by auto
  define D where "D = d * kDay"
  have D: "0 \<le> D" "D \<le> 6 * kDay" "(d + k) * kDay = D + k * kDay" for k
    using day by (simp_all add: D_def algebra_simps)
  have in_day: "t + D < kWeek" using D(2) day(3) assms(6) by linarith
  have wrapS: "t + (d + k) * kDay \<in> wrap ?S \<longleftrightarrow> k = 0 \<and> t \<in> cover rep" if "k \<in> {-7, 0, 7}" for k
    using that assms(5,6) day(3-5) D(1,2) in_day rep [of "t - kWeek"] rep [of "t + kWeek"] rep [of "2 * kWeek + t"]
    unfolding mem_wrap S D(3) D_def [symmetric] by auto
  show ?thesis
    unfolding extract_cover [OF assms(5,6)] replace_cover [OF assms(1-4)] Un_iff
    using wrapS \<open>t + d * kDay \<notin> ?R\<close> R [of "t + (d + - 7) * kDay"] R [of "t + (d + 7) * kDay"]
      in_day D(1) day(3) assms(5) day(4)
    unfolding D(3) D_def [symmetric] by auto
qed

lemma replace_then_extract_witness:
  "30000 \<in> cover (ExtractDayIntervals (ReplaceDayIntervals [wi 0 kWeek] 2 [wi 28800 36000]) 2)"
proof -
  have c: "cover [wi 0 kWeek] \<subseteq> {0..<kWeek + kDay}" "cover [wi 28800 36000] \<subseteq> {0..<kDay + kInNextDayMax}"
    by (auto simp: time_consts)
  show ?thesis using replace_then_extract [OF c, of 2 30000] by (simp add: time_consts)
qed

end
