(* ===== verification/Business.thy ===== *)
theory Business imports WorkingHours begin

text \<open>
  Settings of a business account and their conversions from and to the types of the server
  (\<open>data/business/data_business_common.h\<close> and \<open>.cpp\<close>).

  A set of flags is the set of its members. Users, their \<open>inputUser\<close>, documents and
  geo points live elsewhere: the types \<open>'u\<close>, \<open>'iu\<close>, \<open>'doc\<close>, \<open>'pt\<close> and the functions
  \<open>user\<close> (\<open>Session::user\<close>), \<open>inputUser\<close>, \<open>processDocument\<close> and
  \<open>isSticker\<close> (\<open>DocumentData::sticker\<close> is not null) are parameters. A field of a server
  type that a flag makes optional is an \<open>option\<close>.
\<close>

section \<open>Recipients\<close>

datatype BusinessChatType = NewChats | ExistingChats | Contacts | NonContacts

record 'u BusinessChats =
  bc_types :: "BusinessChatType set"
  bc_list :: "'u list"

definition chats_empty :: "'u BusinessChats \<Rightarrow> bool" where
  "chats_empty c \<longleftrightarrow> bc_types c = {} \<and> bc_list c = []"

record 'u BusinessRecipients =
  br_included :: "'u BusinessChats"
  br_excluded :: "'u BusinessChats"
  br_allButExcluded :: bool

definition no_chats :: "'u BusinessChats" where
  "no_chats = \<lparr>bc_types = {}, bc_list = []\<rparr>"

definition MakeValid :: "'u BusinessRecipients \<Rightarrow> 'u BusinessRecipients" where
  "MakeValid v = (if chats_empty (br_included v) then v\<lparr>br_allButExcluded := True\<rparr> else v)"

datatype recipients_flag = f_new_chats | f_existing_chats | f_contacts | f_non_contacts | f_users
  | f_exclude_selected | f_exclude_users

definition selected_chats :: "'u BusinessRecipients \<Rightarrow> 'u BusinessChats" where
  "selected_chats data = (if br_allButExcluded data then br_excluded data else br_included data)"

definition RecipientsFlags :: "'u BusinessRecipients \<Rightarrow> recipients_flag set" where
  "RecipientsFlags data =
     (let chats = selected_chats data
      in (if NewChats \<in> bc_types chats then {f_new_chats} else {})
       \<union> (if ExistingChats \<in> bc_types chats then {f_existing_chats} else {})
       \<union> (if Contacts \<in> bc_types chats then {f_contacts} else {})
       \<union> (if NonContacts \<in> bc_types chats then {f_non_contacts} else {})
       \<union> (if bc_list chats = [] then {} else {f_users})
       \<union> (if br_allButExcluded data then {f_exclude_selected} else {}))"

definition ForMessagesToMTP ::
  "('u \<Rightarrow> 'iu) \<Rightarrow> 'u BusinessRecipients \<Rightarrow> recipients_flag set \<times> 'iu list" where
  "ForMessagesToMTP inputUser data =
     (RecipientsFlags data, map inputUser (bc_list (selected_chats data)))"

definition ForBotsToMTP ::
  "('u \<Rightarrow> 'iu) \<Rightarrow> 'u BusinessRecipients \<Rightarrow> recipients_flag set \<times> 'iu list \<times> 'iu list" where
  "ForBotsToMTP inputUser data =
     (RecipientsFlags data
        \<union> (if br_allButExcluded data \<or> chats_empty (br_excluded data) then {} else {f_exclude_users}),
      map inputUser (bc_list (selected_chats data)),
      map inputUser (bc_list (br_excluded data)))"

record MTPBusinessRecipients =
  mr_flags :: "recipients_flag set"
  mr_users :: "int list option"

record MTPBusinessBotRecipients = MTPBusinessRecipients +
  mr_exclude_users :: "int list option"

definition chat_types_from :: "recipients_flag set \<Rightarrow> BusinessChatType set" where
  "chat_types_from flags =
     (if f_new_chats \<in> flags then {NewChats} else {})
   \<union> (if f_existing_chats \<in> flags then {ExistingChats} else {})
   \<union> (if f_contacts \<in> flags then {Contacts} else {})
   \<union> (if f_non_contacts \<in> flags then {NonContacts} else {})"

definition recipients_from_mtp ::
  "(int \<Rightarrow> 'u) \<Rightarrow> 'z MTPBusinessRecipients_scheme \<Rightarrow> 'u BusinessRecipients" where
  "recipients_from_mtp user data =
     (let chats = \<lparr>bc_types = chat_types_from (mr_flags data),
                   bc_list = (case mr_users data of Some ids \<Rightarrow> map user ids | None \<Rightarrow> [])\<rparr>
      in if f_exclude_selected \<in> mr_flags data
         then \<lparr>br_included = no_chats, br_excluded = chats, br_allButExcluded = True\<rparr>
         else \<lparr>br_included = chats, br_excluded = no_chats, br_allButExcluded = False\<rparr>)"

definition bot_recipients_from_mtp ::
  "(int \<Rightarrow> 'u) \<Rightarrow> MTPBusinessBotRecipients \<Rightarrow> 'u BusinessRecipients" where
  "bot_recipients_from_mtp user data =
     (let result = recipients_from_mtp user data
      in if \<not> br_allButExcluded result
         then (case mr_exclude_users data of
             Some ids \<Rightarrow> result\<lparr>br_excluded := (br_excluded result)
               \<lparr>bc_list := bc_list (br_excluded result) @ map user ids\<rparr>\<rparr>
           | None \<Rightarrow> result)
         else result)"

section \<open>Details, away message, greeting\<close>

record 'pt BusinessLocation =
  bl_address :: string
  bl_point :: "'pt option"

record 'doc ChatIntro =
  ci_title :: string
  ci_description :: string
  ci_sticker :: "'doc option"

record ('pt, 'doc) BusinessDetails =
  bd_hours :: WorkingHours
  bd_location :: "'pt BusinessLocation"
  bd_intro :: "'doc ChatIntro"

definition customPhrases :: "'doc ChatIntro \<Rightarrow> bool" where
  "customPhrases c \<longleftrightarrow> ci_title c \<noteq> [] \<or> ci_description c \<noteq> []"

definition intro_bool :: "'doc ChatIntro \<Rightarrow> bool" where
  "intro_bool c \<longleftrightarrow> customPhrases c \<or> ci_sticker c \<noteq> None"

definition location_bool :: "'pt BusinessLocation \<Rightarrow> bool" where
  "location_bool l \<longleftrightarrow> bl_address l \<noteq> []"

definition details_bool :: "('pt, 'doc) BusinessDetails \<Rightarrow> bool" where
  "details_bool b \<longleftrightarrow> hours_bool (bd_hours b) \<or> location_bool (bd_location b) \<or> intro_bool (bd_intro b)"

datatype 'pt MTPGeoPoint = geoPoint 'pt | geoPointEmpty

text \<open>Opening hours come as a time zone and pairs of minutes, a location as an address and
  perhaps a point, an introduction as two texts and perhaps a document.\<close>

definition details_from_mtp ::
  "('mdoc \<Rightarrow> 'doc) \<Rightarrow> ('doc \<Rightarrow> bool) \<Rightarrow> (string \<times> (int \<times> int) list) option
   \<Rightarrow> (string \<times> 'pt MTPGeoPoint option) option \<Rightarrow> (string \<times> string \<times> 'mdoc option) option
   \<Rightarrow> ('pt, 'doc) BusinessDetails" where
  "details_from_mtp processDocument isSticker hours location intro =
     \<lparr>bd_hours =
        (case hours of
           Some (timezone_id, weekly_open) \<Rightarrow>
             \<lparr>wh_intervals = map (\<lambda>(a, b). wi (a * 60) (b * 60)) weekly_open,
              wh_timezoneId = timezone_id\<rparr>
         | None \<Rightarrow> \<lparr>wh_intervals = [], wh_timezoneId = []\<rparr>),
      bd_location =
        (case location of
           Some (address, point) \<Rightarrow>
             \<lparr>bl_address = address,
              bl_point = (case point of Some (geoPoint p) \<Rightarrow> Some p
                          | Some geoPointEmpty \<Rightarrow> None | None \<Rightarrow> None)\<rparr>
         | None \<Rightarrow> \<lparr>bl_address = [], bl_point = None\<rparr>),
      bd_intro =
        (case intro of
           Some (title, description, sticker) \<Rightarrow>
             \<lparr>ci_title = title, ci_description = description,
              ci_sticker = (case sticker of
                  Some document \<Rightarrow> (let s = processDocument document
                                     in if \<not> isSticker s then None else Some s)
                | None \<Rightarrow> None)\<rparr>
         | None \<Rightarrow> \<lparr>ci_title = [], ci_description = [], ci_sticker = None\<rparr>)\<rparr>"

datatype AwayScheduleType = Never | Always | OutsideWorkingHours | Custom

record AwaySchedule =
  as_type :: AwayScheduleType
  as_customInterval :: WorkingInterval

record 'u AwaySettings =
  aw_recipients :: "'u BusinessRecipients"
  aw_schedule :: AwaySchedule
  aw_shortcutId :: int
  aw_offlineOnly :: bool

definition away_bool :: "'u AwaySettings \<Rightarrow> bool" where
  "away_bool a \<longleftrightarrow> as_type (aw_schedule a) \<noteq> Never"

datatype MTPBusinessAwayMessageSchedule =
    scheduleAlways | scheduleOutsideWorkHours | scheduleCustom int int

definition no_recipients :: "'u BusinessRecipients" where
  "no_recipients = \<lparr>br_included = no_chats, br_excluded = no_chats, br_allButExcluded = False\<rparr>"

definition away_from_mtp ::
  "(int \<Rightarrow> 'u) \<Rightarrow> (MTPBusinessRecipients \<times> MTPBusinessAwayMessageSchedule \<times> int \<times> bool) option
   \<Rightarrow> 'u AwaySettings" where
  "away_from_mtp user message =
     (case message of
        None \<Rightarrow> \<lparr>aw_recipients = no_recipients,
                 aw_schedule = \<lparr>as_type = Never, as_customInterval = wi 0 0\<rparr>,
                 aw_shortcutId = 0, aw_offlineOnly = False\<rparr>
      | Some (recipients, schedule, shortcut_id, offline_only) \<Rightarrow>
          \<lparr>aw_recipients = recipients_from_mtp user recipients,
           aw_schedule =
             (case schedule of
                scheduleAlways \<Rightarrow> \<lparr>as_type = Always, as_customInterval = wi 0 0\<rparr>
              | scheduleOutsideWorkHours \<Rightarrow> \<lparr>as_type = OutsideWorkingHours, as_customInterval = wi 0 0\<rparr>
              | scheduleCustom start_date end_date \<Rightarrow>
                  \<lparr>as_type = Custom, as_customInterval = wi start_date end_date\<rparr>),
           aw_shortcutId = shortcut_id, aw_offlineOnly = offline_only\<rparr>)"

record 'u GreetingSettings =
  gr_recipients :: "'u BusinessRecipients"
  gr_noActivityDays :: int
  gr_shortcutId :: int

definition greeting_bool :: "'u GreetingSettings \<Rightarrow> bool" where
  "greeting_bool g \<longleftrightarrow> 0 < gr_noActivityDays g"

definition greeting_from_mtp ::
  "(int \<Rightarrow> 'u) \<Rightarrow> (MTPBusinessRecipients \<times> int \<times> int) option \<Rightarrow> 'u GreetingSettings" where
  "greeting_from_mtp user message =
     (case message of
        None \<Rightarrow> \<lparr>gr_recipients = no_recipients, gr_noActivityDays = 0, gr_shortcutId = 0\<rparr>
      | Some (recipients, no_activity_days, shortcut_id) \<Rightarrow>
          \<lparr>gr_recipients = recipients_from_mtp user recipients,
           gr_noActivityDays = no_activity_days, gr_shortcutId = shortcut_id\<rparr>)"

section \<open>What the server stores and sends back\<close>

text \<open>The server keeps the flags and the identifiers of the users it was sent; a vector whose
  flag is not set is not transmitted.\<close>

definition echo_recipients ::
  "('iu \<Rightarrow> int) \<Rightarrow> recipients_flag set \<times> 'iu list \<Rightarrow> MTPBusinessRecipients" where
  "echo_recipients idOf = (\<lambda>(flags, users).
     \<lparr>mr_flags = flags, mr_users = (if f_users \<in> flags then Some (map idOf users) else None)\<rparr>)"

definition echo_bot_recipients ::
  "('iu \<Rightarrow> int) \<Rightarrow> recipients_flag set \<times> 'iu list \<times> 'iu list \<Rightarrow> MTPBusinessBotRecipients" where
  "echo_bot_recipients idOf = (\<lambda>(flags, users, exclude).
     \<lparr>mr_flags = flags, mr_users = (if f_users \<in> flags then Some (map idOf users) else None),
      mr_exclude_users = (if f_exclude_users \<in> flags then Some (map idOf exclude) else None)\<rparr>)"

lemma RecipientsFlags_iff [simp]:
  "f_new_chats \<in> RecipientsFlags b \<longleftrightarrow> NewChats \<in> bc_types (selected_chats b)"
  "f_existing_chats \<in> RecipientsFlags b \<longleftrightarrow> ExistingChats \<in> bc_types (selected_chats b)"
  "f_contacts \<in> RecipientsFlags b \<longleftrightarrow> Contacts \<in> bc_types (selected_chats b)"
  "f_non_contacts \<in> RecipientsFlags b \<longleftrightarrow> NonContacts \<in> bc_types (selected_chats b)"
  "f_users \<in> RecipientsFlags b \<longleftrightarrow> bc_list (selected_chats b) \<noteq> []"
  "f_exclude_selected \<in> RecipientsFlags b \<longleftrightarrow> br_allButExcluded b"
  "f_exclude_users \<notin> RecipientsFlags b"
  by (auto simp: RecipientsFlags_def Let_def)

lemma chat_types_from_flags:
  assumes "\<And>f. f \<noteq> f_exclude_users \<Longrightarrow> f \<in> F \<longleftrightarrow> f \<in> RecipientsFlags b"
  shows "chat_types_from F = bc_types (selected_chats b)"
proof (rule set_eqI)
  fix t show "t \<in> chat_types_from F \<longleftrightarrow> t \<in> bc_types (selected_chats b)"
    using assms by (cases t) (auto simp: chat_types_from_def)
qed

lemma map_id_users: "\<forall>u. user (idOf (inputUser u)) = u \<Longrightarrow> map (user \<circ> (idOf \<circ> inputUser)) us = us"
  by (induction us) auto

text \<open>Business recipients survive a trip to the server: reading back the flags and users
  that were sent gives the chats that were selected; for bots also the excluded users, unless
  everything but them was selected. (The kinds of excluded chats are not sent for bots.)\<close>

theorem business_recipients_roundtrip:
  assumes "\<forall>u. user (idOf (inputUser u)) = u"
  shows "recipients_from_mtp user (echo_recipients idOf (ForMessagesToMTP inputUser b))
      = (if br_allButExcluded b then b\<lparr>br_included := no_chats\<rparr> else b\<lparr>br_excluded := no_chats\<rparr>)
    \<and> bot_recipients_from_mtp user (echo_bot_recipients idOf (ForBotsToMTP inputUser b))
      = (if br_allButExcluded b then b\<lparr>br_included := no_chats\<rparr>
         else b\<lparr>br_excluded := \<lparr>bc_types = {}, bc_list = bc_list (br_excluded b)\<rparr>\<rparr>)"
proof
  have t: "chat_types_from (RecipientsFlags b) = bc_types (selected_chats b)"
    by (rule chat_types_from_flags) simp
  have t': "chat_types_from (insert f_exclude_users (RecipientsFlags b)) = bc_types (selected_chats b)"
    by (rule chat_types_from_flags) simp
  note defs = recipients_from_mtp_def echo_recipients_def echo_bot_recipients_def ForMessagesToMTP_def
    ForBotsToMTP_def bot_recipients_from_mtp_def Let_def t t' map_id_users [of user idOf inputUser, OF assms]
  show "recipients_from_mtp user (echo_recipients idOf (ForMessagesToMTP inputUser b))
      = (if br_allButExcluded b then b\<lparr>br_included := no_chats\<rparr> else b\<lparr>br_excluded := no_chats\<rparr>)"
    by (simp add: defs selected_chats_def)
  show "bot_recipients_from_mtp user (echo_bot_recipients idOf (ForBotsToMTP inputUser b))
      = (if br_allButExcluded b then b\<lparr>br_included := no_chats\<rparr>
         else b\<lparr>br_excluded := \<lparr>bc_types = {}, bc_list = bc_list (br_excluded b)\<rparr>\<rparr>)"
    by (cases "chats_empty (br_excluded b)")
       (simp_all add: defs selected_chats_def chats_empty_def no_chats_def)
qed

lemma business_recipients_roundtrip_witness:
  "recipients_from_mtp nat (echo_recipients int (ForMessagesToMTP (\<lambda>u. u)
      \<lparr>br_included = \<lparr>bc_types = {Contacts}, bc_list = [7]\<rparr>, br_excluded = no_chats,
       br_allButExcluded = False\<rparr>))
   = \<lparr>br_included = \<lparr>bc_types = {Contacts}, bc_list = [7]\<rparr>, br_excluded = no_chats,
      br_allButExcluded = False\<rparr>"
  using business_recipients_roundtrip [of nat int "\<lambda>u. u"] by simp

end
