(* ===== verification/SegmentTree.thy ===== *)
theory SegmentTree imports Prelude "HOL-Library.Log_Nat" begin

text \<open>
  Range maxima and minima of a chart line (\<open>statistics/segment_tree.h\<close> and \<open>.cpp\<close>).

  The tree is the array \<open>_heap\<close>: the children of node \<open>v\<close> are the nodes \<open>2 v\<close> and
  \<open>2 v + 1\<close>. Reading or writing the heap out of its range is the value \<open>None\<close>, and so is
  a recursion that does not end (\<open>build\<close> on an empty segment; the queries run with fuel).
  Both queries are one search over a commutative monoid of values, the locale
  \<open>range_query\<close>, interpreted for the maximum with \<open>0\<close> and the minimum with the greatest
  64-bit value.
\<close>

section \<open>The tree\<close>

definition kMinArraySize :: nat where "kMinArraySize = 30"

definition value_max :: int where "value_max = 2 ^ 63 - 1"

record PendingVal =
  pv_value :: int
  pv_available :: bool

record Node =
  n_sum :: int
  n_max :: int
  n_min :: int
  n_pendingVal :: PendingVal
  n_from :: int
  n_to :: int

definition no_pending :: PendingVal where
  "no_pending = \<lparr>pv_value = 0, pv_available = False\<rparr>"

definition node0 :: Node where
  "node0 = \<lparr>n_sum = 0, n_max = 0, n_min = 0, n_pendingVal = no_pending, n_from = 0, n_to = 0\<rparr>"

definition node_size :: "Node \<Rightarrow> int" where
  "node_size n = n_to n - n_from n + 1"

record SegTree =
  st_array :: "int list"
  st_heap :: "Node list"

definition tree_empty :: "SegTree \<Rightarrow> bool" where
  "tree_empty s \<longleftrightarrow> st_array s = []"

definition contains :: "int \<Rightarrow> int \<Rightarrow> int \<Rightarrow> int \<Rightarrow> bool" where
  "contains from1 to1 from2 to2 \<longleftrightarrow> from2 \<ge> from1 \<and> to2 \<le> to1"

definition intersects :: "int \<Rightarrow> int \<Rightarrow> int \<Rightarrow> int \<Rightarrow> bool" where
  "intersects from1 to1 from2 to2 \<longleftrightarrow>
     from1 \<le> from2 \<and> to1 \<ge> from2 \<or> from1 \<ge> from2 \<and> from1 \<le> to2"

function build :: "nat \<Rightarrow> nat \<Rightarrow> nat \<Rightarrow> SegTree \<Rightarrow> SegTree option" where
  "build v from sz s =
     (if v \<ge> length (st_heap s) \<or> sz = 0 then None
      else let n = (st_heap s ! v)\<lparr>n_from := int from, n_to := int (from + sz) - 1\<rparr>;
               s0 = s\<lparr>st_heap := (st_heap s)[v := n]\<rparr>
           in if sz = 1
              then if from \<ge> length (st_array s) then None
                else let a = st_array s ! from
                     in Some (s0\<lparr>st_heap := (st_heap s0)[v := n\<lparr>n_sum := a, n_max := a, n_min := a\<rparr>]\<rparr>)
              else case build (2 * v) from (sz div 2) s0 of None \<Rightarrow> None
              | Some s1 \<Rightarrow> (case build (2 * v + 1) (from + sz div 2) (sz - sz div 2) s1 of None \<Rightarrow> None
              | Some s2 \<Rightarrow>
                  let h = st_heap s2; l = h ! (2 * v); r = h ! (2 * v + 1)
                  in Some (s2\<lparr>st_heap := h[v := (h ! v)\<lparr>n_sum := n_sum l + n_sum r,
                       n_max := max (n_max l) (n_max r), n_min := min (n_min l) (n_min r)\<rparr>]\<rparr>)))"
  by auto
termination by (relation "measure (\<lambda>(v, from, sz, s). sz)") auto

declare build.simps [simp del]

text \<open>The heap has \<open>2 * 2 ^ \<lfloor>log\<^sub>2 n + 1\<rfloor>\<close> nodes.\<close>

definition SegmentTree :: "int list \<Rightarrow> SegTree option" where
  "SegmentTree array =
     (if length array < kMinArraySize then Some \<lparr>st_array = array, st_heap = []\<rparr>
      else let sz = 2 * 2 ^ floorlog 2 (length array)
           in build 1 0 (length array) \<lparr>st_array = array, st_heap = replicate sz node0\<rparr>)"

definition change :: "nat \<Rightarrow> int \<Rightarrow> SegTree \<Rightarrow> SegTree option" where
  "change v x s =
     (if v \<ge> length (st_heap s) then None
      else let n = st_heap s ! v
           in Some (s\<lparr>st_heap := (st_heap s)[v := n\<lparr>n_pendingVal := \<lparr>pv_value = x, pv_available = True\<rparr>,
                  n_sum := node_size n * x, n_max := x, n_min := x\<rparr>],
                st_array := (st_array s)[nat (n_from n) := x]\<rparr>))"

definition propagate :: "nat \<Rightarrow> SegTree \<Rightarrow> SegTree option" where
  "propagate v s =
     (let n = st_heap s ! v
      in if pv_available (n_pendingVal n)
         then let x = pv_value (n_pendingVal n);
                  s0 = s\<lparr>st_heap := (st_heap s)[v := n\<lparr>n_pendingVal := no_pending\<rparr>]\<rparr>
              in (case change (2 * v) x s0 of None \<Rightarrow> None | Some s1 \<Rightarrow> change (2 * v + 1) x s1)
         else Some s)"

section \<open>Queries\<close>

fun rMaxQ_node :: "nat \<Rightarrow> nat \<Rightarrow> int \<Rightarrow> int \<Rightarrow> SegTree \<Rightarrow> (int \<times> SegTree) option" where
  "rMaxQ_node 0 v from to s = None"
| "rMaxQ_node (Suc fuel) v from to s =
     (if v \<ge> length (st_heap s) then None
      else let n = st_heap s ! v
           in if pv_available (n_pendingVal n) \<and> contains (n_from n) (n_to n) from to
              then Some (pv_value (n_pendingVal n), s)
              else if contains from to (n_from n) (n_to n) then Some (n_max n, s)
              else if intersects from to (n_from n) (n_to n)
              then (case propagate v s of None \<Rightarrow> None
                | Some s1 \<Rightarrow> (case rMaxQ_node fuel (2 * v) from to s1 of None \<Rightarrow> None
                | Some (l, s2) \<Rightarrow> (case rMaxQ_node fuel (2 * v + 1) from to s2 of None \<Rightarrow> None
                | Some (r, s3) \<Rightarrow> Some (max l r, s3))))
              else Some (0, s))"

fun rMinQ_node :: "nat \<Rightarrow> nat \<Rightarrow> int \<Rightarrow> int \<Rightarrow> SegTree \<Rightarrow> (int \<times> SegTree) option" where
  "rMinQ_node 0 v from to s = None"
| "rMinQ_node (Suc fuel) v from to s =
     (if v \<ge> length (st_heap s) then None
      else let n = st_heap s ! v
           in if pv_available (n_pendingVal n) \<and> contains (n_from n) (n_to n) from to
              then Some (pv_value (n_pendingVal n), s)
              else if contains from to (n_from n) (n_to n) then Some (n_min n, s)
              else if intersects from to (n_from n) (n_to n)
              then (case propagate v s of None \<Rightarrow> None
                | Some s1 \<Rightarrow> (case rMinQ_node fuel (2 * v) from to s1 of None \<Rightarrow> None
                | Some (l, s2) \<Rightarrow> (case rMinQ_node fuel (2 * v + 1) from to s2 of None \<Rightarrow> None
                | Some (r, s3) \<Rightarrow> Some (min l r, s3))))
              else Some (value_max, s))"

text \<open>The loops over short arrays, from \<open>i\<close> on.\<close>

function max_loop :: "int list \<Rightarrow> int \<Rightarrow> int \<Rightarrow> int \<Rightarrow> int" where
  "max_loop array i to acc = (if i \<le> to then max_loop array (i + 1) to (max acc (array ! nat i)) else acc)"
  by auto
termination by (relation "measure (\<lambda>(a, i, to, acc). nat (to + 1 - i))") auto

function min_loop :: "int list \<Rightarrow> int \<Rightarrow> int \<Rightarrow> int \<Rightarrow> int" where
  "min_loop array i to acc = (if i \<le> to then min_loop array (i + 1) to (min acc (array ! nat i)) else acc)"
  by auto
termination by (relation "measure (\<lambda>(a, i, to, acc). nat (to + 1 - i))") auto

declare max_loop.simps [simp del] min_loop.simps [simp del]

definition rMaxQ :: "nat \<Rightarrow> int \<Rightarrow> int \<Rightarrow> SegTree \<Rightarrow> (int \<times> SegTree) option" where
  "rMaxQ fuel from to s =
     (if length (st_array s) < kMinArraySize
      then Some (max_loop (st_array s) (max from 0) (min to (int (length (st_array s)) - 1)) 0, s)
      else rMaxQ_node fuel 1 from to s)"

definition rMinQ :: "nat \<Rightarrow> int \<Rightarrow> int \<Rightarrow> SegTree \<Rightarrow> (int \<times> SegTree) option" where
  "rMinQ fuel from to s =
     (if length (st_array s) < kMinArraySize
      then Some (min_loop (st_array s) (max from 0) (min to (int (length (st_array s)) - 1)) value_max, s)
      else rMinQ_node fuel 1 from to s)"

section \<open>Building\<close>

text \<open>The nodes below \<open>v\<close> that describe the segment of \<open>sz\<close> values from \<open>lo\<close> on.\<close>

inductive seg :: "Node list \<Rightarrow> int list \<Rightarrow> nat \<Rightarrow> nat \<Rightarrow> nat \<Rightarrow> bool" for h a where
  leaf: "v < length h \<Longrightarrow> lo < length a \<Longrightarrow> n_from (h ! v) = int lo \<Longrightarrow> n_to (h ! v) = int lo \<Longrightarrow>
    n_sum (h ! v) = a ! lo \<Longrightarrow> n_max (h ! v) = a ! lo \<Longrightarrow> n_min (h ! v) = a ! lo \<Longrightarrow>
    \<not> pv_available (n_pendingVal (h ! v)) \<Longrightarrow> seg h a v lo 1"
| node: "v < length h \<Longrightarrow> 2 \<le> sz \<Longrightarrow> seg h a (2 * v) lo (sz div 2) \<Longrightarrow>
    seg h a (2 * v + 1) (lo + sz div 2) (sz - sz div 2) \<Longrightarrow>
    n_from (h ! v) = int lo \<Longrightarrow> n_to (h ! v) = int (lo + sz) - 1 \<Longrightarrow>
    n_sum (h ! v) = n_sum (h ! (2 * v)) + n_sum (h ! (2 * v + 1)) \<Longrightarrow>
    n_max (h ! v) = max (n_max (h ! (2 * v))) (n_max (h ! (2 * v + 1))) \<Longrightarrow>
    n_min (h ! v) = min (n_min (h ! (2 * v))) (n_min (h ! (2 * v + 1))) \<Longrightarrow>
    \<not> pv_available (n_pendingVal (h ! v)) \<Longrightarrow> seg h a v lo sz"

text \<open>\<open>w\<close> is \<open>v\<close> or below it.\<close>

definition below :: "nat \<Rightarrow> nat \<Rightarrow> bool" where
  "below v w \<longleftrightarrow> (\<exists>k. w div 2 ^ k = v)"

lemma below_refl [simp]: "below v v"
  unfolding below_def by (rule exI [of _ 0]) simp

lemma below_child: "below (2 * v) w \<Longrightarrow> below v w" "below (2 * v + 1) w \<Longrightarrow> below v w"
proof -
  have k: "w div 2 ^ Suc k = w div 2 ^ k div 2" for k
    by (metis div_mult2_eq power_Suc2)
  show "below v w" if "below (2 * v) w"
  proof -
    from that obtain k where "w div 2 ^ k = 2 * v" unfolding below_def by blast
    then have "w div 2 ^ Suc k = v" unfolding k by simp
    then show ?thesis unfolding below_def by blast
  qed
  show "below v w" if "below (2 * v + 1) w"
  proof -
    from that obtain k where "w div 2 ^ k = 2 * v + 1" unfolding below_def by blast
    then have "w div 2 ^ Suc k = v" unfolding k by simp
    then show ?thesis unfolding below_def by blast
  qed
qed

lemma below_ge: "below v w \<Longrightarrow> v \<le> w"
  unfolding below_def by auto

lemma below_children_disjoint: "below (2 * v) w \<Longrightarrow> \<not> below (2 * v + 1) w" if "0 < v"
proof
  assume "below (2 * v) w" "below (2 * v + 1) w"
  then obtain k l where k: "w div 2 ^ k = 2 * v" and l: "w div 2 ^ l = 2 * v + 1"
    unfolding below_def by blast
  show False
  proof (cases "k \<le> l")
    case True
    then obtain d where "l = k + d" using le_Suc_ex by blast
    then have "2 * v + 1 = (2 * v) div 2 ^ d"
      using k l by (simp add: power_add div_mult2_eq)
    then show False using div_le_dividend [of "2 * v" "2 ^ d"] by linarith
  next
    case False
    then obtain d where d: "k = l + Suc d" using less_imp_Suc_add [of l k] by auto
    have "w div 2 ^ (l + Suc d) = w div 2 ^ l div 2 ^ Suc d"
      by (metis div_mult2_eq power_add)
    then have "2 * v = (2 * v + 1) div 2 ^ Suc d" using k l d by simp
    also have "\<dots> = v div 2 ^ d" by (simp add: div_mult2_eq)
    finally show False using that div_le_dividend [of v "2 ^ d"] by linarith
  qed
qed

lemma seg_frame:
  "seg h a v lo sz \<Longrightarrow> length h' = length h \<Longrightarrow> (\<And>w. below v w \<Longrightarrow> h' ! w = h ! w) \<Longrightarrow> seg h' a v lo sz"
proof (induction rule: seg.induct)
  case (node v sz lo)
  have "seg h' a (2 * v) lo (sz div 2)"
    by (rule node.IH(1)) (simp_all add: node.prems below_child(1))
  moreover have "seg h' a (2 * v + 1) (lo + sz div 2) (sz - sz div 2)"
    by (rule node.IH(2), rule node.prems(1), rule node.prems(2), rule below_child(2))
  moreover have "h' ! v = h ! v" "h' ! (2 * v) = h ! (2 * v)" "h' ! (2 * v + 1) = h ! (2 * v + 1)"
    using node.prems(2) [of v] node.prems(2) [of "2 * v"] node.prems(2) [of "2 * v + 1"]
      below_child(1) [of v "2 * v"] below_child(2) [of v "2 * v + 1"] by simp_all
  ultimately show ?case using node.hyps node.prems(1) by - (rule seg.node, simp_all)
next
  case (leaf v lo)
  then show ?case using leaf.prems(2) [of v] by (metis below_refl seg.leaf)
qed


lemma build_leaf:
  assumes "v < length (st_heap s)" "lo < length (st_array s)" "\<not> pv_available (n_pendingVal (st_heap s ! v))"
  shows "\<exists>h. build v lo 1 s = Some (s\<lparr>st_heap := h\<rparr>) \<and> length h = length (st_heap s)
    \<and> seg h (st_array s) v lo 1 \<and> (\<forall>w. \<not> below v w \<longrightarrow> h ! w = st_heap s ! w)"
proof -
  define a where "a = st_array s ! lo"
  define h where "h = (st_heap s)[v := (st_heap s ! v)\<lparr>n_from := int lo, n_to := int lo,
     n_sum := a, n_max := a, n_min := a\<rparr>]"
  have "build v lo 1 s = Some (s\<lparr>st_heap := h\<rparr>)"
    using assms by (subst build.simps) (simp add: Let_def h_def a_def)
  moreover have "seg h (st_array s) v lo 1"
    using assms by (intro seg.leaf) (auto simp: h_def a_def)
  moreover have "\<forall>w. \<not> below v w \<longrightarrow> h ! w = st_heap s ! w"
    unfolding h_def by (metis below_refl nth_list_update_neq)
  ultimately show ?thesis by (intro exI [of _ h]) (simp add: h_def)
qed

lemma build_ok:
  assumes "0 < v" "0 < sz" "sz \<le> 2 ^ k" "(v + 1) * 2 ^ k \<le> length (st_heap s)"
    and "lo + sz \<le> length (st_array s)"
    and "\<forall>w. below v w \<and> w < length (st_heap s) \<longrightarrow> \<not> pv_available (n_pendingVal (st_heap s ! w))"
  shows "\<exists>h. build v lo sz s = Some (s\<lparr>st_heap := h\<rparr>) \<and> length h = length (st_heap s)
    \<and> seg h (st_array s) v lo sz \<and> (\<forall>w. \<not> below v w \<longrightarrow> h ! w = st_heap s ! w)"
  using assms
proof (induction k arbitrary: v lo sz s)
  case 0
  then have "sz = 1" by simp
  moreover have "v < length (st_heap s)" using 0 by simp
  ultimately show ?case using 0 build_leaf [of v s lo] by auto
next
  case (Suc k)
  have v: "v < length (st_heap s)"
  proof -
    have "(v + 1) * 1 \<le> (v + 1) * 2 ^ Suc k" by (intro mult_le_mono2) simp
    from order_trans [OF this Suc.prems(4)] show ?thesis by simp
  qed
  show ?case
  proof (cases "sz = 1")
    case True
    then show ?thesis using Suc.prems v build_leaf [of v s lo] by auto
  next
    case False
    then have sz: "2 \<le> sz" using Suc.prems(2) by simp
    define n where "n = (st_heap s ! v)\<lparr>n_from := int lo, n_to := int (lo + sz) - 1\<rparr>"
    define s0 where "s0 = s\<lparr>st_heap := (st_heap s)[v := n]\<rparr>"
    have len0: "length (st_heap s0) = length (st_heap s)" "st_array s0 = st_array s"
      by (simp_all add: s0_def)
    have pend: "\<not> pv_available (n_pendingVal (st_heap s0 ! w))"
      if "below v w" "w < length (st_heap s)" for w
      using that Suc.prems(6) v by (cases "w = v") (auto simp: s0_def n_def)
    have prem1: "0 < 2 * v" "0 < sz div 2" "sz div 2 \<le> 2 ^ k" "(2 * v + 1) * 2 ^ k \<le> length (st_heap s0)"
        "lo + sz div 2 \<le> length (st_array s0)"
        "\<forall>w. below (2 * v) w \<and> w < length (st_heap s0) \<longrightarrow> \<not> pv_available (n_pendingVal (st_heap s0 ! w))"
      using Suc.prems(1-5) sz pend below_child(1) [of v] len0 by (auto simp: algebra_simps)
    obtain h1 where h1: "build (2 * v) lo (sz div 2) s0 = Some (s0\<lparr>st_heap := h1\<rparr>)"
        "length h1 = length (st_heap s)" "seg h1 (st_array s) (2 * v) lo (sz div 2)"
        "\<And>w. \<not> below (2 * v) w \<Longrightarrow> h1 ! w = st_heap s0 ! w"
      using Suc.IH [OF prem1] len0 by auto
    define s1 where "s1 = s0\<lparr>st_heap := h1\<rparr>"
    have disj: "below (2 * v + 1) w \<Longrightarrow> \<not> below (2 * v) w" for w
      using below_children_disjoint [OF Suc.prems(1)] by blast
    have prem2: "0 < 2 * v + 1" "0 < sz - sz div 2" "sz - sz div 2 \<le> 2 ^ k"
        "(2 * v + 1 + 1) * 2 ^ k \<le> length (st_heap s1)"
        "lo + sz div 2 + (sz - sz div 2) \<le> length (st_array s1)"
      using Suc.prems(1-5) sz len0 h1(2) by (auto simp: algebra_simps s1_def)
    have prem2': "\<forall>w. below (2 * v + 1) w \<and> w < length (st_heap s1) \<longrightarrow> \<not> pv_available (n_pendingVal (st_heap s1 ! w))"
      using pend below_child(2) [of v] h1(2,4) disj by (simp add: s1_def)
    obtain h2 where h2: "build (2 * v + 1) (lo + sz div 2) (sz - sz div 2) s1 = Some (s1\<lparr>st_heap := h2\<rparr>)"
        "length h2 = length (st_heap s)"
        "seg h2 (st_array s) (2 * v + 1) (lo + sz div 2) (sz - sz div 2)"
        "\<And>w. \<not> below (2 * v + 1) w \<Longrightarrow> h2 ! w = h1 ! w"
      using Suc.IH [OF prem2 prem2'] len0 h1(2) by (auto simp: s1_def)
    define m where "m = (h2 ! v)\<lparr>n_sum := n_sum (h2 ! (2 * v)) + n_sum (h2 ! (2 * v + 1)),
        n_max := max (n_max (h2 ! (2 * v))) (n_max (h2 ! (2 * v + 1))),
        n_min := min (n_min (h2 ! (2 * v))) (n_min (h2 ! (2 * v + 1)))\<rparr>"
    have nb: "\<not> below (2 * v) v" "\<not> below (2 * v + 1) v" using below_ge Suc.prems(1) by fastforce+
    then have h2v: "h2 ! v = n" using h1(4) h2(4) v by (simp add: s0_def)
    have "seg (h2[v := m]) (st_array s) (2 * v) lo (sz div 2)"
      by (rule seg_frame [OF h1(3)]) (use h1(2) h2(2,4) disj nb in \<open>simp, metis nth_list_update_neq\<close>)
    moreover have "seg (h2[v := m]) (st_array s) (2 * v + 1) (lo + sz div 2) (sz - sz div 2)"
      by (rule seg_frame [OF h2(3)]) (use h2(2) nb in \<open>simp, metis nth_list_update_neq\<close>)
    ultimately have "seg (h2[v := m]) (st_array s) v lo sz"
      using v sz h2(2) Suc.prems(1) pend [of v]
      by - (rule seg.node, auto simp: m_def h2v n_def s0_def)
    moreover have "\<not> below v w \<longrightarrow> h2[v := m] ! w = st_heap s ! w" for w
    proof
      assume nw: "\<not> below v w"
      then have "w \<noteq> v" "\<not> below (2 * v) w" "\<not> below (2 * v + 1) w"
        using below_child [of v w] by auto
      then show "h2[v := m] ! w = st_heap s ! w"
        using h1(4) [of w] h2(4) [of w] by (simp add: s0_def)
    qed
    moreover have "build v lo sz s = Some (s\<lparr>st_heap := h2[v := m]\<rparr>)"
      using v sz h1(1) h2(1) by (subst build.simps) (simp add: Let_def s1_def s0_def n_def m_def)
    ultimately show ?thesis using h2(2) by (intro exI [of _ "h2[v := m]"]) simp
  qed
qed


lemma floorlog_bounds: "0 < n \<Longrightarrow> n \<le> 2 ^ floorlog 2 n"
  using floorlog_bounds [of n 2] by simp

lemma SegmentTree_ok:
  "\<exists>s. SegmentTree array = Some s \<and> st_array s = array
     \<and> (kMinArraySize \<le> length array \<longrightarrow> seg (st_heap s) array 1 0 (length array))"
proof (cases "length array < kMinArraySize")
  case False
  let ?n = "length array"
  let ?s = "\<lparr>st_array = array, st_heap = replicate (2 * 2 ^ floorlog 2 ?n) node0\<rparr>"
  have n: "0 < ?n" using False by (cases array) (simp_all add: kMinArraySize_def)
  have "\<exists>h. build 1 0 ?n ?s = Some (?s\<lparr>st_heap := h\<rparr>) \<and> length h = length (st_heap ?s)
    \<and> seg h (st_array ?s) 1 0 ?n \<and> (\<forall>w. \<not> below 1 w \<longrightarrow> h ! w = st_heap ?s ! w)"
    by (rule build_ok [OF _ n floorlog_bounds [OF n]]) (simp_all add: node0_def no_pending_def)
  then show ?thesis using False by (auto simp: SegmentTree_def Let_def)
qed (simp add: SegmentTree_def)

section \<open>Searching a range\<close>

fun query :: "(Node \<Rightarrow> int) \<Rightarrow> (int \<Rightarrow> int \<Rightarrow> int) \<Rightarrow> int
    \<Rightarrow> nat \<Rightarrow> nat \<Rightarrow> int \<Rightarrow> int \<Rightarrow> SegTree \<Rightarrow> (int \<times> SegTree) option" where
  "query sel comb z 0 v from to s = None"
| "query sel comb z (Suc fuel) v from to s =
     (if v \<ge> length (st_heap s) then None
      else let n = st_heap s ! v
           in if pv_available (n_pendingVal n) \<and> contains (n_from n) (n_to n) from to
              then Some (pv_value (n_pendingVal n), s)
              else if contains from to (n_from n) (n_to n) then Some (sel n, s)
              else if intersects from to (n_from n) (n_to n)
              then (case propagate v s of None \<Rightarrow> None
                | Some s1 \<Rightarrow> (case query sel comb z fuel (2 * v) from to s1 of None \<Rightarrow> None
                | Some (l, s2) \<Rightarrow> (case query sel comb z fuel (2 * v + 1) from to s2 of None \<Rightarrow> None
                | Some (r, s3) \<Rightarrow> Some (comb l r, s3))))
              else Some (z, s))"

lemma rMaxQ_node_query: "rMaxQ_node fuel v from to s = query n_max max 0 fuel v from to s"
  by (induction fuel arbitrary: v s) (simp_all only: rMaxQ_node.simps query.simps)

lemma rMinQ_node_query: "rMinQ_node fuel v from to s = query n_min min value_max fuel v from to s"
  by (induction fuel arbitrary: v s) (simp_all only: rMinQ_node.simps query.simps)

text \<open>The indexes from \<open>lo\<close> to before \<open>hi\<close> that lie in the queried range.\<close>

definition wanted :: "int \<Rightarrow> int \<Rightarrow> nat \<Rightarrow> nat \<Rightarrow> nat list" where
  "wanted from to lo hi = filter (\<lambda>i. from \<le> int i \<and> int i \<le> to) [lo ..< hi]"

locale range_query =
  fixes sel :: "Node \<Rightarrow> int" and comb :: "int \<Rightarrow> int \<Rightarrow> int" and z :: int and ok :: "int \<Rightarrow> bool"
  assumes comb_assoc: "comb (comb x y) u = comb x (comb y u)"
    and comb_neutral: "ok x \<Longrightarrow> comb x z = x" "ok x \<Longrightarrow> comb z x = x"
    and ok_closed: "ok z" "ok x \<Longrightarrow> ok y \<Longrightarrow> ok (comb x y)"
    and sel_leaf: "seg h a v lo 1 \<Longrightarrow> sel (h ! v) = a ! lo"
    and sel_node: "seg h a v lo sz \<Longrightarrow> 2 \<le> sz \<Longrightarrow>
        sel (h ! v) = comb (sel (h ! (2 * v))) (sel (h ! (2 * v + 1)))"
begin

definition agg :: "int list \<Rightarrow> int" where
  "agg xs = foldr comb xs z"

lemma agg_Nil [simp]: "agg [] = z"
  by (simp add: agg_def)

lemma agg_ok: "list_all ok xs \<Longrightarrow> ok (agg xs)"
  by (induction xs) (simp_all add: agg_def ok_closed)

lemma agg_append: "list_all ok xs \<Longrightarrow> list_all ok ys \<Longrightarrow> agg (xs @ ys) = comb (agg xs) (agg ys)"
proof (induction xs)
  case Nil
  then show ?case using agg_ok [of ys] by (simp add: comb_neutral)
next
  case (Cons x xs)
  then show ?case by (simp add: agg_def comb_assoc)
qed

lemma agg_single: "ok x \<Longrightarrow> agg [x] = x"
  by (simp add: agg_def comb_neutral)

lemma seg_bounds: "seg h a v lo sz \<Longrightarrow> lo + sz \<le> length a \<and> 0 < sz \<and> v < length h
    \<and> n_from (h ! v) = int lo \<and> n_to (h ! v) = int (lo + sz) - 1 \<and> \<not> pv_available (n_pendingVal (h ! v))"
  by (induction rule: seg.induct) auto

lemma upt_split: "m \<le> k \<Longrightarrow> [lo ..< lo + k] = [lo ..< lo + m] @ [lo + m ..< lo + m + (k - m)]"
  by (metis add.assoc le_add_diff_inverse upt_add_eq_append le_add1)

lemma list_all_slice: "list_all ok a \<Longrightarrow> hi \<le> length a \<Longrightarrow> set is \<subseteq> {..<hi} \<Longrightarrow> list_all ok (map ((!) a) is)"
  by (fastforce simp: list_all_length list_all_iff in_set_conv_nth)

lemma sel_agg: "seg h a v lo sz \<Longrightarrow> list_all ok a \<Longrightarrow> sel (h ! v) = agg (map ((!) a) [lo ..< lo + sz])"
proof (induction rule: seg.induct)
  case (leaf v lo)
  then have "sel (h ! v) = a ! lo" by (intro sel_leaf seg.leaf)
  moreover have "ok (a ! lo)" using leaf by (simp add: list_all_length)
  ultimately show ?case by (simp add: agg_single)
next
  case (node v sz lo)
  have "seg h a v lo sz" by (rule seg.node) (use node.hyps in simp_all)
  from sel_node [OF this] have s: "sel (h ! v) = comb (sel (h ! (2 * v))) (sel (h ! (2 * v + 1)))"
    using node.hyps by simp
  have b: "lo + sz \<le> length a" using seg_bounds [OF \<open>seg h a v lo sz\<close>] by simp
  show ?case
    unfolding s node.IH(1) [OF node.prems] node.IH(2) [OF node.prems]
    using list_all_slice [OF node.prems b] upt_split [of "sz div 2" sz lo]
    by (subst agg_append [symmetric]) (auto intro!: list_all_slice [OF node.prems b])
qed

lemma query_agg:
  "seg h a v lo sz \<Longrightarrow> list_all ok a \<Longrightarrow> from \<le> to \<Longrightarrow> sz \<le> fuel \<Longrightarrow>
   query sel comb z fuel v from to \<lparr>st_array = a, st_heap = h\<rparr>
     = Some (agg (map ((!) a) (wanted from to lo (lo + sz))), \<lparr>st_array = a, st_heap = h\<rparr>)"
proof (induction arbitrary: fuel rule: seg.induct)
  case (leaf v lo)
  then obtain f where f: "fuel = Suc f" by (cases fuel) auto
  have "seg h a v lo 1" by (rule seg.leaf) (use leaf.hyps in simp_all)
  then have "sel (h ! v) = agg (map ((!) a) [lo ..< lo + 1])" by (rule sel_agg [OF _ leaf.prems(1)])
  then show ?case using leaf
    by (auto simp: f Let_def contains_def intersects_def wanted_def)
next
  case (node v sz lo)
  then obtain f where f: "fuel = Suc f" by (cases fuel) auto
  have sg: "seg h a v lo sz" by (rule seg.node) (use node.hyps in simp_all)
  note b = seg_bounds [OF sg]
  consider (all) "contains from to (n_from (h ! v)) (n_to (h ! v))"
    | (none) "\<not> contains from to (n_from (h ! v)) (n_to (h ! v))" "\<not> intersects from to (n_from (h ! v)) (n_to (h ! v))"
    | (some) "\<not> contains from to (n_from (h ! v)) (n_to (h ! v))" "intersects from to (n_from (h ! v)) (n_to (h ! v))"
    by blast
  then show ?case
  proof cases
    case all
    then have "wanted from to lo (lo + sz) = [lo ..< lo + sz]"
      using b by (auto simp: wanted_def contains_def intro!: filter_True)
    then show ?thesis using all b sel_agg [OF sg node.prems(1)] by (simp add: f Let_def)
  next
    case none
    then have "wanted from to lo (lo + sz) = []"
      using b node.prems(2) by (auto simp: wanted_def intersects_def filter_empty_conv)
    then show ?thesis using none b by (simp add: f Let_def)
  next
    case some
    have p: "propagate v \<lparr>st_array = a, st_heap = h\<rparr> = Some \<lparr>st_array = a, st_heap = h\<rparr>"
      using b by (simp add: propagate_def Let_def)
    have w: "wanted from to lo (lo + sz) = wanted from to lo (lo + sz div 2)
        @ wanted from to (lo + sz div 2) (lo + sz div 2 + (sz - sz div 2))"
      unfolding wanted_def filter_append [symmetric] by (subst upt_split [of "sz div 2"]) simp_all
    have "list_all ok (map ((!) a) (wanted from to lo (lo + sz div 2)))"
      "list_all ok (map ((!) a) (wanted from to (lo + sz div 2) (lo + sz div 2 + (sz - sz div 2))))"
      using b by (auto simp: wanted_def intro!: list_all_slice [OF node.prems(1), of "lo + sz"])
    then have "agg (map ((!) a) (wanted from to lo (lo + sz)))
      = comb (agg (map ((!) a) (wanted from to lo (lo + sz div 2))))
          (agg (map ((!) a) (wanted from to (lo + sz div 2) (lo + sz div 2 + (sz - sz div 2)))))"
      unfolding w map_append by (rule agg_append)
    moreover have "sz div 2 \<le> f" "sz - sz div 2 \<le> f" using node.hyps(2) node.prems(3) f by auto
    ultimately show ?thesis
      using some b p node.IH(1) [OF node.prems(1,2), of f] node.IH(2) [OF node.prems(1,2), of f]
      by (simp add: f Let_def)
  qed
qed

end

inductive_cases seg_leafE: "seg h a v lo (Suc 0)"
inductive_cases seg_nodeE: "seg h a v lo sz"

interpretation max_query: range_query n_max max 0 "\<lambda>x. 0 \<le> x"
  by unfold_locales (auto elim: seg_leafE seg_nodeE)

interpretation min_query: range_query n_min min value_max "\<lambda>x. x \<le> value_max"
  by unfold_locales (auto elim: seg_leafE seg_nodeE)


section \<open>The searches answer as a scan of the line\<close>

definition values_between :: "int list \<Rightarrow> int \<Rightarrow> int \<Rightarrow> int set" where
  "values_between array from to = (!) array ` {i. i < length array \<and> from \<le> int i \<and> int i \<le> to}"

lemma finite_values_between [simp]: "finite (values_between array from to)"
  by (simp add: values_between_def)

lemma foldr_max: "foldr max xs z = Max (insert z (set xs))"
  by (induction xs) (simp_all add: insert_commute)

lemma foldr_min: "foldr min xs z = Min (insert z (set xs))"
  by (induction xs) (simp_all add: insert_commute)

lemma set_wanted: "(!) a ` set (wanted from to 0 (length a)) = values_between a from to"
  by (auto simp: wanted_def values_between_def)

lemma atLeastAtMost_step: "(i::int) \<le> to \<Longrightarrow> {i..to} = insert i {i + 1..to}"
  by auto

lemma Max_insert_max: "finite S \<Longrightarrow> Max (insert (max x y) S) = max x (Max (insert (y::int) S))"
  by (cases "S = {}") (simp_all add: max.assoc)

lemma Min_insert_min: "finite S \<Longrightarrow> Min (insert (min x y) S) = min x (Min (insert (y::int) S))"
  by (cases "S = {}") (simp_all add: min.assoc)

lemma max_loop_Max: "max_loop a i to acc = Max (insert acc ((\<lambda>j. a ! nat j) ` {i..to}))"
proof (induction a i to acc rule: max_loop.induct)
  case (1 a i to acc)
  then show ?case
    by (subst max_loop.simps) (simp add: atLeastAtMost_step Max_insert_max)
qed

lemma min_loop_Min: "min_loop a i to acc = Min (insert acc ((\<lambda>j. a ! nat j) ` {i..to}))"
proof (induction a i to acc rule: min_loop.induct)
  case (1 a i to acc)
  then show ?case
    by (subst min_loop.simps) (simp add: atLeastAtMost_step Min_insert_min)
qed

lemma clamped_values:
  "(\<lambda>j. a ! nat j) ` {max from 0..min to (int (length a) - 1)} = values_between a from to"
proof -
  have "{max from 0..min to (int (length a) - 1)} = int ` {i. i < length a \<and> from \<le> int i \<and> int i \<le> to}"
    by (auto intro!: image_eqI [of _ int "nat _"])
  then show ?thesis by (simp add: values_between_def image_image)
qed

lemma rMaxQ_eq:
  assumes "SegmentTree array = Some s" "list_all (\<lambda>x. 0 \<le> x) array" "from \<le> to"
  shows "rMaxQ (length array) from to s = Some (Max (insert 0 (values_between array from to)), s)"
proof (cases "length array < kMinArraySize")
  case True
  then show ?thesis
    using assms(1) by (auto simp: SegmentTree_def rMaxQ_def max_loop_Max clamped_values)
next
  case False
  then have s: "st_array s = array" "seg (st_heap s) array 1 0 (length array)"
    using SegmentTree_ok [of array] assms(1) by auto
  obtain h where h: "s = \<lparr>st_array = array, st_heap = h\<rparr>" using s(1) by (cases s) simp
  show ?thesis
    using max_query.query_agg [OF s(2) assms(2,3) order_refl] False
    by (simp add: h rMaxQ_def rMaxQ_node_query max_query.agg_def foldr_max set_wanted)
qed

lemma rMinQ_eq:
  assumes "SegmentTree array = Some s" "list_all (\<lambda>x. x \<le> value_max) array" "from \<le> to"
  shows "rMinQ (length array) from to s = Some (Min (insert value_max (values_between array from to)), s)"
proof (cases "length array < kMinArraySize")
  case True
  then show ?thesis
    using assms(1) by (auto simp: SegmentTree_def rMinQ_def min_loop_Min clamped_values)
next
  case False
  then have s: "st_array s = array" "seg (st_heap s) array 1 0 (length array)"
    using SegmentTree_ok [of array] assms(1) by auto
  obtain h where h: "s = \<lparr>st_array = array, st_heap = h\<rparr>" using s(1) by (cases s) simp
  show ?thesis
    using min_query.query_agg [OF s(2) assms(2,3) order_refl] False
    by (simp add: h rMinQ_def rMinQ_node_query min_query.agg_def foldr_min set_wanted)
qed

text \<open>C19: The tree of a line always gets built within the heap reserved for it, and both
  queries end and answer like a scan of the line: the greatest value of the range, or 0, and the
  least one, or the greatest 64-bit value; they leave the tree as it is.\<close>

theorem segment_tree_queries:
  assumes "list_all (\<lambda>x. 0 \<le> x \<and> x \<le> value_max) array" "from \<le> to"
  shows "\<exists>s. SegmentTree array = Some s
    \<and> rMaxQ (length array) from to s = Some (Max (insert 0 (values_between array from to)), s)
    \<and> rMinQ (length array) from to s = Some (Min (insert value_max (values_between array from to)), s)"
proof -
  obtain s where s: "SegmentTree array = Some s" using SegmentTree_ok [of array] by blast
  have "list_all (\<lambda>x. 0 \<le> x) array" "list_all (\<lambda>x. x \<le> value_max) array"
    using assms(1) by (simp_all add: list_all_iff)
  then show ?thesis using s rMaxQ_eq [OF s _ assms(2)] rMinQ_eq [OF s _ assms(2)] by blast
qed

lemma segment_tree_queries_witness:
  "\<exists>s. SegmentTree (map int [0..<40]) = Some s
    \<and> rMaxQ 40 3 12 s = Some (12, s) \<and> rMinQ 40 3 12 s = Some (3, s)"
proof -
  have a: "list_all (\<lambda>x. 0 \<le> x \<and> x \<le> value_max) (map int [0..<40])" "(3::int) \<le> 12"
    by (auto simp: list_all_iff value_max_def)
  have v: "values_between (map int [0..<40]) 3 12 = {3..12}"
  proof (intro set_eqI iffI)
    fix x :: int assume "x \<in> {3..12}"
    then show "x \<in> values_between (map int [0..<40]) 3 12"
      unfolding values_between_def by (intro image_eqI [of _ _ "nat x"]) auto
  qed (auto simp: values_between_def)
  have "Max (insert 0 {3..12::int}) = 12" by (rule Max_eqI) auto
  moreover have "Min (insert value_max {3..12::int}) = 3"
    by (rule Min_eqI) (auto simp: value_max_def)
  ultimately show ?thesis
    using segment_tree_queries [OF a] unfolding v by simp
qed

end
