(* ===== verification/AutoDownload.thy ===== *)
theory AutoDownload imports Prelude "HOL-Library.Monad_Syntax" begin

text \<open>
  Automatic download and playback limits (\<open>data/data_auto_download.h\<close> and \<open>.cpp\<close>).

  A limit is a 32-bit signed integer, \<open>-1\<close> for none, read as an unsigned number of bytes.
  \<open>Expects\<close> and \<open>Ensures\<close> end the program when they fail: the value \<open>None\<close> of an
  \<open>option\<close>. The arrays of fixed length are lists. \<open>QDataStream\<close> (Qt) writes integers
  big-endian and reads 0 past the end, remembering that it did.
\<close>

section \<open>One limit\<close>

definition kMaxBytesLimit :: int where "kMaxBytesLimit = 8000 * (512 * 1024)"
definition kDefaultMaxSize :: int where "kDefaultMaxSize = 8 * (1024 * 1024)"
definition kDefaultAutoPlaySize :: int where "kDefaultAutoPlaySize = 50 * (1024 * 1024)"
definition kVersion1 :: int where "kVersion1 = 1"
definition kVersion :: int where "kVersion = 2"

lemmas limit_consts = kMaxBytesLimit_def kDefaultMaxSize_def kDefaultAutoPlaySize_def

datatype Source = User | Group | Channel
datatype Type = Photo | AutoPlayVideo | VoiceMessage | AutoPlayVideoMessage | Music | AutoPlayGIF | File

definition sources :: "Source list" where "sources = [User, Group, Channel]"
definition types :: "Type list" where
  "types = [Photo, AutoPlayVideo, VoiceMessage, AutoPlayVideoMessage, Music, AutoPlayGIF, File]"
definition kAutoPlayTypes :: "Type list" where
  "kAutoPlayTypes = [AutoPlayVideo, AutoPlayVideoMessage, AutoPlayGIF]"
definition kStreamedTypes :: "Type list" where "kStreamedTypes = [VoiceMessage, Music]"

fun source_index :: "Source \<Rightarrow> nat" where
  "source_index User = 0" | "source_index Group = 1" | "source_index Channel = 2"

fun type_index :: "Type \<Rightarrow> nat" where
  "type_index Photo = 0" | "type_index AutoPlayVideo = 1" | "type_index VoiceMessage = 2"
| "type_index AutoPlayVideoMessage = 3" | "type_index Music = 4" | "type_index AutoPlayGIF = 5"
| "type_index File = 6"

definition single_setBytesLimit :: "int \<Rightarrow> int option" where
  "single_setBytesLimit bytesLimit =
     (if 0 \<le> bytesLimit \<and> bytesLimit \<le> kMaxBytesLimit
      then let limit = i32 (u32 bytesLimit) in if limit \<noteq> -1 then Some limit else None
      else None)"

definition single_hasValue :: "int \<Rightarrow> bool" where
  "single_hasValue limit \<longleftrightarrow> limit \<noteq> -1"

definition single_bytesLimit :: "int \<Rightarrow> int option" where
  "single_bytesLimit limit = (if single_hasValue limit then Some (u32 limit) else None)"

definition single_shouldDownload :: "int \<Rightarrow> int \<Rightarrow> bool option" where
  "single_shouldDownload limit fileSize =
     (if single_hasValue limit
      then single_bytesLimit limit \<bind> (\<lambda>realLimit. Some (realLimit > 0 \<and> fileSize \<le> realLimit))
      else None)"

definition single_setFromSerialized :: "int \<Rightarrow> int option" where
  "single_setFromSerialized serialized =
     (let realLimit = u32 serialized
      in if serialized \<noteq> -1 \<and> realLimit > kMaxBytesLimit then None else Some serialized)"

section \<open>The limits of a source, and all of them\<close>

type_synonym LimitSet = "int list"
type_synonym Full = "LimitSet list"

definition set0 :: LimitSet where "set0 = replicate 7 (-1)"
definition full0 :: Full where "full0 = replicate 3 set0"

definition set_setBytesLimit :: "LimitSet \<Rightarrow> Type \<Rightarrow> int \<Rightarrow> LimitSet option" where
  "set_setBytesLimit d t bytesLimit =
     map_option (\<lambda>x. d[type_index t := x]) (single_setBytesLimit bytesLimit)"

definition set_hasValue :: "LimitSet \<Rightarrow> Type \<Rightarrow> bool" where
  "set_hasValue d t = single_hasValue (d ! type_index t)"

definition set_shouldDownload :: "LimitSet \<Rightarrow> Type \<Rightarrow> int \<Rightarrow> bool option" where
  "set_shouldDownload d t fileSize = single_shouldDownload (d ! type_index t) fileSize"

definition set_bytesLimit :: "LimitSet \<Rightarrow> Type \<Rightarrow> int option" where
  "set_bytesLimit d t = single_bytesLimit (d ! type_index t)"

definition set_serialize :: "LimitSet \<Rightarrow> Type \<Rightarrow> int" where
  "set_serialize d t = d ! type_index t"

definition set_setFromSerialized :: "LimitSet \<Rightarrow> Type \<Rightarrow> int \<Rightarrow> LimitSet option" where
  "set_setFromSerialized d t serialized =
     map_option (\<lambda>x. d[type_index t := x]) (single_setFromSerialized serialized)"

definition full_set :: "Full \<Rightarrow> Source \<Rightarrow> LimitSet" where
  "full_set d src = d ! source_index src"

definition full_setBytesLimit :: "Full \<Rightarrow> Source \<Rightarrow> Type \<Rightarrow> int \<Rightarrow> Full option" where
  "full_setBytesLimit d src t bytesLimit =
     map_option (\<lambda>s. d[source_index src := s]) (set_setBytesLimit (full_set d src) t bytesLimit)"

text \<open>A loop over sources and types.\<close>

fun set_all :: "(Source \<times> Type \<times> int) list \<Rightarrow> Full \<Rightarrow> Full option" where
  "set_all [] d = Some d"
| "set_all ((src, t, x) # rest) d = full_setBytesLimit d src t x \<bind> set_all rest"

definition FullDisabled :: "Full option" where
  "FullDisabled = set_all [(src, t, 0). src \<leftarrow> sources, t \<leftarrow> types] full0"

definition SetDefaultsForSource :: "Source \<Rightarrow> Full \<Rightarrow> Full option" where
  "SetDefaultsForSource source =
     (let channelsFileLimit = (if source = Channel then 0 else kDefaultMaxSize)
      in set_all [(source, Photo, kDefaultMaxSize), (source, VoiceMessage, kDefaultMaxSize),
           (source, AutoPlayVideoMessage, kDefaultAutoPlaySize), (source, AutoPlayGIF, kDefaultAutoPlaySize),
           (source, File, channelsFileLimit), (source, AutoPlayVideo, kDefaultAutoPlaySize),
           (source, Music, channelsFileLimit)])"

definition Defaults :: "Full option" where
  "Defaults = FullDisabled \<bind> SetDefaultsForSource User \<bind> SetDefaultsForSource Group
     \<bind> SetDefaultsForSource Channel"

definition full_setOrDefault :: "Full \<Rightarrow> Source \<Rightarrow> Type \<Rightarrow> LimitSet option" where
  "full_setOrDefault d src t =
     (let my = full_set d src
      in (if set_hasValue my t then Some my else map_option (\<lambda>x. full_set x src) Defaults)
         \<bind> (\<lambda>result. if set_hasValue result t then Some result else None))"

definition full_shouldDownload :: "Full \<Rightarrow> Source \<Rightarrow> Type \<Rightarrow> int \<Rightarrow> bool option" where
  "full_shouldDownload d src t fileSize =
     (if t \<in> set kStreamedTypes then Some False
      else full_setOrDefault d src t \<bind> (\<lambda>s. set_shouldDownload s t fileSize))"

definition full_bytesLimit :: "Full \<Rightarrow> Source \<Rightarrow> Type \<Rightarrow> int option" where
  "full_bytesLimit d src t = full_setOrDefault d src t \<bind> (\<lambda>s. set_bytesLimit s t)"

definition WithDisabledAutoPlay :: "Full \<Rightarrow> Full option" where
  "WithDisabledAutoPlay d = set_all [(src, t, 0). src \<leftarrow> sources, t \<leftarrow> kAutoPlayTypes] d"

section \<open>Saving and loading\<close>

definition be32 :: "int \<Rightarrow> int list" where
  "be32 x = (let u = u32 x in [u div 2 ^ 24, u div 2 ^ 16 mod 256, u div 2 ^ 8 mod 256, u mod 256])"

definition full_serialize :: "Full \<Rightarrow> int list" where
  "full_serialize d = kVersion # concat [be32 (set_serialize (full_set d src) t). src \<leftarrow> sources, t \<leftarrow> types]"

text \<open>A stream: the bytes left, and whether every read succeeded.\<close>

type_synonym data_stream = "int list \<times> bool"

definition read_i8 :: "data_stream \<Rightarrow> int \<times> data_stream" where
  "read_i8 = (\<lambda>(bytes, ok). case bytes of
       b # rest \<Rightarrow> if ok then ((b + 128) mod 256 - 128, rest, True) else (0, bytes, False)
     | [] \<Rightarrow> (0, [], False))"

definition read_i32 :: "data_stream \<Rightarrow> int \<times> data_stream" where
  "read_i32 = (\<lambda>(bytes, ok). case bytes of
       a # b # c # d # rest \<Rightarrow>
         if ok then (i32 (a * 2 ^ 24 + b * 2 ^ 16 + c * 2 ^ 8 + d), rest, True) else (0, bytes, False)
     | _ \<Rightarrow> (0, [], False))"

text \<open>The loop that reads the limits; \<open>None\<close> when one is refused.\<close>

fun read_limits :: "(Source \<times> Type) list \<Rightarrow> data_stream \<Rightarrow> Full \<Rightarrow> Full option" where
  "read_limits [] stream temp = Some temp"
| "read_limits ((src, t) # rest) stream temp =
     (let (x, stream') = read_i32 stream
      in case set_setFromSerialized (full_set temp src) t x of
           None \<Rightarrow> None
         | Some s \<Rightarrow> read_limits rest stream' (temp[source_index src := s]))"

text \<open>The loop that raises the autoplay limits of the first version.\<close>

fun raise_limits :: "(Source \<times> Type) list \<Rightarrow> Full \<Rightarrow> Full option" where
  "raise_limits [] temp = Some temp"
| "raise_limits ((src, t) # rest) temp =
     full_bytesLimit temp src t
     \<bind> (\<lambda>b. full_setBytesLimit temp src t (max b kDefaultAutoPlaySize))
     \<bind> raise_limits rest"

definition full_setFromSerialized :: "Full \<Rightarrow> int list \<Rightarrow> (Full \<times> bool) option" where
  "full_setFromSerialized d serialized =
     (if serialized = [] then Some (d, False)
      else let (version, stream) = read_i8 (serialized, True)
           in if \<not> snd stream then Some (d, False)
              else if version \<noteq> kVersion \<and> version \<noteq> kVersion1 then Some (d, False)
              else (case read_limits [(src, t). src \<leftarrow> sources, t \<leftarrow> types] stream full0 of
                  None \<Rightarrow> Some (d, False)
                | Some temp \<Rightarrow>
                    (if version = kVersion1
                     then raise_limits [(src, t). src \<leftarrow> sources, t \<leftarrow> kAutoPlayTypes] temp
                     else Some temp) \<bind> (\<lambda>temp'. Some (temp', True))))"

section \<open>Decisions\<close>

datatype PeerKind = PeerUser | PeerChat | PeerMegagroup | PeerBroadcast

definition SourceFromPeer :: "PeerKind \<Rightarrow> Source" where
  "SourceFromPeer peer =
     (if peer = PeerUser then User
      else if peer = PeerChat \<or> peer = PeerMegagroup then Group
      else Channel)"

text \<open>What is asked of a document and of a photo.\<close>

record DocumentData =
  doc_sticker :: bool
  doc_isGifv :: bool
  doc_isVoiceMessage :: bool
  doc_isVideoMessage :: bool
  doc_isSong :: bool
  doc_isVideoFile :: bool
  doc_size :: int

record PhotoData =
  photo_imageByteSize :: int
  photo_videoByteSize :: int
  photo_hasVideo :: bool

definition AutoPlayTypeFromDocument :: "DocumentData \<Rightarrow> Type" where
  "AutoPlayTypeFromDocument document =
     (if doc_isVideoFile document then AutoPlayVideo
      else if doc_isVideoMessage document then AutoPlayVideoMessage
      else AutoPlayGIF)"

definition should_source :: "Full \<Rightarrow> Source \<Rightarrow> DocumentData \<Rightarrow> bool option" where
  "should_source d source document =
     (if doc_sticker document \<or> doc_isGifv document then Some True
      else if doc_isVoiceMessage document \<or> doc_isVideoMessage document
        \<or> doc_isSong document \<or> doc_isVideoFile document then Some False
      else full_shouldDownload d source File (doc_size document))"

definition should_peer :: "Full \<Rightarrow> PeerKind \<Rightarrow> DocumentData \<Rightarrow> bool option" where
  "should_peer d peer document = should_source d (SourceFromPeer peer) document"

text \<open>\<open>||\<close> evaluates its right side only when the left one is false.\<close>

definition or_else :: "bool option \<Rightarrow> bool option \<Rightarrow> bool option" where
  "or_else a b = a \<bind> (\<lambda>x. if x then Some True else b)"

definition should_any :: "Full \<Rightarrow> DocumentData \<Rightarrow> bool option" where
  "should_any d document =
     (if doc_sticker document then Some True
      else or_else (should_source d User document)
        (or_else (should_source d Group document) (should_source d Channel document)))"

definition should_photo :: "Full \<Rightarrow> PeerKind \<Rightarrow> PhotoData \<Rightarrow> bool option" where
  "should_photo d peer photo =
     full_shouldDownload d (SourceFromPeer peer) Photo (photo_imageByteSize photo)"

definition autoplay_document :: "Full \<Rightarrow> PeerKind \<Rightarrow> DocumentData \<Rightarrow> bool option" where
  "autoplay_document d peer document =
     (if doc_sticker document then Some True
      else full_shouldDownload d (SourceFromPeer peer) (AutoPlayTypeFromDocument document)
             (doc_size document))"

definition autoplay_photo :: "Full \<Rightarrow> PeerKind \<Rightarrow> PhotoData \<Rightarrow> bool option" where
  "autoplay_photo d peer photo =
     (let source = SourceFromPeer peer; size = photo_videoByteSize photo
      in if \<not> photo_hasVideo photo then Some False
         else or_else (full_shouldDownload d source AutoPlayGIF size)
           (or_else (full_shouldDownload d source AutoPlayVideo size)
             (full_shouldDownload d source AutoPlayVideoMessage size)))"

section \<open>Well-formed limits\<close>

definition valid_limit :: "int \<Rightarrow> bool" where
  "valid_limit x \<longleftrightarrow> in_i32 x \<and> (x = -1 \<or> u32 x \<le> kMaxBytesLimit)"

definition valid_set :: "LimitSet \<Rightarrow> bool" where
  "valid_set s \<longleftrightarrow> length s = 7 \<and> list_all valid_limit s"

definition valid_full :: "Full \<Rightarrow> bool" where
  "valid_full d \<longleftrightarrow> length d = 3 \<and> list_all valid_set d"

lemma index_less [simp]: "source_index src < 3" "type_index t < 7"
  by (cases src; simp) (cases t; simp)

lemma valid_full0: "valid_full full0"
  by code_simp

lemma valid_set_update: "valid_set s \<Longrightarrow> valid_limit x \<Longrightarrow> valid_set (s[i := x])"
  unfolding valid_set_def list_all_iff using set_update_subset_insert [of s i x] by auto

lemma valid_full_update: "valid_full d \<Longrightarrow> valid_set s \<Longrightarrow> valid_full (d[i := s])"
  unfolding valid_full_def list_all_iff using set_update_subset_insert [of d i s] by auto

lemma valid_full_set: "valid_full d \<Longrightarrow> valid_set (full_set d src)"
  by (simp add: valid_full_def full_set_def list_all_length)

lemma valid_set_nth: "valid_set s \<Longrightarrow> valid_limit (s ! type_index t)"
  by (simp add: valid_set_def list_all_length)

lemma u32_i32: "u32 (i32 x) = u32 x"
  unfolding u32_def i32_def by (metis add_diff_cancel mod_diff_left_eq)

lemma u32_minus_one: "u32 (-1) = 4294967295"
  by (simp add: u32_def)

lemma single_setBytesLimit_valid:
  "0 \<le> x \<Longrightarrow> x \<le> kMaxBytesLimit \<Longrightarrow>
   single_setBytesLimit x = Some (i32 x) \<and> i32 x \<noteq> -1 \<and> valid_limit (i32 x)"
proof -
  assume x: "0 \<le> x" "x \<le> kMaxBytesLimit"
  then have u: "u32 x = x" by (simp add: limit_consts)
  have "i32 x \<noteq> -1"
  proof
    assume "i32 x = -1"
    then have "u32 (-1) = u32 x" by (metis u32_i32)
    then show False using x u by (simp add: u32_minus_one limit_consts)
  qed
  then show ?thesis
    using x u by (simp add: single_setBytesLimit_def valid_limit_def u32_i32 Let_def)
qed

lemma full_setBytesLimit_valid:
  "valid_full d \<Longrightarrow> 0 \<le> x \<Longrightarrow> x \<le> kMaxBytesLimit \<Longrightarrow>
   \<exists>d'. full_setBytesLimit d src t x = Some d' \<and> valid_full d'"
  using single_setBytesLimit_valid [of x]
  by (simp add: full_setBytesLimit_def set_setBytesLimit_def valid_full_update valid_set_update valid_full_set)

lemma set_all_valid:
  "valid_full d \<Longrightarrow> list_all (\<lambda>(src, t, x). 0 \<le> x \<and> x \<le> kMaxBytesLimit) ops \<Longrightarrow>
   \<exists>d'. set_all ops d = Some d' \<and> valid_full d'"
proof (induction ops d rule: set_all.induct)
  case (2 src t x rest d)
  then obtain d1 where "full_setBytesLimit d src t x = Some d1" "valid_full d1"
    using full_setBytesLimit_valid [of d x src t] by auto
  with 2 show ?case by simp
qed simp

lemma Defaults_value: "Defaults =
   Some [[8388608, 52428800, 8388608, 52428800, 8388608, 52428800, 8388608],
         [8388608, 52428800, 8388608, 52428800, 8388608, 52428800, 8388608],
         [8388608, 52428800, 8388608, 52428800, 0, 52428800, 0]]"
  by code_simp


lemma hasValue_bytesLimit:
  "valid_limit x \<Longrightarrow> single_hasValue x \<Longrightarrow>
   \<exists>b. single_bytesLimit x = Some b \<and> 0 \<le> b \<and> b \<le> kMaxBytesLimit"
  by (auto simp: single_bytesLimit_def single_hasValue_def valid_limit_def)

lemma setOrDefault_valid:
  assumes "valid_full d"
  shows "\<exists>s. full_setOrDefault d src t = Some s \<and> valid_set s \<and> set_hasValue s t"
proof (cases "set_hasValue (full_set d src) t")
  case True
  then show ?thesis
    using valid_full_set [OF assms, of src] by (simp add: full_setOrDefault_def Let_def)
next
  case False
  define D :: Full where "D =
    [[8388608, 52428800, 8388608, 52428800, 8388608, 52428800, 8388608],
     [8388608, 52428800, 8388608, 52428800, 8388608, 52428800, 8388608],
     [8388608, 52428800, 8388608, 52428800, 0, 52428800, 0]]"
  have v: "valid_full D" unfolding D_def by code_simp
  have "set_hasValue (full_set D src) t"
    by (cases src; cases t) (simp_all add: D_def full_set_def set_hasValue_def single_hasValue_def)
  then show ?thesis
    using False valid_full_set [OF v, of src]
    by (simp add: full_setOrDefault_def Let_def Defaults_value D_def [symmetric])
qed

lemma full_bytesLimit_valid:
  assumes "valid_full d"
  shows "\<exists>b. full_bytesLimit d src t = Some b \<and> 0 \<le> b \<and> b \<le> kMaxBytesLimit"
proof -
  obtain s where "full_setOrDefault d src t = Some s" "valid_set s" "set_hasValue s t"
    using setOrDefault_valid [OF assms] by blast
  then show ?thesis
    using hasValue_bytesLimit [OF valid_set_nth] by (simp add: full_bytesLimit_def set_bytesLimit_def set_hasValue_def)
qed

lemma full_shouldDownload_iff:
  assumes "valid_full d"
  shows "\<exists>b. full_bytesLimit d src t = Some b \<and>
    full_shouldDownload d src t fileSize = Some (t \<notin> {VoiceMessage, Music} \<and> 0 < b \<and> fileSize \<le> b)"
proof -
  obtain s where s: "full_setOrDefault d src t = Some s" "valid_set s" "set_hasValue s t"
    using setOrDefault_valid [OF assms] by blast
  obtain b where "single_bytesLimit (s ! type_index t) = Some b"
    using hasValue_bytesLimit [OF valid_set_nth [OF s(2)]] s(3) by (auto simp: set_hasValue_def)
  then show ?thesis
    using s by (auto simp: full_bytesLimit_def full_shouldDownload_def set_bytesLimit_def
        set_shouldDownload_def single_shouldDownload_def set_hasValue_def kStreamedTypes_def)
qed

section \<open>Reading a stream\<close>

fun read_seq :: "nat \<Rightarrow> data_stream \<Rightarrow> int list" where
  "read_seq 0 stream = []"
| "read_seq (Suc n) stream = (let (x, stream') = read_i32 stream in x # read_seq n stream')"

fun assign :: "(Source \<times> Type) list \<Rightarrow> int list \<Rightarrow> Full \<Rightarrow> Full" where
  "assign ((src, t) # rest) (x # xs) temp =
     assign rest xs (temp[source_index src := (full_set temp src)[type_index t := x]])"
| "assign _ _ temp = temp"

definition slots :: "(Source \<times> Type) list" where
  "slots = [(src, t). src \<leftarrow> sources, t \<leftarrow> types]"

lemma length_read_seq [simp]: "length (read_seq n stream) = n"
  by (induction n arbitrary: stream) (simp_all add: split_beta Let_def)

lemma read_i32_in: "in_i32 (fst (read_i32 stream))"
proof -
  have "in_i32 0" by (simp add: in_i32_def)
  then show ?thesis
    by (cases stream) (auto simp: read_i32_def split: list.splits)
qed

lemma valid_limit_setFromSerialized:
  "in_i32 x \<Longrightarrow> single_setFromSerialized x = (if valid_limit x then Some x else None)"
  by (auto simp: single_setFromSerialized_def valid_limit_def Let_def)

lemma read_limits_valid:
  "valid_full temp \<Longrightarrow> read_limits pairs stream temp = Some d \<Longrightarrow> valid_full d"
proof (induction pairs stream temp rule: read_limits.induct)
  case (2 src t rest stream temp)
  obtain x st where r: "read_i32 stream = (x, st)" by (cases "read_i32 stream")
  have "in_i32 x" using read_i32_in [of stream] r by simp
  then have v: "valid_limit x" "set_setFromSerialized (full_set temp src) t x = Some ((full_set temp src)[type_index t := x])"
    using 2(3) valid_limit_setFromSerialized [of x] r
    by (auto simp: set_setFromSerialized_def split: option.splits if_splits)
  show ?case
    using 2(1) [OF r [symmetric] refl v(2)] 2(2,3) r v
    by (simp add: valid_full_update valid_set_update valid_full_set)
qed simp

lemma read_limits_assign:
  "list_all valid_limit (read_seq (length pairs) stream) \<Longrightarrow>
   read_limits pairs stream temp = Some (assign pairs (read_seq (length pairs) stream) temp)"
proof (induction pairs arbitrary: stream temp)
  case (Cons p pairs)
  obtain src t where p: "p = (src, t)" by (cases p)
  obtain x st where r: "read_i32 stream = (x, st)" by (cases "read_i32 stream")
  have "in_i32 x" using read_i32_in [of stream] r by simp
  then show ?case
    using Cons r by (simp add: p set_setFromSerialized_def valid_limit_setFromSerialized)
qed simp

lemma assign_slots:
  assumes "length xs = 21"
  shows "concat (assign slots xs full0) = xs"
proof -
  obtain x0 x1 x2 x3 x4 x5 x6 y0 y1 y2 y3 y4 y5 y6 z0 z1 z2 z3 z4 z5 z6 where
    "xs = [x0, x1, x2, x3, x4, x5, x6, y0, y1, y2, y3, y4, y5, y6, z0, z1, z2, z3, z4, z5, z6]"
    using assms by (auto simp: length_Suc_conv numeral_eq_Suc)
  then show ?thesis
    by (simp add: slots_def sources_def types_def full_set_def full0_def set0_def numeral_eq_Suc)
qed

lemma be32_length [simp]: "length (be32 x) = 4"
  by (simp add: be32_def Let_def)

lemma i32_eq: "in_i32 x \<Longrightarrow> i32 (u32 x) = x"
  by (metis i32_id u32_def i32_def mod_add_left_eq)

lemma bytes_join:
  "u div 16777216 * 16777216 + u div 65536 mod 256 * 65536 + u div 256 mod 256 * 256 + u mod 256 = (u::int)"
proof -
  have "u div 65536 div 256 = u div 16777216" "u div 256 div 256 = u div 65536"
    using zdiv_zmult2_eq [of 256 u 65536] zdiv_zmult2_eq [of 256 u 256] by simp_all
  then show ?thesis
    using div_mult_mod_eq [of "u div 65536" 256] div_mult_mod_eq [of "u div 256" 256]
      div_mult_mod_eq [of u 256] by linarith
qed

lemma read_be32:
  assumes "in_i32 x"
  shows "read_i32 (be32 x @ rest, True) = (x, rest, True)"
proof -
  define u where "u = u32 x"
  have "read_i32 (be32 x @ rest, True) =
      (i32 (u div 16777216 * 16777216 + u div 65536 mod 256 * 65536 + u div 256 mod 256 * 256 + u mod 256), rest, True)"
    by (simp add: read_i32_def be32_def Let_def u_def)
  also have "\<dots> = (i32 u, rest, True)" by (simp only: bytes_join)
  finally show ?thesis by (simp add: u_def i32_eq assms)
qed

lemma read_short: "length bytes < 4 \<Longrightarrow> read_i32 (bytes, ok) = (0, [], False)"
  by (auto simp: read_i32_def numeral_eq_Suc split: list.splits)

lemma read_failed: "read_seq n ([], False) = replicate n 0"
  by (induction n) (simp_all add: read_i32_def)

text \<open>Reading a cut stream gives the values that are there in full, then zeros.\<close>

lemma read_seq_cut:
  "list_all in_i32 xs \<Longrightarrow>
   read_seq (length xs) (take m (concat (map be32 xs)), True) = take (m div 4) xs @ replicate (length xs - m div 4) 0"
proof (induction xs arbitrary: m)
  case (Cons x xs)
  show ?case
  proof (cases "m < 4")
    case True
    then show ?thesis by (simp add: read_short read_failed)
  next
    case False
    then obtain k where m: "m = 4 + k" using le_Suc_ex by (metis not_less)
    have "take m (concat (map be32 (x # xs))) = be32 x @ take k (concat (map be32 xs))"
      by (simp add: m)
    moreover have "m div 4 = Suc (k div 4)" by (simp add: m)
    ultimately show ?thesis using Cons by (simp add: read_be32)
  qed
qed simp

lemma serialize_flat:
  assumes "valid_full d"
  shows "full_serialize d = kVersion # concat (map be32 (concat d))"
proof -
  obtain a b c where d: "d = [a, b, c]" using assms
    by (auto simp: valid_full_def numeral_eq_Suc length_Suc_conv)
  have l: "map (\<lambda>t. s ! type_index t) types = s" if "valid_set s" for s
  proof -
    have "length s = 7" using that by (simp add: valid_set_def)
    then show ?thesis by (auto simp: types_def numeral_eq_Suc length_Suc_conv)
  qed
  have "valid_set a" "valid_set b" "valid_set c" using assms by (simp_all add: d valid_full_def)
  then have "concat [map (\<lambda>t. set_serialize (full_set d src) t) types. src \<leftarrow> sources] = concat d"
    using l by (simp add: sources_def d set_serialize_def full_set_def numeral_eq_Suc)
  moreover have "concat [be32 (set_serialize (full_set d src) t). src \<leftarrow> sources, t \<leftarrow> types]
      = concat (map be32 (concat [map (\<lambda>t. set_serialize (full_set d src) t) types. src \<leftarrow> sources]))"
    by (simp add: sources_def types_def)
  ultimately show ?thesis by (simp add: full_serialize_def)
qed

lemma valid_concat: "valid_full d \<Longrightarrow> length (concat d) = 21 \<and> list_all valid_limit (concat d)"
  by (auto simp: valid_full_def valid_set_def numeral_eq_Suc length_Suc_conv list_all_iff)

lemma concat_inject: "valid_full d \<Longrightarrow> valid_full d' \<Longrightarrow> concat d = concat d' \<Longrightarrow> d = d'"
  by (rule concat_injective) (auto simp: valid_full_def valid_set_def set_zip list_all_length)


lemma raise_limits_valid:
  "valid_full temp \<Longrightarrow> \<exists>d. raise_limits pairs temp = Some d \<and> valid_full d"
proof (induction pairs temp rule: raise_limits.induct)
  case (2 src t rest temp)
  obtain b where b: "full_bytesLimit temp src t = Some b" "0 \<le> b" "b \<le> kMaxBytesLimit"
    using full_bytesLimit_valid [OF 2(2)] by blast
  then have "0 \<le> max b kDefaultAutoPlaySize" "max b kDefaultAutoPlaySize \<le> kMaxBytesLimit"
    by (simp_all add: limit_consts)
  then obtain d1 where "full_setBytesLimit temp src t (max b kDefaultAutoPlaySize) = Some d1" "valid_full d1"
    using full_setBytesLimit_valid [OF 2(2)] by blast
  then show ?case using 2(1) b by simp
qed simp

lemma setFromSerialized_valid:
  assumes "valid_full d"
  shows "\<exists>d' ok. full_setFromSerialized d bytes = Some (d', ok) \<and> valid_full d' \<and> (\<not> ok \<longrightarrow> d' = d)"
proof (cases "bytes = []")
  case False
  obtain version stream where r: "read_i8 (bytes, True) = (version, stream)" by (cases "read_i8 (bytes, True)")
  show ?thesis
  proof (cases "snd stream \<and> (version = kVersion \<or> version = kVersion1)")
    case True
    show ?thesis
    proof (cases "read_limits [(src, t). src \<leftarrow> sources, t \<leftarrow> types] stream full0")
      case None
      then show ?thesis using assms False True r by (auto simp: full_setFromSerialized_def)
    next
      case (Some temp)
      have "valid_full temp" by (rule read_limits_valid [OF valid_full0 Some])
      then show ?thesis
        using raise_limits_valid [of temp "[(src, t). src \<leftarrow> sources, t \<leftarrow> kAutoPlayTypes]"]
          assms False True r Some by (auto simp: full_setFromSerialized_def)
    qed
  qed (use assms False r in \<open>auto simp: full_setFromSerialized_def\<close>)
qed (use assms in \<open>auto simp: full_setFromSerialized_def intro: exI [of _ False]\<close>)

lemma valid_limit_zero [simp]: "valid_limit 0"
  by code_simp

lemma length_slots: "length slots = 21"
  by (simp add: slots_def sources_def types_def)

lemma load_cut:
  assumes "valid_full saved" "0 < k"
  defines "xs \<equiv> take ((k - 1) div 4) (concat saved) @ replicate (21 - (k - 1) div 4) 0"
  shows "\<exists>d'. full_setFromSerialized d (take k (full_serialize saved)) = Some (d', True)
    \<and> concat d' = xs \<and> valid_full d'"
proof -
  obtain j where k: "k = Suc j" using assms(2) by (cases k) auto
  have c: "length (concat saved) = 21" "list_all valid_limit (concat saved)"
    using valid_concat [OF assms(1)] by auto
  then have "list_all in_i32 (concat saved)" by (auto simp: list_all_iff valid_limit_def)
  from read_seq_cut [OF this, of j]
  have r: "read_seq (length slots) (take j (concat (map be32 (concat saved))), True) = xs"
    unfolding xs_def k length_slots by (simp add: c(1))
  have v: "list_all valid_limit xs"
    using c(2) unfolding xs_def list_all_iff by (auto simp del: set_concat dest!: in_set_takeD)
  have "length xs = length slots" using r by (metis length_read_seq)
  then have l: "length xs = 21" by (simp only: length_slots)
  have rl: "read_limits slots (take j (concat (map be32 (concat saved))), True) full0 = Some (assign slots xs full0)"
    using read_limits_assign [of slots "(take j (concat (map be32 (concat saved))), True)"] r v by simp
  have "full_setFromSerialized d (take k (full_serialize saved)) = Some (assign slots xs full0, True)"
    using rl unfolding serialize_flat [OF assms(1)] k slots_def
    by (simp add: full_setFromSerialized_def read_i8_def kVersion_def kVersion1_def)
  then show ?thesis
    using assign_slots [OF l] read_limits_valid [OF valid_full0 rl] by blast
qed

section \<open>Properties\<close>

text \<open>With limits that are absent or at most the maximum, no assertion fails when a limit is
  read: it is its own value or the default one, between 0 and the maximum, and a download starts
  exactly if the type is not a streamed one, the limit is positive and the size within it.\<close>

theorem autodownload_decisions:
  assumes "valid_full d"
  shows "\<exists>b. full_bytesLimit d src t = Some b \<and> 0 \<le> b \<and> b \<le> kMaxBytesLimit
    \<and> full_shouldDownload d src t fileSize = Some (t \<notin> {VoiceMessage, Music} \<and> 0 < b \<and> fileSize \<le> b)"
  using full_bytesLimit_valid [OF assms, of src t] full_shouldDownload_iff [OF assms, of src t fileSize]
  by auto

lemma autodownload_decisions_witness:
  "\<exists>b. full_bytesLimit full0 Channel File = Some b \<and> 0 \<le> b \<and> b \<le> kMaxBytesLimit
    \<and> full_shouldDownload full0 Channel File 5 = Some (File \<notin> {VoiceMessage, Music} \<and> 0 < b \<and> 5 \<le> b)"
  by (rule autodownload_decisions [OF valid_full0])

text \<open>Whatever bytes are loaded, loading ends without a failed assertion and leaves
  well-formed limits; when it reports failure, the limits are those from before. Disabling
  automatic playback keeps them well-formed as well.\<close>

theorem autodownload_load_safe:
  assumes "valid_full d"
  shows "(\<exists>d' ok. full_setFromSerialized d bytes = Some (d', ok) \<and> valid_full d' \<and> (\<not> ok \<longrightarrow> d' = d))
    \<and> (\<exists>d'. WithDisabledAutoPlay d = Some d' \<and> valid_full d')"
proof
  show "\<exists>d'. WithDisabledAutoPlay d = Some d' \<and> valid_full d'"
    unfolding WithDisabledAutoPlay_def
    by (rule set_all_valid [OF assms]) (simp add: sources_def kAutoPlayTypes_def kMaxBytesLimit_def)
qed (rule setFromSerialized_valid [OF assms])

lemma autodownload_load_safe_witness:
  "\<exists>d' ok. full_setFromSerialized full0 [1, 7, 7] = Some (d', ok) \<and> valid_full d' \<and> (\<not> ok \<longrightarrow> d' = full0)"
  using autodownload_load_safe [OF valid_full0, of "[1, 7, 7]"] by (rule conjunct1)

text \<open>C20: Saved limits load back unchanged.\<close>

theorem autodownload_roundtrip:
  assumes "valid_full saved"
  shows "full_setFromSerialized d (full_serialize saved) = Some (saved, True)"
proof -
  have c: "length (concat saved) = 21" using valid_concat [OF assms] by simp
  have "length (concat (map be32 xs)) = 4 * length xs" for xs
    by (induction xs) simp_all
  then have l: "length (full_serialize saved) = 85" using c by (simp add: serialize_flat [OF assms])
  obtain d' where d': "full_setFromSerialized d (take 85 (full_serialize saved)) = Some (d', True)"
      "concat d' = take ((85 - 1) div 4) (concat saved) @ replicate (21 - (85 - 1) div 4) 0" "valid_full d'"
    using load_cut [OF assms, of 85 d] by auto
  then have "d' = saved" using c by (intro concat_inject [OF d'(3) assms]) simp
  then show ?thesis using d'(1) l by simp
qed

lemma autodownload_roundtrip_witness:
  "full_setFromSerialized [] (full_serialize full0) = Some (full0, True)"
  by (rule autodownload_roundtrip [OF valid_full0])

text \<open>Loading does not notice that its input ends too early: from a cut file it takes the
  limits that are there, sets all others to zero and reports success.\<close>

theorem autodownload_truncated_accepted:
  assumes "valid_full saved" "0 < k"
  shows "\<exists>d'. full_setFromSerialized d (take k (full_serialize saved)) = Some (d', True)
    \<and> concat d' = take ((k - 1) div 4) (concat saved) @ replicate (21 - (k - 1) div 4) 0"
  using load_cut [OF assms] by blast

lemma autodownload_truncated_accepted_witness:
  "full_setFromSerialized full0 [2] = Some (replicate 3 (replicate 7 0), True)"
proof -
  obtain d' where d': "full_setFromSerialized full0 (take 1 (full_serialize full0)) = Some (d', True)"
      "concat d' = replicate 21 0"
    using autodownload_truncated_accepted [OF valid_full0, of 1 full0] by auto
  have "full_setFromSerialized full0 (take 1 (full_serialize full0)) = Some (replicate 3 (replicate 7 0), True)"
    by code_simp
  with d' show ?thesis by (simp add: full_serialize_def kVersion_def)
qed

end
