(* ===== verification/QtStrings.thy ===== *)
theory QtStrings imports Prelude begin

text \<open>
  Strings of Qt as far as the modelled code uses them. A \<open>QString\<close> is the list of its code
  units. \<open>qs\<close> is a literal, \<open>toInt\<close> is \<open>QString::toInt\<close> on digits (0 for none), and
  \<open>decimal\<close> and \<open>qnumber\<close> are \<open>QString::number\<close>.
\<close>

type_synonym qstring = "nat list"

definition qs :: "string \<Rightarrow> qstring" where
  "qs s = map of_char s"

definition digit_char :: "nat \<Rightarrow> bool" where
  "digit_char c \<longleftrightarrow> 48 \<le> c \<and> c \<le> 57"

definition toInt :: "qstring \<Rightarrow> nat" where
  "toInt s = foldl (\<lambda>n c. 10 * n + (c - 48)) 0 s"

fun decimal :: "nat \<Rightarrow> qstring" where
  "decimal n = (if n < 10 then [48 + n] else decimal (n div 10) @ [48 + n mod 10])"

declare decimal.simps [simp del]

definition qnumber :: "int \<Rightarrow> qstring" where
  "qnumber k = (if k < 0 then 45 # decimal (nat (- k)) else decimal (nat k))"

lemma decimal_small:
  "n < 10 \<Longrightarrow> decimal n = [48 + n]"
  "10 \<le> n \<Longrightarrow> n < 100 \<Longrightarrow> decimal n = [48 + n div 10, 48 + n mod 10]"
proof -
  show "n < 10 \<Longrightarrow> decimal n = [48 + n]" by (simp add: decimal.simps)
  assume n: "10 \<le> n" "n < 100"
  then have "n div 10 < 10" by auto
  then show "decimal n = [48 + n div 10, 48 + n mod 10]"
    using n by (simp add: decimal.simps [of n] decimal.simps [of "n div 10"])
qed

lemma decimal_digits: "list_all digit_char (decimal n)"
proof (induction n rule: decimal.induct)
  case (1 n)
  have "n < 10 \<Longrightarrow> digit_char (48 + n)" "digit_char (48 + n mod 10)"
    by (auto simp: digit_char_def)
  with 1 show ?case by (subst decimal.simps) simp
qed

lemma decimal_length: "100 \<le> n \<Longrightarrow> 3 \<le> length (decimal n)"
proof -
  assume n: "100 \<le> n"
  have "2 \<le> length (decimal (n div 10))"
    using n by (subst decimal.simps) (simp, cases "decimal (n div 10 div 10)", simp_all, subst (asm) decimal.simps, simp split: if_splits)
  then show ?thesis using n by (subst decimal.simps) simp
qed

lemma toInt_snoc [simp]: "toInt (s @ [c]) = 10 * toInt s + (c - 48)"
  by (simp add: toInt_def)

lemma toInt_decimal [simp]: "toInt (decimal n) = n"
proof (induction n rule: decimal.induct)
  case (1 n)
  show ?case
  proof (cases "n < 10")
    case True
    then show ?thesis by (simp add: decimal_small toInt_def)
  next
    case False
    then have "decimal n = decimal (n div 10) @ [48 + n mod 10]" by (subst decimal.simps) simp
    then show ?thesis using 1 [OF False] by simp
  qed
qed

lemma decimal_inject [simp]: "decimal m = decimal n \<longleftrightarrow> m = n"
  by (metis toInt_decimal)

end
