(* ===== verification/CardValidator.thy ===== *)
theory CardValidator imports QtStrings begin

text \<open>
  Checks of a payment card before it is sent (\<open>payments/stripe/stripe_card_validator.cpp\<close>,
  \<open>stripe_card.cpp\<close>).

  A \<open>QString\<close> is the list of its code units. The regular expressions of the source are
  written out: \<open>\s\<close> is one of the six ASCII spaces, and \<open>$\<close> also matches before a line
  feed at the end. \<open>QString::toInt\<close> is used on at most six digits, and gives 0 for none.
  \<open>std::sort\<close> is not stable; of the ranges that are greatest the model takes the last.
\<close>

section \<open>Ranges of card numbers\<close>

datatype CardBrand = Visa | Amex | MasterCard | Discover | JCB | DinersClub | UnionPay | Unknown

record BinRange =
  br_low :: qstring
  br_high :: qstring
  br_length :: nat
  br_brand :: CardBrand

definition bin_range :: "string \<Rightarrow> string \<Rightarrow> nat \<Rightarrow> CardBrand \<Rightarrow> BinRange" where
  "bin_range low high len brand = \<lparr>br_low = qs low, br_high = qs high, br_length = len, br_brand = brand\<rparr>"

definition AllRanges :: "BinRange list" where
  "AllRanges =
    [bin_range '''' '''' 19 Unknown,
     bin_range ''34'' ''34'' 15 Amex,
     bin_range ''37'' ''37'' 15 Amex,
     bin_range ''30'' ''30'' 16 DinersClub,
     bin_range ''36'' ''36'' 14 DinersClub,
     bin_range ''38'' ''39'' 16 DinersClub,
     bin_range ''60'' ''60'' 16 Discover,
     bin_range ''64'' ''65'' 16 Discover,
     bin_range ''35'' ''35'' 16 JCB,
     bin_range ''50'' ''59'' 16 MasterCard,
     bin_range ''22'' ''27'' 16 MasterCard,
     bin_range ''67'' ''67'' 16 MasterCard,
     bin_range ''62'' ''62'' 16 UnionPay,
     bin_range ''81'' ''81'' 16 UnionPay,
     bin_range ''40'' ''49'' 16 Visa,
     bin_range ''413600'' ''413600'' 13 Visa,
     bin_range ''444509'' ''444509'' 13 Visa,
     bin_range ''444509'' ''444509'' 13 Visa,
     bin_range ''444550'' ''444550'' 13 Visa,
     bin_range ''450603'' ''450603'' 13 Visa,
     bin_range ''450617'' ''450617'' 13 Visa,
     bin_range ''450628'' ''450629'' 13 Visa,
     bin_range ''450636'' ''450636'' 13 Visa,
     bin_range ''450640'' ''450641'' 13 Visa,
     bin_range ''450662'' ''450662'' 13 Visa,
     bin_range ''463100'' ''463100'' 13 Visa,
     bin_range ''476142'' ''476142'' 13 Visa,
     bin_range ''476143'' ''476143'' 13 Visa,
     bin_range ''492901'' ''492902'' 13 Visa,
     bin_range ''492920'' ''492920'' 13 Visa,
     bin_range ''492923'' ''492923'' 13 Visa,
     bin_range ''492928'' ''492930'' 13 Visa,
     bin_range ''492937'' ''492937'' 13 Visa,
     bin_range ''492939'' ''492939'' 13 Visa,
     bin_range ''492960'' ''492960'' 13 Visa]"

definition space_char :: "nat \<Rightarrow> bool" where
  "space_char c \<longleftrightarrow> c = 32 \<or> 9 \<le> c \<and> c \<le> 13"

definition IsNumeric :: "qstring \<Rightarrow> bool" where
  "IsNumeric s \<longleftrightarrow>
     list_all digit_char s \<or> s \<noteq> [] \<and> last s = 10 \<and> list_all digit_char (butlast s)"

definition RemoveWhitespaces :: "qstring \<Rightarrow> qstring" where
  "RemoveWhitespaces s = filter (\<lambda>c. \<not> space_char c) s"

definition BinRangeMatchesNumber :: "BinRange \<Rightarrow> qstring \<Rightarrow> bool" where
  "BinRangeMatchesNumber r sanitized =
     (let minWithLow = min (length sanitized) (length (br_low r))
      in if toInt (take minWithLow sanitized) < toInt (take minWithLow (br_low r)) then False
         else let minWithHigh = min (length sanitized) (length (br_high r))
              in if toInt (take minWithHigh sanitized) > toInt (take minWithHigh (br_high r)) then False
                 else True)"

definition BinRangesForNumber :: "qstring \<Rightarrow> BinRange list" where
  "BinRangesForNumber sanitized = filter (\<lambda>r. BinRangeMatchesNumber r sanitized) AllRanges"

definition range_less :: "qstring \<Rightarrow> BinRange \<Rightarrow> BinRange \<Rightarrow> bool" where
  "range_less sanitized a b =
     (if sanitized = [] \<and> br_brand a = Unknown \<and> br_brand b \<noteq> Unknown then True
      else if sanitized = [] \<and> br_brand a \<noteq> Unknown \<and> br_brand b = Unknown then False
      else length (br_low a) < length (br_low b))"

text \<open>The last element of the vector after sorting.\<close>

definition MostSpecificBinRangeForNumber :: "qstring \<Rightarrow> BinRange" where
  "MostSpecificBinRangeForNumber sanitized =
     (let possible = BinRangesForNumber sanitized
      in foldl (\<lambda>best r. if range_less sanitized r best then best else r) (hd possible) (tl possible))"

definition MaxCvcLengthForBranch :: "CardBrand \<Rightarrow> nat" where
  "MaxCvcLengthForBranch brand = (if brand = Amex \<or> brand = Unknown then 4 else 3)"

fun brands_loop :: "BinRange list \<Rightarrow> CardBrand list \<Rightarrow> CardBrand list" where
  "brands_loop [] result = result"
| "brands_loop (r # rest) result =
     (if br_brand r = Unknown \<or> br_brand r \<in> set result then brands_loop rest result
      else brands_loop rest (result @ [br_brand r]))"

definition PossibleBrandsForNumber :: "qstring \<Rightarrow> CardBrand list" where
  "PossibleBrandsForNumber sanitized = brands_loop (BinRangesForNumber sanitized) []"

definition BrandForNumber :: "qstring \<Rightarrow> CardBrand" where
  "BrandForNumber number =
     (let sanitized = RemoveWhitespaces number
      in if \<not> IsNumeric sanitized then Unknown
         else let possible = PossibleBrandsForNumber sanitized
              in if length possible = 1 then hd possible else Unknown)"

section \<open>Luhn's checksum\<close>

text \<open>The loop from the last digit to the first; the argument is the number backwards.\<close>

fun luhn_loop :: "qstring \<Rightarrow> bool \<Rightarrow> int \<Rightarrow> int" where
  "luhn_loop [] isOdd acc = acc"
| "luhn_loop (c # rest) isOdd acc =
     (let digit = int c - 48;
          isOdd = (\<not> isOdd);
          digit = (if isOdd then digit * 2 else digit);
          digit = (if digit > 9 then digit - 9 else digit)
      in luhn_loop rest isOdd (acc + digit))"

definition IsValidLuhn :: "qstring \<Rightarrow> bool" where
  "IsValidLuhn sanitized \<longleftrightarrow> tmod (luhn_loop (rev sanitized) True 0) 10 = 0"

section \<open>Number, date, code\<close>

datatype ValidationState = Invalid | Incomplete | Valid

definition kMinLength :: nat where "kMinLength = Min (set (map br_length AllRanges))"
definition kMaxLength :: nat where "kMaxLength = Max (set (map br_length AllRanges))"
definition kMinCvcLength :: nat where "kMinCvcLength = 3"

record CardValidationResult =
  cv_state :: ValidationState
  cv_brand :: CardBrand
  cv_finished :: bool

definition ValidateCard :: "qstring \<Rightarrow> CardValidationResult" where
  "ValidateCard number =
     (let sanitized = RemoveWhitespaces number
      in if \<not> IsNumeric sanitized
         then \<lparr>cv_state = Invalid, cv_brand = Unknown, cv_finished = False\<rparr>
         else if sanitized = []
         then \<lparr>cv_state = Incomplete, cv_brand = Unknown, cv_finished = False\<rparr>
         else let brand = br_brand (MostSpecificBinRangeForNumber sanitized)
              in if length sanitized > kMaxLength
                 then \<lparr>cv_state = Invalid, cv_brand = brand, cv_finished = False\<rparr>
                 else if length sanitized < kMinLength
                 then \<lparr>cv_state = Incomplete, cv_brand = brand, cv_finished = False\<rparr>
                 else if \<not> IsValidLuhn sanitized
                 then \<lparr>cv_state = Invalid, cv_brand = brand, cv_finished = False\<rparr>
                 else if length sanitized < kMaxLength
                 then \<lparr>cv_state = Valid, cv_brand = brand, cv_finished = False\<rparr>
                 else \<lparr>cv_state = Valid, cv_brand = brand, cv_finished = True\<rparr>)"

text \<open>A month is a year and a month; \<open>threshold\<close> is the given one or the current one.\<close>

definition ValidateExpireDate :: "qstring \<Rightarrow> nat \<times> nat \<Rightarrow> ValidationState \<times> bool" where
  "ValidateExpireDate date threshold =
     (let sanitized = filter (\<lambda>c. c \<noteq> 47) (RemoveWhitespaces date)
      in if \<not> IsNumeric sanitized then (Invalid, False)
         else if length sanitized < 2 then (Incomplete, False)
         else
           let normalized = (if sanitized ! 0 > 49 then [48] else []) @ sanitized;
               month = toInt (take 2 normalized)
           in if month < 1 \<or> month > 12 then (Invalid, False)
              else if length normalized < 4 then (Incomplete, False)
              else if length normalized > 4 then (Invalid, False)
              else
                let year = 2000 + toInt (drop 2 normalized);
                    (thresholdYear, thresholdMonth) = threshold
                in if year < thresholdYear then (Invalid, False)
                   else if year = thresholdYear \<and> month < thresholdMonth then (Invalid, False)
                   else (Valid, True))"

text \<open>\<open>QString::arg(n, 2, 10, '0')\<close>: the decimal digits, at least two.\<close>

definition arg2 :: "nat \<Rightarrow> qstring" where
  "arg2 n = (if length (decimal n) < 2 then 48 # decimal n else decimal n)"

definition ValidateParsedExpireDate :: "nat \<Rightarrow> nat \<Rightarrow> nat \<times> nat \<Rightarrow> ValidationState" where
  "ValidateParsedExpireDate month year threshold =
     (if year div 100 \<noteq> 20 then Invalid
      else fst (ValidateExpireDate (arg2 month @ arg2 (year mod 100)) threshold))"

definition ValidateCvc :: "qstring \<Rightarrow> qstring \<Rightarrow> ValidationState \<times> bool" where
  "ValidateCvc number cvc =
     (if \<not> IsNumeric cvc then (Invalid, False)
      else if length cvc < kMinCvcLength then (Incomplete, False)
      else let maxLength = MaxCvcLengthForBranch (BrandForNumber number)
           in if length cvc > maxLength then (Invalid, False)
              else (Valid, length cvc = maxLength))"

definition CardNumberFormat :: "qstring \<Rightarrow> nat list" where
  "CardNumberFormat number =
     (let sanitized = RemoveWhitespaces number
      in if \<not> IsNumeric sanitized then [4, 4, 4, 4]
         else let r = MostSpecificBinRangeForNumber sanitized
              in if br_brand r = DinersClub \<and> br_length r = 14 then [4, 6, 4]
                 else if br_brand r = Amex then [4, 6, 5]
                 else [4, 4, 4, 4])"

section \<open>Names of brands and kinds\<close>

datatype CardFundingType = Debit | Credit | Prepaid | Other

definition BrandFromString :: "string \<Rightarrow> CardBrand" where
  "BrandFromString brand =
     (if brand = ''visa'' then Visa
      else if brand = ''american express'' then Amex
      else if brand = ''mastercard'' then MasterCard
      else if brand = ''discover'' then Discover
      else if brand = ''jcb'' then JCB
      else if brand = ''diners club'' then DinersClub
      else Unknown)"

definition FundingFromString :: "string \<Rightarrow> CardFundingType" where
  "FundingFromString funding =
     (if funding = ''credit'' then Credit
      else if funding = ''debit'' then Debit
      else if funding = ''prepaid'' then Prepaid
      else Other)"

text \<open>\<open>None\<close>: \<open>std::abort\<close>.\<close>

fun CardBrandToString :: "CardBrand \<Rightarrow> string option" where
  "CardBrandToString Amex = Some ''American Express''"
| "CardBrandToString DinersClub = Some ''Diners Club''"
| "CardBrandToString Discover = Some ''Discover''"
| "CardBrandToString JCB = Some ''JCB''"
| "CardBrandToString MasterCard = Some ''MasterCard''"
| "CardBrandToString Unknown = Some ''Unknown''"
| "CardBrandToString Visa = Some ''Visa''"
| "CardBrandToString UnionPay = None"


section \<open>The checksum finds errors\<close>

text \<open>What a digit contributes, \<open>p\<close> telling whether it is doubled.\<close>

definition luhn_value :: "bool \<Rightarrow> nat \<Rightarrow> int" where
  "luhn_value p c = (let x = int c - 48; x = (if p then x * 2 else x) in if x > 9 then x - 9 else x)"

lemma luhn_loop_acc: "luhn_loop xs p acc = acc + luhn_loop xs p 0"
proof (induction xs arbitrary: p acc)
  case (Cons c xs)
  show ?case
    using Cons [of "\<not> p" "acc + luhn_value (\<not> p) c"] Cons [of "\<not> p" "luhn_value (\<not> p) c"]
    by (simp add: luhn_value_def Let_def)
qed simp

lemma luhn_loop_Cons: "luhn_loop (c # xs) p 0 = luhn_value (\<not> p) c + luhn_loop xs (\<not> p) 0"
  using luhn_loop_acc [of xs "\<not> p" "luhn_value (\<not> p) c"] by (simp add: luhn_value_def Let_def)

lemma luhn_loop_append:
  "\<exists>q. \<forall>ys. luhn_loop (xs @ ys) p 0 = luhn_loop xs p 0 + luhn_loop ys q 0"
proof (induction xs arbitrary: p)
  case Nil
  have "\<forall>ys. luhn_loop ([] @ ys) p 0 = luhn_loop [] p 0 + luhn_loop ys p 0" by simp
  then show ?case by blast
next
  case (Cons c xs)
  obtain q where "\<forall>ys. luhn_loop (xs @ ys) (\<not> p) 0 = luhn_loop xs (\<not> p) 0 + luhn_loop ys q 0"
    using Cons by blast
  then have "\<forall>ys. luhn_loop ((c # xs) @ ys) p 0 = luhn_loop (c # xs) p 0 + luhn_loop ys q 0"
    unfolding append_Cons luhn_loop_Cons by simp
  then show ?case by blast
qed

lemma luhn_value_range: "digit_char c \<Longrightarrow> 0 \<le> luhn_value p c \<and> luhn_value p c \<le> 9"
  by (auto simp: luhn_value_def digit_char_def Let_def)

lemma luhn_loop_nonneg: "list_all digit_char xs \<Longrightarrow> 0 \<le> luhn_loop xs p 0"
  by (induction xs arbitrary: p) (use luhn_value_range in \<open>auto simp: luhn_loop_Cons simp del: luhn_loop.simps(2)\<close>)

lemma IsValidLuhn_mod:
  "list_all digit_char s \<Longrightarrow> IsValidLuhn s \<longleftrightarrow> luhn_loop (rev s) True 0 mod 10 = 0"
  by (simp add: IsValidLuhn_def luhn_loop_nonneg)

lemma luhn_value_inject:
  assumes "digit_char a" "digit_char b" "luhn_value p a = luhn_value p b"
  shows "a = b"
  using assms unfolding luhn_value_def digit_char_def Let_def by (cases p) (auto split: if_splits, presburger+)

lemma luhn_swap:
  assumes "digit_char a" "digit_char b"
    and "(luhn_value p a + luhn_value (\<not> p) b) mod 10 = (luhn_value p b + luhn_value (\<not> p) a) mod 10"
  shows "a = b \<or> {a, b} = {48, 57}"
proof -
  have "a \<in> {48..<58}" "b \<in> {48..<58}" using assms(1,2) by (auto simp: digit_char_def)
  then have "a \<in> set [48..<58]" "b \<in> set [48..<58]" unfolding set_upt .
  moreover have "list_all (\<lambda>a. list_all (\<lambda>b.
      (luhn_value p a + luhn_value (\<not> p) b) mod 10 = (luhn_value p b + luhn_value (\<not> p) a) mod 10 \<longrightarrow>
      a = b \<or> a = 48 \<and> b = 57 \<or> a = 57 \<and> b = 48) [48..<58]) [48..<58]"
    by (cases p) (simp only: not_True_eq_False not_False_eq_True, code_simp)+
  ultimately have "(luhn_value p a + luhn_value (\<not> p) b) mod 10 = (luhn_value p b + luhn_value (\<not> p) a) mod 10 \<longrightarrow>
      a = b \<or> a = 48 \<and> b = 57 \<or> a = 57 \<and> b = 48"
    unfolding list_all_iff by blast
  then show ?thesis using assms(3) by blast
qed

lemma luhn_single:
  assumes "list_all digit_char (xs @ a # ys)" "list_all digit_char (xs @ b # ys)"
    and "IsValidLuhn (xs @ a # ys)" "IsValidLuhn (xs @ b # ys)"
  shows "a = b"
proof -
  obtain q where q: "\<And>zs. luhn_loop (rev ys @ zs) True 0 = luhn_loop (rev ys) True 0 + luhn_loop zs q 0"
    using luhn_loop_append [of "rev ys" True] by blast
  define C where "C = luhn_loop (rev ys) True 0 + luhn_loop (rev xs) (\<not> q) 0"
  have "luhn_loop (rev (xs @ d # ys)) True 0 = C + luhn_value (\<not> q) d" for d
    using q [of "d # rev xs"] by (simp add: C_def luhn_loop_Cons del: luhn_loop.simps(2))
  then have "(C + luhn_value (\<not> q) a) mod 10 = 0" "(C + luhn_value (\<not> q) b) mod 10 = 0"
    using assms IsValidLuhn_mod by metis+
  then have "(C + luhn_value (\<not> q) a - C) mod 10 = (C + luhn_value (\<not> q) b - C) mod 10"
    by (metis mod_diff_cong)
  then have "luhn_value (\<not> q) a = luhn_value (\<not> q) b"
    using luhn_value_range [of a "\<not> q"] luhn_value_range [of b "\<not> q"] assms(1,2) by simp
  then show ?thesis using luhn_value_inject assms(1,2) by simp
qed

text \<open>The last digit is not doubled, so the checksum takes each value once as it varies.\<close>

lemma luhn_check_digit:
  assumes "list_all digit_char s"
  shows "\<exists>!c. digit_char c \<and> IsValidLuhn (s @ [c])"
proof -
  let ?S = "luhn_loop (rev s) False 0"
  have valid: "IsValidLuhn (s @ [c]) \<longleftrightarrow> (int c - 48 + ?S) mod 10 = 0" if "digit_char c" for c
  proof -
    have "luhn_value False c = int c - 48" using that by (simp add: luhn_value_def digit_char_def Let_def)
    then show ?thesis
      using IsValidLuhn_mod [of "s @ [c]"] assms that
      by (simp add: luhn_loop_Cons del: luhn_loop.simps(2))
  qed
  define d where "d = nat ((- ?S) mod 10)"
  have d: "int d = (- ?S) mod 10" by (simp add: d_def)
  then have "int d < 10" by simp
  then have digit: "digit_char (48 + d)" by (simp add: digit_char_def)
  moreover have "IsValidLuhn (s @ [48 + d])" unfolding valid [OF digit] by (simp add: d mod_simps)
  moreover have "c = 48 + d" if c: "digit_char c" "IsValidLuhn (s @ [c])" for c
  proof -
    have "(int c - 48 + ?S) mod 10 = 0" using valid c by blast
    then have "(int c - 48) mod 10 = (- ?S) mod 10" by (metis add.inverse_inverse diff_minus_eq_add mod_eq_dvd_iff mod_0_imp_dvd)
    moreover have "0 \<le> int c - 48" "int c - 48 < 10" using c(1) by (auto simp: digit_char_def)
    ultimately have "int c - 48 = int d" using d by simp
    then show ?thesis by linarith
  qed
  ultimately show ?thesis by blast
qed

text \<open>A 0 and a 9 contribute the same wherever they stand.\<close>

lemma luhn_exchange_09:
  assumes "list_all digit_char (xs @ a # b # ys)" "{a, b} = {48, 57}"
  shows "IsValidLuhn (xs @ b # a # ys) = IsValidLuhn (xs @ a # b # ys)"
proof -
  obtain q where q: "\<And>zs. luhn_loop (rev ys @ zs) True 0 = luhn_loop (rev ys) True 0 + luhn_loop zs q 0"
    using luhn_loop_append [of "rev ys" True] by blast
  have "luhn_loop (rev (xs @ d # e # ys)) True 0
      = luhn_loop (rev ys) True 0 + (luhn_value (\<not> q) e + (luhn_value q d + luhn_loop (rev xs) q 0))" for d e
    using q [of "e # d # rev xs"] by (simp add: luhn_loop_Cons del: luhn_loop.simps(2))
  moreover have "luhn_value p 48 = 0" "luhn_value p 57 = 9" for p by (simp_all add: luhn_value_def)
  ultimately have "luhn_loop (rev (xs @ b # a # ys)) True 0 = luhn_loop (rev (xs @ a # b # ys)) True 0"
    using assms(2) by (auto simp: doubleton_eq_iff)
  then show ?thesis by (simp only: IsValidLuhn_def)
qed

lemma luhn_transposed:
  assumes "list_all digit_char (xs @ a # b # ys)"
    and "IsValidLuhn (xs @ a # b # ys)" "IsValidLuhn (xs @ b # a # ys)"
  shows "a = b \<or> {a, b} = {48, 57}"
proof -
  obtain q where q: "\<And>zs. luhn_loop (rev ys @ zs) True 0 = luhn_loop (rev ys) True 0 + luhn_loop zs q 0"
    using luhn_loop_append [of "rev ys" True] by blast
  define C where "C = luhn_loop (rev ys) True 0 + luhn_loop (rev xs) q 0"
  have e: "luhn_loop (rev (xs @ d # e # ys)) True 0 = C + (luhn_value (\<not> q) e + luhn_value q d)" for d e
    using q [of "e # d # rev xs"] by (simp add: C_def luhn_loop_Cons del: luhn_loop.simps(2))
  have "list_all digit_char (xs @ b # a # ys)" using assms(1) by simp
  then have "(C + (luhn_value (\<not> q) b + luhn_value q a)) mod 10 = 0"
      "(C + (luhn_value (\<not> q) a + luhn_value q b)) mod 10 = 0"
    using assms IsValidLuhn_mod e by metis+
  then have "(C + (luhn_value (\<not> q) b + luhn_value q a) - C) mod 10
      = (C + (luhn_value (\<not> q) a + luhn_value q b) - C) mod 10"
    by (metis mod_diff_cong)
  then show ?thesis using luhn_swap [of a b q] assms(1) by (simp add: add.commute)
qed

section \<open>The expiration date\<close>

lemma arg2_two: "n < 100 \<Longrightarrow> arg2 n = [48 + n div 10, 48 + n mod 10]"
  by (cases "n < 10") (simp_all add: arg2_def decimal_small)

lemma arg2_digits: "list_all digit_char (arg2 n)"
  using decimal_digits [of n] by (simp add: arg2_def digit_char_def)

lemma digits_clean:
  "list_all digit_char s \<Longrightarrow> filter (\<lambda>c. c \<noteq> 47) (RemoveWhitespaces s) = s"
  by (induction s) (auto simp: RemoveWhitespaces_def digit_char_def space_char_def)

lemma digits_numeric: "list_all digit_char s \<Longrightarrow> IsNumeric s"
  by (simp add: IsNumeric_def)

definition expires_ok :: "nat \<Rightarrow> nat \<Rightarrow> nat \<times> nat \<Rightarrow> bool" where
  "expires_ok month year threshold \<longleftrightarrow>
     2000 \<le> year \<and> year < 2100 \<and> 1 \<le> month \<and> month \<le> 12
     \<and> (fst threshold < year \<or> fst threshold = year \<and> snd threshold \<le> month)"

text \<open>The check of a month and a year against the current month says valid exactly for months
  1 to 12 of the years 2000 to 2099 that are not over, invalid otherwise, and never incomplete:
  writing the date and reading it back loses nothing.\<close>

theorem parsed_expire_date_right:
  "ValidateParsedExpireDate month year threshold = (if expires_ok month year threshold then Valid else Invalid)"
proof (cases "year div 100 = 20")
  case False
  then have "\<not> (2000 \<le> year \<and> year < 2100)" by auto
  then show ?thesis using False by (auto simp: ValidateParsedExpireDate_def expires_ok_def)
next
  case True
  then have y: "2000 \<le> year" "year < 2100" "2000 + year mod 100 = year"
    using div_mult_mod_eq [of year 100] by auto
  define s where "s = arg2 month @ arg2 (year mod 100)"
  have d: "list_all digit_char s" by (simp add: s_def arg2_digits)
  have v: "ValidateParsedExpireDate month year threshold = fst (ValidateExpireDate s threshold)"
    using True by (simp add: ValidateParsedExpireDate_def s_def)
  have yy: "arg2 (year mod 100) = [48 + year mod 100 div 10, 48 + year mod 100 mod 10]"
    by (simp add: arg2_two)
  show ?thesis
  proof (cases "month < 100")
    case m: True
    have s: "s = [48 + month div 10, 48 + month mod 10, 48 + year mod 100 div 10, 48 + year mod 100 mod 10]"
      using m by (simp add: s_def yy arg2_two)
    have int: "toInt [48 + month div 10, 48 + month mod 10] = month"
        "toInt [48 + year mod 100 div 10, 48 + year mod 100 mod 10] = year mod 100"
      by (simp_all add: toInt_def)
    show ?thesis
    proof (cases "month \<ge> 20")
      case True
      then have "fst (ValidateExpireDate s threshold) = Invalid"
        unfolding ValidateExpireDate_def digits_clean [OF d] using digits_numeric [OF d]
        by (simp add: s Let_def) auto
      then show ?thesis using v True by (simp add: expires_ok_def)
    next
      case False
      then have "\<not> 48 + month div 10 > 49" by auto
      then have "fst (ValidateExpireDate s threshold) = (if expires_ok month year threshold then Valid else Invalid)"
        unfolding ValidateExpireDate_def digits_clean [OF d] using digits_numeric [OF d] int y
        by (cases threshold) (auto simp: s Let_def expires_ok_def)
      then show ?thesis using v by simp
    qed
  next
    case False
    then have l: "5 \<le> length s" using decimal_length [of month] by (simp add: s_def yy) (simp add: arg2_def)
    then have "fst (ValidateExpireDate s threshold) = Invalid"
      unfolding ValidateExpireDate_def digits_clean [OF d] using digits_numeric [OF d]
      by (simp add: Let_def)
    then show ?thesis using v False by (simp add: expires_ok_def)
  qed
qed

section \<open>Properties\<close>

text \<open>C21: The checksum finds the usual typing errors in a number that passes: changing any one digit,
  the last one included, makes it fail; exchanging two different neighbouring digits makes it fail
  exactly when they are not 0 and 9. Every sequence of digits has exactly one check digit that can
  follow it.\<close>

theorem luhn_finds_errors:
  assumes "list_all digit_char s"
  shows "(IsValidLuhn s \<longrightarrow> (\<forall>i < length s. \<forall>c. digit_char c \<and> c \<noteq> s ! i \<longrightarrow> \<not> IsValidLuhn (s[i := c])))
    \<and> (IsValidLuhn s \<longrightarrow> (\<forall>i. Suc i < length s \<and> s ! i \<noteq> s ! Suc i \<longrightarrow>
        (IsValidLuhn (s[i := s ! Suc i, Suc i := s ! i]) \<longleftrightarrow> {s ! i, s ! Suc i} = {48, 57})))
    \<and> (\<exists>!c. digit_char c \<and> IsValidLuhn (s @ [c]))"
proof (intro conjI impI allI)
  fix i c assume s: "IsValidLuhn s" "i < length s" "digit_char c \<and> c \<noteq> s ! i"
  have split: "s = take i s @ s ! i # drop (Suc i) s" using s(2) by (rule id_take_nth_drop)
  moreover have "s[i := c] = take i s @ c # drop (Suc i) s" using s(2) by (rule upd_conv_take_nth_drop)
  moreover have "list_all digit_char (take i s @ s ! i # drop (Suc i) s)" by (rule subst [OF split, of "list_all digit_char"]) (rule assms)
  ultimately show "\<not> IsValidLuhn (s[i := c])"
    using luhn_single [of "take i s" "s ! i" "drop (Suc i) s" c] s(1,3) by (metis list_all_append list.pred_inject(2))
next
  fix i assume s: "IsValidLuhn s" "Suc i < length s \<and> s ! i \<noteq> s ! Suc i"
  have split: "s = take i s @ s ! i # s ! Suc i # drop (Suc (Suc i)) s"
    using s(2) by (metis Cons_nth_drop_Suc Suc_lessD id_take_nth_drop)
  have swap: "s[i := s ! Suc i, Suc i := s ! i] = take i s @ s ! Suc i # s ! i # drop (Suc (Suc i)) s"
    using s(2) by (subst split) (simp add: list_update_append nth_append)
  have digits: "list_all digit_char (take i s @ s ! i # s ! Suc i # drop (Suc (Suc i)) s)" by (rule subst [OF split, of "list_all digit_char"]) (rule assms)
  show "IsValidLuhn (s[i := s ! Suc i, Suc i := s ! i]) \<longleftrightarrow> {s ! i, s ! Suc i} = {48, 57}"
    using luhn_transposed [of "take i s" "s ! i" "s ! Suc i" "drop (Suc (Suc i)) s"] digits s split
      luhn_exchange_09 [of "take i s" "s ! i" "s ! Suc i" "drop (Suc (Suc i)) s"]
    unfolding swap by metis
next
  show "\<exists>!c. digit_char c \<and> IsValidLuhn (s @ [c])" by (rule luhn_check_digit [OF assms])
qed

text \<open>A number that passes, its last digit mistyped, and two neighbours exchanged.\<close>

lemma luhn_finds_errors_witness:
  "IsValidLuhn (qs ''79927398713'') \<and> \<not> IsValidLuhn (qs ''79927398712'') \<and> \<not> IsValidLuhn (qs ''97927398713'')"
proof -
  have v: "IsValidLuhn (qs ''79927398713'')" "list_all digit_char (qs ''79927398713'')" by code_simp+
  have u: "(qs ''79927398713'')[10 := 50] = qs ''79927398712''" "10 < length (qs ''79927398713'')"
    "50 \<noteq> qs ''79927398713'' ! 10" "digit_char 50" by code_simp+
  have w: "(qs ''79927398713'')[0 := qs ''79927398713'' ! Suc 0, Suc 0 := qs ''79927398713'' ! 0] = qs ''97927398713''"
    "Suc 0 < length (qs ''79927398713'')" "qs ''79927398713'' ! 0 = 55" "qs ''79927398713'' ! Suc 0 = 57"
    by code_simp+
  note errors = luhn_finds_errors [OF v(2)]
  have "\<not> IsValidLuhn (qs ''79927398712'')" using errors v(1) u by metis
  moreover have "\<not> IsValidLuhn (qs ''97927398713'')"
  proof -
    have "qs ''79927398713'' ! 0 \<noteq> qs ''79927398713'' ! Suc 0" "{qs ''79927398713'' ! 0, qs ''79927398713'' ! Suc 0} \<noteq> {48, 57}"
      by (auto simp: w(3,4) doubleton_eq_iff)
    then show ?thesis using errors v(1) w(1,2) by metis
  qed
  ultimately show ?thesis using v(1) by blast
qed

end
