(* ===== verification/LangTag.thy ===== *)
theory LangTag imports Complex_Main "HOL-Library.Monad_Syntax" QtStrings begin

text \<open>
  Texts with counts (\<open>lang/lang_tag.cpp\<close>, \<open>lang/lang_tag.h\<close>): the plural rules of the
  languages and how one is chosen, counts in full and shortened, and the replacement of tags in a text.

  A plural rule is a function pointer in the code; here it is a value of \<open>PluralMethod\<close>, and
  \<open>choose_plural\<close> calls it. A \<open>float64\<close> is a rational number, what is computed with
  it being exact. The six digits of \<open>QString::number(value, 'f', 6)\<close>, the separators of
  \<open>QString::arg\<close> and the generated \<open>IsNonDefaultPlural\<close> are parameters. A conversion to
  \<open>int\<close> of a number out of its range, undefined in C++, is \<open>None\<close>.
\<close>

section \<open>Plural rules\<close>

definition kShiftZero :: nat where
  "kShiftZero = 0"

definition kShiftOne :: nat where
  "kShiftOne = 1"

definition kShiftTwo :: nat where
  "kShiftTwo = 2"

definition kShiftFew :: nat where
  "kShiftFew = 3"

definition kShiftMany :: nat where
  "kShiftMany = 4"

definition kShiftOther :: nat where
  "kShiftOther = 5"

lemmas shifts = kShiftZero_def kShiftOne_def kShiftTwo_def kShiftFew_def kShiftMany_def kShiftOther_def

type_synonym plural_rule = "int \<Rightarrow> int \<Rightarrow> int \<Rightarrow> int \<Rightarrow> int \<Rightarrow> int \<Rightarrow> nat"

definition ChoosePlural1 :: plural_rule where
  "ChoosePlural1 n i v w f t =
   kShiftOther"

definition ChoosePlural2fil :: plural_rule where
  "ChoosePlural2fil n i v w f t =
   (if v = 0
      then (let mod10 = tmod i 10
          in if i = 1 \<or> i = 2 \<or> i = 3 then kShiftOne
             else if mod10 \<noteq> 4 \<and> mod10 \<noteq> 6 \<and> mod10 \<noteq> 9 then kShiftOne
             else kShiftOther)
    else (let mod10 = tmod f 10
    in if mod10 \<noteq> 4 \<and> mod10 \<noteq> 6 \<and> mod10 \<noteq> 9 then kShiftOne
       else kShiftOther))"

definition ChoosePlural2tzm :: plural_rule where
  "ChoosePlural2tzm n i v w f t =
   (if n = 0 \<or> n = 1 then kShiftOne
    else if n \<ge> 11 \<and> n \<le> 99 then kShiftOne
    else kShiftOther)"

definition ChoosePlural2is :: plural_rule where
  "ChoosePlural2is n i v w f t =
   (if t = 0
      then (let mod10 = tmod i 10; mod100 = tmod i 100
          in if mod10 = 1 \<and> mod100 \<noteq> 11 then kShiftOne
             else kShiftOther)
    else kShiftOne)"

definition ChoosePlural2mk :: plural_rule where
  "ChoosePlural2mk n i v w f t =
   (if v = 0
      then (let mod10 = tmod i 10; mod100 = tmod i 100
          in if mod10 = 1 \<and> mod100 \<noteq> 11 then kShiftOne
             else (let mod10 = tmod f 10; mod100 = tmod f 100
             in if (mod10 = 1) \<and> (mod100 \<noteq> 11) then kShiftOne
                else kShiftOther))
    else (let mod10 = tmod f 10; mod100 = tmod f 100
    in if (mod10 = 1) \<and> (mod100 \<noteq> 11) then kShiftOne
       else kShiftOther))"

definition ChoosePlural2ak :: plural_rule where
  "ChoosePlural2ak n i v w f t =
   (if n = 0 \<or> n = 1 then kShiftOne
    else kShiftOther)"

definition ChoosePlural2am :: plural_rule where
  "ChoosePlural2am n i v w f t =
   (if i = 0 \<or> n = 1 then kShiftOne
    else kShiftOther)"

definition ChoosePlural2hy :: plural_rule where
  "ChoosePlural2hy n i v w f t =
   (if i = 0 \<or> i = 1 then kShiftOne
    else kShiftOther)"

definition ChoosePlural2si :: plural_rule where
  "ChoosePlural2si n i v w f t =
   (if n = 0 \<or> n = 1 then kShiftOne
    else if i = 0 \<and> f = 1 then kShiftOne
    else kShiftOther)"

definition ChoosePlural2bh :: plural_rule where
  "ChoosePlural2bh n i v w f t =
   (if n = 0 \<or> n = 1 then kShiftOne
    else kShiftOther)"

definition ChoosePlural2af :: plural_rule where
  "ChoosePlural2af n i v w f t =
   (if n = 1 then kShiftOne
    else kShiftOther)"

definition ChoosePlural2ast :: plural_rule where
  "ChoosePlural2ast n i v w f t =
   (if i = 1 \<and> v = 0 then kShiftOne
    else kShiftOther)"

definition ChoosePlural2da :: plural_rule where
  "ChoosePlural2da n i v w f t =
   (if n = 1 then kShiftOne
    else if t \<noteq> 0 \<and> ((i = 0) \<or> (i = 1)) then kShiftOne
    else kShiftOther)"

definition ChoosePlural3lv :: plural_rule where
  "ChoosePlural3lv n i v w f t =
   (let nmod10 = tmod n 10; nmod100 = tmod n 100; fmod10 = tmod f 10; fmod100 = tmod f 100
    in if nmod10 = 0 then kShiftZero
       else if (nmod100 \<ge> 11) \<and> (nmod100 \<le> 19) then kShiftZero
       else if (v = 2) \<and> (fmod100 \<ge> 11) \<and> (fmod100 \<le> 19) then kShiftZero
       else if (nmod10 = 1) \<and> (nmod100 \<noteq> 11) then kShiftOne
       else if (v = 2) \<and> (fmod10 = 1) \<and> (fmod100 \<noteq> 11) then kShiftOne
       else if (v \<noteq> 2) \<and> (fmod10 = 1) then kShiftOne
       else kShiftOther)"

definition ChoosePlural3ksh :: plural_rule where
  "ChoosePlural3ksh n i v w f t =
   (if n = 0 then kShiftZero
    else if n = 1 then kShiftOne
    else kShiftOther)"

definition ChoosePlural3lag :: plural_rule where
  "ChoosePlural3lag n i v w f t =
   (if n = 0 then kShiftZero
    else if (n \<noteq> 0) \<and> ((i = 0) \<or> (i = 1)) then kShiftOne
    else kShiftOther)"

definition ChoosePlural3kw :: plural_rule where
  "ChoosePlural3kw n i v w f t =
   (if n = 1 then kShiftOne
    else if n = 2 then kShiftTwo
    else kShiftOther)"

definition ChoosePlural3bs :: plural_rule where
  "ChoosePlural3bs n i v w f t =
   (if v = 0
      then (let mod10 = tmod i 10; mod100 = tmod i 100
          in if (mod10 \<ge> 2) \<and> (mod10 \<le> 4) \<and> (mod100 < 12 \<or> mod100 > 14) then kShiftFew
             else if (mod10 = 1) \<and> (mod100 \<noteq> 11) then kShiftOne
             else kShiftOther)
    else (let mod10 = tmod f 10; mod100 = tmod f 100
    in if (mod10 \<ge> 2) \<and> (mod10 \<le> 4) \<and> (mod100 < 12 \<or> mod100 > 14) then kShiftFew
       else if (mod10 = 1) \<and> (mod100 \<noteq> 11) then kShiftOne
       else kShiftOther))"

definition ChoosePlural3shi :: plural_rule where
  "ChoosePlural3shi n i v w f t =
   (if i = 0 \<or> n = 1 then kShiftOne
    else if n \<ge> 2 \<and> n \<le> 10 then kShiftFew
    else kShiftOther)"

definition ChoosePlural3mo :: plural_rule where
  "ChoosePlural3mo n i v w f t =
   (if v = 0
      then (let mod100 = tmod n 100
          in if i = 1 then kShiftOne
             else if n = 0 then kShiftFew
             else if (n \<noteq> 1) \<and> (mod100 \<ge> 1) \<and> (mod100 \<le> 19) then kShiftFew
             else kShiftOther)
    else kShiftFew)"

definition ChoosePlural4be :: plural_rule where
  "ChoosePlural4be n i v w f t =
   (let mod10 = tmod n 10; mod100 = tmod n 100
    in if (mod10 \<ge> 2) \<and> (mod10 \<le> 4) \<and> (mod100 < 12 \<or> mod100 > 14) then kShiftFew
       else if (mod10 = 1) \<and> (mod100 \<noteq> 11) then kShiftOne
       else if mod10 = 0 then kShiftMany
       else if (mod10 \<ge> 5) \<and> (mod10 \<le> 9) then kShiftMany
       else if (mod100 \<ge> 11) \<and> (mod100 \<le> 14) then kShiftMany
       else kShiftOther)"

definition ChoosePlural4ru :: plural_rule where
  "ChoosePlural4ru n i v w f t =
   (if v = 0
      then (let mod10 = tmod i 10; mod100 = tmod i 100
          in if (mod10 \<ge> 2) \<and> (mod10 \<le> 4) \<and> (mod100 < 12 \<or> mod100 > 14) then kShiftFew
             else if (mod10 = 1) \<and> (mod100 \<noteq> 11) then kShiftOne
             else kShiftMany)
    else kShiftOther)"

definition ChoosePlural4pl :: plural_rule where
  "ChoosePlural4pl n i v w f t =
   (if v = 0
      then (if i = 1 then kShiftOne
          else (let mod10 = tmod i 10; mod100 = tmod i 100
          in if (mod10 \<ge> 2) \<and> (mod10 \<le> 4) \<and> (mod100 < 12 \<or> mod100 > 14) then kShiftFew
             else kShiftMany))
    else kShiftOther)"

definition ChoosePlural4lt :: plural_rule where
  "ChoosePlural4lt n i v w f t =
   (let mod10 = tmod n 10; mod100 = tmod n 100
    in if (mod10 \<ge> 2) \<and> (mod10 \<le> 9) \<and> (mod100 < 11 \<or> mod100 > 19) then kShiftFew
       else if (mod10 = 1) \<and> (mod100 \<noteq> 11) then kShiftOne
       else if f \<noteq> 0 then kShiftMany
       else kShiftOther)"

definition ChoosePlural4cs :: plural_rule where
  "ChoosePlural4cs n i v w f t =
   (if v = 0
      then (if i = 1 then kShiftOne
          else if i \<ge> 2 \<and> i \<le> 4 then kShiftFew
          else kShiftOther)
    else kShiftMany)"

definition ChoosePlural4gd :: plural_rule where
  "ChoosePlural4gd n i v w f t =
   (if n = 1 \<or> n = 11 then kShiftOne
    else if n = 2 \<or> n = 12 then kShiftTwo
    else if n \<ge> 3 \<and> n \<le> 10 then kShiftFew
    else if n \<ge> 13 \<and> n \<le> 19 then kShiftFew
    else kShiftOther)"

definition ChoosePlural4dsb :: plural_rule where
  "ChoosePlural4dsb n i v w f t =
   (if v = 0
      then (let imod100 = tmod i 100
          in if imod100 = 1 then kShiftOne
             else if imod100 = 2 then kShiftTwo
             else if imod100 = 3 \<or> imod100 = 4 then kShiftFew
             else (let fmod100 = tmod f 100
             in if fmod100 = 1 then kShiftOne
                else if fmod100 = 2 then kShiftTwo
                else if fmod100 = 3 \<or> fmod100 = 4 then kShiftFew
                else kShiftOther))
    else (let fmod100 = tmod f 100
    in if fmod100 = 1 then kShiftOne
       else if fmod100 = 2 then kShiftTwo
       else if fmod100 = 3 \<or> fmod100 = 4 then kShiftFew
       else kShiftOther))"

definition ChoosePlural4sl :: plural_rule where
  "ChoosePlural4sl n i v w f t =
   (if v = 0
      then (let imod100 = tmod i 100
          in if imod100 = 3 \<or> imod100 = 4 then kShiftFew
             else if imod100 = 1 then kShiftOne
             else if imod100 = 2 then kShiftTwo
             else kShiftOther)
    else kShiftFew)"

definition ChoosePlural4he :: plural_rule where
  "ChoosePlural4he n i v w f t =
   (if v = 0
      then (if i = 1 then kShiftOne
          else if i = 2 then kShiftTwo
          else if (n \<noteq> 0) \<and> (n \<noteq> 10) \<and> (tmod n 10 = 0) then kShiftMany
          else kShiftOther)
    else kShiftOther)"

definition ChoosePlural4mt :: plural_rule where
  "ChoosePlural4mt n i v w f t =
   (let mod100 = tmod n 100
    in if n = 1 then kShiftOne
       else if n = 0 then kShiftFew
       else if mod100 \<ge> 2 \<and> mod100 \<le> 10 then kShiftFew
       else if mod100 \<ge> 11 \<and> mod100 \<le> 19 then kShiftMany
       else kShiftOther)"

definition ChoosePlural5gv :: plural_rule where
  "ChoosePlural5gv n i v w f t =
   (if v = 0
      then (let mod10 = tmod i 10; mod20 = tmod i 20
          in if mod10 = 1 then kShiftOne
             else if mod10 = 2 then kShiftTwo
             else if mod20 = 0 then kShiftFew
             else kShiftOther)
    else kShiftMany)"

definition ChoosePlural5br :: plural_rule where
  "ChoosePlural5br n i v w f t =
   (let mod10 = tmod n 10; mod100 = tmod n 100
    in if (mod10 = 1) \<and> (mod100 \<noteq> 11) \<and> (mod100 \<noteq> 71) \<and> (mod100 \<noteq> 91) then kShiftOne
       else if (mod10 = 2) \<and> (mod100 \<noteq> 12) \<and> (mod100 \<noteq> 72) \<and> (mod100 \<noteq> 92) then kShiftTwo
       else if ((mod10 = 3) \<or> (mod10 = 4) \<or> (mod10 = 9))
            \<and> ((mod100 < 10) \<or> (mod100 > 19)) \<and> ((mod100 < 70) \<or> (mod100 > 79))
            \<and> ((mod100 < 90) \<or> (mod100 > 99)) then kShiftFew
       else if (n \<noteq> 0) \<and> (tmod n 1000000 = 0) then kShiftMany
       else kShiftOther)"

definition ChoosePlural5ga :: plural_rule where
  "ChoosePlural5ga n i v w f t =
   (if n = 1 then kShiftOne
    else if n = 2 then kShiftTwo
    else if n \<ge> 3 \<and> n \<le> 6 then kShiftFew
    else if n \<ge> 7 \<and> n \<le> 10 then kShiftMany
    else kShiftOther)"

definition ChoosePlural6ar :: plural_rule where
  "ChoosePlural6ar n i v w f t =
   (if n = 0 then kShiftZero
    else if n = 1 then kShiftOne
    else if n = 2 then kShiftTwo
    else if n < 0 then kShiftOther
    else (let mod100 = tmod n 100
    in if mod100 \<ge> 3 \<and> mod100 \<le> 10 then kShiftFew
       else if mod100 \<ge> 11 \<and> mod100 \<le> 99 then kShiftMany
       else kShiftOther))"

definition ChoosePlural6cy :: plural_rule where
  "ChoosePlural6cy n i v w f t =
   (if n = 0 then kShiftZero
    else if n = 1 then kShiftOne
    else if n = 2 then kShiftTwo
    else if n = 3 then kShiftFew
    else if n = 6 then kShiftMany
    else kShiftOther)"

lemmas plural_rules =
  ChoosePlural1_def ChoosePlural2fil_def ChoosePlural2tzm_def ChoosePlural2is_def
  ChoosePlural2mk_def ChoosePlural2ak_def ChoosePlural2am_def ChoosePlural2hy_def
  ChoosePlural2si_def ChoosePlural2bh_def ChoosePlural2af_def ChoosePlural2ast_def
  ChoosePlural2da_def ChoosePlural3lv_def ChoosePlural3ksh_def ChoosePlural3lag_def
  ChoosePlural3kw_def ChoosePlural3bs_def ChoosePlural3shi_def ChoosePlural3mo_def
  ChoosePlural4be_def ChoosePlural4ru_def ChoosePlural4pl_def ChoosePlural4lt_def
  ChoosePlural4cs_def ChoosePlural4gd_def ChoosePlural4dsb_def ChoosePlural4sl_def
  ChoosePlural4he_def ChoosePlural4mt_def ChoosePlural5gv_def ChoosePlural5br_def
  ChoosePlural5ga_def ChoosePlural6ar_def ChoosePlural6cy_def

datatype PluralMethod =
    Plural1 | Plural2fil | Plural2tzm | Plural2is | Plural2mk | Plural2ak | Plural2am | Plural2hy |
    Plural2si | Plural2bh | Plural2af | Plural2ast | Plural2da | Plural3lv | Plural3ksh |
    Plural3lag | Plural3kw | Plural3bs | Plural3shi | Plural3mo | Plural4be | Plural4ru |
    Plural4pl | Plural4lt | Plural4cs | Plural4gd | Plural4dsb | Plural4sl | Plural4he |
    Plural4mt | Plural5gv | Plural5br | Plural5ga | Plural6ar | Plural6cy

fun choose_plural :: "PluralMethod \<Rightarrow> plural_rule" where
  "choose_plural Plural1 = ChoosePlural1"
| "choose_plural Plural2fil = ChoosePlural2fil"
| "choose_plural Plural2tzm = ChoosePlural2tzm"
| "choose_plural Plural2is = ChoosePlural2is"
| "choose_plural Plural2mk = ChoosePlural2mk"
| "choose_plural Plural2ak = ChoosePlural2ak"
| "choose_plural Plural2am = ChoosePlural2am"
| "choose_plural Plural2hy = ChoosePlural2hy"
| "choose_plural Plural2si = ChoosePlural2si"
| "choose_plural Plural2bh = ChoosePlural2bh"
| "choose_plural Plural2af = ChoosePlural2af"
| "choose_plural Plural2ast = ChoosePlural2ast"
| "choose_plural Plural2da = ChoosePlural2da"
| "choose_plural Plural3lv = ChoosePlural3lv"
| "choose_plural Plural3ksh = ChoosePlural3ksh"
| "choose_plural Plural3lag = ChoosePlural3lag"
| "choose_plural Plural3kw = ChoosePlural3kw"
| "choose_plural Plural3bs = ChoosePlural3bs"
| "choose_plural Plural3shi = ChoosePlural3shi"
| "choose_plural Plural3mo = ChoosePlural3mo"
| "choose_plural Plural4be = ChoosePlural4be"
| "choose_plural Plural4ru = ChoosePlural4ru"
| "choose_plural Plural4pl = ChoosePlural4pl"
| "choose_plural Plural4lt = ChoosePlural4lt"
| "choose_plural Plural4cs = ChoosePlural4cs"
| "choose_plural Plural4gd = ChoosePlural4gd"
| "choose_plural Plural4dsb = ChoosePlural4dsb"
| "choose_plural Plural4sl = ChoosePlural4sl"
| "choose_plural Plural4he = ChoosePlural4he"
| "choose_plural Plural4mt = ChoosePlural4mt"
| "choose_plural Plural5gv = ChoosePlural5gv"
| "choose_plural Plural5br = ChoosePlural5br"
| "choose_plural Plural5ga = ChoosePlural5ga"
| "choose_plural Plural6ar = ChoosePlural6ar"
| "choose_plural Plural6cy = ChoosePlural6cy"

definition GeneratePluralRulesMap :: "(string \<times> PluralMethod) list" where
  "GeneratePluralRulesMap = [
    (''fil'', Plural2fil), (''tl'', Plural2fil), (''tzm'', Plural2tzm), (''is'', Plural2is),
    (''mk'', Plural2mk), (''ak'', Plural2ak), (''guw'', Plural2ak), (''ln'', Plural2ak),
    (''mg'', Plural2ak), (''nso'', Plural2ak), (''pa'', Plural2ak), (''ti'', Plural2ak),
    (''wa'', Plural2ak), (''am'', Plural2am), (''as'', Plural2am), (''bn'', Plural2am),
    (''gu'', Plural2am), (''hi'', Plural2am), (''kn'', Plural2am), (''mr'', Plural2am),
    (''fa'', Plural2am), (''zu'', Plural2am), (''hy'', Plural2hy), (''fr'', Plural2hy),
    (''ff'', Plural2hy), (''kab'', Plural2hy), (''pt'', Plural2hy), (''si'', Plural2si),
    (''bh'', Plural2bh), (''bho'', Plural2bh), (''af'', Plural2af), (''sq'', Plural2af),
    (''asa'', Plural2af), (''az'', Plural2af), (''eu'', Plural2af), (''bem'', Plural2af),
    (''bez'', Plural2af), (''brx'', Plural2af), (''bg'', Plural2af), (''ckb'', Plural2af),
    (''ce'', Plural2af), (''chr'', Plural2af), (''cgg'', Plural2af), (''dv'', Plural2af),
    (''eo'', Plural2af), (''ee'', Plural2af), (''fo'', Plural2af), (''fur'', Plural2af),
    (''ka'', Plural2af), (''el'', Plural2af), (''ha'', Plural2af), (''haw'', Plural2af),
    (''hu'', Plural2af), (''kaj'', Plural2af), (''kkj'', Plural2af), (''kl'', Plural2af),
    (''ks'', Plural2af), (''kk'', Plural2af), (''ku'', Plural2af), (''ky'', Plural2af),
    (''lb'', Plural2af), (''jmc'', Plural2af), (''ml'', Plural2af), (''mas'', Plural2af),
    (''mgo'', Plural2af), (''mn'', Plural2af), (''nah'', Plural2af), (''ne'', Plural2af),
    (''nnh'', Plural2af), (''jgo'', Plural2af), (''nd'', Plural2af), (''no'', Plural2af),
    (''nb'', Plural2af), (''nn'', Plural2af), (''ny'', Plural2af), (''nyn'', Plural2af),
    (''or'', Plural2af), (''om'', Plural2af), (''os'', Plural2af), (''pap'', Plural2af),
    (''ps'', Plural2af), (''rm'', Plural2af), (''rof'', Plural2af), (''rwk'', Plural2af),
    (''ssy'', Plural2af), (''saq'', Plural2af), (''seh'', Plural2af), (''ksb'', Plural2af),
    (''sn'', Plural2af), (''sd'', Plural2af), (''xog'', Plural2af), (''so'', Plural2af),
    (''nr'', Plural2af), (''sdh'', Plural2af), (''st'', Plural2af), (''es'', Plural2af),
    (''ss'', Plural2af), (''gsw'', Plural2af), (''syr'', Plural2af), (''ta'', Plural2af),
    (''te'', Plural2af), (''teo'', Plural2af), (''tig'', Plural2af), (''ts'', Plural2af),
    (''tn'', Plural2af), (''tr'', Plural2af), (''tk'', Plural2af), (''kcg'', Plural2af),
    (''ug'', Plural2af), (''uz'', Plural2af), (''ve'', Plural2af), (''vo'', Plural2af),
    (''vun'', Plural2af), (''wae'', Plural2af), (''xh'', Plural2af), ('''', Plural2ast),
    (''ast'', Plural2ast), (''ca'', Plural2ast), (''nl'', Plural2ast), (''en'', Plural2ast),
    (''et'', Plural2ast), (''pt_PT'', Plural2ast), (''fi'', Plural2ast), (''gl'', Plural2ast),
    (''lg'', Plural2ast), (''de'', Plural2ast), (''io'', Plural2ast), (''ia'', Plural2ast),
    (''it'', Plural2ast), (''sc'', Plural2ast), (''scn'', Plural2ast), (''sw'', Plural2ast),
    (''sv'', Plural2ast), (''ur'', Plural2ast), (''fy'', Plural2ast), (''ji'', Plural2ast),
    (''yi'', Plural2ast), (''da'', Plural2da), (''lv'', Plural3lv), (''prg'', Plural3lv),
    (''ksh'', Plural3ksh), (''lag'', Plural3lag), (''kw'', Plural3kw), (''smn'', Plural3kw),
    (''iu'', Plural3kw), (''smj'', Plural3kw), (''naq'', Plural3kw), (''se'', Plural3kw),
    (''smi'', Plural3kw), (''sms'', Plural3kw), (''sma'', Plural3kw), (''bs'', Plural3bs),
    (''hr'', Plural3bs), (''sr'', Plural3bs), (''sh'', Plural3bs), (''sr_Latn'', Plural3bs),
    (''shi'', Plural3shi), (''mo'', Plural3mo), (''ro_MD'', Plural3mo), (''ro'', Plural3mo),
    (''be'', Plural4be), (''ru'', Plural4ru), (''uk'', Plural4ru), (''pl'', Plural4pl),
    (''lt'', Plural4lt), (''cs'', Plural4cs), (''sk'', Plural4cs), (''gd'', Plural4gd),
    (''dsb'', Plural4dsb), (''hsb'', Plural4dsb), (''sl'', Plural4sl), (''he'', Plural4he),
    (''iw'', Plural4he), (''mt'', Plural4mt), (''gv'', Plural5gv), (''br'', Plural5br),
    (''ga'', Plural5ga), (''ar'', Plural6ar), (''ars'', Plural6ar), (''cy'', Plural6cy)]"

section \<open>The rule of a language\<close>

text \<open>A \<open>char\<close> is signed, eight bits of a code unit are kept, and the conversion to \<open>uint64\<close>
  extends the sign. \<open>QChar::toLower\<close> leaves what is no letter of ASCII as it is.\<close>

definition to_char :: "nat \<Rightarrow> int" where
  "to_char u = (int u + 128) mod 256 - 128"

definition ConvertKeyChar :: "int \<Rightarrow> int" where
  "ConvertKeyChar ch = (if ch = 95 then 45 else if 65 \<le> ch \<and> ch \<le> 90 then ch + 32 else ch)"

definition push_key :: "64 word \<Rightarrow> int \<Rightarrow> 64 word" where
  "push_key key c = push_bit 8 key OR word_of_int c"

definition PluralsKey :: "string \<Rightarrow> 64 word" where
  "PluralsKey value = foldl (\<lambda>data ch. push_key data (ConvertKeyChar (to_char (of_char ch)))) 0 value"

fun key_loop :: "qstring \<Rightarrow> 64 word \<Rightarrow> 64 word \<Rightarrow> 64 word \<times> 64 word" where
  "key_loop [] parent key = (parent, key)"
| "key_loop (ch # languageId) parent key =
     (let converted = ConvertKeyChar (to_char ch);
          parent = (if converted = 45 \<and> parent = 0 then key else parent)
      in key_loop languageId parent (push_key key converted))"

definition find_rule :: "64 word \<Rightarrow> PluralMethod option" where
  "find_rule = map_of (map (\<lambda>(name, rule). (PluralsKey name, rule)) GeneratePluralRulesMap)"

definition UpdatePluralRules :: "qstring \<Rightarrow> PluralMethod" where
  "UpdatePluralRules languageId =
     (let (parent, key) = key_loop languageId 0 0;
          i = (let result = find_rule key
               in if result \<noteq> None \<or> parent = 0 then result else find_rule parent)
      in case i of None \<Rightarrow> Plural1 | Some rule \<Rightarrow> rule)"

definition ChoosePluralDefault :: PluralMethod where
  "ChoosePluralDefault = Plural2ast"

section \<open>Tags\<close>

definition kTextCommand :: nat where
  "kTextCommand = 16"

definition kTextCommandLangTag :: nat where
  "kTextCommandLangTag = 32"

definition kTagReplacementSize :: nat where
  "kTagReplacementSize = 4"

function find_tag :: "qstring \<Rightarrow> nat \<Rightarrow> nat \<Rightarrow> nat option" where
  "find_tag original tag ch =
     (if length original \<le> ch then None
      else if original ! ch = kTextCommand
        then (if ch + kTagReplacementSize \<le> length original
                 \<and> original ! (ch + 1) = kTextCommandLangTag
                 \<and> original ! (ch + 3) = kTextCommand
              then (if original ! (ch + 2) = 32 + tag then Some ch
                    else find_tag original tag (ch + kTagReplacementSize))
              else find_tag original tag (ch + 1))
      else find_tag original tag (ch + 1))"
  by pat_completeness auto

termination find_tag
  by (relation "measure (\<lambda>(original, tag, ch). length original - ch)") (auto simp: kTagReplacementSize_def)

declare find_tag.simps [simp del]

definition FindTagReplacementPosition :: "qstring \<Rightarrow> nat \<Rightarrow> int" where
  "FindTagReplacementPosition original tag =
     (case find_tag original tag 0 of None \<Rightarrow> -1 | Some position \<Rightarrow> int position)"

definition ReplaceTag_Replace :: "qstring \<Rightarrow> qstring \<Rightarrow> nat \<Rightarrow> qstring" where
  "ReplaceTag_Replace original replacement replacementPosition =
     (let result = (if replacementPosition > 0 then take replacementPosition original else []);
          result = result @ replacement
      in if replacementPosition + kTagReplacementSize < length original
         then result @ drop (replacementPosition + kTagReplacementSize) original else result)"

definition ReplaceTag_Call :: "qstring \<Rightarrow> nat \<Rightarrow> qstring \<Rightarrow> qstring" where
  "ReplaceTag_Call original tag replacement =
     (let replacementPosition = FindTagReplacementPosition original tag
      in if replacementPosition < 0 then original
         else ReplaceTag_Replace original replacement (nat replacementPosition))"

section \<open>Counts\<close>

definition FormatDouble :: "(rat \<Rightarrow> qstring) \<Rightarrow> rat \<Rightarrow> qstring" where
  "FormatDouble number_f6 value =
     (let result = rev (dropWhile (\<lambda>c. c = 48) (rev (number_f6 value)))
      in if result \<noteq> [] \<and> last result = 46 then butlast result else result)"

definition NonZeroPartToInt :: "qstring \<Rightarrow> nat" where
  "NonZeroPartToInt value =
     (let zeros = length (takeWhile (\<lambda>ch. ch = 48) value)
      in if zeros > 0 then (if zeros < length value then toInt (drop zeros value) else 0)
         else (if value = [] then 0 else toInt value))"

record ShortenedCount =
  sc_number :: int
  sc_string :: qstring

definition shorten :: "int \<Rightarrow> int \<Rightarrow> char \<Rightarrow> ShortenedCount" where
  "shorten number divider multiplier =
     (let sign = (if number > 0 then 1 else -1);
          rounded = tdiv \<bar>number\<bar> (tdiv divider 10)
      in \<lparr>sc_number = rounded * divider,
          sc_string = qnumber (tdiv (sign * rounded) 10)
            @ (if tmod rounded 10 \<noteq> 0 then 46 # qnumber (tmod rounded 10) @ [of_char multiplier]
               else [of_char multiplier])\<rparr>)"

definition FormatCountToShort :: "int \<Rightarrow> ShortenedCount" where
  "FormatCountToShort number =
     (if \<bar>number\<bar> \<ge> 1000000 then shorten number 1000000 CHR ''M''
      else if \<bar>number\<bar> \<ge> 10000 then shorten number 1000 CHR ''K''
      else \<lparr>sc_number = number, sc_string = qnumber number\<rparr>)"

definition FormatCountDecimal :: "(int \<Rightarrow> qstring) \<Rightarrow> int \<Rightarrow> qstring" where
  "FormatCountDecimal arg_L1 number = arg_L1 number"

datatype lngtag_count = lt_count | lt_count_short | lt_count_decimal

record PluralResult =
  pr_keyShift :: nat
  pr_replacement :: qstring

text \<open>Conversion of a \<open>float64\<close> without fraction to \<open>int\<close>, and \<open>qRound\<close>.\<close>

definition to_int :: "int \<Rightarrow> int option" where
  "to_int x = (if in_i32 x then Some x else None)"

definition qRound :: "rat \<Rightarrow> int option" where
  "qRound value = to_int \<lfloor>value + 1 / 2\<rfloor>"

definition operands :: "(rat \<Rightarrow> qstring) \<Rightarrow> rat \<Rightarrow> (bool \<times> int \<times> int \<times> int \<times> int \<times> int) option" where
  "operands number_f6 n =
     do { i \<leftarrow> to_int \<lfloor>n\<rfloor>;
          c \<leftarrow> to_int \<lceil>n\<rceil>;
          let integer = (c = i);
              formatted = (if integer then [] else FormatDouble number_f6 n);
              dot = length (takeWhile (\<lambda>ch. ch \<noteq> 46) formatted);
              fraction = (if dot < length formatted then drop (dot + 1) formatted else []);
              v = int (length fraction); w = v;
              f = int (NonZeroPartToInt fraction); t = f
          in Some (integer, i, v, w, f, t) }"

definition Plural :: "(rat \<Rightarrow> qstring) \<Rightarrow> (int \<Rightarrow> qstring) \<Rightarrow> bool \<Rightarrow> PluralMethod
    \<Rightarrow> rat \<Rightarrow> lngtag_count \<Rightarrow> PluralResult option" where
  "Plural number_f6 arg_L1 IsNonDefaultPlural ChoosePlural value type =
     do { shortened \<leftarrow>
            (if type = lt_count_short then map_option FormatCountToShort (qRound value)
             else Some \<lparr>sc_number = 0, sc_string = []\<rparr>);
          let n = \<bar>if sc_number shortened \<noteq> 0 then of_int (sc_number shortened) else value\<bar>;
          (integer, i, v, w, f, t) \<leftarrow> operands number_f6 n;
          let useNonDefaultPlural = (ChoosePlural \<noteq> ChoosePluralDefault \<and> IsNonDefaultPlural);
          let shift = choose_plural (if useNonDefaultPlural then ChoosePlural else ChoosePluralDefault)
            (if integer then i else -1) i v w f t;
          if integer
          then do { round \<leftarrow> qRound value;
                    Some (if type = lt_count_short
                          then \<lparr>pr_keyShift = shift, pr_replacement = sc_string shortened\<rparr>
                          else if type = lt_count_decimal
                          then \<lparr>pr_keyShift = shift, pr_replacement = FormatCountDecimal arg_L1 round\<rparr>
                          else \<lparr>pr_keyShift = shift, pr_replacement = qnumber round\<rparr>) }
          else Some \<lparr>pr_keyShift = shift, pr_replacement = FormatDouble number_f6 value\<rparr> }"


section \<open>The categories of a rule\<close>

definition plural_operands :: "int \<Rightarrow> int \<Rightarrow> int \<Rightarrow> int \<Rightarrow> int \<Rightarrow> int \<Rightarrow> bool" where
  "plural_operands n i v w f t \<longleftrightarrow>
     n = i \<and> 0 \<le> i \<and> v = 0 \<and> w = 0 \<and> f = 0 \<and> t = 0
     \<or> n = -1 \<and> 0 \<le> i \<and> 0 \<le> v \<and> v \<le> 6 \<and> w = v \<and> 0 \<le> f \<and> f < 10 ^ nat v \<and> t = f
       \<and> (v \<noteq> 0 \<longrightarrow> f mod 10 \<noteq> 0)"

fun categories :: "PluralMethod \<Rightarrow> nat list" where
  "categories Plural1 = [kShiftOther]"
| "categories Plural3lv = [kShiftZero, kShiftOne, kShiftOther]"
| "categories Plural3ksh = [kShiftZero, kShiftOne, kShiftOther]"
| "categories Plural3lag = [kShiftZero, kShiftOne, kShiftOther]"
| "categories Plural3kw = [kShiftOne, kShiftTwo, kShiftOther]"
| "categories Plural3bs = [kShiftOne, kShiftFew, kShiftOther]"
| "categories Plural3shi = [kShiftOne, kShiftFew, kShiftOther]"
| "categories Plural3mo = [kShiftOne, kShiftFew, kShiftOther]"
| "categories Plural4be = [kShiftOne, kShiftFew, kShiftMany, kShiftOther]"
| "categories Plural4ru = [kShiftOne, kShiftFew, kShiftMany, kShiftOther]"
| "categories Plural4pl = [kShiftOne, kShiftFew, kShiftMany, kShiftOther]"
| "categories Plural4lt = [kShiftOne, kShiftFew, kShiftMany, kShiftOther]"
| "categories Plural4cs = [kShiftOne, kShiftFew, kShiftMany, kShiftOther]"
| "categories Plural4mt = [kShiftOne, kShiftFew, kShiftMany, kShiftOther]"
| "categories Plural4gd = [kShiftOne, kShiftTwo, kShiftFew, kShiftOther]"
| "categories Plural4dsb = [kShiftOne, kShiftTwo, kShiftFew, kShiftOther]"
| "categories Plural4sl = [kShiftOne, kShiftTwo, kShiftFew, kShiftOther]"
| "categories Plural4he = [kShiftOne, kShiftTwo, kShiftMany, kShiftOther]"
| "categories Plural5gv = [kShiftOne, kShiftTwo, kShiftFew, kShiftMany, kShiftOther]"
| "categories Plural5br = [kShiftOne, kShiftTwo, kShiftFew, kShiftMany, kShiftOther]"
| "categories Plural5ga = [kShiftOne, kShiftTwo, kShiftFew, kShiftMany, kShiftOther]"
| "categories Plural6ar = [kShiftZero, kShiftOne, kShiftTwo, kShiftFew, kShiftMany, kShiftOther]"
| "categories Plural6cy = [kShiftZero, kShiftOne, kShiftTwo, kShiftFew, kShiftMany, kShiftOther]"
| "categories _ = [kShiftOne, kShiftOther]"

lemma if_member: "a \<in> S \<Longrightarrow> b \<in> S \<Longrightarrow> (if P then a else b) \<in> S"
  by simp

lemma choose_plural_in: "choose_plural r n i v w f t \<in> set (categories r)"
  by (induction r; unfold choose_plural.simps plural_rules Let_def; (intro if_member)?; simp)

definition sample_operands :: "(int \<times> int \<times> int \<times> int \<times> int \<times> int) list" where
  "sample_operands =
     map (\<lambda>i. (i, i, 0, 0, 0, 0)) ([0, 1, 2, 3, 4, 5, 6, 7, 8, 9, 10, 11, 12, 13, 20] @ [100, 1000000])
     @ [(-1, 0, 1, 1, 5, 5), (-1, 2, 1, 1, 4, 4)]"

lemma samples_consistent:
  "\<forall>(n, i, v, w, f, t) \<in> set sample_operands. plural_operands n i v w f t"
  by (simp add: sample_operands_def plural_operands_def)

definition samples_reach :: "PluralMethod \<Rightarrow> bool" where
  "samples_reach r \<longleftrightarrow>
     list_all (\<lambda>c. list_ex (\<lambda>(n, i, v, w, f, t). choose_plural r n i v w f t = c) sample_operands) (categories r)"

lemma samples_reach: "samples_reach r"
  by (induction r; code_simp)

section \<open>Operands of a number\<close>

definition f6_format :: "(rat \<Rightarrow> qstring) \<Rightarrow> bool" where
  "f6_format number_f6 \<longleftrightarrow>
     (\<forall>x \<ge> 0. \<exists>k ds. number_f6 x = decimal k @ 46 # ds \<and> length ds = 6 \<and> list_all digit_char ds)"

abbreviation strip_zeros :: "qstring \<Rightarrow> qstring" where
  "strip_zeros s \<equiv> rev (dropWhile (\<lambda>c. c = 48) (rev s))"

lemma strip_zeros_append:
  "strip_zeros (s @ 46 # ds) = s @ 46 # strip_zeros ds"
  by (simp add: dropWhile_append)

lemma strip_zeros_facts:
  "list_all digit_char (strip_zeros ds) \<and> length (strip_zeros ds) \<le> length ds
   \<and> (strip_zeros ds \<noteq> [] \<longrightarrow> last (strip_zeros ds) \<noteq> 48)" if "list_all digit_char ds"
  using that set_dropWhileD [of _ "\<lambda>c. c = 48" "rev ds"] hd_dropWhile [of "\<lambda>c. c = 48" "rev ds"]
  by (auto simp: list_all_iff last_rev length_dropWhile_le [of _ "rev ds", simplified])

lemma toInt_less: "list_all digit_char s \<Longrightarrow> toInt s < 10 ^ length s"
  by (induction s rule: rev_induct) (auto simp: toInt_def digit_char_def)

lemma toInt_zeros: "toInt (takeWhile (\<lambda>c. c = 48) s @ r) = toInt r"
  by (induction s) (simp_all add: toInt_def)

lemma NonZeroPartToInt_eq: "NonZeroPartToInt s = toInt s"
proof -
  let ?z = "takeWhile (\<lambda>c. c = 48) s"
  have "toInt s = toInt (drop (length ?z) s)"
    using toInt_zeros [of s "drop (length ?z) s"] by (metis append_take_drop_id takeWhile_eq_take)
  moreover have "toInt [] = 0" by (simp add: toInt_def)
  ultimately have e: "(if length ?z < length s then toInt (drop (length ?z) s) else 0) = toInt s"
    by (metis drop_all not_less)
  have "(if s = [] then 0 else toInt s) = toInt s"
    by (simp add: toInt_def)
  then show ?thesis unfolding NonZeroPartToInt_def Let_def e by simp
qed

lemma FormatDouble_eq:
  assumes "f6_format number_f6" "0 \<le> x"
  obtains k ds where "list_all digit_char ds" "length ds \<le> 6" "ds \<noteq> [] \<longrightarrow> last ds \<noteq> 48"
    "FormatDouble number_f6 x = decimal k @ (if ds = [] then [] else 46 # ds)"
proof -
  obtain k ds where n: "number_f6 x = decimal k @ 46 # ds" "length ds = 6" "list_all digit_char ds"
    using assms unfolding f6_format_def by blast
  let ?ds = "strip_zeros ds"
  note f = strip_zeros_facts [OF n(3)]
  have "46 \<notin> set ?ds" using f by (auto simp: list_all_iff digit_char_def)
  then have "last (46 # ?ds) = 46 \<longleftrightarrow> ?ds = []"
    by (metis last.simps last_in_set)
  then have "FormatDouble number_f6 x = decimal k @ (if ?ds = [] then [] else 46 # ?ds)"
    unfolding FormatDouble_def n(1) strip_zeros_append Let_def
    by (auto simp: butlast_append)
  then show thesis using that [of ?ds k] f n(2) by auto
qed

lemma toInt_last_digit:
  assumes "list_all digit_char s" "s \<noteq> []" "last s \<noteq> 48"
  shows "toInt s mod 10 \<noteq> 0"
proof -
  obtain r c where s: "s = r @ [c]" using assms(2) by (metis append_butlast_last_id)
  have "48 < c" "c \<le> 57" using assms by (auto simp: s digit_char_def)
  then obtain d where "c = 48 + d" "0 < d" "d < 10"
    by (intro that [of "c - 48"]) auto
  then show ?thesis by (simp add: s)
qed

lemma operands_consistent:
  assumes "f6_format number_f6" "0 \<le> x" "operands number_f6 x = Some (integer, i, v, w, f, t)"
  shows "plural_operands (if integer then i else -1) i v w f t"
proof -
  have i: "i = \<lfloor>x\<rfloor>" "0 \<le> i" and int: "integer = (\<lceil>x\<rceil> = i)"
    using assms(2,3) by (auto simp: operands_def to_int_def Let_def bind_eq_Some_conv split: if_splits)
  show ?thesis
  proof (cases integer)
    case True
    then have "v = 0" "w = 0" "f = 0" "t = 0"
      using assms(3) by (auto simp: operands_def to_int_def Let_def NonZeroPartToInt_def split: if_splits)
    then show ?thesis using True i by (simp add: plural_operands_def)
  next
    case False
    obtain k ds where ds: "list_all digit_char ds" "length ds \<le> 6" "ds \<noteq> [] \<longrightarrow> last ds \<noteq> 48"
      and fd: "FormatDouble number_f6 x = decimal k @ (if ds = [] then [] else 46 # ds)"
      by (rule FormatDouble_eq [OF assms(1,2)])
    have "\<forall>c \<in> set (decimal k). c \<noteq> 46"
      using decimal_digits [of k] by (auto simp: list_all_iff digit_char_def)
    then have "length (takeWhile (\<lambda>ch. ch \<noteq> 46) (FormatDouble number_f6 x)) = length (decimal k)"
      by (simp add: fd takeWhile_append)
    then have "(let dot = length (takeWhile (\<lambda>ch. ch \<noteq> 46) (FormatDouble number_f6 x))
        in if dot < length (FormatDouble number_f6 x) then drop (dot + 1) (FormatDouble number_f6 x) else []) = ds"
      by (simp add: fd)
    then have v: "v = int (length ds)" "w = v" and f: "f = int (toInt ds)" "t = f"
      using assms(3) False
      by (auto simp: operands_def to_int_def Let_def NonZeroPartToInt_eq split: if_splits)
    have "int (toInt ds) < int (10 ^ length ds)"
      using toInt_less [OF ds(1)] by (simp only: of_nat_less_iff)
    then have "f < 10 ^ nat v" by (simp add: v f)
    moreover have "f mod 10 = int (toInt ds mod 10)" by (simp add: f zmod_int)
    then have "v \<noteq> 0 \<longrightarrow> f mod 10 \<noteq> 0"
      using toInt_last_digit [OF ds(1)] ds(3) by (simp add: v)
    ultimately show ?thesis
      using ds(2) i False v(2) f(2) by (simp add: plural_operands_def v(1)) (simp add: f(1))
  qed
qed

section \<open>Shortened counts\<close>

lemma shorten_eq:
  fixes number :: int
  assumes "10 \<le> d" "d mod 10 = 0"
  defines "tenths \<equiv> \<bar>number\<bar> div (d div 10)"
  shows "shorten number d m = \<lparr>sc_number = tenths * d,
     sc_string = qnumber (sgn number * (tenths div 10))
       @ (if tenths mod 10 = 0 then [] else 46 # decimal (nat (tenths mod 10))) @ [of_char m]\<rparr>"
proof -
  have r: "tdiv \<bar>number\<bar> (tdiv d 10) = tenths" "0 \<le> tenths"
    using assms by (auto simp: pos_imp_zdiv_nonneg_iff)
  have "tdiv (-1 * tenths) 10 = - (tenths div 10)"
    using r(2) by (cases "tenths = 0") (auto simp: tdiv_def)
  moreover have "number = 0 \<Longrightarrow> tenths = 0" by (simp add: tenths_def)
  ultimately have s: "tdiv ((if number > 0 then 1 else -1) * tenths) 10 = sgn number * (tenths div 10)"
    using r(2) by (auto simp: sgn_if)
  have "tmod tenths 10 = tenths mod 10" using r(2) by simp
  then show ?thesis unfolding shorten_def Let_def r(1) s
    by (simp add: qnumber_def)
qed

lemma operands_int:
  "0 \<le> c \<Longrightarrow> operands number_f6 (of_int c)
     = (if in_i32 c then Some (True, c, 0, 0, 0, 0) else None)"
  by (simp add: operands_def to_int_def NonZeroPartToInt_def)

lemma qRound_int [simp]: "qRound (of_int c) = to_int c"
proof -
  have "\<lfloor>of_int c + 1 / 2 :: rat\<rfloor> = c" by (simp add: floor_unique)
  then show ?thesis by (simp add: qRound_def)
qed

text \<open>A count without fraction is shown with its decimal digits, and its key is the one the rule in
  use gives for its absolute value; a shortened count below ten thousand is treated the same.\<close>

theorem plural_of_count:
  assumes "\<bar>c\<bar> < 2 ^ 31" "kind = lt_count \<or> kind = lt_count_short \<and> \<bar>c\<bar> < 10000"
  shows "Plural number_f6 arg_L1 nonDefault rule (of_int c) kind
     = Some \<lparr>pr_keyShift = choose_plural (if nonDefault then rule else Plural2ast) \<bar>c\<bar> \<bar>c\<bar> 0 0 0 0,
             pr_replacement = qnumber c\<rparr>"
proof -
  have c: "in_i32 c" "in_i32 \<bar>c\<bar>" using assms(1) by (auto simp: in_i32_def)
  have abs: "\<bar>of_int c :: rat\<bar> = of_int \<bar>c\<bar>" by simp
  have rules: "choose_plural (if rule \<noteq> ChoosePluralDefault \<and> nonDefault then rule else ChoosePluralDefault)
      = choose_plural (if nonDefault then rule else Plural2ast)"
    by (auto simp: ChoosePluralDefault_def)
  show ?thesis using assms(2)
  proof
    assume "kind = lt_count"
    then show ?thesis using c operands_int [of "\<bar>c\<bar>" number_f6]
      by (simp add: Plural_def to_int_def rules)
  next
    assume k: "kind = lt_count_short \<and> \<bar>c\<bar> < 10000"
    then have "FormatCountToShort c = \<lparr>sc_number = c, sc_string = qnumber c\<rparr>"
      by (simp add: FormatCountToShort_def)
    then show ?thesis using c k operands_int [of "\<bar>c\<bar>" number_f6]
      by (cases "c = 0") (simp_all add: Plural_def to_int_def rules qRound_int [of 0, simplified])
  qed
qed

theorem plural_of_count_witness:
  "Plural (\<lambda>x. []) (\<lambda>k. []) True Plural4ru (of_int (- 42)) lt_count
     = Some \<lparr>pr_keyShift = kShiftFew, pr_replacement = qs ''-42''\<rparr>"
  by (subst plural_of_count)
    (simp_all add: ChoosePlural4ru_def qnumber_def decimal_small qs_def)

lemma FormatCountToShort_eq:
  assumes "10000 \<le> \<bar>number\<bar>"
  defines "d \<equiv> (if \<bar>number\<bar> \<ge> 1000000 then 1000000 else 1000 :: int)"
  shows "FormatCountToShort number = shorten number d (if \<bar>number\<bar> \<ge> 1000000 then CHR ''M'' else CHR ''K'')"
  using assms(1) by (simp add: FormatCountToShort_def d_def)

text \<open>A count from ten thousand on is cut to tenths of a thousand or of a million, which the text
  shows; but the number kept to choose the key is ten times what is shown.\<close>

theorem short_count_tenfold:
  assumes "10000 \<le> \<bar>number\<bar>"
  shows "let d = (if \<bar>number\<bar> \<ge> 1000000 then 1000000 else 1000);
             tenths = \<bar>number\<bar> div (d div 10);
             shown = tenths * (d div 10)
         in \<bar>number\<bar> - d div 10 < shown \<and> shown \<le> \<bar>number\<bar>
          \<and> sc_string (FormatCountToShort number)
              = qnumber (sgn number * (tenths div 10))
                @ (if tenths mod 10 = 0 then [] else 46 # decimal (nat (tenths mod 10)))
                @ qs (if \<bar>number\<bar> \<ge> 1000000 then ''M'' else ''K'')
          \<and> sc_number (FormatCountToShort number) = 10 * shown"
proof -
  have *: "\<bar>number\<bar> - k < \<bar>number\<bar> div k * k \<and> \<bar>number\<bar> div k * k \<le> \<bar>number\<bar>" if "0 < k" for k :: int
    using pos_mod_bound [OF that, of "\<bar>number\<bar>"] pos_mod_sign [OF that, of "\<bar>number\<bar>"]
      div_mult_mod_eq [of "\<bar>number\<bar>" k] by linarith
  define d :: int where "d = (if \<bar>number\<bar> \<ge> 1000000 then 1000000 else 1000)"
  have d: "10 \<le> d" "d mod 10 = 0" "0 < d div 10" by (simp_all add: d_def)
  have "10 * (d div 10) = d" by (simp add: d_def)
  moreover have "of_char (if \<bar>number\<bar> \<ge> 1000000 then CHR ''M'' else CHR ''K'')
      # [] = qs (if \<bar>number\<bar> \<ge> 1000000 then ''M'' else ''K'')" by (simp add: qs_def)
  ultimately show ?thesis
    unfolding Let_def FormatCountToShort_eq [OF assms] d_def [symmetric] shorten_eq [OF d(1,2)]
    using * [OF d(3)] by simp
qed

theorem short_count_tenfold_witness:
  "sc_number (FormatCountToShort 12345) = 123000 \<and> sc_string (FormatCountToShort 12345) = qs ''12.3K''"
  using short_count_tenfold [of 12345] by (simp add: Let_def qnumber_def decimal_small qs_def)

text \<open>A shortened count of 214.8 millions or more leaves the range of \<open>int\<close> when its key is chosen.\<close>

theorem short_count_overflows:
  assumes "214800000 \<le> \<bar>c\<bar>" "\<bar>c\<bar> < 2 ^ 31"
  shows "Plural number_f6 arg_L1 nonDefault rule (of_int c) lt_count_short = None"
proof -
  define tenths where "tenths = \<bar>c\<bar> div 100000"
  have t: "2148 \<le> tenths" using assms(1) zdiv_mono1 [of 214800000 "\<bar>c\<bar>" 100000] by (simp add: tenths_def)
  have "sc_number (FormatCountToShort c) = tenths * 1000000"
    using assms(1) FormatCountToShort_eq [of c] shorten_eq [of 1000000 c] by (simp add: tenths_def)
  moreover have "in_i32 c" using assms(2) by (auto simp: in_i32_def)
  moreover have "\<not> in_i32 (tenths * 1000000)" using t by (simp add: in_i32_def)
  moreover have "\<bar>of_int (tenths * 1000000) :: rat\<bar> = of_int (tenths * 1000000)" using t by simp
  ultimately show ?thesis using t operands_int [of "tenths * 1000000" number_f6]
    by (simp add: Plural_def to_int_def del: of_int_mult)
qed

theorem short_count_overflows_witness:
  "Plural (\<lambda>x. []) (\<lambda>k. []) True Plural4ru (of_int 300000000) lt_count_short = None"
  by (rule short_count_overflows) simp_all

section \<open>Replacing tags\<close>

text \<open>A text is a template: characters and tags.\<close>

datatype piece = Lit nat | Tag nat

fun piece_text :: "piece \<Rightarrow> qstring" where
  "piece_text (Lit c) = [c]"
| "piece_text (Tag t) = [kTextCommand, kTextCommandLangTag, 32 + t, kTextCommand]"

definition text_of :: "piece list \<Rightarrow> qstring" where
  "text_of ps = concat (map piece_text ps)"

definition plain :: "piece list \<Rightarrow> bool" where
  "plain ps \<longleftrightarrow> Lit kTextCommand \<notin> set ps"

lemma text_of_simps [simp]:
  "text_of [] = []" "text_of (p # ps) = piece_text p @ text_of ps" "text_of (ps @ rest) = text_of ps @ text_of rest"
  "text_of (map Lit r) = r"
  by (simp_all add: text_of_def) (induction r, simp_all)

lemma find_tag_Lit:
  "c \<noteq> kTextCommand \<Longrightarrow> find_tag (pre @ c # rest) t (length pre) = find_tag (pre @ c # rest) t (Suc (length pre))"
  by (subst find_tag.simps) simp

lemma find_tag_Tag:
  "find_tag (pre @ piece_text (Tag u) @ rest) t (length pre)
     = (if u = t then Some (length pre) else find_tag (pre @ piece_text (Tag u) @ rest) t (length pre + 4))"
  by (subst find_tag.simps) (simp add: nth_append kTagReplacementSize_def)

lemma find_tag_skip:
  assumes "plain ps" "Tag t \<notin> set ps"
  shows "find_tag (pre @ text_of ps @ rest) t (length pre)
     = find_tag (pre @ text_of ps @ rest) t (length (pre @ text_of ps))"
  using assms
proof (induction ps arbitrary: pre)
  case (Cons p ps)
  have ih: "find_tag ((pre @ piece_text p) @ text_of ps @ rest) t (length (pre @ piece_text p))
      = find_tag ((pre @ piece_text p) @ text_of ps @ rest) t (length ((pre @ piece_text p) @ text_of ps))"
    using Cons.prems by (intro Cons.IH) (auto simp: plain_def)
  have "find_tag (pre @ piece_text p @ text_of ps @ rest) t (length pre)
      = find_tag (pre @ piece_text p @ text_of ps @ rest) t (length (pre @ piece_text p))"
  proof (cases p)
    case (Lit c)
    then show ?thesis using Cons.prems(1) find_tag_Lit [of c pre "text_of ps @ rest" t]
      by (simp add: plain_def)
  next
    case (Tag u)
    then show ?thesis using Cons.prems(2) find_tag_Tag [of pre u "text_of ps @ rest" t]
      by (auto simp: numeral_eq_Suc)
  qed
  then show ?case using ih by simp
qed simp

lemma ReplaceTag_Call_absent:
  assumes "plain ps" "Tag t \<notin> set ps"
  shows "ReplaceTag_Call (text_of ps) t r = text_of ps"
proof -
  have "find_tag (text_of ps) t 0 = None"
    using find_tag_skip [OF assms, of "[]" "[]"] by (simp add: find_tag.simps [of _ _ "length _"])
  then show ?thesis by (simp add: ReplaceTag_Call_def FindTagReplacementPosition_def)
qed

lemma ReplaceTag_Call_present:
  assumes "plain ps" "Tag t \<notin> set ps"
  shows "ReplaceTag_Call (text_of (ps @ Tag t # rest)) t r = text_of (ps @ map Lit r @ rest)"
proof -
  have "find_tag (text_of ps @ piece_text (Tag t) @ text_of rest) t (length (text_of ps)) = Some (length (text_of ps))"
    using find_tag_Tag [of "text_of ps" t "text_of rest" t] by simp
  then have "find_tag (text_of (ps @ Tag t # rest)) t 0 = Some (length (text_of ps))"
    using find_tag_skip [OF assms, of "[]" "piece_text (Tag t) @ text_of rest"] by simp
  then show ?thesis
    by (simp add: ReplaceTag_Call_def FindTagReplacementPosition_def ReplaceTag_Replace_def kTagReplacementSize_def)
qed

definition fill_tag :: "nat \<Rightarrow> qstring \<Rightarrow> piece \<Rightarrow> piece list" where
  "fill_tag t r p = (if p = Tag t then map Lit r else [p])"

definition fill_tags :: "(nat \<times> qstring) list \<Rightarrow> piece \<Rightarrow> piece list" where
  "fill_tags subs p =
     (case p of Lit c \<Rightarrow> [p] | Tag t \<Rightarrow> (case map_of subs t of None \<Rightarrow> [p] | Some r \<Rightarrow> map Lit r))"

lemma fill_tag_absent: "Tag t \<notin> set ps \<Longrightarrow> concat (map (fill_tag t r) ps) = ps"
  by (induction ps) (auto simp: fill_tag_def)

lemma ReplaceTag_Call_fills:
  assumes "plain ps" "count_list ps (Tag t) \<le> 1"
  shows "ReplaceTag_Call (text_of ps) t r = text_of (concat (map (fill_tag t r) ps))"
proof (cases "Tag t \<in> set ps")
  case False
  then show ?thesis by (simp add: ReplaceTag_Call_absent assms(1) fill_tag_absent)
next
  case True
  then obtain a b where ps: "ps = a @ Tag t # b" by (meson split_list)
  then have "Tag t \<notin> set a" "Tag t \<notin> set b"
    using assms(2) by (auto simp: count_list_0_iff [symmetric])
  then show ?thesis using assms(1) ReplaceTag_Call_present [of a t b r]
    by (simp add: ps fill_tag_absent plain_def fill_tag_def [of t r "Tag t"])
qed

lemma count_fill_tag:
  "u \<noteq> t \<Longrightarrow> count_list (concat (map (fill_tag t r) ps)) (Tag u) = count_list ps (Tag u)"
proof -
  have "count_list (map Lit r) (Tag u) = 0" by (auto simp: count_list_0_iff)
  then show "u \<noteq> t \<Longrightarrow> ?thesis" by (induction ps) (auto simp: fill_tag_def)
qed

lemma plain_fill_tag:
  "plain ps \<Longrightarrow> kTextCommand \<notin> set r \<Longrightarrow> plain (concat (map (fill_tag t r) ps))"
  by (auto simp: plain_def fill_tag_def split: if_splits)

lemma fill_tags_Cons:
  "concat (map (fill_tags subs) (fill_tag t r p)) = fill_tags ((t, r) # subs) p"
  by (cases p) (auto simp: fill_tag_def fill_tags_def concat_map_singleton comp_def)

text \<open>C24: Replacing tags one after the other fills the template: every tag that occurs once is
  replaced by its text, the rest stays, and the order of the replacements does not matter.\<close>

theorem tags_replaced:
  assumes "plain ps" "\<forall>(t, r) \<in> set subs. count_list ps (Tag t) \<le> 1 \<and> kTextCommand \<notin> set r"
    and "distinct (map fst subs)"
  shows "fold (\<lambda>(t, r) text. ReplaceTag_Call text t r) subs (text_of ps) = text_of (concat (map (fill_tags subs) ps))"
  using assms
proof (induction subs arbitrary: ps)
  case Nil
  have "fill_tags [] = (\<lambda>p. [p])" by (auto simp: fill_tags_def split: piece.splits)
  then show ?case by (simp add: concat_map_singleton)
next
  case (Cons s subs)
  obtain t r where s: "s = (t, r)" by (cases s)
  let ?filled = "concat (map (fill_tag t r) ps)"
  have "fold (\<lambda>(t, r) text. ReplaceTag_Call text t r) subs (text_of ?filled) = text_of (concat (map (fill_tags subs) ?filled))"
  proof (rule Cons.IH)
    show "plain ?filled" using Cons.prems by (auto simp: s plain_fill_tag)
    have "\<forall>u \<in> fst ` set subs. u \<noteq> t" using Cons.prems(3) by (auto simp: s)
    then show "\<forall>(u, q) \<in> set subs. count_list ?filled (Tag u) \<le> 1 \<and> kTextCommand \<notin> set q"
      using Cons.prems(2) by (force simp: s count_fill_tag)
  qed (use Cons.prems in simp)
  moreover have "concat (map (fill_tags subs) ?filled) = concat (map (fill_tags (s # subs)) ps)"
    by (induction ps) (simp_all add: s fill_tags_Cons)
  ultimately show ?case using Cons.prems by (simp add: s ReplaceTag_Call_fills)
qed

theorem tags_replaced_witness:
  "ReplaceTag_Call (ReplaceTag_Call (text_of [Lit 60, Tag 1, Lit 43, Tag 0]) 0 [65]) 1 [66] = [60, 66, 43, 65]"
  using tags_replaced [of "[Lit 60, Tag 1, Lit 43, Tag 0]" "[(0, [65]), (1, [66])]"]
  by (simp add: plain_def kTextCommand_def fill_tags_def)

section \<open>Choosing the rule\<close>

definition key_of :: "int list \<Rightarrow> 64 word" where
  "key_of xs = foldl push_key 0 xs"

definition key_value :: "int list \<Rightarrow> int" where
  "key_value xs = foldl (\<lambda>a c. 256 * a + c) 0 xs"

definition key_chars :: "int list \<Rightarrow> bool" where
  "key_chars xs \<longleftrightarrow> (\<forall>c \<in> set xs. 0 < c \<and> c < 128)"

lemma key_value_simps [simp]: "key_value [] = 0" "key_value (xs @ [c]) = 256 * key_value xs + c"
  by (simp_all add: key_value_def)

lemma key_of_simps [simp]: "key_of [] = 0" "key_of (xs @ [c]) = push_key (key_of xs) c"
  by (simp_all add: key_of_def)

lemma key_chars_simps [simp]:
  "key_chars []" "key_chars (xs @ ys) \<longleftrightarrow> key_chars xs \<and> key_chars ys" "key_chars [c] \<longleftrightarrow> 0 < c \<and> c < 128"
  "key_chars (c # xs) \<longleftrightarrow> 0 < c \<and> c < 128 \<and> key_chars xs"
  by (auto simp: key_chars_def)

lemma push_key_value:
  assumes "0 < c" "c < 128"
  shows "uint (push_key k c) = (256 * uint k + c) mod 2 ^ 64"
proof -
  have "push_bit 8 k AND word_of_int c = 0"
  proof (rule bit_word_eqI)
    fix n assume "n < LENGTH(64)"
    have "c = take_bit 8 c" using assms by (simp add: take_bit_int_eq_self)
    then have "\<not> bit c n" if "8 \<le> n" using that by (metis bit_take_bit_iff not_le)
    then show "bit (push_bit 8 k AND word_of_int c) n = bit (0 :: 64 word) n"
      by (auto simp: bit_and_iff bit_push_bit_iff bit_word_of_int_iff)
  qed
  then have "push_key k c = push_bit 8 k + word_of_int c"
    using word_plus_and_or [of "push_bit 8 k" "word_of_int c"] by (simp add: push_key_def)
  then have "push_key k c = word_of_int (256 * uint k + c)"
    by (simp add: push_bit_eq_mult mult.commute)
  then show ?thesis by (simp only: uint_word_of_int_eq take_bit_eq_mod len_bit0 len_num1) simp
qed

lemma uint_key_of: "key_chars xs \<Longrightarrow> uint (key_of xs) = key_value xs mod 2 ^ 64"
proof (induction xs rule: rev_induct)
  case (snoc c xs)
  then have "uint (key_of (xs @ [c])) = (256 * (key_value xs mod 2 ^ 64) + c) mod 2 ^ 64"
    by (simp add: push_key_value)
  also have "\<dots> = (256 * key_value xs + c) mod 2 ^ 64"
    by (metis mod_add_left_eq mod_mult_right_eq)
  finally show ?case by simp
qed simp

lemma key_value_append: "key_value (xs @ ys) = key_value xs * 256 ^ length ys + key_value ys"
  by (induction ys rule: rev_induct) (simp_all add: algebra_simps flip: append_assoc)

lemma key_value_bounds: "key_chars xs \<Longrightarrow> 0 \<le> key_value xs \<and> key_value xs < 256 ^ length xs"
  by (induction xs rule: rev_induct) auto

lemma key_value_inject:
  "key_chars xs \<Longrightarrow> key_chars ys \<Longrightarrow> key_value xs = key_value ys \<Longrightarrow> xs = ys"
proof (induction xs arbitrary: ys rule: rev_induct)
  case Nil
  then show ?case
    by (cases ys rule: rev_cases) (use key_value_bounds in \<open>auto, force\<close>)
next
  case (snoc c xs)
  have "0 < key_value (xs @ [c])" using snoc.prems(1) key_value_bounds [of xs] by simp
  then have "ys \<noteq> []" using snoc.prems(3) by auto
  then obtain d zs where ys: "ys = zs @ [d]" by (metis append_butlast_last_id)
  have split: "(256 * a + c) mod 256 = c" "(256 * a + c) div 256 = a" if "0 < c" "c < 128" for a c :: int
    using that by (simp_all add: mod_pos_pos_trivial div_pos_pos_trivial)
  have e: "256 * key_value xs + c = 256 * key_value zs + d" "0 < c" "c < 128" "0 < d" "d < 128"
    using snoc.prems by (simp_all add: ys)
  have "c = d" using arg_cong [OF e(1), of "\<lambda>n. n mod 256"] split(1) e(2-) by metis
  moreover have "key_value xs = key_value zs"
    using arg_cong [OF e(1), of "\<lambda>n. n div 256"] split(2) e(2-) by metis
  ultimately show ?case using snoc.IH [of zs] snoc.prems by (simp add: ys)
qed

lemma key_of_inject:
  assumes "key_chars xs" "key_chars ys" "length ys \<le> 7" "key_of xs = key_of ys"
  shows "xs = ys"
proof -
  have "key_value ys < 256 ^ 7"
    using key_value_bounds [OF assms(2)] power_increasing [OF assms(3), of "256 :: int"] by linarith
  then have ys: "key_value ys mod 2 ^ 64 = key_value ys" "key_value ys < 256 ^ 7"
    using key_value_bounds [OF assms(2)] by simp_all
  have eq: "key_value xs mod 2 ^ 64 = key_value ys"
    using uint_key_of [OF assms(1)] uint_key_of [OF assms(2)] assms(4) ys(1) by simp
  show ?thesis
  proof (cases "length xs \<le> 8")
    case True
    then have "key_value xs < 256 ^ 8"
      using key_value_bounds [OF assms(1)] power_increasing [OF True, of "256 :: int"] by linarith
    then have "key_value xs = key_value ys" using eq key_value_bounds [OF assms(1)] by simp
    then show ?thesis by (rule key_value_inject [OF assms(1,2)])
  next
    case False
    define a where "a = take (length xs - 8) xs"
    define z where "z = hd (drop (length xs - 8) xs)"
    define r where "r = tl (drop (length xs - 8) xs)"
    have xs: "xs = a @ z # r" "length r = 7"
      using False by (auto simp: a_def z_def r_def intro!: append_take_drop_id [symmetric])
    have kc: "0 < z" "z < 128" "key_chars r" using assms(1) unfolding xs(1) by auto
    have "key_value (z # r) = z * 256 ^ 7 + key_value r"
      using key_value_append [of "[z]" r] xs(2) by (simp add: key_value_def)
    moreover have "key_value xs = key_value a * 256 ^ 8 + key_value (z # r)"
      using key_value_append [of a "z # r"] xs by simp
    moreover have "0 \<le> key_value r" "key_value r < 256 ^ 7"
      using key_value_bounds [OF kc(3)] xs(2) by simp_all
    ultimately have "key_value xs mod 2 ^ 64 = key_value (z # r)" "256 ^ 7 \<le> key_value (z # r)"
      using kc(1,2) by simp_all
    then show ?thesis using eq ys(2) by simp
  qed
qed

text \<open>The identifier of a language is normal when it is written in small letters, with \<open>-\<close> between
  its parts. The rule of a language is the one of its full name or of its first part.\<close>

definition normal_name :: "qstring \<Rightarrow> int list" where
  "normal_name s = map (\<lambda>c. ConvertKeyChar (to_char c)) s"

definition ascii_name :: "qstring \<Rightarrow> bool" where
  "ascii_name s \<longleftrightarrow> (\<forall>c \<in> set s. 0 < c \<and> c < 128)"

definition named_rule :: "int list \<Rightarrow> PluralMethod option" where
  "named_rule name = map_of (map (\<lambda>(s, rule). (normal_name (qs s), rule)) GeneratePluralRulesMap) name"

definition language_rule :: "int list \<Rightarrow> PluralMethod" where
  "language_rule name =
     (case named_rule name of
        Some rule \<Rightarrow> rule
      | None \<Rightarrow> (case named_rule (takeWhile (\<lambda>c. c \<noteq> 45) name) of
                    Some rule \<Rightarrow> if 45 \<in> set name then rule else Plural1
                  | None \<Rightarrow> Plural1))"

lemma key_chars_normal: "ascii_name s \<Longrightarrow> key_chars (normal_name s)"
  by (auto simp: ascii_name_def key_chars_def normal_name_def ConvertKeyChar_def to_char_def)

lemma PluralsKey_eq: "PluralsKey s = key_of (normal_name (qs s))"
  by (simp add: PluralsKey_def key_of_def normal_name_def qs_def foldl_map comp_def)

lemma table_names:
  "list_all (\<lambda>(s, rule). list_all (\<lambda>c. 0 < (of_char c :: nat) \<and> (of_char c :: nat) < 128) s \<and> length s \<le> 7) GeneratePluralRulesMap"
  by code_simp

lemma map_of_inj:
  "\<forall>(y, v) \<in> set xs. f y = f x \<longrightarrow> y = x \<Longrightarrow> map_of (map (\<lambda>(y, v). (f y, v)) xs) (f x) = map_of xs x"
  by (induction xs) auto

lemma find_rule_eq:
  assumes "key_chars name"
  shows "find_rule (key_of name) = named_rule name"
proof -
  define names where "names = map (\<lambda>(s, rule). (normal_name (qs s), rule)) GeneratePluralRulesMap"
  have inj: "key_of (fst p) = key_of name \<longrightarrow> fst p = name" if y: "p \<in> set names" for p
  proof -
    obtain s v where s: "(s, v) \<in> set GeneratePluralRulesMap" "fst p = normal_name (qs s)"
      using y by (auto simp: names_def)
    then have "ascii_name (qs s)" "length (fst p) \<le> 7"
      using table_names by (fastforce simp: list_all_iff ascii_name_def qs_def normal_name_def)+
    then have "key_chars (fst p)" "length (fst p) \<le> 7" by (simp_all add: s(2) key_chars_normal)
    then show ?thesis using key_of_inject [OF assms, of "fst p"] by metis
  qed
  have "map_of (map (\<lambda>(y, v). (key_of y, v)) names) (key_of name) = map_of names name"
    by (intro map_of_inj ballI) (simp only: case_prod_beta, rule inj)
  then show ?thesis
    unfolding names_def find_rule_def named_rule_def PluralsKey_eq map_map comp_def case_prod_beta by simp
qed


lemma key_of_nonzero: "key_chars xs \<Longrightarrow> xs \<noteq> [] \<Longrightarrow> key_of xs \<noteq> 0"
  using key_of_inject [of xs "[]"] by auto

lemma normal_name_Cons [simp]:
  "normal_name [] = []" "normal_name (c # s) = ConvertKeyChar (to_char c) # normal_name s"
  by (simp_all add: normal_name_def)

lemma key_loop_parent:
  "parent \<noteq> 0 \<Longrightarrow> key_loop s parent (key_of xs) = (parent, key_of (xs @ normal_name s))"
proof (induction s arbitrary: xs)
  case (Cons c s)
  then show ?case using Cons.IH [of "xs @ [ConvertKeyChar (to_char c)]"] by (simp add: Let_def)
qed simp

lemma key_loop_eq:
  assumes "key_chars (xs @ normal_name s)" "xs = [] \<longrightarrow> (s = [] \<or> hd (normal_name s) \<noteq> 45)"
  shows "key_loop s 0 (key_of xs)
     = (if 45 \<in> set (normal_name s) then key_of (xs @ takeWhile (\<lambda>c. c \<noteq> 45) (normal_name s)) else 0,
        key_of (xs @ normal_name s))"
  using assms
proof (induction s arbitrary: xs)
  case (Cons c s)
  let ?c = "ConvertKeyChar (to_char c)"
  have xs: "key_of (xs @ [?c]) = push_key (key_of xs) ?c" by simp
  show ?case
  proof (cases "?c = 45")
    case True
    then have "key_of xs \<noteq> 0" using Cons.prems key_of_nonzero [of xs] by auto
    then show ?thesis using True key_loop_parent [of "key_of xs" s "xs @ [45]"] by simp
  next
    case False
    then show ?thesis using Cons.IH [of "xs @ [?c]"] Cons.prems by (simp add: Let_def)
  qed
qed simp

text \<open>C22: The plural rule chosen for a language is the one of its name, in capital or small letters and
  with either separator, else the one of the first part of the name, else the rule with one form.\<close>

theorem language_rule_found:
  assumes "ascii_name name" "name = [] \<or> hd (normal_name name) \<noteq> 45"
  shows "UpdatePluralRules name = language_rule (normal_name name)"
proof -
  let ?n = "normal_name name" and ?first = "takeWhile (\<lambda>c. c \<noteq> 45) (normal_name name)"
  have n: "key_chars ?n" "key_chars ?first"
    using key_chars_normal [OF assms(1)] by (auto simp: key_chars_def dest: set_takeWhileD)
  have loop: "key_loop name 0 0 = (if 45 \<in> set ?n then key_of ?first else 0, key_of ?n)"
    using key_loop_eq [of "[]" name] n(1) assms(2) by simp
  show ?thesis
  proof (cases "45 \<in> set ?n")
    case True
    then have "?first \<noteq> []" using assms(2) by (cases ?n) auto
    then have "key_of ?first \<noteq> 0" by (intro key_of_nonzero n)
    then show ?thesis using True
      by (auto simp: UpdatePluralRules_def loop find_rule_eq n language_rule_def split: option.splits)
  next
    case False
    then show ?thesis
      by (auto simp: UpdatePluralRules_def loop find_rule_eq n language_rule_def split: option.splits)
  qed
qed

theorem language_rule_found_witness:
  "UpdatePluralRules (qs ''PT_br'') = Plural2hy \<and> UpdatePluralRules (qs ''pt-pt'') = Plural2ast"
proof -
  have names: "ascii_name (qs ''PT_br'')" "ascii_name (qs ''pt-pt'')"
    "normal_name (qs ''PT_br'') = [112, 116, 45, 98, 114]" "normal_name (qs ''pt-pt'') = [112, 116, 45, 112, 116]"
    by code_simp+
  have "language_rule [112, 116, 45, 98, 114] = Plural2hy" by code_simp
  moreover have "language_rule [112, 116, 45, 112, 116] = Plural2ast" by code_simp
  ultimately show ?thesis
    using language_rule_found [of "qs ''PT_br''"] language_rule_found [of "qs ''pt-pt''"]
    by (simp only: names) simp
qed

text \<open>Over the operands that numbers have, every plural rule yields exactly the categories of its
  language, so that a text needs those forms and no others; and the operands found for a number are such.\<close>

theorem plural_categories:
  "{choose_plural r n i v w f t | n i v w f t. plural_operands n i v w f t} = set (categories r)
   \<and> (f6_format number_f6 \<longrightarrow> 0 \<le> x \<longrightarrow> operands number_f6 x = Some (integer, i, v, w, f, t)
      \<longrightarrow> plural_operands (if integer then i else -1) i v w f t)"
proof -
  have "{choose_plural r n i v w f t | n i v w f t. plural_operands n i v w f t} \<subseteq> set (categories r)"
    using choose_plural_in by blast
  moreover have "c \<in> {choose_plural r n i v w f t | n i v w f t. plural_operands n i v w f t}"
    if c: "c \<in> set (categories r)" for c
  proof -
    obtain n i v w f t where s: "(n, i, v, w, f, t) \<in> set sample_operands" "choose_plural r n i v w f t = c"
      using samples_reach [of r] c unfolding samples_reach_def list_all_iff list_ex_iff by blast
    then have "plural_operands n i v w f t" using samples_consistent by blast
    with s(2) show ?thesis by blast
  qed
  ultimately have "{choose_plural r n i v w f t | n i v w f t. plural_operands n i v w f t} = set (categories r)"
    by (intro subset_antisym subsetI) (drule (1) subsetD)
  then show ?thesis by (intro conjI impI) (assumption, rule operands_consistent)
qed

text \<open>Digits by cutting, for numbers below ten.\<close>

definition cut_f6 :: "rat \<Rightarrow> qstring" where
  "cut_f6 x = (let k = nat \<lfloor>x * 1000000\<rfloor>; d = k mod 1000000
     in decimal (k div 1000000) @ 46 # map (\<lambda>e. 48 + d div 10 ^ e mod 10) [5, 4, 3, 2, 1, 0])"

lemma digit_char_mod: "digit_char (48 + n mod 10)"
  using mod_less_divisor [of 10 n] by (simp add: digit_char_def)

lemma cut_f6_format: "f6_format cut_f6"
  unfolding f6_format_def cut_f6_def Let_def
  by (intro allI impI exI conjI, rule refl) (simp_all only: list.map list.pred_inject digit_char_mod, simp_all)

theorem plural_categories_witness:
  "operands cut_f6 (5 / 2) = Some (False, 2, 1, 1, 5, 5) \<and> plural_operands (- 1) 2 1 1 5 5"
proof -
  have "\<lfloor>5 / 2 :: rat\<rfloor> = 2" "\<lceil>5 / 2 :: rat\<rceil> = 3"
    by (simp_all add: floor_eq_iff ceiling_eq_iff)
  then have "operands cut_f6 (5 / 2) = Some (False, 2, 1, 1, 5, 5)"
    by (simp add: operands_def to_int_def in_i32_def cut_f6_def FormatDouble_def NonZeroPartToInt_def
        decimal_small toInt_def Let_def)
  then show ?thesis
    using plural_categories [of Plural1 cut_f6 "5 / 2" False 2 1 1 5 5] cut_f6_format by simp
qed

end
