(* ===== verification/StreamingParts.thy ===== *)
theory StreamingParts imports Prelude "HOL-Library.Monad_Syntax" begin

text \<open>
  Parts of a file that is streamed: the anonymous functions and \<open>Reader::Slice\<close> of
  \<open>media/streaming/media_streaming_reader.cpp\<close>, and the queue of requested parts
  (\<open>PriorityQueue\<close> of \<open>media/streaming/media_streaming_loader.cpp\<close>).

  A byte is an \<open>8 word\<close>, a \<open>QByteArray\<close> or a span the list of its bytes. \<open>PartsMap\<close> is a
  \<open>flat_map\<close>. Offsets and sizes are \<open>uint32\<close> in the code; they are natural numbers here, and the
  one sum that can wrap is cut. \<open>StackIntVector\<close> is a list that refuses elements beyond its size.
\<close>

type_synonym PartBytes = "8 word list"
type_synonym PartsMap = "(nat \<times> PartBytes) list"

section \<open>Constants and sizes\<close>

definition kPartSize :: nat where
  "kPartSize = 128 * 1024"

definition kPartsInSlice :: nat where
  "kPartsInSlice = 64"

definition kInSlice :: nat where
  "kInSlice = kPartsInSlice * kPartSize"

definition kMaxPartsInHeader :: nat where
  "kMaxPartsInHeader = 64"

definition kMaxOnlyInHeader :: nat where
  "kMaxOnlyInHeader = 80 * kPartSize"

definition kPartsOutsideFirstSliceGood :: nat where
  "kPartsOutsideFirstSliceGood = 8"

definition kSlicesInMemory :: nat where
  "kSlicesInMemory = 2"

definition kPreloadPartsAhead :: nat where
  "kPreloadPartsAhead = 8"

definition kLoadFromRemoteMax :: nat where
  "kLoadFromRemoteMax = 8"

definition kReadFromCacheMax :: nat where
  "kReadFromCacheMax = 2"

definition IsContiguousSerialization :: "int \<Rightarrow> int \<Rightarrow> bool" where
  "IsContiguousSerialization serializedSize maxSliceSize \<longleftrightarrow>
     tmod serializedSize (int kPartSize) = 0 \<or> serializedSize = maxSliceSize"

definition IsFullInHeader :: "nat \<Rightarrow> bool" where
  "IsFullInHeader sz \<longleftrightarrow> sz \<le> kMaxOnlyInHeader"

definition ComputeIsGoodHeader :: "nat \<Rightarrow> PartsMap \<Rightarrow> bool" where
  "ComputeIsGoodHeader sz header =
     (if IsFullInHeader sz then False
      else length header - lower_bound fst header kInSlice \<le> kPartsOutsideFirstSliceGood)"

definition SlicesCount :: "nat \<Rightarrow> nat option" where
  "SlicesCount sz =
     (let result = (sz + kInSlice - 1) mod 2 ^ 32 div kInSlice
      in if result < 0x1FF then Some result else None)"

text \<open>The result is an \<open>int\<close>; what reads it converts it back where it compares unsigned numbers.\<close>

definition MaxSliceSize :: "nat \<Rightarrow> nat \<Rightarrow> int option" where
  "MaxSliceSize sliceNumber sz =
     (if sliceNumber = 0 then Some (i32 (int sz))
      else do { count \<leftarrow> SlicesCount sz;
                Some (i32 (if sliceNumber = count then int sz - (int sliceNumber - 1) * int kInSlice else int kInSlice)) })"

section \<open>Entries of the cache\<close>

text \<open>Integers are stored as four bytes, the least first.\<close>

definition int_bytes :: "nat \<Rightarrow> PartBytes" where
  "int_bytes n = map (\<lambda>i. word_of_nat (n div 256 ^ i)) [0, 1, 2, 3]"

definition bytes_int :: "PartBytes \<Rightarrow> nat" where
  "bytes_int bs = foldr (\<lambda>b n. unat b + 256 * n) bs 0"

definition takeInt :: "PartBytes \<Rightarrow> nat option \<times> PartBytes" where
  "takeInt data = (if length data < 4 then (None, data) else (Some (bytes_int (take 4 data)), drop 4 data))"

definition takeBytes :: "nat \<Rightarrow> PartBytes \<Rightarrow> PartBytes \<times> PartBytes" where
  "takeBytes count data =
     (if count = 0 \<or> 2 ^ 31 \<le> count \<or> length data < count then ([], data)
      else (take count data, drop count data))"

definition value_or :: "'a option \<Rightarrow> 'a \<Rightarrow> 'a" where
  "value_or x y = (case x of None \<Rightarrow> y | Some z \<Rightarrow> z)"

fun parse_entries :: "nat \<Rightarrow> PartsMap \<Rightarrow> PartBytes \<Rightarrow> nat \<Rightarrow> PartsMap \<times> PartBytes" where
  "parse_entries 0 result data maxSize = (result, data)"
| "parse_entries (Suc i) result data maxSize =
     (let (offset, data) = takeInt data; offset = value_or offset 0;
          (sz, data) = takeInt data; sz = value_or sz 0;
          (bytes, data) = takeBytes sz data
      in if offset \<ge> maxSize \<or> sz = 0 \<or> sz > maxSize \<or> (offset + sz) mod 2 ^ 32 > maxSize \<or> length bytes \<noteq> sz
         then (result, [])
         else parse_entries i (flat_emplace offset bytes result) data maxSize)"

definition ParseComplexCachedMap :: "PartsMap \<Rightarrow> PartBytes \<Rightarrow> int \<Rightarrow> PartsMap \<times> PartBytes" where
  "ParseComplexCachedMap result data maxSize =
     (case takeInt data of
        (None, data) \<Rightarrow> (result, [])
      | (Some count, data) \<Rightarrow>
          if count = 0 \<or> count > kMaxOnlyInHeader div kPartSize then (result, data)
          else parse_entries count result data (nat (u32 maxSize)))"

function split_parts :: "nat \<Rightarrow> PartBytes \<Rightarrow> PartsMap \<Rightarrow> PartsMap" where
  "split_parts offset data result =
     (if offset < length data
      then split_parts (offset + kPartSize) data
             (flat_emplace offset (take (min kPartSize (length data - offset)) (drop offset data)) result)
      else result)"
  by pat_completeness auto

termination split_parts
  by (relation "measure (\<lambda>(offset, data, result). length data - offset)") (auto simp: kPartSize_def)

declare split_parts.simps [simp del]

definition ParseCachedMap :: "PartsMap \<Rightarrow> PartBytes \<Rightarrow> int \<Rightarrow> PartsMap \<times> PartBytes" where
  "ParseCachedMap result data maxSize =
     (if IsContiguousSerialization (int (length data)) maxSize
      then if int (length data) > maxSize then (result, []) else (split_parts 0 data result, [])
      else ParseComplexCachedMap result data maxSize)"

record ParsedCacheEntry =
  pe_parts :: PartsMap
  pe_included :: "PartsMap option"

definition ParseCacheEntry :: "PartBytes \<Rightarrow> nat \<Rightarrow> nat \<Rightarrow> ParsedCacheEntry option" where
  "ParseCacheEntry data sliceNumber sz =
     do { maxSize \<leftarrow> MaxSliceSize sliceNumber sz;
          let (parts, remaining) = ParseCachedMap [] data maxSize;
          if sliceNumber = 0 \<and> ComputeIsGoodHeader sz parts
          then do { firstSize \<leftarrow> MaxSliceSize 1 sz;
                    Some \<lparr>pe_parts = parts, pe_included = Some (fst (ParseCachedMap [] remaining firstSize))\<rparr> }
          else Some \<lparr>pe_parts = parts, pe_included = None\<rparr> }"

definition SerializeComplexPartsMap :: "PartsMap \<Rightarrow> PartBytes" where
  "SerializeComplexPartsMap parts =
     int_bytes (length parts)
     @ concat (map (\<lambda>(offset, part). int_bytes offset @ int_bytes (length part) @ part) parts)"

section \<open>Reading parts\<close>

fun FindNotLoadedStart :: "PartsMap \<Rightarrow> nat \<Rightarrow> nat" where
  "FindNotLoadedStart [] result = result"
| "FindNotLoadedStart ((partStart, part) # parts) result =
     (let partEnd = partStart + length part
      in if partStart \<le> result \<and> partEnd \<ge> result then FindNotLoadedStart parts partEnd else result)"

text \<open>The bytes written to the buffer, or none when an assertion fails.\<close>

fun CopyLoaded :: "PartsMap \<Rightarrow> nat \<Rightarrow> nat \<Rightarrow> PartBytes option" where
  "CopyLoaded [] filled till = Some []"
| "CopyLoaded ((partStart, bytes) # parts) filled till =
     (let partEnd = partStart + length bytes; copyTill = min partEnd till
      in if partStart \<le> filled \<and> filled < copyTill
         then (let from = filled - partStart; copy = copyTill - filled
               in do { rest \<leftarrow> CopyLoaded parts (filled + copy) till;
                       Some (take copy (drop from bytes) @ rest) })
         else None)"

definition StackIntVector_add :: "nat \<Rightarrow> nat list \<Rightarrow> nat \<Rightarrow> nat list option" where
  "StackIntVector_add sz storage v = (if length storage < sz then Some (storage @ [v]) else None)"

record Slice =
  rs_parts :: PartsMap
  rs_LoadingFromCache :: bool
  rs_LoadedFromCache :: bool
  rs_ChangedSinceCache :: bool
  rs_FullInCache :: bool

definition newSlice :: Slice where
  "newSlice = \<lparr>rs_parts = [], rs_LoadingFromCache = False, rs_LoadedFromCache = False,
     rs_ChangedSinceCache = False, rs_FullInCache = False\<rparr>"

definition processCacheData :: "PartsMap \<Rightarrow> Slice \<Rightarrow> Slice option" where
  "processCacheData data s =
     (if \<not> rs_LoadingFromCache s \<or> rs_LoadedFromCache s then None
      else let s = s\<lparr>rs_parts := (if rs_parts s = [] then data
                                else foldl (\<lambda>parts (offset, bytes). flat_emplace offset bytes parts) (rs_parts s) data)\<rparr>
           in Some (s\<lparr>rs_LoadedFromCache := True, rs_LoadingFromCache := False\<rparr>))"

definition addPart :: "nat \<Rightarrow> PartBytes \<Rightarrow> Slice \<Rightarrow> Slice option" where
  "addPart offset bytes s =
     (if offset \<in> fst ` set (rs_parts s) then None
      else let s = s\<lparr>rs_parts := flat_emplace offset bytes (rs_parts s)\<rparr>
           in Some (if rs_LoadedFromCache s then s\<lparr>rs_ChangedSinceCache := True\<rparr> else s))"

function offsets_loop :: "PartsMap \<Rightarrow> nat \<Rightarrow> nat \<Rightarrow> nat list \<Rightarrow> nat list" where
  "offsets_loop check offset till result =
     (if offset = till then result
      else let check = dropWhile (\<lambda>p. fst p < offset) check
           in if check \<noteq> [] \<and> fst (hd check) = offset then offsets_loop check (offset + kPartSize) till result
              else (case StackIntVector_add kLoadFromRemoteMax result offset of
                      None \<Rightarrow> result
                    | Some result \<Rightarrow> offsets_loop check (offset + kPartSize) till result))"
  by pat_completeness auto

lemma kPartSize_pos [simp]: "0 < kPartSize" "kPartSize \<noteq> 0"
  by (simp_all add: kPartSize_def)

lemma filter_offset_le:
  "length (filter (\<lambda>p. offset + k \<le> fst p) check) \<le> length (filter (\<lambda>p. (offset :: nat) \<le> fst p) check)"
  by (induction check) auto

lemma filter_dropWhile_le:
  "length (filter (\<lambda>p. offset + k \<le> fst p) (dropWhile f check)) \<le> length (filter (\<lambda>p. (offset :: nat) \<le> fst p) check)"
proof (induction check)
  case (Cons p check)
  then show ?case using filter_offset_le [of offset k "p # check"] by auto
qed simp

lemma filter_dropWhile_less:
  assumes "dropWhile f check \<noteq> []" "fst (hd (dropWhile f check)) = (offset :: nat)" "0 < k"
  shows "length (filter (\<lambda>p. offset + k \<le> fst p) (dropWhile f check)) < length (filter (\<lambda>p. offset \<le> fst p) check)"
  using assms
proof (induction check)
  case (Cons p check)
  show ?case
  proof (cases "f p")
    case True
    then show ?thesis using Cons by (auto intro: less_SucI)
  next
    case False
    then show ?thesis using Cons.prems filter_offset_le [of offset k check]
      by (cases check) (auto simp: less_Suc_eq_le)
  qed
qed simp

termination offsets_loop
proof (relation "measure (\<lambda>(check, offset, till, result).
    length (filter (\<lambda>p. offset \<le> fst p) check) + (kLoadFromRemoteMax - length result))", simp_all, goal_cases)
  case (1 check offset till result)
  then show ?case by (intro filter_dropWhile_less) auto
next
  case (2 check offset till result r)
  then show ?case
    using filter_dropWhile_le [of offset kPartSize "\<lambda>p. fst p < offset" check]
    by (auto simp: StackIntVector_add_def split: if_splits)
qed

declare offsets_loop.simps [simp del]

definition offsetsFromLoader :: "nat \<Rightarrow> nat \<Rightarrow> PartsMap \<Rightarrow> nat list" where
  "offsetsFromLoader from till parts =
     (let after = upper_bound fst parts from; check = (if after = 0 then after else after - 1)
      in offsets_loop (drop check parts) from till [])"

record PrepareFillResult =
  pf_offsetsFromLoader :: "nat list"
  pf_parts :: PartsMap
  pf_ready :: bool

text \<open>The iterators \<open>start\<close> and \<open>finish\<close> of the result are the range of parts between them.\<close>

definition prepareFill :: "nat \<Rightarrow> nat \<Rightarrow> Slice \<Rightarrow> PrepareFillResult" where
  "prepareFill from till s =
     (let parts = rs_parts s;
          fromOffset = from div kPartSize * kPartSize;
          tillPart = (till + kPartSize - 1) div kPartSize;
          preloadTillOffset = (tillPart + kPreloadPartsAhead) * kPartSize;
          after = upper_bound fst parts from
      in if after = 0
         then \<lparr>pf_offsetsFromLoader = offsetsFromLoader fromOffset preloadTillOffset parts, pf_parts = [], pf_ready = False\<rparr>
         else let start = after - 1;
                  finish = start + lower_bound fst (drop start parts) till;
                  between = take (finish - start) (drop start parts);
                  haveTill = FindNotLoadedStart between fromOffset
              in if haveTill < till
                 then \<lparr>pf_offsetsFromLoader = offsetsFromLoader haveTill preloadTillOffset parts, pf_parts = [], pf_ready = False\<rparr>
                 else \<lparr>pf_offsetsFromLoader = offsetsFromLoader (tillPart * kPartSize) preloadTillOffset parts,
                       pf_parts = between, pf_ready = True\<rparr>)"

section \<open>The queue of requested parts\<close>

record PriorityEntry =
  qe_value :: int
  qe_priority :: int

definition entry_less :: "PriorityEntry \<Rightarrow> PriorityEntry \<Rightarrow> bool" where
  "entry_less a b =
     (if qe_priority a > qe_priority b then True
      else if qe_priority a < qe_priority b then False
      else qe_value a < qe_value b)"

text \<open>A \<open>flat_set\<close> ordered by \<open>entry_less\<close>.\<close>

fun entry_insert :: "PriorityEntry \<Rightarrow> PriorityEntry list \<Rightarrow> PriorityEntry list" where
  "entry_insert e [] = [e]"
| "entry_insert e (d # data) =
     (if entry_less e d then e # d # data else if entry_less d e then d # entry_insert e data else d # data)"

record PriorityQueue =
  pq_data :: "PriorityEntry list"
  pq_priority :: int

definition newQueue :: PriorityQueue where
  "newQueue = \<lparr>pq_data = [], pq_priority = 0\<rparr>"

definition queue_add :: "int \<Rightarrow> PriorityQueue \<Rightarrow> bool \<times> PriorityQueue" where
  "queue_add v q =
     (case find (\<lambda>e. qe_value e = v) (pq_data q) of
        None \<Rightarrow> (True, q\<lparr>pq_data := entry_insert \<lparr>qe_value = v, qe_priority = pq_priority q\<rparr> (pq_data q)\<rparr>)
      | Some i \<Rightarrow>
          if qe_priority i \<noteq> pq_priority q
          then (True, q\<lparr>pq_data := entry_insert \<lparr>qe_value = v, qe_priority = pq_priority q\<rparr> (remove1 i (pq_data q))\<rparr>)
          else (False, q))"

definition queue_remove :: "int \<Rightarrow> PriorityQueue \<Rightarrow> bool \<times> PriorityQueue" where
  "queue_remove v q =
     (case find (\<lambda>e. qe_value e = v) (pq_data q) of
        None \<Rightarrow> (False, q)
      | Some i \<Rightarrow> (True, q\<lparr>pq_data := remove1 i (pq_data q)\<rparr>))"

definition queue_front :: "PriorityQueue \<Rightarrow> int option" where
  "queue_front q = (case pq_data q of [] \<Rightarrow> None | e # _ \<Rightarrow> Some (qe_value e))"

definition queue_take :: "PriorityQueue \<Rightarrow> int option \<times> PriorityQueue" where
  "queue_take q = (case pq_data q of [] \<Rightarrow> (None, q) | e # data \<Rightarrow> (Some (qe_value e), q\<lparr>pq_data := data\<rparr>))"

fun take_range :: "int \<Rightarrow> int \<Rightarrow> PriorityEntry list \<Rightarrow> int list \<Rightarrow> int list \<times> PriorityEntry list" where
  "take_range from till [] result = (result, [])"
| "take_range from till (i # data) result =
     (if qe_value i \<ge> from \<and> qe_value i < till then take_range from till data (flat_insert (qe_value i) result)
      else let (result, rest) = take_range from till data result in (result, i # rest))"

definition queue_takeInRange :: "int \<Rightarrow> int \<Rightarrow> PriorityQueue \<Rightarrow> int list \<times> PriorityQueue" where
  "queue_takeInRange from till q =
     (let (result, data) = take_range from till (pq_data q) [] in (result, q\<lparr>pq_data := data\<rparr>))"

definition queue_clear :: "PriorityQueue \<Rightarrow> PriorityQueue" where
  "queue_clear q = q\<lparr>pq_data := []\<rparr>"

definition queue_resetPriorities :: "PriorityQueue \<Rightarrow> PriorityQueue" where
  "queue_resetPriorities q = q\<lparr>pq_priority := pq_priority q + 1\<rparr>"

definition kFailedOffset :: int where
  "kFailedOffset = -1"

record LoadedPart =
  lp_offset :: int
  lp_bytes :: PartBytes

definition part_valid :: "int \<Rightarrow> LoadedPart \<Rightarrow> bool" where
  "part_valid sz p \<longleftrightarrow>
     lp_offset p \<noteq> kFailedOffset
     \<and> (length (lp_bytes p) = kPartSize \<or> lp_offset p + int (length (lp_bytes p)) = sz)"

section \<open>Parts that are right\<close>

definition part_of :: "PartBytes \<Rightarrow> nat \<Rightarrow> nat \<times> PartBytes \<Rightarrow> bool" where
  "part_of file base p \<longleftrightarrow>
     fst p mod kPartSize = 0 \<and> base + fst p < length file \<and> snd p = take kPartSize (drop (base + fst p) file)"

definition true_parts :: "PartBytes \<Rightarrow> nat \<Rightarrow> nat \<Rightarrow> PartsMap \<Rightarrow> bool" where
  "true_parts file base limit parts \<longleftrightarrow>
     keys_sorted parts \<and> (\<forall>p \<in> set parts. part_of file base p \<and> fst p < limit)"

lemma part_of_length:
  "part_of file base (s, b) \<Longrightarrow> length b = min kPartSize (length file - (base + s)) \<and> 0 < length b \<and> b \<noteq> []"
  by (auto simp: part_of_def)

lemma aligned_less:
  "a mod kPartSize = 0 \<Longrightarrow> b mod kPartSize = 0 \<Longrightarrow> a < b \<Longrightarrow> a + kPartSize \<le> (b :: nat)"
  by (metis add_less_cancel_left kPartSize_pos(1) mod_add_self2 mod_less mod_self not_less le_add_diff_inverse less_imp_le_nat
      mod_eq_0_iff_dvd dvd_diff_nat dvd_imp_le zero_less_diff add_le_cancel_left)

lemma true_parts_Cons:
  "true_parts file base limit ((s, b) # parts) \<longleftrightarrow>
     part_of file base (s, b) \<and> s < limit \<and> true_parts file base limit parts \<and> (\<forall>p \<in> set parts. s + kPartSize \<le> fst p)"
proof
  assume t: "true_parts file base limit ((s, b) # parts)"
  then have "s + kPartSize \<le> fst p" if "p \<in> set parts" for p
    using that by (intro aligned_less) (auto simp: true_parts_def part_of_def)
  with t show "part_of file base (s, b) \<and> s < limit \<and> true_parts file base limit parts
      \<and> (\<forall>p \<in> set parts. s + kPartSize \<le> fst p)"
    by (simp add: true_parts_def)
next
  assume t: "part_of file base (s, b) \<and> s < limit \<and> true_parts file base limit parts
      \<and> (\<forall>p \<in> set parts. s + kPartSize \<le> fst p)"
  then have "s < fst p" if "p \<in> set parts" for p
    using that kPartSize_pos(1) by (meson add_le_same_cancel1 add_lessD1 le_less_trans less_add_same_cancel1 not_less order_le_less_trans)
  with t show "true_parts file base limit ((s, b) # parts)" by (simp add: true_parts_def)
qed

lemma CopyLoaded_true:
  assumes "true_parts file base limit ((s, b) # parts)" "\<forall>p \<in> set parts. fst p < till"
    and "s \<le> filled" "filled < s + length b" "filled < till" "base + till \<le> length file"
    and "till \<le> FindNotLoadedStart parts (s + length b)"
  shows "CopyLoaded ((s, b) # parts) filled till = Some (take (till - filled) (drop (base + filled) file))"
  using assms
proof (induction parts arbitrary: s b filled)
  case Nil
  then have b: "b = take kPartSize (drop (base + s) file)" and t: "till \<le> s + length b"
    by (auto simp: true_parts_def part_of_def)
  then have "min (s + length b) till = till" by simp
  moreover have "take (till - filled) (drop (filled - s) b) = take (till - filled) (drop (base + filled) file)"
    using Nil.prems(3,4) t by (simp add: b drop_take add.commute add.left_commute) 
  ultimately show ?case using Nil.prems(3,5) by (simp add: Let_def)
next
  case (Cons p parts)
  obtain s' b' where p: "p = (s', b')" by (cases p)
  note t = Cons.prems(1) [unfolded p true_parts_Cons]
  have b: "b = take kPartSize (drop (base + s) file)" "length b \<le> kPartSize"
    using t by (auto simp: part_of_def)
  have s': "s + kPartSize \<le> s'" "s' < till" using t Cons.prems(2) by (auto simp: p)
  then have part: "s + length b < till" using b(2) by simp
  have chain: "s' = s + length b" "till \<le> FindNotLoadedStart parts (s' + length b')"
    using Cons.prems(7) part s' b(2) by (auto simp: p Let_def split: if_splits)
  have "b' \<noteq> []" using t part_of_length by blast
  then have "CopyLoaded ((s', b') # parts) s' till = Some (take (till - s') (drop (base + s') file))"
    using Cons.prems(2,6) s'(2) chain(2) t by (intro Cons.IH) (auto simp: p true_parts_Cons)
  moreover have "take (s + length b - filled) (drop (filled - s) b) @ take (till - s') (drop (base + s') file)
      = take (till - filled) (drop (base + filled) file)"
  proof -
    have "take (s + length b - filled) (drop (filled - s) b) = take (s' - filled) (drop (base + filled) file)"
      using Cons.prems(3,4) s' chain(1) by (simp add: b(1) drop_take add.commute add.left_commute) 
    moreover have "take (till - s') (drop (base + s') file) = take (till - s') (drop (s' - filled) (drop (base + filled) file))"
      using Cons.prems(4) chain(1) by (simp add: ac_simps)
    ultimately show ?thesis
      using take_add [of "s' - filled" "till - s'" "drop (base + filled) file"] Cons.prems(4) chain(1) s'(2) by simp
  qed
  moreover have "CopyLoaded ((s, b) # p # parts) filled till
      = do { rest \<leftarrow> CopyLoaded (p # parts) s' till; Some (take (s + length b - filled) (drop (filled - s) b) @ rest) }"
    by (subst CopyLoaded.simps(2)) (use Cons.prems(3,4) part chain(1) in \<open>simp add: Let_def del: CopyLoaded.simps\<close>)
  ultimately show ?case by (simp add: p del: CopyLoaded.simps)
qed

lemma true_parts_sub:
  "true_parts file base limit (xs @ ys) \<Longrightarrow> true_parts file base limit xs \<and> true_parts file base limit ys"
  by (auto simp: true_parts_def sorted_wrt_append)

lemma FindNotLoadedStart_stop:
  "\<forall>p \<in> set parts. r < fst p \<Longrightarrow> FindNotLoadedStart parts r = r"
  by (cases parts) auto

lemma part_boundary:
  assumes "part_of file base (s, b)" "s mod kPartSize = 0" "s < r" "r mod kPartSize = 0" "s + length b \<ge> r"
  shows "s + length b = r"
  using assms part_of_length [OF assms(1)] aligned_less [of s r] by simp

definition fill_range :: "nat \<Rightarrow> nat \<Rightarrow> PartsMap \<Rightarrow> PartsMap" where
  "fill_range from till parts = takeWhile (\<lambda>p. fst p < till) (drop (upper_bound fst parts from - 1) parts)"

lemma prepareFill_view:
  fixes s :: Slice and a till :: nat
  defines "parts \<equiv> rs_parts s" and "fo \<equiv> a div kPartSize * kPartSize"
    and "preload \<equiv> ((till + kPartSize - 1) div kPartSize + kPreloadPartsAhead) * kPartSize"
  defines "have_till \<equiv> FindNotLoadedStart (fill_range a till parts) fo"
  defines "ready \<equiv> upper_bound fst parts a \<noteq> 0 \<and> till \<le> have_till"
  shows "prepareFill a till s =
    \<lparr>pf_offsetsFromLoader = offsetsFromLoader
       (if upper_bound fst parts a = 0 then fo
        else if have_till < till then have_till else (till + kPartSize - 1) div kPartSize * kPartSize) preload parts,
     pf_parts = (if ready then fill_range a till parts else []), pf_ready = ready\<rparr>"
proof (cases "upper_bound fst parts a = 0")
  case True
  then show ?thesis
    unfolding prepareFill_def Let_def parts_def [symmetric] fo_def [symmetric] preload_def [symmetric]
    by (simp add: ready_def)
next
  case False
  let ?start = "upper_bound fst parts a - 1"
  have between: "take (?start + lower_bound fst (drop ?start parts) till - ?start) (drop ?start parts)
      = fill_range a till parts"
    by (simp add: take_lower_bound fill_range_def)
  show ?thesis
    unfolding prepareFill_def Let_def parts_def [symmetric] fo_def [symmetric] preload_def [symmetric]
      if_not_P [OF False] between have_till_def [symmetric]
    using False by (cases "have_till < till") (simp_all add: ready_def)
qed

lemma prepareFill_copies:
  assumes "true_parts file base limit (rs_parts s)" "from < till" "base + till \<le> length file"
    and "pf_ready (prepareFill from till s)"
  shows "CopyLoaded (pf_parts (prepareFill from till s)) from till = Some (take (till - from) (drop (base + from) file))"
proof -
  let ?parts = "rs_parts s" and ?fo = "from div kPartSize * kPartSize"
  define after where "after = upper_bound fst ?parts from"
  define start where "start = after - 1"
  define between where "between = fill_range from till ?parts"
  have a0: "after \<noteq> 0" and ready: "till \<le> FindNotLoadedStart between ?fo"
    and pf: "pf_parts (prepareFill from till s) = between"
    using assms(4) by (simp_all add: prepareFill_view after_def between_def)
  have sorted: "keys_sorted ?parts" using assms(1) by (simp add: true_parts_def)
  have less: "start < length ?parts"
    using a0 upper_bound_le [of fst ?parts "from"] unfolding start_def after_def by linarith
  obtain sp b where p: "?parts ! start = (sp, b)" by (cases "?parts ! start")
  have "start < length (takeWhile (\<lambda>p. fst p \<le> from) ?parts)"
    using a0 unfolding start_def after_def upper_bound_def by linarith
  then have "?parts ! start \<in> set (takeWhile (\<lambda>p. fst p \<le> from) ?parts)"
    using nth_mem takeWhile_nth by metis
  then have sp: "sp \<le> from" by (auto simp: p dest: set_takeWhileD)
  have drop: "drop start ?parts = (sp, b) # drop after ?parts"
    using less p a0 by (simp add: start_def Cons_nth_drop_Suc [symmetric])
  have above: "\<forall>p \<in> set (drop after ?parts). from < fst p"
    using split_upper_bound(2) [of fst ?parts "from"] sorted by (auto simp: after_def sorted_wrt_map)
  define rest where "rest = takeWhile (\<lambda>p. fst p < till) (drop after ?parts)"
  have bt: "between = (sp, b) # rest" 
    unfolding between_def fill_range_def after_def [symmetric] start_def [symmetric] drop rest_def
    using sp assms(2) by simp
  have tp: "true_parts file base limit (between @ dropWhile (\<lambda>p. fst p < till) (drop start ?parts))"
    using assms(1) true_parts_sub [where xs = "take start ?parts" and ys = "drop start ?parts"]
    unfolding between_def fill_range_def after_def [symmetric] start_def [symmetric] by simp
  then have tb: "true_parts file base limit ((sp, b) # rest)" using true_parts_sub bt by metis
  have aligned: "sp mod kPartSize = 0" "part_of file base (sp, b)"
    using tb by (auto simp: true_parts_def part_of_def)
  have fo: "?fo \<le> from" "?fo mod kPartSize = 0" "from < ?fo + kPartSize"
    using dividend_less_div_times [of kPartSize "from"] by (simp_all add: add.commute)
  have rest_above: "\<forall>p \<in> set rest. from < fst p" using above by (auto simp: rest_def dest: set_takeWhileD)
  have "sp = ?fo"
  proof (rule ccontr)
    assume ne: "sp \<noteq> ?fo"
    have "sp \<le> ?fo" using aligned_less [of ?fo sp] aligned(1) fo sp by (cases "?fo < sp") auto
    then have "sp < ?fo" using ne by simp
    have "\<forall>p \<in> set rest. ?fo < fst p" using rest_above fo(1) le_less_trans by blast
    then have "FindNotLoadedStart rest ?fo = ?fo" by (rule FindNotLoadedStart_stop)
    then have "FindNotLoadedStart between ?fo = ?fo"
      using part_boundary [OF aligned(2,1) \<open>sp < ?fo\<close> fo(2)]
      unfolding bt FindNotLoadedStart.simps Let_def by (cases "?fo \<le> sp + length b") simp_all
    then show False using ready fo(1) assms(2) by simp
  qed
  then have find: "till \<le> FindNotLoadedStart rest (sp + length b)" using ready by (simp add: bt Let_def)
  have "from < sp + length b"
  proof (rule ccontr)
    assume "\<not> from < sp + length b"
    then have "\<forall>p \<in> set rest. sp + length b < fst p" using rest_above by auto
    then show False using find FindNotLoadedStart_stop [of rest "sp + length b"] \<open>\<not> from < sp + length b\<close> assms(2) by simp
  qed
  moreover have "\<forall>p \<in> set rest. fst p < till" by (auto simp: rest_def dest: set_takeWhileD)
  ultimately show ?thesis
    unfolding pf bt by (intro CopyLoaded_true [OF tb] sp assms(2,3) find)
qed

section \<open>Offsets to load\<close>

lemma offsets_loop_facts:
  assumes "keys_sorted check" "x \<in> set (offsets_loop check a till acc)"
  shows "x \<in> set acc \<or> a \<le> x \<and> (x - a) mod kPartSize = 0 \<and> x \<notin> fst ` set check"
  using assms
proof (induction check a till acc rule: offsets_loop.induct)
  case (1 check a till acc)
  define rest where "rest = dropWhile (\<lambda>p. fst p < a) check"
  have rest: "keys_sorted rest" "\<And>y. a \<le> y \<Longrightarrow> y \<notin> fst ` set rest \<Longrightarrow> y \<notin> fst ` set check"
  proof -
    show "keys_sorted rest"
      using 1(3) sorted_wrt_append [of "(<)" "map fst (takeWhile (\<lambda>p. fst p < a) check)"]
      by (metis map_append rest_def takeWhile_dropWhile_id)
    show "y \<notin> fst ` set check" if "a \<le> y" "y \<notin> fst ` set rest" for y
    proof -
      have "set check = set (takeWhile (\<lambda>p. fst p < a) check) \<union> set rest"
        by (metis rest_def set_append takeWhile_dropWhile_id)
      then show ?thesis using that by (auto dest: set_takeWhileD)
    qed
  qed
  have step: "a \<le> y \<and> (y - a) mod kPartSize = 0" if "a + kPartSize \<le> y" "(y - (a + kPartSize)) mod kPartSize = 0" for y
  proof -
    have e: "y - a = (y - (a + kPartSize)) + kPartSize" using that(1) by linarith
    have "(y - a) mod kPartSize = 0" unfolding e mod_add_self2 by (rule that(2))
    with add_leD1 [OF that(1)] show ?thesis by (rule conjI)
  qed
  show ?case
  proof (cases "a = till")
    case True
    then show ?thesis using 1(4) by (simp add: offsets_loop.simps)
  next
    case False
    show ?thesis
    proof (cases "rest \<noteq> [] \<and> fst (hd rest) = a")
      case True
      have "offsets_loop check a till acc = offsets_loop rest (a + kPartSize) till acc"
        using False True by (subst offsets_loop.simps) (simp add: rest_def [symmetric])
      then have "x \<in> set acc \<or> a + kPartSize \<le> x \<and> (x - (a + kPartSize)) mod kPartSize = 0 \<and> x \<notin> fst ` set rest"
        using 1(1) [OF False rest_def True rest(1)] 1(4) by simp
      then show ?thesis
      proof
        assume x: "a + kPartSize \<le> x \<and> (x - (a + kPartSize)) mod kPartSize = 0 \<and> x \<notin> fst ` set rest"
        note s = step [OF conjunct1 [OF x] conjunct1 [OF conjunct2 [OF x]]]
        show ?thesis
          by (intro disjI2 conjI s [THEN conjunct1] s [THEN conjunct2] rest(2) conjunct2 [OF conjunct2 [OF x]])
      qed (rule disjI1)
    next
      case no: False
      show ?thesis
      proof (cases "StackIntVector_add kLoadFromRemoteMax acc a")
        case None
        have "offsets_loop check a till acc = acc"
          using False no None by (subst offsets_loop.simps) (auto simp: rest_def [symmetric])
        then show ?thesis using 1(4) by simp
      next
        case (Some acc')
        have eq: "offsets_loop check a till acc = offsets_loop rest (a + kPartSize) till acc'"
          using False no Some by (subst offsets_loop.simps) (auto simp: rest_def [symmetric])
        have acc': "set acc' = insert a (set acc)"
          using Some by (auto simp: StackIntVector_add_def split: if_splits)
        have a: "a \<notin> fst ` set rest"
        proof (cases rest)
          case (Cons p ps)
          then have "\<not> fst p < a" using hd_dropWhile [of "\<lambda>p. fst p < a" check] by (simp add: rest_def)
          then show ?thesis using no rest(1) Cons by auto
        qed simp
        have "x \<in> set acc' \<or> a + kPartSize \<le> x \<and> (x - (a + kPartSize)) mod kPartSize = 0 \<and> x \<notin> fst ` set rest"
          using 1(2) [OF False rest_def no Some rest(1)] 1(4) unfolding eq by simp
        then show ?thesis
        proof
          assume "x \<in> set acc'"
          then consider "x \<in> set acc" | "x = a" using acc' by blast
          then show ?thesis
          proof cases
            case 2
            then show ?thesis using rest(2) [OF order_refl a] by simp
          qed simp
        next
          assume x: "a + kPartSize \<le> x \<and> (x - (a + kPartSize)) mod kPartSize = 0 \<and> x \<notin> fst ` set rest"
          note s = step [OF conjunct1 [OF x] conjunct1 [OF conjunct2 [OF x]]]
          show ?thesis
            by (intro disjI2 conjI s [THEN conjunct1] s [THEN conjunct2] rest(2) conjunct2 [OF conjunct2 [OF x]])
        qed
      qed
    qed
  qed
qed

lemma offsetsFromLoader_facts:
  assumes "keys_sorted parts" "x \<in> set (offsetsFromLoader a till parts)"
  shows "a \<le> x \<and> (x - a) mod kPartSize = 0 \<and> x \<notin> fst ` set parts"
proof -
  define n where "n = upper_bound fst parts a"
  define k where "k = (if n = 0 then n else n - 1)"
  have "keys_sorted (take k parts @ drop k parts)" using assms(1) by simp
  then have sorted: "keys_sorted (drop k parts)" "\<forall>p \<in> set (take k parts). \<forall>q \<in> set (drop k parts). fst p < fst q"
    by (simp_all only: map_append sorted_wrt_append) auto
  have x: "a \<le> x \<and> (x - a) mod kPartSize = 0 \<and> x \<notin> fst ` set (drop k parts)"
    using offsets_loop_facts [OF sorted(1), of x a till "[]"] assms(2)
    unfolding offsetsFromLoader_def Let_def n_def [symmetric] k_def [symmetric] by simp
  have "fst p < a" if p: "p \<in> set (take k parts)" for p
  proof -
    have "n \<noteq> 0" "k = n - 1" using p by (auto simp: k_def split: if_splits)
    then have "k < length (takeWhile (\<lambda>p. fst p \<le> a) parts)" by (simp add: n_def upper_bound_def)
    then have "fst (parts ! k) \<le> a" "k < length parts"
      using takeWhile_nth nth_mem set_takeWhileD length_takeWhile_le by (metis, metis order_less_le_trans)
    moreover have "parts ! k \<in> set (drop k parts)" using \<open>k < length parts\<close>
      by (metis Cons_nth_drop_Suc list.set_intros(1))
    ultimately show ?thesis using sorted(2) p by fastforce
  qed
  then have "x \<notin> fst ` set (take k parts)" using x by fastforce
  then show ?thesis using x by (metis append_take_drop_id image_Un Un_iff set_append)
qed

lemma FindNotLoadedStart_aligned:
  assumes "\<forall>p \<in> set parts. part_of file base p" "r mod kPartSize = 0 \<or> base + r = length file"
  shows "FindNotLoadedStart parts r mod kPartSize = 0 \<or> base + FindNotLoadedStart parts r = length file"
  using assms
proof (induction parts arbitrary: r)
  case (Cons p parts)
  obtain s b where p: "p = (s, b)" by (cases p)
  have "part_of file base (s, b)" using Cons.prems(1) p by simp
  then have "(s + length b) mod kPartSize = 0 \<or> base + (s + length b) = length file"
    by (auto simp: part_of_def min_def)
  then show ?case using Cons by (simp add: p Let_def)
qed simp

lemma prepareFill_offsets:
  assumes "true_parts file base limit (rs_parts s)" "base + till \<le> length file"
    and "x \<in> set (pf_offsetsFromLoader (prepareFill a till s))"
  shows "x mod kPartSize = 0 \<and> x \<notin> fst ` set (rs_parts s)"
proof -
  let ?fo = "a div kPartSize * kPartSize"
  define h where "h = FindNotLoadedStart (fill_range a till (rs_parts s)) ?fo"
  define b where "b = (if upper_bound fst (rs_parts s) a = 0 then ?fo
      else if h < till then h else (till + kPartSize - 1) div kPartSize * kPartSize)"
  have "set (fill_range a till (rs_parts s)) \<subseteq> set (rs_parts s)"
    by (auto simp: fill_range_def dest!: set_takeWhileD in_set_dropD)
  then have "h mod kPartSize = 0 \<or> base + h = length file"
    unfolding h_def using assms(1) by (intro FindNotLoadedStart_aligned) (auto simp: true_parts_def)
  then have b: "b mod kPartSize = 0" using assms(2) by (auto simp: b_def)
  have x: "b \<le> x" "(x - b) mod kPartSize = 0" "x \<notin> fst ` set (rs_parts s)"
    using offsetsFromLoader_facts [of "rs_parts s" x b] assms(1,3)
    unfolding prepareFill_view PrepareFillResult.simps h_def [symmetric] b_def [symmetric] true_parts_def by blast+
  have "x mod kPartSize = (b + (x - b)) mod kPartSize" using x(1) by simp
  also have "\<dots> = 0" using b x(2) by (metis add_cancel_right_right mod_add_left_eq mod_add_right_eq mod_0 add_0)
  finally show ?thesis using x(3) by simp
qed

section \<open>Cache entries read back\<close>

lemma length_int_bytes [simp]: "length (int_bytes n) = 4"
  by (simp add: int_bytes_def)

lemma bytes_int_inverse:
  assumes "n < 2 ^ 32"
  shows "bytes_int (int_bytes n) = n"
proof -
  have u: "unat (word_of_nat m :: 8 word) = m mod 256" for m by (simp add: unat_of_nat)
  have d: "n div 65536 = n div 256 div 256" "n div 16777216 = n div 256 div 256 div 256"
    using div_mult2_eq [of n 256 256] div_mult2_eq [of n 65536 256] by simp_all
  have "n div 256 div 256 div 256 < 256" using assms by (simp flip: d(2)) 
  then have "bytes_int (int_bytes n)
      = n mod 256 + 256 * (n div 256 mod 256 + 256 * (n div 256 div 256 mod 256 + 256 * (n div 256 div 256 div 256)))"
    by (simp add: bytes_int_def int_bytes_def u d)
  also have "\<dots> = n" by (simp only: mod_mult_div_eq)
  finally show ?thesis .
qed

lemma takeInt_int_bytes [simp]: "n < 2 ^ 32 \<Longrightarrow> takeInt (int_bytes n @ rest) = (Some n, rest)"
  by (simp add: takeInt_def bytes_int_inverse)

lemma flat_emplace_snoc: "\<forall>p \<in> set acc. fst p < k \<Longrightarrow> flat_emplace k v acc = acc @ [(k, v)]"
  by (induction k v acc rule: flat_emplace.induct) auto

definition fits :: "nat \<Rightarrow> PartsMap \<Rightarrow> bool" where
  "fits maxSize parts \<longleftrightarrow> keys_sorted parts \<and> (\<forall>(s, b) \<in> set parts. b \<noteq> [] \<and> length b \<le> kPartSize \<and> s + length b \<le> maxSize)"

lemma parse_entries_serialized:
  assumes "fits maxSize parts" "maxSize < 2 ^ 32" "\<forall>p \<in> set acc. \<forall>q \<in> set parts. fst p < fst q"
  shows "parse_entries (length parts) acc
      (concat (map (\<lambda>(offset, part). int_bytes offset @ int_bytes (length part) @ part) parts) @ rest) maxSize
    = (acc @ parts, rest)"
  using assms
proof (induction parts arbitrary: acc)
  case (Cons p parts)
  obtain s b where p: "p = (s, b)" by (cases p)
  have len: "0 < length b" "s + length b \<le> maxSize" "length b \<le> kPartSize"
    using Cons.prems(1) by (auto simp: fits_def p)
  then have sb: "b \<noteq> []" "s + length b \<le> maxSize" "s < maxSize" "s < 2 ^ 32" "length b < 2 ^ 31" "length b < 2 ^ 32" "length b \<noteq> 0"
    using Cons.prems(2) len unfolding kPartSize_def by - (simp; fail | linarith)+
  have "parse_entries (length parts) (acc @ [(s, b)])
      (concat (map (\<lambda>(offset, part). int_bytes offset @ int_bytes (length part) @ part) parts) @ rest) maxSize
    = ((acc @ [(s, b)]) @ parts, rest)"
    using Cons.prems by (intro Cons.IH) (auto simp: fits_def p)
  moreover have "flat_emplace s b acc = acc @ [(s, b)]"
    using Cons.prems(3) by (intro flat_emplace_snoc) (simp add: p)
  moreover have "takeBytes (length b) (b @ r) = (b, r)" for r
    using sb by (simp add: takeBytes_def)
  ultimately show ?case using sb(1,2,4,5,6)
    by (simp add: p value_or_def Let_def sb(3) [unfolded not_le [symmetric]])
qed simp

lemma ParseComplexCachedMap_serialized:
  assumes "fits (nat (u32 maxSize)) parts" "length parts \<le> 80"
  shows "ParseComplexCachedMap [] (SerializeComplexPartsMap parts @ rest) maxSize = (parts, rest)"
proof -
  have "length parts < 2 ^ 32" "kMaxOnlyInHeader div kPartSize = 80"
    using assms(2) by (simp_all add: kMaxOnlyInHeader_def)
  moreover have "nat (u32 maxSize) < 2 ^ 32" using u32_less [of maxSize] by (simp add: nat_less_iff)
  ultimately show ?thesis
    using parse_entries_serialized [OF assms(1), of "[]" rest] assms(2)
    by (cases parts) (simp_all add: ParseComplexCachedMap_def SerializeComplexPartsMap_def)
qed

text \<open>Parts that follow each other without a gap.\<close>

fun chain :: "nat \<Rightarrow> PartsMap \<Rightarrow> bool" where
  "chain r [] \<longleftrightarrow> True"
| "chain r ((s, b) # parts) \<longleftrightarrow> s = r \<and> b \<noteq> [] \<and> length b \<le> kPartSize
     \<and> (parts \<noteq> [] \<longrightarrow> length b = kPartSize) \<and> chain (s + length b) parts"

lemma chain_of_true_parts:
  assumes "true_parts file base limit ((s, b) # parts)"
    and "fst (last ((s, b) # parts)) < FindNotLoadedStart parts (s + length b)"
  shows "chain s ((s, b) # parts)"
  using assms
proof (induction parts arbitrary: s b)
  case Nil
  then show ?case using part_of_length [of "file" base s b] by (auto simp: true_parts_Cons)
next
  case (Cons p parts)
  obtain s' b' where p: "p = (s', b')" by (cases p)
  note t = Cons.prems(1) [unfolded p true_parts_Cons]
  have b: "length b \<le> kPartSize" "b \<noteq> []" using t part_of_length [of "file" base s b] by auto
  have s': "s + kPartSize \<le> s'" using t by auto
  have "s' \<le> fst (last ((s', b') # parts))"
    using t by (cases parts) (auto simp: last_in_set dest!: bspec [OF _ last_in_set])
  then have "s' < FindNotLoadedStart (p # parts) (s + length b)" using Cons.prems(2) by (simp add: p)
  then have eq: "s' = s + length b" "FindNotLoadedStart (p # parts) (s + length b) = FindNotLoadedStart parts (s' + length b')"
    using s' b(1) by (auto simp: p Let_def split: if_splits)
  have "chain s' ((s', b') # parts)"
    using Cons.prems eq(2) t by (intro Cons.IH) (auto simp: p true_parts_Cons)
  then show ?case using eq(1) s' b by (simp add: p)
qed

lemma split_parts_chain:
  assumes "chain (length pre) parts" "\<forall>p \<in> set acc. fst p < length pre"
  shows "split_parts (length pre) (pre @ concat (map snd parts)) acc = acc @ parts"
  using assms
proof (induction parts arbitrary: pre acc)
  case Nil
  then show ?case by (simp add: split_parts.simps)
next
  case (Cons p parts)
  obtain b where p: "p = (length pre, b)" "b \<noteq> []" "length b \<le> kPartSize" "parts \<noteq> [] \<longrightarrow> length b = kPartSize"
      "chain (length (pre @ b)) parts"
    using Cons.prems(1) by (cases p) auto
  have t: "take (min kPartSize (length b + length (concat (map snd parts)))) (b @ concat (map snd parts)) = b"
    using p(3,4) by (cases "parts = []") auto
  have "split_parts (length pre) (pre @ concat (map snd (p # parts))) acc
      = split_parts (length pre + kPartSize) (pre @ b @ concat (map snd parts)) (acc @ [(length pre, b)])"
    using p(2) t Cons.prems(2)
    by (subst split_parts.simps) (simp add: p(1) flat_emplace_snoc)
  also have "\<dots> = acc @ p # parts"
  proof (cases "parts = []")
    case True
    then show ?thesis using p(1,3) by (subst split_parts.simps) simp
  next
    case False
    then have "length (pre @ b) = length pre + kPartSize" using p(4) by simp
    then show ?thesis
      using Cons.IH [of "pre @ b" "acc @ [(length pre, b)]"] p(1,2,5) Cons.prems(2) by fastforce
  qed
  finally show ?case .
qed

end
