(* ===== verification/StreamingSlices.thy ===== *)
theory StreamingSlices imports StreamingParts begin

text \<open>
  The slices of a streamed file: \<open>Reader::Slices\<close> of \<open>media/streaming/media_streaming_reader.cpp\<close>.
  The file is kept in slices of 64 parts, the first parts that are read also in a header that is cached
  on its own; slices that are not used are written to the cache and left. A failed \<open>Expects\<close> or
  \<open>Assert\<close> is \<open>None\<close>.
\<close>

datatype HeaderMode = ModeUnknown | ModeSmall | ModeGood | ModeFull | ModeNoCache

record Slices =
  ss_data :: "Slice list"
  ss_header :: Slice
  ss_usedSlices :: "nat list"
  ss_size :: nat
  ss_headerMode :: HeaderMode
  ss_fullInCache :: bool

datatype FillState = FillSuccess | FillWaitingCache | FillWaitingRemote | FillFailed

record SerializedSlice =
  se_number :: int
  se_data :: PartBytes

definition noSerialized :: SerializedSlice where
  "noSerialized = \<lparr>se_number = -1, se_data = []\<rparr>"

record FillResult =
  fr_sliceNumbersFromCache :: "nat list"
  fr_offsetsFromLoader :: "nat list"
  fr_toCache :: SerializedSlice
  fr_state :: FillState

definition newFillResult :: FillResult where
  "newFillResult = \<lparr>fr_sliceNumbersFromCache = [], fr_offsetsFromLoader = [], fr_toCache = noSerialized,
     fr_state = FillWaitingRemote\<rparr>"

definition assert :: "bool \<Rightarrow> unit option" where
  "assert b = (if b then Some () else None)"

definition at_slice :: "nat \<Rightarrow> (Slice \<Rightarrow> Slice option) \<Rightarrow> Slice list \<Rightarrow> Slice list option" where
  "at_slice i f data =
     (if i < length data then map_option (\<lambda>x. data[i := x]) (f (data ! i)) else None)"

definition get_slice :: "nat \<Rightarrow> Slices \<Rightarrow> Slice" where
  "get_slice sliceNumber s = (if sliceNumber \<noteq> 0 then ss_data s ! (sliceNumber - 1) else ss_header s)"

definition put_slice :: "nat \<Rightarrow> Slice \<Rightarrow> Slices \<Rightarrow> Slices" where
  "put_slice sliceNumber x s =
     (if sliceNumber \<noteq> 0 then s\<lparr>ss_data := (ss_data s)[sliceNumber - 1 := x]\<rparr> else s\<lparr>ss_header := x\<rparr>)"

section \<open>The header\<close>

definition newSlices :: "nat \<Rightarrow> bool \<Rightarrow> Slices option" where
  "newSlices sz useCache =
     do { assert (sz > 0);
          let s = \<lparr>ss_data = [], ss_header = newSlice, ss_usedSlices = [], ss_size = sz,
                   ss_headerMode = ModeUnknown, ss_fullInCache = False\<rparr>;
          let s = (if useCache then s\<lparr>ss_header := newSlice\<lparr>rs_LoadingFromCache := True\<rparr>\<rparr>
                   else s\<lparr>ss_headerMode := ModeNoCache\<rparr>);
          if \<not> IsFullInHeader sz
          then do { count \<leftarrow> SlicesCount sz; Some (s\<lparr>ss_data := replicate count newSlice\<rparr>) }
          else Some s }"

definition headerModeUnknown :: "Slices \<Rightarrow> bool" where
  "headerModeUnknown s \<longleftrightarrow> ss_headerMode s = ModeUnknown"

definition isFullInHeader :: "Slices \<Rightarrow> bool" where
  "isFullInHeader s \<longleftrightarrow> IsFullInHeader (ss_size s)"

definition isGoodHeader :: "Slices \<Rightarrow> bool" where
  "isGoodHeader s \<longleftrightarrow> ss_headerMode s = ModeGood"

definition computeIsGoodHeader :: "Slices \<Rightarrow> bool" where
  "computeIsGoodHeader s = ComputeIsGoodHeader (ss_size s) (rs_parts (ss_header s))"

definition headerDone :: "bool \<Rightarrow> Slices \<Rightarrow> Slices option" where
  "headerDone fromCache s =
     (if ss_headerMode s \<noteq> ModeUnknown then Some s
      else let s = s\<lparr>ss_headerMode := (if isFullInHeader s then ModeFull
                                     else if computeIsGoodHeader s then ModeGood else ModeSmall)\<rparr>
           in if \<not> fromCache
              then do { assert (list_all (\<lambda>x. \<not> (rs_LoadingFromCache x \<or> rs_LoadedFromCache x)) (ss_data s));
                        Some (s\<lparr>ss_data := map (\<lambda>x. x\<lparr>rs_LoadedFromCache := True\<rparr>) (ss_data s)\<rparr>) }
              else Some s)"

definition headerSize :: "Slices \<Rightarrow> nat" where
  "headerSize s = length (rs_parts (ss_header s)) * kPartSize"

definition fullInCache :: "Slices \<Rightarrow> bool" where
  "fullInCache s = ss_fullInCache s"

definition requestSliceSizesCount :: "Slices \<Rightarrow> nat" where
  "requestSliceSizesCount s = (if \<not> headerModeUnknown s \<or> isFullInHeader s then 0 else length (ss_data s))"

definition headerWontBeFilled :: "Slices \<Rightarrow> bool" where
  "headerWontBeFilled s \<longleftrightarrow> headerModeUnknown s \<and> length (rs_parts (ss_header s)) \<ge> kMaxPartsInHeader"

definition waitingForHeaderCache :: "Slices \<Rightarrow> bool" where
  "waitingForHeaderCache s = rs_LoadingFromCache (ss_header s)"

fun apply_while :: "(nat \<Rightarrow> bool) \<Rightarrow> PartsMap \<Rightarrow> Slice list \<Rightarrow> Slice list option" where
  "apply_while predicate [] data = Some data"
| "apply_while predicate ((offset, part) # parts) data =
     (let index = offset div kInSlice
      in if \<not> predicate index then Some data
         else do { data \<leftarrow> at_slice index (addPart (offset - index * kInSlice) part) data;
                   apply_while predicate parts data })"

definition applyHeaderCacheData :: "Slices \<Rightarrow> Slices option" where
  "applyHeaderCacheData s =
     (let applyWhile = (\<lambda>predicate. do { data \<leftarrow> apply_while predicate (rs_parts (ss_header s)) (ss_data s);
                                        Some (s\<lparr>ss_data := data\<rparr>) })
      in if rs_parts (ss_header s) = [] then Some s
         else if ss_headerMode s = ModeGood then applyWhile (\<lambda>index. index = 0)
         else if ss_headerMode s \<noteq> ModeUnknown then Some s
         else if isFullInHeader s then headerDone True s
         else do { s \<leftarrow> applyWhile (\<lambda>index. index < length (ss_data s)); headerDone True s })"

section \<open>What comes from the cache and from the server\<close>

definition checkFullInCache :: "Slices \<Rightarrow> bool" where
  "checkFullInCache s =
     (if isFullInHeader s then rs_FullInCache (ss_header s) else list_all rs_FullInCache (ss_data s))"

definition checkSliceFullLoaded :: "nat \<Rightarrow> Slices \<Rightarrow> Slices" where
  "checkSliceFullLoaded sliceNumber s =
     (if sliceNumber = 0 \<and> \<not> isFullInHeader s then s
      else let partsCount =
                 (if sliceNumber = 0 then (ss_size s + kPartSize - 1) div kPartSize
                  else if sliceNumber < length (ss_data s) then kPartsInSlice
                  else (ss_size s - (sliceNumber - 1) * kInSlice + kPartSize - 1) div kPartSize);
               sl = get_slice sliceNumber s;
               loaded = (length (rs_parts sl) = partsCount)
           in if rs_FullInCache sl \<and> \<not> loaded
              then (put_slice sliceNumber (sl\<lparr>rs_FullInCache := False\<rparr>) s)\<lparr>ss_fullInCache := False\<rparr>
              else if \<not> rs_FullInCache sl \<and> loaded
              then let s = put_slice sliceNumber (sl\<lparr>rs_FullInCache := True\<rparr>) s
                   in s\<lparr>ss_fullInCache := checkFullInCache s\<rparr>
              else s)"

definition processCacheResult :: "nat \<Rightarrow> PartsMap \<Rightarrow> Slices \<Rightarrow> Slices option" where
  "processCacheResult sliceNumber result s =
     do { assert (sliceNumber \<le> length (ss_data s));
          if sliceNumber = 0 \<and> isGoodHeader s \<and> \<not> rs_LoadingFromCache (ss_data s ! 0) then Some s
          else do {
            let sl = get_slice sliceNumber s;
            let sl = (if sliceNumber = 0 \<and> isGoodHeader s
                         then sl\<lparr>rs_LoadingFromCache := True, rs_LoadedFromCache := False\<rparr> else sl);
            let s = put_slice sliceNumber sl s;
            if \<not> rs_LoadingFromCache sl then Some s
            else do {
              sl \<leftarrow> processCacheData result sl;
              let s = checkSliceFullLoaded sliceNumber (put_slice sliceNumber sl s);
              if sliceNumber = 0
              then do { s \<leftarrow> applyHeaderCacheData s;
                        Some (if isGoodHeader s
                              then s\<lparr>ss_data := (ss_data s)[0 := (ss_data s ! 0)\<lparr>rs_LoadingFromCache := True\<rparr>]\<rparr>
                              else s) }
              else Some s } } }"

fun cached_sizes_loop :: "nat list \<Rightarrow> nat \<Rightarrow> nat \<Rightarrow> nat \<Rightarrow> Slice list \<Rightarrow> nat \<times> Slice list" where
  "cached_sizes_loop [] i loadedCount sz data = (loadedCount, data)"
| "cached_sizes_loop (x # sizes) i loadedCount sz data =
     (let sliceNumber = i + 1;
          sliceSize = (if sliceNumber < length data then kInSlice else sz - (sliceNumber - 1) * kInSlice);
          loaded = (x = sliceSize)
      in if rs_FullInCache (data ! i) then cached_sizes_loop sizes (i + 1) (loadedCount + 1) sz data
         else if loaded
         then cached_sizes_loop sizes (i + 1) (loadedCount + 1) sz (data[i := (data ! i)\<lparr>rs_FullInCache := True\<rparr>])
         else cached_sizes_loop sizes (i + 1) loadedCount sz data)"

definition processCachedSizes :: "nat list \<Rightarrow> Slices \<Rightarrow> Slices option" where
  "processCachedSizes sizes s =
     do { assert (length sizes = length (ss_data s));
          let (loadedCount, data) = cached_sizes_loop sizes 0 0 (ss_size s) (ss_data s);
          Some (s\<lparr>ss_data := data, ss_fullInCache := (loadedCount = length sizes)\<rparr>) }"

definition processPart :: "nat \<Rightarrow> PartBytes \<Rightarrow> Slices \<Rightarrow> Slices option" where
  "processPart offset bytes s =
     do { assert (isFullInHeader s \<or> offset div kInSlice < length (ss_data s));
          if isFullInHeader s
          then do { header \<leftarrow> addPart offset bytes (ss_header s);
                    Some (checkSliceFullLoaded 0 (s\<lparr>ss_header := header\<rparr>)) }
          else if ss_headerMode s = ModeUnknown \<and> offset \<in> fst ` set (rs_parts (ss_header s)) then Some s
          else do {
            s \<leftarrow> (if ss_headerMode s = ModeUnknown \<and> length (rs_parts (ss_header s)) < kMaxPartsInHeader
                 then do { header \<leftarrow> addPart offset bytes (ss_header s); Some (s\<lparr>ss_header := header\<rparr>) }
                 else Some s);
            let index = offset div kInSlice;
            data \<leftarrow> at_slice index (addPart (offset - index * kInSlice) bytes) (ss_data s);
            Some (checkSliceFullLoaded (index + 1) (s\<lparr>ss_data := data\<rparr>)) } }"

section \<open>Unloading to the cache\<close>

definition unloadSlice :: "Slice \<Rightarrow> Slice" where
  "unloadSlice sl = newSlice\<lparr>rs_FullInCache := rs_FullInCache sl\<rparr>"

definition serializeComplexSlice :: "Slice \<Rightarrow> PartBytes" where
  "serializeComplexSlice sl = SerializeComplexPartsMap (rs_parts sl)"

definition serializeAndUnloadFirstSliceNoHeader :: "Slices \<Rightarrow> (PartBytes \<times> Slices) option" where
  "serializeAndUnloadFirstSliceNoHeader s =
     do { assert (rs_LoadedFromCache (ss_data s ! 0));
          let sl = ss_data s ! 0;
          let sl = sl\<lparr>rs_parts := foldl (\<lambda>parts (offset, part). flat_erase offset parts)
                                            (rs_parts sl) (rs_parts (ss_header s))\<rparr>;
          Some (serializeComplexSlice sl, s\<lparr>ss_data := (ss_data s)[0 := unloadSlice sl]\<rparr>) }"

function pad_serialization :: "int \<Rightarrow> PartBytes \<Rightarrow> PartBytes" where
  "pad_serialization maxSize data =
     (if IsContiguousSerialization (int (length data)) maxSize then pad_serialization maxSize (data @ [0]) else data)"
  by pat_completeness auto

lemma contiguous_mod:
  "IsContiguousSerialization (int n) m \<longleftrightarrow> n mod kPartSize = 0 \<or> int n = m"
  by (simp add: IsContiguousSerialization_def flip: zmod_int)

lemma mod_kPartSize_Suc: "n mod kPartSize = 0 \<Longrightarrow> Suc n mod kPartSize \<noteq> 0 \<and> Suc (Suc n) mod kPartSize \<noteq> 0"
  by (auto simp: mod_Suc kPartSize_def)

termination pad_serialization
proof (relation "measure (\<lambda>(maxSize, data :: PartBytes).
    2 * nat (maxSize + 1 - int (length data)) + (if length data mod kPartSize = 0 then 1 else 0))", simp, goal_cases)
  case (1 maxSize data)
  then show ?case using mod_kPartSize_Suc [of "length data"]
    by (cases "int (length data) \<le> maxSize") (auto simp: contiguous_mod)
qed

declare pad_serialization.simps [simp del]

definition serializeAndUnloadSlice :: "nat \<Rightarrow> Slices \<Rightarrow> (SerializedSlice \<times> Slices) option" where
  "serializeAndUnloadSlice number s =
     do { assert (ss_headerMode s \<noteq> ModeUnknown);
          assert (ss_headerMode s \<noteq> ModeNoCache);
          assert (number \<le> length (ss_data s));
          let sliceNumber = (if isGoodHeader s \<and> number = 1 then 0 else number);
          let writeHeaderAndSlice = (isGoodHeader s \<and> sliceNumber = 0);
          let sl = get_slice sliceNumber s;
          assert (rs_parts sl \<noteq> []);
          let continuousTill = (if writeHeaderAndSlice then 0 else FindNotLoadedStart (rs_parts sl) 0);
          (data, s) \<leftarrow>
            (if continuousTill > fst (last (rs_parts sl))
             then Some (concat (map snd (rs_parts sl)), s)
             else do { let data = serializeComplexSlice sl;
                       (data, s) \<leftarrow> (if writeHeaderAndSlice
                          then do { (more, s) \<leftarrow> serializeAndUnloadFirstSliceNoHeader s; Some (data @ more, s) }
                          else Some (data, s));
                       maxSize \<leftarrow> MaxSliceSize sliceNumber (ss_size s);
                       Some (pad_serialization maxSize data, s) });
          let sl = get_slice sliceNumber s;
          Some (\<lparr>se_number = int sliceNumber, se_data = data\<rparr>,
                put_slice sliceNumber (if sliceNumber \<noteq> 0 then unloadSlice sl
                                       else sl\<lparr>rs_ChangedSinceCache := False\<rparr>) s) }"

definition markSliceUsed :: "nat \<Rightarrow> Slices \<Rightarrow> Slices" where
  "markSliceUsed sliceIndex s =
     s\<lparr>ss_usedSlices := (if sliceIndex \<in> set (ss_usedSlices s)
        then (let i = length (takeWhile (\<lambda>j. j \<noteq> sliceIndex) (ss_usedSlices s))
              in take i (ss_usedSlices s) @ rotate1 (drop i (ss_usedSlices s)))
        else ss_usedSlices s @ [sliceIndex])\<rparr>"

definition serializeAndUnloadUnused :: "Slices \<Rightarrow> (SerializedSlice \<times> Slices) option" where
  "serializeAndUnloadUnused s =
     (if ss_headerMode s = ModeUnknown \<or> length (ss_usedSlices s) \<le> kSlicesInMemory then Some (noSerialized, s)
      else let purgeSlice = hd (ss_usedSlices s);
               s = s\<lparr>ss_usedSlices := tl (ss_usedSlices s)\<rparr>
           in do {
             assert (purgeSlice < length (ss_data s));
             let sl = ss_data s ! purgeSlice;
             if \<not> rs_LoadedFromCache sl then Some (noSerialized, s)
             else let noNeedToSaveToCache =
                        (ss_headerMode s = ModeNoCache
                         \<or> \<not> rs_ChangedSinceCache sl
                           \<and> (\<not> isGoodHeader s \<or> purgeSlice > 0 \<or> \<not> rs_ChangedSinceCache (ss_header s)))
                  in if noNeedToSaveToCache
                     then Some (noSerialized, s\<lparr>ss_data := (ss_data s)[purgeSlice := unloadSlice sl]\<rparr>)
                     else serializeAndUnloadSlice (purgeSlice + 1) s })"

definition unloadToCache :: "Slices \<Rightarrow> (SerializedSlice \<times> Slices) option" where
  "unloadToCache s =
     (if ss_headerMode s = ModeUnknown \<or> ss_headerMode s = ModeNoCache then Some (noSerialized, s)
      else if rs_ChangedSinceCache (ss_header s) then serializeAndUnloadSlice 0 s
      else (case find (\<lambda>i. rs_ChangedSinceCache (ss_data s ! i)) [0 ..< length (ss_data s)] of
              None \<Rightarrow> Some (noSerialized, s)
            | Some i \<Rightarrow> serializeAndUnloadSlice (i + 1) s))"

section \<open>Filling a buffer\<close>

definition stack_add :: "nat \<Rightarrow> nat list \<Rightarrow> nat \<Rightarrow> nat list" where
  "stack_add sz storage v = value_or (StackIntVector_add sz storage v) storage"

text \<open>\<open>bytes::copy\<close> into the part of a buffer that begins at a position.\<close>

definition write_span :: "nat \<Rightarrow> PartBytes \<Rightarrow> PartBytes \<Rightarrow> PartBytes option" where
  "write_span pos src buffer =
     (if pos + length src \<le> length buffer then Some (take pos buffer @ src @ drop (pos + length src) buffer) else None)"

definition fillFromHeader :: "nat \<Rightarrow> PartBytes \<Rightarrow> Slices \<Rightarrow> (FillResult \<times> PartBytes \<times> Slices) option" where
  "fillFromHeader offset buffer s =
     (let from = offset; till = offset + length buffer;
          prepared = prepareFill from till (ss_header s);
          result = newFillResult\<lparr>fr_offsetsFromLoader :=
            foldl (\<lambda>offsets full. if full < ss_size s then stack_add kLoadFromRemoteMax offsets full else offsets)
              [] (pf_offsetsFromLoader prepared)\<rparr>
      in if pf_ready prepared
         then do { src \<leftarrow> CopyLoaded (pf_parts prepared) from till;
                   buffer \<leftarrow> write_span 0 src buffer;
                   Some (result\<lparr>fr_state := FillSuccess\<rparr>, buffer, s) }
         else Some (result, buffer, s))"

definition cacheNotLoaded :: "Slices \<Rightarrow> nat \<Rightarrow> bool" where
  "cacheNotLoaded s sliceIndex \<longleftrightarrow>
     ss_headerMode s \<noteq> ModeNoCache \<and> ss_headerMode s \<noteq> ModeUnknown
     \<and> \<not> rs_LoadedFromCache (ss_data s ! sliceIndex)"

definition handlePrepareResult :: "Slices \<Rightarrow> nat \<Rightarrow> PrepareFillResult \<Rightarrow> FillResult \<Rightarrow> FillResult" where
  "handlePrepareResult s sliceIndex prepared result =
     (if cacheNotLoaded s sliceIndex then result
      else result\<lparr>fr_offsetsFromLoader :=
        foldl (\<lambda>offsets offset. let full = offset + sliceIndex * kInSlice
                               in if offset < kInSlice \<and> full < ss_size s
                                  then stack_add kLoadFromRemoteMax offsets full else offsets)
          (fr_offsetsFromLoader result) (pf_offsetsFromLoader prepared)\<rparr>)"

definition handleReadFromCache :: "nat \<Rightarrow> FillResult \<times> Slices \<Rightarrow> FillResult \<times> Slices" where
  "handleReadFromCache sliceIndex = (\<lambda>(result, s).
     if cacheNotLoaded s sliceIndex
     then let sl = ss_data s ! sliceIndex
          in if \<not> rs_LoadingFromCache sl
             then (result\<lparr>fr_sliceNumbersFromCache :=
                       stack_add kReadFromCacheMax (fr_sliceNumbersFromCache result) (sliceIndex + 1),
                     fr_state := FillWaitingCache\<rparr>,
                   s\<lparr>ss_data := (ss_data s)[sliceIndex := sl\<lparr>rs_LoadingFromCache := True\<rparr>]\<rparr>)
             else (result\<lparr>fr_state := FillWaitingCache\<rparr>, s)
     else (result, s))"

definition slices_fill :: "nat \<Rightarrow> PartBytes \<Rightarrow> Slices \<Rightarrow> (FillResult \<times> PartBytes \<times> Slices) option" where
  "slices_fill offset buffer s =
     do { assert (buffer \<noteq> []);
          assert (offset < ss_size s);
          assert (offset + length buffer \<le> ss_size s);
          assert (length buffer \<le> kInSlice);
          if ss_headerMode s \<noteq> ModeNoCache \<and> \<not> rs_LoadedFromCache (ss_header s)
          then do { assert (waitingForHeaderCache s); Some (newFillResult, buffer, s) }
          else if isFullInHeader s then fillFromHeader offset buffer s
          else do {
            let till = offset + length buffer;
            let fromSlice = offset div kInSlice;
            let tillSlice = (till + kInSlice - 1) mod 2 ^ 32 div kInSlice;
            let two = (fromSlice + 1 < tillSlice);
            assert ((fromSlice + 1 = tillSlice \<or> fromSlice + 2 = tillSlice) \<and> tillSlice \<le> length (ss_data s));
            let firstFrom = offset - fromSlice * kInSlice;
            let firstTill = min kInSlice (till - fromSlice * kInSlice);
            let secondFrom = 0;
            let secondTill = (if till > (fromSlice + 1) * kInSlice then till - (fromSlice + 1) * kInSlice else 0);
            let first = prepareFill firstFrom firstTill (ss_data s ! fromSlice);
            let second = (if two then prepareFill secondFrom secondTill (ss_data s ! (fromSlice + 1))
                          else \<lparr>pf_offsetsFromLoader = [], pf_parts = [], pf_ready = True\<rparr>);
            let result = handlePrepareResult s fromSlice first newFillResult;
            let result = (if two then handlePrepareResult s (fromSlice + 1) second result else result);
            if pf_ready first \<and> pf_ready second
            then do {
              let s = markSliceUsed fromSlice s;
              src \<leftarrow> CopyLoaded (pf_parts first) firstFrom firstTill;
              buffer \<leftarrow> write_span 0 src buffer;
              (buffer, s) \<leftarrow>
                (if two
                 then do { let s = markSliceUsed (fromSlice + 1) s;
                           src \<leftarrow> CopyLoaded (pf_parts second) secondFrom secondTill;
                           buffer \<leftarrow> write_span (firstTill - firstFrom) src buffer;
                           Some (buffer, s) }
                 else Some (buffer, s));
              (toCache, s) \<leftarrow> serializeAndUnloadUnused s;
              Some (result\<lparr>fr_toCache := toCache, fr_state := FillSuccess\<rparr>, buffer, s) }
            else do {
              let (result, s) = handleReadFromCache fromSlice (result, s);
              let (result, s) = (if two then handleReadFromCache (fromSlice + 1) (result, s) else (result, s));
              Some (result, buffer, s) } } }"

section \<open>Parts for a download\<close>

definition partForDownloader :: "nat \<Rightarrow> Slices \<Rightarrow> PartBytes option" where
  "partForDownloader offset s =
     do { assert (offset < ss_size s);
          case map_of (rs_parts (ss_header s)) offset of
            Some part \<Rightarrow> Some part
          | None \<Rightarrow>
              if isFullInHeader s then Some []
              else let index = offset div kInSlice
                   in do { assert (index < length (ss_data s));
                           Some (value_or (map_of (rs_parts (ss_data s ! index)) (offset - index * kInSlice)) []) } }"

definition readCacheForDownloaderRequired :: "nat \<Rightarrow> Slices \<Rightarrow> bool option" where
  "readCacheForDownloaderRequired offset s =
     do { assert (offset < ss_size s);
          assert (\<not> waitingForHeaderCache s);
          if isFullInHeader s then Some False
          else let index = offset div kInSlice
               in do { assert (index < length (ss_data s));
                       Some (\<not> rs_LoadedFromCache (ss_data s ! index)) } }"

section \<open>Slices that are right\<close>

lemma kInSlice_mod [simp]: "i * kInSlice mod kPartSize = 0" "kInSlice mod kPartSize = 0" "0 < kInSlice" "kInSlice \<noteq> 0"
  by (simp_all add: kInSlice_def kPartsInSlice_def kPartSize_def mult.assoc [symmetric])

definition streamable :: "PartBytes \<Rightarrow> bool" where
  "streamable file \<longleftrightarrow> file \<noteq> [] \<and> length file \<le> 510 * kInSlice"

definition slices_true :: "PartBytes \<Rightarrow> Slices \<Rightarrow> bool" where
  "slices_true file s \<longleftrightarrow>
     streamable file \<and> ss_size s = length file
     \<and> length (ss_data s) = (if isFullInHeader s then 0 else (length file + kInSlice - 1) div kInSlice)
     \<and> true_parts file 0 (length file) (rs_parts (ss_header s))
     \<and> (\<forall>i < length (ss_data s). true_parts file (i * kInSlice) kInSlice (rs_parts (ss_data s ! i)))"

lemma SlicesCount_streamable:
  assumes "streamable file"
  shows "SlicesCount (length file) = Some ((length file + kInSlice - 1) div kInSlice)"
proof -
  have "length file + kInSlice - 1 \<le> 511 * kInSlice - 1"
    using assms kInSlice_mod(3) unfolding streamable_def by linarith
  then have "length file + kInSlice - 1 < 2 ^ 32" "(length file + kInSlice - 1) div kInSlice \<le> (511 * kInSlice - 1) div kInSlice"
    by (auto simp: kInSlice_def kPartsInSlice_def kPartSize_def intro: div_le_mono)
  moreover have "(511 * kInSlice - 1) div kInSlice = 510"
    by (simp add: kInSlice_def kPartsInSlice_def kPartSize_def)
  ultimately show ?thesis by (simp add: SlicesCount_def)
qed

lemma slice_of_offset:
  assumes "slices_true file s" "\<not> isFullInHeader s" "x < length file"
  shows "x div kInSlice < length (ss_data s)"
proof -
  have "x + 1 + (kInSlice - 1) \<le> length file + kInSlice - 1" using assms(3) kInSlice_mod(3) by linarith
  then have "(x + kInSlice) div kInSlice \<le> (length file + kInSlice - 1) div kInSlice" by (intro div_le_mono) simp
  then show ?thesis using assms(1,2) by (simp add: slices_true_def div_add_self2)
qed

lemma slice_base_less:
  assumes "slices_true file s" "i < length (ss_data s)"
  shows "i * kInSlice < length file"
proof -
  have "(i + 1) * kInSlice \<le> (length file + kInSlice - 1) div kInSlice * kInSlice"
    using assms by (intro mult_le_mono1) (auto simp: slices_true_def split: if_splits)
  also have "\<dots> \<le> length file + kInSlice - 1" by simp
  finally have "i * kInSlice + kInSlice \<le> length file + kInSlice - 1" by simp
  then show ?thesis using kInSlice_mod(3) by linarith
qed

lemma part_of_header:
  assumes "part_of file 0 (x, b)"
  shows "part_of file (x div kInSlice * kInSlice) (x - x div kInSlice * kInSlice, b)
    \<and> x - x div kInSlice * kInSlice < kInSlice"
proof -
  have x: "x mod kPartSize = 0" "x < length file" "b = take kPartSize (drop x file)"
    using assms by (auto simp: part_of_def)
  have "kPartSize dvd x - x div kInSlice * kInSlice"
    using x(1) by (intro dvd_diff_nat mod_0_imp_dvd kInSlice_mod(1))
  moreover have "x - x div kInSlice * kInSlice = x mod kInSlice" by (simp add: minus_div_mult_eq_mod)
  ultimately show ?thesis
    using x(2,3) by (simp add: part_of_def mod_eq_0_iff_dvd)
qed

lemma keys_map_of: "k \<in> fst ` set m \<longleftrightarrow> map_of m k \<noteq> None"
  by (auto simp: map_of_eq_None_iff)

lemma true_parts_emplace:
  assumes "true_parts file base limit parts" "part_of file base (x, b)" "x < limit"
  shows "true_parts file base limit (flat_emplace x b parts)"
proof (cases "x \<in> fst ` set parts")
  case True
  then have "flat_emplace x b parts = parts"
    using assms(1) by (intro flat_emplace_present) (auto simp: keys_map_of true_parts_def)
  then show ?thesis using assms(1) by simp
next
  case False
  then show ?thesis using assms by (auto simp: true_parts_def set_flat_emplace_fresh)
qed

lemma true_parts_emplace_all:
  assumes "true_parts file base limit parts" "true_parts file base limit extra"
  shows "true_parts file base limit (foldl (\<lambda>parts (x, b). flat_emplace x b parts) parts extra)
    \<and> fst ` set (foldl (\<lambda>parts (x, b). flat_emplace x b parts) parts extra) = fst ` set parts \<union> fst ` set extra"
  using assms
proof (induction extra arbitrary: parts)
  case (Cons p extra)
  obtain x b where p: "p = (x, b)" by (cases p)
  have "true_parts file base limit (flat_emplace x b parts)"
    using Cons.prems by (intro true_parts_emplace) (auto simp: p true_parts_def)
  moreover have "true_parts file base limit extra" using Cons.prems(2) by (simp add: true_parts_def)
  ultimately show ?case using Cons.IH [of "flat_emplace x b parts"] by (auto simp: p)
qed simp

lemma true_parts_erase: "true_parts file base limit parts \<Longrightarrow> true_parts file base limit (flat_erase k parts)"
  by (auto simp: true_parts_def flat_erase_def sorted_wrt_map sorted_wrt_filter)

lemma true_parts_Nil [simp]: "true_parts file base limit []"
  by (simp add: true_parts_def)

lemma slices_true_put:
  assumes "slices_true file s" "i < length (ss_data s)"
    and "true_parts file (i * kInSlice) kInSlice (rs_parts x)"
  shows "slices_true file (s\<lparr>ss_data := (ss_data s)[i := x]\<rparr>)"
  using assms by (auto simp: slices_true_def isFullInHeader_def nth_list_update)

lemma slices_true_header:
  "slices_true file s \<Longrightarrow> true_parts file 0 (length file) (rs_parts h) \<Longrightarrow> slices_true file (s\<lparr>ss_header := h\<rparr>)"
  by (simp add: slices_true_def isFullInHeader_def)

lemma slices_true_other [simp]:
  "slices_true file (s\<lparr>ss_headerMode := m\<rparr>) = slices_true file s"
  "slices_true file (s\<lparr>ss_fullInCache := f\<rparr>) = slices_true file s"
  "slices_true file (s\<lparr>ss_usedSlices := u\<rparr>) = slices_true file s"
  by (simp_all add: slices_true_def isFullInHeader_def)

section \<open>The invariant of the slices\<close>

abbreviation keys :: "PartsMap \<Rightarrow> nat set" where
  "keys parts \<equiv> fst ` set parts"

definition slice_ok :: "Slice \<Rightarrow> bool" where
  "slice_ok x \<longleftrightarrow>
     \<not> (rs_LoadingFromCache x \<and> rs_LoadedFromCache x)
     \<and> (rs_ChangedSinceCache x \<longrightarrow> rs_LoadedFromCache x \<and> rs_parts x \<noteq> [])"

text \<open>Whether a part is held, and the slice it belongs to.\<close>

definition in_slice :: "nat \<Rightarrow> nat" where
  "in_slice x = x - x div kInSlice * kInSlice"

definition held :: "Slices \<Rightarrow> nat \<Rightarrow> bool" where
  "held s x \<longleftrightarrow> (if isFullInHeader s then x \<in> keys (rs_parts (ss_header s))
                 else in_slice x \<in> keys (rs_parts (ss_data s ! (x div kInSlice))))"

definition untouched :: "Slice \<Rightarrow> bool" where
  "untouched x \<longleftrightarrow> \<not> rs_LoadingFromCache x \<and> \<not> rs_LoadedFromCache x"

definition mode_ok :: "Slices \<Rightarrow> bool" where
  "mode_ok s \<longleftrightarrow>
     (case ss_headerMode s of
        ModeNoCache \<Rightarrow> untouched (ss_header s) \<and> list_all untouched (ss_data s)
      | ModeUnknown \<Rightarrow>
          (rs_LoadingFromCache (ss_header s) \<or> rs_LoadedFromCache (ss_header s))
          \<and> (rs_LoadingFromCache (ss_header s)
             \<longrightarrow> rs_parts (ss_header s) = [] \<and> list_all (\<lambda>x. rs_parts x = []) (ss_data s))
          \<and> list_all untouched (ss_data s)
          \<and> (\<forall>x \<in> keys (rs_parts (ss_header s)). held s x)
      | ModeFull \<Rightarrow> isFullInHeader s \<and> rs_LoadedFromCache (ss_header s)
      | ModeSmall \<Rightarrow> \<not> isFullInHeader s \<and> \<not> computeIsGoodHeader s \<and> rs_LoadedFromCache (ss_header s)
      | ModeGood \<Rightarrow> rs_LoadedFromCache (ss_header s) \<and> rs_parts (ss_header s) \<noteq> [] \<and> computeIsGoodHeader s
          \<and> (rs_ChangedSinceCache (ss_header s) \<longrightarrow> rs_LoadedFromCache (ss_data s ! 0)))"

definition slices_inv :: "PartBytes \<Rightarrow> Slices \<Rightarrow> bool" where
  "slices_inv file s \<longleftrightarrow>
     slices_true file s \<and> list_all slice_ok (ss_data s) \<and> slice_ok (ss_header s)
     \<and> set (ss_usedSlices s) \<subseteq> {..<length (ss_data s)} \<and> length (rs_parts (ss_header s)) \<le> 80
     \<and> mode_ok s"

text \<open>What is known to be whole in the cache plays no part in it.\<close>

definition strip_slice :: "Slice \<Rightarrow> Slice" where
  "strip_slice x = x\<lparr>rs_FullInCache := False\<rparr>"

definition strip :: "Slices \<Rightarrow> Slices" where
  "strip s = s\<lparr>ss_data := map strip_slice (ss_data s), ss_header := strip_slice (ss_header s), ss_fullInCache := False\<rparr>"

lemma strip_slice_simps [simp]:
  "rs_parts (strip_slice x) = rs_parts x" "rs_LoadingFromCache (strip_slice x) = rs_LoadingFromCache x"
  "rs_LoadedFromCache (strip_slice x) = rs_LoadedFromCache x" "rs_ChangedSinceCache (strip_slice x) = rs_ChangedSinceCache x"
  "strip_slice (x\<lparr>rs_FullInCache := f\<rparr>) = strip_slice x" "slice_ok (strip_slice x) = slice_ok x"
  "untouched (strip_slice x) = untouched x"
  by (simp_all add: strip_slice_def slice_ok_def untouched_def)

lemma strip_simps [simp]:
  "ss_data (strip s) = map strip_slice (ss_data s)" "ss_header (strip s) = strip_slice (ss_header s)"
  "ss_usedSlices (strip s) = ss_usedSlices s" "ss_size (strip s) = ss_size s" "ss_headerMode (strip s) = ss_headerMode s"
  "isFullInHeader (strip s) = isFullInHeader s" "computeIsGoodHeader (strip s) = computeIsGoodHeader s"
  "isGoodHeader (strip s) = isGoodHeader s"
  by (simp_all add: strip_def isFullInHeader_def computeIsGoodHeader_def isGoodHeader_def)

lemma list_all_map_simp: "list_all P (map f xs) = list_all (P \<circ> f) xs"
  by (induction xs) auto

lemma strip_slices_true [simp]: "slices_true file (strip s) = slices_true file s"
  by (auto simp: slices_true_def)

lemma held_strip: "isFullInHeader s \<or> x div kInSlice < length (ss_data s) \<Longrightarrow> held (strip s) x = held s x"
  by (auto simp: held_def)

lemma header_key_bound:
  "slices_true file s \<Longrightarrow> x \<in> keys (rs_parts (ss_header s)) \<Longrightarrow> isFullInHeader s \<or> x div kInSlice < length (ss_data s)"
  using slice_of_offset [of "file" s x] by (auto simp: slices_true_def true_parts_def)

lemma good_header_slices:
  assumes "slices_true file s" "computeIsGoodHeader s"
  shows "\<not> isFullInHeader s" "1 < length (ss_data s)"
proof -
  show nf: "\<not> isFullInHeader s" using assms(2) by (auto simp: computeIsGoodHeader_def ComputeIsGoodHeader_def isFullInHeader_def)
  then have "80 * kPartSize < length file" using assms(1) by (simp add: slices_true_def isFullInHeader_def IsFullInHeader_def kMaxOnlyInHeader_def)
  then have "kInSlice < length file" by (simp add: kInSlice_def kPartsInSlice_def)
  then show "1 < length (ss_data s)" using slice_of_offset [OF assms(1) nf, of kInSlice] by simp
qed

lemma slices_inv_strip: "slices_inv file (strip s) = slices_inv file s"
proof (cases "slices_true file s")
  case True
  have held: "(\<forall>x \<in> keys (rs_parts (ss_header s)). held (strip s) x) = (\<forall>x \<in> keys (rs_parts (ss_header s)). held s x)"
    using header_key_bound [OF True] held_strip by blast
  have "computeIsGoodHeader s \<Longrightarrow> rs_LoadedFromCache (map strip_slice (ss_data s) ! 0) = rs_LoadedFromCache (ss_data s ! 0)"
    using good_header_slices(2) [OF True] by (cases "ss_data s") simp_all
  then have "mode_ok (strip s) = mode_ok s"
    using held by (auto simp: mode_ok_def list_all_map_simp comp_def split: HeaderMode.split)
  then show ?thesis by (simp add: slices_inv_def list_all_map_simp comp_def)
qed (simp add: slices_inv_def)

lemma strip_put_full:
  assumes "n \<le> length (ss_data s)"
  shows "strip (put_slice n ((get_slice n s)\<lparr>rs_FullInCache := f\<rparr>) s) = strip s"
proof (cases "n = 0")
  case True
  then show ?thesis by (simp add: strip_def put_slice_def get_slice_def)
next
  case False
  then have "n - 1 < length (ss_data s)" using assms by simp
  then have "(map strip_slice (ss_data s))[n - 1 := strip_slice (ss_data s ! (n - 1))] = map strip_slice (ss_data s)"
    by (metis list_update_id nth_map)
  then show ?thesis using False by (simp add: strip_def put_slice_def get_slice_def map_update)
qed

lemma strip_fullInCache [simp]: "strip (s\<lparr>ss_fullInCache := f\<rparr>) = strip s"
  by (simp add: strip_def)

lemma strip_if: "strip a = x \<Longrightarrow> strip b = x \<Longrightarrow> strip (if P then a else b) = x"
  by simp

lemma strip_checkSliceFullLoaded [simp]:
  "n \<le> length (ss_data s) \<Longrightarrow> strip (checkSliceFullLoaded n s) = strip s"
  unfolding checkSliceFullLoaded_def Let_def
  by (intro strip_if) (simp_all only: strip_put_full strip_fullInCache)

lemma slices_inv_checkSliceFullLoaded:
  "n \<le> length (ss_data s) \<Longrightarrow> slices_inv file (checkSliceFullLoaded n s) = slices_inv file s"
  by (metis slices_inv_strip strip_checkSliceFullLoaded)

lemma list_all_update: "list_all P xs \<Longrightarrow> P x \<Longrightarrow> list_all P (xs[i := x])"
  by (auto simp: list_all_iff dest!: set_update_subset_insert [THEN subsetD])

lemma isFullInHeader_simps [simp]:
  "isFullInHeader (s\<lparr>ss_data := d\<rparr>) = isFullInHeader s" "isFullInHeader (s\<lparr>ss_header := h\<rparr>) = isFullInHeader s"
  "isFullInHeader (s\<lparr>ss_headerMode := m\<rparr>) = isFullInHeader s" "isFullInHeader (s\<lparr>ss_usedSlices := u\<rparr>) = isFullInHeader s"
  "computeIsGoodHeader (s\<lparr>ss_data := d\<rparr>) = computeIsGoodHeader s"
  "computeIsGoodHeader (s\<lparr>ss_headerMode := m\<rparr>) = computeIsGoodHeader s"
  "computeIsGoodHeader (s\<lparr>ss_usedSlices := u\<rparr>) = computeIsGoodHeader s"
  by (simp_all add: isFullInHeader_def computeIsGoodHeader_def)

lemma slices_invD:
  assumes "slices_inv file s"
  shows "slices_true file s" "list_all slice_ok (ss_data s)" "slice_ok (ss_header s)"
    "set (ss_usedSlices s) \<subseteq> {..<length (ss_data s)}" "length (rs_parts (ss_header s)) \<le> 80" "mode_ok s"
    "i < length (ss_data s) \<Longrightarrow> slice_ok (ss_data s ! i)"
    "i < length (ss_data s) \<Longrightarrow> true_parts file (i * kInSlice) kInSlice (rs_parts (ss_data s ! i))"
    "true_parts file 0 (length file) (rs_parts (ss_header s))" "ss_size s = length file" "streamable file"
  using assms by (auto simp: slices_inv_def slices_true_def list_all_length)

lemma held_data_update:
  assumes "held s y" "keys (rs_parts (ss_data s ! i)) \<subseteq> keys (rs_parts x)" "isFullInHeader s \<or> y div kInSlice < length (ss_data s)"
  shows "held (s\<lparr>ss_data := (ss_data s)[i := x]\<rparr>) y"
proof (cases "isFullInHeader s")
  case True
  then show ?thesis using assms(1) by (simp add: held_def)
next
  case False
  then have "in_slice y \<in> keys (rs_parts (ss_data s ! (y div kInSlice)))" "y div kInSlice < length (ss_data s)"
    using assms(1,3) by (simp_all add: held_def)
  then show ?thesis using False subsetD [OF assms(2)]
    by (cases "i = y div kInSlice") (simp_all add: held_def)
qed

lemma slices_inv_data_update:
  assumes "slices_inv file s" "i < length (ss_data s)"
    and "true_parts file (i * kInSlice) kInSlice (rs_parts x)" "slice_ok x"
    and "ss_headerMode s = ModeNoCache \<or> ss_headerMode s = ModeUnknown
      \<Longrightarrow> untouched x \<and> keys (rs_parts (ss_data s ! i)) \<subseteq> keys (rs_parts x) \<and> \<not> rs_LoadingFromCache (ss_header s)"
    and "ss_headerMode s = ModeGood \<Longrightarrow> i = 0 \<Longrightarrow> rs_ChangedSinceCache (ss_header s) \<Longrightarrow> rs_LoadedFromCache x"
  shows "slices_inv file (s\<lparr>ss_data := (ss_data s)[i := x]\<rparr>)"
proof -
  note inv = slices_invD [OF assms(1)]
  let ?s = "s\<lparr>ss_data := (ss_data s)[i := x]\<rparr>"
  have "mode_ok ?s"
  proof (cases "ss_headerMode s")
    case ModeUnknown
    note u = assms(5) [OF disjI2 [OF ModeUnknown]]
    have "\<forall>y \<in> keys (rs_parts (ss_header s)). held ?s y"
      using inv(6) ModeUnknown u header_key_bound [OF inv(1)] held_data_update [of s _ i x]
      by (auto simp: mode_ok_def)
    then show ?thesis using inv(6) ModeUnknown u by (simp add: mode_ok_def list_all_update)
  next
    case ModeNoCache
    then show ?thesis using inv(6) assms(5) by (simp add: mode_ok_def list_all_update)
  next
    case ModeGood
    have "0 < length (ss_data s)" using assms(2) by linarith
    then show ?thesis using inv(6) ModeGood assms(6) by (cases "i = 0") (auto simp: mode_ok_def)
  qed (use inv(6) in \<open>simp_all add: mode_ok_def\<close>)
  then show ?thesis
    using inv slices_true_put [OF inv(1) assms(2,3)] assms(4)
    by (simp add: slices_inv_def list_all_update)
qed

lemma newSlices_inv:
  assumes "streamable file"
  obtains s where "newSlices (length file) useCache = Some s" "slices_inv file s"
    "ss_headerMode s = (if useCache then ModeUnknown else ModeNoCache)"
    "rs_LoadingFromCache (ss_header s) = useCache" "\<And>x. x < length file \<Longrightarrow> \<not> held s x"
proof -
  let ?h = "newSlice\<lparr>rs_LoadingFromCache := useCache\<rparr>"
  define n where "n = (if IsFullInHeader (length file) then 0 else (length file + kInSlice - 1) div kInSlice)"
  define s where "s = \<lparr>ss_data = replicate n newSlice, ss_header = ?h, ss_usedSlices = [],
     ss_size = length file, ss_headerMode = (if useCache then ModeUnknown else ModeNoCache), ss_fullInCache = False\<rparr>"
  have "newSlices (length file) useCache = Some s"
    using assms SlicesCount_streamable [OF assms]
    by (cases useCache; cases "IsFullInHeader (length file)")
      (simp_all add: newSlices_def assert_def streamable_def s_def n_def newSlice_def)
  moreover have t: "slices_true file s"
    using assms by (auto simp: slices_true_def s_def n_def isFullInHeader_def newSlice_def)
  moreover have "slices_inv file s"
    using t by (auto simp: slices_inv_def mode_ok_def s_def newSlice_def slice_ok_def untouched_def list_all_iff)
  moreover have "\<not> held s x" if "x < length file" for x
    using slice_of_offset [OF t, of x] that
    by (auto simp: held_def s_def newSlice_def)
  ultimately show thesis using that [of s] by (simp add: s_def newSlice_def)
qed

lemma headerDone_inv:
  assumes "slices_inv file s" "ss_headerMode s = ModeUnknown \<Longrightarrow> rs_LoadedFromCache (ss_header s) \<and> rs_parts (ss_header s) \<noteq> []"
  obtains s' where "headerDone False s = Some s'" "slices_inv file s'" "ss_headerMode s' \<noteq> ModeUnknown"
    "rs_parts (ss_header s') = rs_parts (ss_header s)" "map rs_parts (ss_data s') = map rs_parts (ss_data s)"
proof (cases "ss_headerMode s = ModeUnknown")
  case False
  then show thesis using that [of s] assms(1) by (simp add: headerDone_def)
next
  case True
  note inv = slices_invD [OF assms(1)]
  let ?m = "if isFullInHeader s then ModeFull else if computeIsGoodHeader s then ModeGood else ModeSmall"
  let ?d = "map (\<lambda>x. x\<lparr>rs_LoadedFromCache := True\<rparr>) (ss_data s)"
  let ?s = "s\<lparr>ss_headerMode := ?m, ss_data := ?d\<rparr>"
  have u: "list_all untouched (ss_data s)" using inv(6) True by (simp add: mode_ok_def)
  then have "list_all (\<lambda>x. \<not> (rs_LoadingFromCache x \<or> rs_LoadedFromCache x)) (ss_data s)"
    by (auto simp: list_all_iff untouched_def)
  then have "headerDone False s = Some ?s"
    by (simp add: headerDone_def True assert_def Let_def)
  moreover have t: "slices_true file ?s" using inv(1) by (auto simp: slices_true_def)
  moreover have "list_all slice_ok ?d"
    using u inv(2) by (auto simp: list_all_iff slice_ok_def untouched_def)
  moreover have "mode_ok ?s"
    using assms(2) [OF True] good_header_slices [OF inv(1)]
    by (cases "isFullInHeader s"; cases "computeIsGoodHeader s"; cases "ss_data s") (simp_all add: mode_ok_def)
  ultimately show thesis using that [of ?s] inv by (simp add: slices_inv_def comp_def)
qed

lemma strip_eqD:
  assumes "strip a = strip b"
  shows "ss_headerMode a = ss_headerMode b" "length (ss_data a) = length (ss_data b)" "ss_size a = ss_size b"
    "rs_parts (ss_header a) = rs_parts (ss_header b)" "isFullInHeader a = isFullInHeader b"
    "ss_usedSlices a = ss_usedSlices b" "strip_slice (ss_header a) = strip_slice (ss_header b)"
    "i < length (ss_data b) \<Longrightarrow> strip_slice (ss_data a ! i) = strip_slice (ss_data b ! i)"
proof -
  show "ss_headerMode a = ss_headerMode b" "ss_size a = ss_size b" "isFullInHeader a = isFullInHeader b"
    "ss_usedSlices a = ss_usedSlices b" "strip_slice (ss_header a) = strip_slice (ss_header b)"
    using arg_cong [OF assms, of ss_headerMode] arg_cong [OF assms, of ss_size] arg_cong [OF assms, of isFullInHeader]
      arg_cong [OF assms, of ss_usedSlices] arg_cong [OF assms, of ss_header] by simp_all
  then show "rs_parts (ss_header a) = rs_parts (ss_header b)" by (metis strip_slice_simps(1))
  have d: "map strip_slice (ss_data a) = map strip_slice (ss_data b)" using arg_cong [OF assms, of ss_data] by simp
  then show l: "length (ss_data a) = length (ss_data b)" by (metis length_map)
  show "strip_slice (ss_data a ! i) = strip_slice (ss_data b ! i)" if "i < length (ss_data b)"
    using d l that by (metis nth_map)
qed

lemma strip_slice_eqD:
  assumes "strip_slice x = strip_slice y"
  shows "rs_parts x = rs_parts y" "rs_LoadingFromCache x = rs_LoadingFromCache y"
    "rs_LoadedFromCache x = rs_LoadedFromCache y" "rs_ChangedSinceCache x = rs_ChangedSinceCache y"
  using assms by (metis strip_slice_simps)+

lemma held_strip_eq:
  assumes "strip a = strip b" "isFullInHeader b \<or> y div kInSlice < length (ss_data b)"
  shows "held a y = held b y"
  using assms held_strip [of a y] held_strip [of b y] strip_eqD(2,5) [OF assms(1)] by metis

lemma true_parts_length:
  assumes "true_parts file base limit parts" "limit \<le> n * kPartSize"
  shows "length parts \<le> n"
proof -
  have "\<exists>i < n. k = i * kPartSize" if k: "k \<in> keys parts" for k
  proof -
    have "k mod kPartSize = 0" "k < limit" using assms(1) k by (auto simp: true_parts_def part_of_def)
    then obtain i where i: "k = i * kPartSize" by (metis mod_0_imp_dvd dvd_def mult.commute)
    then have "i * kPartSize < n * kPartSize" using assms(2) \<open>k < limit\<close> by linarith
    then show ?thesis using i by auto
  qed
  then have "keys parts \<subseteq> (\<lambda>i. i * kPartSize) ` {..<n}" by blast
  then have "card (keys parts) \<le> n" by (metis card_image_le card_lessThan card_mono finite_imageI finite_lessThan order_trans)
  moreover have "card (keys parts) = length parts"
    using assms(1) distinct_card [of "map fst parts"] by (simp add: true_parts_def)
  ultimately show ?thesis by simp
qed

lemma slice_parts_le: "true_parts file base kInSlice parts \<Longrightarrow> length parts \<le> 64"
  by (erule true_parts_length) (simp add: kInSlice_def kPartsInSlice_def)

definition added :: "nat \<Rightarrow> PartBytes \<Rightarrow> Slice \<Rightarrow> Slice" where
  "added x b sl = sl\<lparr>rs_parts := flat_emplace x b (rs_parts sl),
     rs_ChangedSinceCache := rs_ChangedSinceCache sl \<or> rs_LoadedFromCache sl\<rparr>"

lemma addPart_eq: "x \<notin> keys (rs_parts sl) \<Longrightarrow> addPart x b sl = Some (added x b sl)"
  by (simp add: addPart_def added_def Let_def)

lemma added_simps [simp]:
  "rs_parts (added x b sl) = flat_emplace x b (rs_parts sl)" "rs_LoadingFromCache (added x b sl) = rs_LoadingFromCache sl"
  "rs_LoadedFromCache (added x b sl) = rs_LoadedFromCache sl" "slice_ok sl \<Longrightarrow> slice_ok (added x b sl)"
  "untouched (added x b sl) = untouched sl"
  by (auto simp: added_def slice_ok_def untouched_def)

lemma in_slice_eq_iff: "x div kInSlice = y div kInSlice \<Longrightarrow> in_slice x = in_slice y \<longleftrightarrow> x = y"
  by (metis in_slice_def minus_div_mult_eq_mod div_mult_mod_eq)

lemma in_slice_less: "in_slice x < kInSlice"
  by (simp add: in_slice_def minus_div_mult_eq_mod)

lemma held_data_put:
  assumes "\<not> isFullInHeader s" "i < length (ss_data s)" "y div kInSlice < length (ss_data s)"
  shows "held (s\<lparr>ss_data := (ss_data s)[i := x]\<rparr>) y
    \<longleftrightarrow> (if y div kInSlice = i then in_slice y \<in> keys (rs_parts x) else held s y)"
  using assms by (cases "y div kInSlice = i") (simp_all add: held_def)

lemma held_header [simp]: "\<not> isFullInHeader s \<Longrightarrow> held (s\<lparr>ss_header := h\<rparr>) y = held s y"
  by (simp add: held_def)

lemma slices_inv_header_update:
  assumes "slices_inv file s" "true_parts file 0 (length file) (rs_parts h)" "slice_ok h" "length (rs_parts h) \<le> 80"
    and "rs_LoadingFromCache h = rs_LoadingFromCache (ss_header s)" "rs_LoadedFromCache h = rs_LoadedFromCache (ss_header s)"
    and "ss_headerMode s = ModeUnknown \<Longrightarrow> \<not> rs_LoadingFromCache h \<and> (\<forall>x \<in> keys (rs_parts h). isFullInHeader s \<or> held s x)"
    and "ss_headerMode s = ModeGood \<or> ss_headerMode s = ModeSmall \<Longrightarrow>
      rs_parts h = rs_parts (ss_header s) \<and> (rs_ChangedSinceCache h \<longrightarrow> rs_ChangedSinceCache (ss_header s))"
  shows "slices_inv file (s\<lparr>ss_header := h\<rparr>)"
proof -
  note inv = slices_invD [OF assms(1)]
  let ?s = "s\<lparr>ss_header := h\<rparr>"
  have "mode_ok ?s"
  proof (cases "ss_headerMode s")
    case ModeUnknown
    have "\<forall>x \<in> keys (rs_parts h). held ?s x"
      using assms(7) [OF ModeUnknown] by (auto simp: held_def)
    then show ?thesis using inv(6) ModeUnknown assms(5,6,7) by (simp add: mode_ok_def)
  next
    case ModeGood
    then show ?thesis using inv(6) assms(5,6,8) by (simp add: mode_ok_def computeIsGoodHeader_def)
  next
    case ModeSmall
    then show ?thesis using inv(6) assms(5,6,8) by (simp add: mode_ok_def computeIsGoodHeader_def)
  qed (use inv(6) assms(5,6) in \<open>simp_all add: mode_ok_def untouched_def\<close>)
  then show ?thesis using inv slices_true_header [OF inv(1) assms(2)] assms(3,4)
    by (simp add: slices_inv_def)
qed

lemma assert_True [simp]: "assert True = Some ()" "b \<Longrightarrow> assert b = Some ()"
  by (simp_all add: assert_def)

lemma part_of_data: "part_of file 0 (x, b) \<Longrightarrow> part_of file (x div kInSlice * kInSlice) (in_slice x, b)"
  using part_of_header by (simp add: in_slice_def)

lemma part_of_less: "part_of file 0 (x, b) \<Longrightarrow> x < length file"
  by (simp add: part_of_def)

lemma header_data_commute: "s\<lparr>ss_header := h, ss_data := d\<rparr> = s\<lparr>ss_data := d, ss_header := h\<rparr>"
  for s :: Slices
  by (cases s) simp

lemma true_parts_key:
  "true_parts file base limit parts \<Longrightarrow> y \<in> keys parts \<Longrightarrow> y < limit \<and> y mod kPartSize = 0 \<and> base + y < length file"
  by (auto simp: true_parts_def part_of_def)

lemma processPart_inv:
  assumes inv: "slices_inv file s" and p: "part_of file 0 (x, b)" and new: "\<not> held s x"
    and loaded: "ss_headerMode s = ModeUnknown \<Longrightarrow> rs_LoadedFromCache (ss_header s)"
  obtains s' where "processPart x b s = Some s'" "slices_inv file s'"
    "\<And>y. y < length file \<Longrightarrow> held s' y \<longleftrightarrow> held s y \<or> y = x"
    "ss_headerMode s' = ss_headerMode s" "length (ss_data s') = length (ss_data s)"
    "\<And>i. i < length (ss_data s) \<Longrightarrow> rs_LoadingFromCache (ss_data s' ! i) = rs_LoadingFromCache (ss_data s ! i)
        \<and> rs_LoadedFromCache (ss_data s' ! i) = rs_LoadedFromCache (ss_data s ! i)"
    "rs_LoadingFromCache (ss_header s') = rs_LoadingFromCache (ss_header s)"
    "rs_LoadedFromCache (ss_header s') = rs_LoadedFromCache (ss_header s)"
    "ss_headerMode s = ModeGood \<Longrightarrow> rs_parts (ss_header s') = rs_parts (ss_header s)"
    "ss_size s' = ss_size s"
proof -
  note i = slices_invD [OF inv]
  note xl = part_of_less [OF p]
  let ?h = "added x b (ss_header s)"
  let ?k = "x div kInSlice"
  have ht: "true_parts file 0 (length file) (rs_parts ?h)"
    using true_parts_emplace [OF i(9) p xl] by simp
  have unl: "ss_headerMode s = ModeUnknown \<Longrightarrow> \<not> rs_LoadingFromCache (ss_header s)"
    using loaded i(3) by (auto simp: slice_ok_def)
  show thesis
  proof (cases "isFullInHeader s")
    case True
    let ?s = "s\<lparr>ss_header := ?h\<rparr>"
    have xh: "x \<notin> keys (rs_parts (ss_header s))" using new True by (simp add: held_def)
    have "length (rs_parts ?h) \<le> 80"
      using True i(10) by (intro true_parts_length [OF ht]) (simp add: isFullInHeader_def IsFullInHeader_def kMaxOnlyInHeader_def)
    moreover have "ss_headerMode s \<noteq> ModeGood" "ss_headerMode s \<noteq> ModeSmall"
      using True i(1,6) good_header_slices(1) by (auto simp: mode_ok_def)
    ultimately have inv': "slices_inv file ?s"
      using inv ht i(3) True unl by (intro slices_inv_header_update) (auto simp del: added_simps(1))
    let ?t = "checkSliceFullLoaded 0 ?s"
    have st: "strip ?t = strip ?s" by (intro strip_checkSliceFullLoaded) simp
    have "processPart x b s = Some ?t" using True xh by (simp add: processPart_def addPart_eq)
    moreover have "slices_inv file ?t" using inv' by (simp add: slices_inv_checkSliceFullLoaded)
    moreover have "held ?t y \<longleftrightarrow> held s y \<or> y = x" for y
      using held_strip_eq [OF st, of y] True xh by (auto simp: held_def)
    moreover note strip_eqD [OF st] strip_slice_eqD [OF strip_eqD(7) [OF st]] strip_slice_eqD [OF strip_eqD(8) [OF st]]
    ultimately show thesis using \<open>ss_headerMode s \<noteq> ModeGood\<close> by (intro that [of ?t]) auto
  next
    case nf: False
    have k: "?k < length (ss_data s)" by (rule slice_of_offset [OF i(1) nf]) (use xl i(10) in simp)
    let ?x = "added (in_slice x) b (ss_data s ! ?k)"
    have xd: "in_slice x \<notin> keys (rs_parts (ss_data s ! ?k))" using new nf by (simp add: held_def)
    have xh: "ss_headerMode s = ModeUnknown \<Longrightarrow> x \<notin> keys (rs_parts (ss_header s))"
      using new i(6) by (auto simp: mode_ok_def)
    define s1 where "s1 = s\<lparr>ss_data := (ss_data s)[?k := ?x]\<rparr>"
    have inv1: "slices_inv file s1" unfolding s1_def
    proof (rule slices_inv_data_update [OF inv k])
      show "true_parts file (?k * kInSlice) kInSlice (rs_parts ?x)"
        using i(8) [OF k] part_of_data [OF p] in_slice_less by (simp add: true_parts_emplace)
      show "slice_ok ?x" using i(7) [OF k] by simp
      show "untouched ?x \<and> keys (rs_parts (ss_data s ! ?k)) \<subseteq> keys (rs_parts ?x) \<and> \<not> rs_LoadingFromCache (ss_header s)"
        if "ss_headerMode s = ModeNoCache \<or> ss_headerMode s = ModeUnknown"
        using that i(6) k unl by (auto simp: mode_ok_def list_all_length untouched_def)
      show "rs_LoadedFromCache ?x" if "ss_headerMode s = ModeGood" "?k = 0" "rs_ChangedSinceCache (ss_header s)"
        using that i(6) by (simp add: mode_ok_def)
    qed
    have held1: "held s1 y \<longleftrightarrow> held s y \<or> y = x" if "y < length file" for y
    proof -
      have "y div kInSlice < length (ss_data s)" by (rule slice_of_offset [OF i(1) nf]) (use that i(10) in simp)
      then show ?thesis unfolding s1_def held_data_put [OF nf k \<open>y div kInSlice < length (ss_data s)\<close>]
        using in_slice_eq_iff [of y x] nf by (auto simp: held_def)
    qed
    define s2 where "s2 = (if ss_headerMode s = ModeUnknown \<and> length (rs_parts (ss_header s)) < kMaxPartsInHeader
      then s1\<lparr>ss_header := ?h\<rparr> else s1)"
    have hk: "held s1 y" if "ss_headerMode s = ModeUnknown" "y \<in> keys (rs_parts ?h)" for y
    proof -
      have "y < length file" using true_parts_key [OF ht that(2)] by simp
      moreover have "held s y \<or> y = x" using that i(6) by (auto simp: mode_ok_def)
      ultimately show ?thesis using held1 by blast
    qed
    have inv2: "slices_inv file s2"
    proof (cases "ss_headerMode s = ModeUnknown \<and> length (rs_parts (ss_header s)) < kMaxPartsInHeader")
      case True
      have "length (rs_parts ?h) \<le> 80"
        using True xh i(9) length_flat_emplace [of "rs_parts (ss_header s)" x b]
        by (auto simp: true_parts_def kMaxPartsInHeader_def split: if_splits)
      then show ?thesis unfolding s2_def if_P [OF True]
        using inv1 ht i(3) True unl hk by (intro slices_inv_header_update) (auto simp: s1_def simp del: added_simps(1))
    qed (simp only: s2_def inv1 if_False)
    have e2: "ss_data s2 = (ss_data s)[?k := ?x]" "held s2 y = held s1 y" for y
      using nf by (simp_all add: s2_def s1_def)
    let ?t = "checkSliceFullLoaded (?k + 1) s2"
    have st: "strip ?t = strip s2" by (intro strip_checkSliceFullLoaded) (use k e2(1) in simp)
    have "processPart x b s = Some ?t"
    proof (cases "ss_headerMode s = ModeUnknown \<and> length (rs_parts (ss_header s)) < kMaxPartsInHeader")
      case True
      then show ?thesis using nf k xd xh
        by (simp add: processPart_def addPart_eq at_slice_def in_slice_def [symmetric] s2_def s1_def Let_def header_data_commute)
    next
      case False
      have "\<not> (ss_headerMode s = ModeUnknown \<and> x \<in> keys (rs_parts (ss_header s)))" using xh by blast
      then show ?thesis using nf k xd False
        by (auto simp: processPart_def addPart_eq at_slice_def in_slice_def [symmetric] s2_def s1_def if_not_P [OF False] Let_def)
    qed
    moreover have "slices_inv file ?t" using inv2 k e2(1) by (simp add: slices_inv_checkSliceFullLoaded)
    moreover have "held ?t y \<longleftrightarrow> held s y \<or> y = x" if "y < length file" for y
    proof -
      have "y div kInSlice < length (ss_data s)" by (rule slice_of_offset [OF i(1) nf]) (use that i(10) in simp)
      then show ?thesis using held_strip_eq [OF st, of y] held1 [OF that] e2 by simp
    qed
    moreover have "ss_headerMode s2 = ss_headerMode s" "ss_size s2 = ss_size s"
      "rs_LoadingFromCache (ss_header s2) = rs_LoadingFromCache (ss_header s)"
      "rs_LoadedFromCache (ss_header s2) = rs_LoadedFromCache (ss_header s)"
      "ss_headerMode s = ModeGood \<Longrightarrow> rs_parts (ss_header s2) = rs_parts (ss_header s)"
      by (simp_all add: s2_def s1_def)
    moreover have "rs_LoadingFromCache (ss_data s2 ! j) = rs_LoadingFromCache (ss_data s ! j)
        \<and> rs_LoadedFromCache (ss_data s2 ! j) = rs_LoadedFromCache (ss_data s ! j)" if "j < length (ss_data s)" for j
      using that k e2(1) by (simp add: nth_list_update)
    moreover note strip_eqD [OF st] strip_slice_eqD [OF strip_eqD(7) [OF st]] strip_slice_eqD [OF strip_eqD(8) [OF st]] e2(1)
    ultimately show thesis by (intro that [of ?t]) simp_all
  qed
qed

section \<open>Results of the cache\<close>

lemma true_parts_tail:
  "true_parts file base limit (p # parts) \<Longrightarrow> true_parts file base limit parts \<and> part_of file base p \<and> fst p < limit
    \<and> (\<forall>q \<in> set parts. fst p < fst q)"
  by (simp add: true_parts_def)

lemma apply_while_spec:
  assumes "true_parts file 0 limit parts" "m \<le> length data"
    and "\<And>i. i < length data \<Longrightarrow> true_parts file (i * kInSlice) kInSlice (rs_parts (data ! i)) \<and> slice_ok (data ! i)"
    and "\<And>y. y \<in> keys parts \<Longrightarrow> y div kInSlice < m \<Longrightarrow> in_slice y \<notin> keys (rs_parts (data ! (y div kInSlice)))"
  shows "\<exists>data'. apply_while (\<lambda>i. i < m) parts data = Some data' \<and> length data' = length data
    \<and> (\<forall>i < length data. true_parts file (i * kInSlice) kInSlice (rs_parts (data' ! i)) \<and> slice_ok (data' ! i)
        \<and> keys (rs_parts (data' ! i)) = keys (rs_parts (data ! i)) \<union> {in_slice y | y. y \<in> keys parts \<and> y div kInSlice = i \<and> i < m}
        \<and> rs_LoadingFromCache (data' ! i) = rs_LoadingFromCache (data ! i)
        \<and> rs_LoadedFromCache (data' ! i) = rs_LoadedFromCache (data ! i))"
  using assms
proof (induction parts arbitrary: data)
  case Nil
  then show ?case by simp
next
  case (Cons p parts)
  obtain x b where p: "p = (x, b)" by (cases p)
  note t = true_parts_tail [OF Cons.prems(1)]
  let ?k = "x div kInSlice"
  show ?case
  proof (cases "?k < m")
    case False
    have "\<not> y div kInSlice < m" if "y \<in> keys (p # parts)" for y
    proof -
      have "x \<le> y" using that t by (auto simp: p)
      then have "?k \<le> y div kInSlice" by (rule div_le_mono)
      then show ?thesis using False by simp
    qed
    then have none: "{in_slice y | y. y \<in> keys (p # parts) \<and> y div kInSlice = i \<and> i < m} = {}" for i by blast
    show ?thesis using False Cons.prems(3)
      by (intro exI [of _ data] conjI allI impI) (simp_all only: none Un_empty_right, simp_all add: p)
  next
    case True
    then have k: "?k < length data" using Cons.prems(2) by simp
    let ?x = "added (in_slice x) b (data ! ?k)"
    let ?d = "data[?k := ?x]"
    have new: "in_slice x \<notin> keys (rs_parts (data ! ?k))" using Cons.prems(4) True by (simp add: p)
    have tx: "true_parts file (?k * kInSlice) kInSlice (rs_parts ?x)"
      using Cons.prems(3) [OF k] t part_of_data [of "file" x b] in_slice_less by (simp add: p true_parts_emplace)
    have ok: "true_parts file (i * kInSlice) kInSlice (rs_parts (?d ! i)) \<and> slice_ok (?d ! i)" if "i < length ?d" for i
      using that Cons.prems(3) k tx by (cases "i = ?k") auto
    have fresh: "in_slice y \<notin> keys (rs_parts (?d ! (y div kInSlice)))" if y: "y \<in> keys parts" "y div kInSlice < m" for y
    proof (cases "y div kInSlice = ?k")
      case True
      have "y \<noteq> x" using y(1) t by (auto simp: p)
      then have "in_slice y \<noteq> in_slice x" using in_slice_eq_iff [OF True] by simp
      then show ?thesis using Cons.prems(4) [of y] y k True by simp
    next
      case False
      then show ?thesis using Cons.prems(4) [of y] y by simp
    qed
    obtain data' where d: "apply_while (\<lambda>i. i < m) parts ?d = Some data'" "length data' = length data"
      and r: "\<And>i. i < length data \<Longrightarrow> true_parts file (i * kInSlice) kInSlice (rs_parts (data' ! i)) \<and> slice_ok (data' ! i)
        \<and> keys (rs_parts (data' ! i)) = keys (rs_parts (?d ! i)) \<union> {in_slice y | y. y \<in> keys parts \<and> y div kInSlice = i \<and> i < m}
        \<and> rs_LoadingFromCache (data' ! i) = rs_LoadingFromCache (?d ! i)
        \<and> rs_LoadedFromCache (data' ! i) = rs_LoadedFromCache (?d ! i)"
      using Cons.IH [of ?d] t Cons.prems(2) ok fresh by auto
    have "apply_while (\<lambda>i. i < m) (p # parts) data = Some data'"
      using True k new d(1) by (simp add: p at_slice_def addPart_eq in_slice_def [symmetric] Let_def)
    moreover have "keys (rs_parts (?d ! i)) \<union> {in_slice y | y. y \<in> keys parts \<and> y div kInSlice = i \<and> i < m}
      = keys (rs_parts (data ! i)) \<union> {in_slice y | y. y \<in> keys (p # parts) \<and> y div kInSlice = i \<and> i < m}"
      if "i < length data" for i
      using that True k by (cases "i = ?k") (auto simp: p)
    moreover have "rs_LoadingFromCache (?d ! i) = rs_LoadingFromCache (data ! i)
        \<and> rs_LoadedFromCache (?d ! i) = rs_LoadedFromCache (data ! i)" if "i < length data" for i
      using that k by (cases "i = ?k") auto
    ultimately show ?thesis using d(2) r by (intro exI [of _ data']) simp
  qed
qed

definition loaded_with :: "PartsMap \<Rightarrow> Slice \<Rightarrow> Slice" where
  "loaded_with data sl = sl\<lparr>rs_parts := (if rs_parts sl = [] then data
       else foldl (\<lambda>parts (x, b). flat_emplace x b parts) (rs_parts sl) data),
     rs_LoadedFromCache := True, rs_LoadingFromCache := False\<rparr>"

lemma processCacheData_eq:
  "rs_LoadingFromCache sl \<Longrightarrow> \<not> rs_LoadedFromCache sl \<Longrightarrow> processCacheData data sl = Some (loaded_with data sl)"
  by (simp add: processCacheData_def loaded_with_def Let_def)

lemma loaded_with_simps [simp]:
  "rs_LoadedFromCache (loaded_with data sl)" "\<not> rs_LoadingFromCache (loaded_with data sl)"
  "rs_ChangedSinceCache (loaded_with data sl) = rs_ChangedSinceCache sl"
  by (simp_all add: loaded_with_def)

lemma loaded_with_parts:
  assumes "true_parts file base limit (rs_parts sl)" "true_parts file base limit data"
  shows "true_parts file base limit (rs_parts (loaded_with data sl))"
    "keys (rs_parts (loaded_with data sl)) = keys (rs_parts sl) \<union> keys data"
  using true_parts_emplace_all [OF assms] assms by (auto simp: loaded_with_def)

lemma processCacheResult_slice_idle:
  "n < length (ss_data s) \<Longrightarrow> \<not> rs_LoadingFromCache (ss_data s ! n) \<Longrightarrow> processCacheResult (Suc n) parts s = Some s"
  by (simp add: processCacheResult_def get_slice_def put_slice_def)

lemma processCacheResult_slice:
  assumes inv: "slices_inv file s" and n: "n < length (ss_data s)" "rs_LoadingFromCache (ss_data s ! n)"
    and parts: "true_parts file (n * kInSlice) kInSlice parts"
  obtains s' where "processCacheResult (Suc n) parts s = Some s'" "slices_inv file s'"
    "strip s' = strip (s\<lparr>ss_data := (ss_data s)[n := loaded_with parts (ss_data s ! n)]\<rparr>)"
proof -
  note i = slices_invD [OF inv]
  let ?x = "loaded_with parts (ss_data s ! n)" and ?s = "s\<lparr>ss_data := (ss_data s)[n := loaded_with parts (ss_data s ! n)]\<rparr>"
  have nl: "\<not> rs_LoadedFromCache (ss_data s ! n)" using i(7) [OF n(1)] n(2) by (simp add: slice_ok_def)
  have mode: "ss_headerMode s \<noteq> ModeNoCache" "ss_headerMode s \<noteq> ModeUnknown"
    using i(6) n by (auto simp: mode_ok_def list_all_length untouched_def)
  have "slices_inv file ?s"
  proof (rule slices_inv_data_update [OF inv n(1) loaded_with_parts(1) [OF i(8) [OF n(1)] parts]])
    show "slice_ok ?x" using i(7) [OF n(1)] nl by (simp add: slice_ok_def)
  qed (use mode in simp_all)
  moreover have "processCacheResult (Suc n) parts s = Some (checkSliceFullLoaded (Suc n) ?s)"
    using n nl by (simp add: processCacheResult_def get_slice_def put_slice_def processCacheData_eq)
  moreover have "Suc n \<le> length (ss_data ?s)" using n by simp
  ultimately show thesis
    using that [of "checkSliceFullLoaded (Suc n) ?s"] slices_inv_checkSliceFullLoaded strip_checkSliceFullLoaded by metis
qed

lemma foldl_emplace_present:
  "keys_sorted m \<Longrightarrow> keys data \<subseteq> keys m \<Longrightarrow> foldl (\<lambda>parts (x, b). flat_emplace x b parts) m data = m"
proof (induction data)
  case (Cons p data)
  have "flat_emplace (fst p) (snd p) m = m"
    using Cons.prems by (intro flat_emplace_present) (auto simp: keys_map_of [symmetric])
  then show ?case using Cons by (simp add: case_prod_beta)
qed simp

lemma processCacheResult_header_idle:
  assumes "\<not> isGoodHeader s" "\<not> rs_LoadingFromCache (ss_header s)"
  shows "processCacheResult 0 parts s = Some s"
  using assms by (simp add: processCacheResult_def get_slice_def put_slice_def)

lemma processCacheResult_good_idle:
  "isGoodHeader s \<Longrightarrow> \<not> rs_LoadingFromCache (ss_data s ! 0) \<Longrightarrow> processCacheResult 0 parts s = Some s"
  by (simp add: processCacheResult_def)

lemma list_all_untouched_flags:
  "list_all untouched data \<Longrightarrow> i < length data \<Longrightarrow> \<not> rs_LoadingFromCache (data ! i) \<and> \<not> rs_LoadedFromCache (data ! i)"
  by (auto simp: list_all_length untouched_def)

lemma processCacheResult_header:
  assumes inv: "slices_inv file s" and mode: "ss_headerMode s = ModeUnknown" and loading: "rs_LoadingFromCache (ss_header s)"
    and parts: "true_parts file 0 (length file) parts" "length parts \<le> 80"
  obtains s' where "processCacheResult 0 parts s = Some s'" "slices_inv file s'"
    "rs_LoadedFromCache (ss_header s')" "rs_parts (ss_header s') = parts"
    "ss_headerMode s' = (if parts = [] then ModeUnknown else if isFullInHeader s then ModeFull
       else if ComputeIsGoodHeader (ss_size s) parts then ModeGood else ModeSmall)"
    "\<And>i. i < length (ss_data s) \<Longrightarrow> rs_LoadingFromCache (ss_data s' ! i) = (ss_headerMode s' = ModeGood \<and> i = 0)
       \<and> \<not> rs_LoadedFromCache (ss_data s' ! i)"
    "\<And>y. y < length file \<Longrightarrow> held s' y \<longleftrightarrow> y \<in> keys parts"
    "length (ss_data s') = length (ss_data s)" "ss_size s' = ss_size s"
proof -
  note result = that
  note i = slices_invD [OF inv]
  have m: "rs_parts (ss_header s) = []" "list_all (\<lambda>x. rs_parts x = []) (ss_data s)" "list_all untouched (ss_data s)"
    using i(6) mode loading by (simp_all add: mode_ok_def)
  have nl: "\<not> rs_LoadedFromCache (ss_header s)" "\<not> rs_ChangedSinceCache (ss_header s)"
    using i(3) loading by (auto simp: slice_ok_def)
  let ?h = "loaded_with parts (ss_header s)"
  have hp: "rs_parts ?h = parts" using m(1) by (simp add: loaded_with_def)
  define s1 where "s1 = checkSliceFullLoaded 0 (s\<lparr>ss_header := ?h\<rparr>)"
  have st: "strip s1 = strip (s\<lparr>ss_header := ?h\<rparr>)" unfolding s1_def by (rule strip_checkSliceFullLoaded) simp
  note e = strip_eqD [OF st] strip_slice_eqD [OF strip_eqD(7) [OF st]]
  have h1: "rs_parts (ss_header s1) = parts" "rs_LoadedFromCache (ss_header s1)" "\<not> rs_LoadingFromCache (ss_header s1)"
    "\<not> rs_ChangedSinceCache (ss_header s1)" "ss_headerMode s1 = ModeUnknown" "ss_size s1 = ss_size s"
    "length (ss_data s1) = length (ss_data s)" "isFullInHeader s1 = isFullInHeader s" "ss_usedSlices s1 = ss_usedSlices s"
    using e hp nl mode by simp_all
  have d1: "rs_parts (ss_data s1 ! j) = []" "untouched (ss_data s1 ! j)" "slice_ok (ss_data s1 ! j)"
    if "j < length (ss_data s)" for j
    using strip_eqD(8) [OF st, of j] strip_slice_eqD [OF strip_eqD(8) [OF st, of j]] that m(2,3) i(7) [OF that]
    by (auto simp: list_all_length untouched_def slice_ok_def)
  have t1: "slices_true file s1"
    using i(1) slices_true_header [OF i(1), of ?h] parts(1) hp st strip_slices_true by metis
  have run: "processCacheResult 0 parts s = (case applyHeaderCacheData s1 of None \<Rightarrow> None
      | Some s \<Rightarrow> Some (if isGoodHeader s then s\<lparr>ss_data := (ss_data s)[0 := (ss_data s ! 0)\<lparr>rs_LoadingFromCache := True\<rparr>]\<rparr> else s))"
    using loading nl mode
    by (simp add: processCacheResult_def get_slice_def put_slice_def processCacheData_eq s1_def isGoodHeader_def
        bind_def split: option.split)
  have fin: "thesis" if r: "applyHeaderCacheData s1 = Some s2"
    and s2: "slices_true file s2" "list_all slice_ok (ss_data s2)" "ss_header s2 = ss_header s1"
      "ss_headerMode s2 = (if parts = [] then ModeUnknown else if isFullInHeader s then ModeFull
         else if ComputeIsGoodHeader (ss_size s) parts then ModeGood else ModeSmall)"
      "list_all untouched (ss_data s2)" "\<And>y. y < length file \<Longrightarrow> held s2 y \<longleftrightarrow> y \<in> keys parts"
      "length (ss_data s2) = length (ss_data s)" "ss_size s2 = ss_size s" "ss_usedSlices s2 = ss_usedSlices s" for s2
  proof -
    define s3 where "s3 = (if isGoodHeader s2 then s2\<lparr>ss_data := (ss_data s2)[0 := (ss_data s2 ! 0)\<lparr>rs_LoadingFromCache := True\<rparr>]\<rparr> else s2)"
    have full: "isFullInHeader s2 = isFullInHeader s" using s2(8) by (simp add: isFullInHeader_def)
    have inv2: "slices_inv file s2"
      using s2 h1 i parts(2) full true_parts_key [OF parts(1)]
      by (auto simp: slices_inv_def mode_ok_def slice_ok_def computeIsGoodHeader_def)
    have inv3: "slices_inv file s3"
    proof (cases "isGoodHeader s2")
      case True
      have "computeIsGoodHeader s2" using inv2 True by (simp add: slices_inv_def mode_ok_def isGoodHeader_def)
      then have len: "0 < length (ss_data s2)" using good_header_slices(2) [OF s2(1)] by linarith
      then have "slice_ok (ss_data s2 ! 0)" "untouched (ss_data s2 ! 0)"
        using s2(2,5) list_all_length by blast+
      then show ?thesis
        unfolding s3_def if_P [OF True]
        using slices_invD(8) [OF inv2 len] True h1(4) s2(3)
        by (intro slices_inv_data_update [OF inv2 len]) (auto simp: slice_ok_def untouched_def isGoodHeader_def)
    qed (simp only: s3_def inv2 if_False)
    have "rs_parts (xs[0 := (xs ! 0)\<lparr>rs_LoadingFromCache := True\<rparr>] ! k) = rs_parts (xs ! k)" for xs :: "Slice list" and k
      by (cases xs; cases k) simp_all
    then have held3: "held s3 y = held s2 y" for y by (simp add: s3_def held_def)
    show thesis
    proof (rule result [of s3])
      show "processCacheResult 0 parts s = Some s3" by (simp add: run r s3_def)
      show "rs_LoadingFromCache (ss_data s3 ! j) = (ss_headerMode s3 = ModeGood \<and> j = 0) \<and> \<not> rs_LoadedFromCache (ss_data s3 ! j)"
        if "j < length (ss_data s)" for j
        using that list_all_untouched_flags [OF s2(5), of j] s2(7)
        by (cases "j = 0") (auto simp: s3_def isGoodHeader_def)
    qed (use inv3 held3 s2 h1 in \<open>simp_all add: s3_def isGoodHeader_def\<close>)
  qed
  have la: "list_all slice_ok (ss_data s1)" "list_all untouched (ss_data s1)"
    using d1 h1(7) by (simp_all add: list_all_length)
  have no: "\<not> held s1 y" if "y < length file" "\<not> isFullInHeader s" for y
    using d1(1) [of "y div kInSlice"] slice_of_offset [OF t1, of y] that h1 by (auto simp: held_def)
  consider (none) "parts = []" | (full) "parts \<noteq> []" "isFullInHeader s" | (big) "parts \<noteq> []" "\<not> isFullInHeader s" by blast
  then show thesis
  proof cases
    case none
    have "applyHeaderCacheData s1 = Some s1" using none h1 by (simp add: applyHeaderCacheData_def)
    then show thesis using fin [of s1] t1 la h1 none no by (auto simp: held_def)
  next
    case full
    let ?s2 = "s1\<lparr>ss_headerMode := ModeFull\<rparr>"
    have "applyHeaderCacheData s1 = Some ?s2"
      using full h1 by (simp add: applyHeaderCacheData_def headerDone_def Let_def)
    then show thesis using fin [of ?s2] t1 la h1 full by (simp add: held_def)
  next
    case big
    have "\<exists>data'. apply_while (\<lambda>i. i < length (ss_data s1)) parts (ss_data s1) = Some data' \<and> length data' = length (ss_data s1)
      \<and> (\<forall>i < length (ss_data s1). true_parts file (i * kInSlice) kInSlice (rs_parts (data' ! i)) \<and> slice_ok (data' ! i)
          \<and> keys (rs_parts (data' ! i)) = keys (rs_parts (ss_data s1 ! i))
              \<union> {in_slice y | y. y \<in> keys parts \<and> y div kInSlice = i \<and> i < length (ss_data s1)}
          \<and> rs_LoadingFromCache (data' ! i) = rs_LoadingFromCache (ss_data s1 ! i)
          \<and> rs_LoadedFromCache (data' ! i) = rs_LoadedFromCache (ss_data s1 ! i))"
      using d1 h1(7) by (intro apply_while_spec [OF parts(1)]) auto
    then obtain data' where d: "apply_while (\<lambda>i. i < length (ss_data s1)) parts (ss_data s1) = Some data'"
        "length data' = length (ss_data s)"
      and r: "\<And>i. i < length (ss_data s) \<Longrightarrow> true_parts file (i * kInSlice) kInSlice (rs_parts (data' ! i)) \<and> slice_ok (data' ! i)
          \<and> keys (rs_parts (data' ! i)) = {in_slice y | y. y \<in> keys parts \<and> y div kInSlice = i} \<and> untouched (data' ! i)"
      using d1 h1(7) by (auto simp: untouched_def)
    let ?m = "if ComputeIsGoodHeader (ss_size s) parts then ModeGood else ModeSmall"
    let ?s2 = "s1\<lparr>ss_data := data', ss_headerMode := ?m\<rparr>"
    have run2: "applyHeaderCacheData s1 = Some ?s2"
      using big h1 d(1) by (simp add: applyHeaderCacheData_def headerDone_def Let_def computeIsGoodHeader_def)
    have t2: "slices_true file ?s2"
      using t1 d(2) r h1(7) by (simp add: slices_true_def)
    have held2: "held ?s2 y \<longleftrightarrow> y \<in> keys parts" if "y < length file" for y
    proof -
      have "y div kInSlice < length (ss_data s)" using slice_of_offset [OF t1, of y] that h1 big by simp
      from r [OF this] have "keys (rs_parts (data' ! (y div kInSlice))) = {in_slice z | z. z \<in> keys parts \<and> z div kInSlice = y div kInSlice}"
        by blast
      moreover have "in_slice y \<in> {in_slice z | z. z \<in> keys parts \<and> z div kInSlice = y div kInSlice} \<longleftrightarrow> y \<in> keys parts"
      proof
        assume "in_slice y \<in> {in_slice z | z. z \<in> keys parts \<and> z div kInSlice = y div kInSlice}"
        then obtain z where z: "in_slice y = in_slice z \<and> z \<in> keys parts \<and> z div kInSlice = y div kInSlice"
          unfolding mem_Collect_eq by (elim exE)
        then have "y = z" using in_slice_eq_iff [of y z] by simp
        then show "y \<in> keys parts" using z by simp
      next
        assume "y \<in> keys parts"
        then show "in_slice y \<in> {in_slice z | z. z \<in> keys parts \<and> z div kInSlice = y div kInSlice}"
          by (intro CollectI exI [of _ y] conjI refl)
      qed
      ultimately show ?thesis using big h1 by (simp add: held_def)
    qed
    have la2: "list_all slice_ok data'" "list_all untouched data'" using r d(2) by (simp_all add: list_all_length)
    show thesis using fin [OF run2 t2] la2 held2 h1 d(2) big by simp
  qed
qed

lemma apply_while_first:
  "apply_while (\<lambda>i. i = 0) parts data = Some data' \<Longrightarrow> data' = data[0 := data' ! 0]"
proof (induction parts arbitrary: data)
  case (Cons p parts)
  then show ?case
    by (cases p; cases data) (auto simp: at_slice_def Let_def bind_eq_Some_conv split: if_splits dest!: Cons.IH)
qed simp

lemma processCacheResult_good:
  assumes inv: "slices_inv file s" and mode: "ss_headerMode s = ModeGood" and loading: "rs_LoadingFromCache (ss_data s ! 0)"
    and parts: "true_parts file 0 (length file) parts" "keys parts \<subseteq> keys (rs_parts (ss_header s))"
    and fresh: "\<And>y. y \<in> keys (rs_parts (ss_header s)) \<Longrightarrow> y div kInSlice = 0 \<Longrightarrow> \<not> held s y"
  obtains x where "processCacheResult 0 parts s = Some (s\<lparr>ss_data := (ss_data s)[0 := x]\<rparr>)"
    "slices_inv file (s\<lparr>ss_data := (ss_data s)[0 := x]\<rparr>)" "rs_LoadingFromCache x" "\<not> rs_LoadedFromCache x"
    "keys (rs_parts x) = keys (rs_parts (ss_data s ! 0)) \<union> {in_slice y | y. y \<in> keys (rs_parts (ss_header s)) \<and> y div kInSlice = 0}"
proof -
  note result = that
  note i = slices_invD [OF inv]
  have good: "isGoodHeader s" using mode by (simp add: isGoodHeader_def)
  have hd: "rs_LoadedFromCache (ss_header s)" "rs_parts (ss_header s) \<noteq> []" "computeIsGoodHeader s"
    using i(6) mode by (simp_all add: mode_ok_def)
  have nf: "\<not> isFullInHeader s" and len: "0 < length (ss_data s)"
    using good_header_slices [OF i(1) hd(3)] by linarith+
  have nl: "\<not> rs_LoadingFromCache (ss_header s)" using i(3) hd(1) by (simp add: slice_ok_def)
  have same: "processCacheData parts ((ss_header s)\<lparr>rs_LoadingFromCache := True, rs_LoadedFromCache := False\<rparr>) = Some (ss_header s)"
    using foldl_emplace_present [of "rs_parts (ss_header s)" parts] i(9) parts(2) hd nl
    by (simp add: processCacheData_def true_parts_def)
  have "\<exists>data'. apply_while (\<lambda>i. i < 1) (rs_parts (ss_header s)) (ss_data s) = Some data' \<and> length data' = length (ss_data s)
    \<and> (\<forall>i < length (ss_data s). true_parts file (i * kInSlice) kInSlice (rs_parts (data' ! i)) \<and> slice_ok (data' ! i)
        \<and> keys (rs_parts (data' ! i)) = keys (rs_parts (ss_data s ! i))
            \<union> {in_slice y | y. y \<in> keys (rs_parts (ss_header s)) \<and> y div kInSlice = i \<and> i < 1}
        \<and> rs_LoadingFromCache (data' ! i) = rs_LoadingFromCache (ss_data s ! i)
        \<and> rs_LoadedFromCache (data' ! i) = rs_LoadedFromCache (ss_data s ! i))"
  proof (rule apply_while_spec [OF i(9)])
    show "1 \<le> length (ss_data s)" using len by linarith
    show "in_slice y \<notin> keys (rs_parts (ss_data s ! (y div kInSlice)))"
      if "y \<in> keys (rs_parts (ss_header s))" "y div kInSlice < 1" for y
      using fresh [of y] that nf by (simp add: held_def)
  qed (use i(7,8) in blast)
  then obtain data' where d: "apply_while (\<lambda>i. i < 1) (rs_parts (ss_header s)) (ss_data s) = Some data'"
    "length data' = length (ss_data s)"
    and all: "\<forall>i < length (ss_data s). true_parts file (i * kInSlice) kInSlice (rs_parts (data' ! i)) \<and> slice_ok (data' ! i)
        \<and> keys (rs_parts (data' ! i)) = keys (rs_parts (ss_data s ! i))
            \<union> {in_slice y | y. y \<in> keys (rs_parts (ss_header s)) \<and> y div kInSlice = i \<and> i < 1}
        \<and> rs_LoadingFromCache (data' ! i) = rs_LoadingFromCache (ss_data s ! i)
        \<and> rs_LoadedFromCache (data' ! i) = rs_LoadedFromCache (ss_data s ! i)"
    by (elim exE conjE)
  have r: "true_parts file (0 * kInSlice) kInSlice (rs_parts (data' ! 0))" "slice_ok (data' ! 0)"
      "keys (rs_parts (data' ! 0)) = keys (rs_parts (ss_data s ! 0))
            \<union> {in_slice y | y. y \<in> keys (rs_parts (ss_header s)) \<and> y div kInSlice = 0}"
      "rs_LoadingFromCache (data' ! 0) = rs_LoadingFromCache (ss_data s ! 0)"
      "rs_LoadedFromCache (data' ! 0) = rs_LoadedFromCache (ss_data s ! 0)"
    using all [rule_format, OF len] by simp_all
  have one: "(\<lambda>i :: nat. i < 1) = (\<lambda>i. i = 0)" by auto
  note run = d(1) [unfolded one]
  have upd: "data' = (ss_data s)[0 := data' ! 0]" by (rule apply_while_first [OF run])
  let ?x = "data' ! 0"
  let ?y = "?x\<lparr>rs_LoadingFromCache := True\<rparr>"
  have lx: "rs_LoadingFromCache ?x" "\<not> rs_LoadedFromCache ?x"
    using r(4,5) loading i(7) [OF len] by (auto simp: slice_ok_def)
  have y: "?y = ?x" using lx(1) by simp
  have step: "processCacheResult 0 parts s = Some (s\<lparr>ss_data := data'[0 := ?y]\<rparr>)"
    using good loading nf same run hd(2) mode
    by (simp add: processCacheResult_def get_slice_def put_slice_def checkSliceFullLoaded_def applyHeaderCacheData_def
        isGoodHeader_def)
  have "data'[0 := ?y] = (ss_data s)[0 := ?x]" using upd unfolding y by simp
  then have step': "processCacheResult 0 parts s = Some (s\<lparr>ss_data := (ss_data s)[0 := ?x]\<rparr>)" using step by simp
  have "slices_inv file (s\<lparr>ss_data := (ss_data s)[0 := ?x]\<rparr>)"
  proof (rule slices_inv_data_update [OF inv len r(1,2)])
    show "rs_LoadedFromCache ?x" if "rs_ChangedSinceCache (ss_header s)"
      using i(6) mode that loading i(7) [OF len] by (simp add: mode_ok_def slice_ok_def)
  qed (use mode in simp_all)
  then show thesis by (rule result [OF step' _ lx r(3)])
qed

text \<open>Sizes of cached entries only tell what is whole in the cache.\<close>

lemma cached_sizes_loop_strip:
  "i + length sizes = length data
    \<Longrightarrow> map strip_slice (snd (cached_sizes_loop sizes i n sz data)) = map strip_slice data
       \<and> length (snd (cached_sizes_loop sizes i n sz data)) = length data"
proof (induction sizes arbitrary: i n data)
  case (Cons x sizes)
  have "map strip_slice (data[i := (data ! i)\<lparr>rs_FullInCache := True\<rparr>]) = map strip_slice data"
    using Cons.prems by (simp add: map_update list_update_same_conv)
  then show ?case using Cons by (simp add: Let_def)
qed simp

lemma processCachedSizes_inv:
  assumes "slices_inv file s" "length sizes = length (ss_data s)"
  obtains s' where "processCachedSizes sizes s = Some s'" "slices_inv file s'" "strip s' = strip s"
proof -
  obtain n data where r: "cached_sizes_loop sizes 0 0 (ss_size s) (ss_data s) = (n, data)" by fastforce
  let ?s = "s\<lparr>ss_data := data, ss_fullInCache := (n = length sizes)\<rparr>"
  have "map strip_slice data = map strip_slice (ss_data s)"
    using cached_sizes_loop_strip [of 0 sizes "ss_data s" 0 "ss_size s"] assms(2) r by simp
  then have st: "strip ?s = strip s" by (simp add: strip_def)
  moreover have "processCachedSizes sizes s = Some ?s" using assms(2) r by (simp add: processCachedSizes_def)
  moreover have "slices_inv file ?s" using assms(1) st by (metis slices_inv_strip)
  ultimately show thesis using that by blast
qed

section \<open>What exactly the results of the cache change\<close>

lemma processCacheResult_slice_effect:
  assumes inv: "slices_inv file s" and n: "n < length (ss_data s)"
    and parts: "true_parts file (n * kInSlice) kInSlice parts"
  shows "\<exists>s'. processCacheResult (Suc n) parts s = Some s' \<and> slices_inv file s' \<and>
    (if rs_LoadingFromCache (ss_data s ! n)
     then (\<forall>y < length file. held s' y \<longleftrightarrow> held s y \<or> y div kInSlice = n \<and> in_slice y \<in> keys parts) \<and>
       rs_LoadedFromCache (ss_data s' ! n) \<and> \<not> rs_LoadingFromCache (ss_data s' ! n)
     else s' = s)"
proof (cases "rs_LoadingFromCache (ss_data s ! n)")
  case False
  then show ?thesis using processCacheResult_slice_idle [OF n False] inv by simp
next
  case True
  note i = slices_invD [OF inv]
  let ?x = "loaded_with parts (ss_data s ! n)"
  let ?s = "s\<lparr>ss_data := (ss_data s)[n := ?x]\<rparr>"
  obtain s' where s': "processCacheResult (Suc n) parts s = Some s'" "slices_inv file s'" "strip s' = strip ?s"
    using processCacheResult_slice [OF inv n True parts] .
  have nf: "\<not> isFullInHeader s" using i(1) n by (auto simp: slices_true_def)
  have "held s' y \<longleftrightarrow> held s y \<or> y div kInSlice = n \<and> in_slice y \<in> keys parts" if "y < length file" for y
  proof -
    have y: "y div kInSlice < length (ss_data s)" using slice_of_offset [OF i(1) nf that] .
    then have "held s' y = held ?s y" by (intro held_strip_eq [OF s'(3)]) simp
    also have "\<dots> \<longleftrightarrow> (if y div kInSlice = n then in_slice y \<in> keys (rs_parts ?x) else held s y)"
      by (rule held_data_put [OF nf n y])
    also have "\<dots> \<longleftrightarrow> held s y \<or> y div kInSlice = n \<and> in_slice y \<in> keys parts"
      using loaded_with_parts(2) [OF i(8) [OF n] parts] nf by (auto simp: held_def)
    finally show ?thesis .
  qed
  moreover have "strip_slice (ss_data s' ! n) = strip_slice ?x" using strip_eqD(8) [OF s'(3), of n] n by simp
  from strip_slice_eqD(2,3) [OF this] have "rs_LoadedFromCache (ss_data s' ! n)" "\<not> rs_LoadingFromCache (ss_data s' ! n)" by simp_all
  ultimately show ?thesis using s'(1,2) True by simp
qed

lemma processCacheResult_good_effect:
  assumes inv: "slices_inv file s" and mode: "ss_headerMode s = ModeGood"
    and parts: "true_parts file 0 (length file) parts" "keys parts \<subseteq> keys (rs_parts (ss_header s))"
    and fresh: "\<forall>y \<in> keys (rs_parts (ss_header s)). y div kInSlice = 0 \<longrightarrow> \<not> held s y"
  shows "\<exists>s'. processCacheResult 0 parts s = Some s' \<and> slices_inv file s' \<and>
    (if rs_LoadingFromCache (ss_data s ! 0)
     then ss_header s' = ss_header s \<and> ss_headerMode s' = ModeGood \<and>
       (\<forall>y < length file. held s' y \<longleftrightarrow> held s y \<or> y \<in> keys (rs_parts (ss_header s)) \<and> y div kInSlice = 0) \<and>
       rs_LoadingFromCache (ss_data s' ! 0) \<and> \<not> rs_LoadedFromCache (ss_data s' ! 0)
     else s' = s)"
proof (cases "rs_LoadingFromCache (ss_data s ! 0)")
  case False
  then show ?thesis using processCacheResult_good_idle [of s parts] mode inv by (simp add: isGoodHeader_def)
next
  case True
  note i = slices_invD [OF inv]
  have "computeIsGoodHeader s" using i(6) mode by (simp add: mode_ok_def)
  from good_header_slices [OF i(1) this] have nf: "\<not> isFullInHeader s" and len: "0 < length (ss_data s)" by linarith+
  obtain x where x: "processCacheResult 0 parts s = Some (s\<lparr>ss_data := (ss_data s)[0 := x]\<rparr>)"
    "slices_inv file (s\<lparr>ss_data := (ss_data s)[0 := x]\<rparr>)" "rs_LoadingFromCache x" "\<not> rs_LoadedFromCache x"
    "keys (rs_parts x) = keys (rs_parts (ss_data s ! 0)) \<union> {in_slice y | y. y \<in> keys (rs_parts (ss_header s)) \<and> y div kInSlice = 0}"
    using processCacheResult_good [OF inv mode True parts] fresh by blast
  let ?s = "s\<lparr>ss_data := (ss_data s)[0 := x]\<rparr>"
  have "held ?s y \<longleftrightarrow> held s y \<or> y \<in> keys (rs_parts (ss_header s)) \<and> y div kInSlice = 0" if y: "y < length file" for y
  proof (cases "y div kInSlice = 0")
    case True
    have "in_slice z = z" if "z div kInSlice = 0" for z using that by (simp add: in_slice_def)
    then have "{in_slice z | z. z \<in> keys (rs_parts (ss_header s)) \<and> z div kInSlice = 0}
        = {z. z \<in> keys (rs_parts (ss_header s)) \<and> z div kInSlice = 0}" by force
    moreover have "in_slice y = y" using True by (simp add: in_slice_def)
    ultimately show ?thesis
      using held_data_put [OF nf len slice_of_offset [OF i(1) nf y], of x] True x(5) nf by (simp add: held_def)
  next
    case False
    then show ?thesis using held_data_put [OF nf len slice_of_offset [OF i(1) nf y], of x] by simp
  qed
  then show ?thesis using x(1-4) True mode len by (intro exI [of _ ?s]) simp
qed

lemma processCacheResult_header_effect:
  assumes inv: "slices_inv file s" and mode: "ss_headerMode s = ModeUnknown"
    and parts: "true_parts file 0 (length file) parts" "length parts \<le> 80"
  shows "\<exists>s'. processCacheResult 0 parts s = Some s' \<and> slices_inv file s' \<and>
    (if rs_LoadingFromCache (ss_header s)
     then rs_LoadedFromCache (ss_header s') \<and> rs_parts (ss_header s') = parts \<and>
       ss_headerMode s' = (if parts = [] then ModeUnknown else if isFullInHeader s then ModeFull
         else if ComputeIsGoodHeader (ss_size s) parts then ModeGood else ModeSmall) \<and>
       (\<forall>y < length file. held s' y \<longleftrightarrow> y \<in> keys parts) \<and>
       (\<forall>i < length (ss_data s). rs_LoadingFromCache (ss_data s' ! i) = (ss_headerMode s' = ModeGood \<and> i = 0) \<and>
         \<not> rs_LoadedFromCache (ss_data s' ! i))
     else s' = s)"
proof (cases "rs_LoadingFromCache (ss_header s)")
  case False
  then show ?thesis using processCacheResult_header_idle [of s parts] mode inv by (simp add: isGoodHeader_def)
next
  case True
  show ?thesis by (rule processCacheResult_header [OF inv mode True parts]) (use True in force)
qed

lemma headerDone_effect:
  assumes inv: "slices_inv file s"
    and unknown: "ss_headerMode s = ModeUnknown \<longrightarrow> rs_LoadedFromCache (ss_header s) \<and> rs_parts (ss_header s) \<noteq> []"
  shows "\<exists>s'. headerDone False s = Some s' \<and> slices_inv file s' \<and>
    (if ss_headerMode s = ModeUnknown
     then ss_header s' = ss_header s \<and> map rs_parts (ss_data s') = map rs_parts (ss_data s) \<and>
       ss_headerMode s' = (if isFullInHeader s then ModeFull else if computeIsGoodHeader s then ModeGood else ModeSmall) \<and>
       (\<forall>i < length (ss_data s). rs_LoadedFromCache (ss_data s' ! i))
     else s' = s)"
proof -
  obtain s' where s': "headerDone False s = Some s'" "slices_inv file s'" "map rs_parts (ss_data s') = map rs_parts (ss_data s)"
    by (rule headerDone_inv [OF inv]) (use unknown in blast)+
  have "if ss_headerMode s = ModeUnknown
     then ss_header s' = ss_header s \<and>
       ss_headerMode s' = (if isFullInHeader s then ModeFull else if computeIsGoodHeader s then ModeGood else ModeSmall) \<and>
       (\<forall>i < length (ss_data s). rs_LoadedFromCache (ss_data s' ! i))
     else s' = s"
    using s'(1) by (auto simp: headerDone_def assert_def Let_def bind_eq_Some_conv split: if_splits)
  then show ?thesis using s' by (auto split: if_splits)
qed

section \<open>The slices of a file\<close>

definition example_file :: PartBytes where
  "example_file = [1, 2, 3]"

text \<open>A small file of which the only part is held, and the same with an empty header.\<close>

definition example_slices :: "HeaderMode \<Rightarrow> Slices" where
  "example_slices m = \<lparr>ss_data = [], ss_header = \<lparr>rs_parts = [(0, example_file)], rs_LoadingFromCache = False,
       rs_LoadedFromCache = (m \<noteq> ModeNoCache), rs_ChangedSinceCache = (m \<noteq> ModeNoCache), rs_FullInCache = False\<rparr>,
     ss_usedSlices = [], ss_size = 3, ss_headerMode = m, ss_fullInCache = False\<rparr>"

lemma example_small: "IsFullInHeader 3" "streamable example_file" "part_of example_file 0 (0, example_file)" "length example_file = 3"
  by (simp_all add: IsFullInHeader_def kMaxOnlyInHeader_def kPartSize_def streamable_def part_of_def example_file_def
      kInSlice_def kPartsInSlice_def)

lemma example_inv: "m = ModeNoCache \<or> m = ModeFull \<Longrightarrow> slices_inv example_file (example_slices m)"
  using example_small
  by (auto simp: slices_inv_def slices_true_def example_slices_def isFullInHeader_def true_parts_def slice_ok_def
      mode_ok_def untouched_def)

text \<open>A file of 81 parts and a little, in two slices.\<close>

definition big_file :: PartBytes where
  "big_file = replicate (81 * kPartSize + 5) 7"

lemma big_file_simps:
  "streamable big_file" "length big_file = 81 * kPartSize + 5" "\<not> IsFullInHeader (length big_file)"
  "part_of big_file 0 (0, replicate kPartSize 7)" "part_of big_file 0 (64 * kPartSize, replicate kPartSize 7)"
  by (simp_all add: big_file_def streamable_def IsFullInHeader_def kMaxOnlyInHeader_def part_of_def kInSlice_def
      kPartsInSlice_def kPartSize_def min_def flip: replicate_Suc replicate_add)



lemma slices_fill_no_slices:
  assumes "ss_data s = []" "\<not> isFullInHeader s" "ss_headerMode s = ModeNoCache \<or> rs_LoadedFromCache (ss_header s)"
  shows "slices_fill x buffer s = None"
  using assms by (auto simp: slices_fill_def assert_def Let_def bind_eq_None_conv)

lemma SlicesCount_wraps:
  assumes sz: "511 * kInSlice < sz" "sz < 2 ^ 32"
  shows "SlicesCount sz = Some 0"
proof -
  have k: "kInSlice = 8388608" by (simp add: kInSlice_def kPartsInSlice_def kPartSize_def)
  have n: "2 ^ 32 \<le> sz + kInSlice - 1" "sz + kInSlice - 1 < 2 ^ 32 + kInSlice" "kInSlice \<le> 2 ^ 32"
    using sz unfolding k by simp_all
  then have "sz + kInSlice - 1 - 2 ^ 32 < 2 ^ 32" by linarith
  then have "(sz + kInSlice - 1) mod 2 ^ 32 = sz + kInSlice - 1 - 2 ^ 32" unfolding le_mod_geq [OF n(1)] by (rule mod_less)
  then have "(sz + kInSlice - 1) mod 2 ^ 32 < kInSlice" using n by linarith
  then show ?thesis by (simp add: SlicesCount_def)
qed

lemma processCacheResult_nothing_stored:
  assumes "ss_headerMode s = ModeUnknown" "rs_LoadingFromCache (ss_header s)" "rs_parts (ss_header s) = []" "ss_data s = []"
    "\<not> isFullInHeader s" "\<not> rs_LoadedFromCache (ss_header s)"
  obtains s1 where "processCacheResult 0 [] s = Some s1" "ss_data s1 = []" "\<not> isFullInHeader s1" "rs_LoadedFromCache (ss_header s1)"
proof -
  define h where "h = (ss_header s)\<lparr>rs_LoadingFromCache := False, rs_LoadedFromCache := True\<rparr>"
  have h: "processCacheData [] (ss_header s) = Some h" using assms(2,3,6) by (simp add: processCacheData_def h_def)
  have "processCacheResult 0 [] s = Some (s\<lparr>ss_header := h\<rparr>)"
    using assms(1-3,5) h
    by (simp add: processCacheResult_def get_slice_def put_slice_def checkSliceFullLoaded_def isGoodHeader_def
        applyHeaderCacheData_def h_def isFullInHeader_def del: One_nat_def)
  then show thesis using assms(4,5) by (intro that [of "s\<lparr>ss_header := h\<rparr>"]) (simp_all add: h_def isFullInHeader_def)
qed

text \<open>C30: A file of more than 510 slices cannot be streamed, although the reader takes every size below 4 GiB.
  Up to 511 slices the constructor fails. Above that the number of slices wraps to none: without a
  cache the first read fails; with one a read waits for the header, and fails once the cache has
  answered that it has nothing (which it has, as no part of such a file was ever read).
\<close>

theorem slices_count_limits:
  "(sz \<le> 510 * kInSlice \<longrightarrow> SlicesCount sz = Some ((sz + kInSlice - 1) div kInSlice))
    \<and> (510 * kInSlice < sz \<and> sz \<le> 511 * kInSlice \<longrightarrow> newSlices sz useCache = None)
    \<and> (511 * kInSlice < sz \<and> sz < 2 ^ 32 \<longrightarrow>
        (\<exists>s. newSlices sz False = Some s \<and> ss_data s = [] \<and> slices_fill x buffer s = None)
      \<and> (\<exists>s s1. newSlices sz True = Some s \<and> ss_data s = []
           \<and> (buffer \<noteq> [] \<and> x + length buffer \<le> sz \<and> length buffer \<le> kInSlice
              \<longrightarrow> slices_fill x buffer s = Some (newFillResult, buffer, s))
           \<and> processCacheResult 0 [] s = Some s1 \<and> slices_fill x buffer s1 = None))"
proof (intro conjI impI)
  have k: "kInSlice = 8388608" by (simp add: kInSlice_def kPartsInSlice_def kPartSize_def)
  have full: "\<not> IsFullInHeader sz" if "510 * kInSlice < sz"
    using that unfolding k by (simp add: IsFullInHeader_def kMaxOnlyInHeader_def kPartSize_def)
  show "SlicesCount sz = Some ((sz + kInSlice - 1) div kInSlice)" if "sz \<le> 510 * kInSlice"
  proof -
    have "sz + kInSlice - 1 < 2 ^ 32" "(sz + kInSlice - 1) div kInSlice < 511"
      using that unfolding k by (simp, intro less_mult_imp_div_less, simp)
    then show ?thesis by (simp add: SlicesCount_def)
  qed
  show "newSlices sz useCache = None" if "510 * kInSlice < sz \<and> sz \<le> 511 * kInSlice"
  proof -
    have "sz + kInSlice - 1 < 2 ^ 32" "511 * kInSlice \<le> sz + kInSlice - 1" using that unfolding k by simp_all
    then have "\<not> (sz + kInSlice - 1) mod 2 ^ 32 div kInSlice < 511"
      using kInSlice_mod(3) by (simp add: less_eq_div_iff_mult_less_eq not_less)
    then have "SlicesCount sz = None" by (simp add: SlicesCount_def Let_def)
    then show ?thesis using full that by (simp add: newSlices_def assert_def)
  qed
  assume "511 * kInSlice < sz \<and> sz < 2 ^ 32"
  then have sz: "511 * kInSlice < sz" "sz < 2 ^ 32" by simp_all
  have f: "\<not> IsFullInHeader sz" "sz \<noteq> 0" using full sz k by simp_all
  define s where "s useCache = \<lparr>ss_data = [], ss_header = newSlice\<lparr>rs_LoadingFromCache := useCache\<rparr>, ss_usedSlices = [],
      ss_size = sz, ss_headerMode = (if useCache then ModeUnknown else ModeNoCache), ss_fullInCache = False\<rparr>" for useCache
  have new: "newSlices sz useCache = Some (s useCache)" for useCache
    using f SlicesCount_wraps [OF sz] by (simp add: newSlices_def s_def newSlice_def)
  have s: "ss_data (s b) = []" "\<not> isFullInHeader (s b)" for b using f by (simp_all add: s_def isFullInHeader_def)
  show "\<exists>s. newSlices sz False = Some s \<and> ss_data s = [] \<and> slices_fill x buffer s = None"
    using new s slices_fill_no_slices [OF s, of False] by (simp add: s_def)
  have "slices_fill x buffer (s True) = Some (newFillResult, buffer, s True)"
    if "buffer \<noteq> []" "x + length buffer \<le> sz" "length buffer \<le> kInSlice"
  proof -
    have "0 < length buffer" using that(1) by simp
    then have "x < sz" using that(2) by linarith
    then show ?thesis using that by (simp add: slices_fill_def s_def newSlice_def waitingForHeaderCache_def)
  qed
  moreover have "ss_headerMode (s True) = ModeUnknown" "rs_LoadingFromCache (ss_header (s True))"
    "rs_parts (ss_header (s True)) = []" "\<not> rs_LoadedFromCache (ss_header (s True))" by (simp_all add: s_def newSlice_def)
  then obtain s1 where "processCacheResult 0 [] (s True) = Some s1" "ss_data s1 = []" "\<not> isFullInHeader s1"
      "rs_LoadedFromCache (ss_header s1)"
    using processCacheResult_nothing_stored [OF _ _ _ s] by metis
  then have "processCacheResult 0 [] (s True) = Some s1" "slices_fill x buffer s1 = None" using slices_fill_no_slices by simp_all
  ultimately show "\<exists>s s1. newSlices sz True = Some s \<and> ss_data s = []
           \<and> (buffer \<noteq> [] \<and> x + length buffer \<le> sz \<and> length buffer \<le> kInSlice
              \<longrightarrow> slices_fill x buffer s = Some (newFillResult, buffer, s))
           \<and> processCacheResult 0 [] s = Some s1 \<and> slices_fill x buffer s1 = None"
    using new s by blast
qed

theorem slices_count_limits_witness:
  "newSlices 4278190081 True = None \<and> (\<exists>s. newSlices 4294967295 False = Some s \<and> slices_fill 0 [0] s = None)
    \<and> (\<exists>s s1. newSlices 4294967295 True = Some s \<and> slices_fill 0 [0] s = Some (newFillResult, [0], s)
         \<and> processCacheResult 0 [] s = Some s1 \<and> slices_fill 0 [0] s1 = None)"
proof -
  have k: "kInSlice = 8388608" by (simp add: kInSlice_def kPartsInSlice_def kPartSize_def)
  have "newSlices 4278190081 True = None" using slices_count_limits [of 4278190081 True 0 "[0]"] by (simp add: k)
  moreover have "511 * kInSlice < 4294967295 \<and> (4294967295 :: nat) < 2 ^ 32" by (simp add: k)
  note wrap = mp [OF conjunct2 [OF conjunct2 [OF slices_count_limits [of 4294967295 True 0 "[0]"]]] this]
  have "[0] \<noteq> [] \<and> 0 + length [0] \<le> 4294967295 \<and> length [0] \<le> kInSlice" by (simp add: k)
  ultimately show ?thesis using wrap by blast
qed

end
