(* ===== verification/StreamingFill.thy ===== *)
theory StreamingFill imports StreamingSlices begin

text \<open>
  Filling a buffer from the slices, \<open>Reader::Slices::fill\<close>: it never fails, it reads the bytes of the
  file, it asks the loader for parts that are missing and only for those, and it keeps the invariant,
  also where it leaves a slice that is not used any more.
\<close>

section \<open>Leaving slices\<close>

lemma slices_inv_usedSlices:
  "slices_inv file s \<Longrightarrow> set u \<subseteq> {..<length (ss_data s)} \<Longrightarrow> slices_inv file (s\<lparr>ss_usedSlices := u\<rparr>)"
  by (cases "ss_headerMode s") (simp_all add: slices_inv_def mode_ok_def held_def)

lemma markSliceUsed_used: "set (ss_usedSlices (markSliceUsed i s)) = insert i (set (ss_usedSlices s))"
proof (cases "i \<in> set (ss_usedSlices s)")
  case True
  have "set (take n u @ rotate1 (drop n u)) = set u" for n and u :: "nat list"
    by (metis append_take_drop_id set_append set_rotate1)
  then show ?thesis using True by (auto simp: markSliceUsed_def Let_def)
qed (simp add: markSliceUsed_def)

lemma markSliceUsed_inv:
  "slices_inv file s \<Longrightarrow> i < length (ss_data s) \<Longrightarrow> slices_inv file (markSliceUsed i s)"
  using slices_inv_usedSlices [of "file" s "ss_usedSlices (markSliceUsed i s)"] slices_invD(4) [of "file" s]
    markSliceUsed_used [of i s]
  by (simp add: markSliceUsed_def)

lemma markSliceUsed_simps [simp]:
  "ss_data (markSliceUsed i s) = ss_data s" "ss_header (markSliceUsed i s) = ss_header s"
  "ss_headerMode (markSliceUsed i s) = ss_headerMode s" "ss_size (markSliceUsed i s) = ss_size s"
  by (simp_all add: markSliceUsed_def)

lemma unloadSlice_simps [simp]:
  "rs_parts (unloadSlice x) = []" "\<not> rs_LoadingFromCache (unloadSlice x)" "\<not> rs_LoadedFromCache (unloadSlice x)"
  "\<not> rs_ChangedSinceCache (unloadSlice x)" "slice_ok (unloadSlice x)" "untouched (unloadSlice x)"
  by (simp_all add: unloadSlice_def newSlice_def slice_ok_def untouched_def)

lemma unload_inv:
  assumes "slices_inv file s" "i < length (ss_data s)" "ss_headerMode s \<noteq> ModeUnknown" "ss_headerMode s \<noteq> ModeNoCache"
    and "ss_headerMode s = ModeGood \<Longrightarrow> i = 0 \<Longrightarrow> \<not> rs_ChangedSinceCache (ss_header s)"
  shows "slices_inv file (s\<lparr>ss_data := (ss_data s)[i := unloadSlice x]\<rparr>)"
  using assms by (intro slices_inv_data_update) auto

lemma MaxSliceSize_streamable:
  "streamable file \<Longrightarrow> MaxSliceSize n (length file) \<noteq> None"
  by (simp add: MaxSliceSize_def SlicesCount_streamable)

text \<open>What \<open>serializeAndUnloadSlice\<close> leaves: the slice, and with a good header the first slice, empty.\<close>

definition number_of :: "Slices \<Rightarrow> nat \<Rightarrow> nat" where
  "number_of s n = (if isGoodHeader s \<and> n = 1 then 0 else n)"

definition without_slice :: "nat \<Rightarrow> Slices \<Rightarrow> Slices" where
  "without_slice n s =
     (if n = 0
      then (let s = (if isGoodHeader s then s\<lparr>ss_data := (ss_data s)[0 := unloadSlice (ss_data s ! 0)]\<rparr> else s)
            in s\<lparr>ss_header := (ss_header s)\<lparr>rs_ChangedSinceCache := False\<rparr>\<rparr>)
      else s\<lparr>ss_data := (ss_data s)[n - 1 := unloadSlice (ss_data s ! (n - 1))]\<rparr>)"

definition can_unload :: "nat \<Rightarrow> Slices \<Rightarrow> bool" where
  "can_unload n s \<longleftrightarrow>
     ss_headerMode s \<noteq> ModeUnknown \<and> ss_headerMode s \<noteq> ModeNoCache \<and> n \<le> length (ss_data s)
     \<and> rs_parts (get_slice (number_of s n) s) \<noteq> []
     \<and> (isGoodHeader s \<and> n \<le> 1 \<longrightarrow> rs_LoadedFromCache (ss_data s ! 0))"

definition first_slice_rest :: "Slices \<Rightarrow> PartsMap" where
  "first_slice_rest s = foldl (\<lambda>parts (offset, part). flat_erase offset parts) (rs_parts (ss_data s ! 0)) (rs_parts (ss_header s))"

text \<open>The bytes of the entry, apart from the branches that fail.\<close>

definition entry_bytes :: "nat \<Rightarrow> Slices \<Rightarrow> PartBytes" where
  "entry_bytes n s =
     (let parts = rs_parts (get_slice n s); good = (isGoodHeader s \<and> n = 0)
      in if \<not> good \<and> FindNotLoadedStart parts 0 > fst (last parts) then concat (map snd parts)
         else pad_serialization (the (MaxSliceSize n (ss_size s)))
                (SerializeComplexPartsMap parts @ (if good then SerializeComplexPartsMap (first_slice_rest s) else [])))"

lemma serializeAndUnloadSlice_eq:
  assumes "can_unload n s" "streamable file" "ss_size s = length file"
  shows "serializeAndUnloadSlice n s =
    Some (\<lparr>se_number = int (number_of s n), se_data = entry_bytes (number_of s n) s\<rparr>, without_slice (number_of s n) s)"
proof -
  let ?n = "number_of s n"
  obtain m where m: "MaxSliceSize ?n (ss_size s) = Some m" using MaxSliceSize_streamable [OF assms(2)] assms(3) by auto
  have mode: "ss_headerMode s \<noteq> ModeUnknown" "ss_headerMode s \<noteq> ModeNoCache" "n \<le> length (ss_data s)"
    and parts: "rs_parts (get_slice ?n s) \<noteq> []"
    and first: "isGoodHeader s \<Longrightarrow> n \<le> 1 \<Longrightarrow> rs_LoadedFromCache (ss_data s ! 0)"
    using assms(1) by (simp_all add: can_unload_def)
  have n: "(if isGoodHeader s \<and> n = 1 then 0 else n) = ?n" by (simp add: number_of_def)
  note start = serializeAndUnloadSlice_def [of n s, unfolded n Let_def]
  show ?thesis
  proof (cases "isGoodHeader s \<and> ?n = 0")
    case True
    then have "n \<le> 1" "get_slice ?n s = ss_header s" by (auto simp: number_of_def get_slice_def split: if_splits)
    then show ?thesis
      using True mode parts m first unfolding start
      by (simp add: put_slice_def get_slice_def serializeAndUnloadFirstSliceNoHeader_def Let_def
          serializeComplexSlice_def entry_bytes_def first_slice_rest_def without_slice_def unloadSlice_def)
  next
    case False
    have w: "put_slice ?n (if ?n \<noteq> 0 then unloadSlice (get_slice ?n s) else get_slice ?n s\<lparr>rs_ChangedSinceCache := False\<rparr>) s
        = without_slice ?n s"
      using False by (cases "?n = 0") (simp_all add: put_slice_def get_slice_def without_slice_def)
    show ?thesis
      unfolding start if_not_P [OF False] entry_bytes_def Let_def
      using mode parts m False w by (simp add: serializeComplexSlice_def)
  qed
qed

lemma without_slice_inv:
  assumes inv: "slices_inv file s" and c: "can_unload n s"
  shows "slices_inv file (without_slice (number_of s n) s)"
proof (cases "number_of s n = 0")
  case False
  then have n: "number_of s n = n" "n - 1 < length (ss_data s)" "\<not> (isGoodHeader s \<and> n - 1 = 0)"
    using c by (auto simp: number_of_def can_unload_def split: if_splits)
  show ?thesis using n False c
    by (auto simp: without_slice_def n(1) can_unload_def isGoodHeader_def intro!: unload_inv [OF inv])
next
  case zero: True
  note i = slices_invD [OF inv]
  let ?h = "(ss_header s)\<lparr>rs_ChangedSinceCache := False\<rparr>"
  have mode: "ss_headerMode s \<noteq> ModeUnknown" "ss_headerMode s \<noteq> ModeNoCache" using c by (simp_all add: can_unload_def)
  have "slices_inv file (s\<lparr>ss_header := ?h\<rparr>)"
    using i(3,5,9) mode by (intro slices_inv_header_update [OF inv]) (auto simp: slice_ok_def)
  then show ?thesis
  proof (cases "isGoodHeader s")
    case True
    then have "computeIsGoodHeader s" using i(6) by (simp add: mode_ok_def isGoodHeader_def)
    then have "0 < length (ss_data s)" using good_header_slices(2) [OF i(1)] by linarith
    then have "slices_inv file ((s\<lparr>ss_header := ?h\<rparr>)\<lparr>ss_data := (ss_data s)[0 := unloadSlice (ss_data s ! 0)]\<rparr>)"
      using unload_inv [OF \<open>slices_inv file (s\<lparr>ss_header := ?h\<rparr>)\<close>, of 0 "ss_data s ! 0"] mode by simp
    then show ?thesis using zero True by (simp add: without_slice_def header_data_commute)
  qed (simp add: without_slice_def zero)
qed

lemma without_slice_simps [simp]:
  "length (ss_data (without_slice n s)) = length (ss_data s)" "ss_headerMode (without_slice n s) = ss_headerMode s"
  "ss_size (without_slice n s) = ss_size s" "ss_usedSlices (without_slice n s) = ss_usedSlices s"
  "rs_parts (ss_header (without_slice n s)) = rs_parts (ss_header s)"
  by (simp_all add: without_slice_def Let_def)

lemma can_unload_used:
  assumes inv: "slices_inv file s" and mode: "ss_headerMode s \<noteq> ModeUnknown" "ss_headerMode s \<noteq> ModeNoCache"
    and i: "i < length (ss_data s)" "rs_LoadedFromCache (ss_data s ! i)"
    and changed: "rs_ChangedSinceCache (ss_data s ! i) \<or> isGoodHeader s \<and> i = 0"
  shows "can_unload (i + 1) s"
proof (cases "isGoodHeader s \<and> i = 0")
  case True
  then show ?thesis
    using slices_invD(6) [OF inv] mode i
    by (auto simp: can_unload_def number_of_def get_slice_def mode_ok_def isGoodHeader_def Suc_le_eq)
next
  case False
  then have "rs_parts (ss_data s ! i) \<noteq> []" using changed slices_invD(7) [OF inv i(1)] by (auto simp: slice_ok_def)
  then show ?thesis using False mode i by (auto simp: can_unload_def number_of_def get_slice_def)
qed

lemma serializeAndUnloadUnused_inv:
  assumes inv: "slices_inv file s"
  obtains r s' where "serializeAndUnloadUnused s = Some (r, s')" "slices_inv file s'"
    "ss_headerMode s' = ss_headerMode s" "length (ss_data s') = length (ss_data s)" "ss_size s' = ss_size s"
proof (cases "ss_headerMode s = ModeUnknown \<or> length (ss_usedSlices s) \<le> kSlicesInMemory")
  case True
  then show thesis using that [of noSerialized s] inv by (simp add: serializeAndUnloadUnused_def)
next
  case False
  note result = that
  note i = slices_invD [OF inv]
  from False obtain p u where u: "ss_usedSlices s = p # u" by (cases "ss_usedSlices s") auto
  then have p: "p < length (ss_data s)" using i(4) by auto
  let ?s = "s\<lparr>ss_usedSlices := u\<rparr>"
  have inv': "slices_inv file ?s" using i(4) u by (intro slices_inv_usedSlices [OF inv]) auto
  have good: "isGoodHeader ?s = isGoodHeader s" by (simp add: isGoodHeader_def)
  have f: "ss_data ?s = ss_data s" "ss_headerMode ?s = ss_headerMode s" "ss_header ?s = ss_header s" by simp_all
  let ?x = "ss_data s ! p"
  have nc: "rs_LoadedFromCache ?x \<Longrightarrow> ss_headerMode s \<noteq> ModeNoCache"
    using i(6) p by (auto simp: mode_ok_def list_all_length untouched_def)
  have start: "serializeAndUnloadUnused s = (if \<not> rs_LoadedFromCache ?x then Some (noSerialized, ?s)
      else if ss_headerMode s = ModeNoCache \<or> \<not> rs_ChangedSinceCache ?x
            \<and> (\<not> isGoodHeader s \<or> p > 0 \<or> \<not> rs_ChangedSinceCache (ss_header s))
      then Some (noSerialized, ?s\<lparr>ss_data := (ss_data s)[p := unloadSlice ?x]\<rparr>)
      else serializeAndUnloadSlice (p + 1) ?s)"
    unfolding serializeAndUnloadUnused_def Let_def if_not_P [OF False]
    unfolding u list.sel f good assert_True(2) [OF p] bind.bind_lunit ..
  let ?no = "ss_headerMode s = ModeNoCache \<or> \<not> rs_ChangedSinceCache ?x
            \<and> (\<not> isGoodHeader s \<or> p > 0 \<or> \<not> rs_ChangedSinceCache (ss_header s))"
  consider (left) "\<not> rs_LoadedFromCache ?x" | (drop) "rs_LoadedFromCache ?x" ?no | (put) "rs_LoadedFromCache ?x" "\<not> ?no"
    by blast
  then show thesis
  proof cases
    case left
    then show thesis using start inv' by (intro result [of noSerialized ?s]) simp_all
  next
    case drop
    then have "serializeAndUnloadUnused s = Some (noSerialized, ?s\<lparr>ss_data := (ss_data s)[p := unloadSlice ?x]\<rparr>)"
      unfolding start by simp
    moreover have "slices_inv file (?s\<lparr>ss_data := (ss_data ?s)[p := unloadSlice ?x]\<rparr>)"
      using drop False nc p by (intro unload_inv [OF inv']) (auto simp: isGoodHeader_def)
    ultimately show thesis
      by (intro result [of noSerialized "?s\<lparr>ss_data := (ss_data s)[p := unloadSlice ?x]\<rparr>"]) simp_all
  next
    case put
    have run: "serializeAndUnloadUnused s = serializeAndUnloadSlice (p + 1) ?s"
      unfolding start if_not_P [OF put(2)] using put(1) by simp
    have c: "can_unload (p + 1) ?s"
      using put False nc p good by (intro can_unload_used [OF inv']) auto
    show thesis
      using run result without_slice_inv [OF inv' c]
        serializeAndUnloadSlice_eq [OF c slices_invD(11) [OF inv'] slices_invD(10) [OF inv']] by simp
  qed
qed

section \<open>What a fill reads and asks for\<close>

definition unheld :: "PartBytes \<Rightarrow> Slices \<Rightarrow> nat \<Rightarrow> bool" where
  "unheld file s x \<longleftrightarrow> x < length file \<and> x mod kPartSize = 0 \<and> \<not> held s x"

lemma stack_add_subset: "set (stack_add n xs v) \<subseteq> insert v (set xs)"
  by (auto simp: stack_add_def StackIntVector_add_def value_or_def)

lemma foldl_stack_add:
  assumes "\<And>v. v \<in> set vs \<Longrightarrow> c v \<Longrightarrow> f v \<in> A" "set acc \<subseteq> A"
  shows "set (foldl (\<lambda>offsets v. if c v then stack_add n offsets (f v) else offsets) acc vs) \<subseteq> A"
  using assms
proof (induction vs arbitrary: acc)
  case (Cons v vs)
  show ?case
  proof (cases "c v")
    case True
    then have "set (stack_add n acc (f v)) \<subseteq> A" using Cons.prems stack_add_subset [of n acc "f v"] by auto
    then show ?thesis using True Cons.IH Cons.prems(1) by simp
  qed (use Cons in simp)
qed simp

lemma handlePrepareResult_unheld:
  assumes "slices_inv file s" "\<not> isFullInHeader s" "i < length (ss_data s)" "i * kInSlice + till \<le> length file"
    and "set (fr_offsetsFromLoader result) \<subseteq> Collect (unheld file s)"
  shows "set (fr_offsetsFromLoader (handlePrepareResult s i (prepareFill a till (ss_data s ! i)) result)) \<subseteq> Collect (unheld file s)"
proof (cases "cacheNotLoaded s i")
  case False
  let ?p = "prepareFill a till (ss_data s ! i)"
  note inv = slices_invD [OF assms(1)]
  have "x + i * kInSlice \<in> Collect (unheld file s)"
    if x: "x \<in> set (pf_offsetsFromLoader ?p)" and c: "x < kInSlice \<and> x + i * kInSlice < ss_size s" for x
  proof -
    have "x mod kPartSize = 0" "x \<notin> keys (rs_parts (ss_data s ! i))"
      using prepareFill_offsets [OF inv(8) [OF assms(3)] assms(4) x] by simp_all
    moreover have "(x + i * kInSlice) div kInSlice = i" "in_slice (x + i * kInSlice) = x" using c by (simp_all add: in_slice_def)
    ultimately show ?thesis using c assms(2) inv(10) by (simp add: unheld_def held_def mod_add_eq [symmetric])
  qed
  from foldl_stack_add [of "pf_offsetsFromLoader ?p" "\<lambda>x. x < kInSlice \<and> x + i * kInSlice < ss_size s" "\<lambda>x. x + i * kInSlice",
      OF this assms(5)]
  show ?thesis using False by (simp add: handlePrepareResult_def Let_def)
qed (use assms(5) in \<open>simp add: handlePrepareResult_def\<close>)

lemma write_whole: "length src = length buffer \<Longrightarrow> write_span 0 src buffer = Some src"
  by (simp add: write_span_def)

lemma write_halves:
  assumes "length a + length b = length buffer"
  obtains buffer' where "write_span 0 a buffer = Some buffer'" "write_span (length a) b buffer' = Some (a @ b)"
  using assms by (auto simp: write_span_def)

text \<open>A fill that is not ready asks for a missing part.\<close>

lemma offsets_loop_acc: "set acc \<subseteq> set (offsets_loop check a till acc)"
proof (induction check a till acc rule: offsets_loop.induct)
  case (1 check a till acc)
  show ?case
  proof (cases "a = till")
    case True
    then show ?thesis by (subst offsets_loop.simps) simp
  next
    case False
    let ?rest = "dropWhile (\<lambda>p. fst p < a) check"
    show ?thesis
    proof (cases "?rest \<noteq> [] \<and> fst (hd ?rest) = a")
      case True
      then show ?thesis using 1(1) [OF False refl True] False by (subst offsets_loop.simps) (simp add: Let_def)
    next
      case no: False
      have eq: "offsets_loop check a till acc = (case StackIntVector_add kLoadFromRemoteMax acc a of
          None \<Rightarrow> acc | Some result \<Rightarrow> offsets_loop ?rest (a + kPartSize) till result)"
        unfolding offsets_loop.simps [of check a till acc] if_not_P [OF False] Let_def if_not_P [OF no] ..
      show ?thesis
      proof (cases "StackIntVector_add kLoadFromRemoteMax acc a")
        case None
        then show ?thesis by (simp add: eq)
      next
        case (Some r)
        then have "set acc \<subseteq> set r" by (auto simp: StackIntVector_add_def split: if_splits)
        then show ?thesis using 1(2) [OF False refl no Some] unfolding eq Some option.case by blast
      qed
    qed
  qed
qed

lemma offsetsFromLoader_first:
  assumes "b \<notin> fst ` set parts" "b \<noteq> till"
  shows "b \<in> set (offsetsFromLoader b till parts)"
proof -
  define k where "k = (if upper_bound fst parts b = 0 then upper_bound fst parts b else upper_bound fst parts b - 1)"
  let ?rest = "dropWhile (\<lambda>p. fst p < b) (drop k parts)"
  have no: "\<not> (?rest \<noteq> [] \<and> fst (hd ?rest) = b)"
    using assms(1) by (metis hd_in_set image_eqI in_set_dropD set_dropWhileD)
  have "offsetsFromLoader b till parts = offsets_loop (drop k parts) b till []"
    by (simp add: offsetsFromLoader_def Let_def k_def)
  also have "\<dots> = offsets_loop ?rest (b + kPartSize) till [b]"
    unfolding offsets_loop.simps [of "drop k parts" b till "[]"] if_not_P [OF assms(2)] Let_def if_not_P [OF no]
    by (simp add: StackIntVector_add_def kLoadFromRemoteMax_def)
  finally show ?thesis using offsets_loop_acc [of "[b]" ?rest "b + kPartSize" till] by simp
qed

lemma FindNotLoadedStart_ge: "r \<le> FindNotLoadedStart parts r"
proof (induction parts arbitrary: r)
  case (Cons p parts)
  then show ?case by (cases p) (auto simp: Let_def intro: order_trans)
qed simp

lemma FindNotLoadedStart_missing:
  assumes "true_parts file base limit parts" "\<forall>p \<in> set parts. r \<le> fst p"
  shows "FindNotLoadedStart parts r \<notin> fst ` set parts"
  using assms
proof (induction parts arbitrary: r)
  case (Cons p parts)
  obtain x b where p: "p = (x, b)" by (cases p)
  note t = Cons.prems(1) [unfolded p true_parts_Cons]
  have l: "length b = min kPartSize (length file - (base + x)) \<and> 0 < length b \<and> b \<noteq> []"
    using t part_of_length by blast
  then have b: "0 < length b" "length b \<le> kPartSize" by (blast, metis min.cobounded1)
  show ?case
  proof (cases "x = r")
    case True
    have "FindNotLoadedStart parts (x + length b) \<notin> fst ` set parts"
      using t b(2) by (intro Cons.IH) (blast, meson add_left_mono order_trans)
    moreover have "FindNotLoadedStart parts (x + length b) \<noteq> x"
      using FindNotLoadedStart_ge [of "x + length b" parts] b(1) by linarith
    ultimately show ?thesis using True by (simp add: p)
  next
    case False
    then have "r < x" using Cons.prems(2) by (simp add: p)
    moreover have "r \<notin> fst ` set parts" using t \<open>r < x\<close> by fastforce
    ultimately show ?thesis by (simp add: p)
  qed
qed simp

lemma start_missing:
  fixes a till :: nat
  assumes t: "true_parts file base limit parts" and a: "a < till"
    and h: "upper_bound fst parts a \<noteq> 0 \<Longrightarrow> FindNotLoadedStart (fill_range a till parts) (a div kPartSize * kPartSize) < till"
  shows "(if upper_bound fst parts a = 0 then a div kPartSize * kPartSize
      else FindNotLoadedStart (fill_range a till parts) (a div kPartSize * kPartSize)) \<notin> fst ` set parts"
proof -
  let ?n = "upper_bound fst parts a" and ?fo = "a div kPartSize * kPartSize"
  have sorted: "sorted_wrt (\<lambda>p q. fst p < fst q) parts" using t by (simp add: true_parts_def sorted_wrt_map)
  have after: "drop ?n parts = filter (\<lambda>p. \<not> fst p \<le> a) parts" by (rule split_upper_bound(2) [OF sorted])
  have fo: "?fo \<le> a" by simp
  show ?thesis
  proof (cases "?n = 0")
    case True
    then have "filter (\<lambda>p. \<not> fst p \<le> a) parts = parts" using after by simp
    then have "\<forall>p \<in> set parts. a < fst p" unfolding filter_id_conv by auto
    then have "?fo \<notin> fst ` set parts" using fo by fastforce
    then show ?thesis using True by simp
  next
    case n: False
    define k where "k = ?n - 1"
    have kn: "k < length parts" "Suc k = ?n" using n upper_bound_le [of fst parts a] unfolding k_def by linarith+
    have k: "k < length parts" "drop k parts = parts ! k # drop ?n parts"
      using kn Cons_nth_drop_Suc [OF kn(1)] by simp_all
    obtain x b where x: "parts ! k = (x, b)" by (cases "parts ! k")
    have parts: "set parts = set (take k parts) \<union> {(x, b)} \<union> set (drop ?n parts)"
      by (metis append_take_drop_id k(2) x set_append list.simps(15) Un_assoc insert_is_Un)
    have "parts ! k \<in> set (take ?n parts)" using kn nth_mem [of k "take ?n parts"] by simp
    then have xa: "x \<le> a" using split_upper_bound(1) [OF sorted, of a] x by auto
    have p: "part_of file base (x, b)" using t k(1) x by (metis nth_mem true_parts_def)
    then have "x mod kPartSize = 0" by (simp add: part_of_def)
    then have xfo: "x \<le> ?fo" using xa by (metis div_le_mono mod_0_imp_dvd dvd_div_mult_self mult_le_mono1)
    have before: "fst q < x" if q: "q \<in> set (take k parts)" for q
    proof -
      have "sorted_wrt (\<lambda>p q. fst p < fst q) (take k parts @ drop k parts)" using sorted by simp
      then show ?thesis using q k(2) x unfolding sorted_wrt_append by auto
    qed
    define ps where "ps = takeWhile (\<lambda>p. fst p < till) (drop ?n parts)"
    have ps: "ps = filter (\<lambda>p. fst p < till) (drop ?n parts)" unfolding ps_def
      by (rule takeWhile_sorted_filter, rule sorted_wrt_mono_rel [OF _ sorted_wrt_drop [OF sorted]]) auto
    have fr: "fill_range a till parts = (x, b) # ps"
      unfolding fill_range_def k_def [symmetric] k(2) x ps_def using xa a by simp
    define h where "h = FindNotLoadedStart (fill_range a till parts) ?fo"
    have ht: "h < till" using assms(3) [OF n] by (simp add: h_def)
    have nps: "h \<notin> fst ` set ps \<and> x < h \<or> h = ?fo \<and> x < ?fo"
    proof (cases "x + length b \<ge> ?fo")
      case True
      have till_end: "h = FindNotLoadedStart ps (x + length b)" using True xfo by (simp add: h_def fr Let_def)
      have "true_parts file base limit ((x, b) # drop ?n parts)"
        using t k(2) x unfolding true_parts_def by (metis set_drop_subset subsetD sorted_wrt_drop drop_map)
      then have "\<forall>q \<in> set (drop ?n parts). x + kPartSize \<le> fst q" "true_parts file base limit (drop ?n parts)"
        by (simp_all add: true_parts_Cons)
      moreover have b: "length b \<le> kPartSize" "0 < length b" using part_of_length [OF p] by (metis min.cobounded1, blast)
      ultimately have "\<forall>q \<in> set ps. x + length b \<le> fst q" "true_parts file base limit ps"
        unfolding ps by (auto simp: true_parts_def sorted_wrt_map sorted_wrt_filter)
      then have "h \<notin> fst ` set ps" unfolding till_end by (intro FindNotLoadedStart_missing)
      then show ?thesis using FindNotLoadedStart_ge [of "x + length b" ps] \<open>0 < length b\<close> till_end by linarith
    next
      case False
      then show ?thesis using xfo by (simp add: h_def fr Let_def)
    qed
    have fo_less: "\<forall>q \<in> set (drop ?n parts). ?fo < fst q"
    proof
      fix q assume "q \<in> set (drop ?n parts)"
      then have "a < fst q" unfolding after by simp
      then show "?fo < fst q" by (rule le_less_trans [OF fo])
    qed
    have "h \<notin> fst ` set (drop ?n parts)"
    proof
      assume "h \<in> fst ` set (drop ?n parts)"
      then obtain q where q: "q \<in> set (drop ?n parts)" "fst q = h" by (elim imageE) simp
      then have "h \<in> fst ` set ps" using ht unfolding ps by (intro image_eqI [of _ _ q]) simp_all
      moreover have "?fo < h" using fo_less q by metis
      ultimately show False using nps by simp
    qed
    moreover have "h \<noteq> x" "h \<notin> fst ` set (take k parts)" using nps before by fastforce+
    ultimately have "h \<notin> fst ` set parts" unfolding parts by (simp add: image_Un)
    then show ?thesis using n by (simp add: h_def)
  qed
qed

lemma prepareFill_missing:
  assumes t: "true_parts file base limit (rs_parts s)" and a: "a < till" and no: "\<not> pf_ready (prepareFill a till s)"
  obtains b where "b \<in> set (pf_offsetsFromLoader (prepareFill a till s))" "b < till"
proof -
  let ?parts = "rs_parts s" and ?fo = "a div kPartSize * kPartSize"
  let ?preload = "((till + kPartSize - 1) div kPartSize + kPreloadPartsAhead) * kPartSize"
  let ?n = "upper_bound fst ?parts a"
  define h where "h = FindNotLoadedStart (fill_range a till ?parts) ?fo"
  define b where "b = (if ?n = 0 then ?fo else h)"
  have fo: "?fo \<le> a" by simp
  have nr: "?n \<noteq> 0 \<Longrightarrow> h < till"
    using no unfolding prepareFill_view PrepareFillResult.simps h_def by simp
  moreover have "?fo < till" using le_less_trans [OF fo a] .
  ultimately have bt: "b < till" unfolding b_def by (cases "?n = 0") simp_all
  have "till \<le> (till + kPartSize - 1) div kPartSize * kPartSize"
    using minus_mod_eq_div_mult [of "till + kPartSize - 1" kPartSize] mod_less_divisor [OF kPartSize_pos(1), of "till + kPartSize - 1"]
    by linarith
  then have pre: "b \<noteq> ?preload" using bt by (simp add: kPreloadPartsAhead_def distrib_right)
  have "b \<notin> fst ` set ?parts" using start_missing [OF t a] nr unfolding b_def h_def by blast
  then have "b \<in> set (offsetsFromLoader b ?preload ?parts)" using pre by (intro offsetsFromLoader_first)
  moreover have "pf_offsetsFromLoader (prepareFill a till s) = offsetsFromLoader b ?preload ?parts"
    unfolding prepareFill_view PrepareFillResult.simps h_def [symmetric] using nr by (simp add: b_def)
  ultimately show thesis using that bt by simp
qed

lemma offsets_loop_length: "length acc \<le> kLoadFromRemoteMax \<Longrightarrow> length (offsets_loop check a till acc) \<le> kLoadFromRemoteMax"
proof (induction check a till acc rule: offsets_loop.induct)
  case (1 check a till acc)
  show ?case
  proof (cases "a = till")
    case True
    then show ?thesis using 1(3) by (subst offsets_loop.simps) simp
  next
    case False
    let ?rest = "dropWhile (\<lambda>p. fst p < a) check"
    show ?thesis
    proof (cases "?rest \<noteq> [] \<and> fst (hd ?rest) = a")
      case True
      then show ?thesis using 1(1) [OF False refl True 1(3)] False by (subst offsets_loop.simps) (simp add: Let_def)
    next
      case no: False
      have eq: "offsets_loop check a till acc = (case StackIntVector_add kLoadFromRemoteMax acc a of
          None \<Rightarrow> acc | Some result \<Rightarrow> offsets_loop ?rest (a + kPartSize) till result)"
        unfolding offsets_loop.simps [of check a till acc] if_not_P [OF False] Let_def if_not_P [OF no] ..
      show ?thesis
      proof (cases "StackIntVector_add kLoadFromRemoteMax acc a")
        case (Some r)
        then have "length r \<le> kLoadFromRemoteMax" by (auto simp: StackIntVector_add_def split: if_splits)
        then show ?thesis using 1(2) [OF False refl no Some] unfolding eq Some option.case by blast
      qed (use 1(3) in \<open>simp add: eq\<close>)
    qed
  qed
qed

lemma prepareFill_length: "length (pf_offsetsFromLoader (prepareFill a till s)) \<le> kLoadFromRemoteMax"
  unfolding prepareFill_view PrepareFillResult.simps offsetsFromLoader_def Let_def by (rule offsets_loop_length) simp

lemma foldl_stack_add_mem:
  assumes "length acc + length vs \<le> n"
  shows "set acc \<subseteq> set (foldl (\<lambda>offsets v. if c v then stack_add n offsets (f v) else offsets) acc vs)"
    "v \<in> set vs \<Longrightarrow> c v \<Longrightarrow> f v \<in> set (foldl (\<lambda>offsets v. if c v then stack_add n offsets (f v) else offsets) acc vs)"
proof -
  have add: "stack_add n acc w = acc @ [w]" if "length acc < n" for acc w
    using that by (simp add: stack_add_def StackIntVector_add_def value_or_def)
  have "set acc \<union> {f v | v. v \<in> set vs \<and> c v} \<subseteq> set (foldl (\<lambda>offsets v. if c v then stack_add n offsets (f v) else offsets) acc vs)"
    using assms
  proof (induction vs arbitrary: acc)
    case (Cons w vs)
    have sub: "set (if c w then acc @ [f w] else acc) \<union> {f v | v. v \<in> set vs \<and> c v}
        \<subseteq> set (foldl (\<lambda>offsets v. if c v then stack_add n offsets (f v) else offsets) (if c w then acc @ [f w] else acc) vs)"
      using Cons.prems by (intro Cons.IH) simp
    have "(if c w then stack_add n acc (f w) else acc) = (if c w then acc @ [f w] else acc)" using Cons.prems add by simp
    then show ?case using sub by (cases "c w") auto
  qed auto
  then show "set acc \<subseteq> set (foldl (\<lambda>offsets v. if c v then stack_add n offsets (f v) else offsets) acc vs)"
    "v \<in> set vs \<Longrightarrow> c v \<Longrightarrow> f v \<in> set (foldl (\<lambda>offsets v. if c v then stack_add n offsets (f v) else offsets) acc vs)"
    by blast+
qed

lemma stack_add_keeps: "set acc \<subseteq> set (foldl (\<lambda>offsets v. if c v then stack_add n offsets (f v) else offsets) acc vs)"
proof (induction vs arbitrary: acc)
  case (Cons w vs)
  have "set acc \<subseteq> set (if c w then stack_add n acc (f w) else acc)"
    by (auto simp: stack_add_def StackIntVector_add_def value_or_def)
  then show ?case using Cons [of "if c w then stack_add n acc (f w) else acc"] by simp
qed simp

lemma handlePrepareResult_keeps:
  "set (fr_offsetsFromLoader result) \<subseteq> set (fr_offsetsFromLoader (handlePrepareResult s i p result))"
  unfolding handlePrepareResult_def Let_def by (simp add: stack_add_keeps [where c = "\<lambda>x. x < kInSlice \<and> x + i * kInSlice < ss_size s" and f = "\<lambda>x. x + i * kInSlice"])

lemma handlePrepareResult_missing:
  assumes "slices_inv file s" "i < length (ss_data s)" "i * kInSlice + till \<le> length file" "a < till" "till \<le> kInSlice"
    and "\<not> pf_ready (prepareFill a till (ss_data s ! i))" "\<not> cacheNotLoaded s i" "fr_offsetsFromLoader result = []"
  obtains v where "v \<in> set (fr_offsetsFromLoader (handlePrepareResult s i (prepareFill a till (ss_data s ! i)) result))"
    "v < i * kInSlice + till"
proof -
  note inv = slices_invD [OF assms(1)]
  obtain b where b: "b \<in> set (pf_offsetsFromLoader (prepareFill a till (ss_data s ! i)))" "b < till"
    using prepareFill_missing [OF inv(8) [OF assms(2)] assms(4,6)] by metis
  have "b + i * kInSlice \<in> set (fr_offsetsFromLoader (handlePrepareResult s i (prepareFill a till (ss_data s ! i)) result))"
    using foldl_stack_add_mem(2) [of "[]" "pf_offsetsFromLoader (prepareFill a till (ss_data s ! i))" kLoadFromRemoteMax b
        "\<lambda>x. x < kInSlice \<and> x + i * kInSlice < ss_size s" "\<lambda>x. x + i * kInSlice"] prepareFill_length b assms(3,5,7,8) inv(10)
    by (simp add: handlePrepareResult_def Let_def)
  then show thesis using that b(2) by simp
qed

text \<open>A whole slice that is ready has nothing of its own to preload.\<close>

lemma handlePrepareResult_ready:
  assumes "slices_inv file s" "i < length (ss_data s)" "pf_ready (prepareFill a kInSlice (ss_data s ! i))"
  shows "fr_offsetsFromLoader (handlePrepareResult s i (prepareFill a kInSlice (ss_data s ! i)) newFillResult) = []"
proof -
  let ?parts = "rs_parts (ss_data s ! i)"
  have k: "(kInSlice + kPartSize - 1) div kPartSize * kPartSize = kInSlice"
    by (simp add: kInSlice_def kPartsInSlice_def kPartSize_def)
  have "pf_offsetsFromLoader (prepareFill a kInSlice (ss_data s ! i))
      = offsetsFromLoader kInSlice (((kInSlice + kPartSize - 1) div kPartSize + kPreloadPartsAhead) * kPartSize) ?parts"
    using assms(3) unfolding prepareFill_view PrepareFillResult.simps k by auto
  then have "\<forall>v \<in> set (pf_offsetsFromLoader (prepareFill a kInSlice (ss_data s ! i))). \<not> v < kInSlice"
    using offsetsFromLoader_facts [of ?parts] slices_invD(8) [OF assms(1,2)] unfolding true_parts_def by (metis not_le)
  then have "set (foldl (\<lambda>offsets v. if v < kInSlice \<and> v + i * kInSlice < ss_size s
      then stack_add kLoadFromRemoteMax offsets (v + i * kInSlice) else offsets) []
      (pf_offsetsFromLoader (prepareFill a kInSlice (ss_data s ! i)))) \<subseteq> {}"
    by (intro foldl_stack_add) auto
  then show ?thesis by (simp add: handlePrepareResult_def Let_def newFillResult_def)
qed

lemma handleReadFromCache_inv:
  assumes inv: "slices_inv file s" and i: "i < length (ss_data s)"
  obtains r' s' where "handleReadFromCache i (r, s) = (r', s')" "slices_inv file s'"
    "fr_offsetsFromLoader r' = fr_offsetsFromLoader r"
    "fr_state r' = (if cacheNotLoaded s i then FillWaitingCache else fr_state r)"
    "length (ss_data s') = length (ss_data s)" "\<And>j. cacheNotLoaded s' j = cacheNotLoaded s j"
proof (cases "cacheNotLoaded s i \<and> \<not> rs_LoadingFromCache (ss_data s ! i)")
  case False
  then have "handleReadFromCache i (r, s) = ((if cacheNotLoaded s i then r\<lparr>fr_state := FillWaitingCache\<rparr> else r), s)"
    by (auto simp: handleReadFromCache_def)
  from that [OF this] show thesis using inv by auto
next
  case True
  note f = slices_invD [OF inv]
  let ?x = "(ss_data s ! i)\<lparr>rs_LoadingFromCache := True\<rparr>"
  have "slices_inv file (s\<lparr>ss_data := (ss_data s)[i := ?x]\<rparr>)"
    using True f(6) f(7,8) [OF i]
    by (intro slices_inv_data_update [OF inv i]) (auto simp: cacheNotLoaded_def slice_ok_def mode_ok_def)
  moreover have "handleReadFromCache i (r, s) = (r\<lparr>fr_sliceNumbersFromCache :=
        stack_add kReadFromCacheMax (fr_sliceNumbersFromCache r) (i + 1), fr_state := FillWaitingCache\<rparr>,
      s\<lparr>ss_data := (ss_data s)[i := ?x]\<rparr>)"
    using True by (auto simp: handleReadFromCache_def Let_def)
  moreover have "cacheNotLoaded (s\<lparr>ss_data := (ss_data s)[i := ?x]\<rparr>) j = cacheNotLoaded s j" for j
    using i by (cases "i = j") (simp_all add: cacheNotLoaded_def)
  ultimately show thesis using that True by simp
qed

lemma slice_range:
  assumes "0 < n" "n \<le> kInSlice"
  shows "(x + n + kInSlice - 1) div kInSlice = (if x + n \<le> (x div kInSlice + 1) * kInSlice then x div kInSlice + 1 else x div kInSlice + 2)"
proof -
  define q r where "q = x div kInSlice" and "r = x mod kInSlice"
  have x: "x = q * kInSlice + r" "r < kInSlice" by (simp_all add: q_def r_def)
  have "(x + n + kInSlice - 1) div kInSlice = (if x + n \<le> (q + 1) * kInSlice then q + 1 else q + 2)"
  proof (cases "x + n \<le> (q + 1) * kInSlice")
    case True
    then have "x + n + kInSlice - 1 = (q + 1) * kInSlice + (r + n - 1)" "r + n - 1 < kInSlice"
      using x assms by (simp_all add: algebra_simps)
    then have "(x + n + kInSlice - 1) div kInSlice = q + 1" by (metis div_mult_self3 div_less add_0_right kInSlice_mod(4))
    then show ?thesis using True by simp
  next
    case False
    then have "x + n + kInSlice - 1 = (q + 2) * kInSlice + (r + n - 1 - kInSlice)" "r + n - 1 - kInSlice < kInSlice"
      using x assms by (simp_all add: algebra_simps)
    then have "(x + n + kInSlice - 1) div kInSlice = q + 2" by (metis div_mult_self3 div_less add_0_right kInSlice_mod(4))
    then show ?thesis using False by simp
  qed
  then show ?thesis unfolding q_def .
qed

lemma fillFromHeader_inv:
  assumes inv: "slices_inv file s" and full: "isFullInHeader s" and b: "buffer \<noteq> []" "x + length buffer \<le> length file"
  obtains r buffer' where "fillFromHeader x buffer s = Some (r, buffer', s)"
    "buffer' = (if fr_state r = FillSuccess then take (length buffer) (drop x file) else buffer)"
    "set (fr_offsetsFromLoader r) \<subseteq> Collect (unheld file s)"
    "fr_state r = FillWaitingRemote \<Longrightarrow> waitingForHeaderCache s \<or> (\<exists>v \<in> set (fr_offsetsFromLoader r). v < x + length buffer)"
proof -
  note i = slices_invD [OF inv]
  let ?p = "prepareFill x (x + length buffer) (ss_header s)"
  let ?o = "foldl (\<lambda>offsets full. if full < ss_size s then stack_add kLoadFromRemoteMax offsets full else offsets)
              [] (pf_offsetsFromLoader ?p)"
  have "set ?o \<subseteq> Collect (unheld file s)"
    using prepareFill_offsets [OF i(9), of "x + length buffer" _ x] b(2) full i(10)
    by (intro foldl_stack_add) (auto simp: unheld_def held_def)
  moreover have "CopyLoaded (pf_parts ?p) x (x + length buffer) = Some (take (length buffer) (drop x file))" if "pf_ready ?p"
    using prepareFill_copies [OF i(9) _ _ that] b by simp
  moreover have "write_span 0 (take (length buffer) (drop x file)) buffer = Some (take (length buffer) (drop x file))"
    using b(2) by (intro write_whole) simp
  moreover have "\<exists>v \<in> set ?o. v < x + length buffer" if not_ready: "\<not> pf_ready ?p"
  proof -
    obtain v where v: "v \<in> set (pf_offsetsFromLoader ?p)" "v < x + length buffer"
      using prepareFill_missing [OF i(9) _ not_ready] b(1) by auto
    then have "v < ss_size s" using b(2) i(10) by simp
    then have "v \<in> set ?o"
      using foldl_stack_add_mem(2) [of "[]" _ kLoadFromRemoteMax v "\<lambda>x. x < ss_size s" "\<lambda>x. x"] v(1)
        prepareFill_length [of x "x + length buffer" "ss_header s"] by simp
    then show ?thesis using v(2) by blast
  qed
  ultimately show thesis
    using that by (cases "pf_ready ?p") (simp_all add: fillFromHeader_def Let_def newFillResult_def)
qed

lemma slices_fill_sliced:
  assumes inv: "slices_inv file s" and ready: "ss_headerMode s = ModeNoCache \<or> rs_LoadedFromCache (ss_header s)"
    and nf: "\<not> isFullInHeader s"
    and b: "buffer \<noteq> []" "x + length buffer \<le> length file" "length buffer \<le> kInSlice"
  obtains r buffer' s' where "slices_fill x buffer s = Some (r, buffer', s')" "slices_inv file s'"
    "buffer' = (if fr_state r = FillSuccess then take (length buffer) (drop x file) else buffer)"
    "set (fr_offsetsFromLoader r) \<subseteq> Collect (unheld file s)"
    "fr_state r = FillWaitingRemote \<Longrightarrow> waitingForHeaderCache s \<or> (\<exists>v \<in> set (fr_offsetsFromLoader r). v < x + length buffer)"
proof -
  note result = that
  note i = slices_invD [OF inv]
  have x: "0 < length buffer" "x < length file" using b(1,2) by (auto simp: neq_Nil_conv)
  have start: "assert (buffer \<noteq> []) = Some ()" "assert (x < ss_size s) = Some ()"
      "assert (x + length buffer \<le> ss_size s) = Some ()" "assert (length buffer \<le> kInSlice) = Some ()"
    using b x i(10) by simp_all
  have wait: "(ss_headerMode s \<noteq> ModeNoCache \<and> \<not> rs_LoadedFromCache (ss_header s)) = False" using ready by blast
  define a where "a = x div kInSlice"
  define till where "till = x + length buffer"
  define tillSlice where "tillSlice = (till + kInSlice - 1) mod 2 ^ 32 div kInSlice"
  define ff where "ff = x - a * kInSlice"
  define ft where "ft = min kInSlice (till - a * kInSlice)"
  define st where "st = (if till > (a + 1) * kInSlice then till - (a + 1) * kInSlice else 0)"
  define first where "first = prepareFill ff ft (ss_data s ! a)"
  define second where "second = (if a + 1 < tillSlice then prepareFill 0 st (ss_data s ! (a + 1))
                          else \<lparr>pf_offsetsFromLoader = [], pf_parts = [], pf_ready = True\<rparr>)"
  define r0 where "r0 = handlePrepareResult s a first newFillResult"
  define r1 where "r1 = (if a + 1 < tillSlice then handlePrepareResult s (a + 1) second r0 else r0)"
  have xa: "a * kInSlice \<le> x" "x < (a + 1) * kInSlice" "a * kInSlice + ff = x"
    by (simp_all add: a_def ff_def) (metis add.commute dividend_less_div_times kInSlice_mod(3) mult.commute mult_Suc)
  have "length file \<le> 510 * kInSlice" using i(11) by (simp add: streamable_def)
  then have "till + kInSlice - 1 < 2 ^ 32" using b(2) by (simp add: till_def kInSlice_def kPartsInSlice_def kPartSize_def)
  then have unwrapped: "tillSlice = (till + kInSlice - 1) div kInSlice" by (simp add: tillSlice_def)
  have ts: "tillSlice = (if till \<le> (a + 1) * kInSlice then a + 1 else a + 2)"
    unfolding unwrapped till_def a_def by (rule slice_range [OF x(1) b(3)])
  have tl: "tillSlice \<le> length (ss_data s)"
    using i(1) nf b(2) unfolding unwrapped till_def by (auto simp: slices_true_def intro!: div_le_mono)
  have al: "a < length (ss_data s)" "a + 1 < tillSlice \<Longrightarrow> a + 1 < length (ss_data s)" using ts tl by (auto split: if_splits)
  have tillb: "till \<le> length file" "x < till" "till \<le> (a + 2) * kInSlice" using b x xa by (auto simp: till_def algebra_simps)
  have fft: "ff < ft" "a * kInSlice + ft \<le> length file" "ft - ff = (if a + 1 < tillSlice then kInSlice - ff else length buffer)"
    using xa tillb ts by (auto simp: ft_def min_def till_def split: if_splits)
  have stt: "0 < st" "(a + 1) * kInSlice + st = till" if "a + 1 < tillSlice"
    using that ts by (auto simp: st_def split: if_splits)
  have ass: "assert ((a + 1 = tillSlice \<or> a + 2 = tillSlice) \<and> tillSlice \<le> length (ss_data s)) = Some ()"
    using ts tl by (simp split: if_splits)
  have run: "slices_fill x buffer s =
     (if pf_ready first \<and> pf_ready second
      then do {
        src \<leftarrow> CopyLoaded (pf_parts first) ff ft;
        buffer \<leftarrow> write_span 0 src buffer;
        (buffer, s) \<leftarrow>
          (if a + 1 < tillSlice
           then do { src \<leftarrow> CopyLoaded (pf_parts second) 0 st;
                     buffer \<leftarrow> write_span (ft - ff) src buffer;
                     Some (buffer, markSliceUsed (a + 1) (markSliceUsed a s)) }
           else Some (buffer, markSliceUsed a s));
        (toCache, s) \<leftarrow> serializeAndUnloadUnused s;
        Some (r1\<lparr>fr_toCache := toCache, fr_state := FillSuccess\<rparr>, buffer, s) }
      else do {
        let (result, s) = handleReadFromCache a (r1, s);
        let (result, s) = (if a + 1 < tillSlice then handleReadFromCache (a + 1) (result, s) else (result, s));
        Some (result, buffer, s) })"
    unfolding slices_fill_def start bind.bind_lunit wait if_False if_not_P [OF nf] Let_def
    unfolding a_def [symmetric] till_def [symmetric]
    unfolding tillSlice_def [symmetric] ass bind.bind_lunit ff_def [symmetric] ft_def [symmetric] st_def [symmetric]
    unfolding first_def [symmetric] second_def [symmetric] r0_def [symmetric]
    unfolding r1_def [symmetric] ..
  have w0: "set (fr_offsetsFromLoader r0) \<subseteq> Collect (unheld file s)"
    unfolding r0_def first_def by (rule handlePrepareResult_unheld [OF inv nf al(1) fft(2)]) (simp add: newFillResult_def)
  have w1: "set (fr_offsetsFromLoader r1) \<subseteq> Collect (unheld file s)"
    using handlePrepareResult_unheld [OF inv nf al(2) _ w0, of st 0] stt tillb(1) w0
    by (auto simp: r1_def second_def)
  have i1: "slices_inv file (markSliceUsed a s)" by (rule markSliceUsed_inv [OF inv al(1)])
  have c1: "CopyLoaded (pf_parts first) ff ft = Some (take (ft - ff) (drop x file))" if "pf_ready first"
    using prepareFill_copies [OF i(8) [OF al(1)] fft(1,2) that [unfolded first_def]] xa(3) by (simp add: first_def)
  show thesis
  proof (cases "pf_ready first \<and> pf_ready second")
    case True
    have copied: "\<exists>s1. (do {
        src \<leftarrow> CopyLoaded (pf_parts first) ff ft;
        buffer \<leftarrow> write_span 0 src buffer;
        (if a + 1 < tillSlice
           then do { src \<leftarrow> CopyLoaded (pf_parts second) 0 st;
                     buffer \<leftarrow> write_span (ft - ff) src buffer;
                     Some (buffer, markSliceUsed (a + 1) (markSliceUsed a s)) }
           else Some (buffer, markSliceUsed a s)) }) = Some (take (length buffer) (drop x file), s1) \<and> slices_inv file s1"
    proof (cases "a + 1 < tillSlice")
      case False
      then show ?thesis using c1 True fft(3) i1 tillb write_whole [of "take (length buffer) (drop x file)" buffer] b(2) by simp
    next
      case two: True
      let ?a = "take (ft - ff) (drop x file)" and ?b = "take st (drop ((a + 1) * kInSlice) file)"
      have c2: "CopyLoaded (pf_parts second) 0 st = Some ?b"
        using prepareFill_copies [OF i(8) [OF al(2) [OF two]] stt(1) [OF two], of ] stt [OF two] tillb True two
        by (simp add: second_def)
      have split: "x + (ft - ff) = (a + 1) * kInSlice" "ft - ff + st = length buffer"
        using fft(1,3) stt [OF two] two xa tillb by (auto simp: till_def algebra_simps)
      have ab: "?a @ ?b = take (length buffer) (drop x file)"
        using split by (metis add.commute drop_drop take_add)
      have la: "length ?a = ft - ff" "length ?b = st" using split stt [OF two] tillb(1) b(2) by simp_all
      obtain buffer' where "write_span 0 ?a buffer = Some buffer'" "write_span (length ?a) ?b buffer' = Some (?a @ ?b)"
        using write_halves [of ?a ?b buffer] la split(2) by metis
      then show ?thesis
        using c1 c2 True two la ab markSliceUsed_inv [OF i1, of "a + 1"] al(2) [OF two] by simp
    qed
    then obtain s1 where s1: "slices_inv file s1" and c: "(do {
        src \<leftarrow> CopyLoaded (pf_parts first) ff ft;
        buffer \<leftarrow> write_span 0 src buffer;
        (if a + 1 < tillSlice
           then do { src \<leftarrow> CopyLoaded (pf_parts second) 0 st;
                     buffer \<leftarrow> write_span (ft - ff) src buffer;
                     Some (buffer, markSliceUsed (a + 1) (markSliceUsed a s)) }
           else Some (buffer, markSliceUsed a s)) }) = Some (take (length buffer) (drop x file), s1)" by blast
    obtain tc s2 where u: "serializeAndUnloadUnused s1 = Some (tc, s2)" "slices_inv file s2"
      using serializeAndUnloadUnused_inv [OF s1] by metis
    have "slices_fill x buffer s = (do {
        (buffer, s) \<leftarrow> do {
          src \<leftarrow> CopyLoaded (pf_parts first) ff ft;
          buffer \<leftarrow> write_span 0 src buffer;
          (if a + 1 < tillSlice
           then do { src \<leftarrow> CopyLoaded (pf_parts second) 0 st;
                     buffer \<leftarrow> write_span (ft - ff) src buffer;
                     Some (buffer, markSliceUsed (a + 1) (markSliceUsed a s)) }
           else Some (buffer, markSliceUsed a s)) };
        (toCache, s) \<leftarrow> serializeAndUnloadUnused s;
        Some (r1\<lparr>fr_toCache := toCache, fr_state := FillSuccess\<rparr>, buffer, s) })"
      unfolding run if_P [OF True] by simp
    then have "slices_fill x buffer s = Some (r1\<lparr>fr_toCache := tc, fr_state := FillSuccess\<rparr>, take (length buffer) (drop x file), s2)"
      unfolding c by (simp add: u(1))
    then show thesis by (rule result) (use u(2) w1 in simp_all)
  next
    case False
    have r1: "fr_state r1 = FillWaitingRemote" by (simp add: r1_def r0_def handlePrepareResult_def newFillResult_def)
    obtain r2 s2 where h: "handleReadFromCache a (r1, s) = (r2, s2)" "slices_inv file s2"
      "fr_offsetsFromLoader r2 = fr_offsetsFromLoader r1" "fr_state r2 \<noteq> FillSuccess" "length (ss_data s2) = length (ss_data s)"
      and cn: "fr_state r2 = (if cacheNotLoaded s a then FillWaitingCache else FillWaitingRemote)"
        "\<And>j. cacheNotLoaded s2 j = cacheNotLoaded s j"
      using handleReadFromCache_inv [OF inv al(1), of r1] r1 by (metis FillState.distinct(1,3))
    have asks: "\<exists>v \<in> set (fr_offsetsFromLoader r1). v < x + length buffer"
      if c: "\<not> cacheNotLoaded s a" "a + 1 < tillSlice \<Longrightarrow> \<not> cacheNotLoaded s (a + 1)"
    proof (cases "pf_ready first")
      case notready: False
      have "ft \<le> kInSlice" by (simp add: ft_def)
      then obtain v where "v \<in> set (fr_offsetsFromLoader r0)" "v < a * kInSlice + ft"
        using handlePrepareResult_missing [OF inv al(1) fft(2,1) _ notready [unfolded first_def] c(1), of newFillResult]
        unfolding r0_def first_def by (auto simp: newFillResult_def)
      moreover have "a * kInSlice + ft \<le> till" using xa tillb by (auto simp: ft_def min_def)
      moreover have "set (fr_offsetsFromLoader r0) \<subseteq> set (fr_offsetsFromLoader r1)"
        using handlePrepareResult_keeps by (simp add: r1_def)
      ultimately show ?thesis unfolding till_def by (meson order_less_le_trans subsetD)
    next
      case ready1: True
      then have two: "a + 1 < tillSlice" and nr: "\<not> pf_ready second" using False by (auto simp: second_def split: if_splits)
      have sec: "second = prepareFill 0 st (ss_data s ! (a + 1))"
          "r1 = handlePrepareResult s (a + 1) (prepareFill 0 st (ss_data s ! (a + 1))) r0"
        using two by (simp_all add: second_def r1_def)
      have "ft = kInSlice" using two ts by (auto simp: ft_def min_def split: if_splits)
      then have "fr_offsetsFromLoader r0 = []"
        using handlePrepareResult_ready [OF inv al(1)] ready1 unfolding r0_def first_def by simp
      moreover have "st \<le> kInSlice" using stt(2) [OF two] tillb(3) by simp
      ultimately obtain v where "v \<in> set (fr_offsetsFromLoader r1)" "v < (a + 1) * kInSlice + st"
        using handlePrepareResult_missing [OF inv al(2) [OF two] _ stt(1) [OF two], of r0] nr [unfolded sec(1)] c(2) [OF two]
          stt(2) [OF two] tillb(1) unfolding sec(2) by metis
      then show ?thesis using stt(2) [OF two] unfolding till_def by auto
    qed
    show thesis
    proof (cases "a + 1 < tillSlice")
      case two: True
      have "a + 1 < length (ss_data s2)" using al(2) [OF two] h(5) by simp
      from handleReadFromCache_inv [OF h(2) this, of r2] obtain r3 s3 where h3: "handleReadFromCache (a + 1) (r2, s2) = (r3, s3)"
        "slices_inv file s3" "fr_offsetsFromLoader r3 = fr_offsetsFromLoader r2"
        and st3: "fr_state r3 = (if cacheNotLoaded s2 (a + 1) then FillWaitingCache else fr_state r2)"
        by metis
      then have "fr_state r3 \<noteq> FillSuccess" "fr_state r3 = FillWaitingRemote \<Longrightarrow> \<not> cacheNotLoaded s a \<and> \<not> cacheNotLoaded s (a + 1)"
        using h(4) cn by (auto split: if_splits)
      have "slices_fill x buffer s = Some (r3, buffer, s3)"
        unfolding run if_not_P [OF False] using h h3 two by simp
      then show thesis by (rule result) (use h h3 w1 asks \<open>fr_state r3 \<noteq> FillSuccess\<close>
          \<open>fr_state r3 = FillWaitingRemote \<Longrightarrow> \<not> cacheNotLoaded s a \<and> \<not> cacheNotLoaded s (a + 1)\<close> in simp_all)
    next
      case one: False
      have "slices_fill x buffer s = Some (r2, buffer, s2)"
        unfolding run if_not_P [OF False] using h one by simp
      then show thesis by (rule result) (use h w1 asks one cn(1) in \<open>simp_all split: if_splits\<close>)
    qed
  qed
qed

lemma slices_fill_inv:
  assumes inv: "slices_inv file s" and b: "buffer \<noteq> []" "x + length buffer \<le> length file" "length buffer \<le> kInSlice"
  obtains r buffer' s' where "slices_fill x buffer s = Some (r, buffer', s')" "slices_inv file s'"
    "buffer' = (if fr_state r = FillSuccess then take (length buffer) (drop x file) else buffer)"
    "set (fr_offsetsFromLoader r) \<subseteq> Collect (unheld file s)"
    "fr_state r = FillWaitingRemote \<Longrightarrow> waitingForHeaderCache s \<or> (\<exists>v \<in> set (fr_offsetsFromLoader r). v < x + length buffer)"
proof -
  note result = that
  note i = slices_invD [OF inv]
  have x: "0 < length buffer" "x < length file" using b(1,2) by (auto simp: neq_Nil_conv)
  have start: "assert (buffer \<noteq> []) = Some ()" "assert (x < ss_size s) = Some ()"
      "assert (x + length buffer \<le> ss_size s) = Some ()" "assert (length buffer \<le> kInSlice) = Some ()"
    using b x i(10) by simp_all
  consider (wait) "ss_headerMode s \<noteq> ModeNoCache" "\<not> rs_LoadedFromCache (ss_header s)"
    | (full) "ss_headerMode s = ModeNoCache \<or> rs_LoadedFromCache (ss_header s)" "isFullInHeader s"
    | (slices) "ss_headerMode s = ModeNoCache \<or> rs_LoadedFromCache (ss_header s)" "\<not> isFullInHeader s" by blast
  then show thesis
  proof cases
    case wait
    have "waitingForHeaderCache s"
      using i(6) wait by (cases "ss_headerMode s") (simp_all add: mode_ok_def waitingForHeaderCache_def)
    note w = this
    then have "slices_fill x buffer s = Some (newFillResult, buffer, s)"
      using wait start by (simp add: slices_fill_def)
    then show thesis by (rule result) (simp_all add: inv newFillResult_def w)
  next
    case full
    from fillFromHeader_inv [OF inv full(2) b(1,2)] obtain r buffer' where
      f: "fillFromHeader x buffer s = Some (r, buffer', s)"
        "buffer' = (if fr_state r = FillSuccess then take (length buffer) (drop x file) else buffer)"
        "set (fr_offsetsFromLoader r) \<subseteq> Collect (unheld file s)"
        "fr_state r = FillWaitingRemote \<Longrightarrow> waitingForHeaderCache s \<or> (\<exists>v \<in> set (fr_offsetsFromLoader r). v < x + length buffer)"
      by metis
    have "slices_fill x buffer s = Some (r, buffer', s)"
      using full start f(1) by (auto simp: slices_fill_def)
    then show thesis by (rule result) (use inv f in simp_all)
  next
    case slices
    show thesis by (rule slices_fill_sliced [OF inv slices b result])
  qed
qed

section \<open>Reading a file\<close>

text \<open>C25: Filling a buffer at any position of the file never fails an assertion. When it succeeds the
  buffer has the bytes of the file at that position; otherwise the buffer is left as it was. The parts
  that it asks the loader for lie in the file, begin at a multiple of the part size and are not held;
  when it waits for the server, and not for the header from the cache, it asks for a part that the
  buffer needs.\<close>

theorem fill_reads_file:
  assumes "slices_inv file s" "buffer \<noteq> []" "x + length buffer \<le> length file" "length buffer \<le> kInSlice"
  shows "\<exists>r buffer' s'. slices_fill x buffer s = Some (r, buffer', s') \<and> slices_inv file s'
    \<and> buffer' = (if fr_state r = FillSuccess then take (length buffer) (drop x file) else buffer)
    \<and> (\<forall>y \<in> set (fr_offsetsFromLoader r). y < length file \<and> y mod kPartSize = 0 \<and> \<not> held s y)
    \<and> (fr_state r = FillWaitingRemote \<longrightarrow>
         waitingForHeaderCache s \<or> (\<exists>y \<in> set (fr_offsetsFromLoader r). y < x + length buffer))"
proof -
  obtain r buffer' s' where f: "slices_fill x buffer s = Some (r, buffer', s')" "slices_inv file s'"
      "buffer' = (if fr_state r = FillSuccess then take (length buffer) (drop x file) else buffer)"
      "set (fr_offsetsFromLoader r) \<subseteq> Collect (unheld file s)"
      "fr_state r = FillWaitingRemote \<Longrightarrow> waitingForHeaderCache s \<or> (\<exists>v \<in> set (fr_offsetsFromLoader r). v < x + length buffer)"
    using slices_fill_inv [OF assms] by metis
  have "\<forall>y \<in> set (fr_offsetsFromLoader r). y < length file \<and> y mod kPartSize = 0 \<and> \<not> held s y"
    using f(4) by (auto simp: unheld_def)
  then show ?thesis using f by blast
qed

theorem fill_reads_file_witness:
  "\<exists>r s'. slices_fill 1 [0, 0] (example_slices ModeFull) = Some (r, [2, 3], s') \<and> slices_inv example_file s'"
proof -
  have k: "length [0, 0 :: 8 word] \<le> kInSlice" by (simp add: kInSlice_def kPartsInSlice_def kPartSize_def)
  obtain r b s' where f: "slices_fill 1 [0, 0] (example_slices ModeFull) = Some (r, b, s')" "slices_inv example_file s'"
      "b = (if fr_state r = FillSuccess then take 2 (drop 1 example_file) else [0, 0])"
    using fill_reads_file [of example_file "example_slices ModeFull" "[0, 0]" 1] example_inv [of ModeFull] example_small(4) k
    by auto
  have "fr_state r = FillSuccess" using f(1)
    by (auto simp: slices_fill_def example_slices_def example_small isFullInHeader_def fillFromHeader_def prepareFill_def
        upper_bound_def lower_bound_def kInSlice_def kPartsInSlice_def kPartSize_def Let_def bind_eq_Some_conv split: if_splits)
  then show ?thesis using f by (simp add: example_file_def)
qed

text \<open>Without a cache no slice is ever left: a slice that has not been used for long is marked as
  loaded from the cache only when there is one, and what is not so marked is kept. The whole file stays
  in memory once it was read.\<close>

lemma no_cache_never_unloads:
  assumes "slices_inv file s" "ss_headerMode s = ModeNoCache" "serializeAndUnloadUnused s = Some (r, s')"
  shows "ss_data s' = ss_data s \<and> ss_header s' = ss_header s \<and> r = noSerialized"
proof -
  have "list_all untouched (ss_data s)" using slices_invD(6) [OF assms(1)] assms(2) by (simp add: mode_ok_def)
  then have "\<not> rs_LoadedFromCache (ss_data s ! i)" if "i < length (ss_data s)" for i
    using that by (auto simp: list_all_length untouched_def)
  then show ?thesis using assms(3)
    by (auto simp: serializeAndUnloadUnused_def Let_def bind_eq_Some_conv assert_def split: if_splits)
qed

end
