(* ===== verification/StreamingCache.thy ===== *)
theory StreamingCache imports StreamingFill begin

text \<open>
  The cache of a streamed file: an entry that \<open>serializeAndUnloadSlice\<close> writes is what
  \<open>ParseCacheEntry\<close> reads, and \<open>Reader::finalizeCache\<close> ends with nothing unsaved.
\<close>

section \<open>Entries of the cache read back\<close>

lemma pad_serialization_spec:
  "\<exists>z \<le> 2. pad_serialization m data = data @ replicate z 0
     \<and> \<not> IsContiguousSerialization (int (length (pad_serialization m data))) m"
proof -
  let ?c = "\<lambda>n. IsContiguousSerialization (int n) m" and ?n = "length data"
  have stop: "\<not> ?c (length d) \<Longrightarrow> pad_serialization m d = d" and step: "?c (length d) \<Longrightarrow> pad_serialization m d = pad_serialization m (d @ [0])" for d
    by (subst pad_serialization.simps, simp)+
  consider "\<not> ?c ?n" | "?c ?n" "\<not> ?c (?n + 1)" | "?c ?n" "?c (?n + 1)" "\<not> ?c (?n + 2)"
  proof -
    have "\<not> (?c ?n \<and> ?c (?n + 1) \<and> ?c (?n + 2))"
      unfolding contiguous_mod using mod_kPartSize_Suc [of ?n] mod_kPartSize_Suc [of "Suc ?n"]
      by (simp only: add_Suc_right add_0_right One_nat_def numeral_2_eq_2) (metis n_not_Suc_n of_nat_eq_iff)
    then show ?thesis using that by blast
  qed
  then show ?thesis
  proof cases
    case 1
    then show ?thesis using stop [of data] by (intro exI [of _ 0]) simp
  next
    case 2
    then show ?thesis using stop [of "data @ [0]"] step [of data] by (intro exI [of _ 1]) simp
  next
    case 3
    then show ?thesis using stop [of "data @ [0, 0]"] step [of data] step [of "data @ [0]"]
      by (intro exI [of _ 2]) (simp add: numeral_2_eq_2)
  qed
qed

lemma u32_of_i32: "0 \<le> x \<Longrightarrow> x < 2 ^ 32 \<Longrightarrow> u32 (i32 x) = x"
  by (simp add: u32_def i32_def mod_simps)

definition slice_base :: "nat \<Rightarrow> nat" where
  "slice_base n = (n - 1) * kInSlice"

lemma MaxSliceSize_slice:
  assumes "slices_true file s" "n < length (ss_data s)"
  shows "MaxSliceSize (Suc n) (length file) = Some (int (min kInSlice (length file - n * kInSlice)))"
proof -
  have t: "streamable file" using assms(1) by (simp add: slices_true_def)
  have count: "(length file + kInSlice - 1) div kInSlice = length (ss_data s)"
    using assms by (auto simp: slices_true_def split: if_splits)
  have base: "n * kInSlice < length file" by (rule slice_base_less [OF assms])
  have m: "(if Suc n = length (ss_data s) then int (length file) - int n * int kInSlice else int kInSlice)
      = int (min kInSlice (length file - n * kInSlice))"
  proof (cases "Suc n = length (ss_data s)")
    case True
    have "length file + kInSlice - 1 < (length (ss_data s) + 1) * kInSlice"
      unfolding count [symmetric] by (metis Suc_eq_plus1 dividend_less_div_times kInSlice_mod(3) mult.commute mult_Suc_right add.commute)
    then have "length file - n * kInSlice \<le> kInSlice" unfolding True [symmetric] by (simp add: algebra_simps)
    then have "min kInSlice (length file - n * kInSlice) = length file - n * kInSlice" by (rule min_absorb2)
    moreover have "int (length file - n * kInSlice) = int (length file) - int n * int kInSlice"
      using base by (simp only: of_nat_diff less_imp_le of_nat_mult)
    ultimately show ?thesis using True by simp
  next
    case False
    then have "Suc n * kInSlice < length file" using assms(2) by (intro slice_base_less [OF assms(1)]) simp
    then show ?thesis using False by (simp add: min_def)
  qed
  have "i32 (int (min kInSlice (length file - n * kInSlice))) = int (min kInSlice (length file - n * kInSlice))"
    by (rule i32_id) (simp add: kInSlice_def kPartsInSlice_def kPartSize_def in_i32_def min_def)
  moreover have "MaxSliceSize (Suc n) (length file)
      = Some (i32 (if Suc n = length (ss_data s) then int (length file) - (int (Suc n) - 1) * int kInSlice else int kInSlice))"
    unfolding MaxSliceSize_def SlicesCount_streamable [OF t] count if_not_P [OF nat.distinct(2)] bind.bind_lunit ..
  moreover have "int (Suc n) - 1 = int n" by simp
  ultimately show ?thesis unfolding m [symmetric] by (simp only:)
qed

lemma fits_true_parts:
  assumes "true_parts file base limit parts" "limit mod kPartSize = 0 \<or> length file \<le> base + limit"
  shows "fits (min limit (length file - base)) parts"
proof -
  have "b \<noteq> [] \<and> length b \<le> kPartSize \<and> x + length b \<le> min limit (length file - base)" if m: "(x, b) \<in> set parts" for x b
  proof -
    have p: "part_of file base (x, b)" "x < limit" using assms(1) m by (auto simp: true_parts_def)
    note l = part_of_length [OF p(1)]
    have "x + kPartSize \<le> limit" if "limit mod kPartSize = 0"
      using p that by (intro aligned_less) (auto simp: part_of_def)
    then show ?thesis using l p assms(2) by (auto simp: part_of_def min_def)
  qed
  then show ?thesis using assms(1) by (auto simp: fits_def true_parts_def)
qed

lemma chain_length:
  "chain r parts \<Longrightarrow> parts \<noteq> [] \<Longrightarrow> r + length (concat (map snd parts)) = fst (last parts) + length (snd (last parts))"
proof (induction parts arbitrary: r)
  case (Cons p parts)
  obtain x b where p: "p = (x, b)" by (cases p)
  show ?case
  proof (cases "parts = []")
    case False
    then have "(x + length b) + length (concat (map snd parts)) = fst (last parts) + length (snd (last parts))"
      using Cons.prems(1) by (intro Cons.IH) (auto simp: p)
    then show ?thesis using Cons.prems(1) False by (auto simp: p)
  qed (use Cons.prems(1) p in simp)
qed simp

lemma contiguous_parts:
  assumes "true_parts file base limit parts" "parts \<noteq> []" "fst (last parts) < FindNotLoadedStart parts 0"
  shows "chain 0 parts" "length (concat (map snd parts)) = fst (last parts) + length (snd (last parts))"
    "length (concat (map snd parts)) mod kPartSize = 0 \<or> base + length (concat (map snd parts)) = length file"
proof -
  obtain x b ps where parts: "parts = (x, b) # ps" using assms(2) by (cases parts) auto
  have "x = 0" using assms(3) by (auto simp: parts Let_def split: if_splits)
  then show c: "chain 0 parts"
    using chain_of_true_parts [of "file" base limit x b ps] assms(1,3) by (simp add: parts Let_def)
  show l: "length (concat (map snd parts)) = fst (last parts) + length (snd (last parts))"
    using chain_length [OF c assms(2)] by simp
  have "part_of file base (last parts)" using assms(1,2) last_in_set by (auto simp: true_parts_def)
  then have "part_of file base (fst (last parts), snd (last parts))" by simp
  note part_of_length [OF this]
  moreover have "fst (last parts) mod kPartSize = 0" "base + fst (last parts) < length file"
    using \<open>part_of file base (last parts)\<close> by (simp_all add: part_of_def)
  ultimately show "length (concat (map snd parts)) mod kPartSize = 0 \<or> base + length (concat (map snd parts)) = length file"
    unfolding l by (auto simp: min_def split: if_splits)
qed

lemma ParseCachedMap_contiguous:
  assumes "true_parts file base limit parts" "parts \<noteq> []" "fst (last parts) < FindNotLoadedStart parts 0"
    and "limit mod kPartSize = 0 \<or> length file \<le> base + limit" "m = int (min limit (length file - base))"
  shows "ParseCachedMap [] (concat (map snd parts)) m = (parts, [])"
proof -
  note c = contiguous_parts [OF assms(1,2,3)]
  have "last parts \<in> set parts" using assms(2) by simp
  then have le: "length (concat (map snd parts)) \<le> min limit (length file - base)"
    using fits_true_parts [OF assms(1,4)] by (auto simp: fits_def c(2) case_prod_beta)
  then have "int (length (concat (map snd parts))) = m" if "base + length (concat (map snd parts)) = length file"
    using that assms(5) by auto
  then have "IsContiguousSerialization (int (length (concat (map snd parts)))) m" using c(3) by (auto simp: contiguous_mod)
  moreover have "split_parts 0 (concat (map snd parts)) [] = parts" using split_parts_chain [of "[]" parts "[]"] c(1) by simp
  moreover have "\<not> m < int (length (concat (map snd parts)))" using le unfolding assms(5) not_less of_nat_le_iff .
  ultimately show ?thesis by (simp add: ParseCachedMap_def)
qed

lemma ParseCachedMap_complex:
  assumes "fits (nat (u32 m)) parts" "length parts \<le> 80"
  obtains z where "z \<le> 2" "ParseCachedMap [] (pad_serialization m (SerializeComplexPartsMap parts @ rest)) m = (parts, rest @ replicate z 0)"
proof -
  obtain z where z: "z \<le> 2" "pad_serialization m (SerializeComplexPartsMap parts @ rest) = (SerializeComplexPartsMap parts @ rest) @ replicate z 0"
     "\<not> IsContiguousSerialization (int (length (pad_serialization m (SerializeComplexPartsMap parts @ rest)))) m"
    using pad_serialization_spec by blast
  show thesis
    using z ParseComplexCachedMap_serialized [OF assms, of "rest @ replicate z 0"]
    by (intro that [OF z(1)]) (simp add: ParseCachedMap_def)
qed

lemma true_parts_erase_all:
  "true_parts file base limit parts \<Longrightarrow> true_parts file base limit (foldl (\<lambda>parts (x, b). flat_erase x parts) parts extra)
    \<and> keys (foldl (\<lambda>parts (x, b). flat_erase x parts) parts extra) = keys parts - keys extra"
proof (induction extra arbitrary: parts)
  case (Cons p extra)
  have "keys (flat_erase (fst p) parts) = keys parts - {fst p}" by (auto simp: flat_erase_def)
  then show ?case using Cons.IH [OF true_parts_erase [OF Cons.prems, of "fst p"]] by (auto simp: case_prod_beta)
qed simp

lemma complex_length:
  "length (SerializeComplexPartsMap parts) = 4 + 8 * length parts + length (concat (map snd parts))"
proof -
  have "length (concat (map (\<lambda>(x, b). int_bytes x @ int_bytes (length b) @ b) parts)) = 8 * length parts + length (concat (map snd parts))"
    by (induction parts) (auto simp: int_bytes_def)
  then show ?thesis by (simp add: SerializeComplexPartsMap_def int_bytes_def)
qed

text \<open>What follows the header in its entry is never taken for parts without gaps.\<close>

lemma ParseCachedMap_included:
  assumes "true_parts file 0 kInSlice parts" "kInSlice \<le> length file" "z \<le> 2"
  shows "ParseCachedMap [] (SerializeComplexPartsMap parts @ replicate z 0) (int kInSlice) = (parts, replicate z 0)"
proof -
  have full: "length b = kPartSize" if "(x, b) \<in> set parts" for x b
  proof -
    have p: "part_of file 0 (x, b)" "x < kInSlice" using assms(1) that by (auto simp: true_parts_def)
    then have "x + kPartSize \<le> kInSlice" by (intro aligned_less) (auto simp: part_of_def)
    then show ?thesis using part_of_length [OF p(1)] assms(2) by simp
  qed
  then have "length (concat (map snd parts)) = length parts * kPartSize"
  proof (induction parts)
    case (Cons p parts)
    then have "length (snd p) = kPartSize" "length (concat (map snd parts)) = length parts * kPartSize"
      by (cases p, force)+
    then show ?case by simp
  qed simp
  then have len: "length (SerializeComplexPartsMap parts @ replicate z (0 :: 8 word)) = (4 + 8 * length parts + z) + length parts * kPartSize"
    by (simp add: complex_length)
  have le: "length parts \<le> 64" by (rule slice_parts_le [OF assms(1)])
  have "length (SerializeComplexPartsMap parts @ replicate z (0 :: 8 word)) mod kPartSize = (4 + 8 * length parts + z) mod kPartSize"
    unfolding len by (rule mod_mult_self1)
  also have "\<dots> = 4 + 8 * length parts + z" using le assms(3) by (intro mod_less) (simp add: kPartSize_def)
  finally have "length (SerializeComplexPartsMap parts @ replicate z (0 :: 8 word)) mod kPartSize \<noteq> 0" by linarith
  then have "\<not> IsContiguousSerialization (int (length (SerializeComplexPartsMap parts @ replicate z (0 :: 8 word)))) (int kInSlice)"
    unfolding contiguous_mod of_nat_eq_iff using kInSlice_mod(2) by metis
  moreover have "nat (u32 (int kInSlice)) = kInSlice" by (simp add: kInSlice_def kPartsInSlice_def kPartSize_def)
  moreover have "fits kInSlice parts" using fits_true_parts [OF assms(1)] assms(2) by (simp add: min_def)
  ultimately show ?thesis using ParseComplexCachedMap_serialized [of "int kInSlice" parts "replicate z 0"] le
    by (simp add: ParseCachedMap_def)
qed

definition entry_of :: "nat \<Rightarrow> Slices \<Rightarrow> ParsedCacheEntry" where
  "entry_of n s = \<lparr>pe_parts = rs_parts (get_slice n s),
     pe_included = (if isGoodHeader s \<and> n = 0 then Some (first_slice_rest s) else None)\<rparr>"

lemma computeIsGoodHeader_mode:
  assumes "slices_inv file s" "ss_headerMode s \<noteq> ModeUnknown" "ss_headerMode s \<noteq> ModeNoCache"
  shows "ComputeIsGoodHeader (length file) (rs_parts (ss_header s)) = isGoodHeader s"
  using slices_invD(6,10) [OF assms(1)] assms(2,3)
  by (cases "ss_headerMode s")
    (auto simp: mode_ok_def isGoodHeader_def computeIsGoodHeader_def ComputeIsGoodHeader_def isFullInHeader_def split: if_splits)

lemma ParseCacheEntry_slice:
  assumes inv: "slices_inv file s" and n: "n < length (ss_data s)" and parts: "rs_parts (ss_data s ! n) \<noteq> []"
  shows "ParseCacheEntry (entry_bytes (Suc n) s) (Suc n) (length file) = Some (entry_of (Suc n) s)"
proof -
  note i = slices_invD [OF inv]
  let ?parts = "rs_parts (ss_data s ! n)"
  let ?m = "int (min kInSlice (length file - n * kInSlice))"
  note t = i(8) [OF n]
  note m = MaxSliceSize_slice [OF i(1) n]
  have get: "get_slice (Suc n) s = ss_data s ! n" by (simp add: get_slice_def)
  have "fst (ParseCachedMap [] (entry_bytes (Suc n) s) ?m) = ?parts"
  proof (cases "FindNotLoadedStart ?parts 0 > fst (last ?parts)")
    case True
    then have "entry_bytes (Suc n) s = concat (map snd ?parts)" by (simp add: entry_bytes_def get)
    then show ?thesis using ParseCachedMap_contiguous [OF t parts True _ refl] by simp
  next
    case False
    have "u32 ?m = ?m" by (rule u32_id) (simp_all add: kInSlice_def kPartsInSlice_def kPartSize_def min_def)
    then have "fits (nat (u32 ?m)) ?parts" using fits_true_parts [OF t] by simp
    moreover have "length ?parts \<le> 80" using slice_parts_le [OF t] by simp
    ultimately obtain z where "ParseCachedMap [] (pad_serialization ?m (SerializeComplexPartsMap ?parts @ [])) ?m = (?parts, [] @ replicate z 0)"
      by (rule ParseCachedMap_complex)
    moreover have "entry_bytes (Suc n) s = pad_serialization ?m (SerializeComplexPartsMap ?parts @ [])"
      using False m i(10) by (simp add: entry_bytes_def get)
    ultimately show ?thesis by simp
  qed
  then show ?thesis using m by (simp add: ParseCacheEntry_def entry_of_def get case_prod_beta)
qed

lemma ParseCacheEntry_header:
  assumes inv: "slices_inv file s" and mode: "ss_headerMode s \<noteq> ModeUnknown" "ss_headerMode s \<noteq> ModeNoCache"
    and parts: "rs_parts (ss_header s) \<noteq> []" and sz: "isGoodHeader s \<or> length file < 2 ^ 31"
  shows "ParseCacheEntry (entry_bytes 0 s) 0 (length file) = Some (entry_of 0 s)"
proof -
  note i = slices_invD [OF inv]
  note good = computeIsGoodHeader_mode [OF inv mode]
  let ?parts = "rs_parts (ss_header s)" and ?m = "i32 (int (length file))"
  note t = i(9)
  have get: "get_slice 0 s = ss_header s" by (simp add: get_slice_def)
  have m: "MaxSliceSize 0 (length file) = Some ?m" by (simp add: MaxSliceSize_def)
  have "length file < 2 ^ 32" using i(11) by (simp add: streamable_def kInSlice_def kPartsInSlice_def kPartSize_def)
  then have u: "nat (u32 ?m) = length file" by (simp add: u32_of_i32)
  have f: "fits (nat (u32 ?m)) ?parts" using fits_true_parts [OF t] u by simp
  show ?thesis
  proof (cases "isGoodHeader s")
    case False
    have m': "?m = int (min (length file) (length file - 0))" using sz False by (simp add: in_i32_def)
    have "fst (ParseCachedMap [] (entry_bytes 0 s) ?m) = ?parts"
    proof (cases "FindNotLoadedStart ?parts 0 > fst (last ?parts)")
      case True
      then have "entry_bytes 0 s = concat (map snd ?parts)" using False by (simp add: entry_bytes_def get)
      then show ?thesis using ParseCachedMap_contiguous [OF t parts True _ m'] by simp
    next
      case no: False
      obtain z where "ParseCachedMap [] (pad_serialization ?m (SerializeComplexPartsMap ?parts @ [])) ?m = (?parts, [] @ replicate z 0)"
        by (rule ParseCachedMap_complex [OF f i(5)])
      moreover have "entry_bytes 0 s = pad_serialization ?m (SerializeComplexPartsMap ?parts @ [])"
        using False no m i(10) by (simp add: entry_bytes_def get)
      ultimately show ?thesis by simp
    qed
    then show ?thesis using m False good by (simp add: ParseCacheEntry_def entry_of_def get case_prod_beta)
  next
    case True
    let ?rest = "SerializeComplexPartsMap (first_slice_rest s)"
    have "computeIsGoodHeader s" using i(6) True by (simp add: mode_ok_def isGoodHeader_def)
    note big = good_header_slices [OF i(1) this]
    have big': "Suc 0 * kInSlice < length file" by (rule slice_base_less [OF i(1)]) (use big in simp)
    obtain z where z: "z \<le> 2" "ParseCachedMap [] (pad_serialization ?m (SerializeComplexPartsMap ?parts @ ?rest)) ?m = (?parts, ?rest @ replicate z 0)"
      by (rule ParseCachedMap_complex [OF f i(5)])
    have e: "entry_bytes 0 s = pad_serialization ?m (SerializeComplexPartsMap ?parts @ ?rest)"
      using True m i(10) by (simp add: entry_bytes_def get)
    have "0 < length (ss_data s)" using big by linarith
    then have tr: "true_parts file 0 kInSlice (first_slice_rest s)"
      using true_parts_erase_all [of "file" 0 kInSlice "rs_parts (ss_data s ! 0)" ?parts] i(8) [of 0]
      by (simp add: first_slice_rest_def)
    have "MaxSliceSize (Suc 0) (length file) = Some (int kInSlice)"
      using MaxSliceSize_slice [OF i(1), of 0] \<open>0 < length (ss_data s)\<close> big' by simp
    moreover have "ParseCachedMap [] (?rest @ replicate z 0) (int kInSlice) = (first_slice_rest s, replicate z 0)"
      using ParseCachedMap_included [OF tr _ z(1)] big' by simp
    ultimately show ?thesis using m True good z(2) e
      by (simp add: ParseCacheEntry_def entry_of_def get)
  qed
qed

section \<open>Everything unsaved goes to the cache\<close>

lemma serializeAndUnloadSlice_state:
  assumes "serializeAndUnloadSlice n s = Some (r, s')"
  shows "s' = without_slice (number_of s n) s \<and> se_number r = int (number_of s n)"
proof -
  have n: "(if isGoodHeader s \<and> n = 1 then 0 else n) = number_of s n" by (simp add: number_of_def)
  note start = assms [unfolded serializeAndUnloadSlice_def n Let_def]
  show ?thesis
  proof (cases "isGoodHeader s \<and> number_of s n = 0")
    case True
    then show ?thesis using start
      by (auto simp: bind_eq_Some_conv get_slice_def put_slice_def without_slice_def unloadSlice_def
          serializeAndUnloadFirstSliceNoHeader_def Let_def split: if_splits)
  next
    case False
    then show ?thesis using start
      by (cases "number_of s n = 0")
        (auto simp: bind_eq_Some_conv get_slice_def put_slice_def without_slice_def Let_def split: if_splits)
  qed
qed

lemma serializeAndUnloadSlice_can:
  assumes "serializeAndUnloadSlice n s = Some (r, s')"
  shows "can_unload n s"
proof -
  have n: "(if isGoodHeader s \<and> n = 1 then 0 else n) = number_of s n" by (simp add: number_of_def)
  note start = assms [unfolded serializeAndUnloadSlice_def n Let_def]
  have "ss_headerMode s \<noteq> ModeUnknown" "ss_headerMode s \<noteq> ModeNoCache" "n \<le> length (ss_data s)"
    "rs_parts (get_slice (number_of s n) s) \<noteq> []"
    using start by (auto simp: bind_eq_Some_conv assert_def split: if_splits)
  moreover have "rs_LoadedFromCache (ss_data s ! 0)" if "isGoodHeader s" "n \<le> 1"
  proof -
    have "number_of s n = 0" using that by (auto simp: number_of_def)
    then show ?thesis using start that(1)
      by (auto simp: bind_eq_Some_conv assert_def serializeAndUnloadFirstSliceNoHeader_def split: if_splits)
  qed
  ultimately show ?thesis by (simp add: can_unload_def)
qed

definition changed_count :: "Slices \<Rightarrow> nat" where
  "changed_count s = (if rs_ChangedSinceCache (ss_header s) then 1 else 0) + length (filter rs_ChangedSinceCache (ss_data s))"

lemma changed_unload:
  "length (filter rs_ChangedSinceCache (data[i := unloadSlice x])) \<le> length (filter rs_ChangedSinceCache data)"
  "i < length data \<Longrightarrow> rs_ChangedSinceCache (data ! i)
    \<Longrightarrow> length (filter rs_ChangedSinceCache (data[i := unloadSlice x])) < length (filter rs_ChangedSinceCache data)"
proof (induction data arbitrary: i)
  case (Cons y data)
  { case 1 then show ?case using Cons(1) by (cases i) (auto intro: le_SucI) }
  { case 2 then show ?case using Cons(2) by (cases i) auto }
qed simp_all

lemma without_slice_changed:
  assumes "n = 0 \<Longrightarrow> rs_ChangedSinceCache (ss_header s) \<or> isGoodHeader s \<and> 0 < length (ss_data s) \<and> rs_ChangedSinceCache (ss_data s ! 0)"
    and "0 < n \<Longrightarrow> n \<le> length (ss_data s) \<and> rs_ChangedSinceCache (ss_data s ! (n - 1))"
  shows "changed_count (without_slice n s) < changed_count s"
proof (cases "n = 0")
  case False
  then show ?thesis using assms(2) changed_unload(2) [of "n - 1" "ss_data s"]
    by (auto simp: changed_count_def without_slice_def)
next
  case True
  show ?thesis
    using assms(1) [OF True] changed_unload(1) [of "ss_data s" 0 "ss_data s ! 0"] changed_unload(2) [of 0 "ss_data s" "ss_data s ! 0"]
    unfolding changed_count_def without_slice_def Let_def if_P [OF True]
    by (cases "isGoodHeader s"; cases "rs_ChangedSinceCache (ss_header s)") simp_all
qed

definition nothing_changed :: "Slices \<Rightarrow> bool" where
  "nothing_changed s \<longleftrightarrow> \<not> rs_ChangedSinceCache (ss_header s) \<and> \<not> (\<exists>i < length (ss_data s). rs_ChangedSinceCache (ss_data s ! i))"

lemma find_changed:
  "find (\<lambda>i. rs_ChangedSinceCache (data ! i)) [0 ..< length data] = Some i \<Longrightarrow> i < length data \<and> rs_ChangedSinceCache (data ! i)"
  "find (\<lambda>i. rs_ChangedSinceCache (data ! i)) [0 ..< length data] = None \<Longrightarrow> \<not> (\<exists>i < length data. rs_ChangedSinceCache (data ! i))"
  by (auto simp: find_Some_iff find_None_iff)

lemma unloadToCache_changed:
  assumes "unloadToCache s = Some (r, s')" "se_number r \<ge> 0"
  shows "changed_count s' < changed_count s"
proof -
  obtain n where n: "serializeAndUnloadSlice n s = Some (r, s')"
    "n = 0 \<and> rs_ChangedSinceCache (ss_header s) \<or> 0 < n \<and> n \<le> length (ss_data s) \<and> rs_ChangedSinceCache (ss_data s ! (n - 1))"
    using assms find_changed(1) [of "ss_data s"]
    by (auto simp: unloadToCache_def noSerialized_def split: if_splits option.splits)
  then have "s' = without_slice (number_of s n) s" using serializeAndUnloadSlice_state by blast
  then show ?thesis using n(2) by (auto simp: number_of_def split: if_splits intro!: without_slice_changed)
qed

text \<open>\<open>Reader::finalizeCache\<close> puts what is unsaved to the cache until nothing is left.\<close>

function finalize_loop :: "Slices \<Rightarrow> (SerializedSlice list \<times> Slices) option" where
  "finalize_loop s =
     (case unloadToCache s of
        None \<Rightarrow> None
      | Some (toCache, s') \<Rightarrow>
          if se_number toCache \<ge> 0
          then map_option (\<lambda>(puts, s'). (toCache # puts, s')) (finalize_loop s')
          else Some ([], s'))"
  by pat_completeness auto

termination finalize_loop
  by (relation "measure changed_count") (auto intro: unloadToCache_changed)

declare finalize_loop.simps [simp del]

lemma unloadToCache_inv:
  assumes inv: "slices_inv file s"
  obtains "unloadToCache s = Some (noSerialized, s)" "nothing_changed s \<or> ss_headerMode s = ModeUnknown \<or> ss_headerMode s = ModeNoCache"
  | n where "can_unload n s"
      "unloadToCache s = Some (\<lparr>se_number = int (number_of s n), se_data = entry_bytes (number_of s n) s\<rparr>, without_slice (number_of s n) s)"
      "slices_inv file (without_slice (number_of s n) s)"
proof -
  note none = that(1) and some = that(2)
  note i = slices_invD [OF inv]
  show thesis
  proof (cases "ss_headerMode s = ModeUnknown \<or> ss_headerMode s = ModeNoCache")
    case True
    then show thesis using none by (simp add: unloadToCache_def)
  next
    case mode: False
    have put: thesis if "can_unload n s" "unloadToCache s = serializeAndUnloadSlice n s" for n
      using some [OF that(1)] serializeAndUnloadSlice_eq [OF that(1) i(11,10)] that(2) without_slice_inv [OF inv that(1)] by simp
    show thesis
    proof (cases "rs_ChangedSinceCache (ss_header s)")
      case True
      then have "can_unload 0 s"
        using mode i(3,6) by (auto simp: can_unload_def number_of_def get_slice_def slice_ok_def mode_ok_def isGoodHeader_def)
      then show thesis using put [of 0] mode True by (simp add: unloadToCache_def)
    next
      case header: False
      show thesis
      proof (cases "find (\<lambda>i. rs_ChangedSinceCache (ss_data s ! i)) [0 ..< length (ss_data s)]")
        case None
        then show thesis using none header mode find_changed(2) [OF None] by (simp add: unloadToCache_def nothing_changed_def)
      next
        case (Some k)
        note k = find_changed(1) [OF Some]
        have "rs_LoadedFromCache (ss_data s ! k)" using i(7) k by (simp add: slice_ok_def)
        then have "can_unload (k + 1) s" using can_unload_used [OF inv _ _ _ _ disjI1] k mode by blast
        then show thesis using put [of "k + 1"] mode header Some by (simp add: unloadToCache_def)
      qed
    qed
  qed
qed

definition stored :: "nat \<Rightarrow> SerializedSlice list \<Rightarrow> nat \<Rightarrow> nat \<times> PartBytes \<Rightarrow> bool" where
  "stored sz puts i p \<longleftrightarrow>
     (\<exists>e \<in> set puts. \<exists>c. ParseCacheEntry (se_data e) (nat (se_number e)) sz = Some c
        \<and> (se_number e = int (i + 1) \<and> p \<in> set (pe_parts c)
           \<or> i = 0 \<and> se_number e = 0 \<and> (p \<in> set (pe_parts c) \<or> p \<in> set (value_or (pe_included c) []))))"

lemma true_parts_member:
  "true_parts file base limit parts \<Longrightarrow> x \<in> keys parts \<Longrightarrow> part_of file base (x, b) \<Longrightarrow> (x, b) \<in> set parts"
  by (force simp: true_parts_def part_of_def)

lemma entry_parses:
  assumes inv: "slices_inv file s" and c: "can_unload n s" and sz: "length file < 2 ^ 31"
  shows "ParseCacheEntry (entry_bytes (number_of s n) s) (number_of s n) (length file) = Some (entry_of (number_of s n) s)"
proof (cases "number_of s n")
  case 0
  then show ?thesis
    using ParseCacheEntry_header [OF inv] c sz by (simp add: can_unload_def get_slice_def)
next
  case (Suc k)
  then have "k < length (ss_data s)" using c by (auto simp: can_unload_def number_of_def split: if_splits)
  then show ?thesis
    using ParseCacheEntry_slice [OF inv, of k] c Suc by (simp add: can_unload_def get_slice_def)
qed

lemma put_stores:
  assumes inv: "slices_inv file s" and c: "can_unload n s" and sz: "length file < 2 ^ 31"
    and e: "e = \<lparr>se_number = int (number_of s n), se_data = entry_bytes (number_of s n) s\<rparr>"
  shows "n = 0 \<Longrightarrow> p \<in> set (rs_parts (ss_header s)) \<Longrightarrow> stored (length file) (e # puts) 0 p"
    "0 < n \<Longrightarrow> p \<in> set (rs_parts (ss_data s ! (n - 1))) \<Longrightarrow> stored (length file) (e # puts) (n - 1) p"
    "number_of s n = 0 \<Longrightarrow> p \<in> set (rs_parts (ss_header s)) \<Longrightarrow> stored (length file) (e # puts) 0 p"
    "isGoodHeader s \<Longrightarrow> number_of s n = 0 \<Longrightarrow> p \<in> set (rs_parts (ss_data s ! 0)) \<Longrightarrow> stored (length file) (e # puts) 0 p"
proof -
  note i = slices_invD [OF inv]
  note parsed = entry_parses [OF inv c sz]
  show zero: "stored (length file) (e # puts) 0 p" if "number_of s n = 0" "p \<in> set (rs_parts (ss_header s))"
    using parsed that unfolding stored_def e
    by (intro bexI [of _ e]) (simp_all add: entry_of_def get_slice_def e)
  then show "n = 0 \<Longrightarrow> p \<in> set (rs_parts (ss_header s)) \<Longrightarrow> stored (length file) (e # puts) 0 p"
    by (simp add: number_of_def)
  show good: "stored (length file) (e # puts) 0 p" if g: "isGoodHeader s" "number_of s n = 0" "p \<in> set (rs_parts (ss_data s ! 0))"
  proof (cases "p \<in> set (rs_parts (ss_header s))")
    case True
    then show ?thesis using zero g by blast
  next
    case False
    obtain x b where p: "p = (x, b)" by (cases p)
    have "computeIsGoodHeader s" using i(6) g(1) by (simp add: mode_ok_def isGoodHeader_def)
    then have len: "0 < length (ss_data s)" using good_header_slices [OF i(1)] by linarith
    have t: "true_parts file 0 kInSlice (rs_parts (ss_data s ! 0))" using i(8) [OF len] by simp
    then have po: "part_of file 0 (x, b)" using g(3) p by (auto simp: true_parts_def)
    have "x \<notin> keys (rs_parts (ss_header s))" using true_parts_member [OF i(9) _ po] False p by blast
    moreover have "x \<in> keys (rs_parts (ss_data s ! 0))" using g(3) p by force
    moreover note true_parts_erase_all [OF t, of "rs_parts (ss_header s)", folded first_slice_rest_def]
    ultimately have "p \<in> set (first_slice_rest s)" using true_parts_member [OF _ _ po] p by blast
    then show ?thesis
      using parsed g unfolding stored_def e
      by (intro bexI [of _ e]) (simp_all add: entry_of_def value_or_def e)
  qed
  show "stored (length file) (e # puts) (n - 1) p" if "0 < n" "p \<in> set (rs_parts (ss_data s ! (n - 1)))"
  proof (cases "number_of s n = 0")
    case True
    then have "isGoodHeader s" "n = 1" using that(1) by (auto simp: number_of_def split: if_splits)
    then show ?thesis using good True that(2) by simp
  next
    case False
    then have "number_of s n = n" by (auto simp: number_of_def split: if_splits)
    then show ?thesis
      using parsed that unfolding stored_def e
      by (intro bexI [of _ e]) (simp_all add: entry_of_def get_slice_def e)
  qed
qed

lemma stored_Cons: "stored sz puts i p \<Longrightarrow> stored sz (e # puts) i p"
  by (auto simp: stored_def)

lemma finalize_loop_stores:
  assumes "slices_inv file s" "ss_headerMode s \<noteq> ModeUnknown" "ss_headerMode s \<noteq> ModeNoCache" "length file < 2 ^ 31"
  shows "\<exists>puts s'. finalize_loop s = Some (puts, s') \<and> slices_inv file s' \<and> nothing_changed s'
    \<and> (rs_ChangedSinceCache (ss_header s) \<longrightarrow> (\<forall>p \<in> set (rs_parts (ss_header s)). stored (length file) puts 0 p))
    \<and> (\<forall>i < length (ss_data s). rs_ChangedSinceCache (ss_data s ! i)
         \<longrightarrow> (\<forall>p \<in> set (rs_parts (ss_data s ! i)). stored (length file) puts i p))"
  using assms
proof (induction s rule: finalize_loop.induct)
  case (1 s)
  note inv = 1(2)
  show ?case
  proof (rule unloadToCache_inv [OF inv])
    assume none: "unloadToCache s = Some (noSerialized, s)" "nothing_changed s \<or> ss_headerMode s = ModeUnknown \<or> ss_headerMode s = ModeNoCache"
    then have "finalize_loop s = Some ([], s)" by (subst finalize_loop.simps) (simp add: noSerialized_def)
    then show ?thesis using none 1 by (auto simp: nothing_changed_def)
  next
    fix n
    define m where "m = number_of s n"
    define e where "e = \<lparr>se_number = int m, se_data = entry_bytes m s\<rparr>"
    define s1 where "s1 = without_slice m s"
    assume c: "can_unload n s"
      and u: "unloadToCache s = Some (\<lparr>se_number = int (number_of s n), se_data = entry_bytes (number_of s n) s\<rparr>, without_slice (number_of s n) s)"
      and i1: "slices_inv file (without_slice (number_of s n) s)"
    have u': "unloadToCache s = Some (e, s1)" using u by (simp add: e_def s1_def m_def)
    have "\<exists>puts s'. finalize_loop s1 = Some (puts, s') \<and> slices_inv file s' \<and> nothing_changed s'
      \<and> (rs_ChangedSinceCache (ss_header s1) \<longrightarrow> (\<forall>p \<in> set (rs_parts (ss_header s1)). stored (length file) puts 0 p))
      \<and> (\<forall>i < length (ss_data s1). rs_ChangedSinceCache (ss_data s1 ! i)
           \<longrightarrow> (\<forall>p \<in> set (rs_parts (ss_data s1 ! i)). stored (length file) puts i p))"
      using i1 1(3,4,5) by (intro 1(1) [OF u' refl]) (simp_all add: e_def s1_def m_def)
    then obtain puts s' where r: "finalize_loop s1 = Some (puts, s')" "slices_inv file s'" "nothing_changed s'"
      and h: "\<And>p. rs_ChangedSinceCache (ss_header s1) \<Longrightarrow> p \<in> set (rs_parts (ss_header s1)) \<Longrightarrow> stored (length file) puts 0 p"
      and d: "\<And>i p. i < length (ss_data s1) \<Longrightarrow> rs_ChangedSinceCache (ss_data s1 ! i) \<Longrightarrow> p \<in> set (rs_parts (ss_data s1 ! i))
          \<Longrightarrow> stored (length file) puts i p" by blast
    have "finalize_loop s = Some (e # puts, s')"
      using u' r(1) by (subst finalize_loop.simps) (simp add: e_def)
    moreover note put = put_stores [OF inv c 1(5) e_def [unfolded m_def], of _ puts]
    have "stored (length file) (e # puts) 0 p" if "rs_ChangedSinceCache (ss_header s)" "p \<in> set (rs_parts (ss_header s))" for p
    proof (cases "m = 0")
      case True
      then show ?thesis using put(3) that(2) by (simp add: m_def)
    next
      case False
      then have "ss_header s1 = ss_header s" by (simp add: s1_def without_slice_def)
      then show ?thesis using stored_Cons h that by metis
    qed
    moreover have "stored (length file) (e # puts) k p"
      if k: "k < length (ss_data s)" "rs_ChangedSinceCache (ss_data s ! k)" "p \<in> set (rs_parts (ss_data s ! k))" for k p
    proof (cases "if m = 0 then isGoodHeader s \<and> k = 0 else k = m - 1")
      case True
      show ?thesis
      proof (cases "m = 0")
        case zero: True
        then show ?thesis using put(4) True k(3) by (simp add: m_def)
      next
        case False
        then have "n = m" by (auto simp: m_def number_of_def split: if_splits)
        then show ?thesis using put(2) True False k(3) by simp
      qed
    next
      case False
      then have "ss_data s1 ! k = ss_data s ! k" "length (ss_data s1) = length (ss_data s)"
        by (auto simp: s1_def without_slice_def Let_def split: if_splits)
      then show ?thesis using stored_Cons d k by metis
    qed
    ultimately show ?thesis using r(2,3) by blast
  qed
qed

text \<open>C27: An entry of the cache is read back as it was written: the bytes that
  \<open>serializeAndUnloadSlice\<close> makes of the header or of a slice parse to exactly its parts, and with a good
  header also to what the first slice has beyond the header. Padding keeps entries with gaps from being
  taken for entries without.\<close>

theorem cache_entry_roundtrip:
  assumes "slices_inv file s" "length file < 2 ^ 31" "serializeAndUnloadSlice n s = Some (e, s')"
  shows "\<exists>k. se_number e = int k \<and> k = (if isGoodHeader s \<and> n = 1 then 0 else n) \<and> slices_inv file s'
    \<and> ParseCacheEntry (se_data e) k (length file) =
        Some \<lparr>pe_parts = rs_parts (if k = 0 then ss_header s else ss_data s ! (k - 1)),
              pe_included = (if isGoodHeader s \<and> k = 0 then Some (first_slice_rest s) else None)\<rparr>"
proof -
  have c: "can_unload n s" by (rule serializeAndUnloadSlice_can [OF assms(3)])
  note i = slices_invD [OF assms(1)]
  have "e = \<lparr>se_number = int (number_of s n), se_data = entry_bytes (number_of s n) s\<rparr>" "s' = without_slice (number_of s n) s"
    using serializeAndUnloadSlice_eq [OF c i(11,10)] assms(3) by simp_all
  then show ?thesis using entry_parses [OF assms(1) c assms(2)] without_slice_inv [OF assms(1) c]
    by (simp add: entry_of_def number_of_def get_slice_def)
qed

theorem cache_entry_roundtrip_witness:
  "\<exists>e s'. serializeAndUnloadSlice 0 (example_slices ModeFull) = Some (e, s') \<and> se_number e = 0
     \<and> map_option pe_parts (ParseCacheEntry (se_data e) 0 3) = Some [(0, [1, 2, 3])]"
proof -
  let ?s = "example_slices ModeFull"
  have inv: "slices_inv example_file ?s" by (rule example_inv) simp
  have "can_unload 0 ?s" by (simp add: can_unload_def example_slices_def number_of_def get_slice_def isGoodHeader_def)
  then obtain e s' where e: "serializeAndUnloadSlice 0 ?s = Some (e, s')"
    using serializeAndUnloadSlice_eq [of 0 ?s example_file] slices_invD(11,10) [OF inv] by metis
  have "length example_file < 2 ^ 31" by (simp add: example_file_def)
  from cache_entry_roundtrip [OF inv this e] show ?thesis
    using e by (auto simp: example_slices_def example_small(4)) (simp add: example_file_def)
qed

text \<open>C28: \<open>Reader::finalizeCache\<close> ends, whatever the mode of the header. For a file below 2 GiB whose
  header is settled and which is cached, it leaves nothing unsaved, and every part of the header and of the
  slices that was not saved before can be read back from an entry that it put to the cache. Without a
  cache, and as long as the header is not settled, it writes nothing and keeps the slices as they are: a
  part that arrived before the header was settled, and changed it, is not saved.\<close>

theorem finalize_saves_all:
  assumes "slices_inv file s"
  shows "(ss_headerMode s \<noteq> ModeUnknown \<and> ss_headerMode s \<noteq> ModeNoCache \<and> length file < 2 ^ 31 \<longrightarrow>
      (\<exists>puts s'. finalize_loop s = Some (puts, s') \<and> slices_inv file s' \<and> nothing_changed s'
        \<and> (rs_ChangedSinceCache (ss_header s) \<longrightarrow> (\<forall>p \<in> set (rs_parts (ss_header s)). stored (length file) puts 0 p))
        \<and> (\<forall>i < length (ss_data s). rs_ChangedSinceCache (ss_data s ! i)
             \<longrightarrow> (\<forall>p \<in> set (rs_parts (ss_data s ! i)). stored (length file) puts i p))))
    \<and> (ss_headerMode s = ModeUnknown \<or> ss_headerMode s = ModeNoCache \<longrightarrow> finalize_loop s = Some ([], s))"
proof (intro conjI impI)
  assume "ss_headerMode s = ModeUnknown \<or> ss_headerMode s = ModeNoCache"
  then have "unloadToCache s = Some (noSerialized, s)" by (auto simp: unloadToCache_def)
  then show "finalize_loop s = Some ([], s)" by (subst finalize_loop.simps) (simp add: noSerialized_def)
qed (use finalize_loop_stores [OF assms] in blast)

theorem finalize_saves_all_witness:
  "(\<exists>puts s'. finalize_loop (example_slices ModeFull) = Some (puts, s') \<and> stored 3 puts 0 (0, [1, 2, 3]))
    \<and> finalize_loop (example_slices ModeNoCache) = Some ([], example_slices ModeNoCache)"
proof -
  have "slices_inv example_file (example_slices ModeFull)" "slices_inv example_file (example_slices ModeNoCache)"
    by (rule example_inv; simp)+
  then show ?thesis
    using finalize_saves_all [of example_file "example_slices ModeFull"] finalize_saves_all [of example_file "example_slices ModeNoCache"]
    by (auto simp: example_slices_def example_file_def numeral_3_eq_3)
qed

end
