(* ===== verification/DialogsList.thy ===== *)
theory DialogsList imports Prelude begin

text \<open>
  The sorted list of chats: \<open>Dialogs::List\<close> of \<open>dialogs/dialogs_list.{h,cpp}\<close>.

  A row is allocated once per key and owned by \<open>_rowByKey\<close>; \<open>_rows\<close> holds
  pointers to the rows. A pointer is represented by the key of its row, so that
  \<open>dl_rows\<close> is a list of keys and \<open>dl_rowByKey\<close> the memory of the rows. What a list
  reads of its entries, the height of a row (styles of the interface), the sort key by date and
  the sort key by name, is an argument, the record \<open>dialogs_env\<close>.
\<close>

section \<open>Rows and lists\<close>

datatype sort_mode = SortDate | SortName | SortAdd

record dialogs_row =
  row_top :: int
  row_height :: int
  row_index :: nat

record ('k, 'r) dialogs_list =
  dl_sortMode :: sort_mode
  dl_narrowRatio :: 'r
  dl_rows :: "'k list"
  dl_rowByKey :: "'k \<rightharpoonup> dialogs_row"

record ('k, 'r, 'n) dialogs_env =
  env_height :: "'r \<Rightarrow> 'k \<Rightarrow> int"
  env_sortKey :: "'k \<Rightarrow> 64 word"
  env_nameKey :: "'k \<Rightarrow> 'n"

definition List :: "sort_mode \<Rightarrow> 'r \<Rightarrow> ('k, 'r) dialogs_list" where
  "List mode zero = \<lparr>dl_sortMode = mode, dl_narrowRatio = zero, dl_rows = [], dl_rowByKey = Map.empty\<rparr>"

definition list_clear :: "('k, 'r) dialogs_list \<Rightarrow> ('k, 'r) dialogs_list" where
  "list_clear l = l\<lparr>dl_rows := [], dl_rowByKey := Map.empty\<rparr>"

definition getRow :: "('k, 'r) dialogs_list \<Rightarrow> 'k \<Rightarrow> dialogs_row option" where
  "getRow l k = dl_rowByKey l k"

definition contains_key :: "('k, 'r) dialogs_list \<Rightarrow> 'k \<Rightarrow> bool" where
  "contains_key l k \<longleftrightarrow> dl_rowByKey l k \<noteq> None"

abbreviation row_of :: "('k, 'r) dialogs_list \<Rightarrow> 'k \<Rightarrow> dialogs_row" where
  "row_of l k \<equiv> the (dl_rowByKey l k)"

definition list_size :: "('k, 'r) dialogs_list \<Rightarrow> nat" where
  "list_size l = length (dl_rows l)"

definition list_height :: "('k, 'r) dialogs_list \<Rightarrow> int" where
  "list_height l = (if dl_rows l = [] then 0
    else row_top (row_of l (last (dl_rows l))) + row_height (row_of l (last (dl_rows l))))"

definition new_row :: "nat \<Rightarrow> int \<Rightarrow> dialogs_row" where
  "new_row index pos = \<lparr>row_top = pos, row_height = 0, row_index = index\<rparr>"

definition recountHeight ::
  "('k, 'r, 'n) dialogs_env \<Rightarrow> 'r \<Rightarrow> 'k \<Rightarrow> dialogs_row \<Rightarrow> dialogs_row" where
  "recountHeight e narrowRatio k r = r\<lparr>row_height := env_height e narrowRatio k\<rparr>"

section \<open>Operations\<close>

text \<open>\<open>std::rotate\<close>, and the two searches of \<open>adjustByDate\<close>: \<open>std::find_if\<close> forwards from
  an index, and backwards from it (as the base of the reverse iterator found).\<close>

definition std_rotate :: "nat \<Rightarrow> nat \<Rightarrow> nat \<Rightarrow> 'a list \<Rightarrow> 'a list" where
  "std_rotate first middle till xs = take first xs
    @ take (till - middle) (drop middle xs) @ take (middle - first) (drop first xs)
    @ drop till xs"

definition find_forward :: "('a \<Rightarrow> bool) \<Rightarrow> nat \<Rightarrow> 'a list \<Rightarrow> nat" where
  "find_forward P from xs = from + length (takeWhile (\<lambda>x. \<not> P x) (drop from xs))"

definition find_backward :: "('a \<Rightarrow> bool) \<Rightarrow> nat \<Rightarrow> 'a list \<Rightarrow> nat" where
  "find_backward P from xs = from - length (takeWhile (\<lambda>x. \<not> P x) (rev (take from xs)))"

text \<open>The loops that place rows: each row gets the next index and starts where the one before
  it ends.\<close>

fun place_rows :: "'k list \<Rightarrow> nat \<Rightarrow> int \<Rightarrow> ('k \<rightharpoonup> dialogs_row) \<Rightarrow> ('k \<rightharpoonup> dialogs_row)" where
  "place_rows [] index pos m = m"
| "place_rows (k # ks) index pos m =
    (let row = (the (m k))\<lparr>row_index := index, row_top := pos\<rparr>
     in place_rows ks (index + 1) (pos + row_height row) (m(k \<mapsto> row)))"

fun place_tops :: "'k list \<Rightarrow> int \<Rightarrow> ('k \<rightharpoonup> dialogs_row) \<Rightarrow> ('k \<rightharpoonup> dialogs_row)" where
  "place_tops [] pos m = m"
| "place_tops (k # ks) pos m =
    (let row = (the (m k))\<lparr>row_top := pos\<rparr>
     in place_tops ks (pos + row_height row) (m(k \<mapsto> row)))"

fun recount_rows ::
  "('k, 'r, 'n) dialogs_env \<Rightarrow> 'r \<Rightarrow> 'k list \<Rightarrow> int \<Rightarrow> ('k \<rightharpoonup> dialogs_row) \<Rightarrow> ('k \<rightharpoonup> dialogs_row)" where
  "recount_rows e ratio [] pos m = m"
| "recount_rows e ratio (k # ks) pos m =
    (let row = recountHeight e ratio k ((the (m k))\<lparr>row_top := pos\<rparr>)
     in recount_rows e ratio ks (pos + row_height row) (m(k \<mapsto> row)))"

definition list_rotate :: "nat \<Rightarrow> nat \<Rightarrow> nat \<Rightarrow> ('k, 'r) dialogs_list \<Rightarrow> ('k, 'r) dialogs_list" where
  "list_rotate first middle till l =
    (let pos = row_top (row_of l (dl_rows l ! first));
         rows = std_rotate first middle till (dl_rows l)
     in l\<lparr>dl_rows := rows,
          dl_rowByKey := place_rows (take (till - first) (drop first rows)) first pos (dl_rowByKey l)\<rparr>)"

definition adjustByDate ::
  "('k, 'r, 'n) dialogs_env \<Rightarrow> 'k \<Rightarrow> ('k, 'r) dialogs_list \<Rightarrow> ('k, 'r) dialogs_list" where
  "adjustByDate e k l =
    (let key = env_sortKey e k; i = row_index (row_of l k);
         before = find_forward (\<lambda>x. env_sortKey e x \<le> key) (i + 1) (dl_rows l)
     in if before \<noteq> i + 1 then list_rotate i (i + 1) before l
        else let after = find_backward (\<lambda>x. env_sortKey e x \<ge> key) i (dl_rows l)
             in if after \<noteq> i then list_rotate after i (i + 1) l else l)"

definition adjust_row_by_name ::
  "('k, 'r, 'n::linorder) dialogs_env \<Rightarrow> 'k \<Rightarrow> ('k, 'r) dialogs_list \<Rightarrow> ('k, 'r) dialogs_list" where
  "adjust_row_by_name e k l =
    (let key = env_nameKey e k; i = row_index (row_of l k);
         before = find_forward (\<lambda>x. env_nameKey e x \<ge> key) (i + 1) (dl_rows l)
     in if before \<noteq> i + 1 then list_rotate i (i + 1) before l
        else if i \<noteq> 0 then
          let after = find_backward (\<lambda>x. env_nameKey e x \<le> key) i (dl_rows l)
          in if after \<noteq> i then list_rotate after i (i + 1) l else l
        else l)"

definition adjustByName ::
  "('k, 'r, 'n::linorder) dialogs_env \<Rightarrow> 'k \<Rightarrow> ('k, 'r) dialogs_list \<Rightarrow> ('k, 'r) dialogs_list \<times> bool" where
  "adjustByName e k l =
    (case getRow l k of None \<Rightarrow> (l, False) | Some _ \<Rightarrow> (adjust_row_by_name e k l, True))"

definition addToEnd ::
  "('k, 'r, 'n) dialogs_env \<Rightarrow> 'k \<Rightarrow> ('k, 'r) dialogs_list \<Rightarrow> ('k, 'r) dialogs_list" where
  "addToEnd e k l = (case getRow l k of Some _ \<Rightarrow> l
    | None \<Rightarrow>
        let row = recountHeight e (dl_narrowRatio l) k (new_row (length (dl_rows l)) (list_height l));
            l' = l\<lparr>dl_rows := dl_rows l @ [k], dl_rowByKey := (dl_rowByKey l)(k \<mapsto> row)\<rparr>
        in if dl_sortMode l = SortDate then adjustByDate e k l' else l')"

definition addByName ::
  "('k, 'r, 'n::linorder) dialogs_env \<Rightarrow> 'k \<Rightarrow> ('k, 'r) dialogs_list \<Rightarrow> ('k, 'r) dialogs_list" where
  "addByName e k l = fst (adjustByName e k (addToEnd e k l))"

definition updateHeight ::
  "('k, 'r, 'n) dialogs_env \<Rightarrow> 'k \<Rightarrow> 'r \<Rightarrow> ('k, 'r) dialogs_list \<Rightarrow> ('k, 'r) dialogs_list \<times> bool" where
  "updateHeight e k ratio l = (case dl_rowByKey l k of None \<Rightarrow> (l, False)
    | Some row \<Rightarrow>
        let row' = recountHeight e ratio k row; m = (dl_rowByKey l)(k \<mapsto> row')
        in if row_height row' = row_height row then (l\<lparr>dl_rowByKey := m\<rparr>, False)
           else (l\<lparr>dl_rowByKey := place_tops (drop (row_index row) (dl_rows l)) (row_top row) m\<rparr>, True))"

definition updateHeights ::
  "('k, 'r, 'n) dialogs_env \<Rightarrow> 'r \<Rightarrow> ('k, 'r) dialogs_list \<Rightarrow> ('k, 'r) dialogs_list \<times> bool" where
  "updateHeights e ratio l =
    (let l' = l\<lparr>dl_narrowRatio := ratio,
                dl_rowByKey := recount_rows e ratio (dl_rows l) 0 (dl_rowByKey l)\<rparr>
     in (l', list_height l' \<noteq> list_height l))"

definition moveToTop :: "'k \<Rightarrow> ('k, 'r) dialogs_list \<Rightarrow> ('k, 'r) dialogs_list \<times> bool" where
  "moveToTop k l = (case dl_rowByKey l k of None \<Rightarrow> (l, False)
    | Some row \<Rightarrow> (list_rotate 0 (row_index row) (row_index row + 1) l, True))"

definition list_remove :: "'k \<Rightarrow> ('k, 'r) dialogs_list \<Rightarrow> ('k, 'r) dialogs_list \<times> bool" where
  "list_remove k l = (case dl_rowByKey l k of None \<Rightarrow> (l, False)
    | Some row \<Rightarrow>
        let index = row_index row;
            rows = take index (dl_rows l) @ drop (index + 1) (dl_rows l);
            m = place_rows (drop index rows) index (row_top row) (dl_rowByKey l)
        in (l\<lparr>dl_rows := rows, dl_rowByKey := m(k := None)\<rparr>, True))"

text \<open>\<open>cfind\<close> and the look-ups by position; an iterator is an index, the end is the length.\<close>

definition cfind :: "('k, 'r) dialogs_list \<Rightarrow> 'k option \<Rightarrow> nat" where
  "cfind l row = (case row of Some k \<Rightarrow> row_index (row_of l k) | None \<Rightarrow> length (dl_rows l))"

definition findByY :: "('k, 'r) dialogs_list \<Rightarrow> int \<Rightarrow> nat" where
  "findByY l y = lower_bound (\<lambda>k. row_top (row_of l k) + row_height (row_of l k)) (dl_rows l) y"

definition rowAtY :: "('k, 'r) dialogs_list \<Rightarrow> int \<Rightarrow> 'k option" where
  "rowAtY l y = (let i = findByY l y in
    if i = length (dl_rows l) then None
    else let row = dl_rows l ! i; pos = row_top (row_of l row);
             bottom = pos + row_height (row_of l row)
         in if pos \<le> y \<and> bottom > y then Some row else None)"

section \<open>The layout of the rows\<close>

text \<open>Rows follow each other: consecutive indices, each row starting where the one before it
  ends.\<close>

fun laid_out :: "'k list \<Rightarrow> nat \<Rightarrow> int \<Rightarrow> ('k \<rightharpoonup> dialogs_row) \<Rightarrow> bool" where
  "laid_out [] i t m \<longleftrightarrow> True"
| "laid_out (k # ks) i t m \<longleftrightarrow> (case m k of None \<Rightarrow> False
    | Some r \<Rightarrow> row_index r = i \<and> row_top r = t \<and> laid_out ks (i + 1) (t + row_height r) m)"

definition heights :: "'k list \<Rightarrow> ('k \<rightharpoonup> dialogs_row) \<Rightarrow> int" where
  "heights ks m = sum_list (map (\<lambda>k. row_height (the (m k))) ks)"

definition dl_wf :: "('k, 'r) dialogs_list \<Rightarrow> bool" where
  "dl_wf l \<longleftrightarrow> distinct (dl_rows l) \<and> dom (dl_rowByKey l) = set (dl_rows l)
    \<and> laid_out (dl_rows l) 0 0 (dl_rowByKey l)"

lemma heights_simps [simp]:
  "heights [] m = 0" "heights (k # ks) m = row_height (the (m k)) + heights ks m"
  "heights (xs @ ys) m = heights xs m + heights ys m"
  by (simp_all add: heights_def)

lemma laid_out_append [simp]:
  "laid_out (xs @ ys) i t m \<longleftrightarrow> laid_out xs i t m \<and> laid_out ys (i + length xs) (t + heights xs m) m"
  by (induction xs arbitrary: i t) (auto split: option.splits simp: add_ac)

lemma laid_out_dom: "laid_out ks i t m \<Longrightarrow> set ks \<subseteq> dom m"
  by (induction ks arbitrary: i t) (auto split: option.splits)

lemma laid_out_cong:
  "(\<And>k. k \<in> set ks \<Longrightarrow> m k = m' k) \<Longrightarrow> laid_out ks i t m = laid_out ks i t m'"
  by (induction ks arbitrary: i t) (auto split: option.splits)

lemma heights_cong:
  "(\<And>k. k \<in> set ks \<Longrightarrow> map_option row_height (m k) = map_option row_height (m' k))
    \<Longrightarrow> set ks \<subseteq> dom m \<Longrightarrow> heights ks m = heights ks m'"
proof (induction ks)
  case (Cons k ks)
  have "map_option row_height (m k) = map_option row_height (m' k)" "k \<in> dom m"
    using Cons.prems by simp_all
  then have "row_height (the (m k)) = row_height (the (m' k))" by (cases "m k"; cases "m' k") auto
  then show ?case using Cons by simp
qed simp

lemma laid_out_nth:
  "laid_out ks i t m \<Longrightarrow> j < length ks \<Longrightarrow>
    \<exists>r. m (ks ! j) = Some r \<and> row_index r = i + j \<and> row_top r = t + heights (take j ks) m"
proof (induction ks arbitrary: i t j)
  case (Cons k ks)
  then show ?case by (cases j) (fastforce split: option.splits)+
qed simp

lemma place_rows_other [simp]: "k \<notin> set ks \<Longrightarrow> place_rows ks i t m k = m k"
  by (induction ks i t m rule: place_rows.induct) (auto simp: Let_def)

lemma place_rows_height:
  "set ks \<subseteq> dom m \<Longrightarrow>
    map_option row_height (place_rows ks i t m k) = map_option row_height (m k)"
proof (induction ks i t m rule: place_rows.induct)
  case (2 k' ks i t m)
  let ?r = "(the (m k'))\<lparr>row_index := i, row_top := t\<rparr>"
  have "map_option row_height (place_rows ks (i + 1) (t + row_height ?r) (m(k' \<mapsto> ?r)) k)
      = map_option row_height ((m(k' \<mapsto> ?r)) k)"
    by (rule 2(1) [OF refl]) (use 2(2) in auto)
  also have "\<dots> = map_option row_height (m k)" using 2(2) by auto
  finally show ?case by (simp add: Let_def)
qed simp

lemma dom_place_rows [simp]: "set ks \<subseteq> dom m \<Longrightarrow> dom (place_rows ks i t m) = dom m"
  using place_rows_height [of ks m i t] by (auto simp: dom_def) (metis map_option_is_None not_None_eq)+

lemma heights_place_rows [simp]:
  "set ks \<subseteq> dom m \<Longrightarrow> set xs \<subseteq> dom m \<Longrightarrow> heights xs (place_rows ks i t m) = heights xs m"
  by (rule heights_cong) (simp_all add: place_rows_height)

lemma laid_out_place_rows:
  "distinct ks \<Longrightarrow> set ks \<subseteq> dom m \<Longrightarrow> laid_out ks i t (place_rows ks i t m)"
proof (induction ks i t m rule: place_rows.induct)
  case (2 k ks i t m)
  let ?r = "(the (m k))\<lparr>row_index := i, row_top := t\<rparr>"
  have "place_rows ks (i + 1) (t + row_height ?r) (m(k \<mapsto> ?r)) k = Some ?r"
    using 2 by simp
  moreover have "laid_out ks (i + 1) (t + row_height ?r)
      (place_rows ks (i + 1) (t + row_height ?r) (m(k \<mapsto> ?r)))"
    by (rule 2(1) [OF refl]) (use 2(2,3) in auto)
  ultimately show ?case by (simp add: Let_def)
qed simp

lemma laid_out_relaid:
  assumes d: "distinct (A @ B)" and dom: "set (A @ B) \<subseteq> dom m" and lay: "laid_out A i t m"
    and i: "i' = i + length A" and t: "t' = t + heights A m"
  shows "laid_out (A @ B) i t (place_rows B i' t' m)" "heights A (place_rows B i' t' m) = heights A m"
proof -
  have other: "place_rows B i' t' m x = m x" if "x \<in> set A" for x
    by (rule place_rows_other) (use that d in auto)
  then have "laid_out A i t (place_rows B i' t' m)"
    using lay laid_out_cong [of A "place_rows B i' t' m" m] by blast
  moreover show h: "heights A (place_rows B i' t' m) = heights A m"
    by (rule heights_place_rows) (use dom in auto)
  moreover have "laid_out B i' t' (place_rows B i' t' m)"
    by (rule laid_out_place_rows) (use d dom in auto)
  ultimately show "laid_out (A @ B) i t (place_rows B i' t' m)" by (simp add: i t)
qed

text \<open>The loop of \<open>updateHeight\<close> sets the tops only, where the indices are right already.\<close>

lemma place_tops_eq:
  "distinct ks \<Longrightarrow> (\<And>j. j < length ks \<Longrightarrow> row_index (the (m (ks ! j))) = i + j)
    \<Longrightarrow> place_tops ks t m = place_rows ks i t m"
proof (induction ks arbitrary: i t m)
  case (Cons k ks)
  let ?r = "(the (m k))\<lparr>row_top := t\<rparr>"
  have "row_index (the (m k)) = i" using Cons.prems(2) [of 0] by simp
  then have r: "(the (m k))\<lparr>row_index := i, row_top := t\<rparr> = ?r" by simp
  have "place_tops ks (t + row_height ?r) (m(k \<mapsto> ?r))
      = place_rows ks (i + 1) (t + row_height ?r) (m(k \<mapsto> ?r))"
  proof (rule Cons.IH)
    show "distinct ks" using Cons.prems(1) by simp
    fix j assume j: "j < length ks"
    then have "ks ! j \<noteq> k" using Cons.prems(1) by (auto simp: in_set_conv_nth)
    then show "row_index (the ((m(k \<mapsto> ?r)) (ks ! j))) = i + 1 + j"
      using Cons.prems(2) [of "Suc j"] j by simp
  qed
  then show ?case by (simp add: Let_def r)
qed simp

lemma recount_rows_other [simp]: "k \<notin> set ks \<Longrightarrow> recount_rows e ratio ks t m k = m k"
  by (induction e ratio ks t m rule: recount_rows.induct) (auto simp: Let_def)

lemma dom_recount_rows [simp]: "dom (recount_rows e ratio ks t m) = set ks \<union> dom m"
proof (induction e ratio ks t m rule: recount_rows.induct)
  case (2 e ratio k ks t m)
  show ?case unfolding recount_rows.simps Let_def by (subst 2 [OF refl]) auto
qed simp

lemma laid_out_recount_rows:
  "distinct ks \<Longrightarrow> (\<And>j. j < length ks \<Longrightarrow> row_index (the (m (ks ! j))) = i + j)
    \<Longrightarrow> laid_out ks i t (recount_rows e ratio ks t m)
      \<and> (\<forall>k\<in>set ks. row_height (the (recount_rows e ratio ks t m k)) = env_height e ratio k)"
proof (induction ks arbitrary: i t m)
  case (Cons k ks)
  let ?r = "recountHeight e ratio k ((the (m k))\<lparr>row_top := t\<rparr>)"
  let ?m = "recount_rows e ratio ks (t + row_height ?r) (m(k \<mapsto> ?r))"
  have i: "row_index (the (m k)) = i" using Cons.prems(2) [of 0] by simp
  have k: "?m k = Some ?r" using Cons.prems(1) by simp
  have "laid_out ks (i + 1) (t + row_height ?r) ?m
      \<and> (\<forall>k\<in>set ks. row_height (the (?m k)) = env_height e ratio k)"
  proof (rule Cons.IH)
    show "distinct ks" using Cons.prems(1) by simp
    fix j assume j: "j < length ks"
    then have "ks ! j \<noteq> k" using Cons.prems(1) by (auto simp: in_set_conv_nth)
    then show "row_index (the ((m(k \<mapsto> ?r)) (ks ! j))) = i + 1 + j"
      using Cons.prems(2) [of "Suc j"] j by simp
  qed
  then show ?case using k i by (simp add: Let_def) (simp add: recountHeight_def)
qed simp

section \<open>Operations keep the layout\<close>

lemma wf_row:
  assumes "dl_wf l" "j < length (dl_rows l)"
  shows "row_index (row_of l (dl_rows l ! j)) = j"
    "row_top (row_of l (dl_rows l ! j)) = heights (take j (dl_rows l)) (dl_rowByKey l)"
    "dl_rowByKey l (dl_rows l ! j) \<noteq> None"
  using laid_out_nth [of "dl_rows l" 0 0 "dl_rowByKey l" j] assms by (auto simp: dl_wf_def)

lemma wf_split:
  assumes "dl_wf l" "k \<in> set (dl_rows l)"
  obtains A B r where "dl_rows l = A @ k # B" "dl_rowByKey l k = Some r" "row_index r = length A"
    "row_top r = heights A (dl_rowByKey l)"
proof -
  obtain j where j: "j < length (dl_rows l)" "dl_rows l ! j = k"
    using assms(2) by (auto simp: in_set_conv_nth)
  obtain r where r: "dl_rowByKey l k = Some r" using wf_row(3) [OF assms(1) j(1)] j(2) by auto
  show ?thesis
    using that [OF _ r, of "take j (dl_rows l)" "drop (Suc j) (dl_rows l)"]
      wf_row(1,2) [OF assms(1) j(1)] j r id_take_nth_drop [OF j(1)] by simp
qed

lemma wf_key_None: "dl_wf l \<Longrightarrow> dl_rowByKey l k = None \<longleftrightarrow> k \<notin> set (dl_rows l)"
  by (auto simp: dl_wf_def)

lemma wf_height: "dl_wf l \<Longrightarrow> list_height l = heights (dl_rows l) (dl_rowByKey l)"
proof (cases "dl_rows l" rule: rev_cases)
  case (snoc ks k)
  assume wf: "dl_wf l"
  show ?thesis
    using wf_row(2) [OF wf, of "length ks"] snoc by (simp add: list_height_def)
qed (simp add: list_height_def)

lemma std_rotate_split [simp]:
  "std_rotate (length A) (length A + length B) (length A + length B + length C) (A @ B @ C @ D)
    = A @ C @ B @ D"
  by (simp add: std_rotate_def)

definition same_heights :: "('k, 'r) dialogs_list \<Rightarrow> ('k, 'r) dialogs_list \<Rightarrow> bool" where
  "same_heights l l' \<longleftrightarrow> dl_sortMode l' = dl_sortMode l \<and> dl_narrowRatio l' = dl_narrowRatio l
    \<and> (\<forall>k. k \<in> set (dl_rows l) \<inter> set (dl_rows l') \<longrightarrow> map_option row_height (dl_rowByKey l' k) = map_option row_height (dl_rowByKey l k))"

lemma same_heights_refl [simp]: "same_heights l l"
  by (simp add: same_heights_def)

lemma list_rotate_wf:
  assumes wf: "dl_wf l" and rows: "dl_rows l = A @ B @ C @ D" and ne: "B @ C \<noteq> []"
    and i: "first = length A" "middle = length A + length B" "till = length A + length B + length C"
  shows "dl_wf (list_rotate first middle till l)"
    "dl_rows (list_rotate first middle till l) = A @ C @ B @ D"
    "same_heights l (list_rotate first middle till l)"
proof -
  let ?m = "dl_rowByKey l"
  have d: "distinct (A @ B @ C @ D)" and dom: "dom ?m = set (A @ B @ C @ D)"
    and lay: "laid_out (A @ B @ C @ D) 0 0 ?m" using wf rows by (simp_all add: dl_wf_def)
  have len: "length A < length (dl_rows l)" using rows ne by auto
  have rt: "row_top (row_of l (dl_rows l ! first)) = heights A ?m"
    using wf_row(2) [OF wf len] rows i by simp
  let ?p = "place_rows (C @ B) (length A) (heights A ?m) ?m"
  have rot: "list_rotate first middle till l = l\<lparr>dl_rows := A @ C @ B @ D, dl_rowByKey := ?p\<rparr>"
    using rt unfolding list_rotate_def Let_def by (simp add: rows i)
  have sub: "set (C @ B) \<subseteq> dom ?m" using dom by auto
  have h: "heights xs ?p = heights xs ?m" if "set xs \<subseteq> dom ?m" for xs
    using heights_place_rows [OF sub that] .
  have "laid_out (A @ C @ B) 0 0 ?p"
    by (rule laid_out_relaid) (use d sub dom lay in auto)
  moreover have "laid_out D (length (A @ C @ B)) (heights (A @ C @ B) ?p) ?p"
  proof -
    have "?p x = ?m x" if "x \<in> set D" for x
      by (rule place_rows_other) (use that d in auto)
    then have "laid_out D (length (A @ C @ B)) (heights (A @ C @ B) ?m) ?p
        = laid_out D (length (A @ C @ B)) (heights (A @ C @ B) ?m) ?m"
      by (rule laid_out_cong)
    moreover have "heights (A @ C @ B) ?p = heights (A @ C @ B) ?m" by (rule h) (use dom in auto)
    ultimately show ?thesis using lay by (simp add: add_ac)
  qed
  ultimately have "laid_out ((A @ C @ B) @ D) 0 0 ?p" by (subst laid_out_append) simp
  then have "laid_out (A @ C @ B @ D) 0 0 ?p" by (simp only: append_assoc)
  then show "dl_wf (list_rotate first middle till l)"
    using d dom sub unfolding rot dl_wf_def by (auto simp: dom_place_rows simp del: place_rows.simps)
  show "dl_rows (list_rotate first middle till l) = A @ C @ B @ D" by (simp add: rot)
  show "same_heights l (list_rotate first middle till l)"
    using place_rows_height [OF sub] by (simp add: rot same_heights_def)
qed

section \<open>Moving one row to its place\<close>

text \<open>The contract of the sort orders: a total preorder. In a list that is sorted but for one
  element, the two searches of the adjustments find where it belongs.\<close>

locale row_order =
  fixes le :: "'a \<Rightarrow> 'a \<Rightarrow> bool"
  assumes le_total: "le x y \<or> le y x"
    and le_trans: "le x y \<Longrightarrow> le y z \<Longrightarrow> le x z"
begin

definition adjusted :: "'a list \<Rightarrow> 'a \<Rightarrow> 'a list \<Rightarrow> 'a list" where
  "adjusted A k B =
    (let B1 = takeWhile (\<lambda>x. \<not> le k x) B; B2 = dropWhile (\<lambda>x. \<not> le k x) B
     in if B1 \<noteq> [] then A @ B1 @ k # B2
        else let A2 = rev (takeWhile (\<lambda>x. \<not> le x k) (rev A));
                 A1 = rev (dropWhile (\<lambda>x. \<not> le x k) (rev A))
             in A1 @ k # A2 @ B)"

lemma not_le: "\<not> le x y \<Longrightarrow> le y x"
  using le_total by blast

lemma refl: "le x x"
  using le_total by blast

lemma sorted_insert_middle:
  assumes "sorted_wrt le (xs @ ys)" "\<forall>x\<in>set xs. le x k" "\<forall>y\<in>set ys. le k y"
  shows "sorted_wrt le (xs @ k # ys)"
  using assms by (auto simp: sorted_wrt_append)

lemma prefix_le: "sorted_wrt le xs \<Longrightarrow> x \<in> set xs \<Longrightarrow> le x (last xs)"
  by (cases xs rule: rev_cases) (auto simp: sorted_wrt_append refl)

lemma suffix_ge: "sorted_wrt le xs \<Longrightarrow> x \<in> set xs \<Longrightarrow> le (hd xs) x"
  by (cases xs) (auto simp: refl)

lemma adjusted_sorted:
  assumes s: "sorted_wrt le (A @ B)"
  shows "sorted_wrt le (adjusted A k B)"
proof -
  define B1 B2 where B: "B1 = takeWhile (\<lambda>x. \<not> le k x) B" "B2 = dropWhile (\<lambda>x. \<not> le k x) B"
  define A2 A1 where A: "A2 = rev (takeWhile (\<lambda>x. \<not> le x k) (rev A))"
    "A1 = rev (dropWhile (\<lambda>x. \<not> le x k) (rev A))"
  have BB: "B = B1 @ B2" by (simp add: B)
  have AA: "A = A1 @ A2" unfolding A by (metis rev_append rev_rev_ident takeWhile_dropWhile_id)
  have b1: "le x k" if "x \<in> set B1" for x
    using that not_le by (auto simp: B dest: set_takeWhileD)
  have b2: "le k x" if "x \<in> set B2" for x
  proof -
    have ne: "B2 \<noteq> []" using that by auto
    then have "le k (hd B2)" using hd_dropWhile [of "\<lambda>x. \<not> le k x" B] by (simp add: B)
    moreover have "le (hd B2) x" using s that by (intro suffix_ge) (auto simp: BB sorted_wrt_append)
    ultimately show ?thesis by (rule le_trans)
  qed
  have a2: "le k x" if "x \<in> set A2" for x
    using that not_le by (auto simp: A dest: set_takeWhileD)
  have a1: "le x k" if "x \<in> set A1" for x
  proof -
    have "A1 \<noteq> []" using that by auto
    then have ne: "dropWhile (\<lambda>x. \<not> le x k) (rev A) \<noteq> []" unfolding A rev_is_Nil_conv .
    then have "le (last A1) k"
      using hd_dropWhile [OF ne] by (simp add: A last_rev)
    moreover have "le x (last A1)" using s that by (intro prefix_le) (auto simp: AA sorted_wrt_append)
    ultimately show ?thesis using le_trans by blast
  qed
  show ?thesis
  proof (cases "B1 = []")
    case False
    then obtain z where z: "z \<in> set B1" by (cases B1) auto
    have "le x k" if "x \<in> set A" for x
    proof (rule le_trans)
      show "le x z" using that z s by (simp add: BB sorted_wrt_append)
      show "le z k" using z by (rule b1)
    qed
    then have "sorted_wrt le ((A @ B1) @ k # B2)"
      by (intro sorted_insert_middle) (use s b1 b2 in \<open>auto simp: BB\<close>)
    then show ?thesis using False by (simp add: adjusted_def Let_def B [symmetric])
  next
    case True
    then have "B2 = B" using BB by simp
    then have "sorted_wrt le (A1 @ k # A2 @ B)"
      by (intro sorted_insert_middle) (use s a1 a2 b2 in \<open>auto simp: AA\<close>)
    then show ?thesis using True by (simp add: adjusted_def Let_def B [symmetric] A [symmetric])
  qed
qed

end

definition adjust_with ::
  "('k \<Rightarrow> bool) \<Rightarrow> ('k \<Rightarrow> bool) \<Rightarrow> 'k \<Rightarrow> ('k, 'r) dialogs_list \<Rightarrow> ('k, 'r) dialogs_list" where
  "adjust_with ahead behind k l =
    (let i = row_index (row_of l k); before = find_forward ahead (i + 1) (dl_rows l)
     in if before \<noteq> i + 1 then list_rotate i (i + 1) before l
        else let after = find_backward behind i (dl_rows l)
             in if after \<noteq> i then list_rotate after i (i + 1) l else l)"

lemma adjustByDate_with:
  "adjustByDate e k l = adjust_with (\<lambda>x. env_sortKey e k \<ge> env_sortKey e x)
    (\<lambda>x. env_sortKey e x \<ge> env_sortKey e k) k l"
  by (simp add: adjustByDate_def adjust_with_def Let_def)

lemma adjustByName_with:
  "adjust_row_by_name e k l = adjust_with (\<lambda>x. env_nameKey e k \<le> env_nameKey e x)
    (\<lambda>x. env_nameKey e x \<le> env_nameKey e k) k l"
  by (simp add: adjust_row_by_name_def adjust_with_def Let_def find_backward_def)

context row_order begin

lemma adjust_with_rows:
  assumes wf: "dl_wf l" and rows: "dl_rows l = A @ k # B"
  shows "dl_wf (adjust_with (le k) (\<lambda>x. le x k) k l)"
    "dl_rows (adjust_with (le k) (\<lambda>x. le x k) k l) = adjusted A k B"
    "same_heights l (adjust_with (le k) (\<lambda>x. le x k) k l)"
proof -
  define B1 B2 where B: "B1 = takeWhile (\<lambda>x. \<not> le k x) B" "B2 = dropWhile (\<lambda>x. \<not> le k x) B"
  define A2 A1 where A: "A2 = rev (takeWhile (\<lambda>x. \<not> le x k) (rev A))"
    "A1 = rev (dropWhile (\<lambda>x. \<not> le x k) (rev A))"
  have BB: "B = B1 @ B2" by (simp add: B)
  have AA: "A = A1 @ A2" unfolding A by (metis rev_append rev_rev_ident takeWhile_dropWhile_id)
  have i: "row_index (row_of l k) = length A"
    using wf_row(1) [OF wf, of "length A"] rows by simp
  have fwd: "find_forward (le k) (length A + 1) (dl_rows l) = length A + length [k] + length B1"
    by (simp add: find_forward_def rows B)
  have bwd: "find_backward (\<lambda>x. le x k) (length A) (dl_rows l) = length A1"
    using arg_cong [OF AA, of length] by (simp add: find_backward_def rows A)
  let ?l' = "adjust_with (le k) (\<lambda>x. le x k) k l"
  have "dl_wf ?l' \<and> dl_rows ?l' = adjusted A k B \<and> same_heights l ?l'"
  proof (cases "B1 = []")
    case False
    then have l': "?l' = list_rotate (length A) (length A + length [k]) (length A + length [k] + length B1) l"
      using fwd i by (simp add: adjust_with_def Let_def)
    have "adjusted A k B = A @ B1 @ [k] @ B2"
      using False by (simp add: adjusted_def Let_def B [symmetric])
    then show ?thesis
      unfolding l' using list_rotate_wf [OF wf, of A "[k]" B1 B2] rows BB by simp
  next
    case T: True
    have adj: "adjusted A k B = A1 @ [k] @ A2 @ B"
      using T by (simp add: adjusted_def Let_def B [symmetric] A [symmetric])
    show ?thesis
    proof (cases "A2 = []")
      case True
      then have "?l' = l" using T fwd bwd i AA by (simp add: adjust_with_def Let_def)
      then show ?thesis using wf rows adj True AA by simp
    next
      case False
      then have "?l' = list_rotate (length A1) (length A1 + length A2) (length A1 + length A2 + length [k]) l"
        using T fwd bwd i AA by (simp add: adjust_with_def Let_def)
      then show ?thesis
        using list_rotate_wf [OF wf, of A1 A2 "[k]" B] rows AA adj by simp
    qed
  qed
  then show "dl_wf ?l'" "dl_rows ?l' = adjusted A k B" "same_heights l ?l'" by simp_all
qed

lemma adjusted_cases:
  obtains B1 B2 where "B = B1 @ B2" "adjusted A k B = A @ B1 @ k # B2"
  | A1 A2 where "A = A1 @ A2" "adjusted A k B = A1 @ k # A2 @ B"
proof (cases "takeWhile (\<lambda>x. \<not> le k x) B = []")
  case False
  then show ?thesis
    by (intro that(1) [of "takeWhile (\<lambda>x. \<not> le k x) B" "dropWhile (\<lambda>x. \<not> le k x) B"])
      (simp_all add: adjusted_def Let_def)
next
  case True
  have "A = rev (dropWhile (\<lambda>x. \<not> le x k) (rev A)) @ rev (takeWhile (\<lambda>x. \<not> le x k) (rev A))"
    by (metis rev_append rev_rev_ident takeWhile_dropWhile_id)
  then show ?thesis using True by (intro that(2)) (simp_all add: adjusted_def Let_def)
qed

lemma set_adjusted [simp]: "set (adjusted A k B) = insert k (set A \<union> set B)"
  by (rule adjusted_cases [of B A k]) auto

lemma remove1_adjusted:
  "k \<notin> set A \<Longrightarrow> k \<notin> set B \<Longrightarrow> remove1 k (adjusted A k B) = A @ B"
  by (rule adjusted_cases [of B A k]) (auto simp: remove1_append)

end

context row_order begin

lemma adjust_with_spec:
  assumes wf: "dl_wf l" and k: "k \<in> set (dl_rows l)"
  shows "dl_wf (adjust_with (le k) (\<lambda>x. le x k) k l)"
    "same_heights l (adjust_with (le k) (\<lambda>x. le x k) k l)"
    "set (dl_rows (adjust_with (le k) (\<lambda>x. le x k) k l)) = set (dl_rows l)"
    "remove1 k (dl_rows (adjust_with (le k) (\<lambda>x. le x k) k l)) = remove1 k (dl_rows l)"
    "sorted_wrt le (remove1 k (dl_rows l))
      \<Longrightarrow> sorted_wrt le (dl_rows (adjust_with (le k) (\<lambda>x. le x k) k l))"
proof -
  obtain A B where rows: "dl_rows l = A @ k # B" using split_list [OF k] by blast
  have kn: "k \<notin> set A" "k \<notin> set B" using wf rows by (auto simp: dl_wf_def)
  note a = adjust_with_rows [OF wf rows]
  show "dl_wf (adjust_with (le k) (\<lambda>x. le x k) k l)"
    "same_heights l (adjust_with (le k) (\<lambda>x. le x k) k l)" by (rule a)+
  show "set (dl_rows (adjust_with (le k) (\<lambda>x. le x k) k l)) = set (dl_rows l)"
    "remove1 k (dl_rows (adjust_with (le k) (\<lambda>x. le x k) k l)) = remove1 k (dl_rows l)"
    using kn by (simp_all add: a rows remove1_adjusted remove1_append)
  show "sorted_wrt le (dl_rows (adjust_with (le k) (\<lambda>x. le x k) k l))"
    if "sorted_wrt le (remove1 k (dl_rows l))"
    using adjusted_sorted [of A B k] that kn by (simp add: a rows remove1_append)
qed

end

abbreviation date_order :: "('k, 'r, 'n) dialogs_env \<Rightarrow> 'k \<Rightarrow> 'k \<Rightarrow> bool" where
  "date_order e \<equiv> \<lambda>x y. env_sortKey e x \<ge> env_sortKey e y"

abbreviation name_order :: "('k, 'r, 'n::linorder) dialogs_env \<Rightarrow> 'k \<Rightarrow> 'k \<Rightarrow> bool" where
  "name_order e \<equiv> \<lambda>x y. env_nameKey e x \<le> env_nameKey e y"

interpretation by_date: row_order "\<lambda>x y. env_sortKey e x \<ge> env_sortKey e y"
  for e :: "('k, 'r, 'n) dialogs_env"
  by unfold_locales (auto simp: linear)

interpretation by_name: row_order "\<lambda>x y. env_nameKey e x \<le> env_nameKey e y"
  for e :: "('k, 'r, 'n::linorder) dialogs_env"
  by unfold_locales auto

lemma adjustByDate_spec:
  assumes "dl_wf l" "k \<in> set (dl_rows l)"
  shows "dl_wf (adjustByDate e k l)" "same_heights l (adjustByDate e k l)"
    "set (dl_rows (adjustByDate e k l)) = set (dl_rows l)"
    "remove1 k (dl_rows (adjustByDate e k l)) = remove1 k (dl_rows l)"
    "sorted_wrt (date_order e) (remove1 k (dl_rows l)) \<Longrightarrow> sorted_wrt (date_order e) (dl_rows (adjustByDate e k l))"
  using by_date.adjust_with_spec [OF assms, of e] unfolding adjustByDate_with by blast+

lemma adjust_by_name_spec:
  assumes "dl_wf l" "k \<in> set (dl_rows l)"
  shows "dl_wf (adjust_row_by_name e k l)" "same_heights l (adjust_row_by_name e k l)"
    "set (dl_rows (adjust_row_by_name e k l)) = set (dl_rows l)"
    "remove1 k (dl_rows (adjust_row_by_name e k l)) = remove1 k (dl_rows l)"
    "sorted_wrt (name_order e) (remove1 k (dl_rows l)) \<Longrightarrow> sorted_wrt (name_order e) (dl_rows (adjust_row_by_name e k l))"
  using by_name.adjust_with_spec [OF assms, of e] unfolding adjustByName_with by blast+

section \<open>Every operation of the list\<close>

lemma rows_distinct: "dl_wf l \<Longrightarrow> distinct (dl_rows l)"
  by (simp add: dl_wf_def)

lemma List_wf [simp]: "dl_wf (List mode zero)" "dl_wf (list_clear l)"
  by (simp_all add: dl_wf_def List_def list_clear_def)

lemma appended_wf:
  assumes wf: "dl_wf l" and k: "k \<notin> set (dl_rows l)"
    and r: "row_index r = length (dl_rows l)" "row_top r = list_height l"
  shows "dl_wf (l\<lparr>dl_rows := dl_rows l @ [k], dl_rowByKey := (dl_rowByKey l)(k \<mapsto> r)\<rparr>)"
proof -
  let ?m = "dl_rowByKey l" and ?ks = "dl_rows l"
  have h: "heights ?ks ?m = heights ?ks (?m(k \<mapsto> r))"
    by (rule heights_cong) (use k wf in \<open>auto simp: dl_wf_def\<close>)
  have "laid_out ?ks 0 0 (?m(k \<mapsto> r))"
    using wf k by (subst laid_out_cong [of ?ks _ ?m]) (auto simp: dl_wf_def)
  moreover have "dom (?m(k \<mapsto> r)) = set (?ks @ [k])" using wf by (simp add: dl_wf_def)
  ultimately show ?thesis
    using wf k r h wf_height [OF wf] by (simp add: dl_wf_def)
qed

lemma addToEnd_spec:
  assumes wf: "dl_wf l"
  shows "dl_wf (addToEnd e k l)" "set (dl_rows (addToEnd e k l)) = insert k (set (dl_rows l))"
    "dl_sortMode (addToEnd e k l) = dl_sortMode l"
    "k \<notin> set (dl_rows l) \<Longrightarrow> remove1 k (dl_rows (addToEnd e k l)) = dl_rows l"
    "dl_sortMode l \<noteq> SortDate \<Longrightarrow> k \<notin> set (dl_rows l) \<Longrightarrow> dl_rows (addToEnd e k l) = dl_rows l @ [k]"
    "dl_sortMode l = SortDate \<Longrightarrow> sorted_wrt (date_order e) (dl_rows l)
      \<Longrightarrow> sorted_wrt (date_order e) (dl_rows (addToEnd e k l))"
    "k \<in> set (dl_rows l) \<Longrightarrow> addToEnd e k l = l"
proof -
  let ?r = "recountHeight e (dl_narrowRatio l) k (new_row (length (dl_rows l)) (list_height l))"
  let ?l = "l\<lparr>dl_rows := dl_rows l @ [k], dl_rowByKey := (dl_rowByKey l)(k \<mapsto> ?r)\<rparr>"
  have present: "addToEnd e k l = l" if "k \<in> set (dl_rows l)"
    using that wf_key_None [OF wf, of k] by (auto simp: addToEnd_def getRow_def)
  then show "k \<in> set (dl_rows l) \<Longrightarrow> addToEnd e k l = l" .
  have fresh: "addToEnd e k l = (if dl_sortMode l = SortDate then adjustByDate e k ?l else ?l)"
    if "k \<notin> set (dl_rows l)"
  proof -
    have "dl_rowByKey l k = None" using that by (simp add: wf_key_None [OF wf])
    then show ?thesis by (simp add: addToEnd_def getRow_def Let_def)
  qed
  have wf': "dl_wf ?l" if "k \<notin> set (dl_rows l)"
    by (rule appended_wf [OF wf that]) (simp_all add: recountHeight_def new_row_def)
  have rem: "remove1 k (dl_rows ?l) = dl_rows l" if "k \<notin> set (dl_rows l)"
    using that by (simp add: remove1_append)
  note adj = adjustByDate_spec [of ?l k e]
  have "dl_wf (addToEnd e k l) \<and> set (dl_rows (addToEnd e k l)) = insert k (set (dl_rows l))
    \<and> dl_sortMode (addToEnd e k l) = dl_sortMode l
    \<and> (k \<notin> set (dl_rows l) \<longrightarrow> remove1 k (dl_rows (addToEnd e k l)) = dl_rows l)
    \<and> (dl_sortMode l \<noteq> SortDate \<longrightarrow> k \<notin> set (dl_rows l) \<longrightarrow> dl_rows (addToEnd e k l) = dl_rows l @ [k])
    \<and> (dl_sortMode l = SortDate \<longrightarrow> sorted_wrt (date_order e) (dl_rows l)
        \<longrightarrow> sorted_wrt (date_order e) (dl_rows (addToEnd e k l)))"
  proof (cases "k \<in> set (dl_rows l)")
    case True
    then show ?thesis using wf by (auto simp: present)
  next
    case False
    show ?thesis
      using adj [OF wf' [OF False]] False wf' [OF False] rem [OF False]
      by (cases "dl_sortMode l = SortDate") (auto simp: fresh [OF False] same_heights_def)
  qed
  then show "dl_wf (addToEnd e k l)" "set (dl_rows (addToEnd e k l)) = insert k (set (dl_rows l))"
    "dl_sortMode (addToEnd e k l) = dl_sortMode l"
    "k \<notin> set (dl_rows l) \<Longrightarrow> remove1 k (dl_rows (addToEnd e k l)) = dl_rows l"
    "dl_sortMode l \<noteq> SortDate \<Longrightarrow> k \<notin> set (dl_rows l) \<Longrightarrow> dl_rows (addToEnd e k l) = dl_rows l @ [k]"
    "dl_sortMode l = SortDate \<Longrightarrow> sorted_wrt (date_order e) (dl_rows l)
      \<Longrightarrow> sorted_wrt (date_order e) (dl_rows (addToEnd e k l))" by simp_all
qed

lemma adjustByName_spec:
  assumes wf: "dl_wf l"
  shows "dl_wf (fst (adjustByName e k l))" "set (dl_rows (fst (adjustByName e k l))) = set (dl_rows l)"
    "same_heights l (fst (adjustByName e k l))" "snd (adjustByName e k l) \<longleftrightarrow> k \<in> set (dl_rows l)"
    "remove1 k (dl_rows (fst (adjustByName e k l))) = remove1 k (dl_rows l)"
    "sorted_wrt (name_order e) (remove1 k (dl_rows l)) \<Longrightarrow>
      sorted_wrt (name_order e) (dl_rows (fst (adjustByName e k l)))"
proof -
  have eq: "adjustByName e k l = (if k \<in> set (dl_rows l) then (adjust_row_by_name e k l, True) else (l, False))"
    using wf_key_None [OF wf, of k] by (auto simp: adjustByName_def getRow_def split: option.splits)
  note a = adjust_by_name_spec [OF wf, where k = k and e = e]
  show "dl_wf (fst (adjustByName e k l))" "set (dl_rows (fst (adjustByName e k l))) = set (dl_rows l)"
    "same_heights l (fst (adjustByName e k l))" "snd (adjustByName e k l) \<longleftrightarrow> k \<in> set (dl_rows l)"
    "remove1 k (dl_rows (fst (adjustByName e k l))) = remove1 k (dl_rows l)"
    using a(1-4) wf by (simp_all add: eq)
  show "sorted_wrt (name_order e) (dl_rows (fst (adjustByName e k l)))"
    if "sorted_wrt (name_order e) (remove1 k (dl_rows l))"
    using a(5) that by (cases "k \<in> set (dl_rows l)") (simp_all add: eq remove1_idem)
qed

lemma addByName_spec:
  assumes wf: "dl_wf l"
  shows "dl_wf (addByName e k l)" "set (dl_rows (addByName e k l)) = insert k (set (dl_rows l))"
    "dl_sortMode (addByName e k l) = dl_sortMode l"
    "k \<notin> set (dl_rows l) \<Longrightarrow> remove1 k (dl_rows (addByName e k l)) = dl_rows l"
    "dl_sortMode l = SortName \<Longrightarrow> sorted_wrt (name_order e) (dl_rows l)
      \<Longrightarrow> sorted_wrt (name_order e) (dl_rows (addByName e k l))"
proof -
  note a = addToEnd_spec [OF wf, where e = e and k = k]
  note b = adjustByName_spec [OF a(1), where e = e and k = k]
  have mono: "sorted_wrt (name_order e) (remove1 k xs)" if "sorted_wrt (name_order e) xs" for xs
    using that by (induction xs) (auto dest: notin_set_remove1)
  show "dl_wf (addByName e k l)" "set (dl_rows (addByName e k l)) = insert k (set (dl_rows l))"
    using a(2) b(1,2) by (simp_all add: addByName_def)
  show "dl_sortMode (addByName e k l) = dl_sortMode l"
    using a(3) b(3) by (simp add: addByName_def same_heights_def)
  show "k \<notin> set (dl_rows l) \<Longrightarrow> remove1 k (dl_rows (addByName e k l)) = dl_rows l"
    using a(4) b(5) by (simp add: addByName_def)
  show "sorted_wrt (name_order e) (dl_rows (addByName e k l))"
    if "dl_sortMode l = SortName" "sorted_wrt (name_order e) (dl_rows l)"
    unfolding addByName_def
    by (rule b(6)) (cases "k \<in> set (dl_rows l)", use a(4,7) mono that in auto)
qed

lemma moveToTop_spec:
  assumes wf: "dl_wf l"
  shows "dl_wf (fst (moveToTop k l))" "snd (moveToTop k l) \<longleftrightarrow> k \<in> set (dl_rows l)"
    "same_heights l (fst (moveToTop k l))"
    "dl_rows (fst (moveToTop k l)) = (if k \<in> set (dl_rows l) then k # remove1 k (dl_rows l) else dl_rows l)"
proof -
  have "dl_wf (fst (moveToTop k l)) \<and> (snd (moveToTop k l) \<longleftrightarrow> k \<in> set (dl_rows l))
    \<and> same_heights l (fst (moveToTop k l))
    \<and> dl_rows (fst (moveToTop k l)) = (if k \<in> set (dl_rows l) then k # remove1 k (dl_rows l) else dl_rows l)"
  proof (cases "k \<in> set (dl_rows l)")
    case True
    obtain A B r where s: "dl_rows l = A @ k # B" "dl_rowByKey l k = Some r" "row_index r = length A"
      by (rule wf_split [OF wf True])
    then have m: "moveToTop k l = (list_rotate 0 (length A) (length A + 1) l, True)"
      by (simp add: moveToTop_def)
    have kn: "k \<notin> set A" using rows_distinct [OF wf] s by auto
    show ?thesis
      using list_rotate_wf [OF wf, of "[]" A "[k]" B] s m kn by (simp add: remove1_append)
  next
    case False
    then have "dl_rowByKey l k = None" by (simp add: wf_key_None [OF wf])
    then show ?thesis using wf False by (simp add: moveToTop_def)
  qed
  then show "dl_wf (fst (moveToTop k l))" "snd (moveToTop k l) \<longleftrightarrow> k \<in> set (dl_rows l)"
    "same_heights l (fst (moveToTop k l))"
    "dl_rows (fst (moveToTop k l)) = (if k \<in> set (dl_rows l) then k # remove1 k (dl_rows l) else dl_rows l)"
    by simp_all
qed

lemma list_remove_spec:
  assumes wf: "dl_wf l"
  shows "dl_wf (fst (list_remove k l))" "snd (list_remove k l) \<longleftrightarrow> k \<in> set (dl_rows l)"
    "dl_sortMode (fst (list_remove k l)) = dl_sortMode l"
    "dl_rows (fst (list_remove k l)) = remove1 k (dl_rows l)"
proof -
  have "dl_wf (fst (list_remove k l)) \<and> (snd (list_remove k l) \<longleftrightarrow> k \<in> set (dl_rows l))
    \<and> dl_sortMode (fst (list_remove k l)) = dl_sortMode l
    \<and> dl_rows (fst (list_remove k l)) = remove1 k (dl_rows l)"
  proof (cases "k \<in> set (dl_rows l)")
    case True
    let ?m = "dl_rowByKey l"
    obtain A B r where s: "dl_rows l = A @ k # B" "?m k = Some r" "row_index r = length A"
      "row_top r = heights A ?m"
      by (rule wf_split [OF wf True])
    have d: "distinct A" "distinct B" "k \<notin> set A" "k \<notin> set B" "set A \<inter> set B = {}"
      using rows_distinct [OF wf] s by auto
    let ?p = "place_rows B (length A) (heights A ?m) ?m"
    have rem: "list_remove k l = (l\<lparr>dl_rows := A @ B, dl_rowByKey := ?p(k := None)\<rparr>, True)"
      using s by (simp add: list_remove_def Let_def)
    have dom: "dom ?m = insert k (set A \<union> set B)" using wf s by (auto simp: dl_wf_def)
    have "laid_out (A @ B) 0 0 ?p"
      by (rule laid_out_relaid) (use wf s d dom in \<open>auto simp: dl_wf_def\<close>)
    moreover have "(?p(k := None)) x = ?p x" if "x \<in> set (A @ B)" for x using that d by auto
    ultimately have lay: "laid_out (A @ B) 0 0 (?p(k := None))"
      using laid_out_cong [of "A @ B" "?p(k := None)" ?p] by blast
    have "dom (?p(k := None)) = set (A @ B)"
    proof -
      have "set B \<subseteq> dom ?m" using dom by auto
      then have "dom ?p = insert k (set A \<union> set B)" using dom by (simp only: dom_place_rows)
      then show ?thesis using d by (simp only: dom_fun_upd) auto
    qed
    then have "dl_wf (fst (list_remove k l))"
      using lay d by (simp add: rem dl_wf_def)
    then show ?thesis using True d by (simp add: rem s remove1_append)
  next
    case False
    then have "dl_rowByKey l k = None" by (simp add: wf_key_None [OF wf])
    then show ?thesis using wf False by (simp add: list_remove_def remove1_idem)
  qed
  then show "dl_wf (fst (list_remove k l))" "snd (list_remove k l) \<longleftrightarrow> k \<in> set (dl_rows l)"
    "dl_sortMode (fst (list_remove k l)) = dl_sortMode l"
    "dl_rows (fst (list_remove k l)) = remove1 k (dl_rows l)" by simp_all
qed

lemma updateHeight_spec:
  assumes wf: "dl_wf l"
  shows "dl_wf (fst (updateHeight e k ratio l))"
    "dl_rows (fst (updateHeight e k ratio l)) = dl_rows l"
    "dl_sortMode (fst (updateHeight e k ratio l)) = dl_sortMode l"
    "k \<in> set (dl_rows l) \<Longrightarrow>
      row_height (row_of (fst (updateHeight e k ratio l)) k) = env_height e ratio k"
proof -
  have "dl_wf (fst (updateHeight e k ratio l))
    \<and> dl_rows (fst (updateHeight e k ratio l)) = dl_rows l
    \<and> dl_sortMode (fst (updateHeight e k ratio l)) = dl_sortMode l
    \<and> (k \<in> set (dl_rows l) \<longrightarrow>
        row_height (row_of (fst (updateHeight e k ratio l)) k) = env_height e ratio k)"
  proof (cases "k \<in> set (dl_rows l)")
    case True
    let ?m = "dl_rowByKey l"
    obtain A B r where s: "dl_rows l = A @ k # B" "?m k = Some r" "row_index r = length A"
      "row_top r = heights A ?m"
      by (rule wf_split [OF wf True])
    have d: "distinct A" "distinct (k # B)" "k \<notin> set A" "set A \<inter> set (k # B) = {}"
      using rows_distinct [OF wf] s by auto
    define r' where "r' = recountHeight e ratio k r"
    define m where "m = ?m(k \<mapsto> r')"
    have r': "row_height r' = env_height e ratio k" "row_index r' = row_index r" "row_top r' = row_top r"
      by (simp_all add: r'_def recountHeight_def)
    have u: "updateHeight e k ratio l = (if row_height r' = row_height r then (l\<lparr>dl_rowByKey := m\<rparr>, False)
        else (l\<lparr>dl_rowByKey := place_tops (k # B) (heights A ?m) m\<rparr>, True))"
      using s by (simp add: updateHeight_def Let_def r'_def m_def)
    have dom: "dom m = set (A @ k # B)" using wf s by (auto simp: dl_wf_def m_def)
    have pt: "place_tops (k # B) (heights A ?m) m = place_rows (k # B) (length A) (heights A ?m) m"
    proof (rule place_tops_eq [OF d(2)])
      fix j assume j: "j < length (k # B)"
      have "row_index (the (?m ((k # B) ! j))) = length A + j"
        using wf_row(1) [OF wf, of "length A + j"] j s by (simp add: nth_append)
      then show "row_index (the (m ((k # B) ! j))) = length A + j"
        using r' s by (auto simp: m_def)
    qed
    show ?thesis
    proof (cases "row_height r' = row_height r")
      case T: True
      then have "r' = r" using r' by simp
      then have "m = ?m" using s by (simp add: m_def fun_upd_idem)
      then show ?thesis using u T wf s r' by simp
    next
      case False
      let ?p = "place_rows (k # B) (length A) (heights A ?m) m"
      have hA: "heights A ?m = heights A m"
        by (rule heights_cong) (use d wf s in \<open>auto simp: m_def dl_wf_def\<close>)
      have "m x = ?m x" if "x \<in> set A" for x using that d by (auto simp: m_def)
      then have "laid_out A 0 0 m"
        using wf s laid_out_cong [of A m ?m] by (simp add: dl_wf_def)
      then have "laid_out (A @ k # B) 0 0 ?p"
        by (intro laid_out_relaid) (use d dom hA in auto)
      moreover have "dom ?p = set (A @ k # B)"
        using dom_place_rows [of "k # B" m] dom by (metis Un_upper2 set_append)
      moreover have "map_option row_height (?p k) = Some (env_height e ratio k)"
      proof -
        have "map_option row_height (?p k) = map_option row_height (m k)"
          by (rule place_rows_height) (use dom in auto)
        then show ?thesis using r' by (simp add: m_def del: place_rows.simps map_option_eq_Some)
      qed
      ultimately show ?thesis
        using False s rows_distinct [OF wf] unfolding u pt
        by (auto simp: dl_wf_def map_option_eq_Some simp del: laid_out_append place_rows.simps)
    qed
  next
    case False
    then have "dl_rowByKey l k = None" by (simp add: wf_key_None [OF wf])
    then show ?thesis using wf False by (simp add: updateHeight_def)
  qed
  then show "dl_wf (fst (updateHeight e k ratio l))"
    "dl_rows (fst (updateHeight e k ratio l)) = dl_rows l"
    "dl_sortMode (fst (updateHeight e k ratio l)) = dl_sortMode l"
    "k \<in> set (dl_rows l) \<Longrightarrow>
      row_height (row_of (fst (updateHeight e k ratio l)) k) = env_height e ratio k" by simp_all
qed

lemma updateHeights_spec:
  assumes wf: "dl_wf l"
  shows "dl_wf (fst (updateHeights e ratio l))"
    "dl_rows (fst (updateHeights e ratio l)) = dl_rows l"
    "dl_sortMode (fst (updateHeights e ratio l)) = dl_sortMode l"
    "\<forall>k\<in>set (dl_rows l). row_height (row_of (fst (updateHeights e ratio l)) k) = env_height e ratio k"
proof -
  note r = laid_out_recount_rows [OF rows_distinct [OF wf], of "dl_rowByKey l" 0 0 e ratio]
  have "laid_out (dl_rows l) 0 0 (recount_rows e ratio (dl_rows l) 0 (dl_rowByKey l))
    \<and> (\<forall>k\<in>set (dl_rows l). row_height (the (recount_rows e ratio (dl_rows l) 0 (dl_rowByKey l) k))
        = env_height e ratio k)"
    by (rule r) (simp add: wf_row(1) [OF wf])
  then show "dl_wf (fst (updateHeights e ratio l))"
    "dl_rows (fst (updateHeights e ratio l)) = dl_rows l"
    "dl_sortMode (fst (updateHeights e ratio l)) = dl_sortMode l"
    "\<forall>k\<in>set (dl_rows l). row_height (row_of (fst (updateHeights e ratio l)) k) = env_height e ratio k"
    using wf by (auto simp: updateHeights_def Let_def dl_wf_def)
qed

section \<open>Finding a row by its position\<close>

definition positive_rows :: "('k, 'r) dialogs_list \<Rightarrow> bool" where
  "positive_rows l \<longleftrightarrow> (\<forall>k\<in>set (dl_rows l). 0 < row_height (row_of l k))"

abbreviation row_bottom :: "('k, 'r) dialogs_list \<Rightarrow> 'k \<Rightarrow> int" where
  "row_bottom l k \<equiv> row_top (row_of l k) + row_height (row_of l k)"

lemma row_bottom_nth:
  "dl_wf l \<Longrightarrow> j < length (dl_rows l) \<Longrightarrow>
    row_bottom l (dl_rows l ! j) = heights (take (Suc j) (dl_rows l)) (dl_rowByKey l)"
  by (simp add: wf_row take_Suc_conv_app_nth)

lemma heights_mono:
  assumes "\<And>k. k \<in> set ks \<Longrightarrow> 0 < row_height (the (m k))" "i < j" "j \<le> length ks"
  shows "heights (take i ks) m < heights (take j ks) m"
proof -
  have split: "take j ks = take i ks @ take (j - i) (drop i ks)"
    using assms(2) by (metis add_diff_inverse_nat nat_less_le not_less take_add)
  have pos: "0 \<le> heights xs m" if "set xs \<subseteq> set ks" for xs
    using that
  proof (induction xs)
    case (Cons x xs)
    then show ?case using assms(1) [of x] by simp
  qed simp
  obtain y ys where y: "take (j - i) (drop i ks) = y # ys"
    using assms(2,3) by (cases "take (j - i) (drop i ks)") auto
  then have "set (y # ys) \<subseteq> set ks" by (metis set_drop_subset set_take_subset subset_trans)
  then have "0 < heights (y # ys) m" using pos [of ys] assms(1) [of y] by simp
  then show ?thesis by (simp add: split y)
qed

lemma row_bottom_mono:
  assumes "dl_wf l" "positive_rows l" "i < j" "j < length (dl_rows l)"
  shows "row_bottom l (dl_rows l ! i) < row_bottom l (dl_rows l ! j)"
  using heights_mono [of "dl_rows l" "dl_rowByKey l" "Suc i" "Suc j"] assms
  by (simp add: row_bottom_nth positive_rows_def)

lemma findByY_eq:
  assumes "dl_wf l" "positive_rows l" "j \<le> length (dl_rows l)"
    and "\<And>i. j = Suc i \<Longrightarrow> row_bottom l (dl_rows l ! i) < y"
    and "j < length (dl_rows l) \<Longrightarrow> y \<le> row_bottom l (dl_rows l ! j)"
  shows "findByY l y = j"
proof -
  have below: "row_bottom l (dl_rows l ! i) < y" if i: "i < j" for i
  proof -
    obtain i' where i': "j = Suc i'" using i by (cases j) auto
    show ?thesis
    proof (cases "i = i'")
      case False
      then have "row_bottom l (dl_rows l ! i) < row_bottom l (dl_rows l ! i')"
        by (intro row_bottom_mono [OF assms(1,2)]) (use i' i assms(3) in auto)
      then show ?thesis using assms(4) [OF i'] by simp
    qed (use assms(4) [OF i'] in simp)
  qed
  have "takeWhile (\<lambda>k. row_bottom l k < y) (dl_rows l) = take j (dl_rows l)"
    by (rule takeWhile_eq_take_P_nth) (use below assms(5) in auto)
  then show ?thesis using assms(3) by (simp add: findByY_def lower_bound_def)
qed

lemma findByY_facts:
  assumes "findByY l y = j"
  shows "j \<le> length (dl_rows l)" "i < j \<Longrightarrow> row_bottom l (dl_rows l ! i) < y"
    "j < length (dl_rows l) \<Longrightarrow> y \<le> row_bottom l (dl_rows l ! j)"
proof -
  let ?t = "takeWhile (\<lambda>k. row_bottom l k < y) (dl_rows l)"
  have j: "j = length ?t" using assms by (simp add: findByY_def lower_bound_def)
  show "j \<le> length (dl_rows l)" by (simp add: j length_takeWhile_le)
  show "row_bottom l (dl_rows l ! i) < y" if "i < j"
    using nth_mem [of i ?t] that set_takeWhileD [of "?t ! i" "\<lambda>k. row_bottom l k < y" "dl_rows l"]
    by (simp add: j takeWhile_nth)
  show "y \<le> row_bottom l (dl_rows l ! j)" if "j < length (dl_rows l)"
    using nth_length_takeWhile [of "\<lambda>k. row_bottom l k < y" "dl_rows l"] that by (simp add: j)
qed

lemma rowAtY_iff:
  assumes wf: "dl_wf l" and pos: "positive_rows l"
  shows "rowAtY l y = Some k \<longleftrightarrow> k \<in> set (dl_rows l) \<and> row_top (row_of l k) \<le> y \<and> y < row_bottom l k
    \<and> (row_index (row_of l k) = 0 \<or> row_top (row_of l k) < y)" (is "?L \<longleftrightarrow> ?R")
proof -
  have gap: "row_top (row_of l (dl_rows l ! Suc i)) = row_bottom l (dl_rows l ! i)"
    if "Suc i < length (dl_rows l)" for i
    using that by (simp add: wf_row [OF wf] take_Suc_conv_app_nth)
  show ?thesis
  proof
    assume ?L
    then obtain j where j: "findByY l y = j" "j \<noteq> length (dl_rows l)" "k = dl_rows l ! j"
      "row_top (row_of l k) \<le> y" "y < row_bottom l k"
      by (auto simp: rowAtY_def Let_def split: if_splits)
    then have "j < length (dl_rows l)" using findByY_facts(1) [OF j(1)] by simp
    then show ?R
      using j findByY_facts(2) [OF j(1), of "j - 1"] gap [of "j - 1"] wf_row(1) [OF wf, of j]
      by (cases j) auto
  next
    assume R: ?R
    then obtain j where j: "j < length (dl_rows l)" "dl_rows l ! j = k"
      by (auto simp: in_set_conv_nth)
    have "findByY l y = j"
      by (rule findByY_eq [OF wf pos]) (use j R gap wf_row(1) [OF wf j(1)] in auto)
    then show ?L using j R by (auto simp: rowAtY_def)
  qed
qed

section \<open>Properties\<close>

text \<open>The order a list keeps: by date descending, by name ascending, or the order of
  insertion.\<close>

definition dl_sorted :: "('k, 'r, 'n::linorder) dialogs_env \<Rightarrow> ('k, 'r) dialogs_list \<Rightarrow> bool" where
  "dl_sorted e l \<longleftrightarrow> (case dl_sortMode l of
      SortDate \<Rightarrow> sorted_wrt (date_order e) (dl_rows l)
    | SortName \<Rightarrow> sorted_wrt (name_order e) (dl_rows l)
    | SortAdd \<Rightarrow> True)"

definition example_list :: "(nat, unit) dialogs_list" where
  "example_list = \<lparr>dl_sortMode = SortDate, dl_narrowRatio = (), dl_rows = [8, 7],
    dl_rowByKey = [8 \<mapsto> \<lparr>row_top = 0, row_height = 10, row_index = 0\<rparr>,
      7 \<mapsto> \<lparr>row_top = 10, row_height = 12, row_index = 1\<rparr>]\<rparr>"

definition example_env :: "(nat, unit, nat) dialogs_env" where
  "example_env = \<lparr>env_height = (\<lambda>_ k. int k), env_sortKey = of_nat, env_nameKey = (\<lambda>k. k)\<rparr>"

lemma example_list_rows: "dl_rows example_list = [8, 7]" "contains_key example_list k \<longleftrightarrow> k = 8 \<or> k = 7"
  by (auto simp: example_list_def contains_key_def)

lemma example_list_wf: "dl_wf example_list" "positive_rows example_list"
  by (auto simp: example_list_def dl_wf_def positive_rows_def)

text \<open>C36: Every operation of \<open>Dialogs::List\<close> keeps the rows laid out: the pointers and the
  owned rows are the same, each row knows its index, and each row starts exactly where the rows
  above it end, so that the height of the list is the sum of the heights. Adding inserts one row
  and keeps the others in place, moving to the top and removing change nothing else.\<close>

theorem dialogs_list_layout:
  assumes "dl_wf l"
  shows "dl_wf (addToEnd e k l) \<and> set (dl_rows (addToEnd e k l)) = insert k (set (dl_rows l))
    \<and> dl_wf (addByName e k l) \<and> set (dl_rows (addByName e k l)) = insert k (set (dl_rows l))
    \<and> dl_wf (fst (adjustByName e k l)) \<and> remove1 k (dl_rows (fst (adjustByName e k l))) = remove1 k (dl_rows l)
    \<and> (contains_key l k \<longrightarrow> dl_wf (adjustByDate e k l)
        \<and> remove1 k (dl_rows (adjustByDate e k l)) = remove1 k (dl_rows l)
        \<and> dl_rows (fst (moveToTop k l)) = k # remove1 k (dl_rows l)
        \<and> row_height (row_of (fst (updateHeight e k r l)) k) = env_height e r k)
    \<and> dl_wf (fst (updateHeight e k r l)) \<and> dl_rows (fst (updateHeight e k r l)) = dl_rows l
    \<and> dl_wf (fst (updateHeights e r l)) \<and> dl_rows (fst (updateHeights e r l)) = dl_rows l
    \<and> list_height (fst (updateHeights e r l)) = sum_list (map (env_height e r) (dl_rows l))
    \<and> dl_wf (fst (moveToTop k l))
    \<and> dl_wf (fst (list_remove k l)) \<and> dl_rows (fst (list_remove k l)) = remove1 k (dl_rows l)"
proof -
  have k: "contains_key l k \<longleftrightarrow> k \<in> set (dl_rows l)"
    using wf_key_None [OF assms] by (simp add: contains_key_def)
  note h = updateHeights_spec [OF assms, of e r]
  have "list_height (fst (updateHeights e r l)) = sum_list (map (env_height e r) (dl_rows l))"
    unfolding wf_height [OF h(1)] heights_def h(2)
    by (rule arg_cong [of _ _ sum_list], rule map_cong [OF refl]) (use h(4) in blast)
  then show ?thesis
    using addToEnd_spec(1,2) [OF assms, where e = e and k = k] addByName_spec(1,2) [OF assms, where e = e and k = k]
      adjustByName_spec(1,5) [OF assms, where e = e and k = k] adjustByDate_spec(1,4) [OF assms, where e = e and k = k]
      updateHeight_spec(1,2,4) [OF assms, where e = e and k = k and ratio = r] h(1,2) moveToTop_spec(1,4) [OF assms, of k]
      list_remove_spec(1,4) [OF assms, of k]
    unfolding k by simp
qed

theorem dialogs_list_layout_witness:
  "dl_rows (fst (moveToTop 7 example_list)) = [7, 8]
    \<and> dl_rows (fst (list_remove 8 example_list)) = [7] \<and> dl_wf (addToEnd example_env 9 example_list)"
proof -
  note w = dialogs_list_layout [OF example_list_wf(1), where e = example_env and r = "()"]
  show ?thesis using w [of 7] w [of 8] w [of 9] by (simp add: example_list_rows)
qed

text \<open>A list that is sorted stays sorted when an entry is added, and when the key of one
  entry has changed, adjusting that entry alone sorts the list again: by date for a list of
  chats, by name for a list of contacts. The order of the other rows is not touched.\<close>

theorem dialogs_list_sorted:
  assumes "dl_wf l"
  shows "(dl_sortMode l \<noteq> SortName \<longrightarrow> dl_sorted e l \<longrightarrow> dl_sorted e (addToEnd e k l))
    \<and> (dl_sortMode l = SortName \<longrightarrow> dl_sorted e l \<longrightarrow> dl_sorted e (addByName e k l))
    \<and> (dl_sortMode l = SortDate \<longrightarrow> contains_key l k \<longrightarrow> sorted_wrt (date_order e) (remove1 k (dl_rows l))
        \<longrightarrow> dl_sorted e (adjustByDate e k l)
          \<and> remove1 k (dl_rows (adjustByDate e k l)) = remove1 k (dl_rows l))
    \<and> (dl_sortMode l = SortName \<longrightarrow> contains_key l k \<longrightarrow> sorted_wrt (name_order e) (remove1 k (dl_rows l))
        \<longrightarrow> dl_sorted e (fst (adjustByName e k l))
          \<and> remove1 k (dl_rows (fst (adjustByName e k l))) = remove1 k (dl_rows l))
    \<and> (dl_sorted e l \<longrightarrow> dl_sorted e (fst (list_remove k l)))"
proof -
  have k: "contains_key l k \<longleftrightarrow> k \<in> set (dl_rows l)"
    using wf_key_None [OF assms] by (simp add: contains_key_def)
  have sub: "sorted_wrt R (remove1 k xs)" if "sorted_wrt R xs" for R xs
    using that by (induction xs) (auto dest: notin_set_remove1)
  show ?thesis
    using addToEnd_spec(3,6) [OF assms, where e = e and k = k] addByName_spec(3,5) [OF assms, where e = e and k = k]
      adjustByName_spec(3,5,6) [OF assms, where e = e and k = k] adjustByDate_spec(2,4,5) [OF assms, where e = e and k = k]
      list_remove_spec(3,4) [OF assms, of k] sub
    unfolding k dl_sorted_def same_heights_def
    by (cases "dl_sortMode l") simp_all
qed

theorem dialogs_list_sorted_witness: "dl_sorted example_env (addToEnd example_env 9 example_list)"
  using dialogs_list_sorted [OF example_list_wf(1), of example_env 9]
  by (simp add: dl_sorted_def example_list_def example_env_def)

text \<open>What the mouse points at: \<open>rowAtY\<close> finds the row that covers a position, except
  at the first pixel of every row but the first one, where it finds nothing. The binary search
  stops at the row that ends at the position, which does not cover it.\<close>

theorem row_at_y_misses_first_pixel:
  assumes "dl_wf l" "positive_rows l"
  shows "(rowAtY l y = Some k \<longleftrightarrow> contains_key l k \<and> row_top (row_of l k) \<le> y \<and> y < row_bottom l k
      \<and> (row_index (row_of l k) = 0 \<or> row_top (row_of l k) < y))
    \<and> (Suc i < length (dl_rows l) \<longrightarrow> rowAtY l (row_top (row_of l (dl_rows l ! Suc i))) = None)"
proof -
  have k: "contains_key l k \<longleftrightarrow> k \<in> set (dl_rows l)"
    using wf_key_None [OF assms(1)] by (simp add: contains_key_def)
  have "rowAtY l (row_top (row_of l (dl_rows l ! Suc i))) = None" if i: "Suc i < length (dl_rows l)"
  proof -
    have gap: "row_top (row_of l (dl_rows l ! Suc i)) = row_bottom l (dl_rows l ! i)"
      using i by (simp add: wf_row [OF assms(1)] take_Suc_conv_app_nth)
    have "findByY l (row_bottom l (dl_rows l ! i)) = i"
      by (rule findByY_eq [OF assms]) (use i row_bottom_mono [OF assms] in auto)
    then show ?thesis using i by (simp add: rowAtY_def gap)
  qed
  then show ?thesis using rowAtY_iff [OF assms, of y k] unfolding k by blast
qed

theorem row_at_y_misses_first_pixel_witness:
  "rowAtY example_list 10 = None \<and> rowAtY example_list 11 = Some 7"
proof -
  have "rowAtY example_list (row_top (row_of example_list (dl_rows example_list ! Suc 0))) = None"
    using row_at_y_misses_first_pixel [OF example_list_wf, of _ _ 0] by (simp add: example_list_def)
  moreover have "rowAtY example_list 11 = Some 7"
    using row_at_y_misses_first_pixel [OF example_list_wf, of 11 7]
    by (simp add: contains_key_def) (simp add: example_list_def)
  ultimately show ?thesis by (simp add: example_list_def)
qed

end
