(* ===== verification/DialogsPinned.thy ===== *)
theory DialogsPinned imports DialogsList begin

text \<open>
  Pinned chats: the sort position and the pinned indices an entry caches
  (\<open>dialogs/dialogs_entry.{h,cpp}\<close>) and the ordered list of pinned chats
  (\<open>dialogs/dialogs_pinned_list.{h,cpp}\<close>).

  The world is the memory of the entries with the counter that makes sort positions of one
  date distinct. What an entry asks its chat and the session (its date, whether it belongs to
  the top, the support mode) is the record \<open>entry_env\<close>. Repainting and moving the rows
  of the lists an entry is in follow an update of the position and are not part of it.
\<close>

section \<open>Sort positions\<close>

definition DialogPosFromDate :: "int \<Rightarrow> int \<Rightarrow> 64 word \<times> int" where
  "DialogPosFromDate shift date =
    (if date = 0 then (0, shift)
     else (push_bit 32 (word_of_int date) OR word_of_int (shift + 1), shift + 1))"

definition FixedOnTopDialogPos :: "int \<Rightarrow> 64 word" where
  "FixedOnTopDialogPos index = 0xFFFFFFFFFFFF000F - word_of_int index"

definition PinnedDialogPos :: "int \<Rightarrow> 64 word" where
  "PinnedDialogPos pinnedIndex = 0xFFFFFFFF000000FF - word_of_int pinnedIndex"

record dialogs_entry =
  en_pinnedIndex :: "(int \<times> int) list"
  en_sortKeyInChatList :: "64 word"
  en_sortKeyByDate :: "64 word"

record 'k entries =
  es_entry :: "'k \<Rightarrow> dialogs_entry"
  es_posToTopShift :: int

record 'k entry_env =
  ee_adjustedChatListTimeId :: "'k \<Rightarrow> int"
  ee_fixedOnTopIndex :: "'k \<Rightarrow> dialogs_entry \<Rightarrow> int"
  ee_needUpdateInChatList :: "'k \<Rightarrow> dialogs_entry \<Rightarrow> bool"
  ee_supportMode :: bool
  ee_supportFixChatsOrder :: bool

definition lookupPinnedIndex :: "int \<Rightarrow> dialogs_entry \<Rightarrow> int" where
  "lookupPinnedIndex filterId e =
    (if filterId \<noteq> 0 then (case map_of (en_pinnedIndex e) filterId of Some i \<Rightarrow> i | None \<Rightarrow> 0)
     else case en_pinnedIndex e of [] \<Rightarrow> 0 | (f, i) # _ \<Rightarrow> if f \<noteq> 0 then 0 else i)"

definition isPinnedDialog :: "int \<Rightarrow> dialogs_entry \<Rightarrow> bool" where
  "isPinnedDialog filterId e \<longleftrightarrow> lookupPinnedIndex filterId e \<noteq> 0"

definition computeSortPosition :: "int \<Rightarrow> dialogs_entry \<Rightarrow> 64 word" where
  "computeSortPosition filterId e =
    (let index = lookupPinnedIndex filterId e
     in if index \<noteq> 0 then PinnedDialogPos index else en_sortKeyByDate e)"

definition sortKeyInChatList :: "int \<Rightarrow> dialogs_entry \<Rightarrow> 64 word" where
  "sortKeyInChatList filterId e =
    (if filterId \<noteq> 0 then computeSortPosition filterId e else en_sortKeyInChatList e)"

definition updateChatListSortPosition :: "'k entry_env \<Rightarrow> 'k \<Rightarrow> 'k entries \<Rightarrow> 'k entries" where
  "updateChatListSortPosition env k w =
    (let e = es_entry w k
     in if ee_supportMode env \<and> en_sortKeyInChatList e \<noteq> 0 \<and> ee_supportFixChatsOrder env then w
        else
          let (byDate, shift) = DialogPosFromDate (es_posToTopShift w) (ee_adjustedChatListTimeId env k);
              e1 = e\<lparr>en_sortKeyByDate := byDate\<rparr>;
              fixedIndex = ee_fixedOnTopIndex env k e1;
              e2 = e1\<lparr>en_sortKeyInChatList :=
                if fixedIndex \<noteq> 0 then FixedOnTopDialogPos fixedIndex else computeSortPosition 0 e1\<rparr>;
              e3 = (if ee_needUpdateInChatList env k e2 then e2
                    else e2\<lparr>en_sortKeyInChatList := 0, en_sortKeyByDate := 0\<rparr>)
          in w\<lparr>es_entry := (es_entry w)(k := e3), es_posToTopShift := shift\<rparr>)"

definition pinnedIndexChanged :: "'k entry_env \<Rightarrow> int \<Rightarrow> 'k \<Rightarrow> 'k entries \<Rightarrow> 'k entries" where
  "pinnedIndexChanged env filterId k w =
    updateChatListSortPosition env k
      (if filterId = 0 \<and> ee_supportMode env
       then w\<lparr>es_entry := (es_entry w)(k := (es_entry w k)\<lparr>en_sortKeyInChatList := 0\<rparr>)\<rparr> else w)"

definition cachePinnedIndex :: "'k entry_env \<Rightarrow> int \<Rightarrow> 'k \<Rightarrow> int \<Rightarrow> 'k entries \<Rightarrow> 'k entries" where
  "cachePinnedIndex env filterId k index w =
    (let e = es_entry w k; pinned = en_pinnedIndex e;
         was = (case map_of pinned filterId of Some i \<Rightarrow> i | None \<Rightarrow> 0)
     in if index = was then w
        else
          let pinned' =
            (if index = 0 then flat_erase filterId pinned
             else if was = 0 then flat_emplace filterId index pinned
             else flat_assign filterId index pinned)
          in pinnedIndexChanged env filterId k
              (w\<lparr>es_entry := (es_entry w)(k := e\<lparr>en_pinnedIndex := pinned'\<rparr>)\<rparr>))"

section \<open>The list of pinned chats\<close>

text \<open>The list writes the position of every key it moves to the entry of the key; this
  \<open>cache\<close> is an argument of its operations.\<close>

record 'k pinned_list =
  pl_limit :: nat
  pl_data :: "'k list"

type_synonym ('k, 'w) pinned_state = "'k pinned_list \<times> 'w"

fun cache_range :: "('k \<Rightarrow> int \<Rightarrow> 'w \<Rightarrow> 'w) \<Rightarrow> 'k list \<Rightarrow> nat \<Rightarrow> 'w \<Rightarrow> 'w" where
  "cache_range cache [] i w = w"
| "cache_range cache (k # ks) i w = cache_range cache ks (i + 1) (cache k (int (i + 1)) w)"

definition find_key :: "'k \<Rightarrow> 'k list \<Rightarrow> nat" where
  "find_key k ks = length (takeWhile (\<lambda>x. x \<noteq> k) ks)"

definition PinnedList :: "nat \<Rightarrow> 'k pinned_list" where
  "PinnedList limit = \<lparr>pl_limit = limit, pl_data = []\<rparr>"

definition unpin :: "('k \<Rightarrow> int \<Rightarrow> 'w \<Rightarrow> 'w) \<Rightarrow> 'k \<Rightarrow> ('k, 'w) pinned_state \<Rightarrow> ('k, 'w) pinned_state" where
  "unpin cache k s = (case s of (pl, w) \<Rightarrow>
    let index = find_key k (pl_data pl)
    in if index = length (pl_data pl) then (pl, w)
       else
         let rest = take index (pl_data pl) @ drop (index + 1) (pl_data pl)
         in (pl\<lparr>pl_data := rest\<rparr>, cache_range cache (drop index rest) index (cache k 0 w)))"

lemma find_key_split [simp]: "k \<notin> set A \<Longrightarrow> find_key k (A @ k # B) = length A"
  by (induction A) (auto simp: find_key_def)

lemma find_key_absent: "k \<notin> set ks \<Longrightarrow> find_key k ks = length ks"
  by (induction ks) (auto simp: find_key_def)

lemma find_key_less: "find_key k ks < length ks \<longleftrightarrow> k \<in> set ks"
proof
  assume "k \<in> set ks"
  then obtain A B where "ks = A @ k # B" "k \<notin> set A" by (meson split_list_first)
  then show "find_key k ks < length ks" by simp
qed (use find_key_absent in fastforce)

lemma unpin_split:
  "pl_data pl = A @ k # B \<Longrightarrow> k \<notin> set A \<Longrightarrow>
    unpin cache k (pl, w) = (pl\<lparr>pl_data := A @ B\<rparr>, cache_range cache B (length A) (cache k 0 w))"
  by (simp add: unpin_def Let_def)

lemma unpin_absent: "k \<notin> set (pl_data pl) \<Longrightarrow> unpin cache k (pl, w) = (pl, w)"
  by (simp add: unpin_def find_key_absent)

lemma length_unpin:
  "k \<in> set (pl_data pl) \<Longrightarrow> length (pl_data (fst (unpin cache k (pl, w)))) < length (pl_data pl)"
proof -
  assume "k \<in> set (pl_data pl)"
  then obtain A B where "pl_data pl = A @ k # B" "k \<notin> set A" by (meson split_list_first)
  then show ?thesis by (simp add: unpin_split)
qed

function (sequential) applyLimit ::
  "('k \<Rightarrow> int \<Rightarrow> 'w \<Rightarrow> 'w) \<Rightarrow> nat \<Rightarrow> ('k, 'w) pinned_state \<Rightarrow> ('k, 'w) pinned_state" where
  "applyLimit cache limit (pl, w) =
    (if length (pl_data pl) > limit then applyLimit cache limit (unpin cache (last (pl_data pl)) (pl, w))
     else (pl, w))"
  by pat_completeness auto
termination
proof (relation "measure (\<lambda>(_, _, pl, _). length (pl_data pl))", goal_cases)
  case (2 cache limit pl w)
  then have "last (pl_data pl) \<in> set (pl_data pl)" by (cases "pl_data pl") auto
  then show ?case using length_unpin [of "last (pl_data pl)" pl cache w]
    by (cases "unpin cache (last (pl_data pl)) (pl, w)") simp
qed simp

declare applyLimit.simps [simp del]

definition addPinnedGetPosition ::
  "('k \<Rightarrow> int \<Rightarrow> 'w \<Rightarrow> 'w) \<Rightarrow> 'k \<Rightarrow> ('k, 'w) pinned_state \<Rightarrow> nat \<times> ('k, 'w) pinned_state" where
  "addPinnedGetPosition cache k s = (case s of (pl, w) \<Rightarrow>
    let already = find_key k (pl_data pl)
    in if already \<noteq> length (pl_data pl) then (already, s)
       else
         let (pl1, w1) = applyLimit cache (pl_limit pl - 1) (pl, w);
             position = length (pl_data pl1)
         in (position, (pl1\<lparr>pl_data := pl_data pl1 @ [k]\<rparr>, cache k (int (position + 1)) w1)))"

definition addPinned :: "('k \<Rightarrow> int \<Rightarrow> 'w \<Rightarrow> 'w) \<Rightarrow> 'k \<Rightarrow> ('k, 'w) pinned_state \<Rightarrow> ('k, 'w) pinned_state" where
  "addPinned cache k s = snd (addPinnedGetPosition cache k s)"

definition setPinned ::
  "('k \<Rightarrow> int \<Rightarrow> 'w \<Rightarrow> 'w) \<Rightarrow> 'k \<Rightarrow> bool \<Rightarrow> ('k, 'w) pinned_state \<Rightarrow> ('k, 'w) pinned_state" where
  "setPinned cache k pinned s =
    (if pinned then
       let (position, (pl, w)) = addPinnedGetPosition cache k s
       in if position \<noteq> 0 then
            let data = std_rotate 0 position (position + 1) (pl_data pl)
            in (pl\<lparr>pl_data := data\<rparr>, cache_range cache (take (position + 1) data) 0 w)
          else (pl, w)
     else unpin cache k s)"

definition setLimit ::
  "('k \<Rightarrow> int \<Rightarrow> 'w \<Rightarrow> 'w) \<Rightarrow> nat \<Rightarrow> ('k, 'w) pinned_state \<Rightarrow> ('k, 'w) pinned_state" where
  "setLimit cache limit s = (case s of (pl, w) \<Rightarrow>
    if pl_limit pl = limit then s else applyLimit cache limit (pl\<lparr>pl_limit := limit\<rparr>, w))"

definition pinned_clear :: "('k \<Rightarrow> int \<Rightarrow> 'w \<Rightarrow> 'w) \<Rightarrow> ('k, 'w) pinned_state \<Rightarrow> ('k, 'w) pinned_state" where
  "pinned_clear cache s = applyLimit cache 0 s"

text \<open>The lists the server sends. The look-up of a chat or a folder belongs to the session;
  \<open>list_keys\<close> is what the three handlers of a list pass to \<open>addPinned\<close>.\<close>

datatype dialog_peer = DialogPeer nat | DialogPeerFolder int

definition dialog_peer_key :: "(nat \<Rightarrow> 'k) \<Rightarrow> (int \<Rightarrow> 'k) \<Rightarrow> dialog_peer \<Rightarrow> 'k option" where
  "dialog_peer_key history folder p = (case p of
      DialogPeer peerId \<Rightarrow> if peerId \<noteq> 0 then Some (history peerId) else None
    | DialogPeerFolder folderId \<Rightarrow> Some (folder folderId))"

definition sublist_peer_key :: "(nat \<Rightarrow> 'k) \<Rightarrow> dialog_peer \<Rightarrow> 'k option" where
  "sublist_peer_key sublist p = (case p of
      DialogPeer peerId \<Rightarrow> if peerId \<noteq> 0 then Some (sublist peerId) else None
    | DialogPeerFolder folderId \<Rightarrow> None)"

definition applyKeys :: "('k \<Rightarrow> int \<Rightarrow> 'w \<Rightarrow> 'w) \<Rightarrow> 'k list \<Rightarrow> ('k, 'w) pinned_state \<Rightarrow> ('k, 'w) pinned_state" where
  "applyKeys cache keys s = fold (addPinned cache) keys (pinned_clear cache s)"

definition applyList_dialogs where
  "applyList_dialogs cache history folder peers s =
    applyKeys cache (List.map_filter (dialog_peer_key history folder) peers) s"

definition applyList_sublists where
  "applyList_sublists cache sublist peers s =
    applyKeys cache (List.map_filter (sublist_peer_key sublist) peers) s"

definition applyList_topics where
  "applyList_topics cache topicFor ids s = applyKeys cache (List.map topicFor ids) s"

fun uncache_old :: "('k \<Rightarrow> int \<Rightarrow> 'w \<Rightarrow> 'w) \<Rightarrow> ('k \<Rightarrow> bool) \<Rightarrow> 'k list \<Rightarrow> 'k list \<Rightarrow> 'w \<Rightarrow> 'w" where
  "uncache_old cache is_history data [] w = w"
| "uncache_old cache is_history data (k # old) w =
    uncache_old cache is_history data old
      (if \<not> is_history k \<or> k \<notin> set data then cache k 0 w else w)"

definition applyList_histories where
  "applyList_histories cache is_history hs s = (case s of (pl, w) \<Rightarrow>
    (pl\<lparr>pl_data := hs\<rparr>, uncache_old cache is_history hs (pl_data pl) (cache_range cache hs 0 w)))"

text \<open>\<open>reorder\<close> asserts that both keys are there and differ.\<close>

definition reorder ::
  "('k \<Rightarrow> int \<Rightarrow> 'w \<Rightarrow> 'w) \<Rightarrow> 'k \<Rightarrow> 'k \<Rightarrow> ('k, 'w) pinned_state \<Rightarrow> ('k, 'w) pinned_state option" where
  "reorder cache key1 key2 s = (case s of (pl, w) \<Rightarrow>
    let data = pl_data pl; index1 = find_key key1 data; index2 = find_key key2 data
    in if index1 < length data \<and> index2 < length data \<and> index1 \<noteq> index2
       then Some (pl\<lparr>pl_data := data[index1 := data ! index2, index2 := data ! index1]\<rparr>,
         cache key2 (int (index1 + 1)) (cache key1 (int (index2 + 1)) w))
       else None)"

section \<open>What the list promises\<close>

text \<open>The contract between the list and the entries: writing a position to one entry is read
  back from it and leaves the other entries alone. Under it, the entries know at any time the
  position of their chat in the list, counted from one.\<close>

definition pl_cached :: "('w \<Rightarrow> 'k \<Rightarrow> int) \<Rightarrow> 'k list \<Rightarrow> 'w \<Rightarrow> bool" where
  "pl_cached index data w \<longleftrightarrow>
    (\<forall>k. index w k = (if k \<in> set data then int (find_key k data) + 1 else 0))"

lemma find_key_Cons [simp]: "find_key k (x # xs) = (if x = k then 0 else Suc (find_key k xs))"
  by (simp add: find_key_def)

lemma find_key_append [simp]:
  "find_key k (A @ B) = (if k \<in> set A then find_key k A else length A + find_key k B)"
  by (induction A) (auto simp: find_key_def)

text \<open>What the operations do with the keys of the list.\<close>

definition pinned_last :: "nat \<Rightarrow> 'k \<Rightarrow> 'k list \<Rightarrow> 'k list" where
  "pinned_last limit k ks = (if k \<in> set ks then ks else take (limit - 1) ks @ [k])"

definition pinned_first :: "nat \<Rightarrow> 'k \<Rightarrow> 'k list \<Rightarrow> 'k list" where
  "pinned_first limit k ks = k # remove1 k (if k \<in> set ks then ks else take (limit - 1) ks)"

text \<open>A list longer than the limit keeps its beginning and its last key: every key after the
  limit takes the place of the one before it.\<close>

definition applied :: "nat \<Rightarrow> 'k list \<Rightarrow> 'k list" where
  "applied limit ks = (if length ks \<le> limit then ks else take (limit - 1) ks @ [last ks])"

definition swapped :: "'k \<Rightarrow> 'k \<Rightarrow> 'k \<Rightarrow> 'k" where
  "swapped k1 k2 k = (if k = k1 then k2 else if k = k2 then k1 else k)"

locale pinned_cache =
  fixes cache :: "'k \<Rightarrow> int \<Rightarrow> 'w \<Rightarrow> 'w"
    and index :: "'w \<Rightarrow> 'k \<Rightarrow> int"
    and inv :: "'w \<Rightarrow> bool"
  assumes index_cache: "inv w \<Longrightarrow> index (cache k i w) k' = (if k' = k then i else index w k')"
    and inv_cache: "inv w \<Longrightarrow> inv (cache k i w)"
begin

definition wf :: "('k, 'w) pinned_state \<Rightarrow> bool" where
  "wf s \<longleftrightarrow> distinct (pl_data (fst s)) \<and> inv (snd s) \<and> pl_cached index (pl_data (fst s)) (snd s)"

lemma inv_cache_range [simp]: "inv w \<Longrightarrow> inv (cache_range cache ks i w)"
  by (induction ks arbitrary: i w) (simp_all add: inv_cache)

lemma index_cache_range:
  "inv w \<Longrightarrow> distinct ks \<Longrightarrow> index (cache_range cache ks i w) k
    = (if k \<in> set ks then int (i + find_key k ks) + 1 else index w k)"
  by (induction ks arbitrary: i w) (auto simp: index_cache inv_cache)

lemma unpin_wf:
  assumes "wf (pl, w)"
  shows "wf (unpin cache k (pl, w))"
    "pl_data (fst (unpin cache k (pl, w))) = remove1 k (pl_data pl)"
    "pl_limit (fst (unpin cache k (pl, w))) = pl_limit pl"
proof -
  have "wf (unpin cache k (pl, w)) \<and> pl_data (fst (unpin cache k (pl, w))) = remove1 k (pl_data pl)
    \<and> pl_limit (fst (unpin cache k (pl, w))) = pl_limit pl"
  proof (cases "k \<in> set (pl_data pl)")
    case True
    then obtain A B where s: "pl_data pl = A @ k # B" "k \<notin> set A" by (meson split_list_first)
    have d: "distinct (A @ k # B)" using assms s by (simp add: wf_def)
    show ?thesis
      using assms d s
      by (auto simp: unpin_split wf_def pl_cached_def index_cache_range index_cache inv_cache
          remove1_append)
  next
    case False
    then show ?thesis using assms by (simp add: unpin_absent remove1_idem)
  qed
  then show "wf (unpin cache k (pl, w))"
    "pl_data (fst (unpin cache k (pl, w))) = remove1 k (pl_data pl)"
    "pl_limit (fst (unpin cache k (pl, w))) = pl_limit pl" by simp_all
qed

lemma remove1_last: "distinct ks \<Longrightarrow> ks \<noteq> [] \<Longrightarrow> remove1 (last ks) ks = butlast ks"
  by (cases ks rule: rev_cases) (auto simp: remove1_append)

lemma applyLimit_wf:
  "wf (pl, w) \<Longrightarrow> wf (applyLimit cache n (pl, w))
    \<and> pl_data (fst (applyLimit cache n (pl, w))) = take n (pl_data pl)
    \<and> pl_limit (fst (applyLimit cache n (pl, w))) = pl_limit pl"
proof (induction "length (pl_data pl)" arbitrary: pl w)
  case 0
  then show ?case by (simp add: applyLimit.simps [of cache n pl w])
next
  case (Suc m)
  show ?case
  proof (cases "length (pl_data pl) > n")
    case True
    obtain pl' w' where u: "unpin cache (last (pl_data pl)) (pl, w) = (pl', w')" by fastforce
    have ne: "pl_data pl \<noteq> []" using Suc.hyps(2) by auto
    have d: "distinct (pl_data pl)" using Suc.prems by (simp add: wf_def)
    have data: "pl_data pl' = butlast (pl_data pl)"
      using unpin_wf(2) [OF Suc.prems, of "last (pl_data pl)"] remove1_last [OF d ne] by (simp add: u)
    have "wf (pl', w')" "pl_limit pl' = pl_limit pl"
      using unpin_wf(1,3) [OF Suc.prems, of "last (pl_data pl)"] by (simp_all add: u)
    then show ?thesis
      using Suc.hyps(1) [of pl' w'] Suc.hyps(2) True u data
      by (simp add: applyLimit.simps [of cache n pl w] take_butlast)
  next
    case False
    then show ?thesis using Suc.prems by (simp add: applyLimit.simps [of cache n pl w])
  qed
qed

lemma append_wf:
  "wf (pl, w) \<Longrightarrow> k \<notin> set (pl_data pl) \<Longrightarrow>
    wf (pl\<lparr>pl_data := pl_data pl @ [k]\<rparr>, cache k (int (length (pl_data pl)) + 1) w)"
  by (auto simp: wf_def pl_cached_def index_cache inv_cache)

lemma addPinnedGetPosition_wf:
  assumes "wf (pl, w)"
  shows "wf (snd (addPinnedGetPosition cache k (pl, w)))
    \<and> pl_data (fst (snd (addPinnedGetPosition cache k (pl, w)))) = pinned_last (pl_limit pl) k (pl_data pl)
    \<and> pl_limit (fst (snd (addPinnedGetPosition cache k (pl, w)))) = pl_limit pl
    \<and> fst (addPinnedGetPosition cache k (pl, w)) = find_key k (pinned_last (pl_limit pl) k (pl_data pl))"
proof (cases "k \<in> set (pl_data pl)")
  case True
  then show ?thesis
    using assms find_key_less [of k "pl_data pl"] by (simp add: addPinnedGetPosition_def Let_def pinned_last_def)
next
  case False
  obtain pl1 w1 where l: "applyLimit cache (pl_limit pl - 1) (pl, w) = (pl1, w1)" by fastforce
  have 1: "wf (pl1, w1)" "pl_data pl1 = take (pl_limit pl - 1) (pl_data pl)" "pl_limit pl1 = pl_limit pl"
    using applyLimit_wf [OF assms, of "pl_limit pl - 1"] unfolding l by simp_all
  have k: "k \<notin> set (take (pl_limit pl - 1) (pl_data pl))" using False in_set_takeD by fast
  show ?thesis
    using append_wf [OF 1(1), of k] 1 k False
    by (simp add: addPinnedGetPosition_def Let_def find_key_absent l [simplified] pinned_last_def add.commute)
qed

end

context pinned_cache begin

lemma pinned_last_distinct: "distinct ks \<Longrightarrow> distinct (pinned_last limit k ks)"
  by (auto simp: pinned_last_def dest: in_set_takeD)

lemma setPinned_wf:
  assumes wf: "wf (pl, w)"
  shows "wf (setPinned cache k True (pl, w))
    \<and> pl_data (fst (setPinned cache k True (pl, w))) = pinned_first (pl_limit pl) k (pl_data pl)
    \<and> pl_limit (fst (setPinned cache k True (pl, w))) = pl_limit pl"
proof -
  obtain p pl1 w1 where a: "addPinnedGetPosition cache k (pl, w) = (p, (pl1, w1))"
    by (metis prod_cases3)
  let ?ks = "pinned_last (pl_limit pl) k (pl_data pl)"
  have 1: "wf (pl1, w1)" "pl_data pl1 = ?ks" "pl_limit pl1 = pl_limit pl" "p = find_key k ?ks"
    using addPinnedGetPosition_wf [OF wf, of k] by (simp_all add: a)
  have "k \<in> set ?ks" by (simp add: pinned_last_def)
  then obtain A B where s: "?ks = A @ k # B" "k \<notin> set A" by (meson split_list_first)
  have d: "distinct (A @ k # B)" using 1 s by (simp add: wf_def)
  have first: "pinned_first (pl_limit pl) k (pl_data pl) = k # A @ B"
  proof -
    have "remove1 k ?ks = A @ B" using s by (simp add: remove1_append)
    moreover have "remove1 k ?ks = remove1 k (if k \<in> set (pl_data pl) then pl_data pl else take (pl_limit pl - 1) (pl_data pl))"
      by (auto simp: pinned_last_def remove1_append remove1_idem dest: in_set_takeD)
    ultimately show ?thesis by (simp only: pinned_first_def)
  qed
  have p: "p = length A" using 1 s by simp
  show ?thesis
  proof (cases "A = []")
    case True
    then have "setPinned cache k True (pl, w) = (pl1, w1)" using p by (simp add: setPinned_def a)
    then show ?thesis using 1 first s True by simp
  next
    case False
    have rot: "std_rotate 0 (length A) (Suc (length A)) (pl_data pl1) = k # A @ B"
      using std_rotate_split [of "[]" A "[k]" B] 1 s by simp
    have "setPinned cache k True (pl, w)
        = (pl1\<lparr>pl_data := k # A @ B\<rparr>, cache_range cache (k # A) 0 w1)"
      using False p by (simp add: setPinned_def a rot Let_def)
    moreover have "wf (pl1\<lparr>pl_data := k # A @ B\<rparr>, cache_range cache (k # A) 0 w1)"
      using 1 d s index_cache_range [of w1 "k # A" 0]
      by (auto simp: wf_def pl_cached_def simp del: cache_range.simps)
    ultimately show ?thesis using 1 first by simp
  qed
qed

lemma addPinned_wf:
  "wf s \<Longrightarrow> wf (addPinned cache k s)
    \<and> pl_data (fst (addPinned cache k s)) = pinned_last (pl_limit (fst s)) k (pl_data (fst s))
    \<and> pl_limit (fst (addPinned cache k s)) = pl_limit (fst s)"
  using addPinnedGetPosition_wf [of "fst s" "snd s" k] by (simp add: addPinned_def)

lemma pinned_last_applied:
  assumes "distinct (ks @ [k])" "0 < limit"
  shows "pinned_last limit k (applied limit ks) = applied limit (ks @ [k])"
proof (cases "length ks < limit")
  case True
  then show ?thesis using assms by (auto simp: applied_def pinned_last_def)
next
  case False
  then have "ks \<noteq> []" using assms(2) by auto
  then have "k \<notin> set (applied limit ks)" using assms(1) by (auto simp: applied_def dest: in_set_takeD)
  then show ?thesis using False assms(2) by (auto simp: applied_def pinned_last_def min_def)
qed

lemma applyKeys_wf:
  assumes "wf s" "distinct ks" "0 < pl_limit (fst s)"
  shows "wf (applyKeys cache ks s) \<and> pl_limit (fst (applyKeys cache ks s)) = pl_limit (fst s)
    \<and> pl_data (fst (applyKeys cache ks s)) = applied (pl_limit (fst s)) ks"
  using assms(2)
proof (induction ks rule: rev_induct)
  case Nil
  then show ?case
    using applyLimit_wf [of "fst s" "snd s" 0] assms(1) by (simp add: applyKeys_def pinned_clear_def applied_def)
next
  case (snoc k ks)
  then show ?case
    using addPinned_wf [of "applyKeys cache ks s" k] pinned_last_applied [of ks k "pl_limit (fst s)"] assms(3)
    by (simp add: applyKeys_def)
qed

lemma applyKeys_keeps:
  assumes "wf s" "0 < pl_limit (fst s)"
  shows "wf (applyKeys cache ks s) \<and> pl_limit (fst (applyKeys cache ks s)) = pl_limit (fst s)
    \<and> length (pl_data (fst (applyKeys cache ks s))) \<le> pl_limit (fst s)"
proof (induction ks rule: rev_induct)
  case Nil
  then show ?case using applyLimit_wf [of "fst s" "snd s" 0] assms(1) by (simp add: applyKeys_def pinned_clear_def)
next
  case (snoc k ks)
  then show ?case
    using addPinned_wf [of "applyKeys cache ks s" k] assms(2) by (auto simp: applyKeys_def pinned_last_def)
qed

lemma index_uncache_old:
  "inv w \<Longrightarrow> inv (uncache_old cache h data old w)
    \<and> index (uncache_old cache h data old w) k
      = (if k \<in> set old \<and> (\<not> h k \<or> k \<notin> set data) then 0 else index w k)"
  by (induction old arbitrary: w) (auto simp: index_cache inv_cache)

lemma applyList_histories_wf:
  assumes "wf (pl, w)" "distinct hs" "\<forall>k\<in>set hs. h k"
  shows "wf (applyList_histories cache h hs (pl, w))"
  using assms
  by (auto simp: applyList_histories_def wf_def pl_cached_def index_uncache_old index_cache_range)

lemma find_key_swapped: "find_key k (List.map (swapped k1 k2) ks) = find_key (swapped k1 k2 k) ks"
  by (induction ks) (auto simp: swapped_def find_key_def)

lemma nth_find_key: "k \<in> set ks \<Longrightarrow> ks ! find_key k ks = k"
  by (induction ks) auto

lemma find_key_eq_nth: "distinct ks \<Longrightarrow> j < length ks \<Longrightarrow> ks ! j = k \<Longrightarrow> find_key k ks = j"
  by (metis find_key_less nth_eq_iff_index_eq nth_find_key nth_mem)

lemma swapped_list:
  assumes "distinct ks" "k1 \<in> set ks" "k2 \<in> set ks" "k1 \<noteq> k2"
  shows "ks[find_key k1 ks := k2, find_key k2 ks := k1] = List.map (swapped k1 k2) ks"
proof (rule nth_equalityI)
  fix j assume "j < length (ks[find_key k1 ks := k2, find_key k2 ks := k1])"
  then have j: "j < length ks" by simp
  have "find_key k1 ks = j \<longleftrightarrow> ks ! j = k1" "find_key k2 ks = j \<longleftrightarrow> ks ! j = k2"
    using assms find_key_eq_nth [OF assms(1) j] nth_find_key [of k1 ks] nth_find_key [of k2 ks] by auto
  then show "ks[find_key k1 ks := k2, find_key k2 ks := k1] ! j = List.map (swapped k1 k2) ks ! j"
    using j assms by (auto simp: nth_list_update swapped_def)
qed simp

lemma reorder_wf:
  assumes wf: "wf (pl, w)" and k: "k1 \<in> set (pl_data pl)" "k2 \<in> set (pl_data pl)" "k1 \<noteq> k2"
  shows "\<exists>s. reorder cache k1 k2 (pl, w) = Some s \<and> wf s \<and> pl_limit (fst s) = pl_limit pl
    \<and> pl_data (fst s) = List.map (swapped k1 k2) (pl_data pl)"
proof -
  let ?ks = "pl_data pl"
  have d: "distinct ?ks" using wf by (simp add: wf_def)
  let ?w = "cache k2 (int (find_key k1 ?ks + 1)) (cache k1 (int (find_key k2 ?ks + 1)) w)"
  have "find_key k1 ?ks \<noteq> find_key k2 ?ks" using k nth_find_key by metis
  then have r: "reorder cache k1 k2 (pl, w)
      = Some (pl\<lparr>pl_data := List.map (swapped k1 k2) ?ks\<rparr>, ?w)"
    using k swapped_list [OF d k] by (simp add: reorder_def Let_def find_key_less nth_find_key)
  have "inj (swapped k1 k2)" by (auto simp: inj_def swapped_def split: if_splits)
  then have "distinct (List.map (swapped k1 k2) ?ks)"
    using d by (simp add: distinct_map inj_on_def inj_def)
  moreover have "set (List.map (swapped k1 k2) ?ks) = set ?ks"
    using k by (auto simp: swapped_def image_iff)
  moreover have "index ?w x = (if x \<in> set ?ks then int (find_key (swapped k1 k2 x) ?ks) + 1 else 0)" for x
    using wf k by (auto simp: wf_def pl_cached_def index_cache inv_cache swapped_def)
  moreover have "inv ?w" using wf by (simp add: wf_def inv_cache)
  ultimately have "wf (pl\<lparr>pl_data := List.map (swapped k1 k2) ?ks\<rparr>, ?w)"
    by (simp add: wf_def pl_cached_def find_key_swapped)
  then show ?thesis using r by simp
qed

end

section \<open>The entries keep that contract\<close>

definition pinned_index :: "int \<Rightarrow> 'k entries \<Rightarrow> 'k \<Rightarrow> int" where
  "pinned_index filterId w k = (case map_of (en_pinnedIndex (es_entry w k)) filterId of Some i \<Rightarrow> i | None \<Rightarrow> 0)"

definition entries_wf :: "'k entries \<Rightarrow> bool" where
  "entries_wf w \<longleftrightarrow> (\<forall>k. keys_sorted (en_pinnedIndex (es_entry w k))
    \<and> 0 \<notin> snd ` set (en_pinnedIndex (es_entry w k)))"

lemma pinned_updateChatListSortPosition [simp]:
  "en_pinnedIndex (es_entry (updateChatListSortPosition env k w) k') = en_pinnedIndex (es_entry w k')"
  by (simp add: updateChatListSortPosition_def Let_def split: prod.splits)

lemma pinned_pinnedIndexChanged [simp]:
  "en_pinnedIndex (es_entry (pinnedIndexChanged env f k w) k') = en_pinnedIndex (es_entry w k')"
  by (simp add: pinnedIndexChanged_def)

lemma snd_flat_emplace: "snd ` set (flat_emplace k v m) \<subseteq> insert v (snd ` set m)"
  by (induction k v m rule: flat_emplace.induct) auto

lemma snd_flat_assign: "snd ` set (flat_assign k v m) \<subseteq> insert v (snd ` set m)"
  by (auto simp: flat_assign_def)

lemma cachePinnedIndex_pinned:
  assumes "entries_wf w"
  shows "pinned_index f (cachePinnedIndex env f k i w) k' = (if k' = k then i else pinned_index f w k')"
    "f' \<noteq> f \<Longrightarrow> pinned_index f' (cachePinnedIndex env f k i w) k' = pinned_index f' w k'"
    "entries_wf (cachePinnedIndex env f k i w)"
proof -
  let ?p = "en_pinnedIndex (es_entry w k)"
  have wf: "keys_sorted ?p" "0 \<notin> snd ` set ?p" using assms by (simp_all add: entries_wf_def)
  have some: "map_of ?p f = Some v \<Longrightarrow> v \<noteq> 0" for v
    using wf(2) map_of_SomeD by force
  show "pinned_index f (cachePinnedIndex env f k i w) k' = (if k' = k then i else pinned_index f w k')"
    using wf some
    by (auto simp: cachePinnedIndex_def pinned_index_def Let_def map_of_flat_erase map_of_flat_emplace
        map_of_flat_assign split: option.splits)
  show "pinned_index f' (cachePinnedIndex env f k i w) k' = pinned_index f' w k'" if "f' \<noteq> f"
    using wf that
    by (auto simp: cachePinnedIndex_def pinned_index_def Let_def map_of_flat_erase map_of_flat_emplace
        map_of_flat_assign)
  have "0 \<notin> snd ` set (flat_erase f ?p)" using wf(2) by (auto simp: flat_erase_def)
  moreover have "keys_sorted (flat_erase f ?p)" using wf(1) by simp
  moreover have "0 \<notin> snd ` set (flat_emplace f i ?p)" "0 \<notin> snd ` set (flat_assign f i ?p)" if "i \<noteq> 0"
    using that wf(2) snd_flat_emplace [of f i ?p] snd_flat_assign [of f i ?p] by auto
  ultimately show "entries_wf (cachePinnedIndex env f k i w)"
    using assms wf by (auto simp: cachePinnedIndex_def entries_wf_def Let_def)
qed

interpretation pins: pinned_cache "cachePinnedIndex env f" "pinned_index f" entries_wf
  for env :: "'k entry_env" and f :: int
  by unfold_locales (simp_all add: cachePinnedIndex_pinned)

section \<open>Properties\<close>

text \<open>The state of a list and its entries: no key twice, the cached indices are those of the
  list, and the limit is kept.\<close>

definition pinned_wf :: "int \<Rightarrow> ('k, 'k entries) pinned_state \<Rightarrow> bool" where
  "pinned_wf f s \<longleftrightarrow> distinct (pl_data (fst s)) \<and> entries_wf (snd s)
    \<and> pl_cached (pinned_index f) (pl_data (fst s)) (snd s)"

definition within_limit :: "('k, 'w) pinned_state \<Rightarrow> bool" where
  "within_limit s \<longleftrightarrow> 0 < pl_limit (fst s) \<and> length (pl_data (fst s)) \<le> pl_limit (fst s)"

lemma pinned_wf_pins: "pinned_wf f s \<longleftrightarrow> pins.wf f s"
  by (simp add: pinned_wf_def pins.wf_def)

lemma length_pinned_first:
  "length ks \<le> n \<Longrightarrow> 0 < n \<Longrightarrow> length (pinned_first n k ks) \<le> n"
  by (auto simp: pinned_first_def length_remove1 dest: in_set_takeD)

lemma length_applied: "0 < n \<Longrightarrow> length (applied n ks) \<le> n"
  by (auto simp: applied_def)

text \<open>C33: The list of pinned chats and the indices its entries cache agree after every
  operation: pinning puts a chat in front and drops the last one of a full list, unpinning and
  lowering the limit remove only what they must, reordering swaps two chats, a list of the server
  is taken over in its order, a list that is too long losing what is between the limit and its
  last chat, and a filter's own list of chats is taken over as it is. All of them keep the limit
  but the last, which does so exactly when the filter's list is not longer than it.\<close>

theorem pinned_list_operations:
  assumes "pinned_wf f (pl, w)" "within_limit (pl, w)"
  shows "(let s = setPinned (cachePinnedIndex env f) k True (pl, w)
      in pinned_wf f s \<and> within_limit s \<and> pl_data (fst s) = pinned_first (pl_limit pl) k (pl_data pl))
    \<and> (let s = setPinned (cachePinnedIndex env f) k False (pl, w)
      in pinned_wf f s \<and> within_limit s \<and> pl_data (fst s) = remove1 k (pl_data pl))
    \<and> (0 < n \<longrightarrow> (let s = setLimit (cachePinnedIndex env f) n (pl, w)
      in pinned_wf f s \<and> within_limit s \<and> pl_data (fst s) = take n (pl_data pl)))
    \<and> (let s = applyKeys (cachePinnedIndex env f) (remdups ks) (pl, w)
      in pinned_wf f s \<and> within_limit s \<and> pl_data (fst s) = applied (pl_limit pl) (remdups ks))
    \<and> (k1 \<in> set (pl_data pl) \<longrightarrow> k2 \<in> set (pl_data pl) \<longrightarrow> k1 \<noteq> k2 \<longrightarrow>
      (\<exists>s. reorder (cachePinnedIndex env f) k1 k2 (pl, w) = Some s \<and> pinned_wf f s \<and> within_limit s
        \<and> pl_data (fst s) = List.map (swapped k1 k2) (pl_data pl)))
    \<and> (distinct hs \<longrightarrow> (\<forall>k\<in>set hs. is_history k) \<longrightarrow>
      (let s = applyList_histories (cachePinnedIndex env f) is_history hs (pl, w)
       in pinned_wf f s \<and> pl_data (fst s) = hs \<and> (within_limit s \<longleftrightarrow> length hs \<le> pl_limit pl)))"
proof -
  note wf = assms(1) [unfolded pinned_wf_pins]
  have lim: "0 < pl_limit pl" "length (pl_data pl) \<le> pl_limit pl"
    using assms(2) by (simp_all add: within_limit_def)
  have "setPinned (cachePinnedIndex env f) k False (pl, w) = unpin (cachePinnedIndex env f) k (pl, w)"
    by (simp add: setPinned_def)
  then have unpin: "pins.wf f (setPinned (cachePinnedIndex env f) k False (pl, w))
      \<and> within_limit (setPinned (cachePinnedIndex env f) k False (pl, w))
      \<and> pl_data (fst (setPinned (cachePinnedIndex env f) k False (pl, w))) = remove1 k (pl_data pl)"
    using pins.unpin_wf [OF wf, of env k] lim by (auto simp: within_limit_def length_remove1)
  have limit: "pins.wf f (setLimit (cachePinnedIndex env f) n (pl, w))
      \<and> within_limit (setLimit (cachePinnedIndex env f) n (pl, w))
      \<and> pl_data (fst (setLimit (cachePinnedIndex env f) n (pl, w))) = take n (pl_data pl)" if "0 < n"
    using pins.applyLimit_wf [of f "pl\<lparr>pl_limit := n\<rparr>" w env n] wf lim that
    by (auto simp: setLimit_def within_limit_def pins.wf_def)
  have pin: "pins.wf f (setPinned (cachePinnedIndex env f) k True (pl, w))
      \<and> within_limit (setPinned (cachePinnedIndex env f) k True (pl, w))
      \<and> pl_data (fst (setPinned (cachePinnedIndex env f) k True (pl, w))) = pinned_first (pl_limit pl) k (pl_data pl)"
    using pins.setPinned_wf [OF wf, of env k] lim length_pinned_first [of "pl_data pl" "pl_limit pl" k]
    by (simp add: within_limit_def)
  have keys: "pins.wf f (applyKeys (cachePinnedIndex env f) (remdups ks) (pl, w))
      \<and> within_limit (applyKeys (cachePinnedIndex env f) (remdups ks) (pl, w))
      \<and> pl_data (fst (applyKeys (cachePinnedIndex env f) (remdups ks) (pl, w))) = applied (pl_limit pl) (remdups ks)"
    using pins.applyKeys_wf [OF wf, of "remdups ks" env] lim length_applied [of "pl_limit pl" "remdups ks"]
    by (simp add: within_limit_def)
  have swap: "\<exists>s. reorder (cachePinnedIndex env f) k1 k2 (pl, w) = Some s \<and> pins.wf f s \<and> within_limit s
        \<and> pl_data (fst s) = List.map (swapped k1 k2) (pl_data pl)"
    if k12: "k1 \<in> set (pl_data pl)" "k2 \<in> set (pl_data pl)" "k1 \<noteq> k2"
  proof -
    obtain s where s: "reorder (cachePinnedIndex env f) k1 k2 (pl, w) = Some s" "pins.wf f s"
      "pl_limit (fst s) = pl_limit pl" "pl_data (fst s) = List.map (swapped k1 k2) (pl_data pl)"
      using pins.reorder_wf [OF wf k12, of env] by blast
    then have "within_limit s" using lim by (simp add: within_limit_def)
    with s show ?thesis by blast
  qed
  have hist: "pl_data (fst (applyList_histories (cachePinnedIndex env f) is_history hs (pl, w))) = hs"
    "within_limit (applyList_histories (cachePinnedIndex env f) is_history hs (pl, w)) \<longleftrightarrow> length hs \<le> pl_limit pl"
    using lim(1) by (simp_all add: applyList_histories_def within_limit_def)
  show ?thesis
    unfolding pinned_wf_pins Let_def hist
    using unpin limit pin keys swap pins.applyList_histories_wf [OF wf, of hs is_history env] by simp
qed

definition example_entries :: "nat entries" where
  "example_entries = \<lparr>es_entry = (\<lambda>k. \<lparr>en_pinnedIndex = (if k = 5 then [(1, 1)] else []),
      en_sortKeyInChatList = 0, en_sortKeyByDate = 0\<rparr>), es_posToTopShift = 0\<rparr>"

definition example_entry_env :: "nat entry_env" where
  "example_entry_env = \<lparr>ee_adjustedChatListTimeId = (\<lambda>k. 1600000000 + int k), ee_fixedOnTopIndex = (\<lambda>_ _. 0),
      ee_needUpdateInChatList = (\<lambda>_ _. True), ee_supportMode = False, ee_supportFixChatsOrder = False\<rparr>"

definition example_pins :: "nat pinned_list" where
  "example_pins = \<lparr>pl_limit = 2, pl_data = [5]\<rparr>"

lemma example_pins_wf:
  "pinned_wf 1 (example_pins, example_entries)" "within_limit (example_pins, example_entries)"
  by (auto simp: pinned_wf_def entries_wf_def pl_cached_def pinned_index_def within_limit_def
      example_pins_def example_entries_def)

theorem pinned_list_operations_witness:
  "pl_data (fst (setPinned (cachePinnedIndex example_entry_env 1) 6 True (example_pins, example_entries))) = [6, 5]
    \<and> \<not> within_limit (applyList_histories (cachePinnedIndex example_entry_env 1) (\<lambda>_. True) [3, 4, 5] (example_pins, example_entries))"
  using pinned_list_operations [OF example_pins_wf, of example_entry_env 6 1 "[]" 0 0 "[3, 4, 5]" "\<lambda>_. True"]
  by (simp add: Let_def) (simp add: pinned_first_def example_pins_def)

section \<open>Pinned chats are on top\<close>

lemma uint_PinnedDialogPos:
  "0 \<le> i \<Longrightarrow> i < 2 ^ 31 \<Longrightarrow> uint (PinnedDialogPos i) = 0xFFFFFFFF000000FF - i"
  by (simp add: PinnedDialogPos_def uint_word_ariths unsigned_of_int take_bit_int_eq_self)

lemma uint_FixedOnTopDialogPos:
  "0 \<le> i \<Longrightarrow> i < 2 ^ 31 \<Longrightarrow> uint (FixedOnTopDialogPos i) = 0xFFFFFFFFFFFF000F - i"
  by (simp add: FixedOnTopDialogPos_def uint_word_ariths unsigned_of_int take_bit_int_eq_self)

lemma uint_shifted_or:
  fixes date s :: int
  assumes "0 \<le> date" "date < 2 ^ 31" "0 \<le> s" "s < 2 ^ 32"
  shows "uint (push_bit 32 (word_of_int date) OR word_of_int s :: 64 word) = date * 2 ^ 32 + s"
proof -
  have "(push_bit 32 (word_of_int date) :: 64 word) AND word_of_int s = 0"
  proof (rule bit_word_eqI)
    fix n assume "n < LENGTH(64)"
    have "s = take_bit 32 s" using assms by (simp add: take_bit_int_eq_self)
    then have "\<not> bit s n" if "32 \<le> n" using that by (metis bit_take_bit_iff not_le)
    then show "bit ((push_bit 32 (word_of_int date) :: 64 word) AND word_of_int s) n = bit (0 :: 64 word) n"
      by (auto simp: bit_and_iff bit_push_bit_iff bit_word_of_int_iff)
  qed
  then have "(push_bit 32 (word_of_int date) :: 64 word) OR word_of_int s
      = push_bit 32 (word_of_int date) + word_of_int s"
    using word_plus_and_or [of "push_bit 32 (word_of_int date) :: 64 word" "word_of_int s"] by simp
  also have "\<dots> = word_of_int (date * 2 ^ 32 + s)"
    by (simp add: push_bit_eq_mult)
  finally have eq: "push_bit 32 (word_of_int date) OR word_of_int s
      = (word_of_int (date * 2 ^ 32 + s) :: 64 word)" .
  have "take_bit LENGTH(64) (date * 2 ^ 32 + s) = date * 2 ^ 32 + s"
    by (rule take_bit_int_eq_self) (use assms in simp_all)
  then show ?thesis unfolding eq by (simp only: uint_word_of_int_eq)
qed

lemma uint_DialogPosFromDate:
  assumes "0 \<le> date" "date < 2 ^ 31" "0 \<le> shift" "shift < 2 ^ 31 - 1"
  shows "uint (fst (DialogPosFromDate shift date))
    = (if date = 0 then 0 else date * 2 ^ 32 + (shift + 1))"
proof (cases "date = 0")
  case False
  then have "fst (DialogPosFromDate shift date)
      = (push_bit 32 (word_of_int date) OR word_of_int (shift + 1) :: 64 word)"
    by (simp add: DialogPosFromDate_def)
  then show ?thesis using uint_shifted_or [of date "shift + 1"] assms False by simp
qed (simp add: DialogPosFromDate_def)

text \<open>C35: The order of sort positions: chats fixed on top, then pinned chats in the order of
  their indices, then the others, newest first; of two positions made for the same date the later
  one is greater, so an entry that is updated goes before the others of its second. This holds
  for dates of 31 bits and as long as the counter does not overflow its 32-bit integer.\<close>

theorem sort_positions_order:
  assumes "0 \<le> date" "date < 2 ^ 31" "0 \<le> shift" "shift < 2 ^ 31 - 2"
    and "0 \<le> date'" "date' < 2 ^ 31" "0 \<le> shift'" "shift' < 2 ^ 31 - 2"
    and "0 \<le> i" "i < j" "j < 2 ^ 31" "0 \<le> x" "x < 2 ^ 31"
  shows "FixedOnTopDialogPos x > PinnedDialogPos i \<and> PinnedDialogPos i > PinnedDialogPos j
    \<and> PinnedDialogPos j > fst (DialogPosFromDate shift date)
    \<and> (date < date' \<longrightarrow> fst (DialogPosFromDate shift date) < fst (DialogPosFromDate shift' date'))
    \<and> (0 < date \<longrightarrow> fst (DialogPosFromDate shift date)
        < fst (DialogPosFromDate (snd (DialogPosFromDate shift date)) date))"
proof -
  have P: "uint (PinnedDialogPos i) = 0xFFFFFFFF000000FF - i" "uint (PinnedDialogPos j) = 0xFFFFFFFF000000FF - j"
    "uint (FixedOnTopDialogPos x) = 0xFFFFFFFFFFFF000F - x"
    using assms by (simp_all add: uint_PinnedDialogPos uint_FixedOnTopDialogPos)
  have D: "uint (fst (DialogPosFromDate shift date)) = (if date = 0 then 0 else date * 2 ^ 32 + (shift + 1))"
    "uint (fst (DialogPosFromDate shift' date')) = (if date' = 0 then 0 else date' * 2 ^ 32 + (shift' + 1))"
    using assms by (simp_all add: uint_DialogPosFromDate)
  have next_: "uint (fst (DialogPosFromDate (snd (DialogPosFromDate shift date)) date))
      = date * 2 ^ 32 + (shift + 2)" if "0 < date"
  proof -
    have "snd (DialogPosFromDate shift date) = shift + 1" using that by (simp add: DialogPosFromDate_def)
    then show ?thesis using that assms uint_DialogPosFromDate [of date "shift + 1"] by simp
  qed
  show ?thesis
    unfolding word_less_def P D using assms next_ by auto
qed

theorem sort_positions_order_witness:
  "PinnedDialogPos 1 > PinnedDialogPos 2
    \<and> fst (DialogPosFromDate 7 1700000000) < fst (DialogPosFromDate 8 1700000000)"
  using sort_positions_order [of 1700000000 7 0 0 1 2 0] by (simp add: DialogPosFromDate_def)

lemma sorted_distinct_neq:
  "sorted_wrt R xs \<Longrightarrow> distinct xs \<Longrightarrow> sorted_wrt (\<lambda>a b. R a b \<and> a \<noteq> b) xs"
  by (induction xs) auto

text \<open>C34: The pinned chats of a filter are the first rows of its list, in the order of the
  list of pinned chats: of a list of chats that is sorted by the positions the entries compute
  from the indices their pinned list cached, when the dates of the other entries are below the
  range of pinned positions.\<close>

theorem pinned_chats_on_top:
  assumes wf: "dl_wf l" and mode: "dl_sortMode l = SortDate" and sorted: "dl_sorted e l"
    and key: "\<And>k. env_sortKey e k = sortKeyInChatList f (es_entry w k)" and f: "f \<noteq> 0"
    and pins: "pinned_wf f (pl, w)" and small: "length (pl_data pl) < 2 ^ 31"
    and present: "\<And>k. k \<in> set (pl_data pl) \<Longrightarrow> contains_key l k"
    and dates: "\<And>k. contains_key l k \<Longrightarrow> uint (en_sortKeyByDate (es_entry w k)) < 2 ^ 63"
  shows "take (length (pl_data pl)) (dl_rows l) = pl_data pl"
proof -
  let ?ks = "pl_data pl"
  have rows: "contains_key l k \<longleftrightarrow> k \<in> set (dl_rows l)" for k
    using wf_key_None [OF wf] by (simp add: contains_key_def)
  have index: "lookupPinnedIndex f (es_entry w k) = (if k \<in> set ?ks then int (find_key k ?ks) + 1 else 0)" for k
    using pins f unfolding pinned_wf_def pl_cached_def pinned_index_def by (simp add: lookupPinnedIndex_def)
  have pos: "uint (env_sortKey e k) = 0xFFFFFFFF000000FF - (int (find_key k ?ks) + 1)" if "k \<in> set ?ks" for k
  proof -
    have "find_key k ?ks < length ?ks" using that find_key_less by fast
    then show ?thesis
      using that f small uint_PinnedDialogPos [of "int (find_key k ?ks) + 1"]
      by (simp add: key sortKeyInChatList_def computeSortPosition_def index)
  qed
  have other: "uint (env_sortKey e k) < 2 ^ 63" if "k \<in> set (dl_rows l)" "k \<notin> set ?ks" for k
    using that f dates [of k] rows by (simp add: key sortKeyInChatList_def computeSortPosition_def index)
  have s: "sorted_wrt (\<lambda>a b. uint (env_sortKey e a) \<ge> uint (env_sortKey e b) \<and> a \<noteq> b) (dl_rows l)"
    using sorted mode rows_distinct [OF wf]
    by (intro sorted_distinct_neq) (simp_all add: dl_sorted_def word_le_def)
  have big: "2 ^ 63 \<le> uint (env_sortKey e k)" if "k \<in> set ?ks" for k
  proof -
    have "find_key k ?ks < length ?ks" using that find_key_less by fast
    then show ?thesis using pos [OF that] small by simp
  qed
  let ?P = "\<lambda>k. k \<in> set ?ks"
  have "sorted_wrt (\<lambda>a b. ?P b \<longrightarrow> ?P a) (dl_rows l)"
    by (rule sorted_wrt_mono_rel [OF _ s]) (use big other in force)
  then have "takeWhile ?P (dl_rows l) = filter ?P (dl_rows l)" by (rule takeWhile_sorted_filter)
  moreover have "filter ?P (dl_rows l) = ?ks"
  proof (rule key_sorted_eqI [where key = "\<lambda>k. find_key k ?ks"])
    have "sorted_wrt (\<lambda>a b. uint (env_sortKey e a) \<ge> uint (env_sortKey e b) \<and> a \<noteq> b) (filter ?P (dl_rows l))"
      using s by (rule sorted_wrt_filter)
    then show "sorted_wrt (\<lambda>a b. find_key a ?ks < find_key b ?ks) (filter ?P (dl_rows l))"
    proof (rule sorted_wrt_mono_rel [rotated])
      fix a b assume ab: "a \<in> set (filter ?P (dl_rows l))" "b \<in> set (filter ?P (dl_rows l))"
        "uint (env_sortKey e a) \<ge> uint (env_sortKey e b) \<and> a \<noteq> b"
      then have "find_key a ?ks \<noteq> find_key b ?ks" using pins.nth_find_key by (metis mem_Collect_eq set_filter)
      then show "find_key a ?ks < find_key b ?ks" using ab pos [of a] pos [of b] by simp
    qed
    have "distinct ?ks" using pins by (simp add: pinned_wf_def)
    then have "find_key (?ks ! j) ?ks = j" if "j < length ?ks" for j
      using that by (intro pins.find_key_eq_nth) auto
    then show "sorted_wrt (\<lambda>a b. find_key a ?ks < find_key b ?ks) ?ks"
      by (auto simp: sorted_wrt_iff_nth_less)
    show "set (filter ?P (dl_rows l)) = set ?ks" using present rows by auto
  qed
  ultimately have "take (length ?ks) (dl_rows l) = takeWhile ?P (dl_rows l)"
    by (metis takeWhile_eq_take)
  then show ?thesis using \<open>takeWhile ?P _ = _\<close> \<open>filter ?P _ = _\<close> by simp
qed

definition example_keys :: "(nat, unit, nat) dialogs_env" where
  "example_keys = \<lparr>env_height = (\<lambda>_ k. int k),
    env_sortKey = (\<lambda>k. sortKeyInChatList 1 (es_entry example_entries k)), env_nameKey = (\<lambda>k. k)\<rparr>"

definition example_pinned_rows :: "(nat, unit) dialogs_list" where
  "example_pinned_rows = \<lparr>dl_sortMode = SortDate, dl_narrowRatio = (), dl_rows = [5, 7],
    dl_rowByKey = [5 \<mapsto> \<lparr>row_top = 0, row_height = 10, row_index = 0\<rparr>,
      7 \<mapsto> \<lparr>row_top = 10, row_height = 12, row_index = 1\<rparr>]\<rparr>"

theorem pinned_chats_on_top_witness: "take 1 (dl_rows example_pinned_rows) = [5]"
proof -
  have "take (length (pl_data example_pins)) (dl_rows example_pinned_rows) = pl_data example_pins"
  proof (rule pinned_chats_on_top [where e = example_keys and w = example_entries and f = 1])
    show "dl_wf example_pinned_rows" by (auto simp: example_pinned_rows_def dl_wf_def)
    show "dl_sorted example_keys example_pinned_rows"
      by (simp add: dl_sorted_def example_pinned_rows_def example_keys_def sortKeyInChatList_def
          computeSortPosition_def lookupPinnedIndex_def example_entries_def)
    show "pinned_wf 1 (example_pins, example_entries)" by (rule example_pins_wf)
  qed (auto simp: example_pinned_rows_def example_keys_def example_pins_def example_entries_def
      contains_key_def split: if_splits)
  then show ?thesis by (simp add: example_pins_def)
qed

end
