(* ===== verification/DialogsIndexed.thy ===== *)
theory DialogsIndexed imports DialogsList "HOL-Library.List_Lexorder" begin

text \<open>
  The list of chats with its index by first letters: \<open>Dialogs::IndexedList\<close> of
  \<open>dialogs/dialogs_indexed_list.{h,cpp}\<close>, and the part of \<open>PeerData::fillNames\<close>
  (\<open>data/data_peer.cpp\<close>) that derives the first letters of a chat from the words of its
  name.

  The index keeps one \<open>Dialogs::List\<close> per letter. What the entries know of their names,
  \<open>chatListFirstLetters\<close> and \<open>chatListNameWords\<close>, is an argument. The links an
  entry keeps to its rows (\<open>RowsByLetter\<close>) are the letters under which it has a row, the
  row being known by the key.
\<close>

section \<open>State and operations\<close>

record ('k, 'c, 'r) indexed_list =
  il_sortMode :: sort_mode
  il_list :: "('k, 'r) dialogs_list"
  il_index :: "('c \<times> ('k, 'r) dialogs_list) list"

definition IndexedList :: "sort_mode \<Rightarrow> ('k, 'c, 'r::zero) indexed_list" where
  "IndexedList mode = \<lparr>il_sortMode = mode, il_list = List mode 0, il_index = []\<rparr>"

text \<open>Both ways to reach the list of a letter: made when it is missing, or only if it is
  there.\<close>

definition emplace_letter ::
  "sort_mode \<Rightarrow> 'c::linorder \<Rightarrow> (('k, 'r::zero) dialogs_list \<Rightarrow> ('k, 'r) dialogs_list)
    \<Rightarrow> ('c \<times> ('k, 'r) dialogs_list) list \<Rightarrow> ('c \<times> ('k, 'r) dialogs_list) list" where
  "emplace_letter mode ch f idx =
    (let idx' = flat_emplace ch (List mode 0) idx
     in flat_assign ch (f (the (map_of idx' ch))) idx')"

definition if_letter ::
  "'c \<Rightarrow> (('k, 'r) dialogs_list \<Rightarrow> ('k, 'r) dialogs_list)
    \<Rightarrow> ('c \<times> ('k, 'r) dialogs_list) list \<Rightarrow> ('c \<times> ('k, 'r) dialogs_list) list" where
  "if_letter ch f idx = (case map_of idx ch of None \<Rightarrow> idx | Some l \<Rightarrow> flat_assign ch (f l) idx)"

definition il_addToEnd ::
  "('k, 'r, 'n) dialogs_env \<Rightarrow> ('k \<Rightarrow> 'c list) \<Rightarrow> 'k \<Rightarrow> ('k, 'c::linorder, 'r::zero) indexed_list
    \<Rightarrow> ('k, 'c, 'r) indexed_list \<times> 'c list" where
  "il_addToEnd e letters k il = (case getRow (il_list il) k of Some _ \<Rightarrow> (il, [])
    | None \<Rightarrow>
        (il\<lparr>il_list := addToEnd e k (il_list il),
            il_index := fold (\<lambda>ch. emplace_letter (il_sortMode il) ch (addToEnd e k)) (letters k) (il_index il)\<rparr>,
         fold flat_insert (letters k) []))"

definition il_addByName ::
  "('k, 'r, 'n::linorder) dialogs_env \<Rightarrow> ('k \<Rightarrow> 'c list) \<Rightarrow> 'k \<Rightarrow> ('k, 'c::linorder, 'r::zero) indexed_list
    \<Rightarrow> ('k, 'c, 'r) indexed_list" where
  "il_addByName e letters k il = (case getRow (il_list il) k of Some _ \<Rightarrow> il
    | None \<Rightarrow>
        il\<lparr>il_list := addByName e k (il_list il),
           il_index := fold (\<lambda>ch. emplace_letter (il_sortMode il) ch (addByName e k)) (letters k) (il_index il)\<rparr>)"

definition il_adjustByDate ::
  "('k, 'r, 'n) dialogs_env \<Rightarrow> 'k \<times> 'c list \<Rightarrow> ('k, 'c, 'r) indexed_list \<Rightarrow> ('k, 'c, 'r) indexed_list" where
  "il_adjustByDate e links il =
    il\<lparr>il_list := adjustByDate e (fst links) (il_list il),
       il_index := fold (\<lambda>ch. if_letter ch (adjustByDate e (fst links))) (snd links) (il_index il)\<rparr>"

definition il_updateHeights ::
  "('k, 'r, 'n) dialogs_env \<Rightarrow> 'r \<Rightarrow> ('k, 'c, 'r) indexed_list \<Rightarrow> ('k, 'c, 'r) indexed_list \<times> bool" where
  "il_updateHeights e ratio il =
    (let (l, changed) = updateHeights e ratio (il_list il) in (il\<lparr>il_list := l\<rparr>, changed))"

definition il_updateHeight ::
  "('k, 'r, 'n) dialogs_env \<Rightarrow> 'k \<Rightarrow> 'r \<Rightarrow> ('k, 'c, 'r) indexed_list \<Rightarrow> ('k, 'c, 'r) indexed_list \<times> bool" where
  "il_updateHeight e k ratio il =
    (let (l, changed) = updateHeight e k ratio (il_list il) in (il\<lparr>il_list := l\<rparr>, changed))"

definition il_moveToTop ::
  "('k \<Rightarrow> 'c list) \<Rightarrow> 'k \<Rightarrow> ('k, 'c, 'r) indexed_list \<Rightarrow> ('k, 'c, 'r) indexed_list" where
  "il_moveToTop letters k il =
    (let (l, moved) = moveToTop k (il_list il); il' = il\<lparr>il_list := l\<rparr>
     in if moved
        then il'\<lparr>il_index := fold (\<lambda>ch. if_letter ch (\<lambda>l. fst (moveToTop k l))) (letters k) (il_index il)\<rparr>
        else il')"

text \<open>The two chats \<open>movePinned\<close> asks the session to swap. It asserts that a row is there
  and, upwards, that it is not the first; downwards it looks at the row after it, which the last
  row does not have.\<close>

definition movePinned :: "'k \<Rightarrow> int \<Rightarrow> ('k, 'c, 'r) indexed_list \<Rightarrow> ('k \<times> 'k) option" where
  "movePinned k deltaSign il =
    (let rows = dl_rows (il_list il); i = cfind (il_list il) (Some k)
     in if i \<ge> length rows then None
        else if deltaSign > 0 then (if i + 1 < length rows then Some (k, rows ! (i + 1)) else None)
        else if i = 0 then None else Some (k, rows ! (i - 1)))"

fun split_letters :: "'c list \<Rightarrow> 'c::linorder list \<Rightarrow> 'c list \<Rightarrow> 'c list \<Rightarrow> 'c list \<times> 'c list \<times> 'c list" where
  "split_letters [] toRemove toAdd kept = (toRemove, toAdd, kept)"
| "split_letters (ch # chs) toRemove toAdd kept =
    (if ch \<notin> set toRemove then split_letters chs toRemove (flat_insert ch toAdd) kept
     else split_letters chs (flat_remove ch toRemove) toAdd (kept @ [ch]))"

definition il_adjustByName ::
  "('k, 'r, 'n::linorder) dialogs_env \<Rightarrow> ('k \<Rightarrow> 'c list) \<Rightarrow> 'k \<Rightarrow> 'c::linorder list
    \<Rightarrow> ('k, 'c, 'r::zero) indexed_list \<Rightarrow> ('k, 'c, 'r) indexed_list" where
  "il_adjustByName e letters k oldLetters il =
    (let (l, mainRow) = adjustByName e k (il_list il); il' = il\<lparr>il_list := l\<rparr>
     in if \<not> mainRow then il'
        else
          let (toRemove, toAdd, kept) = split_letters (letters k) oldLetters [] [];
              idx1 = fold (\<lambda>ch. if_letter ch (\<lambda>l. fst (adjustByName e k l))) kept (il_index il);
              idx2 = fold (\<lambda>ch. if_letter ch (\<lambda>l. fst (list_remove k l))) toRemove idx1;
              idx3 = fold (\<lambda>ch. emplace_letter (il_sortMode il) ch (addByName e k)) toAdd idx2
          in il'\<lparr>il_index := idx3\<rparr>)"

text \<open>\<open>adjustNames\<close> also tells the chat which of its links to this list to drop and to add
  (in a list sorted by date).\<close>

definition il_adjustNames ::
  "('k, 'r, 'n) dialogs_env \<Rightarrow> ('k \<Rightarrow> 'c list) \<Rightarrow> 'k \<Rightarrow> 'c::linorder list
    \<Rightarrow> ('k, 'c, 'r::zero) indexed_list \<times> 'c list \<Rightarrow> ('k, 'c, 'r) indexed_list \<times> 'c list" where
  "il_adjustNames e letters k oldLetters s = (case s of (il, links) \<Rightarrow>
    case getRow (il_list il) k of None \<Rightarrow> (il, links)
    | Some _ \<Rightarrow>
        let (toRemove, toAdd, kept) = split_letters (letters k) oldLetters [] [];
            idx1 = fold (\<lambda>ch. if_letter ch (\<lambda>l. fst (list_remove k l))) toRemove (il_index il);
            idx2 = fold (\<lambda>ch. emplace_letter (il_sortMode il) ch (addToEnd e k)) toAdd idx1;
            links' = (if il_sortMode il = SortDate
              then fold flat_insert toAdd (fold flat_remove toRemove links) else links)
        in (il\<lparr>il_index := idx2\<rparr>, links'))"

definition il_remove ::
  "('k \<Rightarrow> 'c list) \<Rightarrow> 'k \<Rightarrow> ('k, 'c, 'r) indexed_list \<Rightarrow> ('k, 'c, 'r) indexed_list" where
  "il_remove letters k il =
    (let (l, removed) = list_remove k (il_list il); il' = il\<lparr>il_list := l\<rparr>
     in if removed
        then il'\<lparr>il_index := fold (\<lambda>ch. if_letter ch (\<lambda>l. fst (list_remove k l))) (letters k) (il_index il)\<rparr>
        else il')"

definition il_clear :: "('k, 'c, 'r) indexed_list \<Rightarrow> ('k, 'c, 'r) indexed_list" where
  "il_clear il = il\<lparr>il_list := list_clear (il_list il), il_index := []\<rparr>"

section \<open>Search\<close>

definition filtered_letter :: "'c \<Rightarrow> ('k, 'c, 'r) indexed_list \<Rightarrow> ('k, 'r) dialogs_list option" where
  "filtered_letter ch il = map_of (il_index il) ch"

fun minimal_list ::
  "('k, 'c, 'r) indexed_list \<Rightarrow> 'c list list \<Rightarrow> ('k, 'r) dialogs_list option \<Rightarrow> ('k, 'r) dialogs_list option" where
  "minimal_list il [] result = result"
| "minimal_list il (word # words) result =
    (if word = [] then minimal_list il words result
     else case filtered_letter (hd word) il of
         None \<Rightarrow> None
       | Some found \<Rightarrow>
           if dl_rows found = [] then None
           else if (case result of None \<Rightarrow> True | Some r \<Rightarrow> list_size r > list_size found)
           then minimal_list il words (Some found)
           else minimal_list il words result)"

definition startsWith :: "'c list \<Rightarrow> 'c list \<Rightarrow> bool" where
  "startsWith name word \<longleftrightarrow> take (length word) name = word"

definition filtered ::
  "('k \<Rightarrow> 'c list list) \<Rightarrow> 'c list list \<Rightarrow> ('k, 'c, 'r) indexed_list \<Rightarrow> 'k list" where
  "filtered nameWords words il =
    (case (if dl_rows (il_list il) = [] then None else minimal_list il words None) of
       None \<Rightarrow> []
     | Some minimal \<Rightarrow>
         if dl_rows minimal = [] then []
         else filter (\<lambda>k. list_all (\<lambda>word. list_ex (\<lambda>name. startsWith name word) (nameWords k)) words)
           (dl_rows minimal))"

text \<open>The end of \<open>fillNames\<close>: the words to search by, and their first letters.\<close>

definition fill_words :: "'c::linorder list list \<Rightarrow> 'c list list \<times> 'c list" where
  "fill_words namesList =
    (fold flat_insert namesList [], fold flat_insert (List.map hd namesList) [])"

section \<open>The lists of the letters\<close>

definition letter_of ::
  "sort_mode \<Rightarrow> ('c \<times> ('k, 'r::zero) dialogs_list) list \<Rightarrow> 'c \<Rightarrow> ('k, 'r) dialogs_list" where
  "letter_of mode idx c = (case map_of idx c of Some l \<Rightarrow> l | None \<Rightarrow> List mode 0)"

abbreviation letter_list :: "('k, 'c, 'r::zero) indexed_list \<Rightarrow> 'c \<Rightarrow> ('k, 'r) dialogs_list" where
  "letter_list il \<equiv> letter_of (il_sortMode il) (il_index il)"

lemma map_of_emplace_letter [flat_simps]:
  "keys_sorted idx \<Longrightarrow> map_of (emplace_letter mode ch f idx)
    = (map_of idx)(ch \<mapsto> f (case map_of idx ch of Some l \<Rightarrow> l | None \<Rightarrow> List mode 0))"
  by (auto simp: emplace_letter_def Let_def map_of_flat_assign map_of_flat_emplace fun_eq_iff
      split: option.splits)

lemma keys_sorted_emplace_letter [simp]: "keys_sorted idx \<Longrightarrow> keys_sorted (emplace_letter mode ch f idx)"
  by (simp add: emplace_letter_def Let_def)

lemma map_of_if_letter [flat_simps]:
  "map_of (if_letter ch f idx) = (map_of idx)(ch := map_option f (map_of idx ch))"
  by (auto simp: if_letter_def map_of_flat_assign fun_eq_iff split: option.splits)

lemma fst_if_letter [simp]: "List.map fst (if_letter ch f idx) = List.map fst idx"
  by (simp add: if_letter_def split: option.splits)

lemma fold_emplace_letter:
  "keys_sorted idx \<Longrightarrow> distinct chs \<Longrightarrow>
    keys_sorted (fold (\<lambda>ch. emplace_letter mode ch f) chs idx)
    \<and> map_of (fold (\<lambda>ch. emplace_letter mode ch f) chs idx) c
      = (if c \<in> set chs then Some (f (case map_of idx c of Some l \<Rightarrow> l | None \<Rightarrow> List mode 0))
         else map_of idx c)"
  by (induction chs arbitrary: idx) (auto simp: flat_simps)

lemma fold_if_letter:
  "distinct chs \<Longrightarrow>
    List.map fst (fold (\<lambda>ch. if_letter ch f) chs idx) = List.map fst idx
    \<and> map_of (fold (\<lambda>ch. if_letter ch f) chs idx) c
      = (if c \<in> set chs then map_option f (map_of idx c) else map_of idx c)"
  by (induction chs arbitrary: idx) (auto simp: flat_simps)

lemma split_letters:
  assumes "split_letters chs R A K = (R', A', K')" "distinct chs" "ssorted R" "ssorted A"
    "distinct K" "set K \<inter> set chs = {}"
  shows "set R' = set R - set chs \<and> set A' = set A \<union> (set chs - set R)
    \<and> set K' = set K \<union> (set chs \<inter> set R) \<and> distinct R' \<and> distinct A' \<and> distinct K'"
  using assms
proof (induction chs R A K rule: split_letters.induct)
  case (2 ch chs R A K)
  show ?case
  proof (cases "ch \<in> set R")
    case False
    then show ?thesis using 2(1) 2(3-) by (auto simp: flat_simps)
  next
    case True
    then show ?thesis using 2(2) 2(3-) by (auto simp: flat_simps)
  qed
qed simp

text \<open>The invariant: the lists of the letters are laid out and sorted like the main list, and
  hold exactly the chats of the main list with that letter.\<close>

definition il_wf :: "('k \<Rightarrow> 'c list) \<Rightarrow> ('k, 'c::linorder, 'r::zero) indexed_list \<Rightarrow> bool" where
  "il_wf letters il \<longleftrightarrow> (\<forall>k. ssorted (letters k)) \<and> keys_sorted (il_index il)
    \<and> dl_wf (il_list il) \<and> dl_sortMode (il_list il) = il_sortMode il
    \<and> (\<forall>c. dl_wf (letter_list il c) \<and> dl_sortMode (letter_list il c) = il_sortMode il
        \<and> set (dl_rows (letter_list il c)) = {k \<in> set (dl_rows (il_list il)). c \<in> set (letters k)})"

definition il_sorted ::
  "('k, 'r, 'n::linorder) dialogs_env \<Rightarrow> ('k, 'c, 'r::zero) indexed_list \<Rightarrow> bool" where
  "il_sorted e il \<longleftrightarrow> dl_sorted e (il_list il) \<and> (\<forall>c. dl_sorted e (letter_list il c))"

text \<open>How an operation acts on the lists, seen through \<open>letter_of\<close>.\<close>

lemma letter_of_emplace:
  "keys_sorted idx \<Longrightarrow> distinct chs \<Longrightarrow>
    letter_of mode (fold (\<lambda>ch. emplace_letter mode ch f) chs idx) c
      = (if c \<in> set chs then f (letter_of mode idx c) else letter_of mode idx c)"
  using fold_emplace_letter [of idx chs mode f c] by (simp add: letter_of_def)

lemma letter_of_if:
  "distinct chs \<Longrightarrow> (map_of idx c = None \<Longrightarrow> c \<in> set chs \<Longrightarrow> f (List mode 0) = List mode 0) \<Longrightarrow>
    letter_of mode (fold (\<lambda>ch. if_letter ch f) chs idx) c
      = (if c \<in> set chs then f (letter_of mode idx c) else letter_of mode idx c)"
  using fold_if_letter [of chs f idx c] by (simp add: letter_of_def split: option.splits)

lemma keys_sorted_folds [simp]:
  "keys_sorted idx \<Longrightarrow> distinct chs \<Longrightarrow> keys_sorted (fold (\<lambda>ch. emplace_letter mode ch f) chs idx)"
  "distinct chs \<Longrightarrow> keys_sorted (fold (\<lambda>ch. if_letter ch f) chs idx) \<longleftrightarrow> keys_sorted idx"
  using fold_emplace_letter fold_if_letter by (fast, metis)

lemma empty_ops [simp]:
  "fst (list_remove k (List mode 0)) = List mode 0" "fst (moveToTop k (List mode 0)) = List mode 0"
  "fst (adjustByName e k (List mode 0)) = List mode 0"
  by (simp_all add: list_remove_def moveToTop_def adjustByName_def getRow_def List_def)

lemma List_sorted [simp]: "dl_sorted e (List mode 0)" "dl_rows (List mode z) = []" "dl_sortMode (List mode z) = mode"
  by (simp_all add: dl_sorted_def List_def split: sort_mode.splits)

section \<open>Every operation keeps the index\<close>

lemma il_wfD:
  assumes "il_wf letters il"
  shows "ssorted (letters k)" "distinct (letters k)" "keys_sorted (il_index il)" "dl_wf (il_list il)"
    "dl_sortMode (il_list il) = il_sortMode il" "dl_wf (letter_list il c)"
    "dl_sortMode (letter_list il c) = il_sortMode il"
    "set (dl_rows (letter_list il c)) = {k \<in> set (dl_rows (il_list il)). c \<in> set (letters k)}"
  using assms unfolding il_wf_def by (simp_all add: ssorted_distinct)

lemma il_wfI:
  assumes "\<And>k. ssorted (letters k)" "keys_sorted (il_index il)" "dl_wf (il_list il)"
    "dl_sortMode (il_list il) = il_sortMode il"
    "\<And>c. dl_wf (letter_list il c) \<and> dl_sortMode (letter_list il c) = il_sortMode il
      \<and> set (dl_rows (letter_list il c)) = {k \<in> set (dl_rows (il_list il)). c \<in> set (letters k)}"
  shows "il_wf letters il"
  using assms by (simp add: il_wf_def)

lemma getRow_None: "dl_wf l \<Longrightarrow> getRow l k = None \<longleftrightarrow> k \<notin> set (dl_rows l)"
  by (simp add: getRow_def wf_key_None)

lemma il_addToEnd_wf:
  assumes wf: "il_wf letters il"
  shows "il_wf letters (fst (il_addToEnd e letters k il))"
    "set (dl_rows (il_list (fst (il_addToEnd e letters k il)))) = insert k (set (dl_rows (il_list il)))"
proof -
  note w = il_wfD [OF wf]
  note a = addToEnd_spec [OF w(4), where e = e and k = k]
  have "il_wf letters (fst (il_addToEnd e letters k il))
    \<and> set (dl_rows (il_list (fst (il_addToEnd e letters k il)))) = insert k (set (dl_rows (il_list il)))"
  proof (cases "k \<in> set (dl_rows (il_list il))")
    case True
    then obtain r where "getRow (il_list il) k = Some r" using getRow_None [OF w(4)] by fastforce
    then show ?thesis using wf True by (auto simp: il_addToEnd_def)
  next
    case False
    then have n: "getRow (il_list il) k = None" using getRow_None [OF w(4)] by blast
    let ?il = "fst (il_addToEnd e letters k il)"
    have L: "letter_list ?il c = (if c \<in> set (letters k) then addToEnd e k (letter_list il c) else letter_list il c)" for c
      using w(2,3) by (simp add: il_addToEnd_def n letter_of_emplace)
    have "il_wf letters ?il"
    proof (rule il_wfI)
      fix c
      note b = addToEnd_spec(1,2,3) [OF w(6) [of c], where e = e and k = k]
      show "dl_wf (letter_list ?il c) \<and> dl_sortMode (letter_list ?il c) = il_sortMode ?il
          \<and> set (dl_rows (letter_list ?il c)) = {x \<in> set (dl_rows (il_list ?il)). c \<in> set (letters x)}"
        using b w(6-8) [of c] a(2) by (auto simp: L) (auto simp: il_addToEnd_def n)
    qed (use w a n in \<open>auto simp: il_addToEnd_def\<close>)
    then show ?thesis using a(2) by (simp add: il_addToEnd_def n)
  qed
  then show "il_wf letters (fst (il_addToEnd e letters k il))"
    "set (dl_rows (il_list (fst (il_addToEnd e letters k il)))) = insert k (set (dl_rows (il_list il)))"
    by simp_all
qed

lemma il_addByName_wf:
  assumes wf: "il_wf letters il"
  shows "il_wf letters (il_addByName e letters k il)"
    "set (dl_rows (il_list (il_addByName e letters k il))) = insert k (set (dl_rows (il_list il)))"
proof -
  note w = il_wfD [OF wf]
  note a = addByName_spec [OF w(4), where e = e and k = k]
  have "il_wf letters (il_addByName e letters k il)
    \<and> set (dl_rows (il_list (il_addByName e letters k il))) = insert k (set (dl_rows (il_list il)))"
  proof (cases "k \<in> set (dl_rows (il_list il))")
    case True
    then obtain r where "getRow (il_list il) k = Some r" using getRow_None [OF w(4)] by fastforce
    then show ?thesis using wf True by (auto simp: il_addByName_def)
  next
    case False
    then have n: "getRow (il_list il) k = None" using getRow_None [OF w(4)] by blast
    let ?il = "il_addByName e letters k il"
    have L: "letter_list ?il c = (if c \<in> set (letters k) then addByName e k (letter_list il c) else letter_list il c)" for c
      using w(2,3) by (simp add: il_addByName_def n letter_of_emplace)
    have "il_wf letters ?il"
    proof (rule il_wfI)
      fix c
      note b = addByName_spec(1,2,3) [OF w(6) [of c], where e = e and k = k]
      show "dl_wf (letter_list ?il c) \<and> dl_sortMode (letter_list ?il c) = il_sortMode ?il
          \<and> set (dl_rows (letter_list ?il c)) = {x \<in> set (dl_rows (il_list ?il)). c \<in> set (letters x)}"
        using b w(6-8) [of c] a(2) by (auto simp: L) (auto simp: il_addByName_def n)
    qed (use w a n in \<open>auto simp: il_addByName_def\<close>)
    then show ?thesis using a(2) by (simp add: il_addByName_def n)
  qed
  then show "il_wf letters (il_addByName e letters k il)"
    "set (dl_rows (il_list (il_addByName e letters k il))) = insert k (set (dl_rows (il_list il)))"
    by simp_all
qed

lemma set_remove1_distinct: "distinct xs \<Longrightarrow> set (remove1 k xs) = set xs - {k}"
  by simp

lemma il_remove_wf:
  assumes wf: "il_wf letters il"
  shows "il_wf letters (il_remove letters k il)"
    "dl_rows (il_list (il_remove letters k il)) = remove1 k (dl_rows (il_list il))"
proof -
  note w = il_wfD [OF wf]
  note a = list_remove_spec [OF w(4), of k]
  obtain l removed where r: "list_remove k (il_list il) = (l, removed)" by fastforce
  let ?il = "il_remove letters k il"
  have main: "il_list ?il = l" "il_sortMode ?il = il_sortMode il" by (simp_all add: il_remove_def r Let_def)
  have d: "distinct (dl_rows (il_list il))" "distinct (dl_rows (letter_list il c))" for c
    using w(4,6) by (simp_all add: rows_distinct)
  have "il_wf letters ?il"
  proof (cases removed)
    case True
    have L: "letter_of (il_sortMode il) (il_index ?il) c = (if c \<in> set (letters k) then fst (list_remove k (letter_list il c)) else letter_list il c)" for c
      using w(2,3) True by (simp add: il_remove_def r Let_def letter_of_if)
    show ?thesis
    proof (rule il_wfI)
      fix c
      note b = list_remove_spec [OF w(6) [of c], of k]
      have "set (dl_rows (letter_list ?il c)) = {x \<in> set (dl_rows (il_list ?il)). c \<in> set (letters x)}"
        unfolding main using b(4) d w(8) [of c] a(4) by (auto simp: L r)
      then show "dl_wf (letter_list ?il c) \<and> dl_sortMode (letter_list ?il c) = il_sortMode ?il
          \<and> set (dl_rows (letter_list ?il c)) = {x \<in> set (dl_rows (il_list ?il)). c \<in> set (letters x)}"
        using b(1,3) w(6,7) [of c] by (auto simp: L main)
    qed (use w a True in \<open>auto simp: il_remove_def r Let_def\<close>)
  next
    case False
    then have "k \<notin> set (dl_rows (il_list il))" "l = il_list il"
      using a(2) r by (auto simp: list_remove_def Let_def split: option.splits)
    then show ?thesis using wf False by (simp add: il_remove_def r Let_def)
  qed
  then show "il_wf letters (il_remove letters k il)"
    "dl_rows (il_list (il_remove letters k il)) = remove1 k (dl_rows (il_list il))"
    using a(4) by (simp_all add: main r)
qed

lemma il_moveToTop_wf:
  assumes wf: "il_wf letters il"
  shows "il_wf letters (il_moveToTop letters k il)"
proof -
  note w = il_wfD [OF wf]
  note a = moveToTop_spec [OF w(4), of k]
  obtain l moved where r: "moveToTop k (il_list il) = (l, moved)" by fastforce
  let ?il = "il_moveToTop letters k il"
  have main: "il_list ?il = l" "il_sortMode ?il = il_sortMode il" by (simp_all add: il_moveToTop_def r Let_def)
  have l: "dl_wf l" "dl_sortMode l = il_sortMode il" "set (dl_rows l) = set (dl_rows (il_list il))"
    using a rows_distinct [OF w(4)] w(5) by (auto simp: r same_heights_def split: if_splits)
  show ?thesis
  proof (rule il_wfI)
    fix c
    note b = moveToTop_spec [OF w(6) [of c], of k]
    have L: "letter_of (il_sortMode il) (il_index ?il) c = (if moved \<and> c \<in> set (letters k) then fst (moveToTop k (letter_list il c)) else letter_list il c)"
      using w(2,3) by (simp add: il_moveToTop_def r Let_def letter_of_if)
    have "set (dl_rows (fst (moveToTop k (letter_list il c)))) = set (dl_rows (letter_list il c))"
      using b(4) rows_distinct [OF w(6) [of c]] by auto
    then show "dl_wf (letter_list ?il c) \<and> dl_sortMode (letter_list ?il c) = il_sortMode ?il
        \<and> set (dl_rows (letter_list ?il c)) = {x \<in> set (dl_rows (il_list ?il)). c \<in> set (letters x)}"
      using b(1,3) w(6,7,8) [of c] l by (auto simp: L main same_heights_def)
  qed (use w l in \<open>auto simp: il_moveToTop_def r Let_def\<close>)
qed

lemma il_adjustByDate_wf:
  assumes wf: "il_wf letters il" and k: "k \<in> set (dl_rows (il_list il))"
  shows "il_wf letters (il_adjustByDate e (k, letters k) il)"
    "dl_rows (il_list (il_adjustByDate e (k, letters k) il)) = dl_rows (adjustByDate e k (il_list il))"
    "letter_list (il_adjustByDate e (k, letters k) il) c
      = (if c \<in> set (letters k) then adjustByDate e k (letter_list il c) else letter_list il c)"
proof -
  note w = il_wfD [OF wf]
  note a = adjustByDate_spec [OF w(4) k, where e = e]
  let ?il = "il_adjustByDate e (k, letters k) il"
  have main: "il_list ?il = adjustByDate e k (il_list il)" "il_sortMode ?il = il_sortMode il"
    by (simp_all add: il_adjustByDate_def)
  show "dl_rows (il_list ?il) = dl_rows (adjustByDate e k (il_list il))" by (simp add: main)
  have present: "map_of (il_index il) c \<noteq> None" if "c \<in> set (letters k)" for c
  proof
    assume "map_of (il_index il) c = None"
    then have "dl_rows (letter_list il c) = []" by (simp add: letter_of_def)
    then show False using that k w(8) [of c] by auto
  qed
  have L: "letter_of (il_sortMode il) (il_index ?il) c
      = (if c \<in> set (letters k) then adjustByDate e k (letter_list il c) else letter_list il c)" for c
  proof -
    have "letter_of (il_sortMode il) (fold (\<lambda>ch. if_letter ch (adjustByDate e k)) (letters k) (il_index il)) c
      = (if c \<in> set (letters k) then adjustByDate e k (letter_list il c) else letter_list il c)"
      by (rule letter_of_if [OF w(2)]) (use present in blast)
    then show ?thesis by (simp add: il_adjustByDate_def)
  qed
  then show "letter_list ?il c
      = (if c \<in> set (letters k) then adjustByDate e k (letter_list il c) else letter_list il c)"
    by (simp add: main)
  show "il_wf letters ?il"
  proof (rule il_wfI)
    fix c
    have b: "dl_wf (adjustByDate e k (letter_list il c))"
      "dl_sortMode (adjustByDate e k (letter_list il c)) = il_sortMode il"
      "set (dl_rows (adjustByDate e k (letter_list il c))) = set (dl_rows (letter_list il c))"
      if "c \<in> set (letters k)"
    proof -
      have "k \<in> set (dl_rows (letter_list il c))" using that k w(8) [of c] by simp
      then show "dl_wf (adjustByDate e k (letter_list il c))"
        "dl_sortMode (adjustByDate e k (letter_list il c)) = il_sortMode il"
        "set (dl_rows (adjustByDate e k (letter_list il c))) = set (dl_rows (letter_list il c))"
        using adjustByDate_spec(1,2,3) [OF w(6) [of c], where k = k and e = e] w(7) [of c]
        by (simp_all add: same_heights_def)
    qed
    show "dl_wf (letter_list ?il c) \<and> dl_sortMode (letter_list ?il c) = il_sortMode ?il
        \<and> set (dl_rows (letter_list ?il c)) = {x \<in> set (dl_rows (il_list ?il)). c \<in> set (letters x)}"
      using b w(6,7,8) [of c] a(3) by (simp add: L main)
  qed (use w a in \<open>auto simp: il_adjustByDate_def same_heights_def\<close>)
qed

lemma il_adjustByName_wf:
  assumes wf: "il_wf letters il" and s: "ssorted (letters' k)"
    and same: "\<And>j. j \<noteq> k \<Longrightarrow> letters' j = letters j"
  shows "il_wf letters' (il_adjustByName e letters' k (letters k) il)"
    "set (dl_rows (il_list (il_adjustByName e letters' k (letters k) il))) = set (dl_rows (il_list il))"
proof -
  note w = il_wfD [OF wf]
  note a = adjustByName_spec [OF w(4), where e = e and k = k]
  obtain l mainRow where r: "adjustByName e k (il_list il) = (l, mainRow)" by fastforce
  obtain R A K where sp: "split_letters (letters' k) (letters k) [] [] = (R, A, K)" by (metis prod_cases3)
  have S: "set R = set (letters k) - set (letters' k)" "set A = set (letters' k) - set (letters k)"
    "set K = set (letters' k) \<inter> set (letters k)" "distinct R" "distinct A" "distinct K"
    using split_letters [OF sp] w(1) s by (auto simp: ssorted_distinct)
  let ?il = "il_adjustByName e letters' k (letters k) il"
  have main: "il_list ?il = l" "il_sortMode ?il = il_sortMode il"
    by (simp_all add: il_adjustByName_def r sp Let_def)
  have sorted': "ssorted (letters' j)" for j using s same [of j] w(1) [of j] by (cases "j = k") auto
  have l: "dl_wf l" "set (dl_rows l) = set (dl_rows (il_list il))" "dl_sortMode l = il_sortMode il"
    "mainRow \<longleftrightarrow> k \<in> set (dl_rows (il_list il))"
    using a(1-4) w(5) by (simp_all add: r same_heights_def)
  have "il_wf letters' ?il"
  proof (cases mainRow)
    case True
    then have k: "k \<in> set (dl_rows (il_list il))" using l by simp
    have L: "letter_of (il_sortMode il) (il_index ?il) c =
        (if c \<in> set A then addByName e k (letter_list il c)
         else if c \<in> set R then fst (list_remove k (letter_list il c))
         else if c \<in> set K then fst (adjustByName e k (letter_list il c)) else letter_list il c)" for c
      using S w(3) True
      by (auto simp: il_adjustByName_def r sp Let_def letter_of_emplace letter_of_if)
    show ?thesis
    proof (rule il_wfI)
      fix c
      note b = w(6-8) [of c]
      note x = addByName_spec(1-3) [OF b(1), where e = e and k = k]
        list_remove_spec(1,3,4) [OF b(1), of k] adjustByName_spec(1-3) [OF b(1), where e = e and k = k]
      have dis: "set (remove1 k (dl_rows (letter_list il c))) = set (dl_rows (letter_list il c)) - {k}"
        using rows_distinct [OF b(1)] by simp
      have letters': "c \<in> set (letters' j) \<longleftrightarrow> (if j = k then c \<in> set A \<or> c \<in> set K else c \<in> set (letters j))" for j
        using same [of j] S by auto
      show "dl_wf (letter_list ?il c) \<and> dl_sortMode (letter_list ?il c) = il_sortMode ?il
          \<and> set (dl_rows (letter_list ?il c)) = {x \<in> set (dl_rows (il_list ?il)). c \<in> set (letters' x)}"
        unfolding main L letters' l(2)
        using x b k S dis by (auto simp: same_heights_def)
    qed (use sorted' l w S in \<open>simp_all add: main\<close>, simp add: il_adjustByName_def r sp Let_def S w)
  next
    case False
    then have k: "k \<notin> set (dl_rows (il_list il))" using l by simp
    then have "l = il_list il" using r wf_key_None [OF w(4), of k] False
      by (auto simp: adjustByName_def getRow_def split: option.splits)
    then have eq: "?il = il" using False by (simp add: il_adjustByName_def r)
    have "{x \<in> set (dl_rows (il_list il)). c \<in> set (letters' x)}
        = {x \<in> set (dl_rows (il_list il)). c \<in> set (letters x)}" for c
      using k same by (metis (mono_tags, lifting))
    then show ?thesis using wf sorted' unfolding il_wf_def eq by simp
  qed
  then show "il_wf letters' ?il" "set (dl_rows (il_list ?il)) = set (dl_rows (il_list il))"
    using l by (simp_all add: main)
qed

lemma ssorted_fold_insert: "ssorted ys \<Longrightarrow> ssorted (fold flat_insert xs ys) \<and> set (fold flat_insert xs ys) = set xs \<union> set ys"
  by (induction xs arbitrary: ys) auto

lemma ssorted_fold_remove: "ssorted ys \<Longrightarrow> ssorted (fold flat_remove xs ys) \<and> set (fold flat_remove xs ys) = set ys - set xs"
  by (induction xs arbitrary: ys) auto

lemma il_adjustNames_wf:
  assumes wf: "il_wf letters il" and s: "ssorted (letters' k)"
    and others: "\<forall>j. j \<noteq> k \<longrightarrow> letters' j = letters j" and k: "k \<in> set (dl_rows (il_list il))"
  shows "il_wf letters' (fst (il_adjustNames e letters' k (letters k) (il, links)))"
    "il_list (fst (il_adjustNames e letters' k (letters k) (il, links))) = il_list il"
    "letter_list (fst (il_adjustNames e letters' k (letters k) (il, links))) c =
      (if c \<in> set (letters' k) - set (letters k) then addToEnd e k (letter_list il c)
       else if c \<in> set (letters k) - set (letters' k) then fst (list_remove k (letter_list il c))
       else letter_list il c)"
    "il_sortMode il = SortDate \<Longrightarrow> links = letters k \<Longrightarrow>
      snd (il_adjustNames e letters' k (letters k) (il, links)) = letters' k"
proof -
  have same: "letters' j = letters j" if "j \<noteq> k" for j using others that by blast
  note w = il_wfD [OF wf]
  obtain row where row: "getRow (il_list il) k = Some row" using k getRow_None [OF w(4)] by fastforce
  obtain R A K where sp: "split_letters (letters' k) (letters k) [] [] = (R, A, K)" by (metis prod_cases3)
  have S: "set R = set (letters k) - set (letters' k)" "set A = set (letters' k) - set (letters k)"
    "set K = set (letters' k) \<inter> set (letters k)" "distinct R" "distinct A" "distinct K"
    using split_letters [OF sp] w(1) s by (auto simp: ssorted_distinct)
  let ?il = "fst (il_adjustNames e letters' k (letters k) (il, links))"
  show main: "il_list ?il = il_list il" by (simp add: il_adjustNames_def row sp Let_def)
  have mode: "il_sortMode ?il = il_sortMode il" by (simp add: il_adjustNames_def row sp Let_def)
  have sorted': "ssorted (letters' j)" for j using s same [of j] w(1) [of j] by (cases "j = k") auto
  have L: "letter_of (il_sortMode il) (il_index ?il) c =
      (if c \<in> set A then addToEnd e k (letter_list il c)
       else if c \<in> set R then fst (list_remove k (letter_list il c)) else letter_list il c)" for c
    using S w(3) by (auto simp: il_adjustNames_def row sp Let_def letter_of_emplace letter_of_if)
  then show "letter_list ?il c = (if c \<in> set (letters' k) - set (letters k) then addToEnd e k (letter_list il c)
       else if c \<in> set (letters k) - set (letters' k) then fst (list_remove k (letter_list il c))
       else letter_list il c)"
    by (simp add: mode S)
  show "snd (il_adjustNames e letters' k (letters k) (il, links)) = letters' k"
    if "il_sortMode il = SortDate" "links = letters k"
  proof (rule ssorted_eqI)
    show "ssorted (snd (il_adjustNames e letters' k (letters k) (il, links)))"
      "set (snd (il_adjustNames e letters' k (letters k) (il, links))) = set (letters' k)"
      using that S ssorted_fold_remove [OF w(1) [of k], of R] ssorted_fold_insert [of "fold flat_remove R (letters k)" A]
      by (auto simp: il_adjustNames_def row sp)
  qed (rule s)
  show "il_wf letters' ?il"
  proof (rule il_wfI)
    fix c
    note b = w(6-8) [of c]
    note x = addToEnd_spec(1-3) [OF b(1), where e = e and k = k] list_remove_spec(1,3,4) [OF b(1), of k]
    have dis: "set (remove1 k (dl_rows (letter_list il c))) = set (dl_rows (letter_list il c)) - {k}"
      using rows_distinct [OF b(1)] by simp
    have letters': "c \<in> set (letters' j) \<longleftrightarrow> (if j = k then c \<in> set A \<or> c \<in> set K else c \<in> set (letters j))" for j
      using same [of j] S by auto
    show "dl_wf (letter_list ?il c) \<and> dl_sortMode (letter_list ?il c) = il_sortMode ?il
        \<and> set (dl_rows (letter_list ?il c)) = {x \<in> set (dl_rows (il_list ?il)). c \<in> set (letters' x)}"
      unfolding main mode L letters'
      using x b k S dis by auto
  qed (use sorted' w S in \<open>simp_all add: main mode\<close>, simp add: il_adjustNames_def row sp Let_def S w)
qed

section \<open>Sorted together\<close>

lemma dl_sorted_remove1:
  "dl_wf l \<Longrightarrow> dl_sorted e l \<Longrightarrow> dl_sorted e (fst (list_remove k l))"
proof -
  assume a: "dl_wf l" "dl_sorted e l"
  have "sorted_wrt R (remove1 k xs)" if "sorted_wrt R xs" for R xs
    using that by (induction xs) (auto dest: notin_set_remove1)
  then show ?thesis using a list_remove_spec(3,4) [OF a(1), of k] by (simp add: dl_sorted_def split: sort_mode.splits)
qed

lemma dl_sorted_addToEnd:
  "dl_wf l \<Longrightarrow> dl_sortMode l = SortDate \<Longrightarrow> dl_sorted e l \<Longrightarrow> dl_sorted e (addToEnd e k l)"
  using addToEnd_spec(3,6) [of l e k] by (simp add: dl_sorted_def)

lemma il_addToEnd_letters:
  assumes "il_wf letters il" "k \<notin> set (dl_rows (il_list il))"
  shows "il_list (fst (il_addToEnd e letters k il)) = addToEnd e k (il_list il)"
    "letter_list (fst (il_addToEnd e letters k il)) c
      = (if c \<in> set (letters k) then addToEnd e k (letter_list il c) else letter_list il c)"
    "snd (il_addToEnd e letters k il) = letters k"
    "il_sortMode (fst (il_addToEnd e letters k il)) = il_sortMode il"
proof -
  note w = il_wfD [OF assms(1)]
  have n: "getRow (il_list il) k = None" using assms(2) getRow_None [OF w(4)] by blast
  show "il_list (fst (il_addToEnd e letters k il)) = addToEnd e k (il_list il)"
    "letter_list (fst (il_addToEnd e letters k il)) c
      = (if c \<in> set (letters k) then addToEnd e k (letter_list il c) else letter_list il c)"
    "il_sortMode (fst (il_addToEnd e letters k il)) = il_sortMode il"
    using w(2,3) by (simp_all add: il_addToEnd_def n letter_of_emplace)
  show "snd (il_addToEnd e letters k il) = letters k"
    by (rule ssorted_eqI) (use w(1) ssorted_fold_insert [of "[]" "letters k"] in \<open>simp_all add: il_addToEnd_def n\<close>)
qed

section \<open>Searching through the shortest list of a letter\<close>

lemma minimal_list_result:
  "minimal_list il words result = Some l \<Longrightarrow>
    (l = the result \<and> result \<noteq> None) \<or> (\<exists>w\<in>set words. w \<noteq> [] \<and> filtered_letter (hd w) il = Some l)"
  by (induction il words result rule: minimal_list.induct) (auto split: if_splits option.splits)

lemma minimal_list_None:
  assumes "minimal_list il words result = None" "result \<noteq> None \<or> (\<exists>w\<in>set words. w \<noteq> [])"
  shows "\<exists>w\<in>set words. w \<noteq> [] \<and> (filtered_letter (hd w) il = None
    \<or> (\<exists>l. filtered_letter (hd w) il = Some l \<and> dl_rows l = []))"
  using assms
  by (induction il words result rule: minimal_list.induct) (force split: if_splits option.splits)+

text \<open>The reference: all chats of the list, each compared with every word.\<close>

definition matches :: "('k \<Rightarrow> 'c list list) \<Rightarrow> 'c list list \<Rightarrow> 'k \<Rightarrow> bool" where
  "matches nameWords words k \<longleftrightarrow> (\<forall>word\<in>set words. \<exists>name\<in>set (nameWords k). startsWith name word)"

lemma filtered_eq:
  "filtered nameWords words il =
    (case (if dl_rows (il_list il) = [] then None else minimal_list il words None) of
       None \<Rightarrow> [] | Some l \<Rightarrow> filter (matches nameWords words) (dl_rows l))"
  by (auto simp: filtered_def matches_def list_all_iff list_ex_iff split: option.splits intro!: filter_cong)

lemma startsWith_hd: "startsWith name word \<Longrightarrow> word \<noteq> [] \<Longrightarrow> name \<noteq> [] \<and> hd name = hd word"
  by (cases name; cases word) (auto simp: startsWith_def)

lemma matches_letter:
  assumes m: "matches nameWords words k" and w: "word \<in> set words" "word \<noteq> []"
    and letters: "\<And>name. name \<in> set (nameWords k) \<Longrightarrow> name \<noteq> [] \<Longrightarrow> hd name \<in> set (letters k)"
  shows "hd word \<in> set (letters k)"
  using m w letters startsWith_hd unfolding matches_def by metis

lemma filtered_reference:
  assumes wf: "il_wf letters il" and words: "\<exists>w\<in>set words. w \<noteq> []"
    and letters: "\<And>k name. k \<in> set (dl_rows (il_list il)) \<Longrightarrow> name \<in> set (nameWords k) \<Longrightarrow> name \<noteq> []
      \<Longrightarrow> hd name \<in> set (letters k)"
  shows "set (filtered nameWords words il) = {k \<in> set (dl_rows (il_list il)). matches nameWords words k}"
    "distinct (filtered nameWords words il)"
proof -
  note w = il_wfD [OF wf]
  let ?rows = "set (dl_rows (il_list il))"
  have letter: "set (dl_rows (letter_list il c)) = {k \<in> ?rows. c \<in> set (letters k)}" for c by (rule w)
  have need: "hd word \<in> set (letters k)" if "k \<in> ?rows" "matches nameWords words k" "word \<in> set words" "word \<noteq> []" for k word
    by (rule matches_letter [OF that(2-4)]) (rule letters [OF that(1)])
  have "set (filtered nameWords words il) = {k \<in> ?rows. matches nameWords words k}
    \<and> distinct (filtered nameWords words il)"
  proof (cases "dl_rows (il_list il) = []")
    case False
    show ?thesis
    proof (cases "minimal_list il words None")
      case None
      then obtain word where word: "word \<in> set words" "word \<noteq> []" "filtered_letter (hd word) il = None
          \<or> (\<exists>l. filtered_letter (hd word) il = Some l \<and> dl_rows l = [])"
        using minimal_list_None [of il words None] words by auto
      then have "dl_rows (letter_list il (hd word)) = []"
        by (auto simp: letter_of_def filtered_letter_def)
      then have "{k \<in> ?rows. hd word \<in> set (letters k)} = {}" using letter [of "hd word"] by simp
      then have "{k \<in> ?rows. matches nameWords words k} = {}" using need [OF _ _ word(1,2)] by blast
      then show ?thesis using None by (simp add: filtered_eq)
    next
      case (Some l)
      then obtain word where word: "word \<in> set words" "word \<noteq> []" "filtered_letter (hd word) il = Some l"
        using minimal_list_result [OF Some] by auto
      then have l: "letter_list il (hd word) = l" by (simp add: letter_of_def filtered_letter_def)
      have f: "filtered nameWords words il = filter (matches nameWords words) (dl_rows l)"
        using False Some by (simp add: filtered_eq)
      have "set (dl_rows l) = {k \<in> ?rows. hd word \<in> set (letters k)}" using letter [of "hd word"] l by simp
      moreover have "distinct (dl_rows l)" using rows_distinct [OF w(6) [of "hd word"]] l by simp
      ultimately show ?thesis using need [OF _ _ word(1,2)] by (auto simp: f)
    qed
  qed (simp add: filtered_eq)
  then show "set (filtered nameWords words il) = {k \<in> ?rows. matches nameWords words k}"
    "distinct (filtered nameWords words il)" by simp_all
qed

lemma filtered_sorted:
  assumes wf: "il_wf letters il" and s: "il_sorted e il" and m: "il_sortMode il = SortDate"
  shows "sorted_wrt (date_order e) (filtered nameWords words il)"
proof (cases "dl_rows (il_list il) = [] \<or> minimal_list il words None = None")
  case False
  then obtain l where l: "minimal_list il words None = Some l" "dl_rows (il_list il) \<noteq> []" by auto
  then obtain word where word: "filtered_letter (hd word) il = Some l"
    using minimal_list_result [OF l(1)] by auto
  then have eq: "letter_list il (hd word) = l" by (simp add: letter_of_def filtered_letter_def)
  have "dl_sorted e l" using s eq unfolding il_sorted_def by metis
  then have "sorted_wrt (date_order e) (dl_rows l)"
    using il_wfD(7) [OF wf, of "hd word"] m eq by (simp add: dl_sorted_def)
  then show ?thesis using l by (simp add: filtered_eq sorted_wrt_filter)
qed (auto simp: filtered_eq)

lemma fill_words_letters:
  assumes "fill_words names = (nameWords, letters)" "name \<in> set nameWords"
  shows "hd name \<in> set letters"
  using assms ssorted_fold_insert [of "[]" names] ssorted_fold_insert [of "[]" "List.map hd names"]
  by (auto simp: fill_words_def)

end
