(* ===== verification/DialogsMain.thy ===== *)
theory DialogsMain imports DialogsPinned DialogsIndexed begin

text \<open>
  A chat list with its counters: \<open>Dialogs::MainList\<close> of
  \<open>dialogs/dialogs_main_list.{h,cpp}\<close>, the unread state of \<open>dialogs/dialogs_entry.h\<close>,
  and the operations of an entry on the list of one filter
  (\<open>dialogs/dialogs_entry.cpp\<close>).

  The stream of unread state changes is the list of the states fired so far. Counters are not
  bounded.
\<close>

section \<open>Unread states\<close>

record unread_state =
  us_messages :: int
  us_messagesMuted :: int
  us_chats :: int
  us_chatsMuted :: int
  us_marks :: int
  us_marksMuted :: int
  us_reactions :: int
  us_reactionsMuted :: int
  us_mentions :: int
  us_known :: bool

definition UnreadState :: unread_state where
  "UnreadState = \<lparr>us_messages = 0, us_messagesMuted = 0, us_chats = 0, us_chatsMuted = 0,
    us_marks = 0, us_marksMuted = 0, us_reactions = 0, us_reactionsMuted = 0, us_mentions = 0,
    us_known = False\<rparr>"

definition us_add :: "unread_state \<Rightarrow> unread_state \<Rightarrow> unread_state" where
  "us_add a b = a\<lparr>us_messages := us_messages a + us_messages b,
    us_messagesMuted := us_messagesMuted a + us_messagesMuted b,
    us_chats := us_chats a + us_chats b, us_chatsMuted := us_chatsMuted a + us_chatsMuted b,
    us_marks := us_marks a + us_marks b, us_marksMuted := us_marksMuted a + us_marksMuted b,
    us_reactions := us_reactions a + us_reactions b,
    us_reactionsMuted := us_reactionsMuted a + us_reactionsMuted b,
    us_mentions := us_mentions a + us_mentions b\<rparr>"

definition us_sub :: "unread_state \<Rightarrow> unread_state \<Rightarrow> unread_state" where
  "us_sub a b = a\<lparr>us_messages := us_messages a - us_messages b,
    us_messagesMuted := us_messagesMuted a - us_messagesMuted b,
    us_chats := us_chats a - us_chats b, us_chatsMuted := us_chatsMuted a - us_chatsMuted b,
    us_marks := us_marks a - us_marks b, us_marksMuted := us_marksMuted a - us_marksMuted b,
    us_reactions := us_reactions a - us_reactions b,
    us_reactionsMuted := us_reactionsMuted a - us_reactionsMuted b,
    us_mentions := us_mentions a - us_mentions b\<rparr>"

section \<open>The list and its operations\<close>

record ('k, 'c, 'r) main_list =
  ml_all :: "('k, 'c, 'r) indexed_list"
  ml_pinned :: "'k pinned_list"
  ml_unreadState :: unread_state
  ml_cloudUnreadState :: unread_state
  ml_fired :: "unread_state list"
  ml_fullListSize :: int
  ml_cloudListSize :: int
  ml_loaded :: bool
  ml_allAreMuted :: bool

definition MainList :: "('k, 'c, 'r::zero) main_list" where
  "MainList = \<lparr>ml_all = IndexedList SortDate, ml_pinned = PinnedList 1,
    ml_unreadState = UnreadState\<lparr>us_known := True\<rparr>, ml_cloudUnreadState = UnreadState, ml_fired = [],
    ml_fullListSize = 0, ml_cloudListSize = 0, ml_loaded = False, ml_allAreMuted = False\<rparr>"

definition unreadState :: "('k, 'c, 'r) main_list \<Rightarrow> unread_state" where
  "unreadState ml =
    (let useCloudState = us_known (ml_cloudUnreadState ml) \<and> \<not> ml_loaded ml;
         result = (if useCloudState then ml_cloudUnreadState ml else ml_unreadState ml);
         result = (if useCloudState
           then result\<lparr>us_marks := us_marks (ml_unreadState ml), us_marksMuted := us_marksMuted (ml_unreadState ml)\<rparr>
           else result)
     in if ml_allAreMuted ml
        then result\<lparr>us_messagesMuted := us_messages result, us_chatsMuted := us_chats result,
               us_marksMuted := us_marks result\<rparr>
        else result)"

text \<open>\<open>unreadStateChangeNotifier\<close>: the state from before is fired when the scope ends.\<close>

definition with_notifier ::
  "bool \<Rightarrow> (('k, 'c, 'r) main_list \<Rightarrow> ('k, 'c, 'r) main_list) \<Rightarrow> ('k, 'c, 'r) main_list \<Rightarrow> ('k, 'c, 'r) main_list" where
  "with_notifier notify f ml =
    (let wasState = (if notify then unreadState ml else UnreadState); ml' = f ml
     in if notify then ml'\<lparr>ml_fired := ml_fired ml' @ [wasState]\<rparr> else ml')"

definition recomputeFullListSize :: "('k, 'c, 'r) main_list \<Rightarrow> ('k, 'c, 'r) main_list" where
  "recomputeFullListSize ml = ml\<lparr>ml_fullListSize :=
    max (int (list_size (il_list (ml_all ml)))) (if ml_loaded ml then 0 else ml_cloudListSize ml)\<rparr>"

definition setLoaded :: "bool \<Rightarrow> ('k, 'c, 'r) main_list \<Rightarrow> ('k, 'c, 'r) main_list" where
  "setLoaded loaded ml = (if ml_loaded ml = loaded then ml
    else recomputeFullListSize (with_notifier True (\<lambda>ml. ml\<lparr>ml_loaded := loaded\<rparr>) ml))"

definition setAllAreMuted :: "bool \<Rightarrow> ('k, 'c, 'r) main_list \<Rightarrow> ('k, 'c, 'r) main_list" where
  "setAllAreMuted allAreMuted ml = (if ml_allAreMuted ml = allAreMuted then ml
    else with_notifier True (\<lambda>ml. ml\<lparr>ml_allAreMuted := allAreMuted\<rparr>) ml)"

definition setCloudListSize :: "int \<Rightarrow> ('k, 'c, 'r) main_list \<Rightarrow> ('k, 'c, 'r) main_list" where
  "setCloudListSize n ml = (if ml_cloudListSize ml = n then ml
    else recomputeFullListSize (ml\<lparr>ml_cloudListSize := n\<rparr>))"

definition finalizeCloudUnread :: "('k, 'c, 'r) main_list \<Rightarrow> ('k, 'c, 'r) main_list" where
  "finalizeCloudUnread ml = (let c = ml_cloudUnreadState ml
    in ml\<lparr>ml_cloudUnreadState := c\<lparr>us_messagesMuted := us_messages c, us_chatsMuted := us_chats c,
      us_marksMuted := 0, us_marks := 0\<rparr>\<rparr>)"

definition unreadEntryChanged :: "unread_state \<Rightarrow> bool \<Rightarrow> ('k, 'c, 'r) main_list \<Rightarrow> ('k, 'c, 'r) main_list" where
  "unreadEntryChanged st added ml =
    (if us_messages st = 0 \<and> us_chats st = 0 \<and> us_marks st = 0 \<and> us_mentions st = 0 \<and> us_reactions st = 0
     then ml
     else
       let updateCloud = us_known (ml_cloudUnreadState ml) \<and> us_known st;
           notify = (\<not> us_known (ml_cloudUnreadState ml) \<or> ml_loaded ml \<or> us_known st)
       in with_notifier notify (\<lambda>ml.
            let ml1 = ml\<lparr>ml_unreadState := (if added then us_add (ml_unreadState ml) st
                  else us_sub (ml_unreadState ml) st)\<rparr>
            in if updateCloud
               then finalizeCloudUnread (ml1\<lparr>ml_cloudUnreadState :=
                 (if added then us_add (ml_cloudUnreadState ml) st else us_sub (ml_cloudUnreadState ml) st)\<rparr>)
               else ml1) ml)"

text \<open>\<open>unreadStateChanged\<close> asserts that a state that was known stays known.\<close>

definition unreadStateChanged ::
  "unread_state \<Rightarrow> unread_state \<Rightarrow> ('k, 'c, 'r) main_list \<Rightarrow> ('k, 'c, 'r) main_list option" where
  "unreadStateChanged wasState nowState ml =
    (let useClouded = us_known (ml_cloudUnreadState ml) \<and> \<not> ml_loaded ml;
         updateCloud = us_known (ml_cloudUnreadState ml) \<and> us_known wasState;
         notify = (\<not> useClouded \<or> us_known wasState)
     in if updateCloud \<and> \<not> us_known nowState then None
        else Some (with_notifier notify (\<lambda>ml.
          let ml1 = ml\<lparr>ml_unreadState := us_add (ml_unreadState ml) (us_sub nowState wasState)\<rparr>
          in if updateCloud
             then finalizeCloudUnread (ml1\<lparr>ml_cloudUnreadState :=
               us_add (ml_cloudUnreadState ml) (us_sub nowState wasState)\<rparr>)
             else ml1) ml))"

definition updateCloudUnread :: "int \<Rightarrow> int \<Rightarrow> int \<Rightarrow> int \<Rightarrow> ('k, 'c, 'r) main_list \<Rightarrow> ('k, 'c, 'r) main_list" where
  "updateCloudUnread mutedMessages unmutedMessages mutedPeers unmutedPeers ml =
    with_notifier (\<not> ml_loaded ml) (\<lambda>ml.
      let ml1 = finalizeCloudUnread (ml\<lparr>ml_cloudUnreadState := (ml_cloudUnreadState ml)\<lparr>
            us_messages := mutedMessages + unmutedMessages, us_chats := mutedPeers + unmutedPeers\<rparr>\<rparr>)
      in ml1\<lparr>ml_cloudUnreadState := (ml_cloudUnreadState ml1)\<lparr>us_known := True\<rparr>\<rparr>) ml"

definition addEntry ::
  "('k, 'r, 'n) dialogs_env \<Rightarrow> ('k \<Rightarrow> 'c list) \<Rightarrow> ('k \<Rightarrow> unread_state) \<Rightarrow> 'k
    \<Rightarrow> ('k, 'c::linorder, 'r::zero) main_list \<Rightarrow> ('k, 'c, 'r) main_list \<times> 'c list" where
  "addEntry e letters unread k ml =
    (let (all, links) = il_addToEnd e letters k (ml_all ml)
     in (recomputeFullListSize (unreadEntryChanged (unread k) True (ml\<lparr>ml_all := all\<rparr>)), links))"

definition removeEntry ::
  "('k \<Rightarrow> 'c list) \<Rightarrow> ('k \<Rightarrow> unread_state) \<Rightarrow> 'k \<Rightarrow> ('k, 'c, 'r) main_list \<Rightarrow> ('k, 'c, 'r) main_list" where
  "removeEntry letters unread k ml =
    recomputeFullListSize (unreadEntryChanged (unread k) False (ml\<lparr>ml_all := il_remove letters k (ml_all ml)\<rparr>))"

definition main_clear ::
  "('k \<Rightarrow> int \<Rightarrow> 'w \<Rightarrow> 'w) \<Rightarrow> ('k, 'c, 'r) main_list \<times> 'w \<Rightarrow> ('k, 'c, 'r) main_list \<times> 'w" where
  "main_clear cache s = (case s of (ml, w) \<Rightarrow>
    let (pl, w') = pinned_clear cache (ml_pinned ml, w)
    in (recomputeFullListSize (with_notifier True (\<lambda>ml. ml\<lparr>ml_pinned := pl, ml_all := il_clear (ml_all ml),
          ml_unreadState := UnreadState\<lparr>us_known := True\<rparr>,
          ml_cloudUnreadState := UnreadState\<lparr>us_known := True\<rparr>, ml_cloudListSize := 0\<rparr>) ml), w'))"

section \<open>The entries and the list of one filter\<close>

text \<open>The state: what the entries answer, the links of the entries to this list, the cached
  indices, and the list.\<close>

record ('k, 'c, 'r, 'n) chats =
  ch_env :: "('k, 'r, 'n) dialogs_env"
  ch_letters :: "'k \<Rightarrow> 'c list"
  ch_unread :: "'k \<Rightarrow> unread_state"
  ch_links :: "'k \<rightharpoonup> 'c list"
  ch_entries :: "'k entries"
  ch_list :: "('k, 'c, 'r) main_list"

definition addToChatList :: "'k \<Rightarrow> ('k, 'c::linorder, 'r::zero, 'n) chats \<Rightarrow> ('k, 'c, 'r, 'n) chats" where
  "addToChatList k s = (case ch_links s k of Some _ \<Rightarrow> s
    | None \<Rightarrow>
        let (ml, links) = addEntry (ch_env s) (ch_letters s) (ch_unread s) k (ch_list s)
        in s\<lparr>ch_list := ml, ch_links := (ch_links s)(k \<mapsto> links)\<rparr>)"

definition setChatPinned ::
  "'k entry_env \<Rightarrow> int \<Rightarrow> 'k \<Rightarrow> bool \<Rightarrow> ('k, 'c, 'r, 'n) chats \<Rightarrow> ('k, 'c, 'r, 'n) chats" where
  "setChatPinned env f k pinned s =
    (let (pl, w) = setPinned (cachePinnedIndex env f) k pinned (ml_pinned (ch_list s), ch_entries s)
     in s\<lparr>ch_list := (ch_list s)\<lparr>ml_pinned := pl\<rparr>, ch_entries := w\<rparr>)"

definition removeFromChatList ::
  "'k entry_env \<Rightarrow> int \<Rightarrow> 'k \<Rightarrow> ('k, 'c::linorder, 'r::zero, 'n) chats \<Rightarrow> ('k, 'c, 'r, 'n) chats" where
  "removeFromChatList env f k s =
    (let s1 = (if isPinnedDialog f (es_entry (ch_entries s) k) then setChatPinned env f k False s else s)
     in case ch_links s1 k of None \<Rightarrow> s1
       | Some _ \<Rightarrow> s1\<lparr>ch_links := (ch_links s1)(k := None),
           ch_list := removeEntry (ch_letters s1) (ch_unread s1) k (ch_list s1)\<rparr>)"

text \<open>\<open>adjustByPosInChatList\<close> asserts the links, moves the rows and returns where the row was
  and is, and its height.\<close>

definition adjustByPosInChatList ::
  "'k \<Rightarrow> ('k, 'c::linorder, 'r::zero, 'n) chats \<Rightarrow> (('k, 'c, 'r, 'n) chats \<times> int \<times> int \<times> int) option" where
  "adjustByPosInChatList k s = (case ch_links s k of None \<Rightarrow> None
    | Some links \<Rightarrow>
        let ml = ch_list s; all = il_adjustByDate (ch_env s) (k, links) (ml_all ml);
            now = row_of (il_list all) k
        in Some (s\<lparr>ch_list := ml\<lparr>ml_all := all\<rparr>\<rparr>,
             row_top (row_of (il_list (ml_all ml)) k), row_top now, row_height now))"

text \<open>The name of a chat has changed: its new letters are in \<open>letters'\<close>.\<close>

definition peerNameChanged ::
  "('k \<Rightarrow> 'c list) \<Rightarrow> 'k \<Rightarrow> ('k, 'c::linorder, 'r::zero, 'n) chats \<Rightarrow> ('k, 'c, 'r, 'n) chats" where
  "peerNameChanged letters' k s =
    (let (all, links) = il_adjustNames (ch_env s) letters' k (ch_letters s k)
           (ml_all (ch_list s), case ch_links s k of Some ls \<Rightarrow> ls | None \<Rightarrow> [])
     in s\<lparr>ch_letters := letters', ch_list := (ch_list s)\<lparr>ml_all := all\<rparr>,
          ch_links := (if ch_links s k = None then ch_links s else (ch_links s)(k \<mapsto> links))\<rparr>)"

text \<open>The unread state of a listed chat has changed.\<close>

definition notifyUnreadStateChange ::
  "'k \<Rightarrow> unread_state \<Rightarrow> ('k, 'c, 'r, 'n) chats \<Rightarrow> ('k, 'c, 'r, 'n) chats option" where
  "notifyUnreadStateChange k nowState s = (case unreadStateChanged (ch_unread s k) nowState (ch_list s) of
      None \<Rightarrow> None
    | Some ml \<Rightarrow> Some (s\<lparr>ch_unread := (ch_unread s)(k := nowState), ch_list := ml\<rparr>))"

abbreviation ch_rows :: "('k, 'c, 'r, 'n) chats \<Rightarrow> 'k list" where
  "ch_rows s \<equiv> dl_rows (il_list (ml_all (ch_list s)))"

text \<open>A chat without unread counters has no muted ones either.\<close>

definition us_sane :: "unread_state \<Rightarrow> bool" where
  "us_sane u \<longleftrightarrow> (us_messages u = 0 \<longrightarrow> us_messagesMuted u = 0) \<and> (us_chats u = 0 \<longrightarrow> us_chatsMuted u = 0)
    \<and> (us_marks u = 0 \<longrightarrow> us_marksMuted u = 0) \<and> (us_reactions u = 0 \<longrightarrow> us_reactionsMuted u = 0)"

text \<open>The other operations of the list of pinned chats, and clearing the whole list.\<close>

abbreviation ch_pins :: "('k, 'c, 'r, 'n) chats \<Rightarrow> ('k, 'k entries) pinned_state" where
  "ch_pins s \<equiv> (ml_pinned (ch_list s), ch_entries s)"

definition with_pins :: "('k, 'k entries) pinned_state \<Rightarrow> ('k, 'c, 'r, 'n) chats \<Rightarrow> ('k, 'c, 'r, 'n) chats" where
  "with_pins t s = s\<lparr>ch_list := (ch_list s)\<lparr>ml_pinned := fst t\<rparr>, ch_entries := snd t\<rparr>"

definition clearChatsList :: "'k entry_env \<Rightarrow> int \<Rightarrow> ('k, 'c, 'r, 'n) chats \<Rightarrow> ('k, 'c, 'r, 'n) chats" where
  "clearChatsList env f s =
    (let (ml, w) = main_clear (cachePinnedIndex env f) (ch_list s, ch_entries s) in s\<lparr>ch_list := ml, ch_entries := w\<rparr>)"

text \<open>What can happen to the list: an entry comes and goes, is pinned, gets a new date, a new
  name or new unread counters; the pinned chats are reordered, cleared, or replaced by a list of
  the server or of a filter; the limit, the heights and what the server says of the list change; a
  list without rows is cleared.

  Clearing a list that has rows is not a step: \<open>MainList::clear\<close> drops the rows, but the
  entries keep their links to them (lemma \<open>cleared_list_keeps_links\<close> below).\<close>

inductive chats_step ::
  "'k entry_env \<Rightarrow> int \<Rightarrow> ('k, 'c::linorder, 'r::zero, 'n::linorder) chats \<Rightarrow> ('k, 'c, 'r, 'n) chats \<Rightarrow> bool"
  for env :: "'k entry_env" and f :: int where
  added: "chats_step env f s (addToChatList k s)"
| removed: "chats_step env f s (removeFromChatList env f k s)"
| pinned: "chats_step env f s (setChatPinned env f k p s)"
| reordered: "reorder (cachePinnedIndex env f) k1 k2 (ch_pins s) = Some t \<Longrightarrow> chats_step env f s (with_pins t s)"
| unpinned_all: "chats_step env f s (with_pins (pinned_clear (cachePinnedIndex env f) (ch_pins s)) s)"
| pinned_list: "chats_step env f s (with_pins (applyKeys (cachePinnedIndex env f) ks (ch_pins s)) s)"
| filter_list: "distinct hs \<Longrightarrow> (\<And>k. k \<in> set hs \<Longrightarrow> is_history k) \<Longrightarrow>
    chats_step env f s (with_pins (applyList_histories (cachePinnedIndex env f) is_history hs (ch_pins s)) s)"
| limited: "0 < n \<Longrightarrow> chats_step env f s (with_pins (setLimit (cachePinnedIndex env f) n (ch_pins s)) s)"
| cleared: "ch_rows s = [] \<Longrightarrow> chats_step env f s (clearChatsList env f s)"
| dated: "(\<And>j. j \<noteq> k \<Longrightarrow> env_sortKey e j = env_sortKey (ch_env s) j) \<Longrightarrow>
    adjustByPosInChatList k (s\<lparr>ch_env := e\<rparr>) = Some (s', was, now, h) \<Longrightarrow> chats_step env f s s'"
| dated_unlisted: "(\<And>j. j \<noteq> k \<Longrightarrow> env_sortKey e j = env_sortKey (ch_env s) j) \<Longrightarrow> ch_links s k = None \<Longrightarrow>
    chats_step env f s (s\<lparr>ch_env := e\<rparr>)"
| named: "(\<And>j. j \<noteq> k \<Longrightarrow> letters' j = ch_letters s j) \<Longrightarrow> ssorted (letters' k) \<Longrightarrow>
    chats_step env f s (peerNameChanged letters' k s)"
| unread: "ch_links s k \<noteq> None \<Longrightarrow> us_sane u \<Longrightarrow> notifyUnreadStateChange k u s = Some s' \<Longrightarrow>
    chats_step env f s s'"
| unread_unlisted: "ch_links s k = None \<Longrightarrow> us_sane u \<Longrightarrow>
    chats_step env f s (s\<lparr>ch_unread := (ch_unread s)(k := u)\<rparr>)"
| loaded: "chats_step env f s (s\<lparr>ch_list := setLoaded b (ch_list s)\<rparr>)"
| muted: "chats_step env f s (s\<lparr>ch_list := setAllAreMuted b (ch_list s)\<rparr>)"
| cloud_size: "chats_step env f s (s\<lparr>ch_list := setCloudListSize m (ch_list s)\<rparr>)"
| cloud_unread: "chats_step env f s (s\<lparr>ch_list := updateCloudUnread a b c d (ch_list s)\<rparr>)"
| height: "chats_step env f s (s\<lparr>ch_list := (ch_list s)\<lparr>ml_all := fst (il_updateHeight (ch_env s) k r (ml_all (ch_list s)))\<rparr>\<rparr>)"
| heights: "chats_step env f s (s\<lparr>ch_list := (ch_list s)\<lparr>ml_all := fst (il_updateHeights (ch_env s) r (ml_all (ch_list s)))\<rparr>\<rparr>)"

inductive chats_reach ::
  "'k entry_env \<Rightarrow> int \<Rightarrow> ('k, 'c::linorder, 'r::zero, 'n::linorder) chats \<Rightarrow> bool"
  for env :: "'k entry_env" and f :: int where
  start: "(\<And>k. ssorted (ch_letters s k)) \<Longrightarrow> (\<And>k. us_sane (ch_unread s k)) \<Longrightarrow> ch_links s = Map.empty \<Longrightarrow>
    entries_wf (ch_entries s) \<Longrightarrow> (\<And>k. pinned_index f (ch_entries s) k = 0) \<Longrightarrow> ch_list s = MainList \<Longrightarrow>
    chats_reach env f s"
| step: "chats_reach env f s \<Longrightarrow> chats_step env f s s' \<Longrightarrow> chats_reach env f s'"

section \<open>The invariant of the list\<close>

datatype unread_field = Messages | MessagesMuted | Chats | ChatsMuted | Marks | MarksMuted
  | Reactions | ReactionsMuted | Mentions

primrec us_get :: "unread_field \<Rightarrow> unread_state \<Rightarrow> int" where
  "us_get Messages u = us_messages u"
| "us_get MessagesMuted u = us_messagesMuted u"
| "us_get Chats u = us_chats u"
| "us_get ChatsMuted u = us_chatsMuted u"
| "us_get Marks u = us_marks u"
| "us_get MarksMuted u = us_marksMuted u"
| "us_get Reactions u = us_reactions u"
| "us_get ReactionsMuted u = us_reactionsMuted u"
| "us_get Mentions u = us_mentions u"

lemma us_get_arith [simp]:
  "us_get x (us_add a b) = us_get x a + us_get x b" "us_get x (us_sub a b) = us_get x a - us_get x b"
  "us_get x (UnreadState\<lparr>us_known := b'\<rparr>) = 0" "us_get x UnreadState = 0"
  by (cases x; simp add: us_add_def us_sub_def UnreadState_def)+

definition chats_inv :: "int \<Rightarrow> ('k, 'c::linorder, 'r::zero, 'n::linorder) chats \<Rightarrow> bool" where
  "chats_inv f s \<longleftrightarrow>
    il_wf (ch_letters s) (ml_all (ch_list s)) \<and> il_sortMode (ml_all (ch_list s)) = SortDate
    \<and> il_sorted (ch_env s) (ml_all (ch_list s))
    \<and> (\<forall>k. ch_links s k = (if k \<in> set (ch_rows s) then Some (ch_letters s k) else None))
    \<and> (\<forall>k. us_sane (ch_unread s k))
    \<and> (\<forall>x. us_get x (ml_unreadState (ch_list s)) = (\<Sum>k\<in>set (ch_rows s). us_get x (ch_unread s k)))
    \<and> ml_fullListSize (ch_list s) = max (int (length (ch_rows s)))
        (if ml_loaded (ch_list s) then 0 else ml_cloudListSize (ch_list s))
    \<and> pinned_wf f (ml_pinned (ch_list s), ch_entries s)
    \<and> 0 < pl_limit (ml_pinned (ch_list s))"

named_theorems main_simps "what the operations of a chat list leave alone"

lemma with_notifier_simps [main_simps]:
  "ml_all (with_notifier n g ml) = ml_all (g ml)" "ml_pinned (with_notifier n g ml) = ml_pinned (g ml)"
  "ml_unreadState (with_notifier n g ml) = ml_unreadState (g ml)"
  "ml_loaded (with_notifier n g ml) = ml_loaded (g ml)"
  "ml_cloudListSize (with_notifier n g ml) = ml_cloudListSize (g ml)"
  "ml_fullListSize (with_notifier n g ml) = ml_fullListSize (g ml)"
  by (simp_all add: with_notifier_def Let_def)

lemma finalizeCloudUnread_simps [main_simps]:
  "ml_all (finalizeCloudUnread ml) = ml_all ml" "ml_pinned (finalizeCloudUnread ml) = ml_pinned ml"
  "ml_unreadState (finalizeCloudUnread ml) = ml_unreadState ml"
  "ml_loaded (finalizeCloudUnread ml) = ml_loaded ml"
  "ml_cloudListSize (finalizeCloudUnread ml) = ml_cloudListSize ml"
  "ml_fullListSize (finalizeCloudUnread ml) = ml_fullListSize ml"
  by (simp_all add: finalizeCloudUnread_def Let_def)

lemma us_sane_zero:
  assumes "us_sane u" "us_messages u = 0" "us_chats u = 0" "us_marks u = 0" "us_mentions u = 0" "us_reactions u = 0"
  shows "us_get x u = 0"
  using assms by (cases x) (simp_all add: us_sane_def)

lemma unreadEntryChanged_simps [main_simps]:
  "ml_all (unreadEntryChanged u b ml) = ml_all ml" "ml_pinned (unreadEntryChanged u b ml) = ml_pinned ml"
  "ml_loaded (unreadEntryChanged u b ml) = ml_loaded ml"
  "ml_cloudListSize (unreadEntryChanged u b ml) = ml_cloudListSize ml"
  by (simp_all add: unreadEntryChanged_def Let_def main_simps)

lemma unreadEntryChanged_counts:
  "us_sane u \<Longrightarrow> us_get x (ml_unreadState (unreadEntryChanged u b ml))
    = us_get x (ml_unreadState ml) + (if b then us_get x u else - us_get x u)"
  using us_sane_zero [of u x] by (auto simp: unreadEntryChanged_def Let_def main_simps)

lemma unreadStateChanged_simps:
  assumes "unreadStateChanged a b ml = Some ml'"
  shows "ml_all ml' = ml_all ml" "ml_pinned ml' = ml_pinned ml" "ml_loaded ml' = ml_loaded ml"
    "ml_cloudListSize ml' = ml_cloudListSize ml" "ml_fullListSize ml' = ml_fullListSize ml"
    "us_get x (ml_unreadState ml') = us_get x (ml_unreadState ml) + us_get x b - us_get x a"
  using assms by (auto simp: unreadStateChanged_def Let_def main_simps split: if_splits)

lemma recomputeFullListSize_simps [main_simps]:
  "ml_all (recomputeFullListSize ml) = ml_all ml" "ml_pinned (recomputeFullListSize ml) = ml_pinned ml"
  "ml_unreadState (recomputeFullListSize ml) = ml_unreadState ml"
  "ml_loaded (recomputeFullListSize ml) = ml_loaded ml"
  "ml_cloudListSize (recomputeFullListSize ml) = ml_cloudListSize ml"
  "ml_fullListSize (recomputeFullListSize ml) = max (int (length (dl_rows (il_list (ml_all ml)))))
    (if ml_loaded ml then 0 else ml_cloudListSize ml)"
  by (simp_all add: recomputeFullListSize_def list_size_def)

section \<open>Every step keeps the invariant\<close>

lemma il_sortedI:
  "dl_sorted e (il_list il) \<Longrightarrow> (\<And>c. dl_sorted e (letter_list il c)) \<Longrightarrow> il_sorted e il"
  by (simp add: il_sorted_def)

lemma il_sortedD:
  "il_sorted e il \<Longrightarrow> dl_sorted e (il_list il)" "il_sorted e il \<Longrightarrow> dl_sorted e (letter_list il c)"
  by (auto simp: il_sorted_def)

lemma il_addToEnd_sorted:
  assumes "il_wf letters il" "il_sortMode il = SortDate" "il_sorted e il"
  shows "il_sorted e (fst (il_addToEnd e letters k il))"
    "il_sortMode (fst (il_addToEnd e letters k il)) = SortDate"
proof -
  note w = il_wfD [OF assms(1)]
  have "il_sorted e (fst (il_addToEnd e letters k il)) \<and> il_sortMode (fst (il_addToEnd e letters k il)) = SortDate"
  proof (cases "k \<in> set (dl_rows (il_list il))")
    case True
    then obtain r where "getRow (il_list il) k = Some r" using getRow_None [OF w(4)] by fastforce
    then show ?thesis using assms by (simp add: il_addToEnd_def)
  next
    case False
    note a = il_addToEnd_letters [OF assms(1) False, of e]
    have m: "dl_sortMode (il_list il) = SortDate" "dl_sortMode (letter_list il c) = SortDate" for c
      using w(5,7) assms(2) by simp_all
    have "il_sorted e (fst (il_addToEnd e letters k il))"
    proof (rule il_sortedI)
      show "dl_sorted e (il_list (fst (il_addToEnd e letters k il)))"
        unfolding a by (rule dl_sorted_addToEnd [OF w(4) m(1)]) (rule il_sortedD [OF assms(3)])
      show "dl_sorted e (letter_list (fst (il_addToEnd e letters k il)) c)" for c
        unfolding a(2) using dl_sorted_addToEnd [OF w(6) [of c] m(2) [of c], of e k] il_sortedD(2) [OF assms(3)] by simp
    qed
    then show ?thesis using a(4) assms(2) by simp
  qed
  then show "il_sorted e (fst (il_addToEnd e letters k il))"
    "il_sortMode (fst (il_addToEnd e letters k il)) = SortDate" by simp_all
qed

lemma il_remove_sorted:
  assumes wf: "il_wf letters il" and s: "il_sorted e il"
  shows "il_sorted e (il_remove letters k il)" "il_sortMode (il_remove letters k il) = il_sortMode il"
proof -
  note w = il_wfD [OF wf]
  obtain l removed where r: "list_remove k (il_list il) = (l, removed)" by fastforce
  show m: "il_sortMode (il_remove letters k il) = il_sortMode il" by (simp add: il_remove_def r Let_def)
  have l: "dl_sorted e l" using dl_sorted_remove1 [OF w(4) il_sortedD(1) [OF s], of k] by (simp add: r)
  show "il_sorted e (il_remove letters k il)"
  proof (rule il_sortedI)
    show "dl_sorted e (il_list (il_remove letters k il))" using l by (simp add: il_remove_def r Let_def)
    fix c
    have "letter_of (il_sortMode il) (il_index (il_remove letters k il)) c
        = (if removed \<and> c \<in> set (letters k) then fst (list_remove k (letter_list il c)) else letter_list il c)"
      using w(2) by (simp add: il_remove_def r Let_def letter_of_if)
    then show "dl_sorted e (letter_list (il_remove letters k il) c)"
      using dl_sorted_remove1 [OF w(6) [of c] il_sortedD(2) [OF s], of k] il_sortedD(2) [OF s] by (simp add: m)
  qed
qed

lemma il_adjustNames_sorted:
  assumes wf: "il_wf letters il" and m: "il_sortMode il = SortDate" and s: "il_sorted e il"
    and l: "ssorted (letters' k)" "\<forall>j. j \<noteq> k \<longrightarrow> letters' j = letters j" and k: "k \<in> set (dl_rows (il_list il))"
  shows "il_sorted e (fst (il_adjustNames e letters' k (letters k) (il, links)))"
    "il_sortMode (fst (il_adjustNames e letters' k (letters k) (il, links))) = SortDate"
proof -
  note w = il_wfD [OF wf]
  note a = il_adjustNames_wf [where e = e and links = links, OF wf l k]
  show "il_sorted e (fst (il_adjustNames e letters' k (letters k) (il, links)))"
  proof (rule il_sortedI)
    show "dl_sorted e (il_list (fst (il_adjustNames e letters' k (letters k) (il, links))))"
      unfolding a(2) by (rule il_sortedD [OF s])
    show "dl_sorted e (letter_list (fst (il_adjustNames e letters' k (letters k) (il, links))) c)" for c
      unfolding a(3)
      using dl_sorted_addToEnd [OF w(6) [of c], of e k] dl_sorted_remove1 [OF w(6) [of c] il_sortedD(2) [OF s], of k]
        il_sortedD(2) [OF s] w(7) m by simp
  qed
  show "il_sortMode (fst (il_adjustNames e letters' k (letters k) (il, links))) = SortDate"
    using m by (simp add: il_adjustNames_def Let_def split: option.splits prod.splits)
qed

lemma chats_invD:
  assumes "chats_inv f s"
  shows "il_wf (ch_letters s) (ml_all (ch_list s))" "il_sortMode (ml_all (ch_list s)) = SortDate"
    "il_sorted (ch_env s) (ml_all (ch_list s))"
    "ch_links s k = (if k \<in> set (ch_rows s) then Some (ch_letters s k) else None)"
    "us_sane (ch_unread s k)"
    "us_get x (ml_unreadState (ch_list s)) = (\<Sum>k\<in>set (ch_rows s). us_get x (ch_unread s k))"
    "ml_fullListSize (ch_list s) = max (int (length (ch_rows s)))
        (if ml_loaded (ch_list s) then 0 else ml_cloudListSize (ch_list s))"
    "pinned_wf f (ml_pinned (ch_list s), ch_entries s)"
    "0 < pl_limit (ml_pinned (ch_list s))"
  using assms unfolding chats_inv_def by simp_all

lemma inv_added:
  assumes inv: "chats_inv f s"
  shows "chats_inv f (addToChatList k s)"
proof (cases "k \<in> set (ch_rows s)")
  case True
  then show ?thesis using inv chats_invD(4) [OF inv, of k] by (simp add: addToChatList_def)
next
  case False
  note i = chats_invD [OF inv]
  note wf = il_wfD [OF i(1)]
  let ?all = "fst (il_addToEnd (ch_env s) (ch_letters s) k (ml_all (ch_list s)))"
  let ?s = "addToChatList k s"
  note a = il_addToEnd_letters [OF i(1) False, of "ch_env s"]
  have e: "?s = s\<lparr>ch_list := recomputeFullListSize (unreadEntryChanged (ch_unread s k) True ((ch_list s)\<lparr>ml_all := ?all\<rparr>)),
      ch_links := (ch_links s)(k \<mapsto> ch_letters s k)\<rparr>"
    using i(4) [of k] a(3) False
    by (cases "il_addToEnd (ch_env s) (ch_letters s) k (ml_all (ch_list s))")
      (simp add: addToChatList_def addEntry_def Let_def)
  have rows: "set (ch_rows ?s) = insert k (set (ch_rows s))"
    using il_addToEnd_wf(2) [OF i(1), of "ch_env s" k] by (simp add: e main_simps)
  have "us_get x (ml_unreadState (ch_list ?s)) = (\<Sum>j\<in>set (ch_rows ?s). us_get x (ch_unread s j))" for x
    unfolding rows using i(5) i(6) [of x] False by (simp add: e main_simps unreadEntryChanged_counts)
  moreover have "ch_links ?s j = (if j \<in> set (ch_rows ?s) then Some (ch_letters s j) else None)" for j
    unfolding rows using i(4) [of j] by (simp add: e)
  ultimately show ?thesis
    unfolding chats_inv_def
    using i il_addToEnd_wf(1) [OF i(1), of "ch_env s" k] il_addToEnd_sorted [OF i(1-3), of k]
    by (simp add: e main_simps)
qed

lemma inv_removeEntry:
  assumes inv: "chats_inv f s" and k: "k \<in> set (ch_rows s)"
  shows "chats_inv f (s\<lparr>ch_links := (ch_links s)(k := None),
      ch_list := removeEntry (ch_letters s) (ch_unread s) k (ch_list s)\<rparr>)" (is "chats_inv f ?s")
proof -
  note i = chats_invD [OF inv]
  note wf = il_wfD [OF i(1)]
  let ?all = "il_remove (ch_letters s) k (ml_all (ch_list s))"
  have e: "removeEntry (ch_letters s) (ch_unread s) k (ch_list s)
      = recomputeFullListSize (unreadEntryChanged (ch_unread s k) False ((ch_list s)\<lparr>ml_all := ?all\<rparr>))"
    by (simp add: removeEntry_def)
  have rows: "set (ch_rows ?s) = set (ch_rows s) - {k}"
    using il_remove_wf(2) [OF i(1), of k] rows_distinct [OF wf(4)] by (simp add: e main_simps)
  have "us_get x (ml_unreadState (ch_list ?s)) = (\<Sum>j\<in>set (ch_rows ?s). us_get x (ch_unread s j))" for x
    unfolding rows using i(5) i(6) [of x] k
    by (simp add: e main_simps unreadEntryChanged_counts sum_diff1)
  moreover have "ch_links ?s j = (if j \<in> set (ch_rows ?s) then Some (ch_letters s j) else None)" for j
    unfolding rows using i(4) [of j] by simp
  ultimately show ?thesis
    unfolding chats_inv_def
    using i il_remove_wf(1) [OF i(1), of k] il_remove_sorted [OF i(1,3), of k]
    by (simp add: e main_simps)
qed

lemma inv_setChatPinned:
  assumes inv: "chats_inv f s"
  shows "chats_inv f (setChatPinned env f k p s)" "ch_links (setChatPinned env f k p s) = ch_links s"
    "ch_rows (setChatPinned env f k p s) = ch_rows s"
proof -
  note i = chats_invD [OF inv]
  let ?t = "setPinned (cachePinnedIndex env f) k p (ml_pinned (ch_list s), ch_entries s)"
  have e: "setChatPinned env f k p s = s\<lparr>ch_list := (ch_list s)\<lparr>ml_pinned := fst ?t\<rparr>, ch_entries := snd ?t\<rparr>"
    by (simp add: setChatPinned_def split: prod.splits)
  have "pinned_wf f ?t \<and> pl_limit (fst ?t) = pl_limit (ml_pinned (ch_list s))"
    using pins.setPinned_wf [of f "ml_pinned (ch_list s)" "ch_entries s" env k]
      pins.unpin_wf [of f "ml_pinned (ch_list s)" "ch_entries s" env k] i(8)
    unfolding pinned_wf_pins by (cases p) (auto simp: setPinned_def)
  then show "chats_inv f (setChatPinned env f k p s)"
    unfolding chats_inv_def e using i by simp
  show "ch_links (setChatPinned env f k p s) = ch_links s"
    "ch_rows (setChatPinned env f k p s) = ch_rows s" by (simp_all add: e)
qed

lemma inv_removed:
  assumes inv: "chats_inv f s"
  shows "chats_inv f (removeFromChatList env f k s)"
proof -
  define s1 where "s1 = (if isPinnedDialog f (es_entry (ch_entries s) k) then setChatPinned env f k False s else s)"
  have 1: "chats_inv f s1" using inv by (simp add: s1_def inv_setChatPinned(1) [OF inv])
  have "removeFromChatList env f k s = (case ch_links s1 k of None \<Rightarrow> s1
       | Some _ \<Rightarrow> s1\<lparr>ch_links := (ch_links s1)(k := None),
           ch_list := removeEntry (ch_letters s1) (ch_unread s1) k (ch_list s1)\<rparr>)"
    unfolding removeFromChatList_def Let_def s1_def by (rule refl)
  then show ?thesis
    using 1 inv_removeEntry [OF 1, of k] chats_invD(4) [OF 1, of k] by (auto split: if_splits)
qed

lemma same_key_order:
  assumes "\<And>j. j \<noteq> k \<Longrightarrow> env_sortKey e j = env_sortKey e' j" "k \<notin> set xs"
  shows "sorted_wrt (date_order e) xs \<longleftrightarrow> sorted_wrt (date_order e') xs"
  using assms(2)
proof (induction xs)
  case (Cons x xs)
  then have "env_sortKey e y = env_sortKey e' y" if "y \<in> set (x # xs)" for y
    using assms(1) [of y] that by auto
  then show ?case using Cons by simp
qed simp

lemma dl_sorted_readjusted:
  assumes keys: "\<And>j. j \<noteq> k \<Longrightarrow> env_sortKey e j = env_sortKey e' j"
    and l: "dl_wf l" "dl_sortMode l = SortDate" "dl_sorted e' l"
  shows "k \<in> set (dl_rows l) \<Longrightarrow> dl_sorted e (adjustByDate e k l)"
    "k \<notin> set (dl_rows l) \<Longrightarrow> dl_sorted e l"
proof -
  show "dl_sorted e l" if "k \<notin> set (dl_rows l)"
    using same_key_order [OF keys that] l by (simp add: dl_sorted_def)
  show "dl_sorted e (adjustByDate e k l)" if k: "k \<in> set (dl_rows l)"
  proof -
    have "sorted_wrt (date_order e') (remove1 k (dl_rows l))"
      using dl_sorted_remove1 [OF l(1,3), of k] list_remove_spec(3,4) [OF l(1), of k] l(2)
      by (simp add: dl_sorted_def)
    moreover have "k \<notin> set (remove1 k (dl_rows l))" using rows_distinct [OF l(1)] by simp
    ultimately have "sorted_wrt (date_order e) (remove1 k (dl_rows l))"
      using same_key_order [OF keys] by blast
    then show ?thesis
      using adjustByDate_spec(2,5) [OF l(1) k, where e = e] l(2) by (simp add: dl_sorted_def same_heights_def)
  qed
qed

lemma inv_dated:
  assumes inv: "chats_inv f s" and keys: "\<And>j. j \<noteq> k \<Longrightarrow> env_sortKey e j = env_sortKey (ch_env s) j"
    and adj: "adjustByPosInChatList k (s\<lparr>ch_env := e\<rparr>) = Some (s', was, now, h)"
  shows "chats_inv f s'"
proof -
  note i = chats_invD [OF inv]
  note wf = il_wfD [OF i(1)]
  have k: "k \<in> set (ch_rows s)" and links: "ch_links s k = Some (ch_letters s k)"
    using adj i(4) [of k] by (auto simp: adjustByPosInChatList_def split: if_splits)
  let ?il = "ml_all (ch_list s)"
  let ?all = "il_adjustByDate e (k, ch_letters s k) ?il"
  have s': "s' = s\<lparr>ch_env := e, ch_list := (ch_list s)\<lparr>ml_all := ?all\<rparr>\<rparr>"
    using adj links by (simp add: adjustByPosInChatList_def Let_def)
  note a = il_adjustByDate_wf [OF i(1) k, of e]
  have mode: "il_sortMode ?all = SortDate" using i(2) by (simp add: il_adjustByDate_def)
  have "dl_sortMode (il_list ?il) = SortDate" "dl_sortMode (letter_list ?il c) = SortDate" for c
    using wf(5,7) i(2) by simp_all
  note re = dl_sorted_readjusted [OF keys wf(4) this(1) il_sortedD(1) [OF i(3)]]
    dl_sorted_readjusted [OF keys wf(6) this(2) il_sortedD(2) [OF i(3)]]
  have "il_sorted e ?all"
  proof (rule il_sortedI)
    have "il_list ?all = adjustByDate e k (il_list ?il)" by (simp add: il_adjustByDate_def)
    then show "dl_sorted e (il_list ?all)" using re(1) k by simp
    fix c
    have "k \<in> set (dl_rows (letter_list ?il c)) \<longleftrightarrow> c \<in> set (ch_letters s k)"
      using wf(8) [of c] k by simp
    then show "dl_sorted e (letter_list ?all c)"
      unfolding a(3) using re(3,4) [where c1 = c] by simp
  qed
  moreover have "set (ch_rows s') = set (ch_rows s)" "length (ch_rows s') = length (ch_rows s)"
  proof -
    have r: "ch_rows s' = dl_rows (adjustByDate e k (il_list ?il))" using a(2) by (simp add: s')
    then show "set (ch_rows s') = set (ch_rows s)" using adjustByDate_spec(3) [OF wf(4) k, where e = e] by simp
    then show "length (ch_rows s') = length (ch_rows s)"
      using rows_distinct [OF wf(4)] rows_distinct [OF adjustByDate_spec(1) [OF wf(4) k, of e]] r
      by (metis distinct_card)
  qed
  ultimately show ?thesis
    unfolding chats_inv_def using i a(1) mode by (simp add: s')
qed

lemma inv_named:
  assumes inv: "chats_inv f s" and l: "ssorted (letters' k)"
    and others: "\<And>j. j \<noteq> k \<Longrightarrow> letters' j = ch_letters s j"
  shows "chats_inv f (peerNameChanged letters' k s)"
proof -
  note i = chats_invD [OF inv]
  note wf = il_wfD [OF i(1)]
  let ?il = "ml_all (ch_list s)"
  have o: "\<forall>j. j \<noteq> k \<longrightarrow> letters' j = ch_letters s j" using others by blast
  show ?thesis
  proof (cases "k \<in> set (ch_rows s)")
    case True
    let ?t = "il_adjustNames (ch_env s) letters' k (ch_letters s k) (?il, ch_letters s k)"
    note a = il_adjustNames_wf [where e = "ch_env s" and links = "ch_letters s k", OF i(1) l o True]
    have e: "peerNameChanged letters' k s = s\<lparr>ch_letters := letters', ch_list := (ch_list s)\<lparr>ml_all := fst ?t\<rparr>,
        ch_links := (ch_links s)(k \<mapsto> letters' k)\<rparr>"
      using a(4) i(2) i(4) [of k] True by (cases ?t) (simp add: peerNameChanged_def)
    show ?thesis
      unfolding chats_inv_def e
      using i a(1,2) o il_adjustNames_sorted [where links = "ch_letters s k", OF i(1,2,3) l o True] True by simp
  next
    case False
    then have "getRow (il_list ?il) k = None" using getRow_None [OF wf(4)] by blast
    then have e: "peerNameChanged letters' k s = s\<lparr>ch_letters := letters'\<rparr>"
      using i(4) [of k] False by (simp add: peerNameChanged_def il_adjustNames_def)
    have eq: "letters' j = ch_letters s j" if "j \<in> set (ch_rows s)" for j using o that False by metis
    have "ssorted (letters' j)" for j using l o wf(1) [of j] by (cases "j = k") simp_all
    moreover have "{x \<in> set (ch_rows s). c \<in> set (letters' x)} = {x \<in> set (ch_rows s). c \<in> set (ch_letters s x)}" for c
      using eq by auto
    ultimately have "il_wf letters' ?il" using i(1) unfolding il_wf_def by simp
    then show ?thesis unfolding chats_inv_def e using i eq by simp
  qed
qed

lemma inv_unread:
  assumes inv: "chats_inv f s" and k: "ch_links s k \<noteq> None" and u: "us_sane u"
    and n: "notifyUnreadStateChange k u s = Some s'"
  shows "chats_inv f s'"
proof -
  note i = chats_invD [OF inv]
  have kr: "k \<in> set (ch_rows s)" using k i(4) [of k] by (simp split: if_splits)
  obtain ml where ml: "unreadStateChanged (ch_unread s k) u (ch_list s) = Some ml"
    "s' = s\<lparr>ch_unread := (ch_unread s)(k := u), ch_list := ml\<rparr>"
    using n by (auto simp: notifyUnreadStateChange_def split: option.splits)
  note m = unreadStateChanged_simps [OF ml(1)]
  have "(\<Sum>j\<in>set (ch_rows s). us_get x (((ch_unread s)(k := u)) j))
      = (\<Sum>j\<in>set (ch_rows s). us_get x (ch_unread s j)) + us_get x u - us_get x (ch_unread s k)" for x
  proof -
    have "(\<Sum>j\<in>set (ch_rows s) - {k}. us_get x (((ch_unread s)(k := u)) j))
        = (\<Sum>j\<in>set (ch_rows s) - {k}. us_get x (ch_unread s j))" by (rule sum.cong) auto
    then show ?thesis
      using sum.remove [OF _ kr, of "\<lambda>j. us_get x (((ch_unread s)(k := u)) j)"]
        sum.remove [OF _ kr, of "\<lambda>j. us_get x (ch_unread s j)"] by simp
  qed
  then show ?thesis
    unfolding chats_inv_def ml(2) using i u by (simp add: m)
qed

lemma with_pins_simps [simp]:
  "ch_env (with_pins t s) = ch_env s" "ch_letters (with_pins t s) = ch_letters s"
  "ch_unread (with_pins t s) = ch_unread s" "ch_links (with_pins t s) = ch_links s"
  "ch_entries (with_pins t s) = snd t" "ml_pinned (ch_list (with_pins t s)) = fst t"
  "ml_all (ch_list (with_pins t s)) = ml_all (ch_list s)" "ml_unreadState (ch_list (with_pins t s)) = ml_unreadState (ch_list s)"
  "ml_fullListSize (ch_list (with_pins t s)) = ml_fullListSize (ch_list s)"
  "ml_loaded (ch_list (with_pins t s)) = ml_loaded (ch_list s)"
  "ml_cloudListSize (ch_list (with_pins t s)) = ml_cloudListSize (ch_list s)"
  by (simp_all add: with_pins_def)

lemma inv_with_pins:
  assumes "chats_inv f s" "pins.wf f t" "0 < pl_limit (fst t)"
  shows "chats_inv f (with_pins t s)"
  unfolding chats_inv_def using chats_invD [OF assms(1)] assms(2,3) by (simp add: pinned_wf_pins)

lemma setLimit_wf:
  assumes "pins.wf f (pl, w)"
  shows "pins.wf f (setLimit (cachePinnedIndex env f) n (pl, w))" "pl_limit (fst (setLimit (cachePinnedIndex env f) n (pl, w))) = n"
    "length (pl_data pl) \<le> pl_limit pl \<Longrightarrow> length (pl_data (fst (setLimit (cachePinnedIndex env f) n (pl, w)))) \<le> n"
proof -
  have "pins.wf f (pl\<lparr>pl_limit := n\<rparr>, w)" using assms by (simp add: pins.wf_def)
  note l = pins.applyLimit_wf [OF this, of env n]
  show "pins.wf f (setLimit (cachePinnedIndex env f) n (pl, w))" "pl_limit (fst (setLimit (cachePinnedIndex env f) n (pl, w))) = n"
    "length (pl_data pl) \<le> pl_limit pl \<Longrightarrow> length (pl_data (fst (setLimit (cachePinnedIndex env f) n (pl, w)))) \<le> n"
    using assms l by (auto simp: setLimit_def)
qed

lemma inv_cleared:
  assumes inv: "chats_inv f s" and empty: "ch_rows s = []"
  shows "chats_inv f (clearChatsList env f s)"
    "pl_data (ml_pinned (ch_list (clearChatsList env f s))) = []"
proof -
  note i = chats_invD [OF inv]
  obtain pl w where c: "pinned_clear (cachePinnedIndex env f) (ch_pins s) = (pl, w)" by fastforce
  have "pins.wf f (ch_pins s)" using i(8) by (simp add: pinned_wf_pins)
  from pins.applyLimit_wf [OF this, of env 0]
  have p: "pinned_wf f (pl, w)" "pl_limit pl = pl_limit (ml_pinned (ch_list s))" "pl_data pl = []"
    using c by (simp_all add: pinned_clear_def pinned_wf_pins)
  let ?il = "il_clear (ml_all (ch_list s))"
  have "il_wf (ch_letters s) ?il" "il_sorted (ch_env s) ?il" "il_sortMode ?il = SortDate" "dl_rows (il_list ?il) = []"
    using i(1-3) by (auto simp: il_clear_def list_clear_def il_wf_def il_sorted_def letter_of_def dl_wf_def dl_sorted_def List_def)
  moreover have "ch_links s = Map.empty" using i(4) empty by auto
  ultimately show "chats_inv f (clearChatsList env f s)" "pl_data (ml_pinned (ch_list (clearChatsList env f s))) = []"
    unfolding chats_inv_def using i p c
    by (simp_all add: clearChatsList_def main_clear_def main_simps Let_def)
qed

lemma inv_heights:
  assumes inv: "chats_inv f s"
    and l: "dl_wf l" "dl_rows l = ch_rows s" "dl_sortMode l = dl_sortMode (il_list (ml_all (ch_list s)))"
  shows "chats_inv f (s\<lparr>ch_list := (ch_list s)\<lparr>ml_all := (ml_all (ch_list s))\<lparr>il_list := l\<rparr>\<rparr>\<rparr>)"
proof -
  note i = chats_invD [OF inv]
  have "il_wf (ch_letters s) ((ml_all (ch_list s))\<lparr>il_list := l\<rparr>)"
    using i(1) l unfolding il_wf_def by simp
  moreover have "il_sorted (ch_env s) ((ml_all (ch_list s))\<lparr>il_list := l\<rparr>)"
  proof -
    have "dl_sorted (ch_env s) l \<longleftrightarrow> dl_sorted (ch_env s) (il_list (ml_all (ch_list s)))"
      by (simp only: dl_sorted_def l(2,3))
    then show ?thesis using i(3) by (simp add: il_sorted_def)
  qed
  ultimately show ?thesis unfolding chats_inv_def using i l by simp
qed

lemma inv_step: "chats_step env f s s' \<Longrightarrow> chats_inv f s \<Longrightarrow> chats_inv f s'"
proof (induction rule: chats_step.induct)
  case (dated_unlisted k e s)
  note i = chats_invD [OF dated_unlisted(3)]
  note wf = il_wfD [OF i(1)]
  have k: "k \<notin> set (ch_rows s)" using i(4) [of k] dated_unlisted(2) by (simp split: if_splits)
  have "il_sorted e (ml_all (ch_list s))"
  proof (rule il_sortedI)
    show "dl_sorted e (il_list (ml_all (ch_list s)))"
      by (rule dl_sorted_readjusted(2) [OF dated_unlisted(1) wf(4) _ il_sortedD(1) [OF i(3)] k])
        (use wf(5) i(2) in simp_all)
    fix c
    have "k \<notin> set (dl_rows (letter_list (ml_all (ch_list s)) c))" using wf(8) [of c] k by blast
    then show "dl_sorted e (letter_list (ml_all (ch_list s)) c)"
      using dl_sorted_readjusted(2) [OF dated_unlisted(1) wf(6) _ il_sortedD(2) [OF i(3)]] wf(7) i(2)
      by metis
  qed
  then show ?case unfolding chats_inv_def using i by simp
next
  case (unread_unlisted s k u)
  note i = chats_invD [OF unread_unlisted(3)]
  have k: "k \<notin> set (ch_rows s)" using i(4) [of k] unread_unlisted(1) by (simp split: if_splits)
  have "(\<Sum>j\<in>set (ch_rows s). us_get x (((ch_unread s)(k := u)) j)) = (\<Sum>j\<in>set (ch_rows s). us_get x (ch_unread s j))" for x
    by (rule sum.cong) (use k in auto)
  then show ?case unfolding chats_inv_def using i unread_unlisted(2) by simp
next
  case (height s k r)
  note i = chats_invD [OF height]
  note h = updateHeight_spec(1-3) [OF il_wfD(4) [OF i(1)], of "ch_env s" k r]
  show ?case
    using inv_heights [OF height h(1) h(2) h(3)] by (simp add: il_updateHeight_def split: prod.splits) (metis fst_conv)
next
  case (heights s r)
  note i = chats_invD [OF heights]
  note h = updateHeights_spec(1-3) [OF il_wfD(4) [OF i(1)], of "ch_env s" r]
  show ?case
    using inv_heights [OF heights h(1) h(2) h(3)] by (simp add: il_updateHeights_def split: prod.splits) (metis fst_conv)
next
  case (loaded s b)
  note i = chats_invD [OF loaded]
  show ?case unfolding chats_inv_def using i by (simp add: setLoaded_def main_simps)
next
  case (muted s b)
  note i = chats_invD [OF muted]
  show ?case unfolding chats_inv_def using i by (simp add: setAllAreMuted_def main_simps)
next
  case (cloud_size s m)
  note i = chats_invD [OF cloud_size]
  show ?case unfolding chats_inv_def using i by (simp add: setCloudListSize_def main_simps)
next
  case (cloud_unread s a b c d)
  note i = chats_invD [OF cloud_unread]
  show ?case unfolding chats_inv_def using i by (simp add: updateCloudUnread_def Let_def main_simps)
next
  case (reordered k1 k2 s t)
  note i = chats_invD [OF reordered(2)]
  have wf: "pins.wf f (ch_pins s)" using i(8) by (simp add: pinned_wf_pins)
  have "k1 \<in> set (pl_data (ml_pinned (ch_list s)))" "k2 \<in> set (pl_data (ml_pinned (ch_list s)))" "k1 \<noteq> k2"
    using reordered(1) by (auto simp: reorder_def Let_def find_key_less split: if_splits)
  from pins.reorder_wf [OF wf this, of env] reordered(1)
  show ?case using i(9) by (intro inv_with_pins [OF reordered(2)]) auto
next
  case (unpinned_all s)
  note i = chats_invD [OF unpinned_all]
  have "pins.wf f (ch_pins s)" using i(8) by (simp add: pinned_wf_pins)
  from pins.applyLimit_wf [OF this, of env 0]
  show ?case using i(9) by (intro inv_with_pins [OF unpinned_all]) (simp_all add: pinned_clear_def)
next
  case (pinned_list s ks)
  note i = chats_invD [OF pinned_list]
  from pins.applyKeys_keeps [of f "ch_pins s" env ks]
  show ?case using i(8,9) by (intro inv_with_pins [OF pinned_list]) (simp_all add: pinned_wf_pins)
next
  case (filter_list hs is_history s)
  note i = chats_invD [OF filter_list(3)]
  from pins.applyList_histories_wf [of f "ml_pinned (ch_list s)" "ch_entries s" hs is_history env]
  show ?case using i(8,9) filter_list(1,2)
    by (intro inv_with_pins [OF filter_list(3)]) (simp_all add: pinned_wf_pins applyList_histories_def)
next
  case (limited n s)
  note i = chats_invD [OF limited(2)]
  from setLimit_wf(1,2) [of f "ml_pinned (ch_list s)" "ch_entries s" env n]
  show ?case using i(8) limited(1) by (intro inv_with_pins [OF limited(2)]) (simp_all add: pinned_wf_pins)
qed (blast intro: inv_added inv_removed inv_setChatPinned(1) inv_dated inv_named inv_unread inv_cleared(1))+

section \<open>Badges\<close>

record badges_state =
  bs_unreadCounter :: int
  bs_unread :: bool
  bs_unreadMuted :: bool
  bs_mention :: bool
  bs_mentionMuted :: bool
  bs_reaction :: bool
  bs_reactionMuted :: bool

definition badges_empty :: "badges_state \<Rightarrow> bool" where
  "badges_empty b \<longleftrightarrow> \<not> bs_unread b \<and> \<not> bs_mention b \<and> \<not> bs_reaction b"

datatype count_in_badge = CountDefault | CountChats | CountMessages

datatype include_in_badge = IncludeDefault | IncludeUnmuted | IncludeAll | IncludeUnmutedOrAll

text \<open>The two settings the defaults stand for are arguments.\<close>

definition BadgesForUnread ::
  "bool \<Rightarrow> bool \<Rightarrow> unread_state \<Rightarrow> count_in_badge \<Rightarrow> include_in_badge \<Rightarrow> badges_state" where
  "BadgesForUnread countUnreadMessages includeMutedCounter state count include =
    (let countMessages = (count = CountMessages \<or> (count = CountDefault \<and> countUnreadMessages));
         counterFull = us_marks state + (if countMessages then us_messages state else us_chats state);
         counterMuted = us_marksMuted state + (if countMessages then us_messagesMuted state else us_chatsMuted state);
         unreadMuted = (counterFull \<le> counterMuted);
         includeMuted = (include = IncludeAll \<or> (include = IncludeUnmutedOrAll \<and> unreadMuted)
           \<or> (include = IncludeDefault \<and> includeMutedCounter));
         marks = us_marks state - (if includeMuted then 0 else us_marksMuted state);
         counter = counterFull - (if includeMuted then 0 else counterMuted);
         mark = (counter = 1 \<and> marks = 1)
     in \<lparr>bs_unreadCounter = (if mark then 0 else counter), bs_unread = (counter > 0),
          bs_unreadMuted = (includeMuted \<and> counter \<le> counterMuted),
          bs_mention = (us_mentions state > 0), bs_mentionMuted = False,
          bs_reaction = (us_reactions state > 0),
          bs_reactionMuted = (us_reactions state \<le> us_reactionsMuted state)\<rparr>)"

text \<open>A list whose chats are all muted shows no unread counter where muted chats are left out,
  but its reactions still show as not muted: only the three other counters are made muted.\<close>

lemma muted_list_badge:
  assumes "ml_allAreMuted ml"
  shows "\<not> bs_unread (BadgesForUnread m i (unreadState ml) count IncludeUnmuted)"
    "us_reactionsMuted (unreadState ml) = (if us_known (ml_cloudUnreadState ml) \<and> \<not> ml_loaded ml
      then us_reactionsMuted (ml_cloudUnreadState ml) else us_reactionsMuted (ml_unreadState ml))"
  using assms by (simp_all add: BadgesForUnread_def unreadState_def Let_def)

section \<open>Properties\<close>

lemma reach_inv: "chats_reach env f s \<Longrightarrow> chats_inv f s"
proof (induction rule: chats_reach.induct)
  case (start s)
  have l: "ml_all (ch_list s) = IndexedList SortDate" using start(6) by (simp add: MainList_def)
  have "il_wf (ch_letters s) (ml_all (ch_list s))"
    using start(1) by (simp add: l il_wf_def IndexedList_def letter_of_def)
  moreover have "il_sorted (ch_env s) (ml_all (ch_list s))"
    by (simp add: l il_sorted_def IndexedList_def letter_of_def)
  moreover have "il_sortMode (ml_all (ch_list s)) = SortDate" "ch_rows s = []"
    by (simp_all add: l IndexedList_def)
  ultimately show ?case
    using start unfolding chats_inv_def
    by (simp add: MainList_def pinned_wf_def pl_cached_def PinnedList_def)
qed (rule inv_step)

lemma removeFromChatList_pins:
  "ml_pinned (ch_list (removeFromChatList env f k s)) = ml_pinned (ch_list s)
    \<or> ml_pinned (ch_list (removeFromChatList env f k s)) = ml_pinned (ch_list (setChatPinned env f k False s))"
  by (simp add: removeFromChatList_def removeEntry_def main_simps Let_def split: option.split)

text \<open>Which steps keep the limit of the pinned chats.\<close>

lemma step_limit:
  assumes "chats_step env f s s'" "chats_inv f s" "length (pl_data (ml_pinned (ch_list s))) \<le> pl_limit (ml_pinned (ch_list s))"
  shows "length (pl_data (ml_pinned (ch_list s'))) \<le> pl_limit (ml_pinned (ch_list s'))
    \<or> (\<exists>is_history hs. s' = with_pins (applyList_histories (cachePinnedIndex env f) is_history hs (ch_pins s)) s)"
proof -
  note i = chats_invD [OF assms(2)]
  have wf: "pins.wf f (ch_pins s)" using i(8) by (simp add: pinned_wf_pins)
  have set: "length (pl_data (ml_pinned (ch_list (setChatPinned env f k p s)))) \<le> pl_limit (ml_pinned (ch_list (setChatPinned env f k p s)))" for k p
    using pins.setPinned_wf [OF wf, of env k] pins.unpin_wf [OF wf, of env k] assms(3) i(9)
      length_pinned_first [of "pl_data (ml_pinned (ch_list s))" "pl_limit (ml_pinned (ch_list s))" k]
    by (cases p) (auto simp: setChatPinned_def setPinned_def length_remove1 split: prod.splits)
  have same: "ml_pinned (ch_list s') = ml_pinned (ch_list s) \<Longrightarrow> ?thesis" using assms(3) by simp
  from assms(1) show ?thesis
  proof cases
    case (removed k)
    then show ?thesis using removeFromChatList_pins [of env f k s] set [of k False] assms(3) by auto
  next
    case (pinned k p)
    then show ?thesis using set by simp
  next
    case (reordered k1 k2 t)
    then show ?thesis using assms(3) by (auto simp: reorder_def Let_def split: if_splits)
  next
    case unpinned_all
    then show ?thesis using pins.applyLimit_wf [OF wf, of env 0] by (simp add: pinned_clear_def)
  next
    case (pinned_list ks)
    then show ?thesis using pins.applyKeys_keeps [OF wf, of env ks] i(9) by simp
  next
    case (limited n)
    then show ?thesis using setLimit_wf [OF wf, of env n] assms(3) by simp
  next
    case cleared
    then show ?thesis using inv_cleared(2) [OF assms(2)] by simp
  next
    case (unread k u)
    then show ?thesis
      by (intro same) (auto simp: notifyUnreadStateChange_def unreadStateChanged_simps(2) split: option.splits)
  next
    case added
    show ?thesis by (rule same) (auto simp: added addToChatList_def addEntry_def main_simps Let_def split: option.split prod.split)
  next
    case dated
    then show ?thesis by (intro same) (auto simp: adjustByPosInChatList_def Let_def split: option.splits)
  next
    case named
    show ?thesis by (rule same) (simp add: named(1) peerNameChanged_def Let_def split: prod.split)
  next
    case filter_list
    then show ?thesis by blast
  qed (rule same, simp add: setLoaded_def setAllAreMuted_def setCloudListSize_def updateCloudUnread_def main_simps Let_def)+
qed

text \<open>Clearing a list with rows is outside of this: \<open>Folder::applyDialog\<close> and \<open>Session::clear\<close> do it
  without telling the entries.\<close>

lemma cleared_list_keeps_links:
  "ch_rows (clearChatsList env f s) = []" "ch_links (clearChatsList env f s) = ch_links s"
  by (simp_all add: clearChatsList_def main_clear_def il_clear_def list_clear_def main_simps Let_def split: prod.splits)

text \<open>C31: Whatever happens to a chat list, in any order, its parts stay consistent: the rows
  are laid out without gaps and sorted by the keys of their entries, the newest first; an entry
  has a row exactly when it has links, under the letters of its name; the unread counters are the
  sums of those of the listed chats; the size shown is the number of rows or what the server
  announced while the list is not loaded; no chat is pinned twice and the entries cache their places
  among the pinned chats. The pinned chats stay at most as many as allowed through every step but
  one: a filter takes over its own list of pinned chats without looking at the limit. What happens is
  what \<open>chats_step\<close> lists; a list is cleared there only when it has no rows, as clearing does
  not take the links from the entries.\<close>

theorem chat_list_invariant:
  assumes "chats_reach env f s"
  shows "dl_wf (il_list (ml_all (ch_list s))) \<and> sorted_wrt (date_order (ch_env s)) (ch_rows s)
    \<and> (\<forall>k. ch_links s k = (if contains_key (il_list (ml_all (ch_list s))) k then Some (ch_letters s k) else None))
    \<and> (\<forall>x. us_get x (ml_unreadState (ch_list s)) = (\<Sum>k\<leftarrow>ch_rows s. us_get x (ch_unread s k)))
    \<and> ml_fullListSize (ch_list s) = max (int (list_size (il_list (ml_all (ch_list s)))))
        (if ml_loaded (ch_list s) then 0 else ml_cloudListSize (ch_list s))
    \<and> distinct (pl_data (ml_pinned (ch_list s)))
    \<and> pl_cached (pinned_index f) (pl_data (ml_pinned (ch_list s))) (ch_entries s)
    \<and> (\<forall>s'. chats_step env f s s' \<and> length (pl_data (ml_pinned (ch_list s))) \<le> pl_limit (ml_pinned (ch_list s))
        \<longrightarrow> length (pl_data (ml_pinned (ch_list s'))) \<le> pl_limit (ml_pinned (ch_list s'))
          \<or> (\<exists>is_history hs. s' = with_pins (applyList_histories (cachePinnedIndex env f) is_history hs (ch_pins s)) s))"
proof -
  note i = chats_invD [OF reach_inv [OF assms]]
  note wf = il_wfD [OF i(1)]
  have k: "contains_key (il_list (ml_all (ch_list s))) k \<longleftrightarrow> k \<in> set (ch_rows s)" for k
    using wf_key_None [OF wf(4)] by (simp add: contains_key_def)
  have "sorted_wrt (date_order (ch_env s)) (ch_rows s)"
    using il_sortedD(1) [OF i(3)] wf(5) i(2) by (simp add: dl_sorted_def)
  moreover have "(\<Sum>j\<in>set (ch_rows s). us_get x (ch_unread s j)) = (\<Sum>j\<leftarrow>ch_rows s. us_get x (ch_unread s j))" for x
    using rows_distinct [OF wf(4)] by (simp add: sum_list_distinct_conv_sum_set)
  moreover have "distinct (pl_data (ml_pinned (ch_list s)))" "pl_cached (pinned_index f) (pl_data (ml_pinned (ch_list s))) (ch_entries s)"
    using i(8) by (simp_all add: pinned_wf_def)
  moreover note step_limit [OF _ reach_inv [OF assms]]
  ultimately show ?thesis
    using i(4,6,7) wf(4) unfolding k by (simp add: list_size_def)
qed

text \<open>C32: Searching a chat list looks only through the shortest list of a letter, but finds
  what comparing every chat with every word would find, each chat once and the newest first: when
  the letters of the chats are those \<open>fillNames\<close> derives from the words of their names, and
  some word of the query is not empty.\<close>

theorem chat_search_complete:
  assumes "chats_reach env f s"
    and "\<And>k. fill_words (names k) = (words k, ch_letters s k)"
    and "\<exists>w\<in>set query. w \<noteq> []"
  shows "set (filtered words query (ml_all (ch_list s))) = {k. ch_links s k \<noteq> None \<and> matches words query k}
    \<and> distinct (filtered words query (ml_all (ch_list s)))
    \<and> sorted_wrt (date_order (ch_env s)) (filtered words query (ml_all (ch_list s)))"
proof -
  note i = chats_invD [OF reach_inv [OF assms(1)]]
  have letters: "hd name \<in> set (ch_letters s k)" if "name \<in> set (words k)" for k name
    using fill_words_letters [OF assms(2) that] .
  note r = filtered_reference [OF i(1) assms(3), of words]
  have "set (filtered words query (ml_all (ch_list s))) = {k \<in> set (ch_rows s). matches words query k}"
    "distinct (filtered words query (ml_all (ch_list s)))"
    by (rule r, use letters in blast)+
  moreover have "ch_links s k \<noteq> None \<longleftrightarrow> k \<in> set (ch_rows s)" for k using i(4) [of k] by simp
  ultimately show ?thesis using filtered_sorted [OF i(1) i(3) i(2)] by simp
qed

definition example_chats :: "(nat, nat, int, nat) chats" where
  "example_chats = \<lparr>ch_env = \<lparr>env_height = (\<lambda>_ _. 60), env_sortKey = of_nat, env_nameKey = (\<lambda>k. k)\<rparr>,
    ch_letters = (\<lambda>k. if k = 5 then [1] else []),
    ch_unread = (\<lambda>k. UnreadState\<lparr>us_messages := int k, us_chats := 1\<rparr>),
    ch_links = Map.empty, ch_entries = \<lparr>es_entry = (\<lambda>_. \<lparr>en_pinnedIndex = [], en_sortKeyInChatList = 0,
      en_sortKeyByDate = 0\<rparr>), es_posToTopShift = 0\<rparr>, ch_list = MainList\<rparr>"

lemma example_chats_reach: "chats_reach env 0 (addToChatList 5 example_chats)"
proof (rule chats_reach.step [OF _ chats_step.added])
  show "chats_reach env 0 example_chats"
    by (rule chats_reach.start)
      (simp_all add: example_chats_def us_sane_def UnreadState_def entries_wf_def pinned_index_def)
qed

lemma example_chats_links: "ch_links (addToChatList 5 example_chats) = [5 \<mapsto> [1]]"
  by (simp add: addToChatList_def addEntry_def il_addToEnd_def example_chats_def MainList_def
      IndexedList_def List_def getRow_def)

lemma example_chats_same [simp]:
  "ch_letters (addToChatList 5 example_chats) = ch_letters example_chats"
  "ch_unread (addToChatList 5 example_chats) = ch_unread example_chats"
  by (simp_all add: addToChatList_def split: option.splits prod.splits)

theorem chat_list_invariant_witness:
  "contains_key (il_list (ml_all (ch_list (addToChatList 5 example_chats)))) 5
    \<and> us_messages (ml_unreadState (ch_list (addToChatList 5 example_chats))) = 5"
proof -
  let ?s = "addToChatList 5 example_chats"
  note all = chat_list_invariant [OF example_chats_reach [where env = example_entry_env]]
  have rows: "ch_rows ?s = [5]"
    by (simp add: addToChatList_def addEntry_def il_addToEnd_def example_chats_def MainList_def IndexedList_def List_def
        getRow_def addToEnd_def adjustByDate_def recountHeight_def new_row_def find_forward_def find_backward_def Let_def main_simps)
  have "contains_key (il_list (ml_all (ch_list ?s))) 5" using all by (metis example_chats_links fun_upd_same option.distinct(1))
  moreover have "us_get Messages (ml_unreadState (ch_list ?s)) = (\<Sum>k\<leftarrow>ch_rows ?s. us_get Messages (ch_unread ?s k))"
    using all by blast
  then have "us_messages (ml_unreadState (ch_list ?s)) = 5"
    unfolding rows by simp (simp add: example_chats_def UnreadState_def)
  ultimately show ?thesis by simp
qed

theorem chat_search_complete_witness:
  "set (filtered (\<lambda>k. if k = 5 then [[1, 2]] else []) [[1]] (ml_all (ch_list (addToChatList 5 example_chats)))) = {5}"
proof -
  have "fill_words (if k = 5 then [[1, 2]] else [])
      = (if k = 5 then [[1, 2]] else [], ch_letters (addToChatList 5 example_chats) k)" for k
    by (simp add: fill_words_def) (simp add: example_chats_def)
  from chat_search_complete [OF example_chats_reach [where env = example_entry_env] this, of "[[1]]"]
  show ?thesis by (auto simp: example_chats_links matches_def startsWith_def split: if_splits)
qed

end
