(* ===== verification/Histories.thy ===== *)
theory Histories imports Ids begin

text \<open>
  The requests of the chats: the part of \<open>Data::Histories\<close>
  (\<open>data/data_histories.{h,cpp}\<close>) that orders them. While a request that deletes
  messages of a chat is under way, its history requests wait; while any other request that
  changes the chat is under way, its entry in the list of chats is not taken from the server;
  reading is collected and sent once.

  A chat is its pointer (an ordered key). The network is the list of active requests with what
  is to be called when an answer comes; a request that is not active any more is not answered.
  A generator is what it needs to be here: a request whose handlers call \<open>finish\<close> or not,
  or the request to read up to a message. Of a chat, \<open>inbox\<close> holds the unread count and
  \<open>_inboxReadBefore\<close>; callbacks are run after the operation that took them. An
  \<open>Expects\<close> or \<open>Assert\<close> that fails is the result \<open>None\<close>.
\<close>

section \<open>State\<close>

datatype request_type = RequestNone | RequestHistory | RequestReadInbox | RequestDelete | RequestSend

datatype generator = Request (calls_finish: bool) nat | ReadRequest int

record sent_request =
  sr_generator :: generator
  sr_id :: int
  sr_type :: request_type

record hstate =
  hs_postponed :: "(int \<times> generator) list"
  hs_sent :: "(int \<times> sent_request) list"
  hs_willReadTill :: int
  hs_sentReadTill :: int
  hs_willReadWhen :: int
  hs_sentReadDone :: bool
  hs_postponedRequestEntry :: bool

definition new_state :: hstate where
  "new_state = \<lparr>hs_postponed = [], hs_sent = [], hs_willReadTill = 0, hs_sentReadTill = 0,
    hs_willReadWhen = 0, hs_sentReadDone = False, hs_postponedRequestEntry = False\<rparr>"

record inbox =
  in_readBefore :: "int option"
  in_unreadCount :: "int option"

record ('h, 'c) histories =
  hi_states :: "('h \<times> hstate) list"
  hi_historyByRequest :: "(int \<times> 'h) list"
  hi_requestAutoincrement :: int
  hi_readRequestsTimer :: "int option"
  hi_dialogRequests :: "('h \<times> 'c list) list"
  hi_dialogRequestsPending :: "('h \<times> 'c list) list"
  hi_postponedCalls :: nat
  hi_dialogsSent :: "'h list list"
  hi_inbox :: "'h \<Rightarrow> inbox"
  hi_net :: "(int \<times> ('h \<times> int \<times> generator)) list"
  hi_netNext :: int

definition kReadRequestTimeout :: int where
  "kReadRequestTimeout = 3 * 1000"

text \<open>Access to the state of a chat: \<open>lookup\<close>, and the writing through a reference.\<close>

definition lookup :: "('h::linorder, 'c) histories \<Rightarrow> 'h \<Rightarrow> hstate option" where
  "lookup s h = map_of (hi_states s) h"

definition put_state :: "'h::linorder \<Rightarrow> hstate \<Rightarrow> ('h, 'c) histories \<Rightarrow> ('h, 'c) histories" where
  "put_state h st s = s\<lparr>hi_states := flat_assign h st (flat_emplace h st (hi_states s))\<rparr>"

definition state_or_new :: "('h::linorder, 'c) histories \<Rightarrow> 'h \<Rightarrow> hstate" where
  "state_or_new s h = (case lookup s h of Some st \<Rightarrow> st | None \<Rightarrow> new_state)"

text \<open>The network: sending hands out the next identifier, cancelling forgets a request.\<close>

definition net_send :: "'h \<Rightarrow> int \<Rightarrow> generator \<Rightarrow> ('h, 'c) histories \<Rightarrow> int \<times> ('h, 'c) histories" where
  "net_send h i gen s = (let n = hi_netNext s
    in (n, s\<lparr>hi_net := flat_emplace n (h, i, gen) (hi_net s), hi_netNext := n + 1\<rparr>))"

definition net_cancel :: "int \<Rightarrow> ('h, 'c) histories \<Rightarrow> ('h, 'c) histories" where
  "net_cancel n s = s\<lparr>hi_net := flat_erase n (hi_net s)\<rparr>"

section \<open>Ordering requests\<close>

definition postponeHistoryRequest :: "hstate \<Rightarrow> bool" where
  "postponeHistoryRequest st \<longleftrightarrow> list_ex (\<lambda>(_, sr). sr_type sr = RequestDelete) (hs_sent st)"

definition postponeEntryRequest :: "hstate \<Rightarrow> bool" where
  "postponeEntryRequest st \<longleftrightarrow> list_ex (\<lambda>(_, sr). sr_type sr \<noteq> RequestHistory) (hs_sent st)"

text \<open>The history requests that are under way when a deletion is sent are cancelled and
  postponed.\<close>

definition resendHistoryRequests :: "hstate \<Rightarrow> hstate" where
  "resendHistoryRequests st = (let resent = filter (\<lambda>(_, sr). sr_type sr = RequestHistory) (hs_sent st)
    in st\<lparr>hs_postponed := fold (\<lambda>(i, sr). flat_emplace i (sr_generator sr)) resent (hs_postponed st),
          hs_sent := filter (\<lambda>(_, sr). sr_type sr \<noteq> RequestHistory) (hs_sent st)\<rparr>)"

definition sendRequest ::
  "'h::linorder \<Rightarrow> request_type \<Rightarrow> generator \<Rightarrow> ('h, 'c) histories \<Rightarrow> int \<times> ('h, 'c) histories" where
  "sendRequest h type gen s =
    (let st = state_or_new s h; i = hi_requestAutoincrement s + 1;
         s1 = s\<lparr>hi_requestAutoincrement := i, hi_historyByRequest := flat_emplace i h (hi_historyByRequest s)\<rparr>
     in if type = RequestHistory \<and> postponeHistoryRequest st
        then (i, put_state h (st\<lparr>hs_postponed := flat_emplace i gen (hs_postponed st)\<rparr>) s1)
        else
          let (n, s2) = net_send h i gen s1;
              st1 = st\<lparr>hs_sent := flat_emplace i \<lparr>sr_generator = gen, sr_id = n, sr_type = type\<rparr> (hs_sent st)\<rparr>;
              st2 = (if \<not> hs_postponedRequestEntry st1 \<and> postponeEntryRequest st1
                       \<and> map_of (hi_dialogRequests s2) h \<noteq> None
                     then st1\<lparr>hs_postponedRequestEntry := True\<rparr> else st1)
          in if postponeHistoryRequest st2
             then (i, put_state h (resendHistoryRequests st2)
               (fold net_cancel (List.map (\<lambda>(_, sr). sr_id sr)
                 (filter (\<lambda>(_, sr). sr_type sr = RequestHistory) (hs_sent st2))) s2))
             else (i, put_state h st2 s2))"

definition checkEmptyState :: "'h::linorder \<Rightarrow> ('h, 'c) histories \<Rightarrow> ('h, 'c) histories" where
  "checkEmptyState h s = (case lookup s h of None \<Rightarrow> s
    | Some st \<Rightarrow>
        if hs_postponed st = [] \<and> \<not> hs_postponedRequestEntry st \<and> hs_sent st = []
          \<and> hs_willReadTill st = 0 \<and> hs_sentReadTill st = 0
        then s\<lparr>hi_states := flat_erase h (hi_states s)\<rparr> else s)"

definition postponeRequestDialogEntries :: "('h, 'c) histories \<Rightarrow> ('h, 'c) histories" where
  "postponeRequestDialogEntries s =
    (if length (hi_dialogRequestsPending s) > 1 then s else s\<lparr>hi_postponedCalls := hi_postponedCalls s + 1\<rparr>)"

text \<open>Sending the postponed history requests once no deletion is under way.\<close>

fun send_postponed ::
  "'h::linorder \<Rightarrow> (int \<times> generator) list \<Rightarrow> hstate \<times> ('h, 'c) histories \<Rightarrow> hstate \<times> ('h, 'c) histories" where
  "send_postponed h [] p = p"
| "send_postponed h ((i, gen) # rest) (st, s) =
    (let (n, s1) = net_send h i gen s
     in send_postponed h rest
       (st\<lparr>hs_sent := flat_emplace i \<lparr>sr_generator = gen, sr_id = n, sr_type = RequestHistory\<rparr> (hs_sent st)\<rparr>, s1))"

definition erase_sent :: "int \<Rightarrow> hstate \<times> ('h, 'c) histories \<Rightarrow> hstate \<times> ('h, 'c) histories" where
  "erase_sent i p = (case p of (st, s) \<Rightarrow>
    (case map_of (hs_sent st) i of None \<Rightarrow> (st, s)
     | Some sr \<Rightarrow> (st\<lparr>hs_sent := flat_erase i (hs_sent st)\<rparr>, net_cancel (sr_id sr) s)))"

definition resume_postponed ::
  "'h::linorder \<Rightarrow> hstate \<times> ('h, 'c) histories \<Rightarrow> hstate \<times> ('h, 'c) histories" where
  "resume_postponed h p = (case p of (st, s) \<Rightarrow>
    if hs_postponed st \<noteq> [] \<and> \<not> postponeHistoryRequest st
    then send_postponed h (hs_postponed st) (st\<lparr>hs_postponed := []\<rparr>, s) else (st, s))"

definition finishSentRequest ::
  "'h::linorder \<Rightarrow> int \<Rightarrow> ('h, 'c) histories \<Rightarrow> ('h, 'c) histories option" where
  "finishSentRequest h i s =
    (let s1 = s\<lparr>hi_historyByRequest := flat_erase i (hi_historyByRequest s)\<rparr>;
         (st, s2) = resume_postponed h (erase_sent i (state_or_new s h, s1))
     in if hs_postponedRequestEntry st \<and> \<not> postponeEntryRequest st
        then case map_of (hi_dialogRequests s2) h of None \<Rightarrow> None
          | Some callbacks \<Rightarrow>
              if map_of (hi_dialogRequestsPending s2) h \<noteq> None then None
              else Some (checkEmptyState h (postponeRequestDialogEntries
                (put_state h (st\<lparr>hs_postponedRequestEntry := False\<rparr>)
                  (s2\<lparr>hi_dialogRequestsPending := flat_emplace h callbacks (hi_dialogRequestsPending s2),
                      hi_dialogRequests := flat_erase h (hi_dialogRequests s2)\<rparr>))))
        else Some (checkEmptyState h (put_state h st s2)))"

definition checkPostponed :: "'h::linorder \<Rightarrow> int \<Rightarrow> ('h, 'c) histories \<Rightarrow> ('h, 'c) histories option" where
  "checkPostponed h i s = (case lookup s h of None \<Rightarrow> Some s | Some _ \<Rightarrow> finishSentRequest h i s)"

text \<open>Requests that wait for a topic to be created are cancelled elsewhere.\<close>

definition cancelRequest :: "int \<Rightarrow> ('h::linorder, 'c) histories \<Rightarrow> ('h, 'c) histories option" where
  "cancelRequest i s =
    (if i = 0 then Some s
     else case map_of (hi_historyByRequest s) i of None \<Rightarrow> Some s
       | Some h \<Rightarrow>
           let s1 = s\<lparr>hi_historyByRequest := flat_erase i (hi_historyByRequest s)\<rparr>
           in case lookup s1 h of None \<Rightarrow> Some s1
             | Some st \<Rightarrow> finishSentRequest h i
                 (put_state h (st\<lparr>hs_postponed := flat_erase i (hs_postponed st)\<rparr>) s1))"

section \<open>Entries of the list of chats\<close>

definition requestDialogEntry ::
  "'h::linorder \<Rightarrow> 'c option \<Rightarrow> ('h, 'c) histories \<Rightarrow> ('h, 'c) histories" where
  "requestDialogEntry h callback s =
    (let more = (case callback of None \<Rightarrow> [] | Some c \<Rightarrow> [c])
     in case map_of (hi_dialogRequests s) h of
          Some cs \<Rightarrow> s\<lparr>hi_dialogRequests := flat_assign h (cs @ more) (hi_dialogRequests s)\<rparr>
        | None \<Rightarrow>
            (case map_of (hi_dialogRequestsPending s) h of
               Some cs \<Rightarrow> s\<lparr>hi_dialogRequestsPending := flat_assign h (cs @ more) (hi_dialogRequestsPending s)\<rparr>
             | None \<Rightarrow> postponeRequestDialogEntries
                 (s\<lparr>hi_dialogRequestsPending := flat_emplace h more (hi_dialogRequestsPending s)\<rparr>)))"

text \<open>Choosing the chats to ask for: a chat that must wait is marked.\<close>

fun choose_dialogs :: "'h::linorder list \<Rightarrow> ('h, 'c) histories \<Rightarrow> 'h list \<times> ('h, 'c) histories" where
  "choose_dialogs [] s = ([], s)"
| "choose_dialogs (h # hs) s =
    (case lookup s h of
       None \<Rightarrow> (let (r, s') = choose_dialogs hs s in (h # r, s'))
     | Some st \<Rightarrow>
         if \<not> postponeEntryRequest st then (let (r, s') = choose_dialogs hs s in (h # r, s'))
         else choose_dialogs hs (put_state h (st\<lparr>hs_postponedRequestEntry := True\<rparr>) s))"

definition sendDialogRequests :: "('h::linorder, 'c) histories \<Rightarrow> ('h, 'c) histories" where
  "sendDialogRequests s =
    (if hi_dialogRequestsPending s = [] then s
     else
       let (hs, s1) = choose_dialogs (List.map fst (hi_dialogRequestsPending s)) s
       in s1\<lparr>hi_dialogRequests := fold (\<lambda>(h, cs). flat_emplace h cs) (hi_dialogRequestsPending s1) (hi_dialogRequests s1),
            hi_dialogRequestsPending := [], hi_dialogsSent := hi_dialogsSent s1 @ [hs]\<rparr>)"

definition setInboxReadTill :: "int \<Rightarrow> inbox \<Rightarrow> inbox" where
  "setInboxReadTill upTo b = b\<lparr>in_readBefore := Some (case in_readBefore b of
    Some before \<Rightarrow> max before (upTo + 1) | None \<Rightarrow> upTo + 1)\<rparr>"

definition upd_inbox :: "'h \<Rightarrow> (inbox \<Rightarrow> inbox) \<Rightarrow> ('h, 'c) histories \<Rightarrow> ('h, 'c) histories" where
  "upd_inbox h f s = s\<lparr>hi_inbox := (hi_inbox s)(h := f (hi_inbox s h))\<rparr>"

definition dialogEntryApplied :: "'h::linorder \<Rightarrow> ('h, 'c) histories \<Rightarrow> ('h, 'c) histories \<times> 'c list" where
  "dialogEntryApplied h s =
    (let state = lookup s h
     in if (case state of Some st \<Rightarrow> hs_postponedRequestEntry st | None \<Rightarrow> False) then (s, [])
        else
          let pending = (case map_of (hi_dialogRequestsPending s) h of Some cs \<Rightarrow> cs | None \<Rightarrow> []);
              requested = (case map_of (hi_dialogRequests s) h of Some cs \<Rightarrow> cs | None \<Rightarrow> []);
              s1 = s\<lparr>hi_dialogRequestsPending := flat_erase h (hi_dialogRequestsPending s),
                     hi_dialogRequests := flat_erase h (hi_dialogRequests s)\<rparr>
          in (case state of
                Some st \<Rightarrow>
                  if hs_sentReadTill st \<noteq> 0 \<and> hs_sentReadDone st
                  then checkEmptyState h (upd_inbox h (setInboxReadTill (hs_sentReadTill st))
                    (put_state h (st\<lparr>hs_sentReadTill := 0\<rparr>) s1))
                  else s1
              | None \<Rightarrow> s1,
              pending @ requested))"

fun finalize_dialogs :: "'h::linorder list \<Rightarrow> ('h, 'c) histories \<Rightarrow> ('h, 'c) histories \<times> 'c list" where
  "finalize_dialogs [] s = (s, [])"
| "finalize_dialogs (h # hs) s =
    (let (s1, cs) = (if (case lookup s h of Some st \<Rightarrow> hs_postponedRequestEntry st | None \<Rightarrow> False)
                     then (s, []) else dialogEntryApplied h s);
         (s2, cs') = finalize_dialogs hs s1
     in (s2, cs @ cs'))"

section \<open>Reading\<close>

definition sendReadRequest :: "'h::linorder \<Rightarrow> ('h, 'c) histories \<Rightarrow> ('h, 'c) histories option" where
  "sendReadRequest h s =
    (let st = state_or_new s h; tillId = hs_willReadTill st
     in if \<not> hs_willReadTill st > hs_sentReadTill st then None
        else Some (snd (sendRequest h RequestReadInbox (ReadRequest tillId)
          (put_state h (st\<lparr>hs_sentReadTill := tillId, hs_willReadTill := 0, hs_willReadWhen := 0,
             hs_sentReadDone := False\<rparr>) s))))"

fun read_loop ::
  "int \<Rightarrow> 'h::linorder list \<Rightarrow> int option \<Rightarrow> ('h, 'c) histories \<Rightarrow> (int option \<times> ('h, 'c) histories) option" where
  "read_loop now [] nxt s = Some (nxt, s)"
| "read_loop now (h # hs) nxt s =
    (let st = state_or_new s h
     in if hs_willReadTill st = 0 then read_loop now hs nxt s
        else if hs_willReadWhen st \<le> now then
          (case sendReadRequest h s of None \<Rightarrow> None | Some s1 \<Rightarrow> read_loop now hs nxt s1)
        else if (case nxt of None \<Rightarrow> True | Some w \<Rightarrow> w > hs_willReadWhen st)
        then read_loop now hs (Some (hs_willReadWhen st)) s
        else read_loop now hs nxt s)"

definition sendReadRequests :: "int \<Rightarrow> ('h::linorder, 'c) histories \<Rightarrow> ('h, 'c) histories option" where
  "sendReadRequests now s =
    (if hi_states s = [] then Some s
     else case read_loop now (List.map fst (hi_states s)) None s of
         None \<Rightarrow> None
       | Some (nxt, s1) \<Rightarrow> Some (s1\<lparr>hi_readRequestsTimer := map_option (\<lambda>w. w - now) nxt\<rparr>))"

definition sendPendingReadInbox :: "int \<Rightarrow> 'h::linorder \<Rightarrow> ('h, 'c) histories \<Rightarrow> ('h, 'c) histories option" where
  "sendPendingReadInbox now h s = (case lookup s h of None \<Rightarrow> Some s
    | Some st \<Rightarrow>
        if hs_willReadTill st \<noteq> 0 \<and> hs_willReadWhen st \<noteq> 0
        then sendReadRequests now (put_state h (st\<lparr>hs_willReadWhen := 0\<rparr>) s) else Some s)"

definition unreadCountRefreshNeeded :: "int \<Rightarrow> inbox \<Rightarrow> bool" where
  "unreadCountRefreshNeeded readTillId b \<longleftrightarrow> in_unreadCount b = None
    \<or> readTillId + 1 > (case in_readBefore b of Some x \<Rightarrow> x | None \<Rightarrow> 0)"

text \<open>The answer to a request to read up to \<open>tillId\<close>.\<close>

definition readFinished :: "int \<Rightarrow> 'h::linorder \<Rightarrow> int \<Rightarrow> int \<Rightarrow> ('h, 'c) histories \<Rightarrow> ('h, 'c) histories option" where
  "readFinished now h i tillId s = (case lookup s h of None \<Rightarrow> None
    | Some st \<Rightarrow>
        if hs_sentReadTill st = tillId then
          let s1 = (if unreadCountRefreshNeeded tillId (hi_inbox s h)
                then requestDialogEntry h None (put_state h (st\<lparr>hs_sentReadDone := True\<rparr>) s)
                else put_state h (st\<lparr>hs_sentReadDone := True, hs_sentReadTill := 0\<rparr>) s)
          in Option.bind (sendReadRequests now s1) (checkPostponed h i)
        else if hs_sentReadTill st = 0 \<or> hs_sentReadTill st > tillId then
          Option.bind (sendReadRequests now s) (checkPostponed h i)
        else None)"

text \<open>What the chat answers to \<open>readInboxTill\<close>: whether its unread messages are tracked,
  how many would still be unread if that can be counted, its last server message, whether the last
  message is an outgoing one at the bottom, and the last message that can be read.\<close>

record read_answers =
  ra_trackUnreadMessages :: bool
  ra_stillUnread :: "int option"
  ra_lastServerMessage :: "int option"
  ra_lastOutgoing :: bool
  ra_msgIdForRead :: "int option"

definition readInboxTillNeedsRequest :: "int \<Rightarrow> inbox \<Rightarrow> bool" where
  "readInboxTillNeedsRequest tillId b \<longleftrightarrow>
    IsServerMsgId tillId \<and> (case in_readBefore b of Some x \<Rightarrow> x | None \<Rightarrow> 1) \<le> tillId"

definition unreadCount :: "inbox \<Rightarrow> int" where
  "unreadCount b = (case in_unreadCount b of Some n \<Rightarrow> n | None \<Rightarrow> 0)"

definition setUnreadCount :: "read_answers \<Rightarrow> int \<Rightarrow> inbox \<Rightarrow> inbox" where
  "setUnreadCount a newUnreadCount b =
    (if in_unreadCount b = Some newUnreadCount then b
     else
       let b1 = b\<lparr>in_unreadCount := Some newUnreadCount\<rparr>
       in if newUnreadCount = 1 \<and> \<not> ra_lastOutgoing a
          then (case ra_msgIdForRead a of Some lastId \<Rightarrow> setInboxReadTill (lastId - 1) b1 | None \<Rightarrow> b1)
          else if newUnreadCount = 0
          then (case ra_msgIdForRead a of Some lastId \<Rightarrow> setInboxReadTill lastId b1 | None \<Rightarrow> b1)
          else b1)"

text \<open>\<open>syncGuard\<close> runs when the scope ends.\<close>

definition syncGuard :: "read_answers \<Rightarrow> 'h \<Rightarrow> int \<Rightarrow> ('h, 'c) histories \<Rightarrow> ('h, 'c) histories" where
  "syncGuard a h tillId s =
    (if unreadCount (hi_inbox s h) > 0 \<and> ra_lastServerMessage a = Some tillId
     then upd_inbox h (setUnreadCount a 0) s else s)"

definition readInboxTill_scope ::
  "read_answers \<Rightarrow> int \<Rightarrow> 'h::linorder \<Rightarrow> int \<Rightarrow> bool \<Rightarrow> ('h, 'c) histories \<Rightarrow> ('h, 'c) histories option" where
  "readInboxTill_scope a now h tillId force s =
    (let b = hi_inbox s h; needsRequest = readInboxTillNeedsRequest tillId b;
         maybeState = lookup s h; stillUnread = ra_stillUnread a
     in if \<not> needsRequest \<and> \<not> force then Some s
        else if \<not> ra_trackUnreadMessages a then Some s
        else if (case maybeState of Some st \<Rightarrow> hs_sentReadTill st \<ge> tillId | None \<Rightarrow> False) then Some s
        else if (case maybeState of Some st \<Rightarrow> hs_willReadTill st \<ge> tillId | None \<Rightarrow> False)
        then (if force then sendPendingReadInbox now h s else Some s)
        else if \<not> needsRequest \<and> (case maybeState of Some st \<Rightarrow> hs_willReadTill st = 0 | None \<Rightarrow> True)
        then Some s
        else if \<not> force \<and> stillUnread \<noteq> None \<and> in_unreadCount b \<noteq> None
          \<and> the stillUnread = unreadCount b
        then Some (upd_inbox h (setInboxReadTill tillId) s)
        else
          let st = (state_or_new s h)\<lparr>hs_willReadTill := tillId\<rparr>;
              marked = (\<lambda>s. case stillUnread of None \<Rightarrow> s
                | Some n \<Rightarrow> upd_inbox h (setUnreadCount a n \<circ> setInboxReadTill tillId) s)
          in if force \<or> stillUnread = None \<or> stillUnread = Some 0
             then map_option marked (sendReadRequests now (put_state h (st\<lparr>hs_willReadWhen := 0\<rparr>) s))
             else if hs_willReadWhen st = 0
             then Some (marked ((put_state h (st\<lparr>hs_willReadWhen := now + kReadRequestTimeout\<rparr>) s)
               \<lparr>hi_readRequestsTimer := (case hi_readRequestsTimer s of
                  None \<Rightarrow> Some kReadRequestTimeout | Some d \<Rightarrow> Some d)\<rparr>))
             else Some (marked (put_state h st s)))"

definition readInboxTill ::
  "read_answers \<Rightarrow> int \<Rightarrow> 'h::linorder \<Rightarrow> int \<Rightarrow> bool \<Rightarrow> ('h, 'c) histories \<Rightarrow> ('h, 'c) histories option" where
  "readInboxTill a now h tillId force s =
    (if IsServerMsgId tillId \<or> (tillId = 0 \<and> \<not> force)
     then map_option (syncGuard a h tillId) (readInboxTill_scope a now h tillId force s) else None)"

section \<open>What can happen\<close>

text \<open>An answer to an active request.\<close>

definition answered :: "int \<Rightarrow> int \<Rightarrow> ('h::linorder, 'c) histories \<Rightarrow> ('h, 'c) histories option" where
  "answered now n s = (case map_of (hi_net s) n of None \<Rightarrow> Some s
    | Some (h, i, gen) \<Rightarrow>
        let s1 = net_cancel n s
        in case gen of
             Request finish label \<Rightarrow> (if finish then checkPostponed h i s1 else Some s1)
           | ReadRequest tillId \<Rightarrow> readFinished now h i tillId s1)"

text \<open>Every step but the cancelling of a request, and every step.\<close>

inductive histories_action :: "('h::linorder, 'c) histories \<Rightarrow> ('h, 'c) histories option \<Rightarrow> bool" where
  send: "type \<in> {RequestHistory, RequestDelete, RequestSend} \<Longrightarrow>
    histories_action s (Some (snd (sendRequest h type (Request f l) s)))"
| answer: "histories_action s (answered now n s)"
| entry: "histories_action s (Some (requestDialogEntry h c s))"
| postponed_call: "hi_postponedCalls s = Suc m \<Longrightarrow>
    histories_action s (Some (sendDialogRequests (s\<lparr>hi_postponedCalls := m\<rparr>)))"
| dialogs: "hi_dialogsSent s = ds @ hs # ds' \<Longrightarrow>
    histories_action s (Some (fst (finalize_dialogs hs (s\<lparr>hi_dialogsSent := ds @ ds'\<rparr>))))"
| applied: "histories_action s (Some (fst (dialogEntryApplied h s)))"
| read: "IsServerMsgId t \<or> (t = 0 \<and> \<not> force) \<Longrightarrow> histories_action s (readInboxTill a now h t force s)"
| read_pending: "histories_action s (sendPendingReadInbox now h s)"
| timer: "hi_readRequestsTimer s = Some d \<Longrightarrow>
    histories_action s (sendReadRequests now (s\<lparr>hi_readRequestsTimer := None\<rparr>))"
| inbox_grows: "(\<And>x. in_readBefore (hi_inbox s h) = Some x \<Longrightarrow> \<exists>y. in_readBefore b = Some y \<and> x \<le> y) \<Longrightarrow>
    histories_action s (Some (upd_inbox h (\<lambda>_. b) s))"

inductive histories_step :: "('h::linorder, 'c) histories \<Rightarrow> ('h, 'c) histories option \<Rightarrow> bool" where
  action: "histories_action s r \<Longrightarrow> histories_step s r"
| cancel: "histories_step s (cancelRequest i s)"

lemmas histories_step_send = histories_step.action [OF histories_action.send]
lemmas histories_step_answer = histories_step.action [OF histories_action.answer]

inductive histories_reach :: "('h::linorder, 'c) histories \<Rightarrow> bool" where
  start: "histories_reach \<lparr>hi_states = [], hi_historyByRequest = [], hi_requestAutoincrement = 0,
    hi_readRequestsTimer = None, hi_dialogRequests = [], hi_dialogRequestsPending = [],
    hi_postponedCalls = 0, hi_dialogsSent = [], hi_inbox = b, hi_net = [], hi_netNext = 1\<rparr>"
| step: "histories_reach s \<Longrightarrow> histories_step s (Some s') \<Longrightarrow> histories_reach s'"

text \<open>What can happen from a state on, when only requests of a given set are cancelled.\<close>

inductive histories_run :: "int set \<Rightarrow> ('h::linorder, 'c) histories \<Rightarrow> ('h, 'c) histories \<Rightarrow> bool"
  for C :: "int set" where
  here: "histories_run C s s"
| acts: "histories_run C s s' \<Longrightarrow> histories_action s' (Some s'') \<Longrightarrow> histories_run C s s''"
| cancels: "histories_run C s s' \<Longrightarrow> i \<in> C \<Longrightarrow> cancelRequest i s' = Some s'' \<Longrightarrow> histories_run C s s''"

lemma histories_run_reach: "histories_run C s s' \<Longrightarrow> histories_reach s \<Longrightarrow> histories_reach s'"
  by (induction rule: histories_run.induct) (metis histories_reach.step histories_step.intros)+

end
