(* ===== verification/HistoriesRuns.thy ===== *)
theory HistoriesRuns imports Histories begin

text \<open>
  What holds of every run of the requests of the chats: the invariant of the state of one chat
  (\<open>state_inv\<close>) and of all of them (\<open>hist_inv\<close>), the lemma that each operation of
  \<open>Histories\<close> succeeds and keeps it, and the properties that follow for reachable states.
\<close>

section \<open>The invariant\<close>

text \<open>What holds of the state of one chat: deletions exclude history requests, requests wait
  only for a deletion, a marked entry is one that was asked for, and the messages to read up to
  grow.\<close>

definition state_inv ::
  "(int \<rightharpoonup> 'h) \<Rightarrow> int \<Rightarrow> ('h \<rightharpoonup> 'c list) \<Rightarrow> inbox \<Rightarrow> 'h \<Rightarrow> hstate \<Rightarrow> bool" where
  "state_inv byRequest latest dialogs b h st \<longleftrightarrow>
    keys_sorted (hs_postponed st) \<and> keys_sorted (hs_sent st)
    \<and> (\<forall>i. i \<in> dom (map_of (hs_postponed st)) \<union> dom (map_of (hs_sent st)) \<longrightarrow> byRequest i = Some h \<and> i \<le> latest)
    \<and> dom (map_of (hs_postponed st)) \<inter> dom (map_of (hs_sent st)) = {}
    \<and> (hs_postponed st \<noteq> [] \<longrightarrow> postponeHistoryRequest st)
    \<and> (postponeHistoryRequest st \<longrightarrow> (\<forall>i sr. map_of (hs_sent st) i = Some sr \<longrightarrow> sr_type sr \<noteq> RequestHistory))
    \<and> (hs_postponedRequestEntry st \<longrightarrow> dialogs h \<noteq> None \<and> postponeEntryRequest st)
    \<and> 0 \<le> hs_sentReadTill st \<and> (hs_willReadTill st = 0 \<or> hs_willReadTill st > hs_sentReadTill st)
    \<and> (\<forall>i g. map_of (hs_postponed st) i = Some g \<longrightarrow> (\<exists>f l. g = Request f l))
    \<and> (\<forall>i sr t. map_of (hs_sent st) i = Some sr \<longrightarrow> sr_generator sr = ReadRequest t \<longrightarrow>
        sr_type sr = RequestReadInbox \<and> 0 < t \<and> (hs_willReadTill st = 0 \<or> t < hs_willReadTill st)
        \<and> (t \<le> hs_sentReadTill st
          \<or> hs_sentReadTill st = 0 \<and> (\<exists>x. in_readBefore b = Some x \<and> t < x)))"

definition hist_inv :: "('h::linorder, 'c) histories \<Rightarrow> bool" where
  "hist_inv s \<longleftrightarrow>
    keys_sorted (hi_states s) \<and> keys_sorted (hi_historyByRequest s) \<and> keys_sorted (hi_net s)
    \<and> keys_sorted (hi_dialogRequests s) \<and> keys_sorted (hi_dialogRequestsPending s)
    \<and> dom (map_of (hi_dialogRequests s)) \<inter> dom (map_of (hi_dialogRequestsPending s)) = {}
    \<and> (\<forall>n \<in> dom (map_of (hi_net s)). n < hi_netNext s)
    \<and> (\<forall>i \<in> dom (map_of (hi_historyByRequest s)). i \<le> hi_requestAutoincrement s)
    \<and> (\<forall>h st. lookup s h = Some st \<longrightarrow> state_inv (map_of (hi_historyByRequest s))
        (hi_requestAutoincrement s) (map_of (hi_dialogRequests s)) (hi_inbox s h) h st)
    \<and> (\<forall>n h i g. map_of (hi_net s) n = Some (h, i, g) \<longrightarrow>
        (\<exists>st sr. lookup s h = Some st \<and> map_of (hs_sent st) i = Some sr \<and> sr_id sr = n \<and> sr_generator sr = g))"

lemma sent_ex:
  "keys_sorted m \<Longrightarrow> list_ex (\<lambda>(_, x). P x) m \<longleftrightarrow> (\<exists>i x. map_of m i = Some x \<and> P x)"
  by (force simp: list_ex_iff dest: map_of_SomeD intro: map_of_is_SomeI ssorted_distinct)

lemma postponeHistory_iff:
  "keys_sorted (hs_sent st) \<Longrightarrow> postponeHistoryRequest st
    \<longleftrightarrow> (\<exists>i sr. map_of (hs_sent st) i = Some sr \<and> sr_type sr = RequestDelete)"
  unfolding postponeHistoryRequest_def by (rule sent_ex)

lemma postponeEntry_iff:
  "keys_sorted (hs_sent st) \<Longrightarrow> postponeEntryRequest st
    \<longleftrightarrow> (\<exists>i sr. map_of (hs_sent st) i = Some sr \<and> sr_type sr \<noteq> RequestHistory)"
  unfolding postponeEntryRequest_def by (rule sent_ex)

lemma map_of_filter_value:
  "keys_sorted m \<Longrightarrow> map_of (filter (\<lambda>(_, x). P x) m) i = (case map_of m i of Some x \<Rightarrow> if P x then Some x else None | None \<Rightarrow> None)"
proof (induction m)
  case (Cons e m)
  then have "map_of m (fst e) = None" by (auto simp: map_of_eq_None_iff)
  with Cons show ?case by (auto split: option.splits)
qed simp

lemma keys_sorted_filter [simp]: "keys_sorted m \<Longrightarrow> keys_sorted (filter P m)"
  by (induction m) auto

lemma lookup_put [simp]: "keys_sorted (hi_states s) \<Longrightarrow> lookup (put_state h st s) = (lookup s)(h \<mapsto> st)"
  by (auto simp: lookup_def put_state_def map_of_flat_assign map_of_flat_emplace fun_eq_iff)

lemma put_state_simps [simp]:
  "hi_historyByRequest (put_state h st s) = hi_historyByRequest s"
  "hi_requestAutoincrement (put_state h st s) = hi_requestAutoincrement s"
  "hi_dialogRequests (put_state h st s) = hi_dialogRequests s"
  "hi_dialogRequestsPending (put_state h st s) = hi_dialogRequestsPending s"
  "hi_inbox (put_state h st s) = hi_inbox s" "hi_net (put_state h st s) = hi_net s"
  "hi_netNext (put_state h st s) = hi_netNext s" "hi_readRequestsTimer (put_state h st s) = hi_readRequestsTimer s"
  "hi_dialogsSent (put_state h st s) = hi_dialogsSent s" "hi_postponedCalls (put_state h st s) = hi_postponedCalls s"
  "keys_sorted (hi_states s) \<Longrightarrow> keys_sorted (hi_states (put_state h st s))"
  by (simp_all add: put_state_def)

lemma hist_invD:
  assumes "hist_inv s"
  shows "keys_sorted (hi_states s)" "keys_sorted (hi_historyByRequest s)" "keys_sorted (hi_net s)"
    "keys_sorted (hi_dialogRequests s)" "keys_sorted (hi_dialogRequestsPending s)"
    "map_of (hi_dialogRequests s) h = None \<or> map_of (hi_dialogRequestsPending s) h = None"
    "map_of (hi_net s) n = Some x \<Longrightarrow> n < hi_netNext s"
    "map_of (hi_historyByRequest s) i = Some h \<Longrightarrow> i \<le> hi_requestAutoincrement s"
    "lookup s h = Some st \<Longrightarrow> state_inv (map_of (hi_historyByRequest s))
        (hi_requestAutoincrement s) (map_of (hi_dialogRequests s)) (hi_inbox s h) h st"
    "map_of (hi_net s) n = Some (h, i, g) \<Longrightarrow>
        \<exists>st sr. lookup s h = Some st \<and> map_of (hs_sent st) i = Some sr \<and> sr_id sr = n \<and> sr_generator sr = g"
  using assms unfolding hist_inv_def by (blast | force simp: dom_def)+

lemma new_state_inv: "state_inv byRequest latest dialogs b h new_state"
  by (simp add: state_inv_def new_state_def postponeHistoryRequest_def postponeEntryRequest_def)

lemma state_or_new_inv:
  "hist_inv s \<Longrightarrow> state_inv (map_of (hi_historyByRequest s)) (hi_requestAutoincrement s)
    (map_of (hi_dialogRequests s)) (hi_inbox s h) h (state_or_new s h)"
  using hist_invD(9) new_state_inv by (auto simp: state_or_new_def split: option.splits)

section \<open>Operations keep the invariant\<close>

lemma state_inv_mono:
  assumes "state_inv R a D b h st"
    and "\<And>i. R i = Some h \<Longrightarrow> i \<in> dom (map_of (hs_postponed st)) \<union> dom (map_of (hs_sent st)) \<Longrightarrow> R' i = Some h"
    and "a \<le> a'" "D h \<noteq> None \<Longrightarrow> D' h \<noteq> None"
    and "\<And>x. in_readBefore b = Some x \<Longrightarrow> \<exists>y. in_readBefore b' = Some y \<and> x \<le> y"
  shows "state_inv R' a' D' b' h st"
proof -
  have "\<exists>y. in_readBefore b' = Some y \<and> t < y" if "in_readBefore b = Some x" "t < x" for x t
    using assms(5) [OF that(1)] that(2) by fastforce
  moreover have "R' i = Some h \<and> i \<le> a'" if "i \<in> dom (map_of (hs_postponed st)) \<union> dom (map_of (hs_sent st))" for i
    using that assms(1-3) by (fastforce simp: state_inv_def)
  ultimately show ?thesis using assms(1,4) unfolding state_inv_def by blast
qed

lemma hist_inv_update:
  assumes inv: "hist_inv s"
    and ks: "keys_sorted (hi_states s')" "keys_sorted (hi_historyByRequest s')" "keys_sorted (hi_net s')"
      "keys_sorted (hi_dialogRequests s')" "keys_sorted (hi_dialogRequestsPending s')"
    and dis: "\<And>k. map_of (hi_dialogRequests s') k = None \<or> map_of (hi_dialogRequestsPending s') k = None"
    and net: "\<And>n x. map_of (hi_net s') n = Some x \<Longrightarrow> n < hi_netNext s'"
    and ids: "\<And>i k. map_of (hi_historyByRequest s') i = Some k \<Longrightarrow> i \<le> hi_requestAutoincrement s'"
    and others: "\<And>k. k \<noteq> h \<Longrightarrow> lookup s' k = lookup s k"
    and keep: "\<And>i k. k \<noteq> h \<Longrightarrow> map_of (hi_historyByRequest s) i = Some k \<Longrightarrow> map_of (hi_historyByRequest s') i = Some k"
    and latest: "hi_requestAutoincrement s \<le> hi_requestAutoincrement s'"
    and dialogs: "\<And>k. k \<noteq> h \<Longrightarrow> map_of (hi_dialogRequests s) k \<noteq> None \<Longrightarrow> map_of (hi_dialogRequests s') k \<noteq> None"
    and boxes: "\<And>k. k \<noteq> h \<Longrightarrow> hi_inbox s' k = hi_inbox s k"
    and st: "\<And>st. lookup s' h = Some st \<Longrightarrow> state_inv (map_of (hi_historyByRequest s'))
        (hi_requestAutoincrement s') (map_of (hi_dialogRequests s')) (hi_inbox s' h) h st"
    and sent: "\<And>n k i g. map_of (hi_net s') n = Some (k, i, g) \<Longrightarrow>
        \<exists>st sr. lookup s' k = Some st \<and> map_of (hs_sent st) i = Some sr \<and> sr_id sr = n \<and> sr_generator sr = g"
  shows "hist_inv s'"
proof -
  have every: "state_inv (map_of (hi_historyByRequest s')) (hi_requestAutoincrement s')
      (map_of (hi_dialogRequests s')) (hi_inbox s' k) k st'" if "lookup s' k = Some st'" for k st'
  proof (cases "k = h")
    case True
    then show ?thesis using st that by blast
  next
    case False
    then have "lookup s k = Some st'" using others that by simp
    from hist_invD(9) [OF inv this] show ?thesis
      by (rule state_inv_mono) (use False keep latest dialogs boxes in auto)
  qed
  have d: "dom (map_of (hi_dialogRequests s')) \<inter> dom (map_of (hi_dialogRequestsPending s')) = {}"
    by (rule equals0I) (metis IntE domIff dis)
  have n: "\<forall>n \<in> dom (map_of (hi_net s')). n < hi_netNext s'" using net by blast
  have i: "\<forall>i \<in> dom (map_of (hi_historyByRequest s')). i \<le> hi_requestAutoincrement s'" using ids by blast
  show ?thesis
    unfolding hist_inv_def by (intro conjI ks d n i allI impI; (erule every | erule sent))
qed

lemma map_of_fold_emplace:
  "keys_sorted m \<Longrightarrow> keys_sorted xs \<Longrightarrow>
    keys_sorted (fold (\<lambda>(i, x). flat_emplace i (f x)) xs m)
    \<and> map_of (fold (\<lambda>(i, x). flat_emplace i (f x)) xs m) j
      = (case map_of m j of Some y \<Rightarrow> Some y | None \<Rightarrow> map_option f (map_of xs j))"
proof (induction xs arbitrary: m)
  case (Cons e xs)
  obtain i x where e: "e = (i, x)" by fastforce
  then have "map_of xs i = None" using Cons.prems by (auto simp: map_of_eq_None_iff)
  then show ?case using Cons by (auto simp: e map_of_flat_emplace split: option.splits)
qed (simp split: option.splits)

lemma resend_simps:
  assumes "keys_sorted (hs_postponed st)" "keys_sorted (hs_sent st)"
  shows "keys_sorted (hs_postponed (resendHistoryRequests st))" "keys_sorted (hs_sent (resendHistoryRequests st))"
    "map_of (hs_sent (resendHistoryRequests st)) j = (case map_of (hs_sent st) j of
      Some sr \<Rightarrow> if sr_type sr \<noteq> RequestHistory then Some sr else None | None \<Rightarrow> None)"
    "map_of (hs_postponed (resendHistoryRequests st)) j = (case map_of (hs_postponed st) j of Some g \<Rightarrow> Some g
      | None \<Rightarrow> (case map_of (hs_sent st) j of
          Some sr \<Rightarrow> if sr_type sr = RequestHistory then Some (sr_generator sr) else None | None \<Rightarrow> None))"
    "hs_willReadTill (resendHistoryRequests st) = hs_willReadTill st"
    "hs_sentReadTill (resendHistoryRequests st) = hs_sentReadTill st"
    "hs_postponedRequestEntry (resendHistoryRequests st) = hs_postponedRequestEntry st"
proof -
  let ?resent = "filter (\<lambda>(_, sr). sr_type sr = RequestHistory) (hs_sent st)"
  have ks: "keys_sorted ?resent" using assms(2) by simp
  note f = map_of_fold_emplace [OF assms(1) ks, of sr_generator]
  show "keys_sorted (hs_postponed (resendHistoryRequests st))" "keys_sorted (hs_sent (resendHistoryRequests st))"
    using f assms(2) by (simp_all add: resendHistoryRequests_def)
  show "map_of (hs_sent (resendHistoryRequests st)) j = (case map_of (hs_sent st) j of
      Some sr \<Rightarrow> if sr_type sr \<noteq> RequestHistory then Some sr else None | None \<Rightarrow> None)"
    using assms(2) by (simp add: resendHistoryRequests_def map_of_filter_value)
  show "map_of (hs_postponed (resendHistoryRequests st)) j = (case map_of (hs_postponed st) j of Some g \<Rightarrow> Some g
      | None \<Rightarrow> (case map_of (hs_sent st) j of
          Some sr \<Rightarrow> if sr_type sr = RequestHistory then Some (sr_generator sr) else None | None \<Rightarrow> None))"
    using f assms(2) by (simp add: resendHistoryRequests_def map_of_filter_value split: option.splits)
qed (simp_all add: resendHistoryRequests_def)

lemma fold_net_cancel:
  "hi_net (fold net_cancel ns s) = filter (\<lambda>e. fst e \<notin> set ns) (hi_net s)"
  "hi_states (fold net_cancel ns s) = hi_states s"
  "hi_historyByRequest (fold net_cancel ns s) = hi_historyByRequest s"
  "hi_requestAutoincrement (fold net_cancel ns s) = hi_requestAutoincrement s"
  "hi_dialogRequests (fold net_cancel ns s) = hi_dialogRequests s"
  "hi_dialogRequestsPending (fold net_cancel ns s) = hi_dialogRequestsPending s"
  "hi_inbox (fold net_cancel ns s) = hi_inbox s" "hi_netNext (fold net_cancel ns s) = hi_netNext s"
  by (induction ns arbitrary: s) (simp_all add: net_cancel_def flat_erase_def conj_commute)

lemma map_of_filter_key: "map_of (filter (\<lambda>e. P (fst e)) m) i = (if P i then map_of m i else None)"
  by (induction m) auto

lemma state_invD:
  assumes "state_inv R a D b h st"
  shows "keys_sorted (hs_postponed st)" "keys_sorted (hs_sent st)"
    "map_of (hs_postponed st) i = Some g \<Longrightarrow> R i = Some h \<and> i \<le> a \<and> map_of (hs_sent st) i = None \<and> (\<exists>f l. g = Request f l)"
    "map_of (hs_sent st) i = Some sr \<Longrightarrow> R i = Some h \<and> i \<le> a \<and> map_of (hs_postponed st) i = None"
    "hs_postponed st \<noteq> [] \<Longrightarrow> postponeHistoryRequest st"
    "postponeHistoryRequest st \<Longrightarrow> map_of (hs_sent st) i = Some sr \<Longrightarrow> sr_type sr \<noteq> RequestHistory"
    "hs_postponedRequestEntry st \<Longrightarrow> D h \<noteq> None \<and> postponeEntryRequest st"
    "0 \<le> hs_sentReadTill st" "hs_willReadTill st = 0 \<or> hs_willReadTill st > hs_sentReadTill st"
    "map_of (hs_sent st) i = Some sr \<Longrightarrow> sr_generator sr = ReadRequest t \<Longrightarrow>
        sr_type sr = RequestReadInbox \<and> 0 < t \<and> (hs_willReadTill st = 0 \<or> t < hs_willReadTill st)
        \<and> (t \<le> hs_sentReadTill st \<or> hs_sentReadTill st = 0 \<and> (\<exists>x. in_readBefore b = Some x \<and> t < x))"
  using assms unfolding state_inv_def by (blast | force simp: dom_def)+

lemma map_of_nonempty: "keys_sorted m \<Longrightarrow> m \<noteq> [] \<Longrightarrow> \<exists>i x. map_of m i = Some x"
  by (cases m) auto

lemma state_invI:
  assumes "keys_sorted (hs_postponed st)" "keys_sorted (hs_sent st)"
    and "\<And>i g. map_of (hs_postponed st) i = Some g \<Longrightarrow>
      R i = Some h \<and> i \<le> a \<and> map_of (hs_sent st) i = None \<and> (\<exists>f l. g = Request f l)"
    and "\<And>i sr. map_of (hs_sent st) i = Some sr \<Longrightarrow> R i = Some h \<and> i \<le> a"
    and "\<And>i g. map_of (hs_postponed st) i = Some g \<Longrightarrow> postponeHistoryRequest st"
    and "\<And>i sr. postponeHistoryRequest st \<Longrightarrow> map_of (hs_sent st) i = Some sr \<Longrightarrow> sr_type sr \<noteq> RequestHistory"
    and "hs_postponedRequestEntry st \<Longrightarrow> D h \<noteq> None \<and> postponeEntryRequest st"
    and "0 \<le> hs_sentReadTill st" "hs_willReadTill st = 0 \<or> hs_willReadTill st > hs_sentReadTill st"
    and "\<And>i sr t. map_of (hs_sent st) i = Some sr \<Longrightarrow> sr_generator sr = ReadRequest t \<Longrightarrow>
        sr_type sr = RequestReadInbox \<and> 0 < t \<and> (hs_willReadTill st = 0 \<or> t < hs_willReadTill st)
        \<and> (t \<le> hs_sentReadTill st \<or> hs_sentReadTill st = 0 \<and> (\<exists>x. in_readBefore b = Some x \<and> t < x))"
  shows "state_inv R a D b h st"
proof -
  have "postponeHistoryRequest st" if "hs_postponed st \<noteq> []"
    using map_of_nonempty [OF assms(1) that] assms(5) by blast
  moreover have "R i = Some h \<and> i \<le> a"
    if "i \<in> dom (map_of (hs_postponed st)) \<union> dom (map_of (hs_sent st))" for i
    using that assms(3,4) by blast
  moreover have "dom (map_of (hs_postponed st)) \<inter> dom (map_of (hs_sent st)) = {}"
    using assms(3) by fastforce
  moreover have "\<exists>f l. g = Request f l" if "map_of (hs_postponed st) i = Some g" for i g
    using that assms(3) by blast
  ultimately show ?thesis
    using assms(1,2,6-10) unfolding state_inv_def by simp
qed

definition sent_with :: "int \<Rightarrow> generator \<Rightarrow> int \<Rightarrow> request_type \<Rightarrow> bool \<Rightarrow> hstate \<Rightarrow> hstate" where
  "sent_with i gen n type e st = st\<lparr>hs_sent := flat_emplace i \<lparr>sr_generator = gen, sr_id = n, sr_type = type\<rparr> (hs_sent st),
    hs_postponedRequestEntry := e\<rparr>"

lemma sent_with_simps [simp]:
  "hs_postponed (sent_with i gen n type e st) = hs_postponed st"
  "hs_willReadTill (sent_with i gen n type e st) = hs_willReadTill st"
  "hs_sentReadTill (sent_with i gen n type e st) = hs_sentReadTill st"
  "hs_postponedRequestEntry (sent_with i gen n type e st) = e"
  by (simp_all add: sent_with_def)

lemma ex_map_update:
  "m i = None \<Longrightarrow> (\<exists>j x. (m(i \<mapsto> y)) j = Some x \<and> P x) \<longleftrightarrow> P y \<or> (\<exists>j x. m j = Some x \<and> P x)"
  by (metis fun_upd_apply option.distinct(1) option.inject)

lemma sent_with_sent:
  assumes "keys_sorted (hs_sent st)" "map_of (hs_sent st) i = None"
  shows "keys_sorted (hs_sent (sent_with i gen n type e st))"
    "map_of (hs_sent (sent_with i gen n type e st)) = (map_of (hs_sent st))(i \<mapsto> \<lparr>sr_generator = gen, sr_id = n, sr_type = type\<rparr>)"
    "postponeHistoryRequest (sent_with i gen n type e st) \<longleftrightarrow> type = RequestDelete \<or> postponeHistoryRequest st"
    "postponeEntryRequest (sent_with i gen n type e st) \<longleftrightarrow> type \<noteq> RequestHistory \<or> postponeEntryRequest st"
proof -
  show ks: "keys_sorted (hs_sent (sent_with i gen n type e st))"
    and m: "map_of (hs_sent (sent_with i gen n type e st)) = (map_of (hs_sent st))(i \<mapsto> \<lparr>sr_generator = gen, sr_id = n, sr_type = type\<rparr>)"
    using assms by (simp_all add: sent_with_def map_of_flat_emplace)
  show "postponeHistoryRequest (sent_with i gen n type e st) \<longleftrightarrow> type = RequestDelete \<or> postponeHistoryRequest st"
    unfolding postponeHistory_iff [OF ks] postponeHistory_iff [OF assms(1)] m
    using ex_map_update [where m = "map_of (hs_sent st)" and i = i] assms(2) by simp
  show "postponeEntryRequest (sent_with i gen n type e st) \<longleftrightarrow> type \<noteq> RequestHistory \<or> postponeEntryRequest st"
    unfolding postponeEntry_iff [OF ks] postponeEntry_iff [OF assms(1)] m
    using ex_map_update [where m = "map_of (hs_sent st)" and i = i] assms(2) by simp
qed

lemma resend_postpone:
  assumes "keys_sorted (hs_postponed st)" "keys_sorted (hs_sent st)"
  shows "postponeHistoryRequest (resendHistoryRequests st) \<longleftrightarrow> postponeHistoryRequest st"
    "postponeEntryRequest (resendHistoryRequests st) \<longleftrightarrow> postponeEntryRequest st"
proof -
  note r = resend_simps [OF assms]
  show "postponeHistoryRequest (resendHistoryRequests st) \<longleftrightarrow> postponeHistoryRequest st"
    unfolding postponeHistory_iff [OF r(2)] postponeHistory_iff [OF assms(2)] r(3)
    by (force split: option.splits if_splits)
  show "postponeEntryRequest (resendHistoryRequests st) \<longleftrightarrow> postponeEntryRequest st"
    unfolding postponeEntry_iff [OF r(2)] postponeEntry_iff [OF assms(2)] r(3)
    by (force split: option.splits if_splits)
qed

text \<open>A request that is added to the sent ones.\<close>

lemma state_inv_sent:
  assumes inv: "state_inv R a D b h st" and i: "i = a + 1"
    and entry: "e \<Longrightarrow> D h \<noteq> None \<and> (type \<noteq> RequestHistory \<or> postponeEntryRequest st)"
    and hist: "type = RequestHistory \<Longrightarrow> \<not> postponeHistoryRequest st \<and> (\<exists>f l. gen = Request f l)"
    and read: "\<And>t. gen = ReadRequest t \<Longrightarrow> type = RequestReadInbox \<and> 0 < t \<and> t \<le> hs_sentReadTill st \<and> hs_willReadTill st = 0"
  shows "state_inv (R(i \<mapsto> h)) i D b h (if type = RequestDelete \<or> postponeHistoryRequest st
    then resendHistoryRequests (sent_with i gen n type e st) else sent_with i gen n type e st)" (is "state_inv _ _ _ _ _ ?st")
proof -
  note v = state_invD [OF inv]
  let ?s1 = "sent_with i gen n type e st"
  have new: "map_of (hs_sent st) i = None" "map_of (hs_postponed st) i = None"
    using v(3,4) [of i] i by force+
  note s1 = sent_with_sent [OF v(2) new(1)]
  have hist_gen: "\<exists>f l. sr_generator sr = Request f l"
    if "map_of (hs_sent ?s1) j = Some sr" "sr_type sr = RequestHistory" for j sr
    using that s1(2) hist v(10) [of j sr] by (cases "sr_generator sr") (fastforce split: if_splits)+
  have old: "R j = Some h \<and> j \<le> a" if "map_of (hs_sent st) j = Some sr" for j sr using v(4) that by blast
  have oldp: "R j = Some h \<and> j \<le> a \<and> map_of (hs_sent st) j = None \<and> (\<exists>f l. g = Request f l)"
    if "map_of (hs_postponed st) j = Some g" for j g using v(3) that by blast
  have known: "(R(i \<mapsto> h)) j = Some h \<and> j \<le> i" if "map_of (hs_sent ?s1) j = Some sr" for j sr
    using that i old [of j sr] unfolding s1(2) by (cases "j = i") auto
  show ?thesis
  proof (cases "type = RequestDelete \<or> postponeHistoryRequest st")
    case True
    then have st: "?st = resendHistoryRequests ?s1" by simp
    note r = resend_simps [of ?s1, unfolded sent_with_simps, OF v(1) s1(1)]
    note rp = resend_postpone [of ?s1, unfolded sent_with_simps, OF v(1) s1(1)]
    show ?thesis
      unfolding st
    proof (rule state_invI)
      fix j g assume g: "map_of (hs_postponed (resendHistoryRequests ?s1)) j = Some g"
      show "(R(i \<mapsto> h)) j = Some h \<and> j \<le> i \<and> map_of (hs_sent (resendHistoryRequests ?s1)) j = None \<and> (\<exists>f l. g = Request f l)"
      proof (cases "map_of (hs_postponed st) j")
        case None
        then obtain sr where sr: "map_of (hs_sent ?s1) j = Some sr" "sr_type sr = RequestHistory" "g = sr_generator sr"
          using g unfolding r(4) by (auto split: option.splits if_splits)
        then have "map_of (hs_sent (resendHistoryRequests ?s1)) j = None" unfolding r(3) by simp
        with known [OF sr(1)] hist_gen [OF sr(1,2)] sr(3) show ?thesis by simp
      next
        case (Some g')
        then have "g' = g" using g unfolding r(4) by simp
        then show ?thesis using oldp [of j g] Some i new unfolding r(3) s1(2) by auto
      qed
    next
      fix j sr assume "map_of (hs_sent (resendHistoryRequests ?s1)) j = Some sr"
      then show "(R(i \<mapsto> h)) j = Some h \<and> j \<le> i"
        unfolding r(3) using known [of j sr] by (auto split: option.splits if_splits)
    next
      fix j sr t assume "map_of (hs_sent (resendHistoryRequests ?s1)) j = Some sr" "sr_generator sr = ReadRequest t"
      then show "sr_type sr = RequestReadInbox \<and> 0 < t
          \<and> (hs_willReadTill (resendHistoryRequests ?s1) = 0 \<or> t < hs_willReadTill (resendHistoryRequests ?s1))
          \<and> (t \<le> hs_sentReadTill (resendHistoryRequests ?s1) \<or> hs_sentReadTill (resendHistoryRequests ?s1) = 0
            \<and> (\<exists>x. in_readBefore b = Some x \<and> t < x))"
        unfolding r(3,5,6) using read [of t] v(10) [of j sr t]
        by (auto simp: s1(2) split: option.splits if_splits)
    qed (use r rp s1 True entry v(8,9) in \<open>auto split: option.splits if_splits\<close>)
  next
    case False
    then have st: "?st = ?s1" and none: "hs_postponed st = []" "\<not> postponeHistoryRequest ?s1" using v(5) s1(3) by auto
    show ?thesis
      unfolding st
    proof (rule state_invI)
      fix j sr t assume "map_of (hs_sent ?s1) j = Some sr" "sr_generator sr = ReadRequest t"
      then show "sr_type sr = RequestReadInbox \<and> 0 < t \<and> (hs_willReadTill ?s1 = 0 \<or> t < hs_willReadTill ?s1)
          \<and> (t \<le> hs_sentReadTill ?s1 \<or> hs_sentReadTill ?s1 = 0 \<and> (\<exists>x. in_readBefore b = Some x \<and> t < x))"
        using read [of t] v(10) [of j sr t] by (auto simp: s1(2) split: if_splits)
    next
      fix j sr assume "map_of (hs_sent ?s1) j = Some sr"
      then show "(R(i \<mapsto> h)) j = Some h \<and> j \<le> i" by (rule known)
    qed (use s1 none entry v(1,8,9) in auto)
  qed
qed

lemma state_or_new_lookup: "lookup s h = Some st \<Longrightarrow> state_or_new s h = st"
  by (simp add: state_or_new_def)

lemma state_inv_postponed:
  assumes inv: "state_inv R a D b h st" and i: "i = a + 1" and p: "postponeHistoryRequest st"
  shows "state_inv (R(i \<mapsto> h)) i D b h (st\<lparr>hs_postponed := flat_emplace i (Request f l) (hs_postponed st)\<rparr>)"
proof -
  note v = state_invD [OF inv]
  have "R j = Some h \<and> j \<le> a \<and> j \<noteq> i" if "map_of (hs_sent st) j = Some sr" for j sr
    using that v(4) i by force
  moreover have "R j = Some h \<and> j \<le> a \<and> j \<noteq> i \<and> map_of (hs_sent st) j = None \<and> (\<exists>f l. g = Request f l)"
    if "map_of (hs_postponed st) j = Some g" for j g
    using that v(3) i by force
  moreover have "map_of (hs_sent st) i = None" "map_of (hs_postponed st) i = None" using calculation by fastforce+
  moreover have "postponeHistoryRequest (hs_postponed_update x st) = postponeHistoryRequest st"
    "postponeEntryRequest (hs_postponed_update x st) = postponeEntryRequest st" for x
    by (simp_all add: postponeHistoryRequest_def postponeEntryRequest_def)
  ultimately show ?thesis
    using p i
    by (intro state_invI; (simp add: v(1,2,6-10) map_of_flat_emplace split: if_splits)?) (fastforce | use v(9,10) in blast)+
qed

lemma net_send_simps [simp]:
  "fst (net_send h i gen s) = hi_netNext s"
  "hi_net (snd (net_send h i gen s)) = flat_emplace (hi_netNext s) (h, i, gen) (hi_net s)"
  "hi_netNext (snd (net_send h i gen s)) = hi_netNext s + 1"
  "hi_states (snd (net_send h i gen s)) = hi_states s"
  "hi_historyByRequest (snd (net_send h i gen s)) = hi_historyByRequest s"
  "hi_requestAutoincrement (snd (net_send h i gen s)) = hi_requestAutoincrement s"
  "hi_dialogRequests (snd (net_send h i gen s)) = hi_dialogRequests s"
  "hi_dialogRequestsPending (snd (net_send h i gen s)) = hi_dialogRequestsPending s"
  "hi_inbox (snd (net_send h i gen s)) = hi_inbox s"
  by (simp_all add: net_send_def Let_def)

definition history_ids :: "hstate \<Rightarrow> int list" where
  "history_ids st = List.map (\<lambda>(_, sr). sr_id sr) (filter (\<lambda>(_, sr). sr_type sr = RequestHistory) (hs_sent st))"

lemma sendRequest_postponed:
  "type = RequestHistory \<Longrightarrow> postponeHistoryRequest (state_or_new s h) \<Longrightarrow>
    snd (sendRequest h type gen s) = (let st = state_or_new s h; i = hi_requestAutoincrement s + 1 in
      put_state h (st\<lparr>hs_postponed := flat_emplace i gen (hs_postponed st)\<rparr>)
        (s\<lparr>hi_requestAutoincrement := i, hi_historyByRequest := flat_emplace i h (hi_historyByRequest s)\<rparr>))"
  by (simp add: sendRequest_def Let_def)

lemma mark_entry:
  "(if c then x\<lparr>hs_postponedRequestEntry := True\<rparr> else x)
    = x\<lparr>hs_postponedRequestEntry := hs_postponedRequestEntry x \<or> c\<rparr>"
  by (cases x) simp

lemma sendRequest_sent:
  assumes v: "keys_sorted (hs_sent (state_or_new s h))" "map_of (hs_sent (state_or_new s h)) (hi_requestAutoincrement s + 1) = None"
    and now: "\<not> (type = RequestHistory \<and> postponeHistoryRequest (state_or_new s h))"
  obtains e where
    "e \<Longrightarrow> hs_postponedRequestEntry (state_or_new s h) \<or> map_of (hi_dialogRequests s) h \<noteq> None
      \<and> (type \<noteq> RequestHistory \<or> postponeEntryRequest (state_or_new s h))"
    "snd (sendRequest h type gen s) = (let st = state_or_new s h; i = hi_requestAutoincrement s + 1;
        st1 = sent_with i gen (hi_netNext s) type e st; resend = (type = RequestDelete \<or> postponeHistoryRequest st);
        s2 = snd (net_send h i gen (s\<lparr>hi_requestAutoincrement := i, hi_historyByRequest := flat_emplace i h (hi_historyByRequest s)\<rparr>))
      in put_state h (if resend then resendHistoryRequests st1 else st1)
        (fold net_cancel (if resend then history_ids st1 else []) s2))"
proof -
  let ?st = "state_or_new s h" and ?i = "hi_requestAutoincrement s + 1"
  let ?added = "?st\<lparr>hs_sent := flat_emplace ?i \<lparr>sr_generator = gen, sr_id = hi_netNext s, sr_type = type\<rparr> (hs_sent ?st)\<rparr>"
  let ?c = "\<not> hs_postponedRequestEntry ?added \<and> postponeEntryRequest ?added \<and> map_of (hi_dialogRequests s) h \<noteq> None"
  define e where "e = (hs_postponedRequestEntry ?added \<or> ?c)"
  have st1: "(if ?c then ?added\<lparr>hs_postponedRequestEntry := True\<rparr> else ?added) = sent_with ?i gen (hi_netNext s) type e ?st"
    unfolding mark_entry sent_with_def e_def by (rule refl)
  note sw = sent_with_sent [OF v, of gen "hi_netNext s" type]
  have "postponeEntryRequest ?added = postponeEntryRequest (sent_with ?i gen (hi_netNext s) type e ?st)"
    by (simp add: sent_with_def postponeEntryRequest_def)
  then have 1: "e \<Longrightarrow> hs_postponedRequestEntry (state_or_new s h) \<or> map_of (hi_dialogRequests s) h \<noteq> None
      \<and> (type \<noteq> RequestHistory \<or> postponeEntryRequest (state_or_new s h))"
    unfolding sw(4) by (auto simp: e_def)
  have p: "postponeHistoryRequest (sent_with ?i gen (hi_netNext s) type e ?st)
      \<longleftrightarrow> type = RequestDelete \<or> postponeHistoryRequest ?st" by (rule sw(3))
  have same: "hi_dialogRequests (s\<lparr>hi_requestAutoincrement := x, hi_historyByRequest := y\<rparr>) = hi_dialogRequests s"
    "hi_netNext (s\<lparr>hi_requestAutoincrement := x, hi_historyByRequest := y\<rparr>) = hi_netNext s" for x y
    by simp_all
  show thesis
  proof (rule that [of e, OF 1])
    show "snd (sendRequest h type gen s) = (let st = state_or_new s h; i = hi_requestAutoincrement s + 1;
        st1 = sent_with i gen (hi_netNext s) type e st; resend = (type = RequestDelete \<or> postponeHistoryRequest st);
        s2 = snd (net_send h i gen (s\<lparr>hi_requestAutoincrement := i, hi_historyByRequest := flat_emplace i h (hi_historyByRequest s)\<rparr>))
      in put_state h (if resend then resendHistoryRequests st1 else st1)
        (fold net_cancel (if resend then history_ids st1 else []) s2))"
      unfolding sendRequest_def Let_def if_not_P [OF now]
      by (simp only: case_prod_beta net_send_simps same st1 p) (simp add: history_ids_def case_prod_beta)
  qed
qed

lemma hist_inv_put:
  assumes inv: "hist_inv s" and states: "hi_states s1 = hi_states s"
    and ks: "keys_sorted (hi_historyByRequest s1)" "keys_sorted (hi_net s1)"
      "keys_sorted (hi_dialogRequests s1)" "keys_sorted (hi_dialogRequestsPending s1)"
    and dis: "\<And>k. map_of (hi_dialogRequests s1) k = None \<or> map_of (hi_dialogRequestsPending s1) k = None"
    and net: "\<And>n x. map_of (hi_net s1) n = Some x \<Longrightarrow> n < hi_netNext s1"
    and ids: "\<And>i k. map_of (hi_historyByRequest s1) i = Some k \<Longrightarrow> i \<le> hi_requestAutoincrement s1"
    and keep: "\<And>i k. k \<noteq> h \<Longrightarrow> map_of (hi_historyByRequest s) i = Some k \<Longrightarrow> map_of (hi_historyByRequest s1) i = Some k"
    and latest: "hi_requestAutoincrement s \<le> hi_requestAutoincrement s1"
    and dialogs: "\<And>k. k \<noteq> h \<Longrightarrow> map_of (hi_dialogRequests s) k \<noteq> None \<Longrightarrow> map_of (hi_dialogRequests s1) k \<noteq> None"
    and boxes: "\<And>k. k \<noteq> h \<Longrightarrow> hi_inbox s1 k = hi_inbox s k"
    and st: "state_inv (map_of (hi_historyByRequest s1)) (hi_requestAutoincrement s1)
      (map_of (hi_dialogRequests s1)) (hi_inbox s1 h) h st"
    and sent: "\<And>n k i g. map_of (hi_net s1) n = Some (k, i, g) \<Longrightarrow>
        k \<noteq> h \<and> map_of (hi_net s) n = Some (k, i, g)
        \<or> k = h \<and> (\<exists>sr. map_of (hs_sent st) i = Some sr \<and> sr_id sr = n \<and> sr_generator sr = g)"
  shows "hist_inv (put_state h st s1)"
proof (rule hist_inv_update [OF inv, where h = h])
  have lookup_s1: "lookup s1 = lookup s" by (simp add: lookup_def states fun_eq_iff)
  have l: "lookup (put_state h st s1) = (lookup s)(h \<mapsto> st)"
    using hist_invD(1) [OF inv] states by (simp add: lookup_s1)
  fix n k i g assume "map_of (hi_net (put_state h st s1)) n = Some (k, i, g)"
  then show "\<exists>st' sr. lookup (put_state h st s1) k = Some st' \<and> map_of (hs_sent st') i = Some sr
      \<and> sr_id sr = n \<and> sr_generator sr = g"
    using sent [of n k i g] hist_invD(10) [OF inv, of n k i g] unfolding l by auto
next
  have lookup_s1: "lookup s1 = lookup s" by (simp add: lookup_def states fun_eq_iff)
  fix k show "k \<noteq> h \<Longrightarrow> lookup (put_state h st s1) k = lookup s k"
    using hist_invD(1) [OF inv] states by (simp add: lookup_s1)
next
  fix st' assume "lookup (put_state h st s1) h = Some st'"
  then have "st' = st" using hist_invD(1) [OF inv] states by simp
  then show "state_inv (map_of (hi_historyByRequest (put_state h st s1))) (hi_requestAutoincrement (put_state h st s1))
      (map_of (hi_dialogRequests (put_state h st s1))) (hi_inbox (put_state h st s1) h) h st'"
    using st by simp
next
  fix k show "map_of (hi_dialogRequests (put_state h st s1)) k = None
      \<or> map_of (hi_dialogRequestsPending (put_state h st s1)) k = None"
    using dis by simp
qed (use hist_invD(1) [OF inv] states ks net ids keep latest dialogs boxes in simp_all)

lemma history_ids_iff:
  "keys_sorted (hs_sent st) \<Longrightarrow>
    n \<in> set (history_ids st) \<longleftrightarrow> (\<exists>i sr. map_of (hs_sent st) i = Some sr \<and> sr_type sr = RequestHistory \<and> sr_id sr = n)"
  by (force simp: history_ids_def dest: map_of_SomeD intro: map_of_is_SomeI ssorted_distinct)

text \<open>The chat of a request of the network.\<close>

lemma net_own:
  assumes "hist_inv s" "map_of (hi_net s) n = Some (k, i, g)"
  shows "k \<noteq> h \<and> map_of (hi_net s) n = Some (k, i, g)
    \<or> k = h \<and> (\<exists>sr. map_of (hs_sent (state_or_new s h)) i = Some sr \<and> sr_id sr = n \<and> sr_generator sr = g)"
  using hist_invD(10) [OF assms] assms(2) by (auto simp: state_or_new_def)

lemma sendRequest_inv:
  assumes inv: "hist_inv s"
    and hist: "type = RequestHistory \<Longrightarrow> \<exists>f l. gen = Request f l"
    and read: "\<And>t. gen = ReadRequest t \<Longrightarrow> type = RequestReadInbox \<and> 0 < t
      \<and> t \<le> hs_sentReadTill (state_or_new s h) \<and> hs_willReadTill (state_or_new s h) = 0"
  shows "hist_inv (snd (sendRequest h type gen s))"
proof -
  note v = hist_invD [OF inv] and sv = state_or_new_inv [OF inv, of h]
  let ?i = "hi_requestAutoincrement s + 1" and ?st = "state_or_new s h"
  have fresh: "map_of (hi_historyByRequest s) ?i = None"
    using v(8) [of ?i] by (cases "map_of (hi_historyByRequest s) ?i") auto
  have unsent: "map_of (hs_sent ?st) ?i = None" using state_invD(4) [OF sv, of ?i] by force
  have by_request: "map_of (flat_emplace ?i h (hi_historyByRequest s)) = (map_of (hi_historyByRequest s))(?i \<mapsto> h)"
    using fresh v(2) by (simp add: map_of_flat_emplace)
  show ?thesis
  proof (cases "type = RequestHistory \<and> postponeHistoryRequest ?st")
    case True
    obtain f l where gen: "gen = Request f l" using hist True by blast
    have "state_inv ((map_of (hi_historyByRequest s))(?i \<mapsto> h)) ?i (map_of (hi_dialogRequests s)) (hi_inbox s h) h
        (?st\<lparr>hs_postponed := flat_emplace ?i gen (hs_postponed ?st)\<rparr>)"
      unfolding gen using sv True by (intro state_inv_postponed) auto
    then show ?thesis
      unfolding sendRequest_postponed [OF conjunct1 [OF True] conjunct2 [OF True]] Let_def
    proof (intro hist_inv_put [OF inv], goal_cases)
      case (14 n k j g)
      then show ?case using net_own [OF inv, of n k j g h] by simp
    next
      case (8 j k)
      then show ?case using v(8) [of j k] by (simp add: by_request split: if_splits)
    next
      case (9 j k)
      then show ?case using fresh by (auto simp: by_request)
    qed (use v in \<open>simp_all add: by_request\<close>)
  next
    case False
    obtain e where e: "e \<Longrightarrow> hs_postponedRequestEntry ?st \<or> map_of (hi_dialogRequests s) h \<noteq> None
        \<and> (type \<noteq> RequestHistory \<or> postponeEntryRequest ?st)"
      and eq: "snd (sendRequest h type gen s) = (let st = ?st; i = ?i;
        st1 = sent_with i gen (hi_netNext s) type e st; resend = (type = RequestDelete \<or> postponeHistoryRequest st);
        s2 = snd (net_send h i gen (s\<lparr>hi_requestAutoincrement := i, hi_historyByRequest := flat_emplace i h (hi_historyByRequest s)\<rparr>))
      in put_state h (if resend then resendHistoryRequests st1 else st1)
        (fold net_cancel (if resend then history_ids st1 else []) s2))"
      by (rule sendRequest_sent [OF state_invD(2) [OF sv] unsent False, of gen]) (rule that; assumption)
    let ?st1 = "sent_with ?i gen (hi_netNext s) type e ?st" and ?resend = "type = RequestDelete \<or> postponeHistoryRequest ?st"
    define N where "N = (if ?resend then history_ids ?st1 else [])"
    have "state_inv ((map_of (hi_historyByRequest s))(?i \<mapsto> h)) ?i (map_of (hi_dialogRequests s)) (hi_inbox s h) h
        (if ?resend then resendHistoryRequests ?st1 else ?st1)"
      by (rule state_inv_sent [OF sv refl])
        (use e state_invD(7) [OF sv] False hist read in blast)+
    moreover have own2: "k \<noteq> h \<and> map_of (hi_net s) n = Some (k, j, g)
        \<or> k = h \<and> (\<exists>sr. map_of (hs_sent (if ?resend then resendHistoryRequests ?st1 else ?st1)) j = Some sr \<and> sr_id sr = n \<and> sr_generator sr = g)"
      if "n \<notin> set N"
        "map_of (flat_emplace (hi_netNext s) (h, ?i, gen) (hi_net s)) n = Some (k, j, g)" for n k j g
    proof (cases "n = hi_netNext s")
      case True
      have sent1: "map_of (hs_sent ?st1) ?i = Some \<lparr>sr_generator = gen, sr_id = n, sr_type = type\<rparr>"
        using sent_with_sent(2) [OF state_invD(2) [OF sv] unsent] True by simp
      have none: "map_of (hi_net s) n = None" using v(7) [of n] True by (cases "map_of (hi_net s) n") auto
      then have *: "k = h" "j = ?i" "g = gen" using that(2) True v(3) by (auto simp: map_of_flat_emplace)
      have "type \<noteq> RequestHistory \<or> \<not> ?resend" using False by auto
      then show ?thesis using * sent1 resend_simps(3) [of ?st1 ?i] state_invD(1,2) [OF sv]
          sent_with_sent(1) [OF state_invD(2) [OF sv] unsent] by simp
    next
      case n: False
      then have "map_of (hi_net s) n = Some (k, j, g)" using that(2) v(3) by (simp add: map_of_flat_emplace split: if_splits)
      note own = net_own [OF inv this, of h]
      show ?thesis
      proof (cases "k = h")
        case True
        then obtain sr where sr: "map_of (hs_sent ?st) j = Some sr" "sr_id sr = n" "sr_generator sr = g" using own by blast
        then have sr1: "map_of (hs_sent ?st1) j = Some sr"
          using sent_with_sent(2) [OF state_invD(2) [OF sv] unsent] unsent by auto
        note ks1 = sent_with_sent(1) [OF state_invD(2) [OF sv] unsent]
        have "sr_type sr \<noteq> RequestHistory" if ?resend
          using \<open>n \<notin> _\<close> [unfolded N_def] that history_ids_iff [OF ks1] sr1 sr(2) by auto
        then have "map_of (hs_sent (if ?resend then resendHistoryRequests ?st1 else ?st1)) j = Some sr"
          using resend_simps(3) [of ?st1 j] state_invD(1) [OF sv] ks1 sr1 by simp
        with sr True show ?thesis by blast
      qed (use own in blast)
    qed
    moreover define s2 where "s2 = fold net_cancel N
      (snd (net_send h ?i gen (s\<lparr>hi_requestAutoincrement := ?i,
        hi_historyByRequest := flat_emplace ?i h (hi_historyByRequest s)\<rparr>)))"
    note f = fold_net_cancel [of N
      "snd (net_send h ?i gen (s\<lparr>hi_requestAutoincrement := ?i, hi_historyByRequest := flat_emplace ?i h (hi_historyByRequest s)\<rparr>))",
      folded s2_def]
    have net2: "map_of (hi_net s2) n = (if n \<notin> set N
        then map_of (flat_emplace (hi_netNext s) (h, ?i, gen) (hi_net s)) n else None)" for n
      unfolding f(1) by (subst map_of_filter_key) simp
    have net_lt: "n < hi_netNext s2" if "map_of (hi_net s2) n = Some x" for n x
    proof (cases "n = hi_netNext s")
      case False
      then have "map_of (hi_net s) n = Some x"
        using that v(3) by (simp add: net2 map_of_flat_emplace split: if_splits)
      then have "n < hi_netNext s" by (rule v(7))
      then show ?thesis using f(8) by simp
    qed (simp add: f(8))
    ultimately show ?thesis
      unfolding eq Let_def N_def [symmetric] s2_def [symmetric]
    proof (intro hist_inv_put [OF inv], goal_cases)
      case (14 n k j g)
      from 14(4) have "n \<notin> set N \<and> map_of (flat_emplace (hi_netNext s) (h, ?i, gen) (hi_net s)) n = Some (k, j, g)"
        by (simp add: net2 split: if_splits)
      then show ?case by (intro own2) auto
    next
      case (7 n x)
      then show ?case using net_lt by blast
    next
      case (8 j k)
      then show ?case using v(8) [of j k] f by (simp add: by_request split: if_splits)
    next
      case (9 j k)
      then show ?case using fresh f by (auto simp: by_request)
    qed (use v f in \<open>simp_all add: by_request\<close>)
  qed
qed

section \<open>Finishing a request\<close>

lemma send_postponed_spec:
  assumes "send_postponed h xs (st, s) = (st', s')" "keys_sorted (hs_sent st)" "keys_sorted xs"
    "\<forall>j. map_of xs j \<noteq> None \<longrightarrow> map_of (hs_sent st) j = None"
    "keys_sorted (hi_net s)" "\<forall>n x. map_of (hi_net s) n = Some x \<longrightarrow> n < hi_netNext s"
  shows "keys_sorted (hs_sent st') \<and> keys_sorted (hi_net s')
    \<and> (\<forall>n x. map_of (hi_net s') n = Some x \<longrightarrow> n < hi_netNext s') \<and> hi_netNext s \<le> hi_netNext s'
    \<and> (\<forall>j sr. map_of (hs_sent st) j = Some sr \<longrightarrow> map_of (hs_sent st') j = Some sr)
    \<and> (\<forall>n x. map_of (hi_net s) n = Some x \<longrightarrow> map_of (hi_net s') n = Some x)
    \<and> (\<forall>j g. map_of xs j = Some g \<longrightarrow> (\<exists>n. map_of (hs_sent st') j
          = Some \<lparr>sr_generator = g, sr_id = n, sr_type = RequestHistory\<rparr> \<and> map_of (hi_net s') n = Some (h, j, g)))
    \<and> (\<forall>j sr. map_of (hs_sent st') j = Some sr \<longrightarrow> map_of (hs_sent st) j = Some sr
        \<or> map_of xs j = Some (sr_generator sr) \<and> sr_type sr = RequestHistory)
    \<and> (\<forall>n k j g. map_of (hi_net s') n = Some (k, j, g) \<longrightarrow> map_of (hi_net s) n = Some (k, j, g)
        \<or> k = h \<and> (\<exists>sr. map_of (hs_sent st') j = Some sr \<and> sr_id sr = n \<and> sr_generator sr = g))"
  using assms
proof (induction xs arbitrary: st s)
  case (Cons e xs)
  obtain i gen where e: "e = (i, gen)" by fastforce
  let ?n = "hi_netNext s" and ?sr = "\<lparr>sr_generator = gen, sr_id = hi_netNext s, sr_type = RequestHistory\<rparr>"
  let ?st = "st\<lparr>hs_sent := flat_emplace i ?sr (hs_sent st)\<rparr>" and ?s = "snd (net_send h i gen s)"
  have step: "send_postponed h xs (?st, ?s) = (st', s')" using Cons.prems(1) by (simp add: e net_send_def Let_def)
  have new: "map_of (hs_sent st) i = None" using Cons.prems(4) by (simp add: e)
  then have sent: "map_of (hs_sent ?st) = (map_of (hs_sent st))(i \<mapsto> ?sr)"
    using Cons.prems(2) by (simp add: map_of_flat_emplace)
  have "map_of (hi_net s) ?n = None" using Cons.prems(6) by (cases "map_of (hi_net s) ?n") auto
  then have net: "map_of (hi_net ?s) = (map_of (hi_net s))(?n \<mapsto> (h, i, gen))"
    using Cons.prems(5) by (simp add: map_of_flat_emplace)
  have rest: "map_of xs i = None" using Cons.prems(3) by (auto simp: e map_of_eq_None_iff)
  have "n < hi_netNext ?s" if "map_of (hi_net ?s) n = Some x" for n x
    using that Cons.prems(6) [rule_format, of n x] unfolding net by (auto split: if_splits)
  then have bound: "\<forall>n x. map_of (hi_net ?s) n = Some x \<longrightarrow> n < hi_netNext ?s" by blast
  have "map_of (hs_sent ?st) j = None" if "map_of xs j \<noteq> None" for j
    using that Cons.prems(4) [rule_format, of j] rest unfolding sent by (auto simp: e split: if_splits)
  then have 1: "\<forall>j. map_of xs j \<noteq> None \<longrightarrow> map_of (hs_sent ?st) j = None" by blast
  have ks: "keys_sorted (hs_sent ?st)" "keys_sorted xs" "keys_sorted (hi_net ?s)" using Cons.prems(2,3,5) by (simp_all add: e)
  note ih0 = Cons.IH [OF step ks(1,2) 1 ks(3) bound]
  note r1 = ih0 [THEN conjunct2] note r2 = r1 [THEN conjunct2] note r3 = r2 [THEN conjunct2]
  note r4 = r3 [THEN conjunct2] note r5 = r4 [THEN conjunct2] note r6 = r5 [THEN conjunct2] note r7 = r6 [THEN conjunct2]
  note ih = ih0 [THEN conjunct1] r1 [THEN conjunct1] r2 [THEN conjunct1] r3 [THEN conjunct1]
    r4 [THEN conjunct1, rule_format] r5 [THEN conjunct1, rule_format] r6 [THEN conjunct1, rule_format]
    r7 [THEN conjunct1, rule_format] r7 [THEN conjunct2, rule_format]
  have "map_of (hs_sent ?st) i = Some ?sr" unfolding sent by simp
  note ih1a = ih(5) [OF this]
  have "map_of (hi_net ?s) ?n = Some (h, i, gen)" unfolding net by simp
  note ih1 = ih1a ih(6) [OF this]
  have keep: "map_of (hs_sent st') j = Some sr" if "map_of (hs_sent st) j = Some sr" for j sr
    by (rule ih(5)) (use that new in \<open>unfold sent, auto\<close>)
  have keep_net: "map_of (hi_net s') n = Some x" if "map_of (hi_net s) n = Some x" for n x
    by (rule ih(6)) (use that \<open>map_of (hi_net s) ?n = None\<close> in \<open>unfold net, auto\<close>)
  have made: "\<exists>n. map_of (hs_sent st') j = Some \<lparr>sr_generator = g, sr_id = n, sr_type = RequestHistory\<rparr>
      \<and> map_of (hi_net s') n = Some (h, j, g)" if "map_of (e # xs) j = Some g" for j g
  proof (cases "j = i")
    case True
    then have "g = gen" using that by (simp add: e)
    then show ?thesis using True ih1 by blast
  next
    case False
    then show ?thesis by (intro ih(7)) (use that in \<open>simp add: e\<close>)
  qed
  have old: "map_of (hs_sent st) j = Some sr \<or> map_of (e # xs) j = Some (sr_generator sr) \<and> sr_type sr = RequestHistory"
    if j: "map_of (hs_sent st') j = Some sr" for j sr
  proof (cases "j = i")
    case False
    moreover have "map_of (hs_sent ?st) j = Some sr \<or> map_of xs j = Some (sr_generator sr) \<and> sr_type sr = RequestHistory"
      using j by (rule ih(8))
    ultimately show ?thesis unfolding sent by (simp add: e)
  qed (use j ih1 in \<open>auto simp: e\<close>)
  have old_net: "map_of (hi_net s) n = Some (k, j, g)
      \<or> k = h \<and> (\<exists>sr. map_of (hs_sent st') j = Some sr \<and> sr_id sr = n \<and> sr_generator sr = g)"
    if n: "map_of (hi_net s') n = Some (k, j, g)" for n k j g
  proof (cases "n = ?n")
    case False
    have "map_of (hi_net ?s) n = Some (k, j, g)
        \<or> k = h \<and> (\<exists>sr. map_of (hs_sent st') j = Some sr \<and> sr_id sr = n \<and> sr_generator sr = g)"
      using n by (rule ih(9))
    then show ?thesis using False unfolding net by simp
  qed (use n ih1 in auto)
  have "hi_netNext s \<le> hi_netNext s'" using ih(4) by simp
  with ih(1-3) show ?case
    using keep keep_net made old old_net by simp
next
  case Nil
  then show ?case by simp
qed

lemma send_postponed_Cons: "send_postponed h (e # rest) p = send_postponed h rest
  ((fst p)\<lparr>hs_sent := flat_emplace (fst e) \<lparr>sr_generator = snd e, sr_id = hi_netNext (snd p), sr_type = RequestHistory\<rparr> (hs_sent (fst p))\<rparr>,
   snd (net_send h (fst e) (snd e) (snd p)))"
  by (cases e, cases p) (simp add: net_send_def Let_def)

lemma send_postponed_same [simp]:
  "hs_postponed (fst (send_postponed h xs p)) = hs_postponed (fst p)"
  "hs_willReadTill (fst (send_postponed h xs p)) = hs_willReadTill (fst p)"
  "hs_sentReadTill (fst (send_postponed h xs p)) = hs_sentReadTill (fst p)"
  "hs_postponedRequestEntry (fst (send_postponed h xs p)) = hs_postponedRequestEntry (fst p)"
  "hi_states (snd (send_postponed h xs p)) = hi_states (snd p)"
  "hi_historyByRequest (snd (send_postponed h xs p)) = hi_historyByRequest (snd p)"
  "hi_requestAutoincrement (snd (send_postponed h xs p)) = hi_requestAutoincrement (snd p)"
  "hi_dialogRequests (snd (send_postponed h xs p)) = hi_dialogRequests (snd p)"
  "hi_dialogRequestsPending (snd (send_postponed h xs p)) = hi_dialogRequestsPending (snd p)"
  "hi_inbox (snd (send_postponed h xs p)) = hi_inbox (snd p)"
  by (induction xs arbitrary: p) (simp_all add: send_postponed_Cons del: send_postponed.simps(2))

declare map_of_eq_Some_iff [simp del]

lemma checkEmptyState_inv:
  assumes inv: "hist_inv s" shows "hist_inv (checkEmptyState h s)"
proof (cases "lookup s h")
  case (Some st)
  note v = hist_invD [OF inv]
  let ?s = "s\<lparr>hi_states := flat_erase h (hi_states s)\<rparr>"
  have l: "lookup ?s = (lookup s)(h := None)" by (simp add: lookup_def map_of_flat_erase fun_eq_iff)
  have "hist_inv ?s" if "hs_sent st = []"
  proof (rule hist_inv_update [OF inv, where h = h])
    fix n k i g assume "map_of (hi_net ?s) n = Some (k, i, g)"
    then have "map_of (hi_net s) n = Some (k, i, g)" by simp
    then obtain st' sr where "lookup s k = Some st'" "map_of (hs_sent st') i = Some sr" "sr_id sr = n" "sr_generator sr = g"
      using v(10) by blast
    then show "\<exists>st sr. lookup ?s k = Some st \<and> map_of (hs_sent st) i = Some sr \<and> sr_id sr = n \<and> sr_generator sr = g"
      unfolding l using Some that by (cases "k = h") auto
  next
    fix k show "k \<noteq> h \<Longrightarrow> lookup ?s k = lookup s k" unfolding l by simp
  next
    fix st' assume "lookup ?s h = Some st'"
    then show "state_inv (map_of (hi_historyByRequest ?s)) (hi_requestAutoincrement ?s) (map_of (hi_dialogRequests ?s))
        (hi_inbox ?s h) h st'" unfolding l by simp
  qed (use v in simp_all)
  then show ?thesis using Some inv by (simp add: checkEmptyState_def)
qed (simp add: checkEmptyState_def inv)

lemma postponeRequestDialogEntries_inv: "hist_inv s \<Longrightarrow> hist_inv (postponeRequestDialogEntries s)"
  by (simp add: postponeRequestDialogEntries_def hist_inv_def lookup_def)

text \<open>The state of a chat being changed, next to the rest.\<close>

definition net_of :: "('h::linorder, 'c) histories \<Rightarrow> 'h \<Rightarrow> hstate \<times> ('h, 'c) histories \<Rightarrow> bool" where
  "net_of s h p \<longleftrightarrow> (case p of (st, s1) \<Rightarrow> keys_sorted (hi_net s1)
    \<and> (\<forall>n x. map_of (hi_net s1) n = Some x \<longrightarrow> n < hi_netNext s1)
    \<and> (\<forall>n k i g. map_of (hi_net s1) n = Some (k, i, g) \<longrightarrow>
        k \<noteq> h \<and> map_of (hi_net s) n = Some (k, i, g)
        \<or> k = h \<and> (\<exists>sr. map_of (hs_sent st) i = Some sr \<and> sr_id sr = n \<and> sr_generator sr = g)))"

lemma erase_sent_same [simp]:
  "hs_postponed (fst (erase_sent i p)) = hs_postponed (fst p)"
  "hs_willReadTill (fst (erase_sent i p)) = hs_willReadTill (fst p)"
  "hs_sentReadTill (fst (erase_sent i p)) = hs_sentReadTill (fst p)"
  "hs_postponedRequestEntry (fst (erase_sent i p)) = hs_postponedRequestEntry (fst p)"
  "hi_states (snd (erase_sent i p)) = hi_states (snd p)"
  "hi_historyByRequest (snd (erase_sent i p)) = hi_historyByRequest (snd p)"
  "hi_requestAutoincrement (snd (erase_sent i p)) = hi_requestAutoincrement (snd p)"
  "hi_dialogRequests (snd (erase_sent i p)) = hi_dialogRequests (snd p)"
  "hi_dialogRequestsPending (snd (erase_sent i p)) = hi_dialogRequestsPending (snd p)"
  "hi_inbox (snd (erase_sent i p)) = hi_inbox (snd p)" "hi_netNext (snd (erase_sent i p)) = hi_netNext (snd p)"
  by (simp_all add: erase_sent_def net_cancel_def split: prod.splits option.splits)

lemma erase_sent_sent:
  "keys_sorted (hs_sent (fst p)) \<Longrightarrow> keys_sorted (hs_sent (fst (erase_sent i p)))"
  "map_of (hs_sent (fst (erase_sent i p))) = (map_of (hs_sent (fst p)))(i := None)"
  by (auto simp: erase_sent_def map_of_flat_erase fun_eq_iff split: prod.splits option.splits)

lemma erase_sent_net:
  assumes inv: "hist_inv s" and s1: "hi_net s1 = hi_net s" "hi_netNext s1 = hi_netNext s"
  shows "net_of s h (erase_sent i (state_or_new s h, s1))"
proof -
  note v = hist_invD [OF inv] and own = net_own [OF inv, where h = h]
  let ?st = "state_or_new s h"
  show ?thesis
  proof (cases "map_of (hs_sent ?st) i")
    case None
    then have "erase_sent i (?st, s1) = (?st, s1)" by (simp add: erase_sent_def)
    then show ?thesis using v(3,7) own by (auto simp: net_of_def s1)
  next
    case (Some sr)
    then have e: "erase_sent i (?st, s1) = (?st\<lparr>hs_sent := flat_erase i (hs_sent ?st)\<rparr>, net_cancel (sr_id sr) s1)"
      by (simp add: erase_sent_def)
    have "k \<noteq> h \<and> map_of (hi_net s) n = Some (k, j, g)
        \<or> k = h \<and> (\<exists>sr. ((map_of (hs_sent ?st))(i := None)) j = Some sr \<and> sr_id sr = n \<and> sr_generator sr = g)"
      if "map_of (hi_net s) n = Some (k, j, g)" "n \<noteq> sr_id sr" for n k j g
      using own [OF that(1)] that(2) Some by auto
    then show ?thesis
      using v(3,7) unfolding e by (auto simp: net_of_def net_cancel_def s1 map_of_flat_erase)
  qed
qed

lemma resume_postponed_same [simp]:
  "hs_willReadTill (fst (resume_postponed h p)) = hs_willReadTill (fst p)"
  "hs_sentReadTill (fst (resume_postponed h p)) = hs_sentReadTill (fst p)"
  "hs_postponedRequestEntry (fst (resume_postponed h p)) = hs_postponedRequestEntry (fst p)"
  "hi_states (snd (resume_postponed h p)) = hi_states (snd p)"
  "hi_historyByRequest (snd (resume_postponed h p)) = hi_historyByRequest (snd p)"
  "hi_requestAutoincrement (snd (resume_postponed h p)) = hi_requestAutoincrement (snd p)"
  "hi_dialogRequests (snd (resume_postponed h p)) = hi_dialogRequests (snd p)"
  "hi_dialogRequestsPending (snd (resume_postponed h p)) = hi_dialogRequestsPending (snd p)"
  "hi_inbox (snd (resume_postponed h p)) = hi_inbox (snd p)"
  by (simp_all add: resume_postponed_def split: prod.splits)

lemma resume_postponed_spec:
  assumes net: "net_of s h (st, s1)" and ks: "keys_sorted (hs_sent st)" "keys_sorted (hs_postponed st)"
    and dis: "\<forall>j. map_of (hs_postponed st) j \<noteq> None \<longrightarrow> map_of (hs_sent st) j = None"
    and r: "resume_postponed h (st, s1) = (st2, s2)"
  shows "net_of s h (st2, s2)" "keys_sorted (hs_sent st2)" "keys_sorted (hs_postponed st2)"
    "map_of (hs_postponed st2) j = Some g \<Longrightarrow> map_of (hs_postponed st) j = Some g \<and> map_of (hs_sent st2) j = None"
    "hs_postponed st2 \<noteq> [] \<Longrightarrow> postponeHistoryRequest st2"
    "map_of (hs_sent st2) j = Some sr \<Longrightarrow> map_of (hs_sent st) j = Some sr
      \<or> map_of (hs_postponed st) j = Some (sr_generator sr) \<and> sr_type sr = RequestHistory"
    "postponeHistoryRequest st2 \<longleftrightarrow> postponeHistoryRequest st"
    "postponeHistoryRequest st \<Longrightarrow> st2 = st"
    "map_of (hs_sent st) j = Some sr \<Longrightarrow> map_of (hs_sent st2) j = Some sr"
    "\<not> postponeHistoryRequest st \<Longrightarrow> map_of (hs_postponed st) j = Some g \<Longrightarrow>
      \<exists>n. map_of (hs_sent st2) j = Some \<lparr>sr_generator = g, sr_id = n, sr_type = RequestHistory\<rparr>
        \<and> map_of (hi_net s2) n = Some (h, j, g)"
    "map_of (hi_net s1) n = Some x \<Longrightarrow> map_of (hi_net s2) n = Some x"
proof -
  have eq: "(st2, s2) = (if hs_postponed st \<noteq> [] \<and> \<not> postponeHistoryRequest st
      then send_postponed h (hs_postponed st) (st\<lparr>hs_postponed := []\<rparr>, s1) else (st, s1))"
    using r by (simp add: resume_postponed_def)
  have all: "net_of s h (st2, s2) \<and> keys_sorted (hs_sent st2) \<and> keys_sorted (hs_postponed st2)
      \<and> (\<forall>j g. map_of (hs_postponed st2) j = Some g \<longrightarrow> map_of (hs_postponed st) j = Some g \<and> map_of (hs_sent st2) j = None)
      \<and> (hs_postponed st2 \<noteq> [] \<longrightarrow> postponeHistoryRequest st2)
      \<and> (\<forall>j sr. map_of (hs_sent st2) j = Some sr \<longrightarrow> map_of (hs_sent st) j = Some sr
          \<or> map_of (hs_postponed st) j = Some (sr_generator sr) \<and> sr_type sr = RequestHistory)
      \<and> (postponeHistoryRequest st2 \<longleftrightarrow> postponeHistoryRequest st)
      \<and> (postponeHistoryRequest st \<longrightarrow> st2 = st)
      \<and> (\<forall>j sr. map_of (hs_sent st) j = Some sr \<longrightarrow> map_of (hs_sent st2) j = Some sr)
      \<and> (\<not> postponeHistoryRequest st \<longrightarrow> (\<forall>j g. map_of (hs_postponed st) j = Some g \<longrightarrow>
          (\<exists>n. map_of (hs_sent st2) j = Some \<lparr>sr_generator = g, sr_id = n, sr_type = RequestHistory\<rparr>
            \<and> map_of (hi_net s2) n = Some (h, j, g))))
      \<and> (\<forall>n x. map_of (hi_net s1) n = Some x \<longrightarrow> map_of (hi_net s2) n = Some x)"
  proof (cases "hs_postponed st \<noteq> [] \<and> \<not> postponeHistoryRequest st")
    case False
    then have "st2 = st" "s2 = s1" using eq by auto
    then show ?thesis using net ks dis False by auto
  next
    case True
    let ?st = "st\<lparr>hs_postponed := []\<rparr>"
    have sp: "send_postponed h (hs_postponed st) (?st, s1) = (st2, s2)" using True eq by simp
    have d: "\<forall>j. map_of (hs_postponed st) j \<noteq> None \<longrightarrow> map_of (hs_sent ?st) j = None" using dis by auto
    have "hs_postponed st2 = []" using send_postponed_same(1) [of h "hs_postponed st" "(?st, s1)"] sp by simp
    have n: "keys_sorted (hi_net s1)" "\<forall>n x. map_of (hi_net s1) n = Some x \<longrightarrow> n < hi_netNext s1"
      "map_of (hi_net s1) n = Some (k, i, g) \<Longrightarrow> k \<noteq> h \<and> map_of (hi_net s) n = Some (k, i, g)
        \<or> k = h \<and> (\<exists>sr. map_of (hs_sent st) i = Some sr \<and> sr_id sr = n \<and> sr_generator sr = g)" for n k i g
      using net by (auto simp: net_of_def)
    have sent: "hs_sent ?st = hs_sent st" by simp
    note p = send_postponed_spec [OF sp _ ks(2) d n(1,2), unfolded sent, OF ks(1)]
    note p1 = p [THEN conjunct2] note p2 = p1 [THEN conjunct2] note p3 = p2 [THEN conjunct2] note p4 = p3 [THEN conjunct2]
    note p5 = p4 [THEN conjunct2] note p6 = p5 [THEN conjunct2] note p7 = p6 [THEN conjunct2]
    note ks2 = p [THEN conjunct1] p1 [THEN conjunct1]
    note keep = p4 [THEN conjunct1, rule_format] and old = p7 [THEN conjunct1, rule_format]
    note old_net = p7 [THEN conjunct2, rule_format]
    have no: "\<not> postponeHistoryRequest st2"
    proof
      assume "postponeHistoryRequest st2"
      then obtain j sr where sr: "map_of (hs_sent st2) j = Some sr" "sr_type sr = RequestDelete"
        unfolding postponeHistory_iff [OF ks2(1)] by blast
      from old [OF sr(1)] sr(2) have "map_of (hs_sent st) j = Some sr" by auto
      then show False using True sr(2) postponeHistory_iff [OF ks(1)] by blast
    qed
    have own: "k \<noteq> h \<and> map_of (hi_net s) n = Some (k, i, g)
        \<or> k = h \<and> (\<exists>sr. map_of (hs_sent st2) i = Some sr \<and> sr_id sr = n \<and> sr_generator sr = g)"
      if i: "map_of (hi_net s2) n = Some (k, i, g)" for n k i g
      using old_net [OF i] n(3) [of n k i g] keep [of i] by blast
    have "net_of s h (st2, s2)"
      using ks2(2) p2 [THEN conjunct1] own by (simp add: net_of_def)
    moreover have "keys_sorted (hs_postponed st2)"
      "\<forall>j g. map_of (hs_postponed st2) j = Some g \<longrightarrow> map_of (hs_postponed st) j = Some g \<and> map_of (hs_sent st2) j = None"
      "hs_postponed st2 \<noteq> [] \<longrightarrow> postponeHistoryRequest st2"
      using \<open>hs_postponed st2 = []\<close> by simp_all
    moreover have "postponeHistoryRequest st2 \<longleftrightarrow> postponeHistoryRequest st" "postponeHistoryRequest st \<longrightarrow> st2 = st"
      using no True by simp_all
    ultimately show ?thesis
      using p7 [THEN conjunct1] p4 [THEN conjunct1] p5 [THEN conjunct1]
      by (intro conjI ks2(1) impI [OF p6 [THEN conjunct1]]; assumption?)
  qed
  note a1 = all [THEN conjunct2] note a2 = a1 [THEN conjunct2] note a3 = a2 [THEN conjunct2] note a4 = a3 [THEN conjunct2]
  note a5 = a4 [THEN conjunct2] note a6 = a5 [THEN conjunct2] note a7 = a6 [THEN conjunct2] note a8 = a7 [THEN conjunct2]
  note a9 = a8 [THEN conjunct2]
  show "net_of s h (st2, s2)" "keys_sorted (hs_sent st2)" "keys_sorted (hs_postponed st2)"
    "map_of (hs_postponed st2) j = Some g \<Longrightarrow> map_of (hs_postponed st) j = Some g \<and> map_of (hs_sent st2) j = None"
    "hs_postponed st2 \<noteq> [] \<Longrightarrow> postponeHistoryRequest st2"
    "map_of (hs_sent st2) j = Some sr \<Longrightarrow> map_of (hs_sent st) j = Some sr
      \<or> map_of (hs_postponed st) j = Some (sr_generator sr) \<and> sr_type sr = RequestHistory"
    "postponeHistoryRequest st2 \<longleftrightarrow> postponeHistoryRequest st"
    "postponeHistoryRequest st \<Longrightarrow> st2 = st"
    "map_of (hs_sent st) j = Some sr \<Longrightarrow> map_of (hs_sent st2) j = Some sr"
    "\<not> postponeHistoryRequest st \<Longrightarrow> map_of (hs_postponed st) j = Some g \<Longrightarrow>
      \<exists>n. map_of (hs_sent st2) j = Some \<lparr>sr_generator = g, sr_id = n, sr_type = RequestHistory\<rparr>
        \<and> map_of (hi_net s2) n = Some (h, j, g)"
    "map_of (hi_net s1) n = Some x \<Longrightarrow> map_of (hi_net s2) n = Some x"
    by (rule all [THEN conjunct1] a1 [THEN conjunct1] a2 [THEN conjunct1] a3 [THEN conjunct1, rule_format]
      a4 [THEN conjunct1, rule_format] a5 [THEN conjunct1, rule_format] a6 [THEN conjunct1] a7 [THEN conjunct1, rule_format]
      a8 [THEN conjunct1, rule_format] a9 [THEN conjunct1, rule_format] a9 [THEN conjunct2, rule_format]; assumption?)+
qed

text \<open>A request can be finished when it is not another chat's and does not wait.\<close>

definition finishable :: "('h::linorder, 'c) histories \<Rightarrow> 'h \<Rightarrow> int \<Rightarrow> bool" where
  "finishable s h i \<longleftrightarrow> map_of (hi_historyByRequest s) i \<in> {None, Some h}
    \<and> map_of (hs_postponed (state_or_new s h)) i = None"

lemma state_inv_finished:
  assumes inv: "state_inv R a D b h st" and net: "net_of s h (st1, s1)"
    and i: "map_of (hs_postponed st) i = None" and st1: "st1 = fst (erase_sent i (st, s0))"
    and r: "resume_postponed h (st1, s1) = (st2, s2)"
    and e: "e \<Longrightarrow> D' h \<noteq> None \<and> postponeEntryRequest st2" and R': "\<And>j. j \<noteq> i \<Longrightarrow> R' j = R j"
  shows "state_inv R' a D' b h (st2\<lparr>hs_postponedRequestEntry := e\<rparr>)"
proof -
  note v = state_invD [OF inv]
  have ks1: "keys_sorted (hs_sent st1)" and sent1: "map_of (hs_sent st1) = (map_of (hs_sent st))(i := None)"
    using erase_sent_sent [where p = "(st, s0)" and i = i] v(2) by (simp_all add: st1)
  have post1: "hs_postponed st1 = hs_postponed st" "hs_willReadTill st1 = hs_willReadTill st"
    "hs_sentReadTill st1 = hs_sentReadTill st" by (simp_all add: st1)
  have dis: "\<forall>j. map_of (hs_postponed st1) j \<noteq> None \<longrightarrow> map_of (hs_sent st1) j = None"
    using v(3) unfolding sent1 post1 by auto
  have ksp: "keys_sorted (hs_postponed st1)" using v(1) by (simp add: post1)
  note p = resume_postponed_spec [OF net ks1 ksp dis r]
  have read: "hs_willReadTill st2 = hs_willReadTill st" "hs_sentReadTill st2 = hs_sentReadTill st"
    using resume_postponed_same(1,2) [where h = h and p = "(st1, s1)"] by (simp_all add: r post1)
  have old: "map_of (hs_sent st) j = Some sr \<and> j \<noteq> i
      \<or> map_of (hs_postponed st) j = Some (sr_generator sr) \<and> sr_type sr = RequestHistory"
    if "map_of (hs_sent st2) j = Some sr" for j sr
    using p(6) [OF that] unfolding sent1 post1 by (auto split: if_splits)
  have same: "postponeHistoryRequest (st2\<lparr>hs_postponedRequestEntry := e\<rparr>) = postponeHistoryRequest st2"
    "postponeEntryRequest (st2\<lparr>hs_postponedRequestEntry := e\<rparr>) = postponeEntryRequest st2"
    by (simp_all add: postponeHistoryRequest_def postponeEntryRequest_def)
  have deleting: "postponeHistoryRequest st" if "postponeHistoryRequest st1"
    using that unfolding postponeHistory_iff [OF ks1] postponeHistory_iff [OF v(2)] sent1 by (auto split: if_splits)
  show ?thesis
  proof (rule state_invI; (unfold same)?)
    fix j g assume "map_of (hs_postponed (st2\<lparr>hs_postponedRequestEntry := e\<rparr>)) j = Some g"
    then have j: "map_of (hs_postponed st2) j = Some g" by simp
    from p(4) [OF this] have "map_of (hs_postponed st) j = Some g" "map_of (hs_sent st2) j = None" by (simp_all add: post1)
    moreover have "j \<noteq> i" using calculation i by auto
    ultimately show "R' j = Some h \<and> j \<le> a \<and> map_of (hs_sent (st2\<lparr>hs_postponedRequestEntry := e\<rparr>)) j = None
        \<and> (\<exists>f l. g = Request f l)" using v(3) R' by simp
    show "postponeHistoryRequest st2" using p(5) j by (cases "hs_postponed st2") auto
  next
    fix j sr assume "map_of (hs_sent (st2\<lparr>hs_postponedRequestEntry := e\<rparr>)) j = Some sr"
    then have j: "map_of (hs_sent st2) j = Some sr" by simp
    then have "j \<noteq> i" using old [OF j] i by auto
    then show "R' j = Some h \<and> j \<le> a" using old [OF j] v(3,4) R' by auto
  next
    fix j sr assume del: "postponeHistoryRequest st2" and "map_of (hs_sent (st2\<lparr>hs_postponedRequestEntry := e\<rparr>)) j = Some sr"
    then have "map_of (hs_sent st2) j = Some sr" by simp
    moreover have "postponeHistoryRequest st1" using del p(7) by simp
    moreover note p(8) [OF this]
    ultimately have "map_of (hs_sent st) j = Some sr" "postponeHistoryRequest st"
      using deleting by (auto simp: sent1 split: if_splits)
    then show "sr_type sr \<noteq> RequestHistory" using v(6) by blast
  next
    fix j sr t assume "map_of (hs_sent (st2\<lparr>hs_postponedRequestEntry := e\<rparr>)) j = Some sr" and t: "sr_generator sr = ReadRequest t"
    then have j: "map_of (hs_sent st2) j = Some sr" by simp
    have "map_of (hs_sent st) j = Some sr" using old [OF j] v(3) [of j "sr_generator sr"] t by auto
    then show "sr_type sr = RequestReadInbox \<and> 0 < t
        \<and> (hs_willReadTill (st2\<lparr>hs_postponedRequestEntry := e\<rparr>) = 0 \<or> t < hs_willReadTill (st2\<lparr>hs_postponedRequestEntry := e\<rparr>))
        \<and> (t \<le> hs_sentReadTill (st2\<lparr>hs_postponedRequestEntry := e\<rparr>)
          \<or> hs_sentReadTill (st2\<lparr>hs_postponedRequestEntry := e\<rparr>) = 0 \<and> (\<exists>x. in_readBefore b = Some x \<and> t < x))"
      using v(10) [of j sr t] t by (simp add: read)
  qed (use p(2,3) e v(8,9) read in simp_all)
qed

lemma net_ofD:
  assumes "net_of s h (st, s1)"
  shows "keys_sorted (hi_net s1)" "map_of (hi_net s1) n = Some x \<Longrightarrow> n < hi_netNext s1"
    "map_of (hi_net s1) n = Some (k, i, g) \<Longrightarrow> k \<noteq> h \<and> map_of (hi_net s) n = Some (k, i, g)
        \<or> k = h \<and> (\<exists>sr. map_of (hs_sent st) i = Some sr \<and> sr_id sr = n \<and> sr_generator sr = g)"
  using assms unfolding net_of_def prod.case by (elim conjE; blast)+

lemma finishSentRequest_inv:
  assumes inv: "hist_inv s" and fin: "finishable s h i"
  shows "\<exists>s'. finishSentRequest h i s = Some s' \<and> hist_inv s'"
proof -
  note v = hist_invD [OF inv]
  let ?st = "state_or_new s h" and ?R = "map_of (hi_historyByRequest s)"
  let ?s = "s\<lparr>hi_historyByRequest := flat_erase i (hi_historyByRequest s)\<rparr>"
  note sv = state_or_new_inv [OF inv, of h]
  have R: "?R i = None \<or> ?R i = Some h" and np: "map_of (hs_postponed ?st) i = None"
    using fin by (auto simp: finishable_def)
  obtain st1 s1 where e: "erase_sent i (?st, ?s) = (st1, s1)" by fastforce
  have st1: "st1 = fst (erase_sent i (?st, ?s))" by (simp add: e)
  have net1: "net_of s h (st1, s1)" using erase_sent_net [OF inv, of ?s h i] by (simp add: e)
  obtain st2 s2 where r: "resume_postponed h (st1, s1) = (st2, s2)" by fastforce
  have ks1: "keys_sorted (hs_sent st1)" "keys_sorted (hs_postponed st1)"
    using erase_sent_sent [where p = "(?st, ?s)" and i = i] state_invD(1,2) [OF sv] by (simp_all add: st1)
  have dis: "\<forall>j. map_of (hs_postponed st1) j \<noteq> None \<longrightarrow> map_of (hs_sent st1) j = None"
    using state_invD(3) [OF sv] erase_sent_sent(2) [where p = "(?st, ?s)" and i = i] by (auto simp: st1)
  note net2 = resume_postponed_spec(1) [OF net1 ks1 dis r]
  have same1: "hi_states s1 = hi_states s" "hi_historyByRequest s1 = hi_historyByRequest ?s"
    "hi_requestAutoincrement s1 = hi_requestAutoincrement s" "hi_dialogRequests s1 = hi_dialogRequests s"
    "hi_dialogRequestsPending s1 = hi_dialogRequestsPending s" "hi_inbox s1 = hi_inbox s"
    "hs_postponedRequestEntry st1 = hs_postponedRequestEntry ?st"
    using erase_sent_same [of i "(?st, ?s)"] by (simp_all add: e)
  have same: "hi_states s2 = hi_states s" "hi_historyByRequest s2 = flat_erase i (hi_historyByRequest s)"
    "hi_requestAutoincrement s2 = hi_requestAutoincrement s" "hi_dialogRequests s2 = hi_dialogRequests s"
    "hi_dialogRequestsPending s2 = hi_dialogRequestsPending s" "hi_inbox s2 = hi_inbox s"
    "hs_postponedRequestEntry st2 = hs_postponedRequestEntry ?st"
    using resume_postponed_same [where h = h and p = "(st1, s1)"] same1 by (simp_all add: r)
  have put: "hist_inv (put_state h (st2\<lparr>hs_postponedRequestEntry := e\<rparr>)
      (s2\<lparr>hi_dialogRequestsPending := P, hi_dialogRequests := D\<rparr>))"
    if "e \<longrightarrow> map_of D h \<noteq> None \<and> postponeEntryRequest st2" "keys_sorted P" "keys_sorted D"
      "\<forall>k. map_of D k = None \<or> map_of P k = None" "\<forall>k. k \<noteq> h \<longrightarrow> map_of D k = map_of (hi_dialogRequests s) k" for e P D
  proof (rule hist_inv_put [OF inv, where h = h], goal_cases)
    case 13
    have "state_inv (?R(i := None)) (hi_requestAutoincrement s) (map_of D) (hi_inbox s h) h
        (st2\<lparr>hs_postponedRequestEntry := e\<rparr>)"
      by (rule state_inv_finished [OF sv net1 np st1 r]) (use that(1) in simp_all)
    then show ?case by (simp add: same map_of_flat_erase)
  next
    case (8 j k)
    then show ?case using v(8) [of j k] by (simp add: same map_of_flat_erase split: if_splits)
  next
    case (9 j k)
    then show ?case using R by (auto simp: same map_of_flat_erase)
  next
    case (6 k)
    then show ?case using that(4) by simp
  next
    case (7 n x)
    then show ?case using net_ofD(2) [OF net2, of n x] by simp
  next
    case (14 n k j g)
    then show ?case using net_ofD(3) [OF net2, of n k j g] by simp
  next
    case 3
    then show ?case using net_ofD(1) [OF net2] by simp
  qed (use that v(2) in \<open>simp_all add: same\<close>)
  have fsr: "finishSentRequest h i s = (if hs_postponedRequestEntry st2 \<and> \<not> postponeEntryRequest st2
      then case map_of (hi_dialogRequests s) h of None \<Rightarrow> None
        | Some callbacks \<Rightarrow>
            if map_of (hi_dialogRequestsPending s) h \<noteq> None then None
            else Some (checkEmptyState h (postponeRequestDialogEntries
              (put_state h (st2\<lparr>hs_postponedRequestEntry := False\<rparr>)
                (s2\<lparr>hi_dialogRequestsPending := flat_emplace h callbacks (hi_dialogRequestsPending s),
                    hi_dialogRequests := flat_erase h (hi_dialogRequests s)\<rparr>))))
      else Some (checkEmptyState h (put_state h st2 s2)))"
    by (simp only: finishSentRequest_def Let_def e r prod.case same(4,5))
  show ?thesis
  proof (cases "hs_postponedRequestEntry st2 \<and> \<not> postponeEntryRequest st2")
    case True
    then obtain cs where cs: "map_of (hi_dialogRequests s) h = Some cs" using state_invD(7) [OF sv] same(7) by auto
    have p: "map_of (hi_dialogRequestsPending s) h = None" using v(6) [of h] cs by simp
    have "hist_inv (put_state h (st2\<lparr>hs_postponedRequestEntry := False\<rparr>)
        (s2\<lparr>hi_dialogRequestsPending := flat_emplace h cs (hi_dialogRequestsPending s),
            hi_dialogRequests := flat_erase h (hi_dialogRequests s)\<rparr>))"
      by (rule put) (use v(4,5,6) p in \<open>auto simp: map_of_flat_erase map_of_flat_emplace\<close>)
    then show ?thesis
      using fsr True cs p by (auto intro!: checkEmptyState_inv postponeRequestDialogEntries_inv)
  next
    case False
    have eq: "put_state h st2 s2 = put_state h (st2\<lparr>hs_postponedRequestEntry := hs_postponedRequestEntry st2\<rparr>)
        (s2\<lparr>hi_dialogRequestsPending := hi_dialogRequestsPending s, hi_dialogRequests := hi_dialogRequests s\<rparr>)"
      by (rule arg_cong2 [where f = "put_state h"]) (simp_all flip: same(4,5))
    have "hist_inv (put_state h st2 s2)"
      unfolding eq by (rule put) (use False v(4,5,6) state_invD(7) [OF sv] same(7) in auto)
    then show ?thesis using fsr False by (simp add: checkEmptyState_inv)
  qed
qed

lemma checkPostponed_inv:
  "hist_inv s \<Longrightarrow> finishable s h i \<Longrightarrow> \<exists>s'. checkPostponed h i s = Some s' \<and> hist_inv s'"
  using finishSentRequest_inv by (auto simp: checkPostponed_def split: option.splits)

section \<open>Cancelling and entries\<close>

lemma state_inv_cancelled:
  assumes "state_inv R a D b h st"
  shows "state_inv R a D b h (st\<lparr>hs_postponed := flat_erase i (hs_postponed st)\<rparr>)"
proof -
  note v = state_invD [OF assms]
  have same: "postponeHistoryRequest (hs_postponed_update x st) = postponeHistoryRequest st"
    "postponeEntryRequest (hs_postponed_update x st) = postponeEntryRequest st" for x
    by (simp_all add: postponeHistoryRequest_def postponeEntryRequest_def)
  have "hs_postponed st \<noteq> []" if "map_of (hs_postponed st) j = Some g" for j g using that by auto
  then show ?thesis
    by (intro state_invI; (simp add: v(1,2,8,9) map_of_flat_erase same split: if_splits)?)
      (use v(3-7,9,10) in \<open>blast | fastforce\<close>)+
qed

lemma flat_erase_twice [simp]: "flat_erase i (flat_erase i m) = flat_erase i m"
  by (simp add: flat_erase_def)

lemma finish_erased:
  "finishSentRequest h i (put_state h st (s\<lparr>hi_historyByRequest := flat_erase i (hi_historyByRequest s)\<rparr>))
    = finishSentRequest h i (put_state h st s)"
  by (simp add: finishSentRequest_def put_state_def state_or_new_def lookup_def)

lemma cancelRequest_inv:
  assumes inv: "hist_inv s" shows "\<exists>s'. cancelRequest i s = Some s' \<and> hist_inv s'"
proof (cases "i = 0 \<or> map_of (hi_historyByRequest s) i = None")
  case True
  then show ?thesis using inv by (auto simp: cancelRequest_def)
next
  case False
  note v = hist_invD [OF inv]
  obtain h where h: "map_of (hi_historyByRequest s) i = Some h" using False by blast
  let ?s1 = "s\<lparr>hi_historyByRequest := flat_erase i (hi_historyByRequest s)\<rparr>"
  have l: "lookup ?s1 = lookup s" by (simp add: lookup_def fun_eq_iff)
  show ?thesis
  proof (cases "lookup s h")
    case None
    have "hist_inv ?s1"
    proof (rule hist_inv_update [OF inv, where h = h])
      fix n k j g assume "map_of (hi_net ?s1) n = Some (k, j, g)"
      then have "map_of (hi_net s) n = Some (k, j, g)" by simp
      from v(10) [OF this] show "\<exists>st sr. lookup ?s1 k = Some st \<and> map_of (hs_sent st) j = Some sr \<and> sr_id sr = n \<and> sr_generator sr = g"
        by (simp add: l)
    next
      fix j k assume "map_of (hi_historyByRequest ?s1) j = Some k"
      then show "j \<le> hi_requestAutoincrement ?s1" using v(8) by (simp add: map_of_flat_erase split: if_splits)
    next
      fix n x assume "map_of (hi_net ?s1) n = Some x"
      then show "n < hi_netNext ?s1" using v(7) [of n x] by simp
    qed (use v(1-6) None h in \<open>auto simp: l map_of_flat_erase\<close>)
    then show ?thesis using False h None by (simp add: cancelRequest_def l Let_def)
  next
    case (Some st)
    let ?st = "st\<lparr>hs_postponed := flat_erase i (hs_postponed st)\<rparr>"
    have "state_inv (map_of (hi_historyByRequest s)) (hi_requestAutoincrement s) (map_of (hi_dialogRequests s)) (hi_inbox s h) h ?st"
      by (rule state_inv_cancelled [OF v(9) [OF Some]])
    moreover have "hs_sent (state_or_new s h) = hs_sent ?st" using Some by (simp add: state_or_new_def)
    moreover note own = net_own [OF inv, where h = h]
    ultimately have put: "hist_inv (put_state h ?st s)"
      by (intro hist_inv_put [OF inv, where h = h]) (use v in \<open>simp | blast\<close>)+
    have "finishable (put_state h ?st s) h i"
      using h v(1) by (simp add: finishable_def state_or_new_def map_of_flat_erase)
    from finishSentRequest_inv [OF put this] show ?thesis
      using False h Some by (simp add: cancelRequest_def l Let_def finish_erased)
  qed
qed

lemma hist_invI:
  assumes ks: "keys_sorted (hi_states s)" "keys_sorted (hi_historyByRequest s)" "keys_sorted (hi_net s)"
      "keys_sorted (hi_dialogRequests s)" "keys_sorted (hi_dialogRequestsPending s)"
    and dis: "\<And>k. map_of (hi_dialogRequests s) k = None \<or> map_of (hi_dialogRequestsPending s) k = None"
    and net: "\<And>n x. map_of (hi_net s) n = Some x \<Longrightarrow> n < hi_netNext s"
    and ids: "\<And>i k. map_of (hi_historyByRequest s) i = Some k \<Longrightarrow> i \<le> hi_requestAutoincrement s"
    and every: "\<And>h st. lookup s h = Some st \<Longrightarrow> state_inv (map_of (hi_historyByRequest s)) (hi_requestAutoincrement s)
      (map_of (hi_dialogRequests s)) (hi_inbox s h) h st"
    and sent: "\<And>n k i g. map_of (hi_net s) n = Some (k, i, g) \<Longrightarrow>
        \<exists>st sr. lookup s k = Some st \<and> map_of (hs_sent st) i = Some sr \<and> sr_id sr = n \<and> sr_generator sr = g"
  shows "hist_inv s"
proof -
  have d: "dom (map_of (hi_dialogRequests s)) \<inter> dom (map_of (hi_dialogRequestsPending s)) = {}"
    by (rule equals0I) (metis IntE domIff dis)
  have n: "\<forall>n \<in> dom (map_of (hi_net s)). n < hi_netNext s" using net by blast
  have i: "\<forall>i \<in> dom (map_of (hi_historyByRequest s)). i \<le> hi_requestAutoincrement s" using ids by blast
  show ?thesis
    unfolding hist_inv_def by (intro conjI ks d n i allI impI; (erule every | erule sent))
qed

lemma hist_inv_dialogs:
  assumes inv: "hist_inv s" and same: "hi_states s' = hi_states s" "hi_historyByRequest s' = hi_historyByRequest s"
      "hi_requestAutoincrement s' = hi_requestAutoincrement s" "hi_net s' = hi_net s" "hi_netNext s' = hi_netNext s"
    and ks: "keys_sorted (hi_dialogRequests s')" "keys_sorted (hi_dialogRequestsPending s')"
    and dis: "\<And>k. map_of (hi_dialogRequests s') k = None \<or> map_of (hi_dialogRequestsPending s') k = None"
    and dialogs: "\<And>k st. lookup s k = Some st \<Longrightarrow> hs_postponedRequestEntry st \<Longrightarrow>
      map_of (hi_dialogRequests s) k \<noteq> None \<Longrightarrow> map_of (hi_dialogRequests s') k \<noteq> None"
    and boxes: "\<And>k x. in_readBefore (hi_inbox s k) = Some x \<Longrightarrow> \<exists>y. in_readBefore (hi_inbox s' k) = Some y \<and> x \<le> y"
  shows "hist_inv s'"
proof -
  note v = hist_invD [OF inv]
  have l: "lookup s' = lookup s" by (simp add: lookup_def fun_eq_iff same)
  have st: "state_inv (map_of (hi_historyByRequest s')) (hi_requestAutoincrement s') (map_of (hi_dialogRequests s'))
      (hi_inbox s' h) h st" if h: "lookup s' h = Some st" for h st
  proof -
    have h': "lookup s h = Some st" using h by (simp add: l)
    note i = v(9) [OF h']
    let ?e = "hs_postponedRequestEntry st"
    have "state_inv (map_of (hi_historyByRequest s)) (hi_requestAutoincrement s)
        (if ?e then map_of (hi_dialogRequests s) else Map.empty) (hi_inbox s h) h st"
      using i by (auto simp: state_inv_def)
    then have "state_inv (map_of (hi_historyByRequest s)) (hi_requestAutoincrement s)
        (if ?e then map_of (hi_dialogRequests s') else Map.empty) (hi_inbox s' h) h st"
      by (rule state_inv_mono) (use dialogs [OF h'] boxes in \<open>auto split: if_splits\<close>)
    then show ?thesis unfolding same by (cases ?e) (auto simp: state_inv_def)
  qed
  have sent: "\<exists>st sr. lookup s' h = Some st \<and> map_of (hs_sent st) i = Some sr \<and> sr_id sr = n \<and> sr_generator sr = g"
    if "map_of (hi_net s') n = Some (h, i, g)" for n h i g
    using that v(10) by (simp add: same l)
  have net: "\<And>n x. map_of (hi_net s') n = Some x \<Longrightarrow> n < hi_netNext s'" using v(7) by (simp add: same)
  have ids: "\<And>i k. map_of (hi_historyByRequest s') i = Some k \<Longrightarrow> i \<le> hi_requestAutoincrement s'" using v(8) by (simp add: same)
  show ?thesis
    by (rule hist_invI) (simp only: same v(1-3), simp only: same v(1-3), simp only: same v(1-3),
      (fact ks(1) | fact ks(2) | rule dis | erule net | erule ids | erule st | erule sent)+)
qed

lemma upd_inbox_inv:
  assumes "hist_inv s" "\<And>x. in_readBefore (hi_inbox s h) = Some x \<Longrightarrow>
      \<exists>y. in_readBefore (f (hi_inbox s h)) = Some y \<and> x \<le> y"
  shows "hist_inv (upd_inbox h f s)"
  by (rule hist_inv_dialogs [OF assms(1)]) (use assms hist_invD(4-6) [OF assms(1)] in \<open>auto simp: upd_inbox_def\<close>)

lemma requestDialogEntry_inv:
  assumes inv: "hist_inv s" shows "hist_inv (requestDialogEntry h c s)"
proof -
  note v = hist_invD [OF inv]
  have p: "map_of (hi_dialogRequests s) k = None" if "map_of (hi_dialogRequestsPending s) k = Some y" for k y
    using v(6) [of k] that by simp
  show ?thesis
    unfolding requestDialogEntry_def Let_def
    using v(4,5)
    by (auto split: option.splits if_splits simp: map_of_flat_assign map_of_flat_emplace p
        intro!: postponeRequestDialogEntries_inv hist_inv_dialogs [OF inv] dest: p)
qed

lemma lookup_frame: "lookup (s\<lparr>hi_dialogRequests := D, hi_dialogRequestsPending := P\<rparr>) = lookup s"
  by (simp add: lookup_def fun_eq_iff)

lemma put_state_frame: "put_state h st (s\<lparr>hi_dialogRequests := D, hi_dialogRequestsPending := P\<rparr>)
    = (put_state h st s)\<lparr>hi_dialogRequests := D, hi_dialogRequestsPending := P\<rparr>"
  by (simp add: put_state_def)

lemma choose_dialogs_frame:
  "choose_dialogs hs (s\<lparr>hi_dialogRequests := D, hi_dialogRequestsPending := P\<rparr>)
    = (case choose_dialogs hs s of (r, s') \<Rightarrow> (r, s'\<lparr>hi_dialogRequests := D, hi_dialogRequestsPending := P\<rparr>))"
  by (induction hs arbitrary: s) (simp_all add: lookup_frame put_state_frame case_prod_beta split: option.split)

lemma choose_dialogs_same [simp]:
  "hi_dialogRequests (snd (choose_dialogs hs s)) = hi_dialogRequests s"
  "hi_dialogRequestsPending (snd (choose_dialogs hs s)) = hi_dialogRequestsPending s"
  by (induction hs arbitrary: s) (auto simp: case_prod_beta split: option.split)

lemma choose_dialogs_inv:
  "hist_inv s \<Longrightarrow> \<forall>h\<in>set hs. map_of (hi_dialogRequests s) h \<noteq> None \<Longrightarrow> hist_inv (snd (choose_dialogs hs s))"
proof (induction hs arbitrary: s)
  case (Cons h hs)
  show ?case
  proof (cases "lookup s h")
    case None
    then show ?thesis using Cons by (simp add: case_prod_beta)
  next
    case (Some st)
    note v = hist_invD [OF Cons.prems(1)]
    show ?thesis
    proof (cases "postponeEntryRequest st")
      case False
      then show ?thesis using Cons Some by (simp add: case_prod_beta)
    next
      case True
      let ?st = "st\<lparr>hs_postponedRequestEntry := True\<rparr>"
      have "state_inv (map_of (hi_historyByRequest s)) (hi_requestAutoincrement s) (map_of (hi_dialogRequests s)) (hi_inbox s h) h ?st"
        using v(9) [OF Some] Cons.prems(2) True by (auto simp: state_inv_def postponeHistoryRequest_def postponeEntryRequest_def)
      moreover have "hs_sent (state_or_new s h) = hs_sent ?st" using Some by (simp add: state_or_new_def)
      moreover note own = net_own [OF Cons.prems(1), where h = h]
      ultimately have "hist_inv (put_state h ?st s)"
        by (intro hist_inv_put [OF Cons.prems(1), where h = h]) (use v in \<open>simp | blast\<close>)+
      then show ?thesis using Cons Some True by simp
    qed
  qed
qed simp

lemma sendDialogRequests_inv:
  assumes inv: "hist_inv s" shows "hist_inv (sendDialogRequests s)"
proof (cases "hi_dialogRequestsPending s = []")
  case False
  note v = hist_invD [OF inv]
  let ?P = "hi_dialogRequestsPending s"
  define D where "D = fold (\<lambda>(h, cs). flat_emplace h cs) ?P (hi_dialogRequests s)"
  have f: "keys_sorted D" "map_of D h = (case map_of (hi_dialogRequests s) h of Some y \<Rightarrow> Some y | None \<Rightarrow> map_of ?P h)" for h
    using map_of_fold_emplace [OF v(4,5), of id h, unfolded option.map_id id_apply] by (simp_all add: D_def)
  let ?s = "s\<lparr>hi_dialogRequests := D, hi_dialogRequestsPending := []\<rparr>"
  have s: "hist_inv ?s"
    by (rule hist_inv_dialogs [OF inv]) (use f in \<open>auto split: option.splits\<close>)
  have "\<forall>h\<in>set (List.map fst ?P). map_of (hi_dialogRequests ?s) h \<noteq> None"
  proof
    fix h assume "h \<in> set (List.map fst ?P)"
    then have "map_of ?P h \<noteq> None" by (simp add: map_of_eq_None_iff)
    then show "map_of (hi_dialogRequests ?s) h \<noteq> None" using f(2) [of h] by (auto split: option.splits)
  qed
  from choose_dialogs_inv [OF s this]
  have c: "hist_inv (snd (choose_dialogs (List.map fst ?P) s)\<lparr>hi_dialogRequests := D, hi_dialogRequestsPending := []\<rparr>)"
    by (simp add: choose_dialogs_frame case_prod_beta)
  have "sendDialogRequests s = (snd (choose_dialogs (List.map fst ?P) s)\<lparr>hi_dialogRequests := D, hi_dialogRequestsPending := [],
      hi_dialogsSent := hi_dialogsSent (snd (choose_dialogs (List.map fst ?P) s)) @ [fst (choose_dialogs (List.map fst ?P) s)]\<rparr>)"
    using False by (simp add: sendDialogRequests_def case_prod_beta D_def)
  then show ?thesis
    by (simp only:) (rule hist_inv_dialogs [OF c], use hist_invD(4-6) [OF c] in auto)
qed (simp add: sendDialogRequests_def inv)

lemma dialogEntryApplied_inv:
  assumes inv: "hist_inv s" shows "hist_inv (fst (dialogEntryApplied h s))"
proof (cases "case lookup s h of Some st \<Rightarrow> hs_postponedRequestEntry st | None \<Rightarrow> False")
  case False
  note v = hist_invD [OF inv]
  define s1 where "s1 = s\<lparr>hi_dialogRequestsPending := flat_erase h (hi_dialogRequestsPending s),
      hi_dialogRequests := flat_erase h (hi_dialogRequests s)\<rparr>"
  have l1: "lookup s1 = lookup s" by (simp add: s1_def lookup_def fun_eq_iff)
  have s1: "hist_inv s1"
    by (rule hist_inv_dialogs [OF inv]) (use v(4-6) False in \<open>auto simp: s1_def map_of_flat_erase split: if_splits\<close>)
  show ?thesis
  proof (cases "\<exists>st. lookup s h = Some st \<and> hs_sentReadTill st \<noteq> 0 \<and> hs_sentReadDone st")
    case True
    then obtain st where st: "lookup s h = Some st" "hs_sentReadTill st \<noteq> 0" "hs_sentReadDone st" by blast
    let ?st = "st\<lparr>hs_sentReadTill := 0\<rparr>" and ?s2 = "upd_inbox h (setInboxReadTill (hs_sentReadTill st)) s1"
    have s2: "hist_inv ?s2" by (rule upd_inbox_inv [OF s1]) (auto simp: setInboxReadTill_def)
    have "lookup ?s2 = lookup s1" by (simp add: upd_inbox_def lookup_def fun_eq_iff)
    then have l2: "lookup ?s2 h = Some st" using st(1) l1 by simp
    have readBefore: "\<exists>x. in_readBefore (hi_inbox ?s2 h) = Some x \<and> hs_sentReadTill st < x"
      by (auto simp: upd_inbox_def setInboxReadTill_def split: option.split)
    note i2 = hist_invD(9) [OF s2 l2]
    have same: "postponeHistoryRequest ?st = postponeHistoryRequest st" "postponeEntryRequest ?st = postponeEntryRequest st"
      by (simp_all add: postponeHistoryRequest_def postponeEntryRequest_def)
    have "state_inv (map_of (hi_historyByRequest ?s2)) (hi_requestAutoincrement ?s2) (map_of (hi_dialogRequests ?s2)) (hi_inbox ?s2 h) h ?st"
    proof (rule state_invI)
      fix i sr t assume "map_of (hs_sent ?st) i = Some sr" "sr_generator sr = ReadRequest t"
      then show "sr_type sr = RequestReadInbox \<and> 0 < t \<and> (hs_willReadTill ?st = 0 \<or> t < hs_willReadTill ?st)
          \<and> (t \<le> hs_sentReadTill ?st \<or> hs_sentReadTill ?st = 0 \<and> (\<exists>x. in_readBefore (hi_inbox ?s2 h) = Some x \<and> t < x))"
        using state_invD(10) [OF i2, of i sr t] readBefore by fastforce
    next
      fix i g assume "map_of (hs_postponed ?st) i = Some g"
      then show "postponeHistoryRequest ?st" using state_invD(5) [OF i2] by (cases "hs_postponed st") (auto simp: same)
    qed (use state_invD(1-4,6-9) [OF i2] same in auto)
    moreover have "hs_sent (state_or_new ?s2 h) = hs_sent ?st" using l2 by (simp add: state_or_new_def)
    moreover note own = net_own [OF s2, where h = h]
    ultimately have put: "hist_inv (put_state h ?st ?s2)"
      by (intro hist_inv_put [OF s2, where h = h]) (use hist_invD [OF s2] in \<open>simp | blast\<close>)+
    have "upd_inbox h (setInboxReadTill (hs_sentReadTill st)) (put_state h ?st s1) = put_state h ?st ?s2"
      by (simp add: upd_inbox_def put_state_def)
    then have "fst (dialogEntryApplied h s) = checkEmptyState h (put_state h ?st ?s2)"
      using False st by (simp add: dialogEntryApplied_def Let_def flip: s1_def)
    then show ?thesis using checkEmptyState_inv [OF put] by simp
  next
    case n: False
    then have "fst (dialogEntryApplied h s) = s1"
      using False by (auto simp: dialogEntryApplied_def Let_def s1_def split: option.splits)
    then show ?thesis using s1 by simp
  qed
qed (simp add: dialogEntryApplied_def inv)

lemma finalize_dialogs_inv: "hist_inv s \<Longrightarrow> hist_inv (fst (finalize_dialogs hs s))"
proof (induction hs arbitrary: s)
  case (Cons h hs)
  have "fst (finalize_dialogs (h # hs) s) = fst (finalize_dialogs hs
      (if (case lookup s h of Some st \<Rightarrow> hs_postponedRequestEntry st | None \<Rightarrow> False) then s else fst (dialogEntryApplied h s)))"
    by (simp add: case_prod_beta)
  moreover have "hist_inv (if (case lookup s h of Some st \<Rightarrow> hs_postponedRequestEntry st | None \<Rightarrow> False)
      then s else fst (dialogEntryApplied h s))"
    using Cons.prems dialogEntryApplied_inv [OF Cons.prems, of h] by simp
  ultimately show ?case using Cons.IH by (simp only:)
qed simp

section \<open>Reading keeps the invariant\<close>

definition reading :: "('h::linorder, 'c) histories \<Rightarrow> 'h \<Rightarrow> int \<Rightarrow> bool" where
  "reading s h i \<longleftrightarrow> (\<exists>st sr. lookup s h = Some st \<and> map_of (hs_sent st) i = Some sr \<and> sr_type sr = RequestReadInbox)"

lemma reading_finishable: "hist_inv s \<Longrightarrow> reading s h i \<Longrightarrow> finishable s h i"
  using state_invD(4) [OF hist_invD(9)] by (fastforce simp: reading_def finishable_def state_or_new_def)

lemma sendRequest_reading:
  assumes inv: "hist_inv s" and r: "reading s h i" and type: "type \<noteq> RequestHistory"
  shows "reading (snd (sendRequest k type gen s)) h i"
proof -
  note v = hist_invD [OF inv] and sv = state_or_new_inv [OF inv, of k]
  let ?i = "hi_requestAutoincrement s + 1"
  obtain st sr where st: "lookup s h = Some st" "map_of (hs_sent st) i = Some sr" "sr_type sr = RequestReadInbox"
    using r by (auto simp: reading_def)
  have unsent: "map_of (hs_sent (state_or_new s k)) ?i = None" using state_invD(4) [OF sv, of ?i] by force
  have now: "\<not> (type = RequestHistory \<and> postponeHistoryRequest (state_or_new s k))" using type by simp
  obtain e where eq: "snd (sendRequest k type gen s) = (let st = state_or_new s k; i = ?i;
        st1 = sent_with i gen (hi_netNext s) type e st; resend = (type = RequestDelete \<or> postponeHistoryRequest st);
        s2 = snd (net_send k i gen (s\<lparr>hi_requestAutoincrement := i, hi_historyByRequest := flat_emplace i k (hi_historyByRequest s)\<rparr>))
      in put_state k (if resend then resendHistoryRequests st1 else st1)
        (fold net_cancel (if resend then history_ids st1 else []) s2))"
    by (rule sendRequest_sent [OF state_invD(2) [OF sv] unsent now, of gen]) (rule that; assumption)
  let ?st1 = "sent_with ?i gen (hi_netNext s) type e (state_or_new s k)"
  let ?st2 = "if type = RequestDelete \<or> postponeHistoryRequest (state_or_new s k) then resendHistoryRequests ?st1 else ?st1"
  define s2 where "s2 = fold net_cancel (if type = RequestDelete \<or> postponeHistoryRequest (state_or_new s k) then history_ids ?st1 else [])
    (snd (net_send k ?i gen (s\<lparr>hi_requestAutoincrement := ?i, hi_historyByRequest := flat_emplace ?i k (hi_historyByRequest s)\<rparr>)))"
  have "hi_states s2 = hi_states s" by (simp add: s2_def fold_net_cancel)
  then have "lookup s2 = lookup s" by (simp add: lookup_def fun_eq_iff)
  moreover have "lookup (put_state k ?st2 s2) = (lookup s2)(k \<mapsto> ?st2)" using \<open>hi_states s2 = _\<close> v(1) by simp
  ultimately have l: "lookup (snd (sendRequest k type gen s)) = (lookup s)(k \<mapsto> ?st2)"
    unfolding eq Let_def s2_def by simp
  show ?thesis
  proof (cases "k = h")
    case True
    then have "state_or_new s k = st" using st by (simp add: state_or_new_def)
    then have "map_of (hs_sent ?st1) i = Some sr"
      using sent_with_sent(2) [OF state_invD(2) [OF sv] unsent] st unsent by auto
    then have "map_of (hs_sent ?st2) i = Some sr"
      using resend_simps(3) [of ?st1 i] sent_with_sent(1) [OF state_invD(2) [OF sv] unsent] state_invD(1) [OF sv] st(3) by simp
    moreover have "lookup (snd (sendRequest k type gen s)) h = Some ?st2" unfolding l using True by simp
    ultimately show ?thesis using st(3) unfolding reading_def by blast
  qed (use st l in \<open>auto simp: reading_def\<close>)
qed

text \<open>A state of a chat in which only what is read changes.\<close>

lemma put_read_state:
  assumes inv: "hist_inv s" and st: "st = state_or_new s h"
    and same: "hs_sent st' = hs_sent st" "hs_postponed st' = hs_postponed st"
      "hs_postponedRequestEntry st' = hs_postponedRequestEntry st"
    and till: "0 \<le> hs_sentReadTill st'" "hs_willReadTill st' = 0 \<or> hs_willReadTill st' > hs_sentReadTill st'"
    and reads: "\<And>i sr t. map_of (hs_sent st) i = Some sr \<Longrightarrow> sr_generator sr = ReadRequest t \<Longrightarrow>
      (hs_willReadTill st' = 0 \<or> t < hs_willReadTill st')
      \<and> (t \<le> hs_sentReadTill st' \<or> hs_sentReadTill st' = 0 \<and> (\<exists>x. in_readBefore (hi_inbox s h) = Some x \<and> t < x))"
  shows "hist_inv (put_state h st' s)" "reading s k j \<Longrightarrow> reading (put_state h st' s) k j"
proof -
  note v = hist_invD [OF inv] and i = state_or_new_inv [OF inv, of h, folded st]
  have p: "postponeHistoryRequest st' = postponeHistoryRequest st" "postponeEntryRequest st' = postponeEntryRequest st"
    by (simp_all add: postponeHistoryRequest_def postponeEntryRequest_def same)
  have "state_inv (map_of (hi_historyByRequest s)) (hi_requestAutoincrement s) (map_of (hi_dialogRequests s)) (hi_inbox s h) h st'"
  proof (rule state_invI)
    fix j sr t assume "map_of (hs_sent st') j = Some sr" "sr_generator sr = ReadRequest t"
    then show "sr_type sr = RequestReadInbox \<and> 0 < t \<and> (hs_willReadTill st' = 0 \<or> t < hs_willReadTill st')
        \<and> (t \<le> hs_sentReadTill st' \<or> hs_sentReadTill st' = 0 \<and> (\<exists>x. in_readBefore (hi_inbox s h) = Some x \<and> t < x))"
      using state_invD(10) [OF i, of j sr t] reads [of j sr t] by (simp add: same)
  next
    fix j g assume "map_of (hs_postponed st') j = Some g"
    then show "postponeHistoryRequest st'" using state_invD(5) [OF i] by (cases "hs_postponed st") (auto simp: same p)
  qed (use state_invD(1-4,6-7) [OF i] same p till in auto)
  moreover have "hs_sent (state_or_new s h) = hs_sent st'" using st same by simp
  moreover note own = net_own [OF inv, where h = h]
  ultimately show "hist_inv (put_state h st' s)"
    by (intro hist_inv_put [OF inv, where h = h]) (use v in \<open>simp | blast\<close>)+
  show "reading (put_state h st' s) k j" if "reading s k j"
    using that v(1) st same by (cases "k = h") (auto simp: reading_def state_or_new_def)
qed

lemma put_read_inv:
  assumes inv: "hist_inv s" and l: "lookup s h = Some st" and will: "hs_willReadTill st \<noteq> 0"
  shows "hist_inv (put_state h (st\<lparr>hs_sentReadTill := hs_willReadTill st, hs_willReadTill := 0, hs_willReadWhen := 0,
    hs_sentReadDone := False\<rparr>) s)"
proof (rule put_read_state [OF inv state_or_new_lookup [OF l, symmetric]])
  note i = hist_invD(9) [OF inv l]
  show "0 \<le> hs_sentReadTill (st\<lparr>hs_sentReadTill := hs_willReadTill st, hs_willReadTill := 0, hs_willReadWhen := 0,
      hs_sentReadDone := False\<rparr>)"
    using state_invD(8,9) [OF i] will by auto
  fix j sr t assume "map_of (hs_sent st) j = Some sr" "sr_generator sr = ReadRequest t"
  then show "(hs_willReadTill (st\<lparr>hs_sentReadTill := hs_willReadTill st, hs_willReadTill := 0, hs_willReadWhen := 0,
        hs_sentReadDone := False\<rparr>) = 0 \<or> t < hs_willReadTill (st\<lparr>hs_sentReadTill := hs_willReadTill st, hs_willReadTill := 0,
        hs_willReadWhen := 0, hs_sentReadDone := False\<rparr>))
      \<and> (t \<le> hs_sentReadTill (st\<lparr>hs_sentReadTill := hs_willReadTill st, hs_willReadTill := 0, hs_willReadWhen := 0,
        hs_sentReadDone := False\<rparr>) \<or> hs_sentReadTill (st\<lparr>hs_sentReadTill := hs_willReadTill st, hs_willReadTill := 0,
        hs_willReadWhen := 0, hs_sentReadDone := False\<rparr>) = 0 \<and> (\<exists>x. in_readBefore (hi_inbox s h) = Some x \<and> t < x))"
    using state_invD(10) [OF i, of j sr t] will by auto
qed simp_all

lemma sendReadRequest_inv:
  assumes inv: "hist_inv s" and l: "lookup s h = Some st" and will: "hs_willReadTill st \<noteq> 0"
  shows "\<exists>s'. sendReadRequest h s = Some s' \<and> hist_inv s' \<and> (\<forall>k i. reading s k i \<longrightarrow> reading s' k i)"
proof -
  let ?st = "st\<lparr>hs_sentReadTill := hs_willReadTill st, hs_willReadTill := 0, hs_willReadWhen := 0, hs_sentReadDone := False\<rparr>"
  have put: "hist_inv (put_state h ?st s)" by (rule put_read_inv [OF inv l will])
  have more: "0 \<le> hs_sentReadTill st" "hs_sentReadTill st < hs_willReadTill st"
    using state_invD(8,9) [OF hist_invD(9) [OF inv l]] will by auto
  have son: "state_or_new (put_state h ?st s) h = ?st" using hist_invD(1) [OF inv] by (simp add: state_or_new_def)
  have "hist_inv (snd (sendRequest h RequestReadInbox (ReadRequest (hs_willReadTill st)) (put_state h ?st s)))"
    by (rule sendRequest_inv [OF put]) (use more son in auto)
  moreover have "reading (snd (sendRequest h RequestReadInbox (ReadRequest (hs_willReadTill st)) (put_state h ?st s))) k i"
    if "reading s k i" for k i
  proof (rule sendRequest_reading [OF put])
    show "reading (put_state h ?st s) k i" using that l hist_invD(1) [OF inv] by (auto simp: reading_def)
  qed simp
  ultimately show ?thesis using l more by (simp add: sendReadRequest_def state_or_new_def Let_def)
qed

lemma read_loop_inv:
  "hist_inv s \<Longrightarrow> \<exists>nxt' s'. read_loop now hs nxt s = Some (nxt', s') \<and> hist_inv s' \<and> (\<forall>k i. reading s k i \<longrightarrow> reading s' k i)"
proof (induction hs arbitrary: s nxt)
  case (Cons h hs)
  let ?st = "state_or_new s h"
  show ?case
  proof (cases "hs_willReadTill ?st \<noteq> 0 \<and> hs_willReadWhen ?st \<le> now")
    case True
    then obtain st where st: "lookup s h = Some st" "?st = st"
      by (cases "lookup s h") (auto simp: state_or_new_def new_state_def)
    from sendReadRequest_inv [OF Cons.prems st(1)] True st(2) obtain s1 where
      s1: "sendReadRequest h s = Some s1" "hist_inv s1" "\<forall>k i. reading s k i \<longrightarrow> reading s1 k i" by auto
    from Cons.IH [OF s1(2), of nxt] True s1 show ?thesis by (auto simp: Let_def)
  next
    case False
    then show ?thesis using Cons.IH [OF Cons.prems] by (auto simp: Let_def)
  qed
qed simp

lemma reading_timer [simp]: "reading (s\<lparr>hi_readRequestsTimer := t\<rparr>) = reading s"
  by (simp add: reading_def lookup_def fun_eq_iff)

lemma hist_inv_timer: "hist_inv s \<Longrightarrow> hist_inv (s\<lparr>hi_readRequestsTimer := t\<rparr>)"
  by (rule hist_inv_dialogs) (auto dest: hist_invD(4,5) hist_invD(6))

lemma sendReadRequests_inv:
  assumes inv: "hist_inv s"
  shows "\<exists>s'. sendReadRequests now s = Some s' \<and> hist_inv s' \<and> (\<forall>k i. reading s k i \<longrightarrow> reading s' k i)"
proof -
  obtain nxt s' where s': "read_loop now (List.map fst (hi_states s)) None s = Some (nxt, s')" "hist_inv s'"
      "\<forall>k i. reading s k i \<longrightarrow> reading s' k i"
    using read_loop_inv [OF inv] by blast
  then show ?thesis using inv by (simp add: sendReadRequests_def hist_inv_timer)
qed

lemma requestDialogEntry_states [simp]: "hi_states (requestDialogEntry h c s) = hi_states s"
  by (simp add: requestDialogEntry_def postponeRequestDialogEntries_def Let_def split: option.split)

lemma upd_inbox_states [simp]: "hi_states (upd_inbox h f s) = hi_states s"
  by (simp add: upd_inbox_def)

lemma reading_states: "hi_states s = hi_states s' \<Longrightarrow> reading s = reading s'"
  by (simp add: reading_def lookup_def fun_eq_iff)

lemma read_then_finish:
  assumes "hist_inv s" "reading s h i"
  shows "\<exists>s'. Option.bind (sendReadRequests now s) (checkPostponed h i) = Some s' \<and> hist_inv s'"
  using sendReadRequests_inv [OF assms(1), of now] assms(2) checkPostponed_inv reading_finishable by fastforce

lemma readFinished_inv:
  assumes inv: "hist_inv s" and l: "lookup s h = Some st" and sr: "map_of (hs_sent st) i = Some sr"
    and gen: "sr_generator sr = ReadRequest tillId"
  shows "\<exists>s'. readFinished now h i tillId s = Some s' \<and> hist_inv s'"
proof -
  note inv_st = hist_invD(9) [OF inv l]
  note t = state_invD(10) [OF inv_st sr gen]
  have r: "reading s h i" using l sr t by (auto simp: reading_def)
  note son = state_or_new_lookup [OF l, symmetric]
  show ?thesis
  proof (cases "hs_sentReadTill st = tillId")
    case False
    then show ?thesis using t read_then_finish [OF inv r, of now] by (auto simp: readFinished_def l)
  next
    case True
    let ?s1 = "if unreadCountRefreshNeeded tillId (hi_inbox s h)
      then requestDialogEntry h None (put_state h (st\<lparr>hs_sentReadDone := True\<rparr>) s)
      else put_state h (st\<lparr>hs_sentReadDone := True, hs_sentReadTill := 0\<rparr>) s"
    have "hist_inv ?s1 \<and> reading ?s1 h i"
    proof (cases "unreadCountRefreshNeeded tillId (hi_inbox s h)")
      case True
      have st: "hist_inv (put_state h (st\<lparr>hs_sentReadDone := True\<rparr>) s)"
        "reading (put_state h (st\<lparr>hs_sentReadDone := True\<rparr>) s) h i"
        by (rule put_read_state [OF inv son]; use state_invD(8-10) [OF inv_st] r in simp)+
      moreover have "reading (requestDialogEntry h None (put_state h (st\<lparr>hs_sentReadDone := True\<rparr>) s))
          = reading (put_state h (st\<lparr>hs_sentReadDone := True\<rparr>) s)"
        by (rule reading_states) simp
      ultimately show ?thesis using True requestDialogEntry_inv [OF st(1)] by simp
    next
      case False
      then obtain x where x: "in_readBefore (hi_inbox s h) = Some x" "tillId < x"
        using t by (auto simp: unreadCountRefreshNeeded_def split: option.splits)
      have "hist_inv (put_state h (st\<lparr>hs_sentReadDone := True, hs_sentReadTill := 0\<rparr>) s)
          \<and> reading (put_state h (st\<lparr>hs_sentReadDone := True, hs_sentReadTill := 0\<rparr>) s) h i"
        by (intro conjI; rule put_read_state [OF inv son]; use state_invD(8-10) [OF inv_st] r x \<open>hs_sentReadTill st = tillId\<close> in fastforce)
      then show ?thesis using False by simp
    qed
    then show ?thesis using read_then_finish [of ?s1 h i now] True by (simp add: readFinished_def l)
  qed
qed

lemma net_cancel_inv:
  assumes inv: "hist_inv s" shows "hist_inv (net_cancel n s)" (is "hist_inv ?s")
proof -
  note v = hist_invD [OF inv]
  have l: "lookup ?s = lookup s" by (simp add: lookup_def net_cancel_def fun_eq_iff)
  show ?thesis
  proof (rule hist_invI)
    fix m k j g assume "map_of (hi_net ?s) m = Some (k, j, g)"
    then have "map_of (hi_net s) m = Some (k, j, g)" by (simp add: net_cancel_def map_of_flat_erase split: if_splits)
    from v(10) [OF this] show "\<exists>st sr. lookup ?s k = Some st \<and> map_of (hs_sent st) j = Some sr \<and> sr_id sr = m \<and> sr_generator sr = g"
      by (simp add: l)
  next
    fix m x assume "map_of (hi_net ?s) m = Some x"
    then show "m < hi_netNext ?s" using v(7) [of m x] by (simp add: net_cancel_def map_of_flat_erase split: if_splits)
  next
    fix k st assume "lookup ?s k = Some st"
    then show "state_inv (map_of (hi_historyByRequest ?s)) (hi_requestAutoincrement ?s) (map_of (hi_dialogRequests ?s)) (hi_inbox ?s k) k st"
      using v(9) by (simp add: l) (simp add: net_cancel_def)
  qed (use v in \<open>simp_all add: net_cancel_def\<close>)
qed

lemma answered_inv:
  assumes inv: "hist_inv s" shows "\<exists>s'. answered now n s = Some s' \<and> hist_inv s'"
proof (cases "map_of (hi_net s) n")
  case (Some e)
  note v = hist_invD [OF inv]
  obtain h i gen where e: "e = (h, i, gen)" by (metis prod_cases3)
  let ?s = "net_cancel n s"
  have l: "lookup ?s = lookup s" by (simp add: lookup_def net_cancel_def fun_eq_iff)
  obtain st sr where st: "lookup s h = Some st" "map_of (hs_sent st) i = Some sr" "sr_id sr = n" "sr_generator sr = gen"
    using v(10) Some e by blast
  have s: "hist_inv ?s" by (rule net_cancel_inv [OF inv])
  show ?thesis
  proof (cases gen)
    case (Request f lab)
    have "finishable ?s h i"
      using st state_invD(4) [OF v(9) [OF st(1)] st(2)] by (simp add: finishable_def state_or_new_def l) (simp add: net_cancel_def)
    then show ?thesis using checkPostponed_inv [OF s] Some e Request s by (simp add: answered_def Let_def)
  next
    case (ReadRequest t)
    have "lookup ?s h = Some st" using st by (simp add: l)
    from readFinished_inv [OF s this st(2)] ReadRequest st(4) show ?thesis using Some e by (simp add: answered_def Let_def)
  qed
qed (simp add: answered_def inv)

lemma put_when_inv:
  assumes "hist_inv s" "lookup s h = Some st"
  shows "hist_inv (put_state h (st\<lparr>hs_willReadWhen := w\<rparr>) s)"
  by (rule put_read_state [OF assms(1) state_or_new_lookup [OF assms(2), symmetric]])
    (use state_invD(8-10) [OF hist_invD(9) [OF assms]] in simp_all)

lemma sendPendingReadInbox_inv:
  assumes inv: "hist_inv s" shows "\<exists>s'. sendPendingReadInbox now h s = Some s' \<and> hist_inv s'"
proof (cases "lookup s h")
  case (Some st)
  from sendReadRequests_inv [OF put_when_inv [OF inv Some], of now 0]
  show ?thesis using inv Some by (auto simp: sendPendingReadInbox_def)
qed (simp add: sendPendingReadInbox_def inv)

lemma put_will_inv:
  assumes inv: "hist_inv s" and st: "st = state_or_new s h" and till: "0 < tillId"
    and new: "hs_sentReadTill st < tillId" "hs_willReadTill st < tillId"
    and needs: "readInboxTillNeedsRequest tillId (hi_inbox s h) \<or> hs_willReadTill st \<noteq> 0"
  shows "hist_inv (put_state h (st\<lparr>hs_willReadTill := tillId, hs_willReadWhen := w\<rparr>) s)"
proof (rule put_read_state(1) [OF inv st])
  note i = state_or_new_inv [OF inv, of h, folded st]
  fix j sr t assume j: "map_of (hs_sent st) j = Some sr" "sr_generator sr = ReadRequest t"
  note r = state_invD(10) [OF i j]
  have "t < tillId"
  proof (cases "hs_willReadTill st = 0")
    case True
    show ?thesis
    proof (cases "t \<le> hs_sentReadTill st")
      case False
      then obtain x where "in_readBefore (hi_inbox s h) = Some x" "t < x" using r by auto
      then show ?thesis using needs True by (simp add: readInboxTillNeedsRequest_def)
    qed (use new in simp)
  qed (use r new in auto)
  then show "(hs_willReadTill (st\<lparr>hs_willReadTill := tillId, hs_willReadWhen := w\<rparr>) = 0
        \<or> t < hs_willReadTill (st\<lparr>hs_willReadTill := tillId, hs_willReadWhen := w\<rparr>))
      \<and> (t \<le> hs_sentReadTill (st\<lparr>hs_willReadTill := tillId, hs_willReadWhen := w\<rparr>)
        \<or> hs_sentReadTill (st\<lparr>hs_willReadTill := tillId, hs_willReadWhen := w\<rparr>) = 0
          \<and> (\<exists>x. in_readBefore (hi_inbox s h) = Some x \<and> t < x))"
    using r by simp
qed (use state_invD(8) [OF state_or_new_inv [OF inv, of h, folded st]] new in simp_all)

lemma marked_inv:
  assumes "hist_inv s"
  shows "hist_inv (upd_inbox h (setInboxReadTill t) s)" "hist_inv (upd_inbox h (setUnreadCount a n) s)"
    "hist_inv (upd_inbox h (setUnreadCount a n \<circ> setInboxReadTill t) s)"
proof -
  have till: "\<exists>y. in_readBefore (setInboxReadTill u b) = Some y \<and> x \<le> y" if "in_readBefore b = Some x" for u b x
    using that by (simp add: setInboxReadTill_def)
  have count: "\<exists>y. in_readBefore (setUnreadCount a n b) = Some y \<and> x \<le> y" if "in_readBefore b = Some x" for n b x
    using that till [of "b\<lparr>in_unreadCount := Some n\<rparr>" x] by (auto simp: setUnreadCount_def Let_def split: option.split)
  show "hist_inv (upd_inbox h (setInboxReadTill t) s)" "hist_inv (upd_inbox h (setUnreadCount a n) s)"
    by (rule upd_inbox_inv [OF assms]; simp add: till count)+
  show "hist_inv (upd_inbox h (setUnreadCount a n \<circ> setInboxReadTill t) s)"
  proof (rule upd_inbox_inv [OF assms])
    fix x assume "in_readBefore (hi_inbox s h) = Some x"
    then obtain y where "in_readBefore (setInboxReadTill t (hi_inbox s h)) = Some y" "x \<le> y" using till by blast
    then show "\<exists>z. in_readBefore ((setUnreadCount a n \<circ> setInboxReadTill t) (hi_inbox s h)) = Some z \<and> x \<le> z"
      using count [of "setInboxReadTill t (hi_inbox s h)" y n] by force
  qed
qed

lemma readInboxTill_scope_inv:
  fixes s :: "('h::linorder, 'c) histories"
  assumes inv: "hist_inv s" and t: "IsServerMsgId tillId \<or> tillId = 0 \<and> \<not> force"
  shows "\<exists>s'. readInboxTill_scope a now h tillId force s = Some s' \<and> hist_inv s'"
proof -
  let ?b = "hi_inbox s h" and ?st = "state_or_new s h"
  let ?needs = "readInboxTillNeedsRequest tillId ?b"
  have i: "0 \<le> hs_sentReadTill ?st" "hs_willReadTill ?st = 0 \<or> hs_willReadTill ?st > hs_sentReadTill ?st"
    using state_invD(8,9) [OF state_or_new_inv [OF inv, of h]] by auto
  have sentR: "(case lookup s h of Some st \<Rightarrow> hs_sentReadTill st \<ge> tillId | None \<Rightarrow> False)
      \<longleftrightarrow> lookup s h \<noteq> None \<and> hs_sentReadTill ?st \<ge> tillId"
    and willR: "(case lookup s h of Some st \<Rightarrow> hs_willReadTill st \<ge> tillId | None \<Rightarrow> False)
      \<longleftrightarrow> lookup s h \<noteq> None \<and> hs_willReadTill ?st \<ge> tillId"
    and willZ: "(case lookup s h of Some st \<Rightarrow> hs_willReadTill st = 0 | None \<Rightarrow> True) \<longleftrightarrow> hs_willReadTill ?st = 0"
    by (simp_all add: state_or_new_def new_state_def split: option.split)
  define marked :: "('h, 'c) histories \<Rightarrow> ('h, 'c) histories" where "marked = (\<lambda>s. case ra_stillUnread a of None \<Rightarrow> s
      | Some n \<Rightarrow> upd_inbox h (setUnreadCount a n \<circ> setInboxReadTill tillId) s)"
  have m: "hist_inv (marked s')" if "hist_inv s'" for s'
    by (simp add: marked_def marked_inv(3) [OF that, of h a] that split: option.split)
  have md: "(case ra_stillUnread a of None \<Rightarrow> s' | Some n \<Rightarrow> upd_inbox h (setUnreadCount a n \<circ> setInboxReadTill tillId) s')
      = marked s'" for s' by (simp add: marked_def)
  note scope = readInboxTill_scope_def [of a now h tillId force s, unfolded Let_def sentR willR willZ md]
  define ok :: "('h, 'c) histories option \<Rightarrow> bool" where "ok r \<longleftrightarrow> (\<exists>s'. r = Some s' \<and> hist_inv s')" for r
  have if_ok: "(c \<Longrightarrow> ok x) \<Longrightarrow> (\<not> c \<Longrightarrow> ok y) \<Longrightarrow> ok (if c then x else y)" for c x y by simp
  have some_ok: "hist_inv s' \<Longrightarrow> ok (Some s')" for s' by (simp add: ok_def)
  have pending: "ok (sendPendingReadInbox now h s)" using sendPendingReadInbox_inv [OF inv, of now h] by (simp add: ok_def)
  have put: "hist_inv (put_state h (?st\<lparr>hs_willReadTill := tillId, hs_willReadWhen := w\<rparr>) s)"
    if go: "\<not> (\<not> ?needs \<and> \<not> force)" "\<not> (lookup s h \<noteq> None \<and> hs_sentReadTill ?st \<ge> tillId)"
      "\<not> (lookup s h \<noteq> None \<and> hs_willReadTill ?st \<ge> tillId)" "\<not> (\<not> ?needs \<and> hs_willReadTill ?st = 0)" for w
  proof -
    have pos: "0 < tillId"
    proof (rule ccontr)
      assume "\<not> 0 < tillId"
      then have "\<not> IsServerMsgId tillId" by (simp add: IsServerMsgId_def)
      then show False using t go by (auto simp: readInboxTillNeedsRequest_def)
    qed
    have new: "hs_sentReadTill ?st < tillId" "hs_willReadTill ?st < tillId"
      using go(2,3) pos by (cases "lookup s h"; simp add: state_or_new_def new_state_def)+
    show ?thesis by (rule put_will_inv [OF inv refl pos new]) (use go(4) in blast)
  qed
  have "ok (readInboxTill_scope a now h tillId force s)"
    unfolding scope
  proof (intro if_ok some_ok inv pending marked_inv, goal_cases)
    case 1
    then obtain s1 where "sendReadRequests now (put_state h (?st\<lparr>hs_willReadTill := tillId, hs_willReadWhen := 0\<rparr>) s) = Some s1" "hist_inv s1"
      using sendReadRequests_inv [OF put [of 0], of now] by blast
    then show ?case by (simp add: some_ok m)
  next
    case 2
    then show ?case by (intro m hist_inv_timer put)
  next
    case 3
    then show ?case using put [of "hs_willReadWhen ?st"] by (intro m) simp
  qed
  then show ?thesis by (simp add: ok_def)
qed

lemma syncGuard_inv: "hist_inv s \<Longrightarrow> hist_inv (syncGuard a h t s)"
  by (simp add: syncGuard_def marked_inv)

lemma readInboxTill_inv:
  assumes "hist_inv s" "IsServerMsgId tillId \<or> tillId = 0 \<and> \<not> force"
  shows "\<exists>s'. readInboxTill a now h tillId force s = Some s' \<and> hist_inv s'"
  using readInboxTill_scope_inv [OF assms, of a now h] assms(2) syncGuard_inv by (auto simp: readInboxTill_def)

section \<open>Every run keeps the invariant\<close>

lemma histories_action_inv:
  assumes "histories_action s r" "hist_inv s"
  shows "\<exists>s'. r = Some s' \<and> hist_inv s'"
  using assms
proof (cases rule: histories_action.cases)
  case (send type h f l)
  have "hist_inv (snd (sendRequest h type (Request f l) s))" by (rule sendRequest_inv [OF assms(2)]) auto
  then show ?thesis using send by simp
next
  case (postponed_call m)
  have "hist_inv (s\<lparr>hi_postponedCalls := m\<rparr>)"
    by (rule hist_inv_dialogs [OF assms(2)]) (use hist_invD(4-6) [OF assms(2)] in auto)
  then show ?thesis using postponed_call sendDialogRequests_inv by simp
next
  case (dialogs ds hs ds')
  have "hist_inv (s\<lparr>hi_dialogsSent := ds @ ds'\<rparr>)"
    by (rule hist_inv_dialogs [OF assms(2)]) (use hist_invD(4-6) [OF assms(2)] in auto)
  then show ?thesis using dialogs finalize_dialogs_inv by simp
next
  case (timer d now)
  then show ?thesis using sendReadRequests_inv [OF hist_inv_timer [OF assms(2)], of now None] by auto
next
  case (inbox_grows h b)
  then show ?thesis using upd_inbox_inv [OF assms(2), of h "\<lambda>_. b"] by simp
next
  case (read t force a now h)
  then show ?thesis using readInboxTill_inv [OF assms(2)] by simp
qed (use assms(2) answered_inv requestDialogEntry_inv dialogEntryApplied_inv sendPendingReadInbox_inv in simp_all)

lemma histories_step_inv: "histories_step s r \<Longrightarrow> hist_inv s \<Longrightarrow> \<exists>s'. r = Some s' \<and> hist_inv s'"
  by (cases rule: histories_step.cases) (auto dest: histories_action_inv intro: cancelRequest_inv)

lemma histories_reach_inv: "histories_reach s \<Longrightarrow> hist_inv s"
proof (induction rule: histories_reach.induct)
  case (start b)
  show ?case by (simp add: hist_inv_def lookup_def)
next
  case (step s s')
  then show ?case using histories_step_inv [OF step.hyps(2)] by auto
qed

section \<open>Finishing deletions\<close>

lemma finishSentRequest_effect:
  fixes s :: "('h::linorder, 'c) histories"
  assumes inv: "hist_inv s" and l: "lookup s h = Some st" and sr: "map_of (hs_sent st) i = Some sr"
    and fin: "finishSentRequest h i s = Some s'"
  shows "\<exists>j sr'. j \<noteq> i \<and> map_of (hs_sent st) j = Some sr' \<and> sr_type sr' = RequestDelete \<Longrightarrow>
      \<exists>st'. lookup s' h = Some st' \<and> hs_postponed st' = hs_postponed st
        \<and> map_of (hs_sent st') = (map_of (hs_sent st))(i := None)
        \<and> map_of (hi_net s') = (map_of (hi_net s))(sr_id sr := None)"
    "\<not> (\<exists>j sr'. j \<noteq> i \<and> map_of (hs_sent st) j = Some sr' \<and> sr_type sr' = RequestDelete) \<Longrightarrow>
      map_of (hs_postponed st) j = Some g \<Longrightarrow> \<exists>n. map_of (hi_net s') n = Some (h, j, g)"
proof -
  note v = hist_invD [OF inv] and sv = hist_invD(9) [OF inv l]
  let ?s = "s\<lparr>hi_historyByRequest := flat_erase i (hi_historyByRequest s)\<rparr>"
  let ?st1 = "st\<lparr>hs_sent := flat_erase i (hs_sent st)\<rparr>" and ?s1 = "net_cancel (sr_id sr) ?s"
  have son: "state_or_new s h = st" using l by (simp add: state_or_new_def)
  have e: "erase_sent i (st, ?s) = (?st1, ?s1)" using sr by (simp add: erase_sent_def)
  have net1: "net_of s h (?st1, ?s1)" using erase_sent_net [OF inv, of ?s h i] by (simp add: son e)
  have ks1: "keys_sorted (hs_sent ?st1)" "keys_sorted (hs_postponed ?st1)" using state_invD(1,2) [OF sv] by simp_all
  have sent1: "map_of (hs_sent ?st1) = (map_of (hs_sent st))(i := None)" by (simp add: map_of_flat_erase)
  have dis: "\<forall>j. map_of (hs_postponed ?st1) j \<noteq> None \<longrightarrow> map_of (hs_sent ?st1) j = None"
    using state_invD(3) [OF sv] by (auto simp: map_of_flat_erase)
  have more: "postponeHistoryRequest ?st1
      \<longleftrightarrow> (\<exists>j sr'. j \<noteq> i \<and> map_of (hs_sent st) j = Some sr' \<and> sr_type sr' = RequestDelete)"
    unfolding postponeHistory_iff [OF ks1(1)] sent1 by (auto split: if_splits)
  obtain st2 s2 where r: "resume_postponed h (?st1, ?s1) = (st2, s2)" by fastforce
  note p = resume_postponed_spec [OF net1 ks1 dis r]
  have "hi_states s2 = hi_states s"
    using resume_postponed_same(4) [where h = h and p = "(?st1, ?s1)", unfolded r snd_conv]
    by (simp add: net_cancel_def)
  have result: "\<exists>e D P f. s' = checkEmptyState h (f (put_state h (st2\<lparr>hs_postponedRequestEntry := e\<rparr>)
      (s2\<lparr>hi_dialogRequests := D, hi_dialogRequestsPending := P\<rparr>))) \<and> (f = id \<or> f = postponeRequestDialogEntries)"
  proof (cases "hs_postponedRequestEntry st2 \<and> \<not> postponeEntryRequest st2")
    case True
    then obtain cs where "s' = checkEmptyState h (postponeRequestDialogEntries (put_state h (st2\<lparr>hs_postponedRequestEntry := False\<rparr>)
        (s2\<lparr>hi_dialogRequestsPending := flat_emplace h cs (hi_dialogRequestsPending s2),
             hi_dialogRequests := flat_erase h (hi_dialogRequests s2)\<rparr>)))"
      using fin by (auto simp: finishSentRequest_def son e r split: option.splits if_splits)
    moreover have "s2\<lparr>hi_dialogRequestsPending := P, hi_dialogRequests := D\<rparr> = s2\<lparr>hi_dialogRequests := D, hi_dialogRequestsPending := P\<rparr>" for D P
      by (cases s2) simp
    ultimately show ?thesis by metis
  next
    case False
    have eq: "put_state h st2 s2 = put_state h (st2\<lparr>hs_postponedRequestEntry := hs_postponedRequestEntry st2\<rparr>)
        (s2\<lparr>hi_dialogRequests := hi_dialogRequests s2, hi_dialogRequestsPending := hi_dialogRequestsPending s2\<rparr>)"
      by simp
    from False fin have "s' = checkEmptyState h (id (put_state h st2 s2))" unfolding finishSentRequest_def Let_def son e r prod.case if_not_P [OF False] by simp
    then show ?thesis by (subst (asm) eq) blast
  qed
  then obtain e D P f where s': "s' = checkEmptyState h (f (put_state h (st2\<lparr>hs_postponedRequestEntry := e\<rparr>)
      (s2\<lparr>hi_dialogRequests := D, hi_dialogRequestsPending := P\<rparr>)))" and f: "f = id \<or> f = postponeRequestDialogEntries"
    by blast
  let ?s3 = "f (put_state h (st2\<lparr>hs_postponedRequestEntry := e\<rparr>) (s2\<lparr>hi_dialogRequests := D, hi_dialogRequestsPending := P\<rparr>))"
  have s3: "lookup ?s3 = (lookup s)(h \<mapsto> st2\<lparr>hs_postponedRequestEntry := e\<rparr>)" "hi_net ?s3 = hi_net s2"
  proof -
    have "lookup (put_state h (st2\<lparr>hs_postponedRequestEntry := e\<rparr>) (s2\<lparr>hi_dialogRequests := D, hi_dialogRequestsPending := P\<rparr>))
        = (lookup s2)(h \<mapsto> st2\<lparr>hs_postponedRequestEntry := e\<rparr>)"
      using v(1) \<open>hi_states s2 = _\<close> by (simp add: put_state_frame lookup_frame)
    moreover have "lookup s2 = lookup s" using \<open>hi_states s2 = _\<close> by (simp add: lookup_def fun_eq_iff)
    moreover have "lookup (postponeRequestDialogEntries t) = lookup t" "hi_net (postponeRequestDialogEntries t) = hi_net t" for t :: "('h, 'c) histories"
      by (simp_all add: postponeRequestDialogEntries_def lookup_def fun_eq_iff)
    ultimately show "lookup ?s3 = (lookup s)(h \<mapsto> st2\<lparr>hs_postponedRequestEntry := e\<rparr>)" "hi_net ?s3 = hi_net s2"
      using f by auto
  qed
  have net': "hi_net s' = hi_net s2" unfolding s' using s3(2) by (simp add: checkEmptyState_def split: option.split)
  show "\<exists>st'. lookup s' h = Some st' \<and> hs_postponed st' = hs_postponed st
        \<and> map_of (hs_sent st') = (map_of (hs_sent st))(i := None)
        \<and> map_of (hi_net s') = (map_of (hi_net s))(sr_id sr := None)"
    if other: "\<exists>j sr'. j \<noteq> i \<and> map_of (hs_sent st) j = Some sr' \<and> sr_type sr' = RequestDelete"
  proof -
    have st2: "st2 = ?st1" by (rule p(8)) (use more other in blast)
    moreover have del: "postponeHistoryRequest ?st1" using more other by blast
    then have "resume_postponed h (?st1, ?s1) = (?st1, ?s1)" by (simp add: resume_postponed_def)
    then have "s2 = ?s1" using r by simp
    moreover have "hs_sent st2 \<noteq> []" using del unfolding st2 by (auto simp: postponeHistoryRequest_def)
    then have "s' = ?s3" unfolding s' by (simp add: checkEmptyState_def s3(1))
    ultimately show ?thesis using s3 by (simp add: map_of_flat_erase net_cancel_def)
  qed
  show "\<exists>n. map_of (hi_net s') n = Some (h, j, g)"
    if "\<not> (\<exists>j sr'. j \<noteq> i \<and> map_of (hs_sent st) j = Some sr' \<and> sr_type sr' = RequestDelete)" "map_of (hs_postponed st) j = Some g"
    using p(10) [of j g] more that net' by auto
qed

text \<open>Answers to several requests, one after the other.\<close>

primrec answers :: "int \<Rightarrow> int list \<Rightarrow> ('h::linorder, 'c) histories \<Rightarrow> ('h, 'c) histories option" where
  "answers now [] s = Some s"
| "answers now (n # ns) s = Option.bind (answered now n s) (answers now ns)"

definition deletions :: "hstate \<Rightarrow> (int \<times> int) set" where
  "deletions st = {(i, sr_id sr) | i sr. map_of (hs_sent st) i = Some sr \<and> sr_type sr = RequestDelete}"

lemma answers_resume:
  assumes "hist_inv s" "lookup s h = Some st" "distinct ns" "snd ` deletions st = set ns"
    and "\<forall>(i, n) \<in> deletions st. \<exists>l. map_of (hi_net s) n = Some (h, i, Request True l)"
  shows "\<exists>s'. answers now ns s = Some s' \<and> (\<forall>j g. map_of (hs_postponed st) j = Some g \<longrightarrow>
    (\<exists>n. map_of (hi_net s') n = Some (h, j, g)))"
  using assms
proof (induction ns arbitrary: s st)
  case Nil
  note sv = hist_invD(9) [OF Nil.prems(1,2)]
  have "\<not> postponeHistoryRequest st"
    using Nil.prems(4) unfolding postponeHistory_iff [OF state_invD(2) [OF sv]] by (auto simp: deletions_def)
  then have "hs_postponed st = []" using state_invD(5) [OF sv] by blast
  then show ?case by simp
next
  case (Cons n ns)
  note v = hist_invD [OF Cons.prems(1)] and sv = hist_invD(9) [OF Cons.prems(1,2)]
  have "n \<in> snd ` deletions st" using Cons.prems(4) by simp
  then obtain i where "(i, n) \<in> deletions st" by force
  then obtain sr where sr: "map_of (hs_sent st) i = Some sr" "sr_type sr = RequestDelete" "n = sr_id sr"
    by (auto simp: deletions_def)
  obtain l where net: "map_of (hi_net s) n = Some (h, i, Request True l)"
    using Cons.prems(5) \<open>(i, n) \<in> deletions st\<close> by blast
  let ?s = "net_cancel n s"
  have s: "hist_inv ?s" by (rule net_cancel_inv [OF Cons.prems(1)])
  have l: "lookup ?s = lookup s" by (simp add: lookup_def net_cancel_def fun_eq_iff)
  then have l': "lookup ?s h = Some st" using Cons.prems(2) by simp
  have "finishable ?s h i"
    using Cons.prems(2) state_invD(4) [OF sv sr(1)] by (simp add: finishable_def state_or_new_def l) (simp add: net_cancel_def)
  then obtain s' where s': "finishSentRequest h i ?s = Some s'" "hist_inv s'" using finishSentRequest_inv [OF s] by blast
  have step: "answered now n s = Some s'" using net l' s' by (simp add: answered_def checkPostponed_def)
  note effect = finishSentRequest_effect [OF s l' sr(1) s'(1)]
  have only: "j = i" if "(j, n) \<in> deletions st" for j using Cons.prems(5) that net by force
  show ?case
  proof (cases "\<exists>j sr'. j \<noteq> i \<and> map_of (hs_sent st) j = Some sr' \<and> sr_type sr' = RequestDelete")
    case True
    from effect(1) [OF True] obtain st' where st': "lookup s' h = Some st'" "hs_postponed st' = hs_postponed st"
      "map_of (hs_sent st') = (map_of (hs_sent st))(i := None)" "map_of (hi_net s') = (map_of (hi_net ?s))(sr_id sr := None)"
      by blast
    have dels: "deletions st' = deletions st - {(i, n)}"
    proof -
      have "p \<in> deletions st' \<longleftrightarrow> p \<in> deletions st \<and> fst p \<noteq> i" for p
        by (auto simp: deletions_def st'(3) split: if_splits)
      moreover have "p = (i, n)" if "p \<in> deletions st" "fst p = i" for p using that sr by (auto simp: deletions_def)
      moreover have "fst (i, n) = i" by simp
      ultimately show ?thesis by (intro set_eqI) (metis Diff_iff singleton_iff)
    qed
    have net': "map_of (hi_net s') = (map_of (hi_net s))(n := None)"
      using sr(3) by (auto simp: st'(4) net_cancel_def map_of_flat_erase)
    have other: "m \<noteq> n" if "(j, m) \<in> deletions st'" for j m using that only dels by blast
    have "snd ` deletions st' = set (n # ns) - {n}" unfolding Cons.prems(4) [symmetric] dels using only by force
    then have "snd ` deletions st' = set ns" using Cons.prems(3) by simp
    moreover have "\<forall>(j, m) \<in> deletions st'. \<exists>l. map_of (hi_net s') m = Some (h, j, Request True l)"
      using Cons.prems(5) other unfolding net' dels by fastforce
    moreover have "distinct ns" using Cons.prems(3) by simp
    ultimately show ?thesis using Cons.IH [OF s'(2) st'(1)] step st'(2) by simp
  next
    case False
    have "p = (i, n)" if del: "p \<in> deletions st" for p
    proof -
      obtain j sr' where p: "p = (j, sr_id sr')" "map_of (hs_sent st) j = Some sr'" "sr_type sr' = RequestDelete"
        using del by (auto simp: deletions_def)
      then have "j = i" using False by blast
      then show ?thesis using p sr by simp
    qed
    then have none: "deletions st = {(i, n)}" using \<open>(i, n) \<in> deletions st\<close> by blast
    then have "ns = []" using Cons.prems(3,4) by (cases ns) auto
    then show ?thesis using effect(2) [OF False] step by simp
  qed
qed

section \<open>Properties\<close>

text \<open>C37: No run of the requests of the chats fails a check: whatever is sent, answered in whatever order,
  cancelled, read or asked for, every \<open>Expects\<close> and \<open>Assert\<close> of the ordering code holds.\<close>

theorem histories_never_fail:
  assumes "histories_reach s" "histories_step s r"
  shows "r \<noteq> None"
  using histories_step_inv [OF assms(2) histories_reach_inv [OF assms(1)]] by blast

text \<open>C38: While a deletion in a chat is under way no history request of the chat is, not even in the
  network; requests wait only then; an entry that must be asked for again was asked for and waits
  for a request that changes the chat; every request that is sent or waits can be cancelled, and
  each active request of the network is one of a chat.\<close>

theorem deletion_excludes_history:
  assumes "histories_reach s" "lookup s h = Some st"
  shows "(postponeHistoryRequest st \<longrightarrow>
        (\<forall>i sr. map_of (hs_sent st) i = Some sr \<longrightarrow> sr_type sr \<noteq> RequestHistory)
        \<and> (\<forall>n i g. map_of (hi_net s) n = Some (h, i, g) \<longrightarrow>
            (\<exists>sr. map_of (hs_sent st) i = Some sr \<and> sr_id sr = n \<and> sr_type sr \<noteq> RequestHistory)))
    \<and> (hs_postponed st \<noteq> [] \<longrightarrow> postponeHistoryRequest st)
    \<and> (hs_postponedRequestEntry st \<longrightarrow> postponeEntryRequest st \<and> map_of (hi_dialogRequests s) h \<noteq> None)
    \<and> (\<forall>i. map_of (hs_sent st) i \<noteq> None \<or> map_of (hs_postponed st) i \<noteq> None \<longrightarrow>
        map_of (hi_historyByRequest s) i = Some h)"
proof -
  note inv = histories_reach_inv [OF assms(1)]
  note sv = hist_invD(9) [OF inv assms(2)]
  have "\<exists>sr. map_of (hs_sent st) i = Some sr \<and> sr_id sr = n"
    if "map_of (hi_net s) n = Some (h, i, g)" for n i g
    using hist_invD(10) [OF inv that] assms(2) by auto
  then have net: "\<exists>sr. map_of (hs_sent st) i = Some sr \<and> sr_id sr = n \<and> sr_type sr \<noteq> RequestHistory"
    if "postponeHistoryRequest st" "map_of (hi_net s) n = Some (h, i, g)" for n i g
    using that state_invD(6) [OF sv that(1)] by blast
  moreover have "map_of (hi_historyByRequest s) i = Some h"
    if "map_of (hs_sent st) i \<noteq> None \<or> map_of (hs_postponed st) i \<noteq> None" for i
    using that state_invD(3,4) [OF sv] by auto
  ultimately show ?thesis using state_invD(5-7) [OF sv] by blast
qed

text \<open>C39: Waiting ends: once the deletions of a chat that are under way are answered, each by a handler
  that calls \<open>finish\<close> and in whatever order, every history request of the chat that waited
  is in the network.\<close>

theorem postponed_requests_sent:
  assumes "histories_reach s" "lookup s h = Some st" "distinct ns" "snd ` deletions st = set ns"
    and "\<forall>(i, n) \<in> deletions st. \<exists>l. map_of (hi_net s) n = Some (h, i, Request True l)"
  shows "\<exists>s'. answers now ns s = Some s' \<and> (\<forall>j g. map_of (hs_postponed st) j = Some g \<longrightarrow>
    (\<exists>n. map_of (hi_net s') n = Some (h, j, g)))"
  by (rule answers_resume [OF histories_reach_inv [OF assms(1)] assms(2-)])

definition example_start :: "(nat, unit) histories" where
  "example_start = \<lparr>hi_states = [], hi_historyByRequest = [], hi_requestAutoincrement = 0,
    hi_readRequestsTimer = None, hi_dialogRequests = [], hi_dialogRequestsPending = [],
    hi_postponedCalls = 0, hi_dialogsSent = [], hi_inbox = (\<lambda>_. \<lparr>in_readBefore = None, in_unreadCount = None\<rparr>),
    hi_net = [], hi_netNext = 1\<rparr>"

lemmas run_simps = example_start_def sendRequest_def state_or_new_def lookup_def put_state_def net_send_def net_cancel_def new_state_def
  resendHistoryRequests_def postponeHistoryRequest_def postponeEntryRequest_def flat_erase_def flat_assign_def Let_def

text \<open>A history request, two deletions, and another history request of chat 7.\<close>

definition example_sent :: "(nat, unit) histories" where
  "example_sent = snd (sendRequest 7 RequestHistory (Request True 9) (snd (sendRequest 7 RequestDelete (Request True 8)
    (snd (sendRequest 7 RequestDelete (Request True 6) (snd (sendRequest 7 RequestHistory (Request True 5) example_start)))))))"

lemma example_sent_eq:
  "example_sent = example_start\<lparr>hi_states := [(7, new_state\<lparr>hs_postponed := [(1, Request True 5), (4, Request True 9)],
      hs_sent := [(2, \<lparr>sr_generator = Request True 6, sr_id = 2, sr_type = RequestDelete\<rparr>),
        (3, \<lparr>sr_generator = Request True 8, sr_id = 3, sr_type = RequestDelete\<rparr>)]\<rparr>)],
      hi_historyByRequest := [(1, 7), (2, 7), (3, 7), (4, 7)], hi_requestAutoincrement := 4, hi_net := [(2, 7, 2, Request True 6), (3, 7, 3, Request True 8)], hi_netNext := 4\<rparr>"
proof -
  have e1: "snd (sendRequest 7 RequestHistory (Request True 5) example_start) = example_start\<lparr>hi_states := [(7, new_state\<lparr>hs_postponed := [],
      hs_sent := [(1, \<lparr>sr_generator = Request True 5, sr_id = 1, sr_type = RequestHistory\<rparr>)]\<rparr>)],
      hi_historyByRequest := [(1, 7)], hi_requestAutoincrement := 1, hi_net := [(1, 7, 1, Request True 5)], hi_netNext := 2\<rparr>"
    by (simp add: run_simps)
  have e2: "snd (sendRequest 7 RequestDelete (Request True 6) (example_start\<lparr>hi_states := [(7, new_state\<lparr>hs_postponed := [],
      hs_sent := [(1, \<lparr>sr_generator = Request True 5, sr_id = 1, sr_type = RequestHistory\<rparr>)]\<rparr>)],
      hi_historyByRequest := [(1, 7)], hi_requestAutoincrement := 1, hi_net := [(1, 7, 1, Request True 5)], hi_netNext := 2\<rparr>))
    = example_start\<lparr>hi_states := [(7, new_state\<lparr>hs_postponed := [(1, Request True 5)],
      hs_sent := [(2, \<lparr>sr_generator = Request True 6, sr_id = 2, sr_type = RequestDelete\<rparr>)]\<rparr>)],
      hi_historyByRequest := [(1, 7), (2, 7)], hi_requestAutoincrement := 2, hi_net := [(2, 7, 2, Request True 6)], hi_netNext := 3\<rparr>"
    by (simp add: run_simps)
  have e3: "snd (sendRequest 7 RequestDelete (Request True 8) (example_start\<lparr>hi_states := [(7, new_state\<lparr>hs_postponed := [(1, Request True 5)],
      hs_sent := [(2, \<lparr>sr_generator = Request True 6, sr_id = 2, sr_type = RequestDelete\<rparr>)]\<rparr>)],
      hi_historyByRequest := [(1, 7), (2, 7)], hi_requestAutoincrement := 2, hi_net := [(2, 7, 2, Request True 6)], hi_netNext := 3\<rparr>))
    = example_start\<lparr>hi_states := [(7, new_state\<lparr>hs_postponed := [(1, Request True 5)],
      hs_sent := [(2, \<lparr>sr_generator = Request True 6, sr_id = 2, sr_type = RequestDelete\<rparr>),
        (3, \<lparr>sr_generator = Request True 8, sr_id = 3, sr_type = RequestDelete\<rparr>)]\<rparr>)],
      hi_historyByRequest := [(1, 7), (2, 7), (3, 7)], hi_requestAutoincrement := 3, hi_net := [(2, 7, 2, Request True 6), (3, 7, 3, Request True 8)], hi_netNext := 4\<rparr>"
    by (simp add: run_simps)
  have e4: "snd (sendRequest 7 RequestHistory (Request True 9) (example_start\<lparr>hi_states := [(7, new_state\<lparr>hs_postponed := [(1, Request True 5)],
      hs_sent := [(2, \<lparr>sr_generator = Request True 6, sr_id = 2, sr_type = RequestDelete\<rparr>),
        (3, \<lparr>sr_generator = Request True 8, sr_id = 3, sr_type = RequestDelete\<rparr>)]\<rparr>)],
      hi_historyByRequest := [(1, 7), (2, 7), (3, 7)], hi_requestAutoincrement := 3, hi_net := [(2, 7, 2, Request True 6), (3, 7, 3, Request True 8)], hi_netNext := 4\<rparr>))
    = example_start\<lparr>hi_states := [(7, new_state\<lparr>hs_postponed := [(1, Request True 5), (4, Request True 9)],
      hs_sent := [(2, \<lparr>sr_generator = Request True 6, sr_id = 2, sr_type = RequestDelete\<rparr>),
        (3, \<lparr>sr_generator = Request True 8, sr_id = 3, sr_type = RequestDelete\<rparr>)]\<rparr>)],
      hi_historyByRequest := [(1, 7), (2, 7), (3, 7), (4, 7)], hi_requestAutoincrement := 4, hi_net := [(2, 7, 2, Request True 6), (3, 7, 3, Request True 8)], hi_netNext := 4\<rparr>"
    by (simp add: run_simps)
  show ?thesis unfolding example_sent_def e1 e2 e3 e4 ..
qed

lemma example_sent_reach: "histories_reach example_sent"
  unfolding example_sent_def example_start_def
  by (intro histories_reach.step [OF _ histories_step_send] histories_reach.start) simp_all

definition example_state :: hstate where
  "example_state = the (lookup example_sent 7)"

lemma example_state_lookup: "lookup example_sent 7 = Some example_state"
  by (simp add: example_state_def example_sent_eq lookup_def)

theorem histories_never_fail_witness: "answered 0 3 example_sent \<noteq> None"
  by (rule histories_never_fail [OF example_sent_reach histories_step_answer])

theorem deletion_excludes_history_witness: "map_of (hi_historyByRequest example_sent) 4 = Some 7"
  using deletion_excludes_history [OF example_sent_reach example_state_lookup]
  by (simp add: example_state_def example_sent_eq lookup_def new_state_def)

lemma example_deletions: "deletions example_state = {(2, 2), (3, 3)}"
  by (auto simp: deletions_def example_state_def example_sent_eq lookup_def split: if_splits)

theorem postponed_requests_sent_witness:
  "\<exists>s' n. answers 0 [3, 2] example_sent = Some s' \<and> map_of (hi_net s') n = Some (7, 1, Request True 5)"
proof -
  have "\<exists>s'. answers 0 [3, 2] example_sent = Some s' \<and> (\<forall>j g. map_of (hs_postponed example_state) j = Some g \<longrightarrow>
      (\<exists>n. map_of (hi_net s') n = Some (7, j, g)))"
    by (rule postponed_requests_sent [OF example_sent_reach example_state_lookup])
      (auto simp: example_deletions example_sent_eq)
  moreover have "map_of (hs_postponed example_state) 1 = Some (Request True 5)"
    by (simp add: example_state_def example_sent_eq lookup_def)
  ultimately show ?thesis by blast
qed

end
