(* ===== verification/HistoriesBlocked.thy ===== *)
theory HistoriesBlocked imports HistoriesRuns begin

text \<open>
  What a deletion that never calls \<open>finish\<close> does to its chat: a state of the requests in
  which it was answered stays as it is through every operation of \<open>Histories\<close> but its own
  cancelling.
\<close>

section \<open>A deletion that is answered and not finished\<close>

text \<open>In the state of the chat \<open>h\<close> the deletion \<open>i\<close> is sent, and the requests
  \<open>J\<close> wait.\<close>

definition kept :: "int \<Rightarrow> sent_request \<Rightarrow> (int \<rightharpoonup> generator) \<Rightarrow> hstate \<Rightarrow> bool" where
  "kept i sr J st \<longleftrightarrow> map_of (hs_sent st) i = Some sr \<and> sr_type sr = RequestDelete
    \<and> keys_sorted (hs_postponed st) \<and> J \<subseteq>\<^sub>m map_of (hs_postponed st)"

text \<open>The same for all requests; the network has the deletion no more.\<close>

definition blocked ::
  "'h::linorder \<Rightarrow> int \<Rightarrow> sent_request \<Rightarrow> (int \<rightharpoonup> generator) \<Rightarrow> ('h, 'c) histories \<Rightarrow> bool" where
  "blocked h i sr J s \<longleftrightarrow> keys_sorted (hi_states s) \<and> (\<exists>st. lookup s h = Some st \<and> kept i sr J st)
    \<and> i \<le> hi_requestAutoincrement s \<and> sr_id sr < hi_netNext s \<and> map_of (hi_net s) (sr_id sr) = None"

lemma blockedD:
  assumes "blocked h i sr J s"
  shows "keys_sorted (hi_states s)" "i \<le> hi_requestAutoincrement s" "sr_id sr < hi_netNext s" "map_of (hi_net s) (sr_id sr) = None"
    "kept i sr J (state_or_new s h)" "lookup s h = Some st \<Longrightarrow> kept i sr J st" "lookup s h \<noteq> None"
  using assms by (auto simp: blocked_def state_or_new_def)

named_theorems blocked_intros "operations that keep a deletion blocked"

text \<open>Operations on the other fields, the network and the state of one chat.\<close>

lemma blocked_same:
  assumes "blocked h i sr J s" "hi_states s' = hi_states s" "hi_net s' = hi_net s" "hi_netNext s' = hi_netNext s"
    "hi_requestAutoincrement s \<le> hi_requestAutoincrement s'"
  shows "blocked h i sr J s'"
  using assms by (auto simp: blocked_def lookup_def)

lemma blocked_net_cancel [blocked_intros]: "blocked h i sr J s \<Longrightarrow> blocked h i sr J (net_cancel n s)"
  by (auto simp: blocked_def net_cancel_def lookup_def map_of_flat_erase)

lemma blocked_fold_net_cancel [blocked_intros]: "blocked h i sr J s \<Longrightarrow> blocked h i sr J (fold net_cancel ns s)"
  by (induction ns arbitrary: s) (simp_all add: blocked_net_cancel)

lemma map_of_flat_emplace_other: "j \<noteq> k \<Longrightarrow> map_of (flat_emplace k v m) j = map_of m j"
  by (induction k v m rule: flat_emplace.induct) auto

lemma blocked_net_send [blocked_intros]: "blocked h i sr J s \<Longrightarrow> blocked h i sr J (snd (net_send k j g s))"
  by (auto simp: blocked_def net_send_def Let_def lookup_def map_of_flat_emplace_other)

lemma blocked_put [blocked_intros]:
  "blocked h i sr J s \<Longrightarrow> (k = h \<Longrightarrow> kept i sr J st) \<Longrightarrow> blocked h i sr J (put_state k st s)"
  by (auto simp: blocked_def)

lemma kept_put: "blocked h i sr J s \<Longrightarrow> lookup s k = Some st \<Longrightarrow> k = h \<Longrightarrow> kept i sr J st"
  by (simp add: blockedD(6))

lemma kept_same:
  "kept i sr J st \<Longrightarrow> hs_sent st' = hs_sent st \<Longrightarrow> hs_postponed st' = hs_postponed st \<Longrightarrow> kept i sr J st'"
  by (simp add: kept_def)

lemma kept_postpones: "kept i sr J st \<Longrightarrow> postponeHistoryRequest st"
  by (force simp: kept_def postponeHistoryRequest_def list_ex_iff dest: map_of_SomeD)

lemma kept_sent: "kept i sr J st \<Longrightarrow> j \<noteq> i \<Longrightarrow> kept i sr J (st\<lparr>hs_sent := flat_emplace j x (hs_sent st)\<rparr>)"
  by (simp add: kept_def map_of_flat_emplace_other)

lemma map_le_flat_emplace: "keys_sorted m \<Longrightarrow> J \<subseteq>\<^sub>m map_of m \<Longrightarrow> J \<subseteq>\<^sub>m map_of (flat_emplace j x m)"
  by (force simp: map_le_def map_of_flat_emplace)

lemma kept_postponed: "kept i sr J st \<Longrightarrow> kept i sr J (st\<lparr>hs_postponed := flat_emplace j g (hs_postponed st)\<rparr>)"
  by (simp add: kept_def map_le_flat_emplace)

lemma map_of_filter_kept: "map_of m i = Some x \<Longrightarrow> P x \<Longrightarrow> map_of (filter (\<lambda>(_, x). P x) m) i = Some x"
  by (induction m) (auto split: if_splits)

lemma kept_resend:
  assumes "kept i sr J st" shows "kept i sr J (resendHistoryRequests st)"
proof -
  have fold: "keys_sorted m \<Longrightarrow> J \<subseteq>\<^sub>m map_of m \<Longrightarrow> keys_sorted (fold (\<lambda>(i, sr). flat_emplace i (sr_generator sr)) xs m)
      \<and> J \<subseteq>\<^sub>m map_of (fold (\<lambda>(i, sr). flat_emplace i (sr_generator sr)) xs m)"
    for xs :: "(int \<times> sent_request) list" and m
    by (induction xs arbitrary: m) (auto simp: map_le_flat_emplace)
  have "map_of (filter (\<lambda>(_, sr). sr_type sr \<noteq> RequestHistory) (hs_sent st)) i = Some sr"
    by (rule map_of_filter_kept) (use assms in \<open>simp_all add: kept_def\<close>)
  then show ?thesis using assms fold by (simp add: kept_def resendHistoryRequests_def Let_def)
qed

lemma blocked_checkEmptyState [blocked_intros]:
  assumes "blocked h i sr J s" shows "blocked h i sr J (checkEmptyState k s)"
proof (cases "k = h")
  case True
  then have "hs_sent st \<noteq> []" if "lookup s k = Some st" for st
    using blockedD(6) [OF assms] that by (auto simp: kept_def)
  then show ?thesis using assms by (simp add: checkEmptyState_def split: option.split)
next
  case False
  then show ?thesis using assms by (auto simp: blocked_def checkEmptyState_def lookup_def map_of_flat_erase split: option.splits)
qed

lemma blocked_dialog_calls [blocked_intros]:
  "blocked h i sr J s \<Longrightarrow> blocked h i sr J (postponeRequestDialogEntries s)"
  "blocked h i sr J s \<Longrightarrow> blocked h i sr J (requestDialogEntry k c s)"
  "blocked h i sr J s \<Longrightarrow> blocked h i sr J (upd_inbox k f s)"
  by (erule blocked_same;
      simp add: postponeRequestDialogEntries_def requestDialogEntry_def upd_inbox_def Let_def split: option.split)+

section \<open>No operation ends it\<close>

lemma blocked_sendRequest [blocked_intros]:
  assumes b: "blocked h i sr J s" shows "blocked h i sr J (snd (sendRequest k type gen s))"
proof -
  let ?i = "hi_requestAutoincrement s + 1" and ?st = "state_or_new s k"
  define s1 where "s1 = s\<lparr>hi_requestAutoincrement := ?i, hi_historyByRequest := flat_emplace ?i k (hi_historyByRequest s)\<rparr>"
  have s1: "blocked h i sr J s1" by (rule blocked_same [OF b]) (simp_all add: s1_def)
  have new: "?i \<noteq> i" using blockedD(2) [OF b] by simp
  have st: "kept i sr J ?st" if "k = h" using blockedD(5) [OF b] that by simp
  show ?thesis
  proof (cases "type = RequestHistory \<and> postponeHistoryRequest ?st")
    case True
    have "blocked h i sr J (put_state k (?st\<lparr>hs_postponed := flat_emplace ?i gen (hs_postponed ?st)\<rparr>) s1)"
      by (intro blocked_put s1 kept_postponed st)
    then show ?thesis using True by (simp add: sendRequest_def s1_def Let_def)
  next
    case False
    obtain n s2 where n: "net_send k ?i gen s1 = (n, s2)" by fastforce
    have s2: "blocked h i sr J s2" using blocked_net_send [OF s1, of k ?i gen] by (simp add: n)
    define st1 where "st1 = ?st\<lparr>hs_sent := flat_emplace ?i \<lparr>sr_generator = gen, sr_id = n, sr_type = type\<rparr> (hs_sent ?st)\<rparr>"
    define st2 where "st2 = (if \<not> hs_postponedRequestEntry st1 \<and> postponeEntryRequest st1 \<and> map_of (hi_dialogRequests s2) k \<noteq> None
       then st1\<lparr>hs_postponedRequestEntry := True\<rparr> else st1)"
    have "kept i sr J st1" if "k = h" unfolding st1_def by (rule kept_sent [OF st [OF that] new])
    then have st2: "kept i sr J st2" if "k = h" using that by (auto simp: st2_def intro: kept_same)
    have "snd (sendRequest k type gen s) = (if postponeHistoryRequest st2
        then put_state k (resendHistoryRequests st2) (fold net_cancel (List.map (\<lambda>(_, sr). sr_id sr)
          (filter (\<lambda>(_, sr). sr_type sr = RequestHistory) (hs_sent st2))) s2)
        else put_state k st2 s2)"
      unfolding sendRequest_def Let_def if_not_P [OF False] s1_def [symmetric] n prod.case st1_def [symmetric]
      unfolding st2_def [symmetric] by simp
    then show ?thesis using blocked_put [OF blocked_fold_net_cancel [OF s2] kept_resend [OF st2]] blocked_put [OF s2 st2] by simp
  qed
qed

lemma blocked_send_postponed:
  "blocked h i sr J (snd p) \<Longrightarrow> blocked h i sr J (snd (send_postponed k xs p))"
proof (induction xs arbitrary: p)
  case (Cons e xs)
  show ?case unfolding send_postponed_Cons by (rule Cons.IH) (simp add: blocked_net_send Cons.prems)
qed simp

lemma blocked_finishSentRequest:
  assumes b: "blocked h i sr J s" and j: "k = h \<Longrightarrow> j \<noteq> i" and fin: "finishSentRequest k j s = Some s'"
  shows "blocked h i sr J s'"
proof -
  define s1 where "s1 = s\<lparr>hi_historyByRequest := flat_erase j (hi_historyByRequest s)\<rparr>"
  have s1: "blocked h i sr J s1" by (rule blocked_same [OF b]) (simp_all add: s1_def)
  obtain st2 s2 where e: "erase_sent j (state_or_new s k, s1) = (st2, s2)" by fastforce
  have s2: "blocked h i sr J s2" using e s1 by (auto simp: erase_sent_def blocked_net_cancel split: option.splits)
  have st2: "kept i sr J st2" if "k = h"
    using e j [OF that] blockedD(5) [OF b] that by (auto simp: erase_sent_def kept_def map_of_flat_erase split: option.splits)
  obtain st3 s3 where r: "resume_postponed k (st2, s2) = (st3, s3)" by fastforce
  have s3: "blocked h i sr J s3"
    using r s2 blocked_send_postponed [of h i sr J "(st2\<lparr>hs_postponed := []\<rparr>, s2)" k "hs_postponed st2"]
    by (auto simp: resume_postponed_def split: if_splits)
  have st3: "kept i sr J st3" if "k = h"
    using r st2 [OF that] kept_postpones [OF st2 [OF that]] by (auto simp: resume_postponed_def split: if_splits)
  have same: "blocked h i sr J (s3\<lparr>hi_dialogRequestsPending := P, hi_dialogRequests := D\<rparr>)" for P D
    by (rule blocked_same [OF s3]) simp_all
  have "finishSentRequest k j s = (if hs_postponedRequestEntry st3 \<and> \<not> postponeEntryRequest st3
        then case map_of (hi_dialogRequests s3) k of None \<Rightarrow> None
          | Some callbacks \<Rightarrow>
              if map_of (hi_dialogRequestsPending s3) k \<noteq> None then None
              else Some (checkEmptyState k (postponeRequestDialogEntries
                (put_state k (st3\<lparr>hs_postponedRequestEntry := False\<rparr>)
                  (s3\<lparr>hi_dialogRequestsPending := flat_emplace k callbacks (hi_dialogRequestsPending s3),
                      hi_dialogRequests := flat_erase k (hi_dialogRequests s3)\<rparr>))))
        else Some (checkEmptyState k (put_state k st3 s3)))"
    unfolding finishSentRequest_def Let_def s1_def [symmetric] e r prod.case ..
  then show ?thesis
    using fin st3 s3 same
    by (auto split: if_splits option.splits intro!: blocked_intros intro: kept_same)
qed

lemma blocked_checkPostponed:
  "blocked h i sr J s \<Longrightarrow> (k = h \<Longrightarrow> j \<noteq> i) \<Longrightarrow> checkPostponed k j s = Some s' \<Longrightarrow> blocked h i sr J s'"
  by (auto simp: checkPostponed_def intro: blocked_finishSentRequest split: option.splits)

lemma blocked_cancelRequest:
  assumes b: "blocked h i sr J s" and j: "j \<noteq> i" "j \<notin> dom J" and c: "cancelRequest j s = Some s'"
  shows "blocked h i sr J s'"
proof -
  define s1 where "s1 = s\<lparr>hi_historyByRequest := flat_erase j (hi_historyByRequest s)\<rparr>"
  have s1: "blocked h i sr J s1" by (rule blocked_same [OF b]) (simp_all add: s1_def)
  show ?thesis
  proof (cases "j = 0 \<or> map_of (hi_historyByRequest s) j = None")
    case True
    then have "cancelRequest j s = Some s" by (auto simp: cancelRequest_def)
    then show ?thesis using c b by simp
  next
    case False
    then obtain k where k: "map_of (hi_historyByRequest s) j = Some k" "j \<noteq> 0" by auto
    show ?thesis
    proof (cases "lookup s1 k")
      case None
      then show ?thesis using c k s1 by (simp add: cancelRequest_def s1_def Let_def)
    next
      case (Some st)
      have "kept i sr J (st\<lparr>hs_postponed := flat_erase j (hs_postponed st)\<rparr>)" if "k = h"
        using kept_put [OF s1 Some that] j(2) by (auto simp: kept_def map_of_flat_erase map_le_def)
      then have "blocked h i sr J (put_state k (st\<lparr>hs_postponed := flat_erase j (hs_postponed st)\<rparr>) s1)"
        by (rule blocked_put [OF s1])
      then show ?thesis
        using c k Some by (simp add: cancelRequest_def Let_def flip: s1_def) (rule blocked_finishSentRequest; use j(1) in simp)
    qed
  qed
qed

lemma blocked_choose_dialogs: "blocked h i sr J s \<Longrightarrow> blocked h i sr J (snd (choose_dialogs hs s))"
proof (induction hs arbitrary: s)
  case (Cons k hs)
  have "blocked h i sr J (put_state k (st\<lparr>hs_postponedRequestEntry := True\<rparr>) s)" if "lookup s k = Some st" for st
    using kept_put [OF Cons.prems that] by (intro blocked_put [OF Cons.prems]) (auto intro: kept_same)
  then show ?case using Cons by (auto simp: case_prod_beta split: option.split)
qed simp

lemma blocked_sendDialogRequests [blocked_intros]:
  assumes "blocked h i sr J s" shows "blocked h i sr J (sendDialogRequests s)"
proof (cases "hi_dialogRequestsPending s = []")
  case False
  obtain hs s1 where c: "choose_dialogs (List.map fst (hi_dialogRequestsPending s)) s = (hs, s1)" by fastforce
  have "blocked h i sr J s1" using blocked_choose_dialogs [OF assms, of "List.map fst (hi_dialogRequestsPending s)"] by (simp add: c)
  then show ?thesis using False by (simp add: sendDialogRequests_def c) (erule blocked_same; simp)
qed (simp add: sendDialogRequests_def assms)

lemma blocked_dialogEntryApplied [blocked_intros]:
  assumes b: "blocked h i sr J s" shows "blocked h i sr J (fst (dialogEntryApplied k s))"
proof -
  define s1 where "s1 = s\<lparr>hi_dialogRequestsPending := flat_erase k (hi_dialogRequestsPending s),
      hi_dialogRequests := flat_erase k (hi_dialogRequests s)\<rparr>"
  have s1: "blocked h i sr J s1" by (rule blocked_same [OF b]) (simp_all add: s1_def)
  have "kept i sr J (st\<lparr>hs_sentReadTill := 0\<rparr>)" if "lookup s k = Some st" "k = h" for st
    using kept_put [OF b that] by (auto intro: kept_same)
  then have "blocked h i sr J (checkEmptyState k (upd_inbox k f (put_state k (st\<lparr>hs_sentReadTill := 0\<rparr>) s1)))"
    if "lookup s k = Some st" for st f
    using that by (intro blocked_intros s1) auto
  then show ?thesis using b s1
    by (auto simp: dialogEntryApplied_def Let_def s1_def [symmetric] split: option.split)
qed

lemma blocked_finalize_dialogs: "blocked h i sr J s \<Longrightarrow> blocked h i sr J (fst (finalize_dialogs hs s))"
proof (induction hs arbitrary: s)
  case (Cons k hs)
  have "blocked h i sr J (if (case lookup s k of Some st \<Rightarrow> hs_postponedRequestEntry st | None \<Rightarrow> False)
      then s else fst (dialogEntryApplied k s))"
    using Cons.prems blocked_dialogEntryApplied [OF Cons.prems] by simp
  moreover have "fst (finalize_dialogs (k # hs) s) = fst (finalize_dialogs hs
      (if (case lookup s k of Some st \<Rightarrow> hs_postponedRequestEntry st | None \<Rightarrow> False) then s else fst (dialogEntryApplied k s)))"
    by (simp add: case_prod_beta)
  ultimately show ?case using Cons.IH by (simp only:)
qed simp

lemma blocked_read_loop:
  "blocked h i sr J s \<Longrightarrow> read_loop now hs nxt s = Some (nxt', s') \<Longrightarrow> blocked h i sr J s'"
proof (induction hs arbitrary: nxt s)
  case (Cons k hs)
  let ?st = "state_or_new s k"
  have "blocked h i sr J s1" if "sendReadRequest k s = Some s1" for s1
  proof -
    have "kept i sr J (?st\<lparr>hs_sentReadTill := hs_willReadTill ?st, hs_willReadTill := 0, hs_willReadWhen := 0,
        hs_sentReadDone := False\<rparr>)" if "k = h"
      using blockedD(5) [OF Cons.prems(1)] that by (auto intro: kept_same)
    then show ?thesis using that Cons.prems(1)
      by (auto simp: sendReadRequest_def Let_def split: if_splits intro!: blocked_sendRequest blocked_put)
  qed
  then show ?case using Cons by (auto simp: Let_def split: if_splits option.splits)
qed simp

lemma blocked_sendReadRequests:
  assumes b: "blocked h i sr J s" and r: "sendReadRequests now s = Some s'" shows "blocked h i sr J s'"
proof (cases "hi_states s = []")
  case False
  then obtain nxt s1 where s1: "read_loop now (List.map fst (hi_states s)) None s = Some (nxt, s1)"
      "s' = s1\<lparr>hi_readRequestsTimer := map_option (\<lambda>w. w - now) nxt\<rparr>"
    using r by (auto simp: sendReadRequests_def split: option.splits)
  show ?thesis unfolding s1(2) by (rule blocked_same [OF blocked_read_loop [OF b s1(1)]]) simp_all
qed (use b r in \<open>simp add: sendReadRequests_def\<close>)

lemma blocked_sendPendingReadInbox:
  assumes b: "blocked h i sr J s" and r: "sendPendingReadInbox now k s = Some s'"
  shows "blocked h i sr J s'"
proof -
  have "blocked h i sr J (put_state k (st\<lparr>hs_willReadWhen := 0\<rparr>) s)" if "lookup s k = Some st" for st
    using kept_put [OF b that] by (intro blocked_put [OF b]) (auto intro: kept_same)
  then show ?thesis using b r
    by (auto simp: sendPendingReadInbox_def split: option.splits if_splits dest: blocked_sendReadRequests)
qed

lemma blocked_readFinished:
  assumes b: "blocked h i sr J s" and j: "k = h \<Longrightarrow> j \<noteq> i" and r: "readFinished now k j t s = Some s'"
  shows "blocked h i sr J s'"
proof -
  obtain st where st: "lookup s k = Some st" using r by (auto simp: readFinished_def split: option.splits)
  have "blocked h i sr J (put_state k (st\<lparr>hs_sentReadDone := True\<rparr>) s)"
    "blocked h i sr J (put_state k (st\<lparr>hs_sentReadDone := True, hs_sentReadTill := 0\<rparr>) s)"
    using kept_put [OF b st] by (intro blocked_put [OF b]; auto intro: kept_same)+
  then have s1: "blocked h i sr J (if unreadCountRefreshNeeded t (hi_inbox s k)
      then requestDialogEntry k None (put_state k (st\<lparr>hs_sentReadDone := True\<rparr>) s)
      else put_state k (st\<lparr>hs_sentReadDone := True, hs_sentReadTill := 0\<rparr>) s)"
    by (simp add: blocked_dialog_calls)
  have finish: "blocked h i sr J s'"
    if "blocked h i sr J s1" "Option.bind (sendReadRequests now s1) (checkPostponed k j) = Some s'" for s1
    using that blocked_sendReadRequests blocked_checkPostponed j by (auto simp: bind_eq_Some_conv) blast
  show ?thesis using r st finish [OF s1] finish [OF b] by (simp add: readFinished_def Let_def split: if_splits)
qed

lemma blocked_answered:
  assumes inv: "hist_inv s" and b: "blocked h i sr J s" and r: "answered now n s = Some s'"
  shows "blocked h i sr J s'"
proof (cases "map_of (hi_net s) n")
  case None
  then show ?thesis using b r by (simp add: answered_def)
next
  case (Some e)
  obtain k j gen where e: "e = (k, j, gen)" by (metis prod_cases3)
  have j: "j \<noteq> i" if "k = h"
  proof
    assume "j = i"
    obtain st sr' where "lookup s k = Some st" "map_of (hs_sent st) j = Some sr'" "sr_id sr' = n"
      using hist_invD(10) [OF inv] Some e by blast
    then have "sr_id sr = n" using kept_put [OF b _ that] \<open>j = i\<close> by (auto simp: kept_def)
    then show False using blockedD(4) [OF b] Some by simp
  qed
  have b1: "blocked h i sr J (net_cancel n s)" by (rule blocked_net_cancel [OF b])
  show ?thesis
  proof (cases gen)
    case (Request f l)
    then show ?thesis using r Some e b1 blocked_checkPostponed [OF b1 j] by (auto simp: answered_def Let_def split: if_splits)
  next
    case (ReadRequest t)
    then show ?thesis using r Some e blocked_readFinished [OF b1 j] by (simp add: answered_def Let_def)
  qed
qed

lemma blocked_readInboxTill:
  fixes s :: "('h::linorder, 'c) histories"
  assumes b: "blocked h i sr J s" and r: "readInboxTill a now k t force s = Some s'"
  shows "blocked h i sr J s'"
proof -
  define ok where "ok r \<longleftrightarrow> (\<forall>s'. r = Some s' \<longrightarrow> blocked h i sr J s')" for r :: "('h, 'c) histories option"
  have if_ok: "(c \<Longrightarrow> ok x) \<Longrightarrow> (\<not> c \<Longrightarrow> ok y) \<Longrightarrow> ok (if c then x else y)" for c x y by simp
  have some_ok: "blocked h i sr J s' \<Longrightarrow> ok (Some s')" for s' by (simp add: ok_def)
  define marked :: "('h, 'c) histories \<Rightarrow> ('h, 'c) histories" where "marked = (\<lambda>s. case ra_stillUnread a of None \<Rightarrow> s
      | Some n \<Rightarrow> upd_inbox k (setUnreadCount a n \<circ> setInboxReadTill t) s)"
  have m: "blocked h i sr J (marked s')" if "blocked h i sr J s'" for s'
    using that by (simp add: marked_def blocked_dialog_calls split: option.split)
  have md: "(case ra_stillUnread a of None \<Rightarrow> s' | Some n \<Rightarrow> upd_inbox k (setUnreadCount a n \<circ> setInboxReadTill t) s')
      = marked s'" for s' by (simp add: marked_def)
  have put: "blocked h i sr J (put_state k ((state_or_new s k)\<lparr>hs_willReadTill := t, hs_willReadWhen := w\<rparr>) s)"
    "blocked h i sr J (put_state k ((state_or_new s k)\<lparr>hs_willReadTill := t\<rparr>) s)" for w
    using blockedD(5) [OF b] by (intro blocked_put [OF b]; auto intro: kept_same)+
  have "ok (readInboxTill_scope a now k t force s)"
    unfolding readInboxTill_scope_def [of a now k t force s, unfolded Let_def md]
  proof (intro if_ok some_ok b blocked_dialog_calls(3) m put(2), goal_cases)
    case 1
    then show ?case using blocked_sendPendingReadInbox [OF b] by (auto simp: ok_def)
  next
    case 2
    then show ?case using blocked_sendReadRequests [OF put(1)] m by (auto simp: ok_def)
  next
    case 3
    then show ?case by (intro blocked_same [OF put(1)]) simp_all
  qed
  then show ?thesis using r by (auto simp: ok_def readInboxTill_def syncGuard_def blocked_dialog_calls split: if_splits)
qed

lemma blocked_action:
  assumes "histories_action s (Some s')" "hist_inv s" "blocked h i sr J s"
  shows "blocked h i sr J s'"
  using assms(1)
proof cases
  case (send type k f l)
  then show ?thesis using blocked_sendRequest [OF assms(3)] by simp
next
  case (answer now n)
  then show ?thesis using blocked_answered [OF assms(2,3)] by simp
next
  case (postponed_call m)
  have "blocked h i sr J (s\<lparr>hi_postponedCalls := m\<rparr>)" by (rule blocked_same [OF assms(3)]) simp_all
  then show ?thesis using postponed_call blocked_sendDialogRequests by simp
next
  case (dialogs ds hs ds')
  have "blocked h i sr J (s\<lparr>hi_dialogsSent := ds @ ds'\<rparr>)" by (rule blocked_same [OF assms(3)]) simp_all
  then show ?thesis using dialogs blocked_finalize_dialogs by simp
next
  case (timer d now)
  have "blocked h i sr J (s\<lparr>hi_readRequestsTimer := None\<rparr>)" by (rule blocked_same [OF assms(3)]) simp_all
  from blocked_sendReadRequests [OF this timer(1) [symmetric]] show ?thesis .
qed (use blocked_intros [OF assms(3)] blocked_sendPendingReadInbox [OF assms(3)] blocked_readInboxTill [OF assms(3)] in auto)

lemma blocked_run:
  "histories_run C s s' \<Longrightarrow> histories_reach s \<Longrightarrow> blocked h i sr J s \<Longrightarrow> i \<notin> C \<Longrightarrow> dom J \<inter> C = {} \<Longrightarrow> blocked h i sr J s'"
proof (induction rule: histories_run.induct)
  case (acts s s' s'')
  have "hist_inv s'" by (rule histories_reach_inv [OF histories_run_reach [OF acts(1,4)]])
  then show ?case using blocked_action [OF acts(2)] acts(3-7) by simp
next
  case (cancels s s' j s'')
  have "j \<noteq> i" "j \<notin> dom J" using cancels(2,7,8) by auto
  then show ?case using blocked_cancelRequest [OF _ _ _ cancels(3)] cancels(4-8) by simp
qed

section \<open>Properties\<close>

text \<open>C40: The request that deletes a whole channel never calls \<open>finish\<close>
  (\<open>deleteAllMessages\<close> gives it neither as its answer nor as its failure). Once such a deletion
  is answered it stays under way whatever happens next, unless it is cancelled itself: it is in the
  network no more, so no answer ends it; the history requests of the chat that wait go on waiting
  until they are cancelled; no history request of the chat gets into the network, and a new one is
  put to those that wait.\<close>

theorem deletion_without_finish_blocks:
  assumes "histories_reach s" "lookup s h = Some st" "map_of (hs_sent st) i = Some sr" "sr_type sr = RequestDelete"
    and "map_of (hi_net s) n = Some (h, i, Request False l)" "answered now n s = Some s1"
    and "histories_run C s1 s'" "i \<notin> C"
  shows "\<exists>st'. lookup s' h = Some st' \<and> map_of (hs_sent st') i = Some sr
    \<and> (\<forall>m j g. map_of (hi_net s') m = Some (h, j, g) \<longrightarrow>
         j \<noteq> i \<and> (\<exists>sr'. map_of (hs_sent st') j = Some sr' \<and> sr_type sr' \<noteq> RequestHistory))
    \<and> (\<forall>j g. map_of (hs_postponed st) j = Some g \<and> j \<notin> C \<longrightarrow> map_of (hs_postponed st') j = Some g)
    \<and> (\<forall>gen. \<exists>st2. lookup (snd (sendRequest h RequestHistory gen s')) h = Some st2
         \<and> map_of (hs_postponed st2) (fst (sendRequest h RequestHistory gen s')) = Some gen)"
proof -
  note inv = histories_reach_inv [OF assms(1)]
  note v = hist_invD [OF inv] and sv = hist_invD(9) [OF inv assms(2)]
  have n: "sr_id sr = n" using v(10) [OF assms(5)] assms(2,3) by auto
  have s1: "s1 = net_cancel n s" using assms(5,6) by (simp add: answered_def)
  define J where "J = map_of (hs_postponed st) |` (- C)"
  have "kept i sr J st" using assms(3,4) state_invD(1) [OF sv] by (auto simp: kept_def J_def map_le_def)
  moreover have "n < hi_netNext s" "i \<le> hi_requestAutoincrement s" using v(7) [OF assms(5)] state_invD(4) [OF sv assms(3)] by auto
  ultimately have b1: "blocked h i sr J s1"
    using v(1) assms(2) n by (auto simp: blocked_def s1 net_cancel_def lookup_def map_of_flat_erase)
  have "histories_step s (Some s1)" unfolding assms(6) [symmetric] by (rule histories_step_answer)
  then have r1: "histories_reach s1" by (rule histories_reach.step [OF assms(1)])
  have b: "blocked h i sr J s'" by (rule blocked_run [OF assms(7) r1 b1 assms(8)]) (auto simp: J_def)
  note inv' = histories_reach_inv [OF histories_run_reach [OF assms(7) r1]]
  obtain st' where st': "lookup s' h = Some st'" "kept i sr J st'" using b by (auto simp: blocked_def)
  note sv' = hist_invD(9) [OF inv' st'(1)]
  have del: "postponeHistoryRequest st'" by (rule kept_postpones [OF st'(2)])
  have net: "j \<noteq> i \<and> (\<exists>sr'. map_of (hs_sent st') j = Some sr' \<and> sr_type sr' \<noteq> RequestHistory)"
    if m: "map_of (hi_net s') m = Some (h, j, g)" for m j g
  proof -
    obtain sr' where sr': "map_of (hs_sent st') j = Some sr'" "sr_id sr' = m" using hist_invD(10) [OF inv' m] st'(1) by auto
    have "j \<noteq> i"
    proof
      assume "j = i"
      then have "m = sr_id sr" using sr' st'(2) by (simp add: kept_def)
      then show False using blockedD(4) [OF b] m by simp
    qed
    then show ?thesis using sr' state_invD(6) [OF sv' del] by blast
  qed
  have wait: "map_of (hs_postponed st') j = Some g" if "map_of (hs_postponed st) j = Some g" "j \<notin> C" for j g
  proof -
    have "J j = Some g" using that by (simp add: J_def)
    then show ?thesis using st'(2) by (force simp: kept_def map_le_def)
  qed
  have new: "\<exists>st2. lookup (snd (sendRequest h RequestHistory gen s')) h = Some st2
      \<and> map_of (hs_postponed st2) (fst (sendRequest h RequestHistory gen s')) = Some gen" for gen
  proof -
    have son: "state_or_new s' h = st'" using st'(1) by (simp add: state_or_new_def)
    let ?i = "hi_requestAutoincrement s' + 1"
    have "map_of (hs_postponed st') ?i = None" using state_invD(3) [OF sv', of ?i] by force
    then have "map_of (flat_emplace ?i gen (hs_postponed st')) ?i = Some gen"
      using state_invD(1) [OF sv'] by (simp add: map_of_flat_emplace)
    then show ?thesis using del hist_invD(1) [OF inv'] by (simp add: sendRequest_def son Let_def)
  qed
  show ?thesis using st'(1) st'(2) net wait new by (intro exI [of _ st']) (simp add: kept_def)
qed

text \<open>In chat 7 a deletion without \<open>finish\<close> is answered while a history request waits.\<close>

definition example_blocked :: "(nat, unit) histories" where
  "example_blocked = snd (sendRequest 7 RequestHistory (Request True 5) (snd (sendRequest 7 RequestDelete (Request False 6) example_start)))"

lemma example_blocked_eq:
  "example_blocked = example_start\<lparr>hi_states := [(7, new_state\<lparr>hs_postponed := [(2, Request True 5)],
      hs_sent := [(1, \<lparr>sr_generator = Request False 6, sr_id = 1, sr_type = RequestDelete\<rparr>)]\<rparr>)],
      hi_historyByRequest := [(1, 7), (2, 7)], hi_requestAutoincrement := 2, hi_net := [(1, 7, 1, Request False 6)], hi_netNext := 2\<rparr>"
proof -
  have "snd (sendRequest 7 RequestDelete (Request False 6) example_start) = example_start\<lparr>hi_states := [(7, new_state\<lparr>hs_postponed := [],
      hs_sent := [(1, \<lparr>sr_generator = Request False 6, sr_id = 1, sr_type = RequestDelete\<rparr>)]\<rparr>)],
      hi_historyByRequest := [(1, 7)], hi_requestAutoincrement := 1, hi_net := [(1, 7, 1, Request False 6)], hi_netNext := 2\<rparr>"
    by (simp add: run_simps)
  then show ?thesis unfolding example_blocked_def by (simp add: run_simps)
qed

lemma example_blocked_reach: "histories_reach example_blocked"
  unfolding example_blocked_def example_start_def
  by (intro histories_reach.step [OF _ histories_step_send] histories_reach.start) simp_all

text \<open>After the answer another deletion is sent; the request still waits.\<close>

theorem deletion_without_finish_blocks_witness:
  "\<exists>s1 st'. answered 0 1 example_blocked = Some s1
     \<and> lookup (snd (sendRequest 7 RequestDelete (Request True 8) s1)) 7 = Some st'
     \<and> map_of (hs_postponed st') 2 = Some (Request True 5)"
proof -
  obtain s1 where s1: "answered 0 1 example_blocked = Some s1"
    using answered_inv [OF histories_reach_inv [OF example_blocked_reach], of 0 1] by blast
  have run: "histories_run {} s1 (snd (sendRequest 7 RequestDelete (Request True 8) s1))"
    by (rule histories_run.acts [OF histories_run.here histories_action.send]) simp
  let ?st = "new_state\<lparr>hs_postponed := [(2, Request True 5)],
      hs_sent := [(1, \<lparr>sr_generator = Request False 6, sr_id = 1, sr_type = RequestDelete\<rparr>)]\<rparr>"
  have "lookup example_blocked 7 = Some ?st" by (simp add: example_blocked_eq lookup_def)
  from deletion_without_finish_blocks [OF example_blocked_reach this, of 1 "\<lparr>sr_generator = Request False 6, sr_id = 1, sr_type = RequestDelete\<rparr>", OF _ _ _ s1 run]
  obtain st' where st': "lookup (snd (sendRequest 7 RequestDelete (Request True 8) s1)) 7 = Some st'"
      "\<forall>j g. map_of [(2, Request True 5)] j = Some g \<and> j \<notin> {} \<longrightarrow> map_of (hs_postponed st') j = Some g"
    by (auto simp: example_blocked_eq)
  then show ?thesis using s1 by (intro exI [of _ s1] exI [of _ st']) simp
qed

end
