(* ===== verification/Spec2Isabelle.thy ===== *)
theory Spec2Isabelle imports PtsWaiter ReceivedIds TcpProtocol TcpStream Ids SparseIdsList SparseIdsSlice MessagesList Business SegmentTree AutoDownload CardValidator LangTag StreamingCache DialogsMain HistoriesBlocked begin

section \<open>A verification development of the core logic of a desktop messenger\<close>

text \<open>
  The program is the desktop client of a messenger (C++ on Qt, below \<open>src/Telegram/SourceFiles\<close>;
  paths here are relative to it). Most of its code paints widgets or builds requests of a generated
  scheme. The development models the parts that carry logic of their own: how packets are framed and
  parsed, in which order updates of the server are applied, what the client knows of lists kept by the
  server, how the chats are listed, searched, pinned and counted, how requests of a chat wait for each
  other, and a number of self-contained computations. Every definition is a translation of the named
  functions; the libraries that are not in the tree (submodules such as \<open>lib_base\<close> and
  \<open>lib_ui\<close>, the generated scheme, Qt, OpenSSL) are parameters of the model or, for the ordered
  containers and small Qt functions the code relies on, their documented behaviour.

  \<^bold>\<open>Parts and theories\<close>

  \<^item> Transport (\<open>mtproto\<close>). \<open>TcpProtocol\<close>: the packet formats of
  \<open>TcpConnection::Protocol\<close> (\<open>connection_tcp.cpp\<close>), the interface \<open>packet_format\<close> and its
  implementations. \<open>TcpStream\<close>: the receive buffers of \<open>TcpConnection\<close> (\<open>socketRead\<close>,
  \<open>ensureAvailableInBuffer\<close>, \<open>parsePacket\<close>) and the parsing of unencrypted answers
  (\<open>connection_abstract.cpp\<close>). \<open>ReceivedIds\<close>: the replay window
  (\<open>details/mtproto_received_ids_manager.cpp\<close>). Shown: formats round trip; feeding bytes in any
  pieces through the two buffers is the same as reading one stream (a simulation), so every packet is
  delivered once and in order; no identifier is accepted twice within the window; two findings on
  length fields and on reading past an answer.
  \<^item> Updates (\<open>data/data_pts_waiter.cpp\<close>). \<open>PtsWaiter\<close>: the sequencer of updates. Shown:
  what it applies is a prefix of the server's sequence, whatever order updates come in, and complete
  when the gaps are filled; updates that come again after they were applied change nothing, but one that
  comes again while it waits behind a gap can close the gap wrongly (a finding).
  \<^item> Identifiers (\<open>data/data_peer_id.cpp\<close>, \<open>data_msg_id.h\<close>). \<open>Ids\<close>: 64-bit peer
  identifiers with their flag and kind, and the ranges of message identifiers.
  \<^item> Knowledge of server lists. \<open>SparseIdsList\<close> (\<open>storage/storage_sparse_ids_list.cpp\<close>),
  \<open>SparseIdsSlice\<close> (\<open>data/data_sparse_ids.cpp\<close>, \<open>data_abstract_sparse_ids.h\<close>), and
  \<open>MessagesList\<close> (\<open>data/data_messages.cpp\<close>). The slices known stay sorted, apart and true to the
  server's list under additions, new messages and removals; answers are exactly the window asked for; a
  window that follows the updates stays right under stated conditions, with an example where one does
  not (a finding); merged slices find each message where it is.
  \<^item> Lists of chats (\<open>dialogs\<close>). \<open>DialogsList\<close> (rows and their layout), \<open>DialogsPinned\<close>
  (sort positions, pinned chats), \<open>DialogsIndexed\<close> (the lists of first letters and the search),
  \<open>DialogsMain\<close> (counters, and the operations of an entry as a step relation). Shown: an invariant
  after any steps, search completeness, the order of sort positions, the pinned chats on top. Clearing a
  list with rows is outside of the steps (a finding).
  \<^item> Requests of chats (\<open>data/data_histories.cpp\<close>). \<open>Histories\<close> (the operations) and
  \<open>HistoriesRuns\<close> (the step relation's invariant), \<open>HistoriesBlocked\<close> (a deletion that never
  finishes). Shown: no run fails an assertion; deletions exclude history requests; waiting requests are
  sent once the deletions end; and one kind of deletion that never ends, whatever follows.
  \<^item> Business accounts (\<open>data/business/data_business_common.cpp\<close>): \<open>WorkingHours\<close> (normal
  form of intervals, the days of the editor) and \<open>Business\<close> (conversions from and to the server).
  \<^item> Computations: \<open>SegmentTree\<close> (\<open>statistics/segment_tree.cpp\<close>, queries equal to the naive
  ones), \<open>AutoDownload\<close> (\<open>data/data_auto_download.cpp\<close>, limits and their serialisation),
  \<open>CardValidator\<close> (\<open>payments/stripe\<close>).
  \<^item> Texts (\<open>lang/lang_tag.cpp\<close>). \<open>LangTag\<close>: plural rules, the choice of a rule by the packed
  name of a language, shortened counts, tags. Shown: which forms every rule can return,
  the choice by packed keys is the choice by names, tags are filled in any order; two findings on
  shortened counts. \<open>QtStrings\<close> holds the strings that it shares with \<open>CardValidator\<close>.
  \<^item> Streaming (\<open>media/streaming/media_streaming_reader.cpp\<close>, \<open>media_streaming_loader.cpp\<close>).
  \<open>StreamingParts\<close>: parts, entries of the cache, the queue of requests. \<open>StreamingSlices\<close>: the slices of a
  file. \<open>StreamingFill\<close>: fills read the bytes of the file, never fail, and ask for what is missing.
  \<open>StreamingCache\<close>: entries are read back as written, finalizing ends and saves everything once the
  header is settled (for files below 2 GiB). Findings: the
  whole file stays in memory when there is no cache; files between 4080 MiB and 4 GiB fail an
  assertion. The queues of \<open>Reader\<close> between its threads and its requests to the loader and the cache are
  not modelled.
  \<open>Prelude\<close> holds what they share: sorted lists as the ordered containers of the client, bytes,
  integer division as in C++.

  \<^bold>\<open>Conventions\<close>

  A class is a record of its fields and each method a function on it, with the names of the source
  (prefixed where a record field needs to be unique). A failed \<open>Expects\<close>, \<open>Ensures\<close>,
  \<open>Assert\<close>, an access out of range or a missing case is \<open>None\<close>. Ordered maps and sets are
  sorted lists, iterators are positions. Fixed-width integers are words where they wrap or are cut into
  bits (identifiers, packets, sort positions), integers elsewhere, with the bounds stated in the
  properties. Event streams and calls to owners are recorded in the order they are made.

  Interfaces are locales, each interpreted on the definitions of the code: \<open>packet_format\<close> and
  \<open>length_reader\<close> (packet formats), \<open>ordered_map\<close> (flat containers), \<open>range_query\<close> (maximum
  and minimum of a segment), \<open>row_order\<close> (orders of rows by date and by name), \<open>pinned_cache\<close>
  (where pinned indices are cached).

  \<^bold>\<open>Bounds and fuel\<close>

  Loops are structural recursions on lists where the code walks a container. The queries of
  \<open>SegmentTree\<close> take the length of the array as fuel, more than the depth of the tree; \<open>build\<close>
  fails on an empty segment instead of recurring for ever, and the heap of \<open>2 * 2 ^ (floorlog + 1)\<close>
  nodes is shown to suffice. \<open>socketRead\<close> recurs on the chunks the socket delivers.

  \<^bold>\<open>Not modelled\<close>

  Painting and widgets (\<open>ui\<close>, \<open>window\<close>, \<open>boxes\<close>, \<open>settings\<close>, \<open>info\<close>,
  \<open>history/view\<close>, \<open>media/view\<close>), whose results depend on fonts and styles that are not in the
  tree; requests and the dispatch of answers (\<open>apiwrap.cpp\<close>, \<open>api\<close>, \<open>data_session.cpp\<close>),
  whose types are generated; threads, encryption and network sessions (\<open>mtproto/session_private.cpp\<close>);
  files and databases (\<open>storage\<close>), media playback, calls, platform integration. What is not
  modelled inside a modelled file is said where the theory begins and in the notes of the components.
\<close>

end
